(* ===== verification/JsPrelude.thy ===== *)
theory JsPrelude
  imports Main "HOL-Library.Sublist"
begin

text \<open>
  What every component of the model shares: the automation collections, strings as the code uses
  them (\<^verbatim>\<open>split\<close>, \<^verbatim>\<open>join\<close>, \<^verbatim>\<open>trim\<close>, \<^verbatim>\<open>startsWith\<close>, \<^verbatim>\<open>indexOf\<close>, decimal digits in template
  strings), and generic facts on lists and association lists.

  A JavaScript string is a list of code units; here it is an Isabelle \<^typ>\<open>string\<close>, so the code
  units modelled are those below 256.  Every operation treats code units above that like any other
  unit that is not white space, not a digit and not one of the characters a pattern names.
\<close>

named_theorems js_simps \<open>unfolding rules for the value and string operations\<close>
named_theorems js_defs \<open>definitions a component's own proofs unfold together\<close>

section \<open>Characters and strings\<close>

text \<open>The white space of \<^verbatim>\<open>\s\<close> and of \<^verbatim>\<open>String.prototype.trim\<close> among these units.\<close>

definition is_space :: "char \<Rightarrow> bool" where
  "is_space c = (let n = (of_char c :: nat) in (9 \<le> n \<and> n \<le> 13) \<or> n = 32 \<or> n = 160)"

definition is_digit :: "char \<Rightarrow> bool" where
  "is_digit c = (let n = (of_char c :: nat) in 48 \<le> n \<and> n \<le> 57)"

definition is_upper :: "char \<Rightarrow> bool" where
  "is_upper c = (let n = (of_char c :: nat) in 65 \<le> n \<and> n \<le> 90)"

definition is_lower :: "char \<Rightarrow> bool" where
  "is_lower c = (let n = (of_char c :: nat) in 97 \<le> n \<and> n \<le> 122)"

text \<open>The class \<^verbatim>\<open>[A-Za-z0-9_.-]\<close> of parameter names and asset ids.\<close>

definition is_name_char :: "char \<Rightarrow> bool" where
  "is_name_char c = (is_upper c \<or> is_lower c \<or> is_digit c \<or> c \<in> {CHR ''_'', CHR ''.'', CHR ''-''})"

definition starts_with :: "string \<Rightarrow> string \<Rightarrow> bool" where
  "starts_with p s = (take (length p) s = p)"

definition ends_with :: "string \<Rightarrow> string \<Rightarrow> bool" where
  "ends_with p s = starts_with (rev p) (rev s)"

definition js_trim :: "string \<Rightarrow> string" where
  "js_trim s = rev (dropWhile is_space (rev (dropWhile is_space s)))"

text \<open>\<^verbatim>\<open>toLowerCase\<close>; of these code units the letters and their accented forms change.\<close>

definition lower_char :: "char \<Rightarrow> char" where
  "lower_char c =
     (let n = of_char c :: nat
      in if is_upper c \<or> (192 \<le> n \<and> n \<le> 222 \<and> n \<noteq> 215) then char_of (n + 32) else c)"

definition toLowerCase :: "string \<Rightarrow> string" where
  "toLowerCase s = map lower_char s"

text \<open>\<^verbatim>\<open>TextEncoder\<close>: a code unit below 128 is one byte, one below 256 two.\<close>

definition utf8_length :: "string \<Rightarrow> nat" where
  "utf8_length s = sum_list (map (\<lambda>c. if (of_char c :: nat) < 128 then 1 else 2) s)"

text \<open>\<^verbatim>\<open>s.split(c)\<close> for a separator of one character: never empty, and empty parts are kept.\<close>

fun split_on :: "char \<Rightarrow> string \<Rightarrow> string list" where
  "split_on c [] = [[]]"
| "split_on c (x # xs) =
     (if x = c then [] # split_on c xs
      else (case split_on c xs of [] \<Rightarrow> [[x]] | p # ps \<Rightarrow> (x # p) # ps))"

fun join_with :: "string \<Rightarrow> string list \<Rightarrow> string" where
  "join_with sep [] = []"
| "join_with sep [p] = p"
| "join_with sep (p # q # ps) = p @ sep @ join_with sep (q # ps)"

text \<open>\<^verbatim>\<open>s.indexOf(c)\<close>, with \<^const>\<open>None\<close> for \<open>-1\<close>.\<close>

fun index_of :: "'a \<Rightarrow> 'a list \<Rightarrow> nat option" where
  "index_of c [] = None"
| "index_of c (x # xs) = (if x = c then Some 0 else map_option Suc (index_of c xs))"

text \<open>\<^verbatim>\<open>xs.findIndex(p)\<close>, with \<^const>\<open>None\<close> for \<open>-1\<close>.\<close>

fun find_index :: "('a \<Rightarrow> bool) \<Rightarrow> 'a list \<Rightarrow> nat option" where
  "find_index p [] = None"
| "find_index p (x # xs) = (if p x then Some 0 else map_option Suc (find_index p xs))"

text \<open>A non-negative integer as a template string writes it.\<close>

definition digit_char :: "nat \<Rightarrow> char" where
  "digit_char d = char_of (48 + d)"

fun show_nat :: "nat \<Rightarrow> string" where
  "show_nat n = (if n < 10 then [digit_char n] else show_nat (n div 10) @ [digit_char (n mod 10)])"

declare show_nat.simps [simp del]

definition read_digits :: "string \<Rightarrow> nat" where
  "read_digits s = foldl (\<lambda>a c. 10 * a + (of_char c - 48)) 0 s"

subsection \<open>Facts on strings\<close>

lemma starts_with_append [simp]: "starts_with p (p @ s)"
  by (simp add: starts_with_def)

lemma starts_withD: "starts_with p s \<Longrightarrow> s = p @ drop (length p) s"
  unfolding starts_with_def by (metis append_take_drop_id)

lemma starts_with_iff: "starts_with p s \<longleftrightarrow> (\<exists>t. s = p @ t)"
  by (metis starts_withD starts_with_append)

lemma split_on_not_Nil [simp]: "split_on c s \<noteq> []"
  by (cases s) (auto split: list.splits)

lemma split_on_no_sep: "c \<notin> set s \<Longrightarrow> split_on c s = [s]"
  by (induction s) auto

lemma split_on_append:
  "split_on c (s @ c # t) = split_on c s @ split_on c t"
proof (induction s)
  case (Cons x s)
  then show ?case
    by (cases "split_on c s") (auto split: list.splits)
qed simp

lemma split_on_parts: "p \<in> set (split_on c s) \<Longrightarrow> c \<notin> set p"
proof (induction s arbitrary: p)
  case (Cons x s)
  then show ?case
    by (cases "split_on c s") (auto split: if_splits)
qed simp

lemma join_split: "join_with [c] (split_on c s) = s"
proof (induction s)
  case (Cons x s)
  then show ?case
    by (cases "split_on c s"; cases "tl (split_on c s)") (auto)
qed simp

lemma find_index_Some:
  "find_index p xs = Some i \<Longrightarrow> i < length xs \<and> p (xs ! i) \<and> (\<forall>j < i. \<not> p (xs ! j))"
proof (induction xs arbitrary: i)
  case (Cons x xs)
  then show ?case
    by (auto split: if_splits simp: nth_Cons split: nat.splits)
qed simp

lemma find_index_None: "find_index p xs = None \<longleftrightarrow> (\<forall>x \<in> set xs. \<not> p x)"
  by (induction xs) auto

lemma find_index_append_first:
  "\<forall>x \<in> set xs. \<not> p x \<Longrightarrow> p y \<Longrightarrow> find_index p (xs @ y # ys) = Some (length xs)"
  by (induction xs) auto

lemma index_of_conv: "index_of c xs = find_index (\<lambda>x. x = c) xs"
  by (induction xs) auto

lemma of_char_digit: "d < 10 \<Longrightarrow> (of_char (digit_char d) :: nat) = 48 + d"
  by (simp add: digit_char_def)

lemma read_digits_snoc: "read_digits (s @ [c]) = 10 * read_digits s + (of_char c - 48)"
  by (simp add: read_digits_def)

lemma read_show_nat [simp]: "read_digits (show_nat n) = n"
proof (induction n rule: show_nat.induct)
  case (1 n)
  show ?case
  proof (cases "n < 10")
    case True
    then show ?thesis
      by (subst show_nat.simps) (simp add: read_digits_def of_char_digit)
  next
    case False
    with "1.IH" have "read_digits (show_nat (n div 10)) = n div 10" by simp
    with False show ?thesis
      by (subst show_nat.simps) (simp add: read_digits_snoc of_char_digit)
  qed
qed

lemma show_nat_inject [simp]: "show_nat m = show_nat n \<longleftrightarrow> m = n"
  by (metis read_show_nat)

lemma show_nat_not_Nil [simp]: "show_nat n \<noteq> []"
  by (subst show_nat.simps) simp

lemma show_nat_all_digits: "list_all is_digit (show_nat n)"
proof (induction n rule: show_nat.induct)
  case (1 n)
  have d: "is_digit (digit_char d)" if "d < 10" for d
    using of_char_digit [OF that] that by (simp add: is_digit_def)
  show ?case using 1 d [of n] d [of "n mod 10"] by (subst show_nat.simps) simp
qed

lemma show_nat_digits: "c \<in> set (show_nat n) \<Longrightarrow> is_digit c"
  using show_nat_all_digits [of n] by (simp add: list_all_iff)

lemma utf8_length_ge: "length s \<le> utf8_length s"
  by (induction s) (auto simp: utf8_length_def)

lemma of_char_lower:
  "(of_char (lower_char c) :: nat) =
     (let n = of_char c in if is_upper c \<or> (192 \<le> n \<and> n \<le> 222 \<and> n \<noteq> 215) then n + 32 else n)"
proof (cases "is_upper c \<or> (192 \<le> (of_char c :: nat) \<and> (of_char c :: nat) \<le> 222 \<and> (of_char c :: nat) \<noteq> 215)")
  case True
  then have "(of_char c :: nat) + 32 < 256" by (auto simp: is_upper_def Let_def)
  with True show ?thesis by (simp add: lower_char_def Let_def)
qed (auto simp: lower_char_def Let_def)

lemma lower_char_idem [simp]: "lower_char (lower_char c) = lower_char c"
proof -
  define n where "n = (of_char c :: nat)"
  define m where "m = (of_char (lower_char c) :: nat)"
  have "m = (if (65 \<le> n \<and> n \<le> 90) \<or> (192 \<le> n \<and> n \<le> 222 \<and> n \<noteq> 215) then n + 32 else n)"
    using of_char_lower [of c] by (simp add: n_def m_def is_upper_def Let_def)
  then have "\<not> (65 \<le> m \<and> m \<le> 90) \<and> \<not> (192 \<le> m \<and> m \<le> 222 \<and> m \<noteq> 215)" by presburger
  then show ?thesis
    by (subst lower_char_def) (auto simp: is_upper_def Let_def m_def [symmetric])
qed

lemma is_space_lower [simp]: "is_space (lower_char c) = is_space c"
proof -
  define n where "n = (of_char c :: nat)"
  define m where "m = (of_char (lower_char c) :: nat)"
  have "m = (if (65 \<le> n \<and> n \<le> 90) \<or> (192 \<le> n \<and> n \<le> 222 \<and> n \<noteq> 215) then n + 32 else n)"
    using of_char_lower [of c] by (simp add: n_def m_def is_upper_def Let_def)
  then have "(9 \<le> m \<and> m \<le> 13) \<or> m = 32 \<or> m = 160 \<longleftrightarrow> (9 \<le> n \<and> n \<le> 13) \<or> n = 32 \<or> n = 160" by presburger
  then show ?thesis by (simp add: is_space_def Let_def flip: m_def n_def)
qed

lemma toLowerCase_idem [simp]: "toLowerCase (toLowerCase s) = toLowerCase s"
  by (simp add: toLowerCase_def)

lemma js_trim_no_space: "\<forall>c \<in> set s. \<not> is_space c \<Longrightarrow> js_trim s = s"
proof -
  assume a: "\<forall>c \<in> set s. \<not> is_space c"
  have d: "dropWhile is_space t = t" if "\<forall>c \<in> set t. \<not> is_space c" for t
    using that by (cases t) simp_all
  show ?thesis using d [of s] d [of "rev s"] a by (simp add: js_trim_def)
qed

section \<open>The first free name of a numbered family\<close>

text \<open>
  \<^verbatim>\<open>for (n = k; ; n++) if (!taken.has(`${stem}-${n}`)) return ...\<close>: the loop of \<^verbatim>\<open>freshId\<close> and
  \<^verbatim>\<open>withAdoptedDefinition\<close> (\<^verbatim>\<open>blocks.ts\<close>) and of \<^verbatim>\<open>uniqueAssetId\<close> (\<^verbatim>\<open>assets.ts\<close>).  It ends
  because the candidates are pairwise different and \<open>taken\<close> is finite.
\<close>

definition numbered :: "string \<Rightarrow> nat \<Rightarrow> string" where
  "numbered stem n = stem @ ''-'' @ show_nat n"

lemma numbered_inject [simp]: "numbered stem m = numbered stem n \<longleftrightarrow> m = n"
  by (simp add: numbered_def)

lemma finite_numbered_taken: "finite {k. n \<le> k \<and> numbered stem k \<in> set taken}"
proof -
  have "finite {k. numbered stem k \<in> set taken}"
    using finite_vimageI [of "set taken" "numbered stem"]
    by (simp add: inj_def vimage_def)
  then show ?thesis by (rule rev_finite_subset) auto
qed

function first_free :: "string \<Rightarrow> string list \<Rightarrow> nat \<Rightarrow> string" where
  "first_free stem taken n =
     (if numbered stem n \<in> set taken then first_free stem taken (Suc n) else numbered stem n)"
  by pat_completeness auto
termination
proof (relation "measure (\<lambda>(stem, taken, n). card {k. n \<le> k \<and> numbered stem k \<in> set taken})")
  fix stem taken n
  assume "numbered stem n \<in> set taken"
  then have "{k. n \<le> k \<and> numbered stem k \<in> set taken}
      = insert n {k. Suc n \<le> k \<and> numbered stem k \<in> set taken}"
    by (auto simp: le_Suc_eq Suc_le_eq order.order_iff_strict)
  then have "{k. Suc n \<le> k \<and> numbered stem k \<in> set taken} \<subset> {k. n \<le> k \<and> numbered stem k \<in> set taken}"
    by (metis (no_types, lifting) insertI1 mem_Collect_eq not_less_eq_eq order_refl psubsetI subset_insertI)
  then show "((stem, taken, Suc n), (stem, taken, n))
      \<in> measure (\<lambda>(stem, taken, n). card {k. n \<le> k \<and> numbered stem k \<in> set taken})"
    by (simp add: psubset_card_mono finite_numbered_taken)
qed simp

declare first_free.simps [simp del]

lemma first_free_not_taken: "first_free stem taken n \<notin> set taken"
proof (induction stem taken n rule: first_free.induct)
  case (1 stem taken n)
  then show ?case by (subst first_free.simps) simp
qed

lemma first_free_form: "\<exists>k \<ge> n. first_free stem taken n = numbered stem k"
proof (induction stem taken n rule: first_free.induct)
  case (1 stem taken n)
  then show ?case
    by (subst first_free.simps) (auto intro: Suc_leD)
qed

lemma first_free_least:
  "first_free stem taken n = numbered stem k \<Longrightarrow> n \<le> j \<Longrightarrow> j < k \<Longrightarrow> numbered stem j \<in> set taken"
proof (induction stem taken n rule: first_free.induct)
  case (1 stem taken n)
  show ?case
  proof (cases "numbered stem n \<in> set taken")
    case True
    with "1.prems"(1) have "first_free stem taken (Suc n) = numbered stem k"
      by (subst (asm) first_free.simps) simp
    with True "1.IH" "1.prems"(2,3) show ?thesis
      by (cases "j = n") auto
  next
    case False
    with "1.prems" show ?thesis
      by (subst (asm) first_free.simps) simp
  qed
qed

section \<open>Loops over lists\<close>

text \<open>
  A loop that returns the first result an element gives, a loop that threads a state through a
  \<^verbatim>\<open>map\<close>, and a JavaScript \<^verbatim>\<open>Set\<close> as the list of its elements in insertion order.
\<close>

fun first_some :: "('a \<Rightarrow> 'b option) \<Rightarrow> 'a list \<Rightarrow> 'b option" where
  "first_some f [] = None"
| "first_some f (x # xs) = (case f x of Some y \<Rightarrow> Some y | None \<Rightarrow> first_some f xs)"

fun map_state :: "('a \<Rightarrow> 's \<Rightarrow> 'b \<times> 's) \<Rightarrow> 'a list \<Rightarrow> 's \<Rightarrow> 'b list \<times> 's" where
  "map_state f [] s = ([], s)"
| "map_state f (x # xs) s =
     (let (y, s1) = f x s; (ys, s2) = map_state f xs s1 in (y # ys, s2))"

definition set_add :: "'a \<Rightarrow> 'a list \<Rightarrow> 'a list" where
  "set_add x xs = (if x \<in> set xs then xs else xs @ [x])"

abbreviation set_adds :: "'a list \<Rightarrow> 'a list \<Rightarrow> 'a list" where
  "set_adds xs acc \<equiv> fold set_add xs acc"

lemma first_some_cong [fundef_cong]:
  "xs = ys \<Longrightarrow> (\<And>x. x \<in> set ys \<Longrightarrow> f x = g x) \<Longrightarrow> first_some f xs = first_some g ys"
proof (induction xs arbitrary: ys)
  case (Cons x xs)
  have "f x = g x" and "\<And>z. z \<in> set xs \<Longrightarrow> f z = g z"
    using Cons.prems by auto
  with Cons.IH [of xs] Cons.prems(1) show ?case by (auto split: option.splits)
qed simp

lemma map_state_cong [fundef_cong]:
  "xs = ys \<Longrightarrow> s = t \<Longrightarrow> (\<And>x u. x \<in> set ys \<Longrightarrow> f x u = g x u) \<Longrightarrow> map_state f xs s = map_state g ys t"
  by (induction xs arbitrary: ys s t) (auto simp: Let_def split: prod.splits)

lemma first_some_eq_None: "first_some f xs = None \<longleftrightarrow> (\<forall>x \<in> set xs. f x = None)"
  by (induction xs) (auto split: option.splits)

lemma first_some_eq_Some: "first_some f xs = Some y \<Longrightarrow> \<exists>x \<in> set xs. f x = Some y"
  by (induction xs) (auto split: option.splits)

lemma first_some_find:
  "(\<And>x. x \<in> set xs \<Longrightarrow> f x = find P (g x)) \<Longrightarrow> first_some f xs = find P (concat (map g xs))"
proof (induction xs)
  case (Cons x xs)
  have "find P (as @ bs) = (case find P as of Some y \<Rightarrow> Some y | None \<Rightarrow> find P bs)" for as bs
    by (induction as) auto
  with Cons show ?case by (auto split: option.splits)
qed simp

lemma map_state_pure:
  "(\<And>x s. x \<in> set xs \<Longrightarrow> f x s = (g x, h x s)) \<Longrightarrow> map_state f xs s = (map g xs, fold h xs s)"
  by (induction xs arbitrary: s) auto

lemma length_map_state: "length (fst (map_state f xs s)) = length xs"
proof (induction xs arbitrary: s)
  case (Cons x xs)
  then show ?case by (cases "f x s"; cases "map_state f xs (snd (f x s))") (auto, metis fst_conv)
qed simp

lemma map_state_invariant:
  assumes "\<And>x s. x \<in> set xs \<Longrightarrow> I s \<Longrightarrow> I (snd (f x s)) \<and> Q (fst (f x s))"
    and "I s"
  shows "I (snd (map_state f xs s)) \<and> (\<forall>y \<in> set (fst (map_state f xs s)). Q y)"
  using assms
proof (induction xs arbitrary: s)
  case (Cons x xs)
  obtain y s1 where 1: "f x s = (y, s1)" by (cases "f x s")
  obtain ys s2 where 2: "map_state f xs s1 = (ys, s2)" by (cases "map_state f xs s1")
  have "I s1 \<and> Q y" using Cons.prems(1) [of x s] Cons.prems(2) 1 by simp
  moreover have "I s2 \<and> (\<forall>y \<in> set ys. Q y)"
    using Cons.IH [of s1] Cons.prems(1) calculation 2 by simp
  ultimately show ?case using 1 2 by simp
qed simp

text \<open>A loop whose answers do not depend on what it threads through, as long as that keeps to \<open>I\<close>.\<close>

lemma map_state_tracked:
  assumes "\<And>x s. x \<in> set xs \<Longrightarrow> I s \<Longrightarrow> f x s = (g x, h x s) \<and> I (h x s)" "I s"
  shows "map_state f xs s = (map g xs, fold h xs s) \<and> I (fold h xs s)"
  using assms by (induction xs arbitrary: s) auto

lemma set_set_add [simp]: "set (set_add x xs) = insert x (set xs)"
  by (auto simp: set_add_def)

lemma distinct_set_add [simp]: "distinct (set_add x xs) = distinct xs"
  by (auto simp: set_add_def)

lemma set_set_adds [simp]: "set (set_adds xs acc) = set xs \<union> set acc"
  by (induction xs arbitrary: acc) auto

lemma distinct_set_adds [simp]: "distinct (set_adds xs acc) = distinct acc"
  by (induction xs arbitrary: acc) auto

lemma set_adds_idem: "set xs \<subseteq> set acc \<Longrightarrow> set_adds xs acc = acc"
  by (induction xs arbitrary: acc) (auto simp: set_add_def)

lemma fold_set_adds: "fold (\<lambda>x. set_adds (g x)) xs acc = set_adds (concat (map g xs)) acc"
  by (induction xs arbitrary: acc) auto

lemma fold_cong_pointwise:
  "(\<And>x s. x \<in> set xs \<Longrightarrow> f x s = g x s) \<Longrightarrow> fold f xs s = fold g xs s"
  by (induction xs arbitrary: s) auto

end
