(* ===== verification/JsValue.thy ===== *)
theory JsValue
  imports JsPrelude
begin

text \<open>
  Board documents: the values \<^verbatim>\<open>JSON.parse\<close> yields, and \<^verbatim>\<open>undefined\<close>, which fields of a live
  descriptor may hold.  An object is the list of its own properties in the order JavaScript
  enumerates them.  Host objects (typed arrays, class instances, functions) are not documents and
  are outside the model, so a test that an object's prototype is \<^verbatim>\<open>Object.prototype\<close> holds of every
  object here, and \<^verbatim>\<open>structuredClone\<close> is the identity on these immutable values.
\<close>

section \<open>Values\<close>

text \<open>
  A finite number is given by its shortest decimal: \<open>Dec m e\<close> is \<open>m * 10 ^ e\<close>, with \<open>m\<close> not
  divisible by ten unless it is \<open>Dec 0 0\<close>.  This is the decimal \<^verbatim>\<open>Number.prototype.toString\<close> writes,
  and distinct finite doubles have distinct ones.  \<open>NegZero\<close> is \<open>-0\<close>, which \<^verbatim>\<open>===\<close> does not
  distinguish from \<open>0\<close> and \<^verbatim>\<open>Object.is\<close> does.
\<close>

datatype jsnum = NegZero | Dec int int

datatype jsval =
    JUndef
  | JNull
  | JBool bool
  | JNum jsnum
  | JStr string
  | JArr "jsval list"
  | JObj "(string \<times> jsval) list"

type_synonym obj = "(string \<times> jsval) list"

text \<open>\<^verbatim>\<open>Object.values(o)\<close>; a recursion through it goes into smaller values.\<close>

definition ovalues :: "(string \<times> 'v) list \<Rightarrow> 'v list" where
  "ovalues es = map snd es"

lemma ovalues_Nil [simp]: "ovalues [] = []"
  by (simp add: ovalues_def)

lemma ovalues_Cons [simp]: "ovalues (p # es) = snd p # ovalues es"
  by (simp add: ovalues_def)

lemma ovalues_append [simp]: "ovalues (xs @ ys) = ovalues xs @ ovalues ys"
  by (simp add: ovalues_def)

lemma ovalues_memI: "(k, v) \<in> set es \<Longrightarrow> v \<in> set (ovalues es)"
  by (force simp: ovalues_def)

lemma ovalues_memE: "v \<in> set (ovalues es) \<Longrightarrow> \<exists>k. (k, v) \<in> set es"
  by (auto simp: ovalues_def)

lemma length_ovalues [simp]: "length (ovalues es) = length es"
  by (simp add: ovalues_def)

lemma size_value_mem [termination_simp]:
  "v \<in> set (ovalues es) \<Longrightarrow> size v < Suc (size_list (size_prod (\<lambda>_. 0) size) es)"
  by (induction es) auto

lemma size_value_mem' [termination_simp]:
  "v \<in> set (ovalues es) \<Longrightarrow> size v < Suc (size_list (\<lambda>p. Suc (size (snd p))) es)"
  by (induction es) auto

lemma size_entry_mem [termination_simp]:
  "(k, v) \<in> set es \<Longrightarrow> size v < Suc (size_list (size_prod (\<lambda>_. 0) size) es)"
  "(k, v) \<in> set es \<Longrightarrow> size v < Suc (size_list (\<lambda>p. Suc (size (snd p))) es)"
  by (induction es) auto

lemma jsval_induct [case_names Undef Null Bool Num Str Arr Obj, induct type: jsval]:
  assumes "P JUndef" "P JNull" "\<And>b. P (JBool b)" "\<And>n. P (JNum n)" "\<And>s. P (JStr s)"
    and "\<And>xs. (\<And>x. x \<in> set xs \<Longrightarrow> P x) \<Longrightarrow> P (JArr xs)"
    and "\<And>es. (\<And>v. v \<in> set (ovalues es) \<Longrightarrow> P v) \<Longrightarrow> P (JObj es)"
  shows "P v"
proof (induction v rule: measure_induct_rule [where f = size])
  case (less v)
  show ?case
  proof (cases v)
    case (JArr xs)
    have "P x" if "x \<in> set xs" for x
      using less [of x] that JArr by (simp add: size_list_estimation less_Suc_eq_le size_list_estimation')
    then show ?thesis using JArr assms(6) by blast
  next
    case (JObj es)
    have "P x" if "x \<in> set (ovalues es)" for x
      using less [of x] that JObj size_value_mem [OF that] by simp
    then show ?thesis using JObj assms(7) by blast
  qed (use assms in auto)
qed

section \<open>Objects\<close>

definition oget :: "obj \<Rightarrow> string \<Rightarrow> jsval" where
  "oget o' k = (case map_of o' k of None \<Rightarrow> JUndef | Some v \<Rightarrow> v)"

definition ohas :: "obj \<Rightarrow> string \<Rightarrow> bool" where
  "ohas o' k = (map_of o' k \<noteq> None)"

abbreviation okeys :: "(string \<times> 'v) list \<Rightarrow> string list" where
  "okeys o' \<equiv> map fst o'"

text \<open>
  The order of own properties: array indices first, ascending, then the other keys in the order
  they were added.  \<open>key_before k k'\<close> is when a new key \<open>k\<close> goes in front of an existing \<open>k'\<close>.
\<close>

definition index_key :: "string \<Rightarrow> nat option" where
  "index_key k =
     (if k \<noteq> [] \<and> list_all is_digit k \<and> show_nat (read_digits k) = k \<and> read_digits k < 4294967295
      then Some (read_digits k) else None)"

definition key_before :: "string \<Rightarrow> string \<Rightarrow> bool" where
  "key_before k k' =
     (case index_key k of
        None \<Rightarrow> False
      | Some n \<Rightarrow> (case index_key k' of None \<Rightarrow> True | Some m \<Rightarrow> n < m))"

text \<open>\<^verbatim>\<open>o[k] = v\<close>: in place where the key exists, else at its position in the order.\<close>

fun oput :: "string \<Rightarrow> 'v \<Rightarrow> (string \<times> 'v) list \<Rightarrow> (string \<times> 'v) list" where
  "oput k v [] = [(k, v)]"
| "oput k v ((k', v') # o') =
     (if k = k' then (k, v) # o'
      else if k \<notin> set (okeys o') \<and> key_before k k' then (k, v) # (k', v') # o'
      else (k', v') # oput k v o')"

text \<open>\<^verbatim>\<open>{...a, ...b}\<close>, \<^verbatim>\<open>Object.fromEntries\<close>, and \<^verbatim>\<open>const { k1, k2, ...rest } = o\<close>.\<close>

definition ospread :: "(string \<times> 'v) list \<Rightarrow> (string \<times> 'v) list \<Rightarrow> (string \<times> 'v) list" where
  "ospread a b = foldl (\<lambda>o' (k, v). oput k v o') a b"

definition from_entries :: "(string \<times> 'v) list \<Rightarrow> (string \<times> 'v) list" where
  "from_entries es = ospread [] es"

definition omit :: "string list \<Rightarrow> (string \<times> 'v) list \<Rightarrow> (string \<times> 'v) list" where
  "omit ks o' = filter (\<lambda>(k, v). k \<notin> set ks) o'"

text \<open>
  \<^verbatim>\<open>k in o\<close> also finds what every object inherits from \<^verbatim>\<open>Object.prototype\<close>, and so does a plain
  \<^verbatim>\<open>o[k]\<close>.
\<close>

definition proto_keys :: "string list" where
  "proto_keys =
     [''constructor'', ''__defineGetter__'', ''__defineSetter__'', ''hasOwnProperty'',
      ''__lookupGetter__'', ''__lookupSetter__'', ''isPrototypeOf'', ''propertyIsEnumerable'',
      ''toString'', ''valueOf'', ''__proto__'', ''toLocaleString'']"

definition js_in :: "string \<Rightarrow> (string \<times> 'v) list \<Rightarrow> bool" where
  "js_in k o' = (k \<in> set (okeys o') \<or> k \<in> set proto_keys)"

section \<open>Reading values\<close>

text \<open>\<^verbatim>\<open>v?.k\<close> of a value that is an object or absent.\<close>

definition field :: "jsval \<Rightarrow> string \<Rightarrow> jsval" where
  "field v k = (case v of JObj o' \<Rightarrow> oget o' k | _ \<Rightarrow> JUndef)"

definition nullish :: "jsval \<Rightarrow> bool" where
  "nullish v = (v = JUndef \<or> v = JNull)"

text \<open>\<^verbatim>\<open>a ?? b\<close>.\<close>

definition or_else :: "jsval \<Rightarrow> jsval \<Rightarrow> jsval" where
  "or_else a b = (if nullish a then b else a)"

fun truthy :: "jsval \<Rightarrow> bool" where
  "truthy JUndef = False"
| "truthy JNull = False"
| "truthy (JBool b) = b"
| "truthy (JNum n) = (n \<noteq> NegZero \<and> n \<noteq> Dec 0 0)"
| "truthy (JStr s) = (s \<noteq> [])"
| "truthy (JArr xs) = True"
| "truthy (JObj es) = True"

text \<open>The array a field holds, where an absent one is read as empty (\<^verbatim>\<open>x ?? []\<close>).\<close>

fun js_arr :: "jsval \<Rightarrow> jsval list" where
  "js_arr (JArr xs) = xs"
| "js_arr _ = []"

fun js_obj :: "jsval \<Rightarrow> obj" where
  "js_obj (JObj es) = es"
| "js_obj _ = []"

fun is_str :: "jsval \<Rightarrow> bool" where
  "is_str (JStr s) = True"
| "is_str _ = False"

fun the_str :: "jsval \<Rightarrow> string option" where
  "the_str (JStr s) = Some s"
| "the_str _ = None"

section \<open>Conversion to text\<close>

definition show_int :: "int \<Rightarrow> string" where
  "show_int i = (if i < 0 then ''-'' @ show_nat (nat (- i)) else show_nat (nat i))"

text \<open>\<^verbatim>\<open>Number::toString\<close> of a positive number with digits \<open>ds\<close> and decimal exponent \<open>n\<close>.\<close>

definition show_positive :: "string \<Rightarrow> int \<Rightarrow> string" where
  "show_positive ds n =
     (let k = int (length ds) in
      if k \<le> n \<and> n \<le> 21 then ds @ replicate (nat (n - k)) CHR ''0''
      else if 0 < n \<and> n \<le> 21 then take (nat n) ds @ ''.'' @ drop (nat n) ds
      else if -6 < n \<and> n \<le> 0 then ''0.'' @ replicate (nat (- n)) CHR ''0'' @ ds
      else
        let e = n - 1; ex = ''e'' @ (if e < 0 then ''-'' else ''+'') @ show_nat (nat \<bar>e\<bar>)
        in if k = 1 then ds @ ex else take 1 ds @ ''.'' @ drop 1 ds @ ex)"

fun show_num :: "jsnum \<Rightarrow> string" where
  "show_num NegZero = ''0''"
| "show_num (Dec m e) =
     (if m = 0 then ''0''
      else
        let ds = show_nat (nat \<bar>m\<bar>)
        in (if m < 0 then ''-'' else '''') @ show_positive ds (int (length ds) + e))"

text \<open>\<^verbatim>\<open>String(v)\<close>; an array is its elements joined by commas, absent ones empty.\<close>

fun to_str :: "jsval \<Rightarrow> string" where
  "to_str JUndef = ''undefined''"
| "to_str JNull = ''null''"
| "to_str (JBool b) = (if b then ''true'' else ''false'')"
| "to_str (JNum n) = show_num n"
| "to_str (JStr s) = s"
| "to_str (JArr xs) = join_with '','' (map (\<lambda>x. if nullish x then '''' else to_str x) xs)"
| "to_str (JObj es) = ''[object Object]''"

text \<open>
  \<^verbatim>\<open>a === b\<close> of primitives.  Arrays and objects are compared by identity, which the model does not
  have: a use of \<^verbatim>\<open>===\<close> between them is modelled where it occurs.
\<close>

definition num_eq :: "jsnum \<Rightarrow> jsnum \<Rightarrow> bool" where
  "num_eq a b = (a = b \<or> {a, b} = {NegZero, Dec 0 0})"

fun prim_eq :: "jsval \<Rightarrow> jsval \<Rightarrow> bool" where
  "prim_eq JUndef JUndef = True"
| "prim_eq JNull JNull = True"
| "prim_eq (JBool a) (JBool b) = (a = b)"
| "prim_eq (JNum a) (JNum b) = num_eq a b"
| "prim_eq (JStr a) (JStr b) = (a = b)"
| "prim_eq _ _ = False"

section \<open>Well-formed values\<close>

text \<open>
  The keys of an object are distinct and in enumeration order.  Everything \<^verbatim>\<open>JSON.parse\<close> builds is
  of this shape, and the operations keep it.
\<close>

definition canon_keys :: "string list \<Rightarrow> bool" where
  "canon_keys ks = (distinct ks \<and> sorted_wrt (\<lambda>k k'. \<not> key_before k' k) ks)"

fun wf_js :: "jsval \<Rightarrow> bool" where
  "wf_js (JArr xs) = list_all wf_js xs"
| "wf_js (JObj es) = (canon_keys (okeys es) \<and> list_all wf_js (ovalues es))"
| "wf_js _ = True"

section \<open>Facts\<close>

lemma map_of_oput [simp]: "map_of (oput k v o') = (map_of o')(k \<mapsto> v)"
  by (induction k v o' rule: oput.induct) (auto simp: fun_eq_iff)

lemma set_okeys_oput [simp]: "set (okeys (oput k v o')) = insert k (set (okeys o'))"
  by (induction k v o' rule: oput.induct) auto

lemma fst_set_oput [simp]: "fst ` set (oput k v o') = insert k (fst ` set o')"
  using set_okeys_oput [of k v o'] by simp

lemma distinct_oput: "distinct (okeys o') \<Longrightarrow> distinct (okeys (oput k v o'))"
  by (induction k v o' rule: oput.induct) auto

lemma set_oput_subset: "set (oput k v o') \<subseteq> insert (k, v) (set o')"
  by (induction k v o' rule: oput.induct) auto

lemma oput_in_place: "k \<in> set (okeys o') \<Longrightarrow> okeys (oput k v o') = okeys o'"
  by (induction k v o' rule: oput.induct) auto

lemma oput_fresh_last:
  "k \<notin> set (okeys o') \<Longrightarrow> (\<And>k'. k' \<in> set (okeys o') \<Longrightarrow> \<not> key_before k k') \<Longrightarrow>
   oput k v o' = o' @ [(k, v)]"
  by (induction k v o' rule: oput.induct) auto

lemma key_before_trans: "key_before a b \<Longrightarrow> key_before b c \<Longrightarrow> key_before a c"
  by (auto simp: key_before_def split: option.splits)

lemma key_before_asym: "key_before a b \<Longrightarrow> \<not> key_before b a"
  by (auto simp: key_before_def split: option.splits)

lemma key_before_irrefl [simp]: "\<not> key_before a a"
  by (auto simp: key_before_def split: option.splits)

lemma key_before_negtrans: "\<not> key_before b a \<Longrightarrow> \<not> key_before c b \<Longrightarrow> \<not> key_before c a"
  by (auto simp: key_before_def split: option.splits)

lemma canon_keys_oput: "canon_keys (okeys o') \<Longrightarrow> canon_keys (okeys (oput k v o'))"
proof (induction k v o' rule: oput.induct)
  case (1 k v)
  then show ?case by (simp add: canon_keys_def)
next
  case (2 k v k' v' o')
  show ?case
  proof (cases "k = k'")
    case True
    with 2 show ?thesis by simp
  next
    case ne: False
    have tail: "canon_keys (okeys o')" using "2.prems" by (simp add: canon_keys_def)
    show ?thesis
    proof (cases "k \<notin> set (okeys o') \<and> key_before k k'")
      case True
      have "\<not> key_before x k" if "x \<in> set (okeys o')" for x
      proof -
        have "\<not> key_before x k'" using that "2.prems" by (auto simp: canon_keys_def)
        moreover have "\<not> key_before k' k" using True key_before_asym by blast
        ultimately show ?thesis using key_before_negtrans [of k' k x] by blast
      qed
      with True ne "2.prems" show ?thesis
        by (simp add: canon_keys_def key_before_asym)
    next
      case False
      have "canon_keys (okeys (oput k v o'))" by (rule "2.IH" [OF ne False tail])
      moreover have "\<not> key_before k k'" if "k \<in> set (okeys o')"
        using that "2.prems" by (auto simp: canon_keys_def)
      ultimately show ?thesis
        using False ne "2.prems" by (auto simp: canon_keys_def)
    qed
  qed
qed

lemma ospread_Nil [simp]: "ospread a [] = a"
  by (simp add: ospread_def)

lemma ospread_snoc: "ospread a (b @ [(k, v)]) = oput k v (ospread a b)"
  by (simp add: ospread_def)

lemma map_of_ospread [simp]: "map_of (ospread a b) = map_of a ++ map_of (rev b)"
  unfolding ospread_def
proof (induction b arbitrary: a)
  case (Cons p b)
  then show ?case by (cases p) (simp add: map_add_def fun_eq_iff split: option.splits)
qed simp

lemma map_of_rev_distinct: "distinct (map fst xs) \<Longrightarrow> map_of (rev xs) = map_of xs"
  by (rule map_of_eqI) (auto simp: rev_map [symmetric] map_of_eq_Some_iff)

lemma set_okeys_ospread [simp]: "set (okeys (ospread a b)) = set (okeys a) \<union> set (okeys b)"
proof (induction b rule: rev_induct)
  case (snoc p b)
  then show ?case by (cases p) (simp only: ospread_snoc set_okeys_oput, simp)
qed simp

lemma distinct_ospread: "distinct (okeys a) \<Longrightarrow> distinct (okeys (ospread a b))"
  unfolding ospread_def by (induction b arbitrary: a) (auto simp: distinct_oput split: prod.splits)

lemma canon_keys_ospread: "canon_keys (okeys a) \<Longrightarrow> canon_keys (okeys (ospread a b))"
  unfolding ospread_def by (induction b arbitrary: a) (auto simp: canon_keys_oput split: prod.splits)

lemma set_ospread_subset: "set (ospread a b) \<subseteq> set a \<union> set b"
proof (induction b rule: rev_induct)
  case (snoc p b)
  then show ?case
    using set_oput_subset [of "fst p" "snd p" "ospread a b"] by (cases p) (auto simp: ospread_snoc)
qed simp

lemma from_entries_canon: "canon_keys (okeys es) \<Longrightarrow> from_entries es = es"
proof (induction es rule: rev_induct)
  case (snoc p es)
  obtain k v where p: "p = (k, v)" by (cases p)
  have "canon_keys (okeys es)" using snoc.prems by (simp add: canon_keys_def sorted_wrt_append)
  then have IH: "ospread [] es = es" using snoc.IH by (simp add: from_entries_def)
  have "oput k v es = es @ [(k, v)]"
    using snoc.prems by (intro oput_fresh_last) (auto simp: p canon_keys_def sorted_wrt_append)
  then show ?case by (simp add: from_entries_def p ospread_snoc IH)
qed (simp add: from_entries_def)

lemma map_of_from_entries: "distinct (okeys es) \<Longrightarrow> map_of (from_entries es) = map_of es"
  by (simp add: from_entries_def map_of_rev_distinct)

lemma oget_oput [simp]: "oget (oput k v o') k' = (if k' = k then v else oget o' k')"
  by (simp add: oget_def)

lemma oget_omit [simp]: "oget (omit ks o') k = (if k \<in> set ks then JUndef else oget o' k)"
  unfolding oget_def omit_def
  by (induction o') (auto split: option.splits)

lemma okeys_omit: "okeys (omit ks o') = filter (\<lambda>k. k \<notin> set ks) (okeys o')"
  unfolding omit_def by (induction o') auto

lemma distinct_omit: "distinct (okeys o') \<Longrightarrow> distinct (okeys (omit ks o'))"
  by (simp add: okeys_omit)

lemma canon_keys_filter: "canon_keys ks \<Longrightarrow> canon_keys (filter P ks)"
  by (simp add: canon_keys_def sorted_wrt_filter)

lemma field_simps' [simp]:
  "field (JObj o') k = oget o' k" "field JUndef k = JUndef" "field JNull k = JUndef"
  "field (JStr s) k = JUndef" "field (JArr xs) k = JUndef" "field (JBool b) k = JUndef"
  "field (JNum n) k = JUndef"
  by (simp_all add: field_def)

lemma oget_Some: "map_of o' k = Some v \<Longrightarrow> oget o' k = v"
  by (simp add: oget_def)

lemma oget_mem: "oget o' k \<noteq> JUndef \<Longrightarrow> (k, oget o' k) \<in> set o'"
  by (auto simp: oget_def map_of_SomeD split: option.splits)

lemma oget_Nil [simp]: "oget [] k = JUndef"
  by (simp add: oget_def)

lemma oget_Cons [simp]: "oget ((k', v) # o') k = (if k = k' then v else oget o' k)"
  by (simp add: oget_def)

lemma wf_js_distinct: "wf_js (JObj es) \<Longrightarrow> distinct (okeys es)"
  by (simp add: canon_keys_def)

lemma wf_js_value: "wf_js (JObj es) \<Longrightarrow> v \<in> set (ovalues es) \<Longrightarrow> wf_js v"
  by (simp add: list_all_iff)

lemma oget_in_ovalues: "oget es k \<noteq> JUndef \<Longrightarrow> oget es k \<in> set (ovalues es)"
  by (rule ovalues_memI [OF oget_mem])

lemma wf_js_oget: "wf_js (JObj es) \<Longrightarrow> wf_js (oget es k)"
  using oget_in_ovalues [of es k] by (cases "oget es k = JUndef") (auto simp: list_all_iff)

lemma wf_js_field: "wf_js v \<Longrightarrow> wf_js (field v k)"
  by (cases v) (auto intro: wf_js_oget simp del: wf_js.simps(2))

end
