(* ===== verification/BoardTraversal.thy ===== *)
theory BoardTraversal
  imports JsValue
begin

text \<open>
  Generic board traversal (\<^verbatim>\<open>hkp-frontend/src/runtime/board/traversal.ts\<close>): visiting every service
  node of a document, and rewriting every string of one.  A visitor that records what it sees is a
  function on the state it records in.
\<close>

section \<open>Every value a document holds\<close>

text \<open>The values inside a value, itself first, in the order a walk meets them; and its strings.\<close>

fun subvalues :: "jsval \<Rightarrow> jsval list" where
  "subvalues (JArr xs) = JArr xs # concat (map subvalues xs)"
| "subvalues (JObj es) = JObj es # concat (map subvalues (ovalues es))"
| "subvalues v = [v]"

fun strings_of :: "jsval \<Rightarrow> string list" where
  "strings_of (JStr s) = [s]"
| "strings_of (JArr xs) = concat (map strings_of xs)"
| "strings_of (JObj es) = concat (map strings_of (ovalues es))"
| "strings_of _ = []"

lemma subvalues_self [simp]: "v \<in> set (subvalues v)"
  by (cases v) auto

lemma subvalues_trans: "u \<in> set (subvalues v) \<Longrightarrow> w \<in> set (subvalues u) \<Longrightarrow> w \<in> set (subvalues v)"
  by (induction v) auto

lemma strings_of_subvalues: "s \<in> set (strings_of v) \<longleftrightarrow> JStr s \<in> set (subvalues v)"
  by (induction v) auto

lemma wf_js_subvalues: "wf_js v \<Longrightarrow> u \<in> set (subvalues v) \<Longrightarrow> wf_js u"
  by (induction v) (auto simp: list_all_iff)

section \<open>Visiting service nodes\<close>

definition is_service_node :: "jsval \<Rightarrow> bool" where
  "is_service_node v = is_str (field v ''serviceId'')"

fun forEachServiceNode :: "(obj \<Rightarrow> 's \<Rightarrow> 's) \<Rightarrow> jsval \<Rightarrow> 's \<Rightarrow> 's" where
  "forEachServiceNode visit (JArr xs) s = fold (\<lambda>item. forEachServiceNode visit item) xs s"
| "forEachServiceNode visit (JObj root) s =
     (let s1 = (if is_str (oget root ''serviceId'') then visit root s else s)
      in fold (\<lambda>v. forEachServiceNode visit v) (ovalues root) s1)"
| "forEachServiceNode visit _ s = s"

definition collectServicesById :: "jsval \<Rightarrow> string \<Rightarrow> obj list" where
  "collectServicesById root serviceId =
     forEachServiceNode
       (\<lambda>node out. if oget node ''serviceId'' = JStr serviceId then out @ [node] else out) root []"

definition serviceNodes :: "jsval \<Rightarrow> obj list" where
  "serviceNodes v = map js_obj (filter is_service_node (subvalues v))"

lemma fold_concat: "fold f (concat xss) s = fold (\<lambda>xs. fold f xs) xss s"
  by (induction xss arbitrary: s) auto

lemma serviceNodes_JArr: "serviceNodes (JArr xs) = concat (map serviceNodes xs)"
  by (induction xs) (simp_all add: serviceNodes_def is_service_node_def)

lemma serviceNodes_JObj:
  "serviceNodes (JObj es) =
     (if is_str (oget es ''serviceId'') then [es] else []) @ concat (map serviceNodes (ovalues es))"
proof -
  have "map js_obj (filter is_service_node (concat (map subvalues vs))) = concat (map serviceNodes vs)" for vs
    by (induction vs) (simp_all add: serviceNodes_def)
  then show ?thesis by (simp add: serviceNodes_def is_service_node_def)
qed

lemma forEachServiceNode_fold:
  "forEachServiceNode visit root s = fold visit (serviceNodes root) s"
proof (induction root arbitrary: s)
  case (Arr xs)
  have "fold (\<lambda>v. forEachServiceNode visit v) xs t = fold (\<lambda>v. fold visit (serviceNodes v)) xs t" for t
    by (rule fold_cong_pointwise) (use Arr in auto)
  then show ?case by (simp add: serviceNodes_JArr fold_concat fold_map o_def)
next
  case (Obj es)
  have "fold (\<lambda>v. forEachServiceNode visit v) (ovalues es) t = fold (\<lambda>v. fold visit (serviceNodes v)) (ovalues es) t" for t
    by (rule fold_cong_pointwise) (use Obj in auto)
  then show ?case
    by (simp add: serviceNodes_JObj fold_concat fold_map o_def Let_def)
qed (simp_all add: serviceNodes_def is_service_node_def)

lemma collectServicesById_filter:
  "collectServicesById root sid = filter (\<lambda>node. oget node ''serviceId'' = JStr sid) (serviceNodes root)"
proof -
  have "fold (\<lambda>node out. if P node then out @ [node] else out) ns acc = acc @ filter P ns"
    for P and ns acc :: "obj list"
    by (induction ns arbitrary: acc) auto
  then show ?thesis by (simp add: collectServicesById_def forEachServiceNode_fold)
qed

section \<open>Rewriting strings\<close>

text \<open>
  \<^verbatim>\<open>mapStrings\<close> and \<^verbatim>\<open>walkStrings\<close>, with the state a visitor writes to.  An object is rebuilt key by
  key.
\<close>

fun walkStrings :: "(string \<Rightarrow> 's \<Rightarrow> string \<times> 's) \<Rightarrow> jsval \<Rightarrow> 's \<Rightarrow> jsval \<times> 's" where
  "walkStrings visit (JStr t) s = (let (t', s') = visit t s in (JStr t', s'))"
| "walkStrings visit (JArr xs) s =
     (let (ys, s') = map_state (\<lambda>x. walkStrings visit x) xs s in (JArr ys, s'))"
| "walkStrings visit (JObj es) s =
     (let (out, s') =
        map_state (\<lambda>v. walkStrings visit v) (ovalues es) s
      in (JObj (from_entries (zip (okeys es) out)), s'))"
| "walkStrings visit v s = (v, s)"

definition mapStrings :: "(string \<Rightarrow> string) \<Rightarrow> jsval \<Rightarrow> jsval" where
  "mapStrings visit v = fst (walkStrings (\<lambda>t (_ :: unit). (visit t, ())) v ())"

text \<open>The values are immutable, so a structural copy is the value itself.\<close>

definition deepClone :: "jsval \<Rightarrow> jsval" where
  "deepClone v = v"

text \<open>What a rewriting visitor makes of a value, read off its structure.\<close>

fun map_text :: "(string \<Rightarrow> string) \<Rightarrow> jsval \<Rightarrow> jsval" where
  "map_text f (JStr t) = JStr (f t)"
| "map_text f (JArr xs) = JArr (map (map_text f) xs)"
| "map_text f (JObj es) = JObj (map (map_prod id (map_text f)) es)"
| "map_text f v = v"

lemma okeys_map_prod [simp]: "okeys (map (map_prod id f) es) = okeys es"
  by (induction es) auto

lemma ovalues_map_prod [simp]: "ovalues (map (map_prod id f) es) = map f (ovalues es)"
  by (induction es) auto

lemma zip_okeys_map: "zip (okeys es) (map f (ovalues es)) = map (map_prod id f) es"
  by (induction es) auto

lemma fst_map_prod_id [simp]: "fst \<circ> map_prod id f = fst"
  by auto

lemma walkStrings_pure:
  assumes "\<And>t s. visit t s = (f t, g t s)" "wf_js v"
  shows "walkStrings visit v s = (map_text f v, fold g (strings_of v) s)"
  using assms(2)
proof (induction v arbitrary: s)
  case (Arr xs)
  have "map_state (\<lambda>x. walkStrings visit x) xs s
      = (map (map_text f) xs, fold (\<lambda>x. fold g (strings_of x)) xs s)"
    by (rule map_state_pure) (use Arr in \<open>auto simp: list_all_iff\<close>)
  then show ?case by (simp add: fold_concat fold_map o_def)
next
  case (Obj es)
  have "map_state (\<lambda>x. walkStrings visit x) (ovalues es) s
      = (map (map_text f) (ovalues es), fold (\<lambda>x. fold g (strings_of x)) (ovalues es) s)"
    by (rule map_state_pure) (use Obj in \<open>auto simp: list_all_iff\<close>)
  moreover have "from_entries (map (map_prod id (map_text f)) es) = map (map_prod id (map_text f)) es"
    using Obj.prems by (intro from_entries_canon) simp
  ultimately show ?case by (simp add: zip_okeys_map fold_concat fold_map o_def)
qed (simp_all add: assms(1))

lemma walkStrings_tracked:
  assumes "\<And>t s. t \<in> set (strings_of v) \<Longrightarrow> I s \<Longrightarrow> visit t s = (f t, g t s) \<and> I (g t s)" "wf_js v" "I s"
  shows "walkStrings visit v s = (map_text f v, fold g (strings_of v) s) \<and> I (fold g (strings_of v) s)"
  using assms
proof (induction v arbitrary: s)
  case (Arr xs)
  have "map_state (\<lambda>x. walkStrings visit x) xs s
      = (map (map_text f) xs, fold (\<lambda>x. fold g (strings_of x)) xs s) \<and> I (fold (\<lambda>x. fold g (strings_of x)) xs s)"
  proof (rule map_state_tracked [where I = I])
    fix x u assume x: "x \<in> set xs" "I u"
    show "walkStrings visit x u = (map_text f x, fold g (strings_of x) u) \<and> I (fold g (strings_of x) u)"
      by (rule Arr.IH) (use x Arr.prems in \<open>auto simp: list_all_iff\<close>)
  qed (rule Arr.prems)
  then show ?case by (simp add: fold_concat fold_map o_def)
next
  case (Obj es)
  have "map_state (\<lambda>x. walkStrings visit x) (ovalues es) s
      = (map (map_text f) (ovalues es), fold (\<lambda>x. fold g (strings_of x)) (ovalues es) s)
      \<and> I (fold (\<lambda>x. fold g (strings_of x)) (ovalues es) s)"
  proof (rule map_state_tracked [where I = I])
    fix x u assume x: "x \<in> set (ovalues es)" "I u"
    show "walkStrings visit x u = (map_text f x, fold g (strings_of x) u) \<and> I (fold g (strings_of x) u)"
      by (rule Obj.IH) (use x Obj.prems in \<open>auto simp: list_all_iff\<close>)
  qed (rule Obj.prems)
  moreover have "from_entries (map (map_prod id (map_text f)) es) = map (map_prod id (map_text f)) es"
    using Obj.prems by (intro from_entries_canon) simp
  ultimately show ?case by (simp add: zip_okeys_map fold_concat fold_map o_def)
qed simp_all

lemma mapStrings_map_text: "wf_js v \<Longrightarrow> mapStrings f v = map_text f v"
  by (simp add: mapStrings_def walkStrings_pure [where f = f and g = "\<lambda>_ _. ()"])

lemma map_text_id: "(\<And>t. t \<in> set (strings_of v) \<Longrightarrow> f t = t) \<Longrightarrow> map_text f v = v"
proof (induction v)
  case (Arr xs)
  then show ?case by (auto intro!: map_idI)
next
  case (Obj es)
  have "map_prod id (map_text f) p = p" if "p \<in> set es" for p
    using Obj that ovalues_memI [of "fst p" "snd p" es] by (cases p) force
  then show ?case by (simp add: map_idI)
qed auto

lemma map_text_cong:
  "(\<And>t. t \<in> set (strings_of v) \<Longrightarrow> f t = g t) \<Longrightarrow> map_text f v = map_text g v"
proof (induction v)
  case (Obj es)
  have "map_prod id (map_text f) p = map_prod id (map_text g) p" if "p \<in> set es" for p
    using Obj that ovalues_memI [of "fst p" "snd p" es] by (cases p) force
  then show ?case by simp
qed auto

lemma map_cong_set: "(\<And>x. x \<in> set xs \<Longrightarrow> f x = g x) \<Longrightarrow> map f xs = map g xs"
  by simp

lemma strings_of_map_text [simp]: "strings_of (map_text f v) = map f (strings_of v)"
proof (induction v)
  case (Arr xs)
  then have "map (strings_of \<circ> map_text f) xs = map (map f \<circ> strings_of) xs"
    by (intro map_cong_set) simp
  then show ?case by (simp only: map_text.simps strings_of.simps map_concat map_map)
next
  case (Obj es)
  then have "map (strings_of \<circ> map_text f) (ovalues es) = map (map f \<circ> strings_of) (ovalues es)"
    by (intro map_cong_set) simp
  then show ?case by (simp only: map_text.simps strings_of.simps ovalues_map_prod map_concat map_map)
qed auto

lemma wf_js_map_text [simp]: "wf_js (map_text f v) = wf_js v"
proof (induction v)
  case (Obj es)
  then have "list_all wf_js (map (map_text f) (ovalues es)) = list_all wf_js (ovalues es)"
    by (auto simp: list_all_iff)
  then show ?case
    by (simp only: map_text.simps wf_js.simps ovalues_map_prod okeys_map_prod)
qed (auto simp: list_all_iff)

lemma oget_map_prod: "g JUndef = JUndef \<Longrightarrow> oget (map (map_prod id g) es) k = g (oget es k)"
  by (induction es) auto

section \<open>Properties\<close>

text \<open>
  Collecting services by id finds exactly the service nodes of the document that carry that
  id, however deep they are nested, in document order: it is the filter of the document's
  pre-order listing.
\<close>

theorem collectServicesById_correct:
  "collectServicesById root sid
     = map js_obj (filter (\<lambda>v. field v ''serviceId'' = JStr sid) (subvalues root))"
proof -
  have "filter (\<lambda>node. oget node ''serviceId'' = JStr sid) (map js_obj (filter is_service_node vs))
      = map js_obj (filter (\<lambda>v. field v ''serviceId'' = JStr sid) vs)" for vs
    by (induction vs) (auto simp: is_service_node_def field_def split: jsval.splits)
  then show ?thesis by (simp add: collectServicesById_filter serviceNodes_def)
qed

end
