(* ===== verification/BoardAddress.thy ===== *)
theory BoardAddress
  imports BoardTraversal
begin

text \<open>
  Addressing a service inside a scope (\<^verbatim>\<open>hkp-frontend/src/runtime/board/address.ts\<close>): dotted
  addresses, and finding the entry an address names in the nested state of a board.
\<close>

section \<open>Addresses\<close>

definition ADDRESS_SEPARATOR :: char where
  "ADDRESS_SEPARATOR = CHR ''.''"

definition splitAddress :: "string \<Rightarrow> string list" where
  "splitAddress address = filter (\<lambda>part. part \<noteq> []) (split_on ADDRESS_SEPARATOR address)"

definition joinAddress :: "string \<Rightarrow> string \<Rightarrow> string" where
  "joinAddress owner instanceId =
     (if owner \<noteq> [] then owner @ ADDRESS_SEPARATOR # instanceId else instanceId)"

definition isScopedAddress :: "string \<Rightarrow> bool" where
  "isScopedAddress address = (length (splitAddress address) > 1)"

definition addressRoot :: "string \<Rightarrow> string" where
  "addressRoot address = (case splitAddress address of [] \<Rightarrow> address | part # _ \<Rightarrow> part)"

definition addressLeaf :: "string \<Rightarrow> string" where
  "addressLeaf address =
     (let parts = splitAddress address in if parts = [] then address else last parts)"

section \<open>Entries\<close>

text \<open>\<^verbatim>\<open>findEntry\<close>: the first nested service entry that carries the name, under either of its ids.\<close>

fun findEntry :: "string \<Rightarrow> jsval \<Rightarrow> obj option" where
  "findEntry name (JArr state) = first_some (findEntry name) state"
| "findEntry name (JObj record') =
     (if is_str (oget record' ''serviceId'')
         \<and> (oget record' ''uuid'' = JStr name \<or> oget record' ''instanceId'' = JStr name)
      then Some record'
      else first_some (findEntry name) (ovalues record'))"
| "findEntry name _ = None"

fun resolveNestedState :: "jsval \<Rightarrow> string list \<Rightarrow> jsval" where
  "resolveNestedState state [] = state"
| "resolveNestedState state (segment # segments) =
     (case findEntry segment state of
        None \<Rightarrow> JUndef
      | Some entry \<Rightarrow> resolveNestedState (oget entry ''state'') segments)"

text \<open>\<^verbatim>\<open>entryName\<close>: the name a pipeline entry is called by, if the item is one.\<close>

definition entryName :: "jsval \<Rightarrow> string option" where
  "entryName item =
     (case item of
        JObj record' \<Rightarrow>
          if is_str (oget record' ''serviceId'')
          then the_str (or_else (oget record' ''instanceId'') (oget record' ''uuid''))
          else None
      | _ \<Rightarrow> None)"

definition isEntryNamed :: "string \<Rightarrow> jsval \<Rightarrow> bool" where
  "isEntryNamed name item = (entryName item = Some name)"

fun findInPipeline :: "string \<Rightarrow> jsval \<Rightarrow> (jsval list \<times> nat) option" where
  "findInPipeline name (JArr state) =
     (case find_index (isEntryNamed name) state of
        Some index \<Rightarrow> Some (state, index)
      | None \<Rightarrow> first_some (findInPipeline name) state)"
| "findInPipeline name (JObj state) = first_some (findInPipeline name) (ovalues state)"
| "findInPipeline name _ = None"

section \<open>Facts\<close>

lemma splitAddress_Nil [simp]: "splitAddress [] = []"
  by (simp add: splitAddress_def)

lemma splitAddress_sep: "splitAddress (a @ ADDRESS_SEPARATOR # b) = splitAddress a @ splitAddress b"
  by (simp add: splitAddress_def split_on_append)

lemma splitAddress_atom: "a \<noteq> [] \<Longrightarrow> ADDRESS_SEPARATOR \<notin> set a \<Longrightarrow> splitAddress a = [a]"
  by (simp add: splitAddress_def split_on_no_sep)

lemma splitAddress_parts:
  "p \<in> set (splitAddress a) \<Longrightarrow> p \<noteq> [] \<and> ADDRESS_SEPARATOR \<notin> set p"
  by (auto simp: splitAddress_def dest: split_on_parts)

lemma addressRoot_join:
  "w \<noteq> [] \<Longrightarrow> ADDRESS_SEPARATOR \<notin> set w \<Longrightarrow> addressRoot (joinAddress w a) = w"
  by (simp add: addressRoot_def joinAddress_def splitAddress_sep splitAddress_atom)

text \<open>What \<^verbatim>\<open>findEntry\<close> looks for.\<close>

definition is_entry_called :: "string \<Rightarrow> jsval \<Rightarrow> bool" where
  "is_entry_called name v =
     (is_str (field v ''serviceId'') \<and> (field v ''uuid'' = JStr name \<or> field v ''instanceId'' = JStr name))"

lemma is_entry_called_simps [simp]:
  "is_entry_called name (JObj es) =
     (is_str (oget es ''serviceId'') \<and> (oget es ''uuid'' = JStr name \<or> oget es ''instanceId'' = JStr name))"
  "\<not> is_entry_called name JUndef" "\<not> is_entry_called name JNull" "\<not> is_entry_called name (JBool b)"
  "\<not> is_entry_called name (JNum n)" "\<not> is_entry_called name (JStr s)" "\<not> is_entry_called name (JArr xs)"
  by (simp_all add: is_entry_called_def)

lemma find_append: "find P (xs @ ys) = (case find P xs of Some y \<Rightarrow> Some y | None \<Rightarrow> find P ys)"
  by (induction xs) auto

lemma first_some_map_option:
  "(\<And>x. x \<in> set xs \<Longrightarrow> f x = map_option h (find P (g x))) \<Longrightarrow>
   first_some f xs = map_option h (find P (concat (map g xs)))"
proof (induction xs)
  case (Cons x xs)
  then show ?case by (auto simp: find_append split: option.splits)
qed simp

section \<open>Properties\<close>

text \<open>
  An address joined from an owner and an instance splits into the owner's parts followed by
  the instance's, whatever either holds: joining loses no scope and invents none.
\<close>

theorem splitAddress_joinAddress:
  "splitAddress (joinAddress owner inst) = splitAddress owner @ splitAddress inst"
  by (simp add: joinAddress_def splitAddress_sep)

text \<open>
  Searching the nested state for a name finds the first entry, in document order, that is a
  service entry with that name as its uuid or instance id, and finds none only when the state
  holds none at any depth.
\<close>

theorem findEntry_first_in_document_order:
  "findEntry name state = map_option js_obj (find (is_entry_called name) (subvalues state))"
proof (induction state)
  case (Arr xs)
  have "first_some (findEntry name) xs
      = map_option js_obj (find (is_entry_called name) (concat (map subvalues xs)))"
    by (rule first_some_map_option) (rule Arr)
  then show ?case by simp
next
  case (Obj es)
  have "first_some (findEntry name) (ovalues es)
      = map_option js_obj (find (is_entry_called name) (concat (map subvalues (ovalues es))))"
    by (rule first_some_map_option) (rule Obj)
  then show ?case by auto
qed simp_all

lemma resolveNestedState_JUndef [simp]: "resolveNestedState JUndef segs = JUndef"
  by (cases segs) simp_all

lemma resolveNestedState_append:
  "resolveNestedState state (a @ b) = resolveNestedState (resolveNestedState state a) b"
proof (induction a arbitrary: state)
  case (Cons x a)
  then show ?case by (cases "findEntry x state") simp_all
qed simp

text \<open>
  Resolving the state of an address is resolving it scope by scope: the state at
  \<open>owner.instance\<close> is the state of \<open>instance\<close> read out of the state of \<open>owner\<close>.
\<close>

theorem resolveNestedState_scopes:
  "resolveNestedState state (splitAddress (joinAddress owner inst))
     = resolveNestedState (resolveNestedState state (splitAddress owner)) (splitAddress inst)"
  by (simp add: joinAddress_def splitAddress_sep resolveNestedState_append)

lemma findInPipeline_Some:
  "findInPipeline name state = Some (pipeline, i) \<Longrightarrow>
   JArr pipeline \<in> set (subvalues state) \<and> find_index (isEntryNamed name) pipeline = Some i"
proof (induction state)
  case (Arr xs)
  then show ?case
    by (fastforce split: option.splits dest!: first_some_eq_Some)
next
  case (Obj es)
  then show ?case by (fastforce dest!: first_some_eq_Some)
qed auto

lemma findInPipeline_None:
  "findInPipeline name state = None \<longleftrightarrow>
   (\<forall>pipeline. JArr pipeline \<in> set (subvalues state) \<longrightarrow> find_index (isEntryNamed name) pipeline = None)"
proof (induction state)
  case (Arr xs)
  then show ?case by (auto simp: first_some_eq_None split: option.splits)
next
  case (Obj es)
  then show ?case by (auto simp: first_some_eq_None)
qed auto

text \<open>
  The pipeline search answers with a pipeline that really is nested in the state and the
  position of the first entry called by that name in it.
\<close>

theorem findInPipeline_sound:
  assumes "findInPipeline name state = Some (pipeline, i)"
  shows "JArr pipeline \<in> set (subvalues state) \<and> i < length pipeline
    \<and> entryName (pipeline ! i) = Some name \<and> (\<forall>j < i. entryName (pipeline ! j) \<noteq> Some name)"
  using findInPipeline_Some [OF assms] find_index_Some [of "isEntryNamed name" pipeline i]
  by (simp_all add: isEntryNamed_def)

theorem findInPipeline_sound_witness:
  "let entry = (\<lambda>i. JObj [(''uuid'', JStr i), (''serviceId'', JStr ''x'')])
   in findInPipeline ''b'' (JObj [(''pipeline'', JArr [entry ''a'', entry ''b''])]) = Some ([entry ''a'', entry ''b''], 1)
    \<and> entryName (entry ''b'') = Some ''b''"
proof -
  let ?e = "\<lambda>i. JObj [(''uuid'', JStr i), (''serviceId'', JStr ''x'')]"
  have f: "findInPipeline ''b'' (JObj [(''pipeline'', JArr [?e ''a'', ?e ''b''])]) = Some ([?e ''a'', ?e ''b''], 1)" by code_simp
  show ?thesis using findInPipeline_sound [OF f] f by (simp add: Let_def)
qed

end
