(* ===== verification/BoardMount.thy ===== *)
theory BoardMount
  imports BoardTraversal
begin

text \<open>
  Runtime-assigned endpoints (\<^verbatim>\<open>hkp-frontend/src/runtime/board/mount.ts\<close>): the reference
  \<^verbatim>\<open>hkp-mount://<runtimeId>/<serviceUuid>\<close> a person writes, finding references wherever they are,
  and replacing them by the addresses a coordinator resolves.  The \<^verbatim>\<open>URL\<close> parser of the host and
  the coordinator's resolver are parameters.
\<close>

section \<open>References\<close>

definition MOUNT_SCHEME :: string where
  "MOUNT_SCHEME = ''hkp-mount://''"

record MountRef =
  ref_runtimeId :: string
  ref_serviceUuid :: string

text \<open>\<^verbatim>\<open>value\<close> may be null or undefined: \<^const>\<open>None\<close>.\<close>

definition parseMountRef :: "string option \<Rightarrow> MountRef option" where
  "parseMountRef value =
     (case value of
        None \<Rightarrow> None
      | Some v \<Rightarrow>
          if v = [] \<or> \<not> starts_with MOUNT_SCHEME v then None
          else
            let target = drop (length MOUNT_SCHEME) v
            in (case index_of CHR ''/'' target of
                  None \<Rightarrow> None
                | Some slash \<Rightarrow>
                    if slash = 0 \<or> slash = length target - 1 then None
                    else Some \<lparr>ref_runtimeId = take slash target,
                               ref_serviceUuid = drop (slash + 1) target\<rparr>))"

definition formatMountRef :: "MountRef \<Rightarrow> string" where
  "formatMountRef ref = MOUNT_SCHEME @ ref_runtimeId ref @ ''/'' @ ref_serviceUuid ref"

definition isMountRef :: "string \<Rightarrow> bool" where
  "isMountRef s = (parseMountRef (Some s) \<noteq> None)"

fun findMountRefs :: "jsval \<Rightarrow> string list \<Rightarrow> string list" where
  "findMountRefs (JStr value) into =
     (if parseMountRef (Some value) \<noteq> None \<and> value \<notin> set into then into @ [value] else into)"
| "findMountRefs (JArr value) into = fold (\<lambda>item. findMountRefs item) value into"
| "findMountRefs (JObj value) into = fold (\<lambda>item. findMountRefs item) (ovalues value) into"
| "findMountRefs _ into = into"

section \<open>Endpoints\<close>

text \<open>What the host's \<^verbatim>\<open>URL\<close> parser answers; \<^const>\<open>None\<close> is that it throws.\<close>

record ParsedUrl =
  protocol :: string
  hostname :: string
  port :: string
  pathname :: string

record MountEndpoint =
  ep_host :: string
  ep_port :: nat
  ep_path :: string
  ep_secure :: bool

definition parseMountEndpoint :: "(string \<Rightarrow> ParsedUrl option) \<Rightarrow> string option \<Rightarrow> MountEndpoint option" where
  "parseMountEndpoint parse_url url =
     (case url of
        None \<Rightarrow> None
      | Some u \<Rightarrow>
          if u = [] then None
          else
            (case parse_url u of
               None \<Rightarrow> None
             | Some parsed \<Rightarrow>
                 let secure = (protocol parsed = ''https:'' \<or> protocol parsed = ''wss:'');
                     p = (if port parsed \<noteq> [] then read_digits (port parsed) else if secure then 443 else 80);
                     path = (if ends_with ''/'' (pathname parsed) then butlast (pathname parsed)
                             else pathname parsed)
                 in Some \<lparr>ep_host = hostname parsed, ep_port = p, ep_path = path, ep_secure = secure\<rparr>))"

section \<open>Substitution\<close>

text \<open>
  The walk that rewrites a document in place: strings inside arrays and objects, at their position
  or key.  A document that is itself a string is not inside anything and stays.
\<close>

fun at_string :: "(string \<Rightarrow> string) \<Rightarrow> jsval \<Rightarrow> jsval" where
  "at_string f (JStr s) = JStr (f s)"
| "at_string f v = v"

fun rewriteNested :: "(string \<Rightarrow> string) \<Rightarrow> jsval \<Rightarrow> jsval" where
  "rewriteNested f (JArr node) =
     JArr (map (\<lambda>item. if is_str item then at_string f item else rewriteNested f item) node)"
| "rewriteNested f (JObj obj) =
     JObj (zip (okeys obj)
       (map (\<lambda>value. if is_str value then at_string f value else rewriteNested f value) (ovalues obj)))"
| "rewriteNested f v = v"

definition substituteMount :: "(string \<Rightarrow> string option) \<Rightarrow> string \<Rightarrow> string" where
  "substituteMount resolveMountUrl item =
     (if parseMountRef (Some item) \<noteq> None
      then (case resolveMountUrl item of Some address \<Rightarrow> address | None \<Rightarrow> item)
      else item)"

definition substituteMountsInBoard :: "(string \<Rightarrow> string option) \<Rightarrow> jsval \<Rightarrow> jsval" where
  "substituteMountsInBoard resolveMountUrl board =
     rewriteNested (substituteMount resolveMountUrl) (deepClone board)"

section \<open>Facts\<close>

lemma index_of_Some:
  "index_of c xs = Some i \<Longrightarrow> xs = take i xs @ c # drop (i + 1) xs \<and> c \<notin> set (take i xs) \<and> i < length xs"
proof (induction xs arbitrary: i)
  case (Cons x xs)
  then show ?case by (fastforce split: if_splits)
qed simp

lemma index_of_append: "c \<notin> set a \<Longrightarrow> index_of c (a @ c # b) = Some (length a)"
  by (induction a) auto

lemma parseMountRef_eq:
  "parseMountRef (Some s) = Some ref \<longleftrightarrow>
     s = formatMountRef ref \<and> ref_runtimeId ref \<noteq> [] \<and> CHR ''/'' \<notin> set (ref_runtimeId ref)
     \<and> ref_serviceUuid ref \<noteq> []"
proof
  assume p: "parseMountRef (Some s) = Some ref"
  then have sw: "starts_with MOUNT_SCHEME s" by (auto simp: parseMountRef_def Let_def split: if_splits)
  define t where "t = drop (length MOUNT_SCHEME) s"
  have parse: "parseMountRef (Some s) =
      (if s = [] then None else case index_of CHR ''/'' t of None \<Rightarrow> None
       | Some slash \<Rightarrow> if slash = 0 \<or> slash = length t - 1 then None
           else Some \<lparr>ref_runtimeId = take slash t, ref_serviceUuid = drop (slash + 1) t\<rparr>)"
    using sw by (simp add: parseMountRef_def Let_def t_def [symmetric])
  from p obtain i where i: "index_of CHR ''/'' t = Some i" "i \<noteq> 0" "i \<noteq> length t - 1"
    and ref: "ref = \<lparr>ref_runtimeId = take i t, ref_serviceUuid = drop (i + 1) t\<rparr>"
    unfolding parse by (auto split: if_splits option.splits)
  note ix = index_of_Some [OF i(1)]
  have "s = MOUNT_SCHEME @ t" unfolding t_def by (rule starts_withD [OF sw])
  with ix have "s = formatMountRef ref" by (simp add: formatMountRef_def ref)
  with ix i(2,3) show "s = formatMountRef ref \<and> ref_runtimeId ref \<noteq> [] \<and> CHR ''/'' \<notin> set (ref_runtimeId ref)
     \<and> ref_serviceUuid ref \<noteq> []"
    by (auto simp: ref)
next
  assume a: "s = formatMountRef ref \<and> ref_runtimeId ref \<noteq> [] \<and> CHR ''/'' \<notin> set (ref_runtimeId ref)
     \<and> ref_serviceUuid ref \<noteq> []"
  have "drop (length MOUNT_SCHEME) (formatMountRef ref) = ref_runtimeId ref @ CHR ''/'' # ref_serviceUuid ref"
    by (simp add: formatMountRef_def)
  moreover have "starts_with MOUNT_SCHEME (formatMountRef ref)" by (simp add: formatMountRef_def)
  moreover have "formatMountRef ref \<noteq> []" by (simp add: formatMountRef_def MOUNT_SCHEME_def)
  ultimately show "parseMountRef (Some s) = Some ref"
    using a by (cases ref) (auto simp: parseMountRef_def index_of_append)
qed

lemma findMountRefs_strings:
  "findMountRefs v into = set_adds (filter isMountRef (strings_of v)) into"
proof (induction v arbitrary: into)
  case (Arr xs)
  have "fold (\<lambda>item. findMountRefs item) xs into
      = fold (\<lambda>x. set_adds (filter isMountRef (strings_of x))) xs into"
    by (rule fold_cong_pointwise) (rule Arr)
  then show ?case by (simp add: fold_set_adds filter_concat o_def)
next
  case (Obj es)
  have "fold (\<lambda>item. findMountRefs item) (ovalues es) into
      = fold (\<lambda>x. set_adds (filter isMountRef (strings_of x))) (ovalues es) into"
    by (rule fold_cong_pointwise) (rule Obj)
  then show ?case by (simp add: fold_set_adds filter_concat o_def)
qed (auto simp: isMountRef_def set_add_def)

lemma rewriteNested_map_text:
  "(\<And>s. v \<noteq> JStr s) \<Longrightarrow> rewriteNested f v = map_text f v"
proof (induction v)
  case (Arr xs)
  have "(if is_str x then at_string f x else rewriteNested f x) = map_text f x" if "x \<in> set xs" for x
    using Arr.IH [OF that] by (cases x) auto
  then show ?case by simp
next
  case (Obj es)
  have "(if is_str x then at_string f x else rewriteNested f x) = map_text f x"
    if "x \<in> set (ovalues es)" for x
    using Obj.IH [OF that] by (cases x) auto
  then have "map (\<lambda>value. if is_str value then at_string f value else rewriteNested f value) (ovalues es)
      = map (map_text f) (ovalues es)"
    by (rule map_cong_set)
  then show ?case
    by (simp only: rewriteNested.simps map_text.simps zip_okeys_map [symmetric])
qed auto

section \<open>Properties\<close>

text \<open>
  Parsing a mount reference and writing one are inverse: a text parses to a reference exactly
  when it is what that reference is written as and the reference names a runtime, by an id without
  a slash, and a service.  An address, a blank or a reference with a part missing is not one.
\<close>

theorem parseMountRef_formatMountRef:
  "parseMountRef (Some s) = Some ref \<longleftrightarrow>
     s = formatMountRef ref \<and> ref_runtimeId ref \<noteq> [] \<and> CHR ''/'' \<notin> set (ref_runtimeId ref)
     \<and> ref_serviceUuid ref \<noteq> []"
  by (rule parseMountRef_eq)

text \<open>
  The references found in a value are exactly the strings of it, at any depth, that are mount
  references, each once.
\<close>

theorem findMountRefs_exact:
  "set (findMountRefs v []) = {s. JStr s \<in> set (subvalues v) \<and> isMountRef s}
   \<and> distinct (findMountRefs v [])"
  by (auto simp: findMountRefs_strings strings_of_subvalues)

text \<open>
  Exporting a board: afterwards the references it holds are those the coordinator could not
  resolve, which stand as they were written, and any an address it answered with happens to be.
  Every string that is not a reference is untouched.
\<close>

theorem substituteMountsInBoard_refs:
  assumes "\<And>s. board \<noteq> JStr s"
  shows "set (findMountRefs (substituteMountsInBoard resolve board) [])
      = {s \<in> set (findMountRefs board []). resolve s = None}
        \<union> {a. isMountRef a \<and> (\<exists>s \<in> set (findMountRefs board []). resolve s = Some a)}
    \<and> strings_of (substituteMountsInBoard resolve board)
      = map (substituteMount resolve) (strings_of board)"
proof -
  have m: "substituteMountsInBoard resolve board = map_text (substituteMount resolve) board"
    using assms by (simp add: substituteMountsInBoard_def deepClone_def rewriteNested_map_text)
  then have s: "strings_of (substituteMountsInBoard resolve board)
      = map (substituteMount resolve) (strings_of board)"
    by simp
  have "set (findMountRefs (substituteMountsInBoard resolve board) [])
      = {s \<in> set (findMountRefs board []). resolve s = None}
        \<union> {a. isMountRef a \<and> (\<exists>s \<in> set (findMountRefs board []). resolve s = Some a)}"
    unfolding findMountRefs_strings s
    by (auto simp: substituteMount_def isMountRef_def [symmetric] split: option.splits if_splits)
      (force simp: substituteMount_def isMountRef_def)+
  with s show ?thesis by blast
qed

theorem substituteMountsInBoard_refs_witness:
  "set (findMountRefs (substituteMountsInBoard (\<lambda>s. if s = ''hkp-mount://a/b'' then Some ''/x'' else None)
      (JArr [JStr ''hkp-mount://a/b'', JStr ''hkp-mount://a/c''])) []) = {''hkp-mount://a/c''}"
proof -
  let ?r = "\<lambda>s. if s = ''hkp-mount://a/b'' then Some ''/x'' else None"
  let ?b = "JArr [JStr ''hkp-mount://a/b'', JStr ''hkp-mount://a/c'']"
  have f: "findMountRefs ?b [] = [''hkp-mount://a/b'', ''hkp-mount://a/c'']" by code_simp
  have "\<not> isMountRef ''/x''" by code_simp
  then show ?thesis using substituteMountsInBoard_refs [of ?b ?r, THEN conjunct1] unfolding f by auto
qed

end
