(* ===== verification/JsText.thy ===== *)
theory JsText
  imports JsPrelude
begin

text \<open>
  Global regular expressions, as the code uses them.

  Every pattern of the modelled code is deterministic: at a given position it either matches one
  stretch of text or none, so it is a \<^emph>\<open>matcher\<close>, a function from the text at a position to what it
  captured and how many characters it took.  \<open>scan\<close> is the left-to-right search of a regular
  expression with the \<^verbatim>\<open>g\<close> flag: \<open>replace_with\<close> is \<^verbatim>\<open>text.replace(pattern, f)\<close>, \<open>hits\<close> what
  \<^verbatim>\<open>text.matchAll(pattern)\<close> captures, and \<open>whole\<close> a pattern anchored at both ends.
\<close>

section \<open>Scanning\<close>

datatype 'a seg = Lit char | Hit 'a string

type_synonym 'a matcher = "string \<Rightarrow> ('a \<times> nat) option"

fun scan :: "'a matcher \<Rightarrow> string \<Rightarrow> 'a seg list" where
  "scan m [] = []"
| "scan m (c # cs) =
     (case m (c # cs) of
        None \<Rightarrow> Lit c # scan m cs
      | Some (x, n) \<Rightarrow> Hit x (take n (c # cs)) # scan m (drop (n - 1) cs))"

fun seg_text :: "'a seg \<Rightarrow> string" where
  "seg_text (Lit c) = [c]"
| "seg_text (Hit x t) = t"

fun seg_hit :: "'a seg \<Rightarrow> 'a option" where
  "seg_hit (Lit c) = None"
| "seg_hit (Hit x t) = Some x"

fun seg_replace :: "('a \<Rightarrow> string \<Rightarrow> string) \<Rightarrow> 'a seg \<Rightarrow> string" where
  "seg_replace f (Lit c) = [c]"
| "seg_replace f (Hit x t) = f x t"

definition replace_with :: "'a matcher \<Rightarrow> ('a \<Rightarrow> string \<Rightarrow> string) \<Rightarrow> string \<Rightarrow> string" where
  "replace_with m f s = concat (map (seg_replace f) (scan m s))"

definition hits :: "'a matcher \<Rightarrow> string \<Rightarrow> 'a list" where
  "hits m s = List.map_filter seg_hit (scan m s)"

definition whole :: "'a matcher \<Rightarrow> string \<Rightarrow> 'a option" where
  "whole m s = (case m s of Some (x, n) \<Rightarrow> if n = length s then Some x else None | None \<Rightarrow> None)"

text \<open>The same replacement where the function also writes to a state, match by match.\<close>

fun seg_state :: "('a \<Rightarrow> string \<Rightarrow> 's \<Rightarrow> string \<times> 's) \<Rightarrow> 'a seg \<Rightarrow> 's \<Rightarrow> string \<times> 's" where
  "seg_state f (Lit c) s = ([c], s)"
| "seg_state f (Hit x t) s = f x t s"

definition replace_state :: "'a matcher \<Rightarrow> ('a \<Rightarrow> string \<Rightarrow> 's \<Rightarrow> string \<times> 's) \<Rightarrow> string \<Rightarrow> 's \<Rightarrow> string \<times> 's" where
  "replace_state m f text s = (let (ps, s') = map_state (seg_state f) (scan m text) s in (concat ps, s'))"

lemma replace_state_tracked:
  assumes "\<And>x t s. x \<in> set (hits m text) \<Longrightarrow> I s \<Longrightarrow> f x t s = (g x t, h x s) \<and> I (h x s)" "I s"
  shows "replace_state m f text s = (replace_with m g text, fold h (hits m text) s) \<and> I (fold h (hits m text) s)"
proof -
  define k where "k seg = (case seg of Lit c \<Rightarrow> (\<lambda>s. s) | Hit x t \<Rightarrow> h x)" for seg :: "'a seg"
  have "seg_state f seg u = (seg_replace g seg, k seg u) \<and> I (k seg u)" if "seg \<in> set (scan m text)" "I u" for seg u
    using assms(1) [OF _ that(2)] that
    by (cases seg) (force simp: k_def hits_def List.map_filter_def)+
  then have "map_state (seg_state f) (scan m text) s = (map (seg_replace g) (scan m text), fold k (scan m text) s)
      \<and> I (fold k (scan m text) s)"
    by (rule map_state_tracked [where I = I]) (use assms(2) in auto)
  moreover have "fold k segs u = fold h (List.map_filter seg_hit segs) u" for segs u
  proof (induction segs arbitrary: u)
    case (Cons seg segs)
    then show ?case by (cases seg) (simp_all add: k_def List.map_filter_simps)
  qed (simp add: List.map_filter_simps)
  ultimately show ?thesis by (simp add: replace_state_def replace_with_def hits_def)
qed

lemma hits_Nil [simp]: "hits m [] = []"
  by (simp add: hits_def List.map_filter_simps)

lemma hits_Cons:
  "hits m (c # cs) =
     (case m (c # cs) of
        None \<Rightarrow> hits m cs
      | Some (x, n) \<Rightarrow> x # hits m (drop (n - 1) cs))"
  by (auto simp: hits_def List.map_filter_simps split: option.splits)

lemma replace_with_Nil [simp]: "replace_with m f [] = []"
  by (simp add: replace_with_def)

lemma replace_with_Cons:
  "replace_with m f (c # cs) =
     (case m (c # cs) of
        None \<Rightarrow> c # replace_with m f cs
      | Some (x, n) \<Rightarrow> f x (take n (c # cs)) @ replace_with m f (drop (n - 1) cs))"
  by (auto simp: replace_with_def split: option.splits)

lemma replace_with_no_hits: "hits m s = [] \<Longrightarrow> replace_with m f s = s"
  by (induction m s rule: scan.induct)
    (auto simp: hits_Cons replace_with_Cons split: option.splits)

lemma replace_with_cong:
  "(\<And>x t. x \<in> set (hits m s) \<Longrightarrow> f x t = g x t) \<Longrightarrow> replace_with m f s = replace_with m g s"
  by (induction m s rule: scan.induct)
    (auto simp: hits_Cons replace_with_Cons split: option.splits)

section \<open>What a pattern must promise\<close>

text \<open>
  The interface of the patterns: a match takes at least one character and no more than there are.
  Under it, scanning cuts the text into consecutive pieces.
\<close>

locale text_pattern =
  fixes m :: "string \<Rightarrow> ('a \<times> nat) option"
  assumes match_bounds: "m s = Some (x, n) \<Longrightarrow> 0 < n \<and> n \<le> length s"
begin

lemma pieces_text: "concat (map seg_text (scan m s)) = s"
proof (induction s rule: length_induct)
  case (1 s)
  show ?case
  proof (cases s)
    case (Cons c cs)
    show ?thesis
    proof (cases "m s")
      case None
      with 1 Cons show ?thesis by simp
    next
      case (Some p)
      obtain x n where p: "p = (x, n)" by (cases p)
      with Some Cons have b: "0 < n" "n \<le> length (c # cs)"
        using match_bounds [of s x n] by auto
      have "drop n (c # cs) = drop (n - 1) cs"
        using b by (cases n) auto
      moreover have "concat (map seg_text (scan m (drop (n - 1) cs))) = drop (n - 1) cs"
        using 1 Cons by simp
      ultimately show ?thesis
        using Some Cons p by (simp del: take_Suc_Cons) (metis append_take_drop_id)
    qed
  qed simp
qed

lemma replace_keep: "(\<And>x t. f x t = t) \<Longrightarrow> replace_with m f s = s"
proof -
  assume f: "\<And>x t. f x t = t"
  have "seg_replace f = seg_text"
  proof
    fix g :: "'a seg"
    show "seg_replace f g = seg_text g" by (cases g) (simp_all add: f)
  qed
  then show ?thesis by (simp add: replace_with_def pieces_text)
qed

lemma whole_hit: "whole m s = Some x \<Longrightarrow> hits m s = [x]"
  using match_bounds by (cases s) (fastforce simp: whole_def hits_Cons split: option.splits if_splits)+

lemma whole_replace: "whole m s = Some x \<Longrightarrow> replace_with m f s = f x s"
  using match_bounds
  by (cases s) (fastforce simp: whole_def replace_with_Cons split: option.splits if_splits)+

end

section \<open>The shapes of pattern the code has\<close>

text \<open>What is left of a text that starts with a given one.\<close>

definition strip :: "string \<Rightarrow> string \<Rightarrow> string option" where
  "strip p s = (if starts_with p s then Some (drop (length p) s) else None)"

lemma strip_append [simp]: "strip p (p @ s) = Some s"
  by (simp add: strip_def)

lemma strip_Some: "strip p s = Some r \<Longrightarrow> s = p @ r"
  unfolding strip_def by (metis option.inject option.distinct(1) starts_withD)

text \<open>
  \<^verbatim>\<open>/\{\{\s*<head>([A-Za-z0-9_.-]+)\s*\}\}/\<close> with a fixed head such as \<^verbatim>\<open>param.\<close>.  No character
  of the class is white space or a brace, so taking as much as possible at each step, as the
  quantifiers do, leaves nothing to backtrack into.
\<close>

definition braced_name :: "string \<Rightarrow> string matcher" where
  "braced_name head s =
     (case strip ''{{'' s of
        None \<Rightarrow> None
      | Some a \<Rightarrow>
          (case strip head (dropWhile is_space a) of
             None \<Rightarrow> None
           | Some c \<Rightarrow>
               (case strip ''}}'' (dropWhile is_space (dropWhile is_name_char c)) of
                  None \<Rightarrow> None
                | Some d \<Rightarrow>
                    if takeWhile is_name_char c = [] then None
                    else Some (takeWhile is_name_char c, length s - length d))))"

text \<open>\<^verbatim>\<open>/\{\{\s*<word>\s*\}\}/\<close>.\<close>

definition braced_word :: "string \<Rightarrow> unit matcher" where
  "braced_word word s =
     (case strip ''{{'' s of
        None \<Rightarrow> None
      | Some a \<Rightarrow>
          (case strip word (dropWhile is_space a) of
             None \<Rightarrow> None
           | Some c \<Rightarrow>
               (case strip ''}}'' (dropWhile is_space c) of
                  None \<Rightarrow> None
                | Some d \<Rightarrow> Some ((), length s - length d))))"

text \<open>\<^verbatim>\<open>/<prefix>([A-Za-z0-9_.-]+)/\<close>.\<close>

definition prefixed_name :: "string \<Rightarrow> string matcher" where
  "prefixed_name pre s =
     (case strip pre s of
        None \<Rightarrow> None
      | Some c \<Rightarrow>
          if takeWhile is_name_char c = [] then None
          else Some (takeWhile is_name_char c, length pre + length (takeWhile is_name_char c)))"

text \<open>A run of characters of a class: \<^verbatim>\<open>/[...]+/\<close>.\<close>

definition run_of :: "(char \<Rightarrow> bool) \<Rightarrow> string matcher" where
  "run_of P s = (if takeWhile P s = [] then None else Some (takeWhile P s, length (takeWhile P s)))"

lemma length_strip: "strip p s = Some r \<Longrightarrow> length s = length p + length r"
  by (drule strip_Some) simp

lemma length_dropWhile_strip:
  "strip p (dropWhile P s) = Some r \<Longrightarrow> length p + length r \<le> length s"
  using length_strip [of p "dropWhile P s" r] length_dropWhile_le [of P s] by simp

lemma braced_name_bounds:
  assumes "braced_name head s = Some (x, n)"
  shows "0 < n \<and> n \<le> length s"
proof -
  from assms obtain a c d where *: "strip ''{{'' s = Some a"
    "strip head (dropWhile is_space a) = Some c"
    "strip ''}}'' (dropWhile is_space (dropWhile is_name_char c)) = Some d"
    and n: "n = length s - length d"
    by (simp add: braced_name_def split: option.splits if_splits)
  have "length d \<le> length (dropWhile is_name_char c)"
    using length_dropWhile_strip [OF *(3)] by simp
  moreover have "length (dropWhile is_name_char c) \<le> length c" by (rule length_dropWhile_le)
  moreover have "length c \<le> length a" using length_dropWhile_strip [OF *(2)] by simp
  moreover have "length s = 2 + length a" using length_strip [OF *(1)] by simp
  ultimately show ?thesis using n by linarith
qed

lemma braced_word_bounds:
  assumes "braced_word w s = Some (x, n)"
  shows "0 < n \<and> n \<le> length s"
proof -
  from assms obtain a c d where *: "strip ''{{'' s = Some a"
    "strip w (dropWhile is_space a) = Some c" "strip ''}}'' (dropWhile is_space c) = Some d"
    and n: "n = length s - length d"
    by (simp add: braced_word_def split: option.splits)
  have "length d \<le> length c" using length_dropWhile_strip [OF *(3)] by simp
  moreover have "length c \<le> length a" using length_dropWhile_strip [OF *(2)] by simp
  moreover have "length s = 2 + length a" using length_strip [OF *(1)] by simp
  ultimately show ?thesis using n by linarith
qed

lemma prefixed_name_bounds:
  assumes "prefixed_name pre s = Some (x, n)"
  shows "0 < n \<and> n \<le> length s"
proof -
  from assms obtain c where c: "strip pre s = Some c" and x: "takeWhile is_name_char c \<noteq> []"
    and n: "n = length pre + length (takeWhile is_name_char c)"
    by (auto simp: prefixed_name_def split: option.splits if_splits)
  from x have "0 < length (takeWhile is_name_char c)" by simp
  with n length_strip [OF c] length_takeWhile_le [of is_name_char c] show ?thesis by linarith
qed

lemma run_of_bounds: "run_of P s = Some (x, n) \<Longrightarrow> 0 < n \<and> n \<le> length s"
  by (auto simp: run_of_def length_takeWhile_le split: if_splits)

interpretation braced_name: text_pattern "braced_name head" for head
  by unfold_locales (rule braced_name_bounds)

interpretation braced_word: text_pattern "braced_word w" for w
  by unfold_locales (rule braced_word_bounds)

interpretation prefixed_name: text_pattern "prefixed_name pre" for pre
  by unfold_locales (rule prefixed_name_bounds)

interpretation run_of: text_pattern "run_of P" for P
  by unfold_locales (rule run_of_bounds)

end
