(* ===== verification/BoardParams.thy ===== *)
theory BoardParams
  imports BoardTraversal JsText "HOL-Library.Word"
begin

text \<open>
  Parameters of a configuration document (\<^verbatim>\<open>hkp-frontend/src/runtime/board/params.ts\<close>):
  substituting \<^verbatim>\<open>{{param.name}}\<close>, listing what a structure refers to, and making the values that
  ask for \<^verbatim>\<open>{{random}}\<close>.  The random bytes of \<^verbatim>\<open>crypto.getRandomValues\<close> are a parameter: \<open>rng n\<close> is
  what the \<open>n\<close>-th call fills its twenty bytes with, and the count of calls made is threaded through.
\<close>

section \<open>References\<close>

abbreviation PARAM :: "string matcher" where
  "PARAM \<equiv> braced_name ''param.''"

definition WHOLE_PARAM :: "string \<Rightarrow> string option" where
  "WHOLE_PARAM = whole PARAM"

definition hasOwn :: "obj \<Rightarrow> string \<Rightarrow> bool" where
  "hasOwn params name = (name \<in> set (okeys params))"

text \<open>
  The replacement inside a longer string, and the names it adds to \<^verbatim>\<open>missing\<close>, in the order the
  references stand.
\<close>

definition substituteText :: "obj \<Rightarrow> string \<Rightarrow> string" where
  "substituteText params current =
     replace_with PARAM
       (\<lambda>name reference. if hasOwn params name then to_str (oget params name) else reference) current"

definition missingInText :: "obj \<Rightarrow> string \<Rightarrow> string list \<Rightarrow> string list" where
  "missingInText params current missing =
     set_adds (filter (\<lambda>name. \<not> hasOwn params name) (hits PARAM current)) missing"

fun substituteParams :: "obj \<Rightarrow> jsval \<Rightarrow> string list \<Rightarrow> jsval \<times> string list" where
  "substituteParams params (JStr current) missing =
     (case WHOLE_PARAM current of
        Some name \<Rightarrow>
          if hasOwn params name then (oget params name, missing)
          else (JStr current, set_add name missing)
      | None \<Rightarrow> (JStr (substituteText params current), missingInText params current missing))"
| "substituteParams params (JArr current) missing =
     (let (ys, missing') = map_state (\<lambda>x. substituteParams params x) current missing
      in (JArr ys, missing'))"
| "substituteParams params (JObj current) missing =
     (let (ys, missing') = map_state (\<lambda>x. substituteParams params x) (ovalues current) missing
      in (JObj (from_entries (zip (okeys current) ys)), missing'))"
| "substituteParams params current missing = (current, missing)"

fun referencedParams :: "jsval \<Rightarrow> string list \<Rightarrow> string list" where
  "referencedParams (JStr current) found = set_adds (hits PARAM current) found"
| "referencedParams (JArr current) found = fold (\<lambda>x. referencedParams x) current found"
| "referencedParams (JObj current) found = fold (\<lambda>x. referencedParams x) (ovalues current) found"
| "referencedParams _ found = found"

section \<open>Made values\<close>

abbreviation RANDOM :: "unit matcher" where
  "RANDOM \<equiv> braced_word ''random''"

definition token_alphabet :: string where
  "token_alphabet = ''abcdefghijklmnopqrstuvwxyz0123456789''"

definition randomToken :: "8 word list \<Rightarrow> string" where
  "randomToken bytes = map (\<lambda>byte. token_alphabet ! (unat byte mod length token_alphabet)) bytes"

fun replaceRandom :: "(nat \<Rightarrow> 8 word list) \<Rightarrow> unit seg list \<Rightarrow> nat \<Rightarrow> string \<times> nat" where
  "replaceRandom rng [] n = ([], n)"
| "replaceRandom rng (Lit c # segs) n =
     (let (t, n') = replaceRandom rng segs n in (c # t, n'))"
| "replaceRandom rng (Hit _ _ # segs) n =
     (let (t, n') = replaceRandom rng segs (Suc n) in (randomToken (rng n) @ t, n'))"

fun generatedParams :: "(nat \<Rightarrow> 8 word list) \<Rightarrow> obj \<Rightarrow> nat \<Rightarrow> obj \<Rightarrow> obj \<times> nat" where
  "generatedParams rng [] n made = (made, n)"
| "generatedParams rng ((name, value) # params) n made =
     (case value of
        JStr text \<Rightarrow>
          if hits RANDOM text \<noteq> [] then
            let (t, n') = replaceRandom rng (scan RANDOM text) n
            in generatedParams rng params n' (oput name (JStr t) made)
          else generatedParams rng params n made
      | _ \<Rightarrow> generatedParams rng params n made)"

section \<open>Facts\<close>

definition param_refs :: "jsval \<Rightarrow> string list" where
  "param_refs v = concat (map (hits PARAM) (strings_of v))"

lemma param_refs_simps [simp]:
  "param_refs (JStr s) = hits PARAM s"
  "param_refs (JArr xs) = concat (map param_refs xs)"
  "param_refs (JObj es) = concat (map param_refs (ovalues es))"
  "param_refs JUndef = []" "param_refs JNull = []" "param_refs (JBool b) = []" "param_refs (JNum m) = []"
proof -
  have "concat (map (hits PARAM) (concat (map strings_of vs))) = concat (map param_refs vs)" for vs
    by (induction vs) (simp_all add: param_refs_def)
  then show "param_refs (JArr xs) = concat (map param_refs xs)"
    and "param_refs (JObj es) = concat (map param_refs (ovalues es))"
    by (simp_all add: param_refs_def)
qed (simp_all add: param_refs_def)

lemma referencedParams_eq: "referencedParams v found = set_adds (param_refs v) found"
proof (induction v arbitrary: found)
  case (Arr xs)
  have "fold (\<lambda>x. referencedParams x) xs found = fold (\<lambda>x. set_adds (param_refs x)) xs found"
    by (rule fold_cong_pointwise) (rule Arr)
  then show ?case by (simp add: fold_set_adds)
next
  case (Obj es)
  have "fold (\<lambda>x. referencedParams x) (ovalues es) found
      = fold (\<lambda>x. set_adds (param_refs x)) (ovalues es) found"
    by (rule fold_cong_pointwise) (rule Obj)
  then show ?case by (simp add: fold_set_adds)
qed simp_all

lemma WHOLE_PARAM_hits: "WHOLE_PARAM s = Some name \<Longrightarrow> hits PARAM s = [name]"
  by (simp add: WHOLE_PARAM_def braced_name.whole_hit)

text \<open>The value substitution gives, without the bookkeeping.\<close>

fun filled :: "obj \<Rightarrow> jsval \<Rightarrow> jsval" where
  "filled params (JStr s) =
     (case WHOLE_PARAM s of
        Some name \<Rightarrow> if hasOwn params name then oget params name else JStr s
      | None \<Rightarrow> JStr (substituteText params s))"
| "filled params (JArr xs) = JArr (map (filled params) xs)"
| "filled params (JObj es) = JObj (from_entries (zip (okeys es) (map (filled params) (ovalues es))))"
| "filled params v = v"

lemma set_add_fold: "set_add x acc = set_adds [x] acc"
  by simp

lemma substituteParams_eq:
  "substituteParams params v missing
     = (filled params v, set_adds (filter (\<lambda>name. \<not> hasOwn params name) (param_refs v)) missing)"
proof (induction v arbitrary: missing)
  case (Str s)
  then show ?case
    by (auto simp: missingInText_def WHOLE_PARAM_hits split: option.splits)
next
  case (Arr xs)
  have "map_state (\<lambda>x. substituteParams params x) xs missing
      = (map (filled params) xs,
         fold (\<lambda>x. set_adds (filter (\<lambda>name. \<not> hasOwn params name) (param_refs x))) xs missing)"
    by (rule map_state_pure) (rule Arr)
  then show ?case by (simp add: fold_set_adds filter_concat o_def)
next
  case (Obj es)
  have "map_state (\<lambda>x. substituteParams params x) (ovalues es) missing
      = (map (filled params) (ovalues es),
         fold (\<lambda>x. set_adds (filter (\<lambda>name. \<not> hasOwn params name) (param_refs x))) (ovalues es) missing)"
    by (rule map_state_pure) (rule Obj)
  then show ?case by (simp add: fold_set_adds filter_concat o_def)
qed simp_all

lemma substituteText_no_refs: "hits PARAM s = [] \<Longrightarrow> substituteText params s = s"
  by (simp add: substituteText_def replace_with_no_hits)

lemma substituteText_absent:
  "(\<And>name. name \<in> set (hits PARAM s) \<Longrightarrow> \<not> hasOwn params name) \<Longrightarrow> substituteText params s = s"
proof -
  assume "\<And>name. name \<in> set (hits PARAM s) \<Longrightarrow> \<not> hasOwn params name"
  then have "substituteText params s = replace_with PARAM (\<lambda>_ t. t) s"
    unfolding substituteText_def by (intro replace_with_cong) simp
  then show ?thesis by (simp add: braced_name.replace_keep)
qed

lemma filled_absent:
  "wf_js v \<Longrightarrow> (\<And>name. name \<in> set (param_refs v) \<Longrightarrow> \<not> hasOwn params name) \<Longrightarrow> filled params v = v"
proof (induction v)
  case (Str s)
  then show ?case
    by (auto simp: WHOLE_PARAM_hits substituteText_absent split: option.splits)
next
  case (Arr xs)
  have "filled params x = x" if "x \<in> set xs" for x
    using Arr that by (auto simp: list_all_iff)
  then show ?case by (simp add: map_idI)
next
  case (Obj es)
  have "filled params x = x" if "x \<in> set (ovalues es)" for x
    using Obj that by (auto simp: list_all_iff)
  then have "map (filled params) (ovalues es) = ovalues es" by (simp add: map_idI)
  moreover have "zip (okeys es) (ovalues es) = es" by (simp add: ovalues_def zip_map_fst_snd)
  ultimately show ?case using Obj.prems by (simp add: from_entries_canon)
qed auto

lemma okeys_from_entries_same: "canon_keys (okeys es) \<Longrightarrow> okeys (from_entries es) = okeys es"
  by (simp add: from_entries_canon)

lemma wf_js_filled:
  "wf_js v \<Longrightarrow> (\<And>k x. map_of params k = Some x \<Longrightarrow> wf_js x) \<Longrightarrow> wf_js (filled params v)"
proof (induction v)
  case (Str s)
  have "wf_js (oget params n)" for n
    using Str.prems(2) by (cases "map_of params n") (auto simp: oget_def)
  then show ?case by (auto split: option.splits)
next
  case (Obj es)
  have z: "zip (okeys es) (map (filled params) (ovalues es)) = map (map_prod id (filled params)) es"
    by (rule zip_okeys_map)
  have "from_entries (map (map_prod id (filled params)) es) = map (map_prod id (filled params)) es"
    using Obj.prems by (intro from_entries_canon) simp
  then show ?case using Obj by (auto simp: z list_all_iff simp del: map_map)
qed (auto simp: list_all_iff)

lemma token_char: "unat (b :: 8 word) mod length token_alphabet < length token_alphabet"
  by (simp add: token_alphabet_def)

lemma replaceRandom_count: "snd (replaceRandom rng segs n) = n + length (List.map_filter seg_hit segs)"
  by (induction rng segs n rule: replaceRandom.induct)
    (auto simp: List.map_filter_simps Let_def split: prod.splits)

section \<open>Properties\<close>

text \<open>
  Substituting reports as missing exactly the parameters the document refers to and the given
  ones do not hold, each once; and a document none of whose references has a value comes back
  unchanged, references and all, rather than emptied.
\<close>

theorem substituteParams_missing:
  "set (snd (substituteParams params v [])) = {name \<in> set (referencedParams v []). \<not> hasOwn params name}
   \<and> distinct (snd (substituteParams params v []))
   \<and> (wf_js v \<and> (\<forall>name \<in> set (referencedParams v []). \<not> hasOwn params name)
        \<longrightarrow> fst (substituteParams params v []) = v)"
  by (auto simp: substituteParams_eq referencedParams_eq filled_absent)

theorem substituteParams_missing_witness:
  "fst (substituteParams [] (JArr [JStr ''{{param.a}}'']) []) = JArr [JStr ''{{param.a}}'']"
proof -
  have "\<forall>name \<in> set (referencedParams (JArr [JStr ''{{param.a}}'']) []). \<not> hasOwn [] name"
    by (simp add: hasOwn_def)
  then show ?thesis
    using substituteParams_missing [of "[]" "JArr [JStr ''{{param.a}}'']"] by simp
qed

text \<open>
  A reference that is a whole string takes the parameter's value of whatever type it is; a
  reference inside a longer string is written into it as text.
\<close>

theorem substituteParams_whole:
  assumes "WHOLE_PARAM s = Some name" and "map_of params name = Some x"
  shows "substituteParams params (JStr s) missing = (x, missing)
       \<and> substituteText params s = to_str x"
proof -
  have "hasOwn params name" using map_of_SomeD [OF assms(2)] by (force simp: hasOwn_def)
  with assms show ?thesis
    by (simp add: oget_def substituteText_def WHOLE_PARAM_def braced_name.whole_replace)
qed

theorem substituteParams_whole_witness:
  "substituteParams [(''n'', JNum (Dec 3 0))] (JStr ''{{ param.n }}'') [] = (JNum (Dec 3 0), [])
   \<and> substituteText [(''n'', JNum (Dec 3 0))] ''{{ param.n }}'' = ''3''"
proof -
  have "WHOLE_PARAM ''{{ param.n }}'' = Some ''n''" by code_simp
  moreover have "map_of [(''n'', JNum (Dec 3 0))] ''n'' = Some (JNum (Dec 3 0))" by simp
  moreover have "to_str (JNum (Dec 3 0)) = ''3''" by code_simp
  ultimately show ?thesis
    using substituteParams_whole [of "''{{ param.n }}''" "''n''" "[(''n'', JNum (Dec 3 0))]"] by metis
qed

text \<open>
  A made token has one character per random byte, each a lowercase letter or a digit, so it is
  valid in a URL path, a topic and a file name.
\<close>

theorem randomToken_shape:
  "length (randomToken bytes) = length bytes
   \<and> (\<forall>c \<in> set (randomToken bytes). is_lower c \<or> is_digit c)"
proof -
  have "\<forall>c \<in> set token_alphabet. is_lower c \<or> is_digit c"
    by (simp add: token_alphabet_def is_lower_def is_digit_def Let_def)
  moreover have "token_alphabet ! (unat b mod length token_alphabet) \<in> set token_alphabet" for b :: "8 word"
    by (rule nth_mem [OF token_char])
  ultimately show ?thesis by (auto simp: randomToken_def)
qed

lemma generatedParams_mem:
  "fst (generatedParams rng params n made) = made' \<Longrightarrow>
   set (okeys made') = set (okeys made) \<union> {name. \<exists>text. (name, JStr text) \<in> set params \<and> hits RANDOM text \<noteq> []}"
proof (induction rng params n made arbitrary: made' rule: generatedParams.induct)
  case (2 rng name v params n made)
  show ?case
  proof (cases v)
    case (JStr str)
    show ?thesis
    proof (cases "hits RANDOM str = []")
      case True
      with 2 JStr show ?thesis by auto
    next
      case False
      obtain t n' where r: "replaceRandom rng (scan RANDOM str) n = (t, n')"
        by (cases "replaceRandom rng (scan RANDOM str) n")
      with 2 JStr False have "set (okeys made') = set (okeys (oput name (JStr t) made))
          \<union> {name. \<exists>text. (name, JStr text) \<in> set params \<and> hits RANDOM text \<noteq> []}"
        by simp
      with JStr False show ?thesis by auto
    qed
  qed (use 2 in auto)
qed simp

text \<open>
  Values are made for exactly the parameters whose value is a text asking for one: no other
  parameter is touched.
\<close>

theorem generatedParams_only_asked:
  "set (okeys (fst (generatedParams rng params n [])))
     = {name. \<exists>text. (name, JStr text) \<in> set params \<and> hits RANDOM text \<noteq> []}"
  using generatedParams_mem [OF refl, of rng params n "[]"] by simp

end
