(* ===== verification/BoardUnits.thy ===== *)
theory BoardUnits
  imports BoardMount BoardParams
begin

text \<open>
  Board units (\<^verbatim>\<open>hkp-frontend/src/runtime/board/units.ts\<close>): several board documents assembled into
  one running board by qualifying runtime ids, and split back into the documents on save.

  A document, a runtime descriptor and a unit entry are the objects they are in the code, read
  field by field; the records are the structures the module itself builds.
\<close>

section \<open>Vocabulary\<close>

definition UNIT_SCHEME :: string where
  "UNIT_SCHEME = ''hkp-unit://''"

definition UNIT_SEPARATOR :: string where
  "UNIT_SEPARATOR = ''.''"

datatype level = Error | Warning

record Diagnostic =
  d_level :: level
  d_code :: string
  d_message :: string
  d_unit :: "string option"
  d_block :: "string option"

definition diagnostic :: "level \<Rightarrow> string \<Rightarrow> string option \<Rightarrow> string \<Rightarrow> Diagnostic" where
  "diagnostic l code unit message =
     \<lparr>d_level = l, d_code = code, d_message = message, d_unit = unit, d_block = None\<rparr>"

record PlacedUnit =
  pu_name :: string
  pu_uri :: jsval
  pu_entry :: obj
  pu_boardName :: jsval
  pu_declaration :: jsval
  pu_runtimeIds :: "(string \<times> string) list"
  pu_source :: obj

record ResolvedUnit =
  ru_entry :: obj
  ru_board :: obj
  ru_name :: string

record BoardView =
  view_id :: string
  view_title :: jsval
  view_unit :: "string option"
  view_facade :: jsval
  view_runtimeIds :: "string list"

record Projection =
  pr_board :: obj
  pr_units :: "PlacedUnit list"
  pr_views :: "BoardView list"
  pr_diagnostics :: "Diagnostic list"

text \<open>\<^verbatim>\<open>a || b\<close>, and the key a value is used as.\<close>

definition or_truthy :: "jsval \<Rightarrow> jsval \<Rightarrow> jsval" where
  "or_truthy a b = (if truthy a then a else b)"

definition rid :: "jsval \<Rightarrow> string" where
  "rid runtime = to_str (field runtime ''id'')"

text \<open>
  Looking a name up in a dictionary with \<^verbatim>\<open>d[name]\<close>: what every object inherits is found too, and
  is a function whose text is what \<^verbatim>\<open>String\<close> makes of it.
\<close>

definition proto_text :: "string \<Rightarrow> string" where
  "proto_text name =
     (if name = ''__proto__'' then ''[object Object]''
      else if name = ''constructor'' then ''function Object() { [native code] }''
      else ''function '' @ name @ ''() { [native code] }'')"

definition dict_get :: "(string \<times> 'v) list \<Rightarrow> ('v \<Rightarrow> string option) \<Rightarrow> string \<Rightarrow> string option" where
  "dict_get d text_of name =
     (case map_of d name of
        Some v \<Rightarrow> text_of v
      | None \<Rightarrow> if name \<in> set proto_keys then Some (proto_text name) else None)"

section \<open>Parameters of a unit\<close>

definition paramReference :: "string \<Rightarrow> string" where
  "paramReference name = ''{{param.'' @ name @ ''}}''"

definition unitParam :: "obj \<Rightarrow> string \<Rightarrow> string option" where
  "unitParam params = dict_get params (\<lambda>v. if v = JUndef then None else Some (to_str v))"

definition resolveText :: "obj \<Rightarrow> string \<Rightarrow> string" where
  "resolveText params t =
     replace_with PARAM
       (\<lambda>name w. case unitParam params name of None \<Rightarrow> w | Some param \<Rightarrow> param) t"

definition resolveParams :: "jsval \<Rightarrow> obj \<Rightarrow> jsval \<times> string list" where
  "resolveParams v params =
     walkStrings
       (\<lambda>t missing.
          (resolveText params t,
           set_adds (filter (\<lambda>name. unitParam params name = None) (hits PARAM t)) missing)) v []"

definition unitReferencedParams :: "jsval \<Rightarrow> string list" where
  "unitReferencedParams v = snd (walkStrings (\<lambda>t found. (t, set_adds (hits PARAM t) found)) v [])"

section \<open>Where a unit is and what it is called\<close>

datatype UnitRef = RelativeRef string | AbsoluteRef string

text \<open>\<^verbatim>\<open>/^[a-z][a-z0-9+.-]*:\/\//i\<close>\<close>

definition is_scheme_char :: "char \<Rightarrow> bool" where
  "is_scheme_char c = (is_upper c \<or> is_lower c \<or> is_digit c \<or> c \<in> {CHR ''+'', CHR ''.'', CHR ''-''})"

definition has_scheme :: "string \<Rightarrow> bool" where
  "has_scheme s =
     (case s of
        [] \<Rightarrow> False
      | c # cs \<Rightarrow> (is_upper c \<or> is_lower c) \<and> starts_with ''://'' (dropWhile is_scheme_char cs))"

definition parseUnitRef :: "string option \<Rightarrow> UnitRef option" where
  "parseUnitRef v =
     (case v of
        None \<Rightarrow> None
      | Some s \<Rightarrow>
          if s = [] then None
          else if starts_with UNIT_SCHEME s then
            (let target = drop (length UNIT_SCHEME) s
             in if target \<noteq> [] then Some (RelativeRef target) else None)
          else if has_scheme s then Some (AbsoluteRef s)
          else Some (RelativeRef s))"

definition formatUnitRef :: "string \<Rightarrow> string" where
  "formatUnitRef uri = UNIT_SCHEME @ uri"

definition to_lower :: "char \<Rightarrow> char" where
  "to_lower c = (if is_upper c then char_of ((of_char c :: nat) + 32) else c)"

text \<open>\<^verbatim>\<open>last.replace(/\.json$/i, "")\<close>\<close>

definition unitBaseName :: "string \<Rightarrow> string" where
  "unitBaseName uri =
     (let l = last (split_on CHR ''/'' uri)
      in if ends_with ''.json'' (map to_lower l) then take (length l - 5) l else l)"

definition qualifyRuntimeId :: "string \<Rightarrow> string \<Rightarrow> string" where
  "qualifyRuntimeId unitName runtimeId = unitName @ UNIT_SEPARATOR @ runtimeId"

definition unitNameOf :: "obj \<Rightarrow> obj \<Rightarrow> jsval" where
  "unitNameOf entry board =
     or_truthy (oget entry ''as'')
       (or_truthy (field (oget board ''unit'') ''name'')
         (or_truthy (JStr (unitBaseName (to_str (or_truthy (oget entry ''uri'') (JStr '''')))))
           (JStr ''unit'')))"

section \<open>Placing a unit\<close>

definition withBoundAddressing :: "obj \<Rightarrow> jsval \<Rightarrow> obj" where
  "withBoundAddressing runtime binding =
     (if \<not> truthy (field binding ''url'') \<and> \<not> truthy (field binding ''remote'') then runtime
      else
        ospread (ospread (omit [''url'', ''remote''] runtime)
           (if truthy (field binding ''url'') then [(''url'', field binding ''url'')] else []))
           (if truthy (field binding ''remote'') then [(''remote'', field binding ''remote'')] else []))"

definition requalified :: "(string \<times> string) list \<Rightarrow> string \<Rightarrow> string" where
  "requalified runtimeIds raw =
     (case parseMountRef (Some raw) of
        None \<Rightarrow> raw
      | Some ref \<Rightarrow>
          (case dict_get runtimeIds Some (ref_runtimeId ref) of
             Some projectedId \<Rightarrow>
               if projectedId \<noteq> [] then
                 formatMountRef \<lparr>ref_runtimeId = projectedId, ref_serviceUuid = ref_serviceUuid ref\<rparr>
               else raw
           | None \<Rightarrow> raw))"

definition requalifyMounts :: "jsval \<Rightarrow> (string \<times> string) list \<Rightarrow> jsval" where
  "requalifyMounts services runtimeIds = rewriteNested (requalified runtimeIds) services"

definition bindingOf :: "obj \<Rightarrow> jsval \<Rightarrow> jsval" where
  "bindingOf entry runtime = field (oget entry ''runtimes'') (rid runtime)"

definition projectedIdOf :: "obj \<Rightarrow> string \<Rightarrow> jsval \<Rightarrow> string" where
  "projectedIdOf entry name runtime =
     (if truthy (field (bindingOf entry runtime) ''id'')
      then to_str (field (bindingOf entry runtime) ''id'')
      else qualifyRuntimeId name (rid runtime))"

definition runtimeIdsOf :: "obj \<Rightarrow> string \<Rightarrow> jsval list \<Rightarrow> (string \<times> string) list" where
  "runtimeIdsOf entry name runtimes =
     fold (\<lambda>runtime ids. oput (rid runtime) (projectedIdOf entry name runtime) ids) runtimes []"

definition placeRuntime :: "obj \<Rightarrow> obj \<Rightarrow> string \<Rightarrow> (string \<times> string) list \<Rightarrow> jsval \<Rightarrow> jsval" where
  "placeRuntime entry board name runtimeIds runtime =
     (let binding = bindingOf entry runtime in
      JObj (ospread (withBoundAddressing (js_obj runtime) binding)
        ([(''id'', (case map_of runtimeIds (rid runtime) of Some i \<Rightarrow> JStr i | None \<Rightarrow> JUndef))]
         @ (if truthy (field binding ''type'') then [(''type'', field binding ''type'')] else [])
         @ [(''boardName'', oget board ''boardName''), (''unit'', JStr name),
            (''unitRuntimeId'', field runtime ''id'')])))"

fun placeServices ::
  "string \<Rightarrow> (string \<times> string) list \<Rightarrow> obj \<Rightarrow> obj \<Rightarrow> obj \<times> Diagnostic list" where
  "placeServices name runtimeIds [] services = (services, [])"
| "placeServices name runtimeIds ((unitRuntimeId, lst) # rest) services =
     (case dict_get runtimeIds Some unitRuntimeId of
        Some projectedId \<Rightarrow>
          if projectedId \<noteq> [] then
            placeServices name runtimeIds rest
              (oput projectedId (requalifyMounts lst runtimeIds) services)
          else
            (let (s, ds) = placeServices name runtimeIds rest services in
             (s, diagnostic Warning ''unit-orphan-services'' (Some name)
               (''Services are listed for runtime \"'' @ unitRuntimeId
                @ ''\", which the unit does not declare.'') # ds))
      | None \<Rightarrow>
          (let (s, ds) = placeServices name runtimeIds rest services in
           (s, diagnostic Warning ''unit-orphan-services'' (Some name)
             (''Services are listed for runtime \"'' @ unitRuntimeId
              @ ''\", which the unit does not declare.'') # ds)))"

record Placed =
  pl_unit :: PlacedUnit
  pl_runtimes :: "jsval list"
  pl_services :: obj
  pl_view :: "BoardView option"
  pl_diagnostics :: "Diagnostic list"

text \<open>The part of a document substitution reads: its runtimes, services and facade.\<close>

definition boardBody :: "obj \<Rightarrow> jsval" where
  "boardBody board =
     JObj [(''runtimes'', or_else (oget board ''runtimes'') (JArr [])),
           (''services'', or_else (oget board ''services'') (JObj [])),
           (''facade'', oget board ''facade'')]"

definition missingDiagnostic :: "string option \<Rightarrow> string \<Rightarrow> Diagnostic" where
  "missingDiagnostic unit param =
     diagnostic Warning ''unit-param-missing'' unit
       (''Parameter \"'' @ param @ ''\" has no value; the reference is left in the board.'')"

definition unitParams :: "obj \<Rightarrow> obj \<Rightarrow> obj" where
  "unitParams board entry =
     ospread (from_entries (js_obj (field (oget board ''unit'') ''params''))) (js_obj (oget entry ''params''))"

definition placeUnit :: "ResolvedUnit \<Rightarrow> Placed" where
  "placeUnit resolved =
     (let entry = ru_entry resolved; board = ru_board resolved; name = ru_name resolved;
          source = js_obj (deepClone (JObj board));
          params = unitParams board entry;
          (substituted, missing) = resolveParams (boardBody board) params;
          runtimes = js_arr (field substituted ''runtimes'');
          facade = field substituted ''facade'';
          runtimeIds = runtimeIdsOf entry name runtimes;
          (services, orphans) =
            placeServices name runtimeIds (js_obj (field substituted ''services'')) []
      in \<lparr>pl_unit =
            \<lparr>pu_name = name, pu_uri = oget entry ''uri'', pu_entry = entry,
             pu_boardName = or_truthy (oget board ''boardName'') (JStr name),
             pu_declaration = oget board ''unit'', pu_runtimeIds = runtimeIds, pu_source = source\<rparr>,
          pl_runtimes = map (placeRuntime entry board name runtimeIds) runtimes,
          pl_services = services,
          pl_view =
            (if truthy facade \<and> oget entry ''view'' \<noteq> JBool False then
               Some \<lparr>view_id = name, view_title = or_truthy (oget board ''boardName'') (JStr name),
                     view_unit = Some name, view_facade = facade,
                     view_runtimeIds = ovalues runtimeIds\<rparr>
             else None),
          pl_diagnostics = map (missingDiagnostic (Some name)) missing @ orphans\<rparr>)"

section \<open>Checking a projection\<close>

record TopicUsage =
  published :: "string list"
  consumed :: "string list"

definition collectQueueServices :: "jsval \<Rightarrow> obj list" where
  "collectQueueServices services =
     collectServicesById services ''queue'' @ collectServicesById services ''hookup.to/service/queue''"

definition addTopic :: "obj \<Rightarrow> TopicUsage \<Rightarrow> TopicUsage" where
  "addTopic node u =
     (case field (oget node ''state'') ''topic'' of
        JStr topic \<Rightarrow>
          if topic = [] then u
          else if field (oget node ''state'') ''mode'' = JStr ''publish''
          then u\<lparr>published := set_add topic (published u)\<rparr>
          else if field (oget node ''state'') ''mode'' = JStr ''consume''
          then u\<lparr>consumed := set_add topic (consumed u)\<rparr>
          else u
      | _ \<Rightarrow> u)"

definition topicsUsedBy :: "jsval \<Rightarrow> TopicUsage" where
  "topicsUsedBy services =
     fold addTopic (collectQueueServices services) \<lparr>published = [], consumed = []\<rparr>"

text \<open>The strings of a declared list (\<^verbatim>\<open>declaration.exports ?? []\<close>).\<close>

definition declared :: "jsval \<Rightarrow> string \<Rightarrow> string list" where
  "declared declaration k = List.map_filter the_str (js_arr (field declaration k))"

definition checkDeclaredTopics :: "string option \<Rightarrow> jsval \<Rightarrow> TopicUsage \<Rightarrow> Diagnostic list" where
  "checkDeclaredTopics unit declaration topics =
     (if \<not> truthy declaration then []
      else
        let who = (case unit of Some u \<Rightarrow> if u \<noteq> [] then u @ '' '' else '''' | None \<Rightarrow> '''');
            exports = declared declaration ''exports''; imports = declared declaration ''imports''
        in map (\<lambda>topic. diagnostic Warning ''unit-export-unpublished'' unit
                 (who @ ''declares export \"'' @ topic @ ''\" but publishes to no such topic.''))
             (filter (\<lambda>topic. topic \<notin> set (published topics)) exports)
         @ map (\<lambda>topic. diagnostic Warning ''unit-import-unconsumed'' unit
                 (who @ ''declares import \"'' @ topic @ ''\" but consumes no such topic.''))
             (filter (\<lambda>topic. topic \<notin> set (consumed topics)) imports)
         @ map (\<lambda>topic. diagnostic Warning ''unit-export-undeclared'' unit
                 (who @ ''publishes to \"'' @ topic @ ''\" without declaring it as an export.''))
             (filter (\<lambda>topic. topic \<notin> set exports) (published topics))
         @ map (\<lambda>topic. diagnostic Warning ''unit-import-undeclared'' unit
                 (who @ ''consumes \"'' @ topic @ ''\" without declaring it as an import.''))
             (filter (\<lambda>topic. topic \<notin> set imports) (consumed topics)))"

text \<open>The collision loop: who claimed each runtime id so far.\<close>

fun claimIds ::
  "string \<Rightarrow> string list \<Rightarrow> (string \<rightharpoonup> string) \<Rightarrow> Diagnostic list \<times> (string \<rightharpoonup> string)" where
  "claimIds name [] seen = ([], seen)"
| "claimIds name (projectedId # ids) seen =
     (case seen projectedId of
        Some owner \<Rightarrow>
          if owner \<noteq> [] then
            (let (ds, seen') = claimIds name ids seen in
             (diagnostic Error ''unit-runtime-collision'' (Some name)
               (''Runtime id \"'' @ projectedId @ ''\" is claimed by both '' @ owner @ '' and '' @ name @ ''.'') # ds,
              seen'))
          else claimIds name ids (seen(projectedId \<mapsto> name))
      | None \<Rightarrow> claimIds name ids (seen(projectedId \<mapsto> name)))"

fun claimUnits :: "PlacedUnit list \<Rightarrow> (string \<rightharpoonup> string) \<Rightarrow> Diagnostic list" where
  "claimUnits [] seen = []"
| "claimUnits (unit # units) seen =
     (let (ds, seen') = claimIds (pu_name unit) (ovalues (pu_runtimeIds unit)) seen
      in ds @ claimUnits units seen')"

definition rootClaims :: "obj \<Rightarrow> (string \<rightharpoonup> string)" where
  "rootClaims root =
     fold (\<lambda>runtime seen.
             seen(rid runtime \<mapsto> to_str (or_truthy (oget root ''boardName'') (JStr ''the composition''))))
       (js_arr (oget root ''runtimes'')) Map.empty"

definition validateProjection :: "obj \<Rightarrow> PlacedUnit list \<Rightarrow> obj \<Rightarrow> Diagnostic list" where
  "validateProjection root units services =
     (let collisions = claimUnits units (rootClaims root);
          topicsOf = (\<lambda>unit. topicsUsedBy (JArr (map (oget services) (ovalues (pu_runtimeIds unit)))));
          rootTopics = topicsUsedBy (or_else (oget root ''services'') (JObj []));
          checks =
            concat (map (\<lambda>unit. checkDeclaredTopics (Some (pu_name unit)) (pu_declaration unit) (topicsOf unit)) units)
            @ checkDeclaredTopics None (oget root ''unit'') rootTopics;
          allConsumed = concat (map (\<lambda>unit. consumed (topicsOf unit)) units) @ consumed rootTopics;
          exported =
            set_adds (declared (oget root ''unit'') ''exports''
                      @ concat (map (\<lambda>unit. declared (pu_declaration unit) ''exports'') units)) [];
          unsatisfied =
            concat (map (\<lambda>unit.
              map (\<lambda>topic. diagnostic Error ''unit-import-unsatisfied'' (Some (pu_name unit))
                     (''Imports \"'' @ topic @ ''\", which no unit in this board exports.''))
                (filter (\<lambda>topic. topic \<notin> set exported) (declared (pu_declaration unit) ''imports''))) units);
          opened =
            map (\<lambda>topic. diagnostic Warning ''unit-import-open'' None
                   (''Imports \"'' @ topic @ ''\" from outside this board; nothing here exports it.''))
              (filter (\<lambda>topic. topic \<notin> set exported) (declared (oget root ''unit'') ''imports''));
          unconsumed =
            map (\<lambda>topic. diagnostic Warning ''unit-export-unconsumed'' None
                   (''Nothing in this board consumes \"'' @ topic @ ''\"; messages published to it accumulate.''))
              (filter (\<lambda>topic. topic \<notin> set allConsumed) exported)
      in collisions @ checks @ unsatisfied @ opened @ unconsumed)"

definition hasErrors :: "Diagnostic list \<Rightarrow> bool" where
  "hasErrors diagnostics = list_ex (\<lambda>entry. d_level entry = Error) diagnostics"

section \<open>Assembling\<close>

definition projectUnits :: "obj \<Rightarrow> ResolvedUnit list \<Rightarrow> Projection" where
  "projectUnits root resolved =
     (let rootParams = js_obj (or_else (field (oget root ''unit'') ''params'') (JObj []));
          (rootBody, rootMissing) = resolveParams (boardBody root) rootParams;
          facade = field rootBody ''facade'';
          placed = map placeUnit resolved;
          units = map pl_unit placed;
          runtimes = js_arr (field rootBody ''runtimes'') @ concat (map pl_runtimes placed);
          services =
            foldl ospread (from_entries (js_obj (field rootBody ''services''))) (map pl_services placed);
          views =
            (if truthy facade then
               [\<lparr>view_id = ''composition'', view_title = or_truthy (oget root ''boardName'') (JStr ''Board''),
                 view_unit = None, view_facade = facade, view_runtimeIds = []\<rparr>]
             else [])
            @ List.map_filter pl_view placed;
          board =
            ospread root
              ([(''runtimes'', JArr runtimes), (''services'', JObj services)]
               @ (if truthy facade then [(''facade'', facade)] else []))
      in \<lparr>pr_board = board, pr_units = units, pr_views = views,
          pr_diagnostics =
            map (missingDiagnostic None) rootMissing
            @ concat (map pl_diagnostics placed)
            @ validateProjection root units services\<rparr>)"

section \<open>Splitting back\<close>

lemma size_list_mem: "x \<in> set cs \<Longrightarrow> size x < Suc (size_list size cs)"
  by (induction cs) auto

lemma size_nth_mem [termination_simp]:
  "i < length cs \<Longrightarrow> size (cs ! i) < Suc (size_list size cs)"
  by (rule size_list_mem) simp


fun deepEquals :: "jsval \<Rightarrow> jsval \<Rightarrow> bool" where
  "deepEquals (JArr a) (JArr b) = list_all2 deepEquals a b"
| "deepEquals (JObj a) (JObj b) =
     (length a = length b \<and> list_all2 deepEquals (ovalues a) (map (oget b) (okeys a)))"
| "deepEquals a b = prim_eq a b"

text \<open>\<^verbatim>\<open>/\{\{\s*(secret|param)\./\<close>\<close>

definition template_start :: "unit matcher" where
  "template_start s =
     (case strip ''{{'' s of
        None \<Rightarrow> None
      | Some a \<Rightarrow>
          let b = dropWhile is_space a
          in if starts_with ''secret.'' b \<or> starts_with ''param.'' b then Some ((), 1) else None)"

definition isTemplate :: "string \<Rightarrow> bool" where
  "isTemplate s = (hits template_start s \<noteq> [])"

definition keepMasked :: "jsval \<Rightarrow> jsval \<Rightarrow> jsval" where
  "keepMasked source current =
     (case source of
        JStr s \<Rightarrow> if current = JStr '''' \<and> isTemplate s then JStr s else current
      | _ \<Rightarrow> current)"

fun restoreEdits :: "jsval \<Rightarrow> jsval \<Rightarrow> jsval \<Rightarrow> jsval" where
  "restoreEdits source expected (JArr current) =
     (if deepEquals expected (JArr current) then source
      else
        (case (source, expected) of
           (JArr ss, JArr es) \<Rightarrow>
             if length ss = length es \<and> length es = length current then
               JArr (map (\<lambda>i. restoreEdits (ss ! i) (es ! i) (current ! i)) [0..<length current])
             else JArr current
         | _ \<Rightarrow> JArr current))"
| "restoreEdits source expected (JObj current) =
     (if deepEquals expected (JObj current) then source
      else
        (case (source, expected) of
           (JObj ss, JObj es) \<Rightarrow>
             JObj (from_entries
               (zip (okeys current) (map (\<lambda>(k, c). restoreEdits (oget ss k) (oget es k) c) current)))
         | _ \<Rightarrow> JObj current))"
| "restoreEdits source expected current =
     (if deepEquals expected current then source else keepMasked source current)"

definition stripProvenance :: "jsval \<Rightarrow> obj" where
  "stripProvenance runtime = omit [''unit'', ''unitRuntimeId'', ''boardName''] (js_obj runtime)"

text \<open>The last own id a projected id stands for (\<^verbatim>\<open>new Map(entries.map(([own, projected]) => ...))\<close>).\<close>

definition toOwnId :: "(string \<times> string) list \<Rightarrow> string \<rightharpoonup> string" where
  "toOwnId runtimeIds = map_of (rev (map (\<lambda>(own, projected). (projected, own)) runtimeIds))"

definition ownIdOr :: "(string \<times> string) list \<Rightarrow> string \<Rightarrow> string" where
  "ownIdOr runtimeIds i = (case toOwnId runtimeIds i of Some own \<Rightarrow> own | None \<Rightarrow> i)"

definition expectedProjectionOf :: "PlacedUnit \<Rightarrow> jsval list \<times> obj" where
  "expectedProjectionOf unit =
     (let placed = placeUnit \<lparr>ru_entry = pu_entry unit, ru_board = pu_source unit, ru_name = pu_name unit\<rparr>;
          ids = pu_runtimeIds unit
      in (map (\<lambda>runtime. JObj (ospread (stripProvenance runtime)
                 [(''id'', (case toOwnId ids (rid runtime) of Some own \<Rightarrow> JStr own
                                                         | None \<Rightarrow> field runtime ''id''))]))
            (pl_runtimes placed),
          from_entries (map (\<lambda>(projectedId, lst). (ownIdOr ids projectedId, lst)) (pl_services placed))))"

definition mergeUnitEdits :: "PlacedUnit \<Rightarrow> jsval list \<Rightarrow> obj \<Rightarrow> obj" where
  "mergeUnitEdits unit runtimes services =
     (let (expRuntimes, expServices) = expectedProjectionOf unit; source = pu_source unit
      in ospread source
           [(''runtimes'', restoreEdits (or_else (oget source ''runtimes'') (JArr []))
               (JArr expRuntimes) (JArr runtimes)),
            (''services'', restoreEdits (or_else (oget source ''services'') (JObj []))
               (JObj expServices) (JObj services))])"

record Unlinking =
  un_ownRuntimes :: "jsval list"
  un_ownServices :: obj
  un_runtimes :: "string \<Rightarrow> jsval list"
  un_services :: "string \<Rightarrow> obj"

text \<open>The unit a runtime says it came from, if it is one of those the board was assembled from.\<close>

definition unitOfRuntime :: "PlacedUnit list \<Rightarrow> jsval \<Rightarrow> PlacedUnit option" where
  "unitOfRuntime units runtime =
     (if truthy (field runtime ''unit'')
      then find (\<lambda>unit. JStr (pu_name unit) = field runtime ''unit'') (rev units)
      else None)"

definition unlinkRuntime :: "obj \<Rightarrow> PlacedUnit list \<Rightarrow> jsval \<Rightarrow> Unlinking \<Rightarrow> Unlinking" where
  "unlinkRuntime serialized units runtime u =
     (let services = or_else (field (oget serialized ''services'') (rid runtime)) (JArr [])
      in case unitOfRuntime units runtime of
           Some unit \<Rightarrow>
             if truthy (field runtime ''unitRuntimeId'') then
               let restoredId = field runtime ''unitRuntimeId''; name = pu_name unit
               in u\<lparr>un_runtimes := (un_runtimes u)(name := un_runtimes u name
                        @ [JObj (ospread (stripProvenance runtime) [(''id'', restoredId)])]),
                    un_services := (un_services u)(name := oput (to_str restoredId) services (un_services u name))\<rparr>
             else u\<lparr>un_ownRuntimes := un_ownRuntimes u @ [JObj (stripProvenance runtime)],
                    un_ownServices := oput (rid runtime) services (un_ownServices u)\<rparr>
         | None \<Rightarrow>
             u\<lparr>un_ownRuntimes := un_ownRuntimes u @ [JObj (stripProvenance runtime)],
               un_ownServices := oput (rid runtime) services (un_ownServices u)\<rparr>)"

record UnlinkedBoards =
  ub_composition :: obj
  ub_units :: "(PlacedUnit \<times> obj) list"

definition unlinkProjection :: "obj \<Rightarrow> PlacedUnit list \<Rightarrow> UnlinkedBoards" where
  "unlinkProjection serialized units =
     (let u = fold (unlinkRuntime serialized units) (js_arr (oget serialized ''runtimes''))
                \<lparr>un_ownRuntimes = [], un_ownServices = [], un_runtimes = (\<lambda>_. []), un_services = (\<lambda>_. [])\<rparr>
      in \<lparr>ub_composition =
            ospread serialized
              [(''runtimes'', JArr (un_ownRuntimes u)), (''services'', JObj (un_ownServices u)),
               (''units'', JArr (map (\<lambda>unit. JObj (pu_entry unit)) units))],
          ub_units =
            map (\<lambda>unit. (unit, mergeUnitEdits unit (un_runtimes u (pu_name unit)) (un_services u (pu_name unit)))) units\<rparr>)"

end
