(* ===== verification/BoardUnitsSave.thy ===== *)
theory BoardUnitsSave
  imports BoardUnits
begin

text \<open>
  Saving a composition: splitting the running board back into the documents it was assembled from
  (\<^verbatim>\<open>unlinkProjection\<close>, \<^verbatim>\<open>mergeUnitEdits\<close>, \<^verbatim>\<open>restoreEdits\<close> in
  \<^verbatim>\<open>hkp-frontend/src/runtime/board/units.ts\<close>), and what the three-way merge keeps.
\<close>

section \<open>Comparison and merge\<close>

lemma prim_eq_refl [simp]: "prim_eq JUndef JUndef" "prim_eq JNull JNull"
  by simp_all

lemma num_eq_refl [simp]: "num_eq n n"
  by (simp add: num_eq_def)

lemma oget_map_of: "map_of es k = Some v \<Longrightarrow> oget es k = v"
  by (simp add: oget_def)

lemma oget_distinct: "distinct (okeys es) \<Longrightarrow> (k, v) \<in> set es \<Longrightarrow> oget es k = v"
  by (simp add: oget_def)

lemma deepEquals_JObj:
  "deepEquals (JObj a) (JObj b) \<longleftrightarrow>
     length a = length b \<and> (\<forall>(k, v) \<in> set a. deepEquals v (oget b k))"
  by (simp add: ovalues_def list_all2_map1 list_all2_map2 list_all2_same case_prod_beta)

declare deepEquals.simps(2) [simp del]

lemma deepEquals_refl: "wf_js v \<Longrightarrow> deepEquals v v"
proof (induction v)
  case (Arr xs)
  then show ?case by (simp add: list_all2_same list_all_iff)
next
  case (Obj es)
  have "deepEquals v (oget es k)" if "(k, v) \<in> set es" for k v
    using Obj.IH [OF ovalues_memI [OF that]] wf_js_value [OF Obj.prems ovalues_memI [OF that]]
      oget_distinct [OF wf_js_distinct [OF Obj.prems] that] by simp
  then show ?case by (auto simp: deepEquals_JObj)
qed simp_all

lemma deepEquals_same_fields:
  assumes "wf_js (JObj a)" "distinct (okeys b)" "\<And>k. map_of a k = map_of b k"
  shows "deepEquals (JObj a) (JObj b)"
proof -
  have d: "distinct (okeys a)" using assms(1) by (rule wf_js_distinct)
  have "map_of a = map_of b" using assms(3) by blast
  then have dom: "set (okeys a) = set (okeys b)" by (metis dom_map_of_conv_image_fst list.set_map)
  then have len: "length a = length b"
    using d assms(2) by (metis distinct_card length_map)
  have "deepEquals v (oget b k)" if "(k, v) \<in> set a" for k v
  proof -
    have "oget b k = v" using oget_distinct [OF d that] assms(3) by (simp add: oget_def)
    then show ?thesis
      using deepEquals_refl wf_js_value [OF assms(1) ovalues_memI [OF that]] by simp
  qed
  then show ?thesis using len by (auto simp: deepEquals_JObj)
qed

lemma restoreEdits_unedited: "deepEquals expected current \<Longrightarrow> restoreEdits source expected current = source"
  by (cases current) simp_all

section \<open>Reading what placing wrote\<close>

lemma oget_ospread: "oget (ospread a b) k = (case map_of (rev b) k of Some v \<Rightarrow> v | None \<Rightarrow> oget a k)"
  by (auto simp: oget_def map_add_def split: option.splits)

lemma wf_js_JObj_oput: "wf_js (JObj es) \<Longrightarrow> wf_js v \<Longrightarrow> wf_js (JObj (oput k v es))"
proof -
  assume a: "wf_js (JObj es)" "wf_js v"
  have "wf_js x" if "x \<in> set (ovalues (oput k v es))" for x
  proof -
    obtain j where "(j, x) \<in> set (oput k v es)" using ovalues_memE [OF \<open>x \<in> _\<close>] by blast
    then have "(j, x) = (k, v) \<or> (j, x) \<in> set es" using set_oput_subset [of k v es] by auto
    then show ?thesis using a wf_js_value [OF a(1) ovalues_memI [of j x es]] by auto
  qed
  moreover have "canon_keys (okeys (oput k v es))" using a(1) by (intro canon_keys_oput) simp
  ultimately show ?thesis by (simp only: wf_js.simps list_all_iff) blast
qed

lemma wf_js_ospread:
  "wf_js (JObj a) \<Longrightarrow> (\<And>v. v \<in> set (ovalues b) \<Longrightarrow> wf_js v) \<Longrightarrow> wf_js (JObj (ospread a b))"
proof (induction b rule: rev_induct)
  case (snoc p b)
  obtain k v where p: "p = (k, v)" by (cases p)
  with snoc show ?case by (simp only: p ospread_snoc) (rule wf_js_JObj_oput, auto)
qed simp

lemma ovalues_omit_subset: "set (ovalues (omit ks es)) \<subseteq> set (ovalues es)"
  by (auto simp: omit_def ovalues_def)

lemma wf_js_omit: "wf_js (JObj es) \<Longrightarrow> wf_js (JObj (omit ks es))"
  using ovalues_omit_subset [of ks es] by (auto simp: list_all_iff okeys_omit canon_keys_filter)

lemma wf_js_js_obj: "wf_js v \<Longrightarrow> wf_js (JObj (js_obj v))"
  by (cases v) (auto simp: canon_keys_def)

section \<open>What placing a unit yields\<close>

text \<open>The unit's document with its parameters in it, and the runtimes and services that has.\<close>

definition bodyOf :: "ResolvedUnit \<Rightarrow> jsval" where
  "bodyOf r = fst (resolveParams (boardBody (ru_board r)) (unitParams (ru_board r) (ru_entry r)))"

definition runtimesOf :: "ResolvedUnit \<Rightarrow> jsval list" where
  "runtimesOf r = js_arr (field (bodyOf r) ''runtimes'')"

definition servicesOf :: "ResolvedUnit \<Rightarrow> obj" where
  "servicesOf r = js_obj (field (bodyOf r) ''services'')"

definition idsOf :: "ResolvedUnit \<Rightarrow> (string \<times> string) list" where
  "idsOf r = runtimeIdsOf (ru_entry r) (ru_name r) (runtimesOf r)"

abbreviation projected :: "ResolvedUnit \<Rightarrow> jsval \<Rightarrow> string" where
  "projected r \<equiv> projectedIdOf (ru_entry r) (ru_name r)"

lemma placeUnit_fields:
  "pu_name (pl_unit (placeUnit r)) = ru_name r"
  "pu_entry (pl_unit (placeUnit r)) = ru_entry r"
  "pu_source (pl_unit (placeUnit r)) = ru_board r"
  "pu_runtimeIds (pl_unit (placeUnit r)) = idsOf r"
  "pl_runtimes (placeUnit r) = map (placeRuntime (ru_entry r) (ru_board r) (ru_name r) (idsOf r)) (runtimesOf r)"
  "pl_services (placeUnit r) = fst (placeServices (ru_name r) (idsOf r) (servicesOf r) [])"
  by (simp_all add: placeUnit_def Let_def idsOf_def runtimesOf_def servicesOf_def bodyOf_def deepClone_def
      split: prod.splits)

lemma expectedProjectionOf_place:
  "expectedProjectionOf (pl_unit (placeUnit r)) =
     (map (\<lambda>runtime. JObj (ospread (stripProvenance runtime)
            [(''id'', (case toOwnId (idsOf r) (rid runtime) of Some own \<Rightarrow> JStr own
                                                            | None \<Rightarrow> field runtime ''id''))]))
        (pl_runtimes (placeUnit r)),
      from_entries (map (\<lambda>(projectedId, lst). (ownIdOr (idsOf r) projectedId, lst)) (pl_services (placeUnit r))))"
proof -
  have "placeUnit \<lparr>ru_entry = ru_entry r, ru_board = ru_board r, ru_name = ru_name r\<rparr> = placeUnit r"
    by (cases r) simp
  then show ?thesis by (simp only: expectedProjectionOf_def placeUnit_fields(1-4) Let_def split: prod.splits)
qed

lemma fold_oput_ospread: "fold (\<lambda>x ids. oput (f x) (g x) ids) xs acc = ospread acc (map (\<lambda>x. (f x, g x)) xs)"
  by (induction xs arbitrary: acc) (simp_all add: ospread_def)

lemma idsOf_spread: "idsOf r = from_entries (map (\<lambda>x. (rid x, projected r x)) (runtimesOf r))"
  by (simp add: idsOf_def runtimeIdsOf_def fold_oput_ospread from_entries_def)

lemma okeys_map_pair: "okeys (map (\<lambda>x. (f x, g x)) xs) = map f xs"
  by (simp add: o_def)

lemma idsOf_lookup:
  assumes "distinct (map rid (runtimesOf r))" "x \<in> set (runtimesOf r)"
  shows "map_of (idsOf r) (rid x) = Some (projected r x)"
  using assms by (simp add: idsOf_spread map_of_from_entries okeys_map_pair o_def)

lemma set_idsOf:
  assumes "distinct (map rid (runtimesOf r))"
  shows "set (idsOf r) = (\<lambda>x. (rid x, projected r x)) ` set (runtimesOf r)"
proof -
  have d: "distinct (okeys (idsOf r))"
    by (simp add: idsOf_spread from_entries_def distinct_ospread)
  have "map_of (idsOf r) = map_of (map (\<lambda>x. (rid x, projected r x)) (runtimesOf r))"
    using assms by (simp add: idsOf_spread map_of_from_entries okeys_map_pair o_def)
  then show ?thesis
    using d assms map_of_eq_Some_iff [OF d]
      map_of_eq_Some_iff [of "map (\<lambda>x. (rid x, projected r x)) (runtimesOf r)"]
    by (auto simp: okeys_map_pair o_def)
qed

section \<open>A composition the round trip is about\<close>

definition is_obj :: "jsval \<Rightarrow> bool" where
  "is_obj v = (case v of JObj _ \<Rightarrow> True | _ \<Rightarrow> False)"

definition is_arr :: "jsval \<Rightarrow> bool" where
  "is_arr v = (case v of JArr _ \<Rightarrow> True | _ \<Rightarrow> False)"

text \<open>
  A unit document as the editor keeps it: a list of runtimes with distinct ids and a service list
  for each of them, before and after its parameters are filled in.
\<close>

definition unit_ok :: "ResolvedUnit \<Rightarrow> bool" where
  "unit_ok r =
     (wf_js (JObj (ru_board r)) \<and> wf_js (JObj (ru_entry r)) \<and> ru_name r \<noteq> [] \<and>
      is_arr (oget (ru_board r) ''runtimes'') \<and> is_obj (oget (ru_board r) ''services'') \<and>
      list_all (\<lambda>x. is_obj x \<and> is_str (field x ''id'') \<and> rid x \<noteq> [] \<and> projected r x \<noteq> []) (runtimesOf r) \<and>
      distinct (map rid (runtimesOf r)) \<and>
      list_all is_arr (ovalues (servicesOf r)) \<and>
      set (okeys (servicesOf r)) = set (map rid (runtimesOf r)))"

lemma field_map_text: "field (map_text f v) k = map_text f (field v k)"
  by (cases v) (simp_all add: oget_map_prod)

lemma bodyOf_wf: "wf_js (JObj (ru_board r)) \<Longrightarrow> wf_js (bodyOf r)"
proof -
  assume wf: "wf_js (JObj (ru_board r))"
  have "wf_js (boardBody (ru_board r))"
    using wf_js_oget [OF wf]
    by (simp add: boardBody_def or_else_def canon_keys_def key_before_def index_key_def is_digit_def del: wf_js.simps(2))
       (simp add: canon_keys_def key_before_def index_key_def is_digit_def)
  then show ?thesis
    by (simp add: bodyOf_def resolveParams_def
        walkStrings_pure [where f = "resolveText (unitParams (ru_board r) (ru_entry r))"
          and g = "\<lambda>t missing. set_adds (filter (\<lambda>name. unitParam (unitParams (ru_board r) (ru_entry r)) name = None) (hits PARAM t)) missing"])
qed

lemma runtimesOf_wf: "wf_js (JObj (ru_board r)) \<Longrightarrow> x \<in> set (runtimesOf r) \<Longrightarrow> wf_js x"
  using wf_js_field [OF bodyOf_wf, of r "''runtimes''"]
  by (cases "field (bodyOf r) ''runtimes''") (auto simp: runtimesOf_def list_all_iff)

lemma servicesOf_wf: "wf_js (JObj (ru_board r)) \<Longrightarrow> wf_js (JObj (servicesOf r))"
  unfolding servicesOf_def by (intro wf_js_js_obj wf_js_field bodyOf_wf)


lemma unit_okD:
  assumes "unit_ok r"
  shows "wf_js (JObj (ru_board r))" "wf_js (JObj (ru_entry r))" "ru_name r \<noteq> []"
    "distinct (map rid (runtimesOf r))" "set (okeys (servicesOf r)) = set (map rid (runtimesOf r))"
    "\<And>x. x \<in> set (runtimesOf r) \<Longrightarrow> is_obj x \<and> field x ''id'' = JStr (rid x) \<and> rid x \<noteq> [] \<and> projected r x \<noteq> []"
    "\<And>k l. (k, l) \<in> set (servicesOf r) \<Longrightarrow> is_arr l"
proof -
  show "is_obj x \<and> field x ''id'' = JStr (rid x) \<and> rid x \<noteq> [] \<and> projected r x \<noteq> []"
    if x: "x \<in> set (runtimesOf r)" for x
  proof -
    have "is_obj x \<and> is_str (field x ''id'') \<and> rid x \<noteq> [] \<and> projected r x \<noteq> []"
      using assms x by (simp add: unit_ok_def list_all_iff)
    moreover have "is_str v \<Longrightarrow> v = JStr (to_str v)" for v by (cases v) simp_all
    ultimately show ?thesis unfolding rid_def by blast
  qed
  show "is_arr l" if "(k, l) \<in> set (servicesOf r)" for k l
    using assms ovalues_memI [OF that] by (simp add: unit_ok_def list_all_iff)
qed (use assms in \<open>simp_all add: unit_ok_def\<close>)

abbreviation placedRuntime :: "ResolvedUnit \<Rightarrow> jsval \<Rightarrow> jsval" where
  "placedRuntime r \<equiv> placeRuntime (ru_entry r) (ru_board r) (ru_name r) (idsOf r)"

lemma placedRuntime_fields:
  assumes "unit_ok r" "x \<in> set (runtimesOf r)"
  shows "field (placedRuntime r x) ''id'' = JStr (projected r x)"
    "rid (placedRuntime r x) = projected r x"
    "field (placedRuntime r x) ''unit'' = JStr (ru_name r)"
    "field (placedRuntime r x) ''unitRuntimeId'' = JStr (rid x)"
proof -
  note ok = unit_okD [OF assms(1)]
  have l: "map_of (idsOf r) (rid x) = Some (projected r x)"
    by (rule idsOf_lookup [OF ok(4) assms(2)])
  show "field (placedRuntime r x) ''id'' = JStr (projected r x)"
    by (simp add: placeRuntime_def Let_def oget_ospread l)
  then show "rid (placedRuntime r x) = projected r x" by (simp add: rid_def)
  show "field (placedRuntime r x) ''unit'' = JStr (ru_name r)"
    by (simp add: placeRuntime_def Let_def oget_ospread l)
  show "field (placedRuntime r x) ''unitRuntimeId'' = JStr (rid x)"
    using ok(6) [OF assms(2)] by (simp add: placeRuntime_def Let_def oget_ospread l)
qed

text \<open>Placing the services of a unit whose every list has its runtime.\<close>

lemma placeServices_spread:
  assumes "\<And>k l. (k, l) \<in> set es \<Longrightarrow> \<exists>i. map_of ids k = Some i \<and> i \<noteq> []"
  shows "placeServices name ids es acc =
           (ospread acc (map (\<lambda>(k, l). (the (map_of ids k), requalifyMounts l ids)) es), [])"
  using assms
proof (induction es arbitrary: acc)
  case (Cons p es)
  obtain k l where p: "p = (k, l)" by (cases p)
  obtain i where i: "map_of ids k = Some i" "i \<noteq> []" using Cons.prems [of k l] p by auto
  have "\<And>k l. (k, l) \<in> set es \<Longrightarrow> \<exists>i. map_of ids k = Some i \<and> i \<noteq> []" using Cons.prems by auto
  from Cons.IH [OF this] show ?case using i by (simp add: p dict_get_def ospread_def)
qed simp

definition ownServices :: "ResolvedUnit \<Rightarrow> (string \<times> jsval) list" where
  "ownServices r = map (\<lambda>x. (rid x, requalifyMounts (oget (servicesOf r) (rid x)) (idsOf r))) (runtimesOf r)"

lemma placedServices:
  assumes "unit_ok r"
  shows "pl_services (placeUnit r) =
           from_entries (map (\<lambda>(k, l). (the (map_of (idsOf r) k), requalifyMounts l (idsOf r))) (servicesOf r))"
proof -
  note ok = unit_okD [OF assms]
  have "\<exists>i. map_of (idsOf r) k = Some i \<and> i \<noteq> []" if kl: "(k, l) \<in> set (servicesOf r)" for k l
  proof -
    have "k \<in> set (okeys (servicesOf r))" using kl by force
    then obtain x where "x \<in> set (runtimesOf r)" "k = rid x" using ok(5) by auto
    then show ?thesis using idsOf_lookup [OF ok(4)] ok(6) by auto
  qed
  then show ?thesis by (simp add: placeUnit_fields placeServices_spread from_entries_def)
qed


lemma okeys_renamed: "okeys (map (\<lambda>(k, l). (f k, g l)) es) = map f (okeys es)"
  by (induction es) auto

lemma map_of_renamed:
  assumes "inj_on f (set (okeys es))" "distinct (okeys es)" "(k, l) \<in> set es"
  shows "map_of (from_entries (map (\<lambda>(k, l). (f k, g l)) es)) (f k) = Some (g l)"
proof -
  have d: "distinct (okeys (map (\<lambda>(k, l). (f k, g l)) es))"
    unfolding okeys_renamed using assms(1,2) by (simp only: distinct_map set_map)
  have "(f k, g l) \<in> set (map (\<lambda>(k, l). (f k, g l)) es)" using assms(3) by force
  then show ?thesis unfolding map_of_from_entries [OF d] by (rule map_of_is_SomeI [OF d])
qed

lemma set_okeys_from_entries [simp]: "set (okeys (from_entries es)) = set (okeys es)"
  unfolding from_entries_def set_okeys_ospread by simp

definition distinctly_projected :: "ResolvedUnit \<Rightarrow> bool" where
  "distinctly_projected r = distinct (map (projected r) (runtimesOf r))"

lemma distinct_map_inj: "distinct (map f xs) \<Longrightarrow> x \<in> set xs \<Longrightarrow> y \<in> set xs \<Longrightarrow> f x = f y \<Longrightarrow> x = y"
  by (auto simp: distinct_map dest: inj_onD)

lemma projected_inj:
  assumes "unit_ok r" "distinctly_projected r"
  shows "inj_on (\<lambda>k. the (map_of (idsOf r) k)) (set (okeys (servicesOf r)))"
proof (rule inj_onI)
  fix k k' assume kk: "k \<in> set (okeys (servicesOf r))" "k' \<in> set (okeys (servicesOf r))"
    "the (map_of (idsOf r) k) = the (map_of (idsOf r) k')"
  obtain x y where xy: "x \<in> set (runtimesOf r)" "k = rid x" "y \<in> set (runtimesOf r)" "k' = rid y"
    using kk unit_okD(5) [OF assms(1)] by auto
  then have "projected r x = projected r y"
    using kk(3) idsOf_lookup [OF unit_okD(4) [OF assms(1)]] by simp
  then have "x = y" using distinct_map_inj xy assms(2) unfolding distinctly_projected_def by metis
  then show "k = k'" using xy by simp
qed

lemma placedServices_at:
  assumes "unit_ok r" "distinctly_projected r" "x \<in> set (runtimesOf r)"
  shows "map_of (pl_services (placeUnit r)) (projected r x)
           = Some (requalifyMounts (oget (servicesOf r) (rid x)) (idsOf r))"
    and "is_arr (oget (servicesOf r) (rid x))"
proof -
  note ok = unit_okD [OF assms(1)]
  have "rid x \<in> set (okeys (servicesOf r))" using ok(5) assms(3) by auto
  then obtain l where l: "(rid x, l) \<in> set (servicesOf r)" by auto
  have d: "distinct (okeys (servicesOf r))" by (rule wf_js_distinct [OF servicesOf_wf [OF ok(1)]])
  have o: "oget (servicesOf r) (rid x) = l" by (rule oget_distinct [OF d l])
  then show "is_arr (oget (servicesOf r) (rid x))" using ok(7) [OF l] by simp
  have "projected r x = the (map_of (idsOf r) (rid x))"
    using idsOf_lookup [OF ok(4) assms(3)] by simp
  then show "map_of (pl_services (placeUnit r)) (projected r x)
           = Some (requalifyMounts (oget (servicesOf r) (rid x)) (idsOf r))"
    using map_of_renamed [OF projected_inj [OF assms(1,2)] d l] by (simp add: placedServices [OF assms(1)] o)
qed

lemma placedServices_keys:
  assumes "unit_ok r"
  shows "set (okeys (pl_services (placeUnit r))) = projected r ` set (runtimesOf r)"
proof -
  note ok = unit_okD [OF assms]
  have "set (okeys (pl_services (placeUnit r))) = (\<lambda>k. the (map_of (idsOf r) k)) ` set (okeys (servicesOf r))"
    by (simp only: placedServices [OF assms] set_okeys_from_entries okeys_renamed) (rule set_map)
  also have "\<dots> = (\<lambda>k. the (map_of (idsOf r) k)) ` set (map rid (runtimesOf r))"
    by (simp only: ok(5))
  also have "\<dots> = projected r ` set (runtimesOf r)"
    unfolding set_map image_image
    by (rule image_cong) (simp_all add: idsOf_lookup [OF ok(4)])
  finally show ?thesis .
qed

lemma toOwnId_projected:
  assumes "unit_ok r" "distinctly_projected r" "x \<in> set (runtimesOf r)"
  shows "toOwnId (idsOf r) (projected r x) = Some (rid x)"
proof -
  note ok = unit_okD [OF assms(1)]
  let ?es = "map (\<lambda>(own, projected). (projected, own)) (idsOf r)"
  have dk: "distinct (okeys (idsOf r))" by (simp add: idsOf_spread from_entries_def distinct_ospread)
  have di: "distinct (idsOf r)" using dk by (simp only: distinct_map)
  have inj: "inj_on fst (set ?es)"
  proof (rule inj_onI)
    fix p q assume "p \<in> set ?es" "q \<in> set ?es" "fst p = fst q"
    then obtain x y where "p = (projected r x, rid x)" "q = (projected r y, rid y)"
      "x \<in> set (runtimesOf r)" "y \<in> set (runtimesOf r)" "projected r x = projected r y"
      by (auto simp: set_idsOf [OF ok(4)])
    then show "p = q"
      using distinct_map_inj [of "projected r" "runtimesOf r" x y] assms(2) unfolding distinctly_projected_def by simp
  qed
  have "distinct ?es" using di by (simp add: distinct_map inj_on_def split: prod.splits)
  then have d: "distinct (okeys ?es)" using inj by (simp only: distinct_map)
  have "(projected r x, rid x) \<in> set ?es" using assms(3) by (force simp: set_idsOf [OF ok(4)])
  then have "map_of ?es (projected r x) = Some (rid x)" by (rule map_of_is_SomeI [OF d])
  then show ?thesis unfolding toOwnId_def by (simp only: map_of_rev_distinct [OF d])
qed


section \<open>Splitting the board\<close>

text \<open>The runtimes of a board that the splitting files under one unit, and what is kept of them.\<close>

definition belongs :: "PlacedUnit list \<Rightarrow> string \<Rightarrow> jsval \<Rightarrow> bool" where
  "belongs units name runtime =
     (truthy (field runtime ''unitRuntimeId'') \<and>
      (case unitOfRuntime units runtime of None \<Rightarrow> False | Some unit \<Rightarrow> pu_name unit = name))"

definition restoredRuntime :: "jsval \<Rightarrow> jsval" where
  "restoredRuntime runtime = JObj (ospread (stripProvenance runtime) [(''id'', field runtime ''unitRuntimeId'')])"

definition servicesAt :: "obj \<Rightarrow> jsval \<Rightarrow> jsval" where
  "servicesAt serialized runtime = or_else (field (oget serialized ''services'') (rid runtime)) (JArr [])"

lemma unlinkRuntime_at:
  "un_runtimes (unlinkRuntime s units x u) name =
     un_runtimes u name @ (if belongs units name x then [restoredRuntime x] else [])"
  "un_services (unlinkRuntime s units x u) name =
     (if belongs units name x then oput (to_str (field x ''unitRuntimeId'')) (servicesAt s x) (un_services u name)
      else un_services u name)"
  by (auto simp: unlinkRuntime_def belongs_def restoredRuntime_def servicesAt_def Let_def split: option.splits)

lemma unlinkRuntimes_at:
  "un_runtimes (fold (unlinkRuntime s units) xs u) name =
     un_runtimes u name @ map restoredRuntime (filter (belongs units name) xs)"
  "un_services (fold (unlinkRuntime s units) xs u) name =
     ospread (un_services u name)
       (map (\<lambda>x. (to_str (field x ''unitRuntimeId''), servicesAt s x)) (filter (belongs units name) xs))"
  by (induction xs arbitrary: u) (simp_all add: unlinkRuntime_at ospread_def)

lemma find_by_name:
  assumes "distinct (map pu_name units)" "unit \<in> set units"
  shows "find (\<lambda>u. JStr (pu_name u) = JStr (pu_name unit)) (rev units) = Some unit"
proof -
  have "find (\<lambda>u. pu_name u = pu_name unit) us = Some unit"
    if "distinct (map pu_name us)" "unit \<in> set us" for us
    using that by (induction us) auto
  then show ?thesis using assms by (simp add: rev_map [symmetric])
qed


section \<open>The round trip\<close>

text \<open>
  A composition: its own document, and units under distinct names whose runtimes do not collide;
  no runtime of the composition itself claims to come from a unit.
\<close>

definition composable :: "obj \<Rightarrow> ResolvedUnit list \<Rightarrow> bool" where
  "composable root resolved =
     (list_all unit_ok resolved \<and> distinct (map ru_name resolved) \<and>
      distinct (concat (map (\<lambda>r. map (projected r) (runtimesOf r)) resolved)) \<and>
      list_all (\<lambda>runtime. \<not> truthy (field runtime ''unit'')) (js_arr (field (fst (resolveParams (boardBody root)
        (js_obj (or_else (field (oget root ''unit'') ''params'') (JObj []))))) ''runtimes'')))"

definition rootBodyOf :: "obj \<Rightarrow> jsval" where
  "rootBodyOf root = fst (resolveParams (boardBody root) (js_obj (or_else (field (oget root ''unit'') ''params'') (JObj []))))"

lemma projectUnits_fields:
  "pr_units (projectUnits root resolved) = map (\<lambda>r. pl_unit (placeUnit r)) resolved"
  "oget (pr_board (projectUnits root resolved)) ''runtimes'' =
     JArr (js_arr (field (rootBodyOf root) ''runtimes'') @ concat (map (\<lambda>r. pl_runtimes (placeUnit r)) resolved))"
  "oget (pr_board (projectUnits root resolved)) ''services'' =
     JObj (foldl ospread (from_entries (js_obj (field (rootBodyOf root) ''services'')))
             (map (\<lambda>r. pl_services (placeUnit r)) resolved))"
  by (simp_all add: projectUnits_def Let_def rootBodyOf_def oget_ospread o_def split: prod.splits)

lemma distinct_concat_same:
  "distinct (concat (map f rs)) \<Longrightarrow> a \<in> set rs \<Longrightarrow> b \<in> set rs \<Longrightarrow> v \<in> set (f a) \<Longrightarrow> v \<in> set (f b) \<Longrightarrow> a = b"
proof (induction rs)
  case (Cons c rs)
  have "v \<notin> set (f c) \<or> v \<notin> set (f x)" if "x \<in> set rs" for x
    using Cons.prems(1) that by auto
  then show ?case using Cons by auto
qed simp

lemma composableD:
  assumes "composable root resolved"
  shows "\<And>r. r \<in> set resolved \<Longrightarrow> unit_ok r" "distinct (map ru_name resolved)"
    "\<And>r. r \<in> set resolved \<Longrightarrow> distinctly_projected r"
    "\<And>r r' x y. r \<in> set resolved \<Longrightarrow> r' \<in> set resolved \<Longrightarrow> x \<in> set (runtimesOf r) \<Longrightarrow> y \<in> set (runtimesOf r') \<Longrightarrow>
       projected r x = projected r' y \<Longrightarrow> r = r'"
    "\<And>x. x \<in> set (js_arr (field (rootBodyOf root) ''runtimes'')) \<Longrightarrow> \<not> truthy (field x ''unit'')"
proof -
  let ?ids = "\<lambda>r. map (projected r) (runtimesOf r)"
  have d: "distinct (concat (map ?ids resolved))" and n: "distinct (map ru_name resolved)"
    using assms by (simp_all add: composable_def)
  show "unit_ok r" if "r \<in> set resolved" for r
    using assms that by (simp add: composable_def list_all_iff)
  show "distinct (map ru_name resolved)" by (rule n)
  show "distinctly_projected r" if "r \<in> set resolved" for r
    using d that by (simp add: distinctly_projected_def distinct_concat_iff)
  show "r = r'" if "r \<in> set resolved" "r' \<in> set resolved" "x \<in> set (runtimesOf r)" "y \<in> set (runtimesOf r')"
      "projected r x = projected r' y" for r r' x y
    using distinct_concat_same [OF d that(1,2), of "projected r x"] that(3-5)
    by (metis image_eqI set_map)
  show "\<not> truthy (field x ''unit'')" if "x \<in> set (js_arr (field (rootBodyOf root) ''runtimes''))" for x
    using assms that by (simp add: composable_def list_all_iff rootBodyOf_def)
qed

lemma belongs_placed:
  assumes "composable root resolved" "r \<in> set resolved" "r' \<in> set resolved" "x \<in> set (runtimesOf r')"
  shows "belongs (map (\<lambda>r. pl_unit (placeUnit r)) resolved) (ru_name r) (placedRuntime r' x) \<longleftrightarrow> r' = r"
proof -
  note c = composableD [OF assms(1)]
  note f = placedRuntime_fields [OF c(1) [OF assms(3)] assms(4)]
  let ?units = "map (\<lambda>r. pl_unit (placeUnit r)) resolved"
  have names: "map pu_name ?units = map ru_name resolved" by (simp add: placeUnit_fields)
  have "find (\<lambda>u. JStr (pu_name u) = JStr (pu_name (pl_unit (placeUnit r')))) (rev ?units) = Some (pl_unit (placeUnit r'))"
    using c(2) assms(3) by (intro find_by_name) (simp_all only: names set_map image_eqI)
  then have "unitOfRuntime ?units (placedRuntime r' x) = Some (pl_unit (placeUnit r'))"
    using f(3) unit_okD(3) [OF c(1) [OF assms(3)]] by (simp add: unitOfRuntime_def placeUnit_fields)
  moreover have "ru_name r' = ru_name r \<longleftrightarrow> r' = r"
    using distinct_map_inj [OF c(2) assms(3,2)] by blast
  ultimately show ?thesis
    using f(4) unit_okD(6) [OF c(1) [OF assms(3)] assms(4)] by (simp add: belongs_def placeUnit_fields)
qed

lemma filter_concat_map:
  assumes "r \<in> set rs" "distinct rs"
    "\<And>r' x. r' \<in> set rs \<Longrightarrow> x \<in> set (f r') \<Longrightarrow> P x \<longleftrightarrow> r' = r"
  shows "filter P (concat (map f rs)) = f r"
  using assms
proof (induction rs)
  case (Cons a rs)
  show ?case
  proof (cases "a = r")
    case True
    have "filter P (concat (map f rs)) = []" using Cons.prems True by (auto simp: filter_empty_conv)
    moreover have "filter P (f r) = f r" using Cons.prems True by (intro filter_True) auto
    ultimately show ?thesis using True by simp
  next
    case False
    have "filter P (f a) = []" using Cons.prems False by (auto simp: filter_empty_conv)
    moreover have "filter P (concat (map f rs)) = f r" using Cons False by auto
    ultimately show ?thesis by simp
  qed
qed simp

lemma belonging_runtimes:
  assumes "composable root resolved" "r \<in> set resolved"
  shows "filter (belongs (map (\<lambda>r. pl_unit (placeUnit r)) resolved) (ru_name r))
           (js_arr (oget (pr_board (projectUnits root resolved)) ''runtimes'')) = map (placedRuntime r) (runtimesOf r)"
proof -
  note c = composableD [OF assms(1)]
  let ?b = "belongs (map (\<lambda>r. pl_unit (placeUnit r)) resolved) (ru_name r)"
  have "filter ?b (js_arr (field (rootBodyOf root) ''runtimes'')) = []"
    using c(5) by (auto simp: filter_empty_conv belongs_def unitOfRuntime_def)
  moreover have "filter ?b (concat (map (\<lambda>r. pl_runtimes (placeUnit r)) resolved)) = pl_runtimes (placeUnit r)"
  proof (rule filter_concat_map [OF assms(2)])
    show "distinct resolved" using c(2) by (simp only: distinct_map)
    show "?b x \<longleftrightarrow> r' = r" if "r' \<in> set resolved" "x \<in> set (pl_runtimes (placeUnit r'))" for r' x
      using that belongs_placed [OF assms that(1)] by (auto simp: placeUnit_fields)
  qed
  ultimately show ?thesis by (simp add: projectUnits_fields placeUnit_fields)
qed


lemma foldl_ospread_at:
  assumes "r \<in> set rs" "map_of (g r) k = Some v" "\<And>r'. r' \<in> set rs \<Longrightarrow> r' \<noteq> r \<Longrightarrow> k \<notin> set (okeys (g r'))"
    "distinct (okeys (g r))"
  shows "map_of (foldl ospread a (map g rs)) k = Some v"
  using assms(1,3)
proof (induction rs rule: rev_induct)
  case (snoc b rs)
  show ?case
  proof (cases "b = r")
    case True
    then show ?thesis using assms(2,4) by (simp add: map_of_rev_distinct map_add_Some_iff)
  next
    case False
    then have "k \<notin> set (okeys (g b))" "map_of (foldl ospread a (map g rs)) k = Some v"
      using snoc by auto
    moreover from this(1) have "map_of (rev (g b)) k = None" by (simp add: map_of_eq_None_iff)
    ultimately show ?thesis by (simp add: map_add_def)
  qed
qed simp

lemma servicesAt_placed:
  assumes "composable root resolved" "r \<in> set resolved" "x \<in> set (runtimesOf r)"
  shows "servicesAt (pr_board (projectUnits root resolved)) (placedRuntime r x)
           = requalifyMounts (oget (servicesOf r) (rid x)) (idsOf r)"
proof -
  note c = composableD [OF assms(1)]
  note ok = c(1) [OF assms(2)]
  note at = placedServices_at [OF ok c(3) [OF assms(2)] assms(3)]
  have "map_of (foldl ospread (from_entries (js_obj (field (rootBodyOf root) ''services'')))
          (map (\<lambda>r. pl_services (placeUnit r)) resolved)) (projected r x)
        = Some (requalifyMounts (oget (servicesOf r) (rid x)) (idsOf r))"
  proof (rule foldl_ospread_at [where r = r and g = "\<lambda>r. pl_services (placeUnit r)", OF assms(2) at(1)])
    show "distinct (okeys (pl_services (placeUnit r)))"
      by (simp add: placedServices [OF ok] from_entries_def distinct_ospread)
    show "projected r x \<notin> set (okeys (pl_services (placeUnit r')))" if "r' \<in> set resolved" "r' \<noteq> r" for r'
      using placedServices_keys [OF c(1) [OF that(1)]] c(4) [OF assms(2) that(1) assms(3)] that(2) by auto
  qed
  note this [THEN oget_map_of]
  moreover have "\<not> nullish (requalifyMounts (oget (servicesOf r) (rid x)) (idsOf r))"
    using at(2) by (cases "oget (servicesOf r) (rid x)")
      (simp_all add: is_arr_def nullish_def requalifyMounts_def)
  ultimately show ?thesis
    by (simp add: servicesAt_def projectUnits_fields placedRuntime_fields [OF ok assms(3)] or_else_def)
qed


text \<open>What the splitting hands the merge for one unit is what the projection is expected to hold.\<close>

lemma expected_runtimes:
  assumes "unit_ok r" "distinctly_projected r"
  shows "fst (expectedProjectionOf (pl_unit (placeUnit r))) = map (\<lambda>x. restoredRuntime (placedRuntime r x)) (runtimesOf r)"
proof -
  have "JObj (ospread (stripProvenance (placedRuntime r x))
          [(''id'', (case toOwnId (idsOf r) (rid (placedRuntime r x)) of Some own \<Rightarrow> JStr own
                       | None \<Rightarrow> field (placedRuntime r x) ''id''))])
        = restoredRuntime (placedRuntime r x)" if "x \<in> set (runtimesOf r)" for x
    using that by (simp add: placedRuntime_fields [OF assms(1)] toOwnId_projected [OF assms] restoredRuntime_def)
  then show ?thesis by (simp add: expectedProjectionOf_place placeUnit_fields)
qed

lemma expected_services:
  assumes "unit_ok r" "distinctly_projected r"
  shows "set (okeys (snd (expectedProjectionOf (pl_unit (placeUnit r))))) = rid ` set (runtimesOf r)"
    "x \<in> set (runtimesOf r) \<Longrightarrow> map_of (snd (expectedProjectionOf (pl_unit (placeUnit r)))) (rid x)
       = Some (requalifyMounts (oget (servicesOf r) (rid x)) (idsOf r))"
proof -
  note ok = unit_okD [OF assms(1)]
  let ?p = "pl_services (placeUnit r)"
  have own: "ownIdOr (idsOf r) (projected r x) = rid x" if "x \<in> set (runtimesOf r)" for x
    by (simp add: ownIdOr_def toOwnId_projected [OF assms that])
  have e: "snd (expectedProjectionOf (pl_unit (placeUnit r))) = from_entries (map (\<lambda>(i, lst). (ownIdOr (idsOf r) i, lst)) ?p)"
    by (simp add: expectedProjectionOf_place)
  have "set (okeys (snd (expectedProjectionOf (pl_unit (placeUnit r))))) = ownIdOr (idsOf r) ` set (okeys ?p)"
    by (simp only: e set_okeys_from_entries okeys_renamed [where g = "\<lambda>x. x"]) (rule set_map)
  also have "\<dots> = ownIdOr (idsOf r) ` projected r ` set (runtimesOf r)"
    by (simp only: placedServices_keys [OF assms(1)])
  also have "\<dots> = rid ` set (runtimesOf r)"
    unfolding image_image by (rule image_cong) (simp_all add: own)
  finally show "set (okeys (snd (expectedProjectionOf (pl_unit (placeUnit r))))) = rid ` set (runtimesOf r)" .
  show "map_of (snd (expectedProjectionOf (pl_unit (placeUnit r)))) (rid x)
       = Some (requalifyMounts (oget (servicesOf r) (rid x)) (idsOf r))" if x: "x \<in> set (runtimesOf r)"
  proof -
    have "inj_on (ownIdOr (idsOf r)) (set (okeys ?p))"
      unfolding placedServices_keys [OF assms(1)]
    proof (rule inj_onI)
      fix i j assume ij: "i \<in> projected r ` set (runtimesOf r)" "j \<in> projected r ` set (runtimesOf r)"
        "ownIdOr (idsOf r) i = ownIdOr (idsOf r) j"
      then obtain y z where yz: "i = projected r y" "y \<in> set (runtimesOf r)" "j = projected r z" "z \<in> set (runtimesOf r)"
        by blast
      then have "rid y = rid z" using ij(3) by (simp only: own)
      then show "i = j" using distinct_map_inj [OF ok(4) yz(2,4)] yz by simp
    qed
    moreover have "distinct (okeys ?p)"
      by (simp add: placedServices [OF assms(1)] from_entries_def distinct_ospread)
    moreover have "(projected r x, requalifyMounts (oget (servicesOf r) (rid x)) (idsOf r)) \<in> set ?p"
      by (rule map_of_SomeD [OF placedServices_at(1) [OF assms x]])
    ultimately have "map_of (from_entries (map (\<lambda>(i, lst). (ownIdOr (idsOf r) i, lst)) ?p)) (ownIdOr (idsOf r) (projected r x))
        = Some (requalifyMounts (oget (servicesOf r) (rid x)) (idsOf r))"
      by (rule map_of_renamed)
    then show ?thesis by (simp add: e own [OF x])
  qed
qed


lemma wf_restored:
  assumes "unit_ok r" "x \<in> set (runtimesOf r)"
  shows "wf_js (restoredRuntime (placedRuntime r x))"
proof -
  note ok = unit_okD [OF assms(1)]
  have x: "wf_js x" by (rule runtimesOf_wf [OF ok(1) assms(2)])
  have b: "wf_js (field (bindingOf (ru_entry r) x) k)" for k
    unfolding bindingOf_def by (intro wf_js_field wf_js_oget ok(2))
  have "wf_js (JObj (withBoundAddressing (js_obj x) (bindingOf (ru_entry r) x)))"
    unfolding withBoundAddressing_def
    by (auto intro!: wf_js_ospread wf_js_omit wf_js_js_obj x b simp del: wf_js.simps(2) split: if_splits)
  then have "wf_js (placedRuntime r x)"
    unfolding placeRuntime_def Let_def
    by (rule wf_js_ospread)
      (auto simp: b wf_js_oget [OF ok(1)] wf_js_field [OF x] idsOf_lookup [OF ok(4) assms(2)] split: if_splits)
  then have "wf_js (JObj (stripProvenance (placedRuntime r x)))"
    unfolding stripProvenance_def by (intro wf_js_omit wf_js_js_obj)
  then show ?thesis
    unfolding restoredRuntime_def
    by (rule wf_js_ospread) (simp add: placedRuntime_fields [OF assms])
qed

lemma wf_expected_services:
  assumes "unit_ok r" "distinctly_projected r"
  shows "wf_js (JObj (snd (expectedProjectionOf (pl_unit (placeUnit r)))))"
proof -
  note ok = unit_okD [OF assms(1)]
  let ?s = "snd (expectedProjectionOf (pl_unit (placeUnit r)))"
  have d: "canon_keys (okeys ?s)"
    by (simp add: expectedProjectionOf_place from_entries_def canon_keys_ospread canon_keys_def [of "[]"])
  have "wf_js v" if "(k, v) \<in> set ?s" for k v
  proof -
    have dk: "distinct (okeys ?s)" using d by (simp only: canon_keys_def)
    have "k \<in> set (okeys ?s)" using that by force
    then obtain x where x: "x \<in> set (runtimesOf r)" "k = rid x"
      using expected_services(1) [OF assms] by auto
    then have v: "v = requalifyMounts (oget (servicesOf r) (rid x)) (idsOf r)"
      using map_of_is_SomeI [OF dk that] expected_services(2) [OF assms x(1)] by simp
    have "wf_js (oget (servicesOf r) (rid x))" by (rule wf_js_oget [OF servicesOf_wf [OF ok(1)]])
    moreover obtain ys where "oget (servicesOf r) (rid x) = JArr ys"
      using placedServices_at(2) [OF assms x(1)] by (auto simp: is_arr_def split: jsval.splits)
    ultimately show ?thesis
      unfolding v requalifyMounts_def by (simp only: rewriteNested_map_text jsval.distinct wf_js_map_text not_False_eq_True)
  qed
  then have "list_all wf_js (ovalues ?s)" by (auto simp: list_all_iff dest: ovalues_memE)
  with d show ?thesis by (simp only: wf_js.simps)
qed

lemma oput_same: "map_of es k = Some v \<Longrightarrow> oput k v es = es"
  by (induction k v es rule: oput.induct) (auto split: if_splits dest!: map_of_SomeD intro: rev_image_eqI)

lemma mergeUnitEdits_unedited:
  assumes "map_of (pu_source u) ''runtimes'' = Some (JArr rts0)" "map_of (pu_source u) ''services'' = Some (JObj sv0)"
    "deepEquals (JArr (fst (expectedProjectionOf u))) (JArr rts)" "deepEquals (JObj (snd (expectedProjectionOf u))) (JObj sv)"
  shows "mergeUnitEdits u rts sv = pu_source u"
proof -
  have "oget (pu_source u) ''runtimes'' = JArr rts0" "oget (pu_source u) ''services'' = JObj sv0"
    using assms(1,2) by (simp_all add: oget_def)
  then have "restoreEdits (or_else (oget (pu_source u) ''runtimes'') (JArr [])) (JArr (fst (expectedProjectionOf u))) (JArr rts) = JArr rts0"
    "restoreEdits (or_else (oget (pu_source u) ''services'') (JObj [])) (JObj (snd (expectedProjectionOf u))) (JObj sv) = JObj sv0"
    using assms(3,4) by (simp_all only: restoreEdits_unedited or_else_def nullish_def jsval.distinct simp_thms if_False)
  then show ?thesis
    using assms(1,2) by (simp only: mergeUnitEdits_def case_prod_beta Let_def ospread_def foldl.simps fst_conv snd_conv oput_same)
qed

lemma unedited_unit:
  assumes "composable root resolved" "r \<in> set resolved"
  defines "b \<equiv> pr_board (projectUnits root resolved)"
  shows "mergeUnitEdits (pl_unit (placeUnit r))
           (map restoredRuntime (map (placedRuntime r) (runtimesOf r)))
           (from_entries (map (\<lambda>x. (to_str (field x ''unitRuntimeId''), servicesAt b x)) (map (placedRuntime r) (runtimesOf r))))
         = ru_board r"
proof -
  note c = composableD [OF assms(1)]
  note ok = c(1) [OF assms(2)]
  note okd = unit_okD [OF ok]
  note ex = c(3) [OF assms(2)]
  let ?e = "expectedProjectionOf (pl_unit (placeUnit r))"
  let ?rts = "map restoredRuntime (map (placedRuntime r) (runtimesOf r))"
  let ?sv = "from_entries (map (\<lambda>x. (to_str (field x ''unitRuntimeId''), servicesAt b x)) (map (placedRuntime r) (runtimesOf r)))"
  have "fst ?e = ?rts" by (simp add: expected_runtimes [OF ok ex])
  moreover have "wf_js (JArr ?rts)" using wf_restored [OF ok] by (simp add: list_all_iff)
  ultimately have rts: "deepEquals (JArr (fst ?e)) (JArr ?rts)" by (simp only: deepEquals_refl)
  have sv: "?sv = from_entries (map (\<lambda>x. (rid x, requalifyMounts (oget (servicesOf r) (rid x)) (idsOf r))) (runtimesOf r))"
  proof -
    have "map (\<lambda>x. (to_str (field x ''unitRuntimeId''), servicesAt b x)) (map (placedRuntime r) (runtimesOf r))
        = map (\<lambda>x. (rid x, requalifyMounts (oget (servicesOf r) (rid x)) (idsOf r))) (runtimesOf r)"
      unfolding map_map
      by (rule map_cong_set) (simp add: b_def placedRuntime_fields [OF ok] servicesAt_placed [OF assms(1,2)])
    then show ?thesis by (simp only:)
  qed
  have svat: "map_of ?sv (rid x) = Some (requalifyMounts (oget (servicesOf r) (rid x)) (idsOf r))" if "x \<in> set (runtimesOf r)" for x
    unfolding sv using that okd(4) by (simp add: map_of_from_entries okeys_map_pair o_def)
  have svs: "deepEquals (JObj (snd ?e)) (JObj ?sv)"
  proof (rule deepEquals_same_fields)
    show "wf_js (JObj (snd ?e))" by (rule wf_expected_services [OF ok ex])
    show "distinct (okeys ?sv)" by (simp add: from_entries_def distinct_ospread)
    have keys: "set (okeys ?sv) = rid ` set (runtimesOf r)"
      unfolding sv set_okeys_from_entries okeys_map_pair by (rule set_map)
    show "map_of (snd ?e) k = map_of ?sv k" for k
    proof (cases "k \<in> rid ` set (runtimesOf r)")
      case True
      then show ?thesis using expected_services(2) [OF ok ex] svat by auto
    next
      case False
      then have "map_of (snd ?e) k = None" "map_of ?sv k = None"
        unfolding map_of_eq_None_iff by (simp_all only: expected_services(1) [OF ok ex] keys set_map [symmetric] not_False_eq_True)
      then show ?thesis by simp
    qed
  qed
  obtain rts0 sv0 where src: "oget (ru_board r) ''runtimes'' = JArr rts0" "oget (ru_board r) ''services'' = JObj sv0"
    using ok by (auto simp: unit_ok_def is_arr_def is_obj_def split: jsval.splits)
  have "map_of (ru_board r) ''runtimes'' = Some (JArr rts0)" "map_of (ru_board r) ''services'' = Some (JObj sv0)"
    using src by (simp_all add: oget_def split: option.splits)
  from mergeUnitEdits_unedited [OF _ _ rts svs, unfolded placeUnit_fields, OF this] show ?thesis .
qed


text \<open>A composition of one unit, on which the properties are tried out.\<close>

definition ledBoard :: obj where
  "ledBoard =
     [(''boardName'', JStr ''LED''),
      (''runtimes'', JArr [JObj [(''id'', JStr ''rt''), (''url'', JStr ''{{param.host}}'')]]),
      (''services'', JObj [(''rt'', JArr [JObj [(''uuid'', JStr ''m''), (''serviceId'', JStr ''monitor'')]])])]"

definition ledUnit :: ResolvedUnit where
  "ledUnit =
     \<lparr>ru_entry = [(''uri'', JStr ''led.json''), (''params'', JObj [(''host'', JStr ''h'')])],
      ru_board = ledBoard, ru_name = ''led''\<rparr>"

definition ledRoot :: obj where
  "ledRoot =
     [(''boardName'', JStr ''house''),
      (''runtimes'', JArr [JObj [(''id'', JStr ''main'')]]),
      (''services'', JObj [(''main'', JArr [])])]"

lemma composable_led: "composable ledRoot [ledUnit]"
  by code_simp

lemma projectUnits_restores:
  assumes "composable root resolved"
  shows "ub_units (unlinkProjection (pr_board (projectUnits root resolved)) (pr_units (projectUnits root resolved)))
           = map (\<lambda>r. (pl_unit (placeUnit r), ru_board r)) resolved"
proof -
  let ?b = "pr_board (projectUnits root resolved)" and ?us = "map (\<lambda>r. pl_unit (placeUnit r)) resolved"
  let ?u = "fold (unlinkRuntime ?b ?us) (js_arr (oget ?b ''runtimes''))
              \<lparr>un_ownRuntimes = [], un_ownServices = [], un_runtimes = (\<lambda>_. []), un_services = (\<lambda>_. [])\<rparr>"
  have "mergeUnitEdits (pl_unit (placeUnit r)) (un_runtimes ?u (ru_name r)) (un_services ?u (ru_name r)) = ru_board r"
    if "r \<in> set resolved" for r
    using unedited_unit [OF assms that]
    by (simp only: unlinkRuntimes_at belonging_runtimes [OF assms that] from_entries_def append_Nil Unlinking.simps)
  then show ?thesis
    by (simp add: unlinkProjection_def Let_def projectUnits_fields(1) placeUnit_fields o_def)
qed

text \<open>
  C2. Saving a composition nobody edited gives every document back: splitting the board that was
  assembled from units, by the records the assembly kept, returns for each unit the very document
  it was assembled from, with its own runtime ids, its references and its parameters unfilled.
\<close>

theorem unlinkProjection_projectUnits:
  assumes "composable root resolved"
  shows "ub_units (unlinkProjection (pr_board (projectUnits root resolved)) (pr_units (projectUnits root resolved)))
           = map (\<lambda>r. (pl_unit (placeUnit r), ru_board r)) resolved"
  using assms by (rule projectUnits_restores)

theorem unlinkProjection_projectUnits_witness:
  "map snd (ub_units (unlinkProjection (pr_board (projectUnits ledRoot [ledUnit])) (pr_units (projectUnits ledRoot [ledUnit]))))
     = [ledBoard]"
  unfolding unlinkProjection_projectUnits [OF composable_led] by (simp add: ledUnit_def)

end
