(* ===== verification/BoardUnitsChecks.thy ===== *)
theory BoardUnitsChecks
  imports BoardUnitsSave "HOL-Library.Multiset"
begin

text \<open>
  What the checks of a composition guarantee (\<^verbatim>\<open>validateProjection\<close>, \<^verbatim>\<open>resolveParams\<close> and
  \<^verbatim>\<open>requalifyMounts\<close> in \<^verbatim>\<open>hkp-frontend/src/runtime/board/units.ts\<close>): when assembling stops, and what
  holds of a board it does not stop for.
\<close>

section \<open>Collisions\<close>

lemma hasErrors_append [simp]: "hasErrors (a @ b) = (hasErrors a \<or> hasErrors b)"
  by (simp add: hasErrors_def)

lemma hasErrors_Nil [simp]: "hasErrors [] = False"
  by (simp add: hasErrors_def)

lemma hasErrors_Cons [simp]: "hasErrors (d # ds) = (d_level d = Error \<or> hasErrors ds)"
  by (simp add: hasErrors_def)

lemma hasErrors_concat [simp]: "hasErrors (concat dss) = (\<exists>ds \<in> set dss. hasErrors ds)"
  by (induction dss) simp_all

lemma hasErrors_map [simp]:
  "hasErrors (map (\<lambda>x. diagnostic l c u (f x)) xs) = (l = Error \<and> xs \<noteq> [])"
  by (induction xs) (auto simp: diagnostic_def)

lemma level_diagnostic [simp]: "d_level (diagnostic l c u m) = l"
  by (simp add: diagnostic_def)

text \<open>Every owner recorded so far has a name.\<close>

definition named :: "(string \<rightharpoonup> string) \<Rightarrow> bool" where
  "named seen = (\<forall>i owner. seen i = Some owner \<longrightarrow> owner \<noteq> [])"

lemma claimIds_spec:
  assumes "name \<noteq> []" "named seen"
  shows "named (snd (claimIds name ids seen)) \<and> dom (snd (claimIds name ids seen)) = dom seen \<union> set ids \<and>
    (hasErrors (fst (claimIds name ids seen)) \<longleftrightarrow> \<not> (distinct ids \<and> set ids \<inter> dom seen = {}))"
  using assms(2)
proof (induction ids arbitrary: seen)
  case (Cons i ids)
  show ?case
  proof (cases "seen i")
    case None
    obtain ds seen' where e: "claimIds name ids (seen(i \<mapsto> name)) = (ds, seen')" by fastforce
    have "named (seen(i \<mapsto> name))" using Cons.prems assms(1) by (simp add: named_def)
    from Cons.IH [OF this]
    have "named seen'" "dom seen' = insert i (dom seen) \<union> set ids"
      "hasErrors ds \<longleftrightarrow> \<not> (distinct ids \<and> set ids \<inter> insert i (dom seen) = {})"
      by (simp_all only: e fst_conv snd_conv dom_fun_upd option.distinct if_False)
    moreover have "i \<notin> dom seen" using None by (simp add: domIff)
    ultimately show ?thesis using None e by auto
  next
    case (Some owner)
    obtain ds seen' where e: "claimIds name ids seen = (ds, seen')" by fastforce
    have o: "owner \<noteq> []" using Cons.prems Some by (auto simp: named_def)
    have "i \<in> dom seen" using Some by (simp add: domIff)
    then show ?thesis using Cons.IH [OF Cons.prems] Some o e by auto
  qed
qed simp

lemma claimUnits_spec:
  assumes "\<And>unit. unit \<in> set units \<Longrightarrow> pu_name unit \<noteq> []" "named seen"
  shows "hasErrors (claimUnits units seen) \<longleftrightarrow>
    \<not> (distinct (concat (map (\<lambda>unit. ovalues (pu_runtimeIds unit)) units)) \<and>
       set (concat (map (\<lambda>unit. ovalues (pu_runtimeIds unit)) units)) \<inter> dom seen = {})"
  using assms
proof (induction units arbitrary: seen)
  case (Cons unit units)
  note c = claimIds_spec [OF Cons.prems(1) [of unit] Cons.prems(2), of "ovalues (pu_runtimeIds unit)"]
  let ?c = "claimIds (pu_name unit) (ovalues (pu_runtimeIds unit)) seen"
  have "hasErrors (claimUnits units (snd ?c)) \<longleftrightarrow>
    \<not> (distinct (concat (map (\<lambda>unit. ovalues (pu_runtimeIds unit)) units)) \<and>
       set (concat (map (\<lambda>unit. ovalues (pu_runtimeIds unit)) units)) \<inter> dom (snd ?c) = {})"
    using Cons.prems c by (intro Cons.IH) auto
  then show ?case using c by (auto simp: split_beta)
qed simp

lemma or_truthy_string: "x = JStr s \<Longrightarrow> s \<noteq> [] \<Longrightarrow> to_str (or_truthy x y) \<noteq> []"
  by (simp add: or_truthy_def)

text \<open>The composition's own name, as the collision report uses it, is not blank.\<close>

definition namedRoot :: "obj \<Rightarrow> bool" where
  "namedRoot root = (to_str (or_truthy (oget root ''boardName'') (JStr ''the composition'')) \<noteq> [])"

lemma rootClaims_spec:
  "namedRoot root \<Longrightarrow> named (rootClaims root)"
  "dom (rootClaims root) = rid ` set (js_arr (oget root ''runtimes''))"
proof -
  let ?n = "to_str (or_truthy (oget root ''boardName'') (JStr ''the composition''))"
  have d: "dom (fold (\<lambda>runtime seen. seen(rid runtime \<mapsto> ?n)) xs m) = dom m \<union> rid ` set xs" for xs m
    by (induction xs arbitrary: m) simp_all
  have n: "named (fold (\<lambda>runtime seen. seen(rid runtime \<mapsto> ?n)) xs m)" if "named m" "namedRoot root" for xs m
    using that(1)
  proof (induction xs arbitrary: m)
    case (Cons x xs)
    have "named (m(rid x \<mapsto> ?n))" using Cons.prems that(2) by (simp add: named_def namedRoot_def)
    from Cons.IH [OF this] show ?case by simp
  qed simp
  show "namedRoot root \<Longrightarrow> named (rootClaims root)" unfolding rootClaims_def by (rule n) (simp_all add: named_def)
  show "dom (rootClaims root) = rid ` set (js_arr (oget root ''runtimes''))"
    unfolding rootClaims_def d by simp
qed

section \<open>What stops a composition\<close>

lemma checkDeclaredTopics_warns [simp]: "\<not> hasErrors (checkDeclaredTopics unit declaration topics)"
  by (simp add: checkDeclaredTopics_def Let_def)

lemma hasErrors_validate:
  "hasErrors (validateProjection root units services) \<longleftrightarrow>
     hasErrors (claimUnits units (rootClaims root)) \<or>
     (\<exists>unit \<in> set units. \<exists>topic \<in> set (declared (pu_declaration unit) ''imports'').
        topic \<notin> set (declared (oget root ''unit'') ''exports'') \<and>
        (\<forall>other \<in> set units. topic \<notin> set (declared (pu_declaration other) ''exports'')))"
  unfolding validateProjection_def Let_def
  by (simp add: filter_empty_conv conj_commute)

text \<open>
  C27. A composition is refused, that is its check reports an error, for exactly two reasons: a
  runtime id of a unit is claimed twice, by two runtimes of units or by a unit and the composition;
  or an included unit imports a topic that neither the composition nor any of its units exports.
  What the composition itself imports never refuses it, and no undeclared or unused topic does.
\<close>

theorem validateProjection_errors:
  assumes "namedRoot root" and "\<forall>unit \<in> set units. pu_name unit \<noteq> []"
  shows "hasErrors (validateProjection root units services) \<longleftrightarrow>
     \<not> distinct (concat (map (\<lambda>unit. ovalues (pu_runtimeIds unit)) units))
     \<or> (\<exists>unit \<in> set units. \<exists>runtime \<in> set (js_arr (oget root ''runtimes'')).
          rid runtime \<in> set (ovalues (pu_runtimeIds unit)))
     \<or> (\<exists>unit \<in> set units. \<exists>topic \<in> set (declared (pu_declaration unit) ''imports'').
          topic \<notin> set (declared (oget root ''unit'') ''exports'') \<and>
          (\<forall>other \<in> set units. topic \<notin> set (declared (pu_declaration other) ''exports'')))"
proof -
  have "hasErrors (claimUnits units (rootClaims root)) \<longleftrightarrow>
    \<not> distinct (concat (map (\<lambda>unit. ovalues (pu_runtimeIds unit)) units))
     \<or> (\<exists>unit \<in> set units. \<exists>runtime \<in> set (js_arr (oget root ''runtimes'')).
          rid runtime \<in> set (ovalues (pu_runtimeIds unit)))"
    using assms by (subst claimUnits_spec) (auto simp: rootClaims_spec)
  then show ?thesis by (simp only: hasErrors_validate disj_assoc)
qed


theorem validateProjection_errors_witness:
  "hasErrors (validateProjection [(''boardName'', JStr ''c'')]
     [\<lparr>pu_name = ''a'', pu_uri = JStr ''a.json'', pu_entry = [], pu_boardName = JStr ''a'',
       pu_declaration = JObj [(''imports'', JArr [JStr ''t''])], pu_runtimeIds = [(''r'', ''a.r'')], pu_source = []\<rparr>] [])"
proof -
  let ?u = "\<lparr>pu_name = ''a'', pu_uri = JStr ''a.json'', pu_entry = [], pu_boardName = JStr ''a'',
       pu_declaration = JObj [(''imports'', JArr [JStr ''t''])], pu_runtimeIds = [(''r'', ''a.r'')], pu_source = []\<rparr>"
  have n: "namedRoot [(''boardName'', JStr ''c'')]" by (simp add: namedRoot_def or_truthy_def)
  have p: "\<forall>unit \<in> set [?u]. pu_name unit \<noteq> []" by simp
  show ?thesis
    by (rule validateProjection_errors [OF n p, THEN iffD2])
      (simp add: declared_def List.map_filter_simps)
qed

text \<open>Building an object keeps every entry of distinct keys, whatever the order it gives them.\<close>

lemma mset_oput: "k \<notin> set (okeys es) \<Longrightarrow> mset (oput k v es) = add_mset (k, v) (mset es)"
  by (induction k v es rule: oput.induct) auto

lemma mset_from_entries: "distinct (okeys es) \<Longrightarrow> mset (from_entries es) = mset es"
proof (induction es rule: rev_induct)
  case (snoc p es)
  obtain k v where p: "p = (k, v)" by (cases p)
  have "k \<notin> set (okeys (from_entries es))" unfolding set_okeys_from_entries using snoc.prems p by simp
  then show ?case using snoc p by (simp add: from_entries_def ospread_snoc mset_oput)
qed (simp add: from_entries_def)

lemma mset_idsOf:
  assumes "distinct (map rid (runtimesOf r))"
  shows "mset (ovalues (idsOf r)) = mset (map (projected r) (runtimesOf r))"
proof -
  let ?es = "map (\<lambda>x. (rid x, projected r x)) (runtimesOf r)"
  have "distinct (okeys ?es)" unfolding okeys_map_pair by (rule assms)
  from mset_from_entries [OF this] have "image_mset snd (mset (idsOf r)) = image_mset snd (mset ?es)"
    by (simp only: idsOf_spread)
  then show ?thesis by (simp add: ovalues_def o_def image_mset.compositionality)
qed

lemma placed_ids:
  assumes "distinct (map rid (runtimesOf r))"
  shows "map rid (pl_runtimes (placeUnit r)) = map (projected r) (runtimesOf r)"
proof -
  have "rid (placedRuntime r x) = projected r x" if "x \<in> set (runtimesOf r)" for x
    unfolding rid_def using idsOf_lookup [OF assms that]
    by (simp add: placeRuntime_def Let_def oget_ospread rid_def)
  then show ?thesis by (simp add: placeUnit_fields)
qed

lemma distinct_concat_mset:
  assumes "\<And>x. x \<in> set xs \<Longrightarrow> mset (f x) = mset (g x)"
  shows "distinct (concat (map f xs)) = distinct (concat (map g xs))"
    "set (concat (map f xs)) = set (concat (map g xs))"
proof -
  have "mset (concat (map f xs)) = mset (concat (map g xs))"
    using assms by (induction xs) simp_all
  then show "distinct (concat (map f xs)) = distinct (concat (map g xs))"
    "set (concat (map f xs)) = set (concat (map g xs))"
    by (rule mset_eq_imp_distinct_iff, rule mset_eq_setD)
qed

text \<open>
  No two runtimes of an accepted composition share an id: when neither the composition nor any
  unit repeats an id in its own document, a projection without errors has pairwise distinct runtime
  ids, so that the running board, its sockets and its service lists can be keyed by them.
\<close>

theorem projectUnits_ids_distinct:
  assumes "\<not> hasErrors (pr_diagnostics (projectUnits root resolved))"
    and "namedRoot root" and "\<forall>r \<in> set resolved. ru_name r \<noteq> [] \<and> distinct (map rid (runtimesOf r))"
    and "distinct (map rid (js_arr (oget root ''runtimes'')))"
    and "map rid (js_arr (field (rootBodyOf root) ''runtimes'')) = map rid (js_arr (oget root ''runtimes''))"
  shows "distinct (map rid (js_arr (oget (pr_board (projectUnits root resolved)) ''runtimes'')))"
proof -
  let ?ids = "\<lambda>r. map (projected r) (runtimesOf r)"
  let ?us = "map (\<lambda>r. pl_unit (placeUnit r)) resolved"
  obtain services where v: "\<not> hasErrors (validateProjection root ?us services)"
    using assms(1) by (auto simp: projectUnits_def Let_def o_def split: prod.splits)
  have ids: "mset (ovalues (pu_runtimeIds (pl_unit (placeUnit r)))) = mset (?ids r)" if "r \<in> set resolved" for r
    using mset_idsOf assms(3) that by (simp add: placeUnit_fields)
  have "\<forall>unit \<in> set ?us. pu_name unit \<noteq> []" using assms(3) by (simp add: placeUnit_fields)
  note e = validateProjection_errors [OF assms(2) this, of services]
  have "distinct (concat (map (\<lambda>unit. ovalues (pu_runtimeIds unit)) ?us))" using v e by blast
  then have d: "distinct (concat (map ?ids resolved))"
    by (simp add: o_def distinct_concat_mset(1) [OF ids])
  have "rid x \<notin> set (concat (map (\<lambda>unit. ovalues (pu_runtimeIds unit)) ?us))" if "x \<in> set (js_arr (oget root ''runtimes''))" for x
    using that v e by auto
  then have x: "rid x \<notin> set (concat (map ?ids resolved))" if "x \<in> set (js_arr (oget root ''runtimes''))" for x
    using that by (simp only: map_map o_def distinct_concat_mset(2) [OF ids, symmetric] not_False_eq_True)
  have "map rid (concat (map (\<lambda>r. pl_runtimes (placeUnit r)) resolved)) = concat (map ?ids resolved)"
    using assms(3) placed_ids by (simp add: map_concat cong: map_cong)
  moreover have "set (map rid (js_arr (oget root ''runtimes''))) \<inter> set (concat (map ?ids resolved)) = {}"
    using x by auto
  ultimately show ?thesis
    unfolding projectUnits_fields js_arr.simps map_append assms(5) distinct_append using d assms(4) by simp
qed

theorem projectUnits_ids_distinct_witness:
  "distinct (map rid (js_arr (oget (pr_board (projectUnits ledRoot [ledUnit])) ''runtimes'')))"
proof (rule projectUnits_ids_distinct)
  show "\<not> hasErrors (pr_diagnostics (projectUnits ledRoot [ledUnit]))" by code_simp
  show "namedRoot ledRoot" by code_simp
  show "\<forall>r \<in> set [ledUnit]. ru_name r \<noteq> [] \<and> distinct (map rid (runtimesOf r))" by code_simp
  show "distinct (map rid (js_arr (oget ledRoot ''runtimes'')))" by code_simp
  show "map rid (js_arr (field (rootBodyOf ledRoot) ''runtimes'')) = map rid (js_arr (oget ledRoot ''runtimes''))" by code_simp
qed

section \<open>The three-way merge along a path\<close>

text \<open>The value a path of keys leads to, and whether every object on the way has the key.\<close>

fun at_path :: "jsval \<Rightarrow> string list \<Rightarrow> jsval" where
  "at_path v [] = v"
| "at_path v (k # ks) = at_path (field v k) ks"

fun has_path :: "jsval \<Rightarrow> string list \<Rightarrow> bool" where
  "has_path v [] = True"
| "has_path (JObj es) (k # ks) = (k \<in> set (okeys es) \<and> has_path (oget es k) ks)"
| "has_path _ (k # ks) = False"

lemma deepEquals_at_key:
  assumes "deepEquals (JObj a) (JObj b)" "k \<in> set (okeys a)" "distinct (okeys a)"
  shows "deepEquals (oget a k) (oget b k)"
proof -
  obtain v where v: "(k, v) \<in> set a" using assms(2) by auto
  then show ?thesis using assms(1) oget_distinct [OF assms(3) v] by (auto simp: deepEquals_JObj)
qed

lemma restoreEdits_field:
  assumes "wf_js (JObj es)" "wf_js (JObj cs)" "k \<in> set (okeys es)" "k \<in> set (okeys cs)"
  shows "field (restoreEdits (JObj ss) (JObj es) (JObj cs)) k = restoreEdits (oget ss k) (oget es k) (oget cs k)"
proof (cases "deepEquals (JObj es) (JObj cs)")
  case True
  have "deepEquals (oget es k) (oget cs k)"
    by (rule deepEquals_at_key [OF True assms(3) wf_js_distinct [OF assms(1)]])
  then show ?thesis using True by (simp only: restoreEdits_unedited field_simps')
next
  case False
  let ?f = "\<lambda>(k, c). restoreEdits (oget ss k) (oget es k) c"
  have z: "zip (okeys cs) (map ?f cs) = map (\<lambda>(k, c). (k, restoreEdits (oget ss k) (oget es k) c)) cs"
    by (induction cs) auto
  have d: "distinct (okeys cs)" by (rule wf_js_distinct [OF assms(2)])
  have k: "okeys (map (\<lambda>(k, c). (k, restoreEdits (oget ss k) (oget es k) c)) cs) = okeys cs"
    by (induction cs) auto
  have "map_of (from_entries (zip (okeys cs) (map ?f cs))) k
      = map_of (map (\<lambda>(k, c). (k, restoreEdits (oget ss k) (oget es k) c)) cs) k"
    unfolding z by (subst map_of_from_entries) (simp_all only: k d)
  also have "\<dots> = map_option (restoreEdits (oget ss k) (oget es k)) (map_of cs k)"
    by (induction cs) auto
  finally have "oget (from_entries (zip (okeys cs) (map ?f cs))) k = restoreEdits (oget ss k) (oget es k) (oget cs k)"
    using assms(4) by (auto simp: oget_def split: option.splits dest: map_of_SomeD simp: map_of_eq_None_iff)
  then show ?thesis using False by simp
qed

lemma restoreEdits_along:
  assumes "wf_js expected" "wf_js current"
    and "has_path source p" "has_path expected p" "has_path current p"
  shows "at_path (restoreEdits source expected current) p
           = restoreEdits (at_path source p) (at_path expected p) (at_path current p)"
  using assms
proof (induction p arbitrary: source expected current)
  case (Cons k ks)
  obtain ss es cs where o: "source = JObj ss" "expected = JObj es" "current = JObj cs"
    using Cons.prems by (cases source; cases expected; cases current) auto
  have "at_path (restoreEdits source expected current) (k # ks)
      = at_path (restoreEdits (oget ss k) (oget es k) (oget cs k)) ks"
    using restoreEdits_field [of es cs k ss] Cons.prems o by simp
  also have "\<dots> = restoreEdits (at_path (oget ss k) ks) (at_path (oget es k) ks) (at_path (oget cs k) ks)"
    using Cons.prems o wf_js_oget [of es k] wf_js_oget [of cs k] by (intro Cons.IH) auto
  finally show ?case by (simp add: o)
qed simp

text \<open>
  The merge of a save decides value by value.  At any path of keys that the document, the
  projection and the running board all have: where the board still holds what the projection put
  there, the document's own text stays, reference and all; where a single value was edited, the
  edit is written, except that a field the board blanked keeps the secret or parameter reference
  the document had.
\<close>

theorem restoreEdits_at:
  assumes "wf_js expected" "wf_js current"
    and "has_path source p" "has_path expected p" "has_path current p"
  shows "(deepEquals (at_path expected p) (at_path current p) \<longrightarrow>
            at_path (restoreEdits source expected current) p = at_path source p)
       \<and> (\<not> deepEquals (at_path expected p) (at_path current p) \<and>
          \<not> is_obj (at_path current p) \<and> \<not> is_arr (at_path current p) \<longrightarrow>
            at_path (restoreEdits source expected current) p =
              (case at_path source p of
                 JStr s \<Rightarrow> if at_path current p = JStr '''' \<and> isTemplate s then JStr s else at_path current p
               | _ \<Rightarrow> at_path current p))"
  by (cases "at_path current p")
    (auto simp add: restoreEdits_along [OF assms] restoreEdits_unedited keepMasked_def is_obj_def is_arr_def split: jsval.split)

theorem restoreEdits_at_witness:
  "at_path (restoreEdits (JObj [(''url'', JStr ''{{param.host}}''), (''n'', JNull)])
      (JObj [(''url'', JStr ''h''), (''n'', JNull)]) (JObj [(''url'', JStr ''h''), (''n'', JBool True)])) [''url'']
    = JStr ''{{param.host}}''"
  using restoreEdits_at [of "JObj [(''url'', JStr ''h''), (''n'', JNull)]" "JObj [(''url'', JStr ''h''), (''n'', JBool True)]"
      "JObj [(''url'', JStr ''{{param.host}}''), (''n'', JNull)]" "[''url'']"]
  by (simp add: canon_keys_def key_before_def index_key_def is_digit_def)

section \<open>Parameters\<close>

lemma resolveParams_eq:
  "wf_js v \<Longrightarrow> resolveParams v params =
     (map_text (resolveText params) v,
      set_adds (filter (\<lambda>name. unitParam params name = None) (param_refs v)) [])"
proof -
  assume "wf_js v"
  moreover have "fold (\<lambda>t. set_adds (filter (\<lambda>name. unitParam params name = None) (hits PARAM t))) ts acc
      = set_adds (filter (\<lambda>name. unitParam params name = None) (concat (map (hits PARAM) ts))) acc" for ts acc
    by (simp add: fold_set_adds filter_concat o_def)
  ultimately show ?thesis
    by (simp add: resolveParams_def param_refs_def
        walkStrings_pure [where f = "resolveText params"
          and g = "\<lambda>t. set_adds (filter (\<lambda>name. unitParam params name = None) (hits PARAM t))"])
qed

lemma unitParam_None:
  "unitParam params name = None \<longleftrightarrow>
     oget params name = JUndef \<and> (map_of params name = None \<longrightarrow> name \<notin> set proto_keys)"
  by (auto simp: unitParam_def dict_get_def oget_def split: option.splits)

lemma resolveText_kept:
  assumes "\<forall>name \<in> set (hits PARAM t). unitParam params name = None"
  shows "resolveText params t = t"
proof -
  have "resolveText params t = replace_with PARAM (\<lambda>_ w. w) t"
    unfolding resolveText_def by (rule replace_with_cong) (use assms in simp)
  also have "\<dots> = t" by (rule braced_name.replace_keep) simp
  finally show ?thesis .
qed

text \<open>
  Filling in a unit's parameters reports exactly the names the document refers to that have no
  value, each once, where the names every JavaScript object inherits count as having one.  Strings
  keep their place and everything else its value; a string all of whose references lack a value is
  left as it is.
\<close>

theorem resolveParams_exact:
  assumes "wf_js v"
  shows "set (snd (resolveParams v params)) = {name \<in> set (param_refs v). oget params name = JUndef
           \<and> (map_of params name = None \<longrightarrow> name \<notin> set proto_keys)}
       \<and> distinct (snd (resolveParams v params))
       \<and> fst (resolveParams v params) = map_text (resolveText params) v
       \<and> (\<forall>t. (\<forall>name \<in> set (hits PARAM t). unitParam params name = None) \<longrightarrow> resolveText params t = t)"
  using assms by (auto simp: resolveParams_eq unitParam_None resolveText_kept)

theorem resolveParams_exact_witness:
  "set (snd (resolveParams (JArr [JStr ''{{param.a}}{{param.b}}'']) [(''a'', JStr ''1'')])) = {''b''}"
proof -
  have refs: "param_refs (JArr [JStr ''{{param.a}}{{param.b}}'']) = [''a'', ''b'']" by code_simp
  have "wf_js (JArr [JStr ''{{param.a}}{{param.b}}''])" by simp
  then show ?thesis
    unfolding resolveParams_exact [OF \<open>wf_js _\<close>, THEN conjunct1] refs
    by (auto simp: proto_keys_def)
qed

text \<open>
  A reference to a name every object inherits is not left as it stands: with no parameter of
  that name given, it is replaced by the text of the inherited function, and nothing is reported.
\<close>

theorem resolveParams_inherited:
  "resolveParams (JStr ''{{param.toString}}'') []
     = (JStr ''function toString() { [native code] }'', [])"
  by code_simp

end
