(* ===== verification/JsJson.thy ===== *)
theory JsJson
  imports JsValue "HOL-Library.List_Lexorder" "HOL-Library.Char_ord"
begin

text \<open>
  \<^verbatim>\<open>JSON.stringify\<close> as the board engine uses it: to key a placement by its path and to compare two
  documents by their text.  The text of a string is a prefix-free code, so that a longer text can
  be cut back into the strings it was put together from.
\<close>

section \<open>Strings\<close>

definition hex_char :: "nat \<Rightarrow> char" where
  "hex_char n = ''0123456789abcdef'' ! n"

definition json_escape :: "char \<Rightarrow> string" where
  "json_escape c =
     (let n = of_char c :: nat in
      if c = CHR 0x22 \<or> c = CHR 0x5C then [CHR 0x5C, c]
      else if n = 8 then [CHR 0x5C, CHR ''b'']
      else if n = 9 then [CHR 0x5C, CHR ''t'']
      else if n = 10 then [CHR 0x5C, CHR ''n'']
      else if n = 12 then [CHR 0x5C, CHR ''f'']
      else if n = 13 then [CHR 0x5C, CHR ''r'']
      else if n < 32 then [CHR 0x5C, CHR ''u'', CHR ''0'', CHR ''0'', hex_char (n div 16), hex_char (n mod 16)]
      else [c])"

definition json_quote :: "string \<Rightarrow> string" where
  "json_quote s = [CHR 0x22] @ concat (map json_escape s) @ [CHR 0x22]"

section \<open>Values\<close>

text \<open>
  An absent value has no text: as an array element it is written \<^verbatim>\<open>null\<close>, as a field it is left
  out.  At the top level the callers only pass arrays and objects.
\<close>

fun json_text :: "jsval \<Rightarrow> string" where
  "json_text JUndef = ''null''"
| "json_text JNull = ''null''"
| "json_text (JBool b) = (if b then ''true'' else ''false'')"
| "json_text (JNum n) = show_num n"
| "json_text (JStr s) = json_quote s"
| "json_text (JArr xs) = ''['' @ join_with '','' (map json_text xs) @ '']''"
| "json_text (JObj es) =
     ''{'' @ join_with '','' (map (\<lambda>(k, t). json_quote k @ '':'' @ t)
        (filter (\<lambda>(k, t). oget es k \<noteq> JUndef) (zip (okeys es) (map json_text (ovalues es))))) @ ''}''"

text \<open>\<^verbatim>\<open>JSON.parse(JSON.stringify(v))\<close>: absent fields go, absent elements become \<^verbatim>\<open>null\<close>.\<close>

fun written_down :: "jsval \<Rightarrow> jsval" where
  "written_down JUndef = JNull"
| "written_down (JNum n) = JNum (if n = NegZero then Dec 0 0 else n)"
| "written_down (JArr xs) = JArr (map written_down xs)"
| "written_down (JObj es) =
     JObj (filter (\<lambda>(k, v). oget es k \<noteq> JUndef) (zip (okeys es) (map written_down (ovalues es))))"
| "written_down v = v"

section \<open>A canonical form\<close>

text \<open>\<^verbatim>\<open>canonical\<close> (\<^verbatim>\<open>blocks.ts\<close>): the keys of every object sorted by code unit.\<close>

fun canonical :: "jsval \<Rightarrow> jsval" where
  "canonical (JArr xs) = JArr (map canonical xs)"
| "canonical (JObj es) =
     JObj (from_entries (map (\<lambda>k. (k, oget (zip (okeys es) (map canonical (ovalues es))) k)) (sort (okeys es))))"
| "canonical v = v"

section \<open>Facts\<close>

lemma json_escape_cases:
  "json_escape c = [c] \<and> c \<noteq> CHR 0x22 \<and> c \<noteq> CHR 0x5C
   \<or> (\<exists>d. json_escape c = [CHR 0x5C, d] \<and> d \<noteq> CHR ''u'')
   \<or> (\<exists>a b. json_escape c = [CHR 0x5C, CHR ''u'', CHR ''0'', CHR ''0'', a, b])"
  by (auto simp: json_escape_def Let_def)

lemma hex_char_inj: "m < 16 \<Longrightarrow> n < 16 \<Longrightarrow> hex_char m = hex_char n \<Longrightarrow> m = n"
  unfolding hex_char_def by (subst (asm) nth_eq_iff_index_eq) simp_all

lemma hex_pair_inj:
  assumes "m < 32" "n < 32" "hex_char (m div 16) = hex_char (n div 16)" "hex_char (m mod 16) = hex_char (n mod 16)"
  shows "m = (n :: nat)"
proof -
  have "m div 16 = n div 16" "m mod 16 = n mod 16"
    using assms by (auto intro!: hex_char_inj)
  then show ?thesis by (metis mod_div_mult_eq)
qed

lemma of_char_inj: "(of_char c :: nat) = of_char d \<Longrightarrow> c = d"
  by (simp add: of_char_eq_iff)

lemma json_escape_inj: "json_escape c = json_escape d \<Longrightarrow> c = d"
  by (auto simp: json_escape_def Let_def split: if_splits) (metis of_char_inj hex_pair_inj)+

lemma json_escape_prefix: "json_escape c @ x = json_escape d @ y \<Longrightarrow> c = d \<and> x = y"
proof -
  assume eq: "json_escape c @ x = json_escape d @ y"
  have "length (json_escape c) = length (json_escape d)"
    using json_escape_cases [of c] json_escape_cases [of d] eq by auto
  then have "json_escape c = json_escape d" "x = y" using eq by simp_all
  then show ?thesis using json_escape_inj by blast
qed

lemma json_escape_not_quote: "json_escape c @ x \<noteq> CHR 0x22 # y"
  using json_escape_cases [of c] by auto

lemma json_quote_prefix: "json_quote s @ x = json_quote t @ y \<Longrightarrow> s = t \<and> x = y"
proof -
  have "concat (map json_escape s) @ CHR 0x22 # x = concat (map json_escape t) @ CHR 0x22 # y \<Longrightarrow> s = t \<and> x = y"
    for t
  proof (induction s arbitrary: t)
    case Nil
    then show ?case by (cases t) (auto simp: json_escape_not_quote [THEN not_sym])
  next
    case (Cons c s)
    then show ?case
      by (cases t) (auto simp: json_escape_not_quote dest!: json_escape_prefix)
  qed
  then show "json_quote s @ x = json_quote t @ y \<Longrightarrow> s = t \<and> x = y" by (simp add: json_quote_def)
qed

text \<open>Two spellings of one object have one canonical form.\<close>

lemma sort_same_set: "distinct xs \<Longrightarrow> distinct ys \<Longrightarrow> set xs = set ys \<Longrightarrow> sort xs = sort (ys :: string list)"
  by (metis sorted_list_of_set_sort_remdups distinct_remdups_id)

lemma oget_zip_map:
  "oget (zip (okeys es) (map f (ovalues es))) k = (case map_of es k of None \<Rightarrow> JUndef | Some v \<Rightarrow> f v)"
  by (induction es) (auto simp: oget_def)

lemma canonical_respects:
  assumes "distinct (okeys a)" "distinct (okeys b)" "map_of a = map_of b"
  shows "canonical (JObj a) = canonical (JObj b)"
proof -
  have "set (okeys a) = set (okeys b)"
    using assms(3) by (metis dom_map_of_conv_image_fst list.set_map)
  then have "sort (okeys a) = sort (okeys b)" using assms(1,2) by (rule sort_same_set [rotated 2])
  then show ?thesis using assms(3) by (simp only: canonical.simps oget_zip_map)
qed

section \<open>Through a text and back\<close>

lemma written_down_defined [simp]: "written_down v \<noteq> JUndef"
  by (cases v) simp_all

definition kept_fields :: "obj \<Rightarrow> obj" where
  "kept_fields es = filter (\<lambda>(k, v). oget es k \<noteq> JUndef) (zip (okeys es) (map written_down (ovalues es)))"

lemma written_down_JObj: "written_down (JObj es) = JObj (kept_fields es)"
  by (simp add: kept_fields_def)

lemma okeys_kept_fields: "okeys (kept_fields es) = filter (\<lambda>k. oget es k \<noteq> JUndef) (okeys es)"
proof -
  have "map fst (filter (\<lambda>(k, v). P k) (zip ks vs)) = filter P ks" if "length ks = length vs"
    for P and ks :: "string list" and vs :: "jsval list"
    using that by (induction ks vs rule: list_induct2) auto
  then show ?thesis by (simp add: kept_fields_def)
qed

lemma oget_kept_fields: "oget (kept_fields es) k = (if oget es k = JUndef then JUndef else written_down (oget es k))"
proof -
  have f: "map_of (filter (\<lambda>(k, v). P k) zs) k = (if P k then map_of zs k else None)"
    for P :: "string \<Rightarrow> bool" and zs :: obj by (induction zs) auto
  have "map_of (zip (okeys es) (map written_down (ovalues es))) k = map_option written_down (map_of es k)"
    by (induction es) auto
  then show ?thesis by (auto simp: oget_def kept_fields_def f split: option.splits)
qed

lemma canon_keys_kept_fields: "canon_keys (okeys es) \<Longrightarrow> canon_keys (okeys (kept_fields es))"
  by (simp add: okeys_kept_fields canon_keys_filter)

lemma ovalues_kept_fields: "v \<in> set (ovalues (kept_fields es)) \<Longrightarrow> \<exists>u \<in> set (ovalues es). v = written_down u"
  by (auto simp: kept_fields_def ovalues_def dest!: set_zip_rightD)

lemma written_down_idem [simp]: "written_down (written_down v) = written_down v"
proof (induction v)
  case (Obj es)
  have d: "oget (kept_fields es) k \<noteq> JUndef" if "k \<in> set (okeys (kept_fields es))" for k
    using that by (auto simp: oget_kept_fields okeys_kept_fields)
  have v: "map written_down (ovalues (kept_fields es)) = ovalues (kept_fields es)"
    using ovalues_kept_fields [of _ es] Obj by (intro map_idI) auto
  have "kept_fields (kept_fields es)
      = filter (\<lambda>(k, v). oget (kept_fields es) k \<noteq> JUndef) (zip (okeys (kept_fields es)) (ovalues (kept_fields es)))"
    by (subst kept_fields_def) (simp only: v)
  also have "\<dots> = filter (\<lambda>(k, v). oget (kept_fields es) k \<noteq> JUndef) (kept_fields es)"
    by (simp add: ovalues_def zip_map_fst_snd)
  also have "\<dots> = kept_fields es"
    using d by (intro filter_True) (force simp: image_iff)
  finally have "kept_fields (kept_fields es) = kept_fields es" .
  then show ?case by (simp only: written_down_JObj)
qed simp_all

end
