(* ===== verification/BoardBlocks.thy ===== *)
theory BoardBlocks
  imports BoardUnits JsJson "HOL-Library.AList"
begin

text \<open>
  Blocks (\<^verbatim>\<open>hkp-frontend/src/runtime/board/blocks.ts\<close>): a sub-service defined once in a board and
  used wherever a pipeline names it.  Expansion puts the service a use stands for in its place and
  keeps a linkage; collapsing writes the uses back.  Uses and definitions are the objects they are
  in the document; a placement and a linkage are the records the module builds.  A document's name
  is taken not to be one that every JavaScript object inherits.
\<close>

section \<open>Vocabulary\<close>

datatype PathStep = Key string | Index nat | Id string

record PlacedBlock =
  pb_key :: string
  pb_runtimeId :: string
  pb_path :: "PathStep list"
  pb_address :: string
  pb_id :: string
  pb_use :: obj
  pb_parent :: "string option"
  pb_document :: string

record BlockLinkage =
  definitions :: "(string \<times> obj list) list"
  placed :: "PlacedBlock list"
  editing :: "string option"

definition USE_KEYS :: "string list" where
  "USE_KEYS = [''block'', ''instanceId'', ''uuid'', ''serviceName'', ''params'']"

definition isBlockUse :: "jsval \<Rightarrow> bool" where
  "isBlockUse v =
     (case v of
        JObj es \<Rightarrow> is_str (oget es ''block'') \<and> list_all (\<lambda>key. key \<in> set USE_KEYS) (okeys es)
      | _ \<Rightarrow> False)"

definition entryId :: "jsval \<Rightarrow> string option" where
  "entryId v =
     (case field v ''instanceId'' of
        JStr instanceId \<Rightarrow> Some instanceId
      | _ \<Rightarrow> (case field v ''uuid'' of JStr uuid \<Rightarrow> Some uuid | _ \<Rightarrow> None))"

fun step_text :: "PathStep \<Rightarrow> string" where
  "step_text (Key k) = json_quote k"
| "step_text (Index n) = show_nat n"
| "step_text (Id i) = ''{'' @ json_quote ''id'' @ '':'' @ json_quote i @ ''}''"

definition pathKey :: "PathStep list \<Rightarrow> string" where
  "pathKey path = ''['' @ join_with '','' (map step_text path) @ '']''"

fun step_id :: "PathStep \<Rightarrow> string option" where
  "step_id (Id i) = Some i"
| "step_id _ = None"

definition addressOf :: "PathStep list \<Rightarrow> string" where
  "addressOf path = join_with ''.'' (List.map_filter step_id (drop 1 path))"

definition is_id_char :: "char \<Rightarrow> bool" where
  "is_id_char c = (is_upper c \<or> is_lower c \<or> is_digit c \<or> c = CHR ''_'' \<or> c = CHR ''-'')"

definition freshBase :: "string \<Rightarrow> string" where
  "freshBase block =
     (let base = replace_with (run_of (\<lambda>c. \<not> is_id_char c)) (\<lambda>_ _. ''-'') block
      in if base = [] then ''block'' else base)"

text \<open>The id, and \<^verbatim>\<open>taken\<close> with it added.\<close>

definition freshId :: "string \<Rightarrow> string list \<Rightarrow> string \<times> string list" where
  "freshId block taken =
     (let candidate = first_free (freshBase block) taken 1 in (candidate, taken @ [candidate]))"

definition def_id :: "obj \<Rightarrow> string" where
  "def_id definition = to_str (oget definition ''id'')"

definition useBlock :: "obj \<Rightarrow> string" where
  "useBlock use = to_str (oget use ''block'')"

definition nameOfUse :: "obj \<Rightarrow> obj \<Rightarrow> jsval" where
  "nameOfUse definition use =
     or_else (oget use ''serviceName'') (or_else (oget definition ''serviceName'') (oget definition ''name''))"

definition LEGACY_SERVICE_PREFIX :: string where
  "LEGACY_SERVICE_PREFIX = ''hookup.to/service/''"

definition toCanonicalServiceId :: "string \<Rightarrow> string" where
  "toCanonicalServiceId serviceId =
     (if starts_with LEGACY_SERVICE_PREFIX serviceId
      then drop (length LEGACY_SERVICE_PREFIX) serviceId else serviceId)"

definition SUB_SERVICE_DEFAULTS :: obj where
  "SUB_SERVICE_DEFAULTS =
     [(''mode'', JStr ''pipeline''), (''stopPropagation'', JBool False),
      (''scope'', JObj [(''slots'', JStr ''own'')])]"

section \<open>Expansion\<close>

definition useParams :: "obj \<Rightarrow> obj \<Rightarrow> obj" where
  "useParams definition use =
     ospread (from_entries (js_obj (oget definition ''params''))) (js_obj (oget use ''params''))"

definition instantiate :: "obj \<Rightarrow> obj \<Rightarrow> string \<Rightarrow> bool \<Rightarrow> string list \<Rightarrow> obj \<times> string list" where
  "instantiate definition use i topLevel missing =
     (let (state, missing') = substituteParams (useParams definition use) (oget definition ''state'') missing
      in (from_entries
            [(if topLevel then ''uuid'' else ''instanceId'', JStr i),
             (''serviceId'', oget definition ''serviceId''),
             (''serviceName'', nameOfUse definition use),
             (''state'',
              if toCanonicalServiceId (to_str (oget definition ''serviceId'')) = ''sub-service''
              then JObj (ospread SUB_SERVICE_DEFAULTS (js_obj state)) else state)],
          missing'))"

record Expansion =
  out_placed :: "PlacedBlock list"
  out_diagnostics :: "Diagnostic list"
  out_calls :: nat

record Context =
  ctx_runtimeId :: string
  ctx_document :: string
  ctx_definitions :: "obj list"

text \<open>\<^verbatim>\<open>definitionMap(definitions).get(id)\<close>: a \<^verbatim>\<open>Map\<close> built from entries holds the last one of a key.\<close>

definition definitionMap :: "obj list \<Rightarrow> string \<rightharpoonup> obj" where
  "definitionMap defs = map_of (rev (map (\<lambda>definition. (def_id definition, definition)) defs))"

definition blockDiagnostic :: "level \<Rightarrow> string \<Rightarrow> string \<Rightarrow> string \<Rightarrow> string \<Rightarrow> Diagnostic" where
  "blockDiagnostic l code document block message =
     (diagnostic l code (if document \<noteq> [] then Some document else None) message)\<lparr>d_block := Some block\<rparr>"

definition report :: "Diagnostic list \<Rightarrow> Expansion \<Rightarrow> Expansion" where
  "report ds out = out\<lparr>out_diagnostics := out_diagnostics out @ ds\<rparr>"

definition undeclaredParams :: "string \<Rightarrow> obj \<Rightarrow> obj \<Rightarrow> Diagnostic list" where
  "undeclaredParams document definition use =
     map (\<lambda>name. blockDiagnostic Warning ''block-param-undeclared'' document (def_id definition)
            (''A use of block \"'' @ def_id definition @ ''\" passes \"'' @ name
             @ ''\", which the block does not declare.''))
       (filter (\<lambda>name. \<not> js_in name (js_obj (oget definition ''params''))) (okeys (js_obj (oget use ''params''))))"

definition missingParams :: "string \<Rightarrow> obj \<Rightarrow> string list \<Rightarrow> Diagnostic list" where
  "missingParams document definition missing =
     map (\<lambda>name. blockDiagnostic Warning ''block-param-missing'' document (def_id definition)
            (''Block \"'' @ def_id definition @ ''\" refers to parameter \"'' @ name
             @ ''\", which has no value; the reference is left in place.''))
       missing"

text \<open>A use with the values its definition asks to be made, and the count of calls after.\<close>

definition useWithMade :: "(nat \<Rightarrow> 8 word list) \<Rightarrow> obj \<Rightarrow> obj \<Rightarrow> nat \<Rightarrow> obj \<times> nat" where
  "useWithMade rng definition use calls =
     (let (made, calls') = generatedParams rng (useParams definition use) calls []
      in (if made \<noteq> [] then oput ''params'' (JObj (ospread (from_entries (js_obj (oget use ''params''))) made)) use
          else use,
          calls'))"

text \<open>
  \<^verbatim>\<open>expandUse\<close> up to the walk of the instance's state: either the use is refused and stays, or it is
  placed, and what is left is to expand inside the instance.  (The arrow in the message of a cycle,
  which is outside the character type, is written \<^verbatim>\<open>->\<close>.)
\<close>

record Instance =
  in_service :: obj
  in_definition :: string
  in_path :: "PathStep list"
  in_out :: Expansion

definition placeUse ::
  "(nat \<Rightarrow> 8 word list) \<Rightarrow> Context \<Rightarrow> obj \<Rightarrow> string \<Rightarrow> PathStep list \<Rightarrow> string list \<Rightarrow> string option \<Rightarrow> Expansion
     \<Rightarrow> (jsval \<times> Expansion) + Instance" where
  "placeUse rng ctx use i arrayPath stack parent out =
     (case definitionMap (ctx_definitions ctx) (useBlock use) of
        None \<Rightarrow>
          Inl (JObj use,
            report [blockDiagnostic Error ''block-unknown'' (ctx_document ctx) (useBlock use)
              (''No block \"'' @ useBlock use @ ''\" is defined in this board.'')] out)
      | Some definition \<Rightarrow>
          if def_id definition \<in> set stack then
            Inl (JObj use,
              report [blockDiagnostic Error ''block-cycle'' (ctx_document ctx) (def_id definition)
                (''Block \"'' @ def_id definition @ ''\" uses itself: ''
                 @ join_with '' -> '' (stack @ [def_id definition]) @ ''.'')] out)
          else
            (let out1 = report (undeclaredParams (ctx_document ctx) definition use) out;
                 (use', calls) = useWithMade rng definition use (out_calls out1);
                 (service, missing) = instantiate definition use' i (length arrayPath = 1) [];
                 out2 = report (missingParams (ctx_document ctx) definition missing) (out1\<lparr>out_calls := calls\<rparr>);
                 path = arrayPath @ [Id i]
             in Inr \<lparr>in_service = service, in_definition = def_id definition, in_path = path,
                     in_out = out2\<lparr>out_placed := out_placed out2 @
                       [\<lparr>pb_key = pathKey path, pb_runtimeId = ctx_runtimeId ctx, pb_path = path,
                         pb_address = addressOf path, pb_id = i, pb_use = use', pb_parent = parent,
                         pb_document = ctx_document ctx\<rparr>]\<rparr>\<rparr>))"

definition stepTo :: "jsval \<Rightarrow> nat \<Rightarrow> PathStep" where
  "stepTo element index = (case entryId element of Some i \<Rightarrow> if i \<noteq> [] then Id i else Index index | None \<Rightarrow> Index index)"

definition idOfUse :: "obj \<Rightarrow> string list \<Rightarrow> string \<times> string list" where
  "idOfUse use taken =
     (let given = or_else (oget use ''instanceId'') (oget use ''uuid'')
      in if nullish given then freshId (useBlock use) taken else (to_str given, taken))"

definition takenIds :: "jsval list \<Rightarrow> string list" where
  "takenIds xs = filter (\<lambda>i. i \<noteq> []) (List.map_filter entryId xs)"

definition usesHere :: "Context \<Rightarrow> PathStep list \<Rightarrow> bool" where
  "usesHere ctx path = (length path = 1 \<or> ctx_definitions ctx \<noteq> [])"

lemma placeUse_Inr:
  "placeUse rng ctx use i arrayPath stack parent out = Inr inst \<Longrightarrow>
     in_definition inst \<in> set (map def_id (ctx_definitions ctx)) \<and> in_definition inst \<notin> set stack"
proof -
  assume a: "placeUse rng ctx use i arrayPath stack parent out = Inr inst"
  then obtain d where d: "definitionMap (ctx_definitions ctx) (useBlock use) = Some d" "in_definition inst = def_id d"
      "def_id d \<notin> set stack"
    by (auto simp: placeUse_def Let_def split: option.splits if_splits prod.splits)
  have "d \<in> set (ctx_definitions ctx)"
    using d(1) by (auto simp: definitionMap_def dest!: map_of_SomeD)
  then show ?thesis using d by simp
qed

lemma size_enumerated [termination_simp]: "(n, x) \<in> set (enumerate k xs) \<Longrightarrow> size x < Suc (size_list size xs)"
  by (rule size_list_mem) (auto simp: in_set_enumerate_eq)

lemma size_entry [termination_simp]: "((k :: string), v) \<in> set es \<Longrightarrow> size v < Suc (size_list (size_prod (\<lambda>_. 0) size) es)"
  by (rule size_value_mem) (rule ovalues_memI)

text \<open>
  The two mutually recursive loops.  They end because a use is only expanded where its definition
  is not being expanded already: \<open>stack\<close> grows by a definition of the document it does not hold.
\<close>

function (sequential) expandUse ::
    "(nat \<Rightarrow> 8 word list) \<Rightarrow> Context \<Rightarrow> obj \<Rightarrow> string \<Rightarrow> PathStep list \<Rightarrow> string list \<Rightarrow> string option \<Rightarrow> Expansion
       \<Rightarrow> jsval \<times> Expansion"
  and walk ::
    "(nat \<Rightarrow> 8 word list) \<Rightarrow> Context \<Rightarrow> jsval \<Rightarrow> PathStep list \<Rightarrow> string list \<Rightarrow> string option \<Rightarrow> Expansion
       \<Rightarrow> jsval \<times> Expansion" where
  "expandUse rng ctx use i arrayPath stack parent out =
     (case placeUse rng ctx use i arrayPath stack parent out of
        Inl result \<Rightarrow> result
      | Inr inst \<Rightarrow>
          (let (state, out') =
             walk rng ctx (oget (in_service inst) ''state'') (in_path inst @ [Key ''state''])
               (stack @ [in_definition inst]) (Some (pathKey (in_path inst))) (in_out inst)
           in (JObj (oput ''state'' state (in_service inst)), out')))"
| "walk rng ctx (JArr xs) path stack parent out =
     (let (ys, _, out') =
        map_state
          (\<lambda>(index, element) (taken, out).
             if usesHere ctx path \<and> isBlockUse element then
               (let (i, taken') = idOfUse (js_obj element) taken;
                    (v, out') = expandUse rng ctx (js_obj element) i path stack parent out
                in (v, taken', out'))
             else
               (let (v, out') = walk rng ctx element (path @ [stepTo element index]) stack parent out
                in (v, taken, out')))
          (enumerate 0 xs) (takenIds xs, out)
      in (JArr ys, out'))"
| "walk rng ctx (JObj es) path stack parent out =
     (let (vs, out') =
        map_state (\<lambda>(key, inner) out. walk rng ctx inner (path @ [Key key]) stack parent out) es out
      in (JObj (from_entries (zip (okeys es) vs)), out'))"
| "walk rng ctx v path stack parent out = (v, out)"
  by pat_completeness auto
termination
proof (relation "inv_image (less_than <*lex*> less_than)
    (\<lambda>x. case x of
       Inl (rng, ctx, use, i, arrayPath, stack, parent, out) \<Rightarrow>
         (card (set (map def_id (ctx_definitions ctx)) - set stack), 0)
     | Inr (rng, ctx, v, path, stack, parent, out) \<Rightarrow>
         (card (set (map def_id (ctx_definitions ctx)) - set stack), size v))")
  fix rng ctx use i arrayPath stack parent out inst
  assume "placeUse rng ctx use i arrayPath stack parent out = Inr inst"
  from placeUse_Inr [OF this]
  have "card (set (map def_id (ctx_definitions ctx)) - set (stack @ [in_definition inst]))
      < card (set (map def_id (ctx_definitions ctx)) - set stack)"
    by (intro psubset_card_mono) auto
  then show "(Inr (rng, ctx, oget (in_service inst) ''state'', in_path inst @ [Key ''state''],
        stack @ [in_definition inst], Some (pathKey (in_path inst)), in_out inst),
      Inl (rng, ctx, use, i, arrayPath, stack, parent, out))
    \<in> inv_image (less_than <*lex*> less_than)
    (\<lambda>x. case x of
       Inl (rng, ctx, use, i, arrayPath, stack, parent, out) \<Rightarrow>
         (card (set (map def_id (ctx_definitions ctx)) - set stack), 0)
     | Inr (rng, ctx, v, path, stack, parent, out) \<Rightarrow>
         (card (set (map def_id (ctx_definitions ctx)) - set stack), size v))"
    by simp
qed (auto dest: size_enumerated size_entry)


declare expandUse.simps [simp del] walk.simps [simp del]

lemmas walk_simps = walk.simps

fun checkDefinitions :: "string \<Rightarrow> obj list \<Rightarrow> string list \<Rightarrow> Diagnostic list" where
  "checkDefinitions document [] seen = []"
| "checkDefinitions document (definition # rest) seen =
     (if def_id definition \<in> set seen then
        [blockDiagnostic Error ''block-duplicate'' document (def_id definition)
          (''Block \"'' @ def_id definition @ ''\" is defined more than once.'')]
      else [])
     @ map (\<lambda>name. blockDiagnostic Warning ''block-param-undeclared'' document (def_id definition)
              (''Block \"'' @ def_id definition @ ''\" refers to parameter \"'' @ name @ ''\" without declaring it.''))
         (filter (\<lambda>name. \<not> js_in name (js_obj (oget definition ''params'')))
            (referencedParams (oget definition ''state'') []))
     @ checkDefinitions document rest (set_add (def_id definition) seen)"

definition definitionsOf :: "(string \<times> obj list) list \<Rightarrow> string \<Rightarrow> obj list" where
  "definitionsOf defs document = (case map_of defs document of Some list \<Rightarrow> list | None \<Rightarrow> [])"

definition contextFor :: "(string \<times> obj list) list \<Rightarrow> string \<Rightarrow> string \<Rightarrow> Context" where
  "contextFor defs runtimeId document =
     \<lparr>ctx_runtimeId = runtimeId, ctx_document = document, ctx_definitions = definitionsOf defs document\<rparr>"

definition expandBlocks ::
  "(nat \<Rightarrow> 8 word list) \<Rightarrow> obj \<Rightarrow> (string \<times> obj list) list \<Rightarrow> (string \<Rightarrow> string) \<Rightarrow> nat \<Rightarrow> obj \<times> Expansion" where
  "expandBlocks rng services defs documentOf calls =
     (let out = \<lparr>out_placed = [],
                 out_diagnostics = concat (map (\<lambda>(document, list). checkDefinitions document list []) defs),
                 out_calls = calls\<rparr>;
          (expanded, out') =
            map_state
              (\<lambda>(runtimeId, list) out.
                 walk rng (contextFor defs runtimeId (documentOf runtimeId)) list [Key runtimeId] [] None out)
              services out
      in (from_entries (zip (okeys services) expanded), out'))"

section \<open>Reading a linkage\<close>

definition outermostUses :: "BlockLinkage \<Rightarrow> PlacedBlock list" where
  "outermostUses linkage =
     (let keys = map pb_key (placed linkage)
      in filter (\<lambda>p. case pb_parent p of None \<Rightarrow> True | Some parent \<Rightarrow> parent = [] \<or> parent \<notin> set keys)
           (placed linkage))"

definition blockUseAt :: "BlockLinkage option \<Rightarrow> string \<Rightarrow> string option \<Rightarrow> PlacedBlock option" where
  "blockUseAt linkage address runtimeId =
     (case linkage of
        None \<Rightarrow> None
      | Some l \<Rightarrow>
          find (\<lambda>p. pb_address p = address \<and>
                  (case runtimeId of None \<Rightarrow> True | Some r \<Rightarrow> r = [] \<or> pb_runtimeId p = r))
            (placed l))"

definition blockUseContaining :: "BlockLinkage option \<Rightarrow> string \<Rightarrow> string option \<Rightarrow> PlacedBlock option" where
  "blockUseContaining linkage address runtimeId =
     (case linkage of
        None \<Rightarrow> None
      | Some l \<Rightarrow>
          find (\<lambda>p. Some (pb_key p) \<noteq> editing l \<and> pb_address p \<noteq> [] \<and>
                  starts_with (pb_address p @ ''.'') address \<and>
                  (case runtimeId of None \<Rightarrow> True | Some r \<Rightarrow> r = [] \<or> pb_runtimeId p = r))
            (placed l))"

text \<open>One pass of the loop of \<^verbatim>\<open>descendantsOf\<close>, and the passes until nothing is added.\<close>

definition descendantPass :: "string \<Rightarrow> PlacedBlock list \<Rightarrow> string list \<Rightarrow> string list" where
  "descendantPass key entries found =
     fold (\<lambda>p found.
             case pb_parent p of
               None \<Rightarrow> found
             | Some parent \<Rightarrow>
                 if parent \<noteq> [] \<and> (parent = key \<or> parent \<in> set found) \<and> pb_key p \<notin> set found
                 then found @ [pb_key p] else found)
       entries found"

lemma descendantPass_grows:
  "set (descendantPass key entries found) \<subseteq> set found \<union> set (map pb_key entries) \<and>
   (descendantPass key entries found = found \<or> set found \<subset> set (descendantPass key entries found))"
  unfolding descendantPass_def
proof (induction entries arbitrary: found)
  case (Cons p entries)
  let ?found' = "case pb_parent p of None \<Rightarrow> found
      | Some parent \<Rightarrow> if parent \<noteq> [] \<and> (parent = key \<or> parent \<in> set found) \<and> pb_key p \<notin> set found
                       then found @ [pb_key p] else found"
  have "?found' = found \<or> (?found' = found @ [pb_key p] \<and> pb_key p \<notin> set found)"
    by (auto split: option.splits)
  then show ?case using Cons.IH [of ?found'] by auto
qed simp

function descendants :: "string \<Rightarrow> PlacedBlock list \<Rightarrow> string list \<Rightarrow> string list" where
  "descendants key entries found =
     (let found' = descendantPass key entries found
      in if found' = found then found else descendants key entries found')"
  by pat_completeness auto
termination
proof (relation "measure (\<lambda>(key, entries, found). card (set (map pb_key entries) - set found))")
  fix key entries found found'
  assume "found' = descendantPass key entries found" "found' \<noteq> found"
  then have "set found \<subset> set found'" "set found' \<subseteq> set found \<union> set (map pb_key entries)"
    using descendantPass_grows [of key entries found] by auto
  then have "set (map pb_key entries) - set found' \<subset> set (map pb_key entries) - set found" by auto
  then show "((key, entries, found'), key, entries, found)
      \<in> measure (\<lambda>(key, entries, found). card (set (map pb_key entries) - set found))"
    by (simp add: psubset_card_mono)
qed simp

declare descendants.simps [simp del]


definition byKey :: "PlacedBlock list \<Rightarrow> string \<rightharpoonup> PlacedBlock" where
  "byKey entries = map_of (rev (map (\<lambda>p. (pb_key p, p)) entries))"

definition parentOf :: "PlacedBlock list \<Rightarrow> PlacedBlock \<Rightarrow> PlacedBlock option" where
  "parentOf entries p =
     (case pb_parent p of None \<Rightarrow> None | Some parent \<Rightarrow> if parent = [] then None else byKey entries parent)"

text \<open>
  The chain of the placements a placement sits in, from the inside out.  A chain that comes back to
  itself would not end in the code; here it is cut after as many steps as there are placements.
\<close>

fun chainUp :: "nat \<Rightarrow> PlacedBlock list \<Rightarrow> PlacedBlock \<Rightarrow> PlacedBlock list" where
  "chainUp 0 entries p = []"
| "chainUp (Suc n) entries p =
     (case parentOf entries p of None \<Rightarrow> [] | Some up \<Rightarrow> up # chainUp n entries up)"

definition ancestorBlocks :: "BlockLinkage \<Rightarrow> PlacedBlock \<Rightarrow> string list" where
  "ancestorBlocks linkage p =
     rev (map (\<lambda>up. useBlock (pb_use up)) (chainUp (length (placed linkage)) (placed linkage) p))"

section \<open>Changing a linkage\<close>

datatype BlockError = NoUsePlaced string | InsideAnotherUse string | NoEntryId | BlockExists string

record Reinstantiated =
  re_linkage :: BlockLinkage
  re_service :: jsval
  re_diagnostics :: "Diagnostic list"

definition descendantsOf :: "PlacedBlock list \<Rightarrow> string \<Rightarrow> string list" where
  "descendantsOf entries key = descendants key entries []"

definition withUseParams ::
  "(nat \<Rightarrow> 8 word list) \<Rightarrow> nat \<Rightarrow> BlockLinkage \<Rightarrow> string \<Rightarrow> obj \<Rightarrow> BlockError + Reinstantiated" where
  "withUseParams rng calls linkage key params =
     (case find (\<lambda>p. pb_key p = key) (placed linkage) of
        None \<Rightarrow> Inl (NoUsePlaced key)
      | Some p \<Rightarrow>
          (let replaced = set_add key (descendantsOf (placed linkage) key);
               ctx = contextFor (definitions linkage) (pb_runtimeId p) (pb_document p);
               use = oput ''params'' (JObj params) (pb_use p);
               (service, out) =
                 expandUse rng ctx use (pb_id p) (butlast (pb_path p)) (ancestorBlocks linkage p) (pb_parent p)
                   \<lparr>out_placed = [], out_diagnostics = [], out_calls = calls\<rparr>
           in Inr \<lparr>re_linkage = linkage\<lparr>placed :=
                      filter (\<lambda>q. pb_key q \<notin> set replaced) (placed linkage) @ out_placed out\<rparr>,
                   re_service = service, re_diagnostics = out_diagnostics out\<rparr>))"

definition detachUse :: "BlockLinkage \<Rightarrow> string \<Rightarrow> BlockError + BlockLinkage" where
  "detachUse linkage key =
     (case find_index (\<lambda>p. pb_key p = key) (placed linkage) of
        None \<Rightarrow> Inl (NoUsePlaced key)
      | Some i \<Rightarrow>
          (let p = placed linkage ! i
           in if p \<notin> set (outermostUses linkage) then Inl (InsideAnotherUse (pb_address p))
              else Inr (linkage\<lparr>placed := take i (placed linkage) @ drop (Suc i) (placed linkage)\<rparr>)))"


section \<open>Places in the running services\<close>

text \<open>
  \<^verbatim>\<open>locate\<close> follows a path; an id is looked for in the array it stands in.  What it returns is the
  same path with every id replaced by the position it was found at, so that the place can be read
  and written.
\<close>

definition child :: "jsval \<Rightarrow> PathStep \<Rightarrow> jsval" where
  "child v s =
     (case s of
        Key k \<Rightarrow>
          (case v of
             JArr xs \<Rightarrow> (case index_key k of Some i \<Rightarrow> if i < length xs then xs ! i else JUndef | None \<Rightarrow> JUndef)
           | _ \<Rightarrow> field v k)
      | Index i \<Rightarrow>
          (case v of
             JArr xs \<Rightarrow> if i < length xs then xs ! i else JUndef
           | _ \<Rightarrow> field v (show_nat i))
      | Id _ \<Rightarrow> JUndef)"

definition resolveStep :: "jsval \<Rightarrow> PathStep \<Rightarrow> PathStep option" where
  "resolveStep current s =
     (case s of
        Id i \<Rightarrow>
          (case current of
             JArr xs \<Rightarrow> map_option Index (find_index (\<lambda>element. entryId element = Some i) xs)
           | _ \<Rightarrow> None)
      | _ \<Rightarrow> (case current of JArr _ \<Rightarrow> Some s | JObj _ \<Rightarrow> Some s | _ \<Rightarrow> None))"

fun locateFrom :: "jsval \<Rightarrow> PathStep list \<Rightarrow> PathStep list option" where
  "locateFrom current [] = Some []"
| "locateFrom current (s # path) =
     (case resolveStep current s of
        None \<Rightarrow> None
      | Some r \<Rightarrow> map_option ((#) r) (locateFrom (child current r) path))"

definition locate :: "jsval \<Rightarrow> PathStep list \<Rightarrow> PathStep list option" where
  "locate root path = (if path = [] then None else locateFrom root path)"

fun readAt :: "jsval \<Rightarrow> PathStep list \<Rightarrow> jsval" where
  "readAt v [] = v"
| "readAt v (s # path) = readAt (child v s) path"

text \<open>Writing a position past the end of an array leaves holes, which read as absent.\<close>

definition putIndex :: "nat \<Rightarrow> jsval \<Rightarrow> jsval list \<Rightarrow> jsval list" where
  "putIndex i v xs = (if i < length xs then xs[i := v] else xs @ replicate (i - length xs) JUndef @ [v])"

definition putChild :: "jsval \<Rightarrow> PathStep \<Rightarrow> jsval \<Rightarrow> jsval" where
  "putChild v s new =
     (case v of
        JArr xs \<Rightarrow>
          (case s of
             Index i \<Rightarrow> JArr (putIndex i new xs)
           | Key k \<Rightarrow> (case index_key k of Some i \<Rightarrow> JArr (putIndex i new xs) | None \<Rightarrow> v)
           | Id _ \<Rightarrow> v)
      | JObj es \<Rightarrow>
          (case s of
             Key k \<Rightarrow> JObj (oput k new es)
           | Index i \<Rightarrow> JObj (oput (show_nat i) new es)
           | Id _ \<Rightarrow> v)
      | _ \<Rightarrow> v)"

fun writeAt :: "jsval \<Rightarrow> PathStep list \<Rightarrow> jsval \<Rightarrow> jsval" where
  "writeAt v [] new = new"
| "writeAt v (s # path) new = putChild v s (writeAt (child v s) path new)"

section \<open>Saving\<close>

definition useRenamed :: "obj option \<Rightarrow> jsval \<Rightarrow> obj \<Rightarrow> bool" where
  "useRenamed definition running use =
     (case definition of
        None \<Rightarrow> False
      | Some d \<Rightarrow> is_str (field running ''serviceName'') \<and> field running ''serviceName'' \<noteq> nameOfUse d use)"

definition collapseUse :: "BlockLinkage \<Rightarrow> PlacedBlock \<Rightarrow> jsval \<Rightarrow> jsval" where
  "collapseUse linkage p collapsed =
     (case locate collapsed (pb_path p) of
        None \<Rightarrow> collapsed
      | Some at \<Rightarrow>
          (let running = readAt collapsed at;
               definition = definitionMap (definitionsOf (definitions linkage) (pb_document p)) (useBlock (pb_use p))
           in writeAt collapsed at
                (if useRenamed definition running (pb_use p)
                 then JObj (oput ''serviceName'' (field running ''serviceName'') (pb_use p))
                 else JObj (pb_use p))))"

definition collapseBlocks :: "jsval \<Rightarrow> BlockLinkage \<Rightarrow> string list option \<Rightarrow> jsval" where
  "collapseBlocks services linkage documents =
     fold (\<lambda>p collapsed.
             if (case documents of None \<Rightarrow> False | Some ds \<Rightarrow> pb_document p \<notin> set ds) then collapsed
             else collapseUse linkage p collapsed)
       (outermostUses linkage) (deepClone services)"

text \<open>\<^verbatim>\<open>search\<close>: an entry before what is inside it, in document order.\<close>

fun searchEntry :: "string \<Rightarrow> jsval \<Rightarrow> PathStep list \<Rightarrow> PathStep list option" where
  "searchEntry address (JArr xs) path =
     first_some
       (\<lambda>(index, element).
          let here = path @ [stepTo element index]
          in if (case entryId element of None \<Rightarrow> False | Some i \<Rightarrow> i \<noteq> []) \<and> addressOf here = address
             then Some here else searchEntry address element here)
       (enumerate 0 xs)"
| "searchEntry address (JObj es) path =
     first_some (\<lambda>(key, inner). searchEntry address inner (path @ [Key key])) es"
| "searchEntry address _ path = None"

definition findEntryPath :: "obj \<Rightarrow> string \<Rightarrow> string option \<Rightarrow> PathStep list option" where
  "findEntryPath services address runtimeId =
     first_some
       (\<lambda>(i, list).
          if (case runtimeId of None \<Rightarrow> False | Some r \<Rightarrow> r \<noteq> [] \<and> i \<noteq> r) then None
          else searchEntry address list [Key i])
       services"

section \<open>New uses and definitions\<close>

definition withNewUse ::
  "(nat \<Rightarrow> 8 word list) \<Rightarrow> nat \<Rightarrow> BlockLinkage \<Rightarrow> string \<Rightarrow> string \<Rightarrow> PathStep list \<Rightarrow> obj \<Rightarrow> string \<Rightarrow> Reinstantiated" where
  "withNewUse rng calls linkage runtimeId document arrayPath use i =
     (let ctx = contextFor (definitions linkage) runtimeId document;
          (service, out) = expandUse rng ctx use i arrayPath [] None
            \<lparr>out_placed = [], out_diagnostics = [], out_calls = calls\<rparr>
      in \<lparr>re_linkage = linkage\<lparr>placed := placed linkage @ out_placed out\<rparr>,
          re_service = service, re_diagnostics = out_diagnostics out\<rparr>)"

definition definitionContent :: "obj \<Rightarrow> string" where
  "definitionContent definition = json_text (canonical (JObj (omit [''id'', ''preset'', ''origin''] definition)))"

definition findSameDefinition :: "obj list \<Rightarrow> obj \<Rightarrow> obj option" where
  "findSameDefinition defs definition = find (\<lambda>entry. definitionContent entry = definitionContent definition) defs"

definition emptyLinkage :: BlockLinkage where
  "emptyLinkage = \<lparr>definitions = [], placed = [], editing = None\<rparr>"

definition linkageOr :: "BlockLinkage option \<Rightarrow> BlockLinkage" where
  "linkageOr linkage = (case linkage of Some l \<Rightarrow> l | None \<Rightarrow> emptyLinkage)"

definition freeDefinitionId :: "string \<Rightarrow> string list \<Rightarrow> string" where
  "freeDefinitionId i taken = (if i \<in> set taken then first_free i taken 2 else i)"

definition withAdoptedDefinition :: "BlockLinkage option \<Rightarrow> string \<Rightarrow> obj \<Rightarrow> BlockLinkage \<times> string" where
  "withAdoptedDefinition linkage document definition =
     (let current = linkageOr linkage;
          existing = definitionsOf (definitions current) document
      in case findSameDefinition existing definition of
           Some same \<Rightarrow> (current, def_id same)
         | None \<Rightarrow>
             (let copy = omit [''preset'', ''origin''] definition;
                  i = freeDefinitionId (def_id definition) (map def_id existing)
              in (current\<lparr>definitions := oput document (existing @ [oput ''id'' (JStr i) copy]) (definitions current)\<rparr>,
                  i)))"

definition withBlockFrom ::
  "BlockLinkage option \<Rightarrow> string \<Rightarrow> string \<Rightarrow> PathStep list \<Rightarrow> obj \<Rightarrow> BlockError + BlockLinkage" where
  "withBlockFrom linkage runtimeId document path definition =
     (let current = linkageOr linkage in
      case (if path = [] then None else step_id (last path)) of
        None \<Rightarrow> Inl NoEntryId
      | Some lastId \<Rightarrow>
          if def_id definition \<in> set (map def_id (definitionsOf (definitions current) document))
          then Inl (BlockExists (def_id definition))
          else
            (let key = pathKey path;
                 prefix = butlast key;
                 use = [(''block'', oget definition ''id''),
                        (if length path = 2 then ''uuid'' else ''instanceId'', JStr lastId)]
             in Inr \<lparr>definitions =
                       oput document (definitionsOf (definitions current) document @ [definition]) (definitions current),
                     placed =
                       map (\<lambda>entry.
                              if (case pb_parent entry of None \<Rightarrow> True | Some parent \<Rightarrow> parent = [])
                                 \<and> pb_runtimeId entry = runtimeId \<and> starts_with (prefix @ '','') (pb_key entry)
                              then entry\<lparr>pb_parent := Some key\<rparr> else entry)
                         (placed current)
                       @ [\<lparr>pb_key = key, pb_runtimeId = runtimeId, pb_path = path, pb_address = addressOf path,
                           pb_id = lastId, pb_use = use, pb_parent = None, pb_document = document\<rparr>],
                     editing = None\<rparr>))"

definition wrappedPath :: "string \<Rightarrow> string \<Rightarrow> PathStep list \<Rightarrow> PathStep list" where
  "wrappedPath runtimeId wrapperId path =
     [Key runtimeId, Id wrapperId, Key ''state'', Key ''pipeline''] @ drop 1 path"

text \<open>Whether a placement lies under one of the services being wrapped.\<close>

definition isMoved :: "string \<Rightarrow> string list \<Rightarrow> PlacedBlock \<Rightarrow> bool" where
  "isMoved runtimeId ids entry =
     (pb_runtimeId entry = runtimeId \<and>
      (case drop 1 (pb_path entry) of (Id first # _) \<Rightarrow> first \<in> set ids | _ \<Rightarrow> False))"

definition wrapEntry :: "string \<Rightarrow> string list \<Rightarrow> string \<Rightarrow> PlacedBlock \<Rightarrow> PlacedBlock" where
  "wrapEntry runtimeId ids wrapperId entry =
     (if isMoved runtimeId ids entry then
        let path = wrappedPath runtimeId wrapperId (pb_path entry)
        in entry\<lparr>pb_path := path, pb_key := pathKey path, pb_address := addressOf path\<rparr>
      else entry)"

definition renamedKeys :: "string \<Rightarrow> string list \<Rightarrow> string \<Rightarrow> PlacedBlock list \<Rightarrow> string \<rightharpoonup> string" where
  "renamedKeys runtimeId ids wrapperId entries =
     map_of (rev (map (\<lambda>entry. (pb_key entry, pathKey (wrappedPath runtimeId wrapperId (pb_path entry))))
                    (filter (isMoved runtimeId ids) entries)))"

definition withServicesWrapped :: "BlockLinkage \<Rightarrow> string \<Rightarrow> string list \<Rightarrow> string \<Rightarrow> BlockLinkage" where
  "withServicesWrapped linkage runtimeId ids wrapperId =
     (let renamed = renamedKeys runtimeId ids wrapperId (placed linkage);
          moved = map (wrapEntry runtimeId ids wrapperId) (placed linkage)
      in linkage
           \<lparr>placed :=
              map (\<lambda>entry.
                     case pb_parent entry of
                       None \<Rightarrow> entry
                     | Some parent \<Rightarrow>
                         if parent \<noteq> [] \<and> renamed parent \<noteq> None then entry\<lparr>pb_parent := renamed parent\<rparr> else entry)
                moved,
            editing :=
              (case editing linkage of
                 None \<Rightarrow> None
               | Some e \<Rightarrow> if e = [] then Some e else Some (case renamed e of Some k \<Rightarrow> k | None \<Rightarrow> e))\<rparr>)"

section \<open>Reading a definition off its working copy\<close>

fun paramSites :: "jsval \<Rightarrow> PathStep list \<Rightarrow> (PathStep list \<times> string) list" where
  "paramSites (JStr s) path = (if referencedParams (JStr s) [] \<noteq> [] then [(path, s)] else [])"
| "paramSites (JArr xs) path =
     concat (map (\<lambda>(index, element). paramSites element (path @ [stepTo element index])) (enumerate 0 xs))"
| "paramSites (JObj es) path =
     concat (map (\<lambda>(key, inner). paramSites inner (path @ [Key key])) es)"
| "paramSites _ path = []"

text \<open>\<^verbatim>\<open>Object.is\<close>; two objects are never the same one here, since the running state is a copy.\<close>

fun object_is :: "jsval \<Rightarrow> jsval \<Rightarrow> bool" where
  "object_is (JArr _) _ = False"
| "object_is (JObj _) _ = False"
| "object_is a b = (a = b)"

record WorkingCopy =
  wc_state :: jsval
  wc_params :: obj
  wc_warnings :: "string list"

definition restoreSite :: "obj \<Rightarrow> PathStep list \<times> string \<Rightarrow> WorkingCopy \<Rightarrow> WorkingCopy" where
  "restoreSite values site wc =
     (let (path, template) = site;
          dropped = wc\<lparr>wc_warnings := wc_warnings wc
            @ [''\"'' @ template @ ''\" no longer has a place in the block, and is dropped.'']\<rparr>
      in case locate (wc_state wc) path of
           None \<Rightarrow> dropped
         | Some at \<Rightarrow>
             (let current = readAt (wc_state wc) at in
              if current = JUndef then dropped
              else
                case WHOLE_PARAM template of
                  Some name \<Rightarrow>
                    (if object_is current (oget values name) then wc
                     else wc\<lparr>wc_params := oput name current (wc_params wc)\<rparr>)
                      \<lparr>wc_state := writeAt (wc_state wc) at (JStr template)\<rparr>
                | None \<Rightarrow>
                    if prim_eq current (fst (substituteParams values (JStr template) []))
                    then wc\<lparr>wc_state := writeAt (wc_state wc) at (JStr template)\<rparr>
                    else wc\<lparr>wc_warnings := wc_warnings wc
                      @ [''\"'' @ template @ ''\" was edited to \"'' @ to_str current @ ''\", which is kept as written.'']\<rparr>))"

definition withoutLive :: "obj \<Rightarrow> obj" where
  "withoutLive running = filter (\<lambda>(key, _). \<not> starts_with ''__hkp'' key) running"

definition definitionFromWorkingCopy :: "obj \<Rightarrow> obj \<Rightarrow> obj \<Rightarrow> obj \<times> WorkingCopy" where
  "definitionFromWorkingCopy definition params running =
     (let values = ospread (from_entries (js_obj (oget definition ''params''))) params;
          wc = fold (restoreSite values) (paramSites (oget definition ''state'') [])
                 \<lparr>wc_state = JObj (withoutLive running), wc_params = params, wc_warnings = []\<rparr>
      in (oput ''state'' (wc_state wc) definition, wc))"

section \<open>Changing a definition\<close>

definition topOf :: "PlacedBlock list \<Rightarrow> PlacedBlock \<Rightarrow> PlacedBlock" where
  "topOf entries p = last (p # chainUp (length entries) entries p)"

definition usesToRefresh :: "BlockLinkage \<Rightarrow> string \<Rightarrow> string \<Rightarrow> PlacedBlock list" where
  "usesToRefresh linkage block document =
     ovalues (fold (\<lambda>p found.
         if useBlock (pb_use p) \<noteq> block \<or> pb_document p \<noteq> document then found
         else AList.update (pb_key (topOf (placed linkage) p)) (topOf (placed linkage) p) found)
       (placed linkage) [])"

definition withDefinition :: "BlockLinkage \<Rightarrow> string \<Rightarrow> obj \<Rightarrow> BlockLinkage" where
  "withDefinition linkage document definition =
     linkage\<lparr>definitions :=
       oput document
         (map (\<lambda>entry. if def_id entry = def_id definition then definition else entry)
            (definitionsOf (definitions linkage) document))
         (definitions linkage)\<rparr>"

end
