(* ===== verification/BoardBlocksSave.thy ===== *)
theory BoardBlocksSave
  imports BoardBlocks BoardUnitsSave
begin

text \<open>
  Saving a board with blocks: what expansion records is what collapsing needs to write every use
  back (\<^verbatim>\<open>expandBlocks\<close>, \<^verbatim>\<open>collapseBlocks\<close> in \<^verbatim>\<open>hkp-frontend/src/runtime/board/blocks.ts\<close>).
\<close>

section \<open>What a walk adds\<close>

text \<open>The placements made between two points, and those of them that sit in no other use.\<close>

definition extends :: "Expansion \<Rightarrow> Expansion \<Rightarrow> bool" where
  "extends out out' = (\<exists>new. out_placed out' = out_placed out @ new)"

definition added :: "Expansion \<Rightarrow> Expansion \<Rightarrow> PlacedBlock list" where
  "added out out' = drop (length (out_placed out)) (out_placed out')"

definition tops :: "Expansion \<Rightarrow> Expansion \<Rightarrow> PlacedBlock list" where
  "tops out out' = filter (\<lambda>p. pb_parent p = None) (added out out')"

lemma extendsI: "out_placed out' = out_placed out @ new \<Longrightarrow> extends out out'"
  by (simp only: extends_def) blast

lemma added_eq: "out_placed out' = out_placed out @ new \<Longrightarrow> added out out' = new"
  by (simp add: added_def)

lemma extends_added: "extends out out' \<longleftrightarrow> out_placed out' = out_placed out @ added out out'"
  unfolding extends_def added_def by (metis append_eq_conv_conj)

lemma extends_refl [simp]: "extends out out"
  by (rule extendsI [of _ _ "[]"]) simp

lemma added_refl [simp]: "added out out = []"
  by (simp add: added_def)

lemma tops_refl [simp]: "tops out out = []"
  by (simp add: tops_def)

lemma extends_added_trans:
  assumes "extends a b" "extends b c"
  shows "extends a c \<and> added a c = added a b @ added b c"
proof -
  have "out_placed c = out_placed a @ (added a b @ added b c)"
    using assms unfolding extends_added by simp
  then show ?thesis by (blast intro: extendsI added_eq)
qed

lemmas extends_trans = extends_added_trans [THEN conjunct1]
  and added_trans = extends_added_trans [THEN conjunct2]

lemma tops_trans: "extends a b \<Longrightarrow> extends b c \<Longrightarrow> tops a c = tops a b @ tops b c"
  using added_trans [of a b c] by (simp add: tops_def)

text \<open>Every placement added sits in the given parent, or in one added before.\<close>

definition adds_under :: "string option \<Rightarrow> Expansion \<Rightarrow> Expansion \<Rightarrow> bool" where
  "adds_under parent out out' =
     (extends out out' \<and>
      (\<forall>p \<in> set (added out out'). pb_key p \<noteq> [] \<and> (pb_parent p = parent \<or> (\<exists>q \<in> set (added out out'). pb_parent p = Some (pb_key q)))))"

lemma pathKey_nonempty [simp]: "pathKey path \<noteq> []"
  by (simp add: pathKey_def)

lemma adds_under_refl [simp]: "adds_under parent out out"
  by (simp add: adds_under_def)

lemma adds_under_trans: "adds_under parent a b \<Longrightarrow> adds_under parent b c \<Longrightarrow> adds_under parent a c"
  unfolding adds_under_def using extends_trans [of a b c] added_trans [of a b c] by auto

lemma adds_under_map_state:
  assumes "\<And>x s y s'. x \<in> set xs \<Longrightarrow> f x s = (y, s') \<Longrightarrow> adds_under parent (g s) (g s')"
    and "map_state f xs s = (ys, s')"
  shows "adds_under parent (g s) (g s')"
  using assms
proof (induction xs arbitrary: s ys)
  case (Cons x xs)
  obtain y s1 where 1: "f x s = (y, s1)" by fastforce
  obtain zs s2 where 2: "map_state f xs s1 = (zs, s2)" by fastforce
  have s2: "s2 = s'" using Cons.prems(2) 1 2 by simp
  have "adds_under parent (g s) (g s1)" by (rule Cons.prems(1) [OF _ 1]) simp
  moreover have "adds_under parent (g s1) (g s')"
    by (rule Cons.IH [OF _ 2 [unfolded s2]]) (rule Cons.prems(1), simp_all)
  ultimately show ?case by (rule adds_under_trans)
qed simp

lemma placeUse_out:
  "placeUse rng ctx use i arrayPath stack parent out = Inl (v, out') \<Longrightarrow> out_placed out' = out_placed out \<and> v = JObj use"
  "placeUse rng ctx use i arrayPath stack parent out = Inr inst \<Longrightarrow>
     in_path inst = arrayPath @ [Id i] \<and>
     (\<exists>p. out_placed (in_out inst) = out_placed out @ [p] \<and> pb_key p = pathKey (in_path inst) \<and> pb_parent p = parent
        \<and> pb_path p = in_path inst \<and> pb_document p = ctx_document ctx \<and> pb_runtimeId p = ctx_runtimeId ctx)"
  by (auto simp: placeUse_def report_def Let_def split: option.splits if_splits prod.splits)

lemma walk_adds:
  shows "expandUse rng ctx use i arrayPath stack parent out = (v1, out1) \<Longrightarrow> adds_under parent out out1"
    and "walk rng ctx v path stack parent out = (v2, out2) \<Longrightarrow> adds_under parent out out2"
proof (induction rng ctx use i arrayPath stack parent out and rng ctx v path stack parent out
    arbitrary: v1 out1 and v2 out2 rule: expandUse_walk.induct)
  case (1 rng ctx use i arrayPath stack parent out)
  show ?case
  proof (cases "placeUse rng ctx use i arrayPath stack parent out")
    case (Inl r)
    obtain w o' where r: "r = (w, o')" by (cases r)
    have "out_placed o' = out_placed out @ []" using placeUse_out(1) [OF Inl [unfolded r]] by simp
    then have "adds_under parent out o'" using added_eq extendsI by (fastforce simp: adds_under_def)
    then show ?thesis using "1.prems" Inl r by (simp add: expandUse.simps)
  next
    case (Inr inst)
    obtain p where p: "out_placed (in_out inst) = out_placed out @ [p]" "pb_key p = pathKey (in_path inst)" "pb_parent p = parent"
      using placeUse_out(2) [OF Inr] by blast
    obtain state out' where w: "walk rng ctx (oget (in_service inst) ''state'') (in_path inst @ [Key ''state''])
        (stack @ [in_definition inst]) (Some (pathKey (in_path inst))) (in_out inst) = (state, out')" by fastforce
    have "adds_under (Some (pb_key p)) (in_out inst) out'" using "1.IH" [OF Inr w] p by simp
    moreover have "extends out (in_out inst)" "added out (in_out inst) = [p]" 
      by (rule extendsI [OF p(1)], rule added_eq [OF p(1)])
    moreover have "out1 = out'" using "1.prems" Inr w by (simp add: expandUse.simps)
    ultimately show ?thesis
      unfolding adds_under_def using p(2,3) added_trans [of out "in_out inst" out'] extends_trans [of out "in_out inst" out']
      by auto
  qed
next
  case (2 rng ctx xs path stack parent out)
  let ?f = "\<lambda>(index, element) (taken, out).
             if usesHere ctx path \<and> isBlockUse element then
               (let (i, taken') = idOfUse (js_obj element) taken;
                    (v, out') = expandUse rng ctx (js_obj element) i path stack parent out
                in (v, taken', out'))
             else
               (let (v, out') = walk rng ctx element (path @ [stepTo element index]) stack parent out
                in (v, taken, out'))"
  obtain ys t out' where m: "map_state ?f (enumerate 0 xs) (takenIds xs, out) = (ys, t, out')"
    by (rule prod_cases3)
  have "adds_under parent (snd (takenIds xs, out)) (snd (t, out'))"
  proof (rule adds_under_map_state [where g = snd, OF _ m])
    fix x s y s' assume x: "x \<in> set (enumerate 0 xs)" "?f x s = (y, s')"
    obtain n e where e: "x = (n, e)" by (cases x)
    obtain tk o1 where s: "s = (tk, o1)" by (cases s)
    show "adds_under parent (snd s) (snd s')"
    proof (cases "usesHere ctx path \<and> isBlockUse e")
      case True
      obtain i t2 where i: "idOfUse (js_obj e) tk = (i, t2)" by fastforce
      obtain w o2 where ex: "expandUse rng ctx (js_obj e) i path stack parent o1 = (w, o2)" by fastforce
      have "adds_under parent o1 o2"
        using "2.IH"(1) [OF x(1) e [symmetric] True refl i [symmetric] ex] .
      then show ?thesis using x(2) e s True i ex by auto
    next
      case False
      obtain w o2 where ex: "walk rng ctx e (path @ [stepTo e n]) stack parent o1 = (w, o2)" by fastforce
      have "adds_under parent o1 o2"
        using "2.IH"(2) [OF x(1) e [symmetric] False ex] .
      then show ?thesis using x(2) e s False ex by auto
    qed
  qed
  then show ?case using "2.prems" m by (simp add: walk.simps)
next
  case (3 rng ctx es path stack parent out)
  let ?f = "\<lambda>(key, inner) out. walk rng ctx inner (path @ [Key key]) stack parent out"
  obtain vs out' where m: "map_state ?f es out = (vs, out')" by fastforce
  have "adds_under parent (id out) (id out')"
    by (rule adds_under_map_state [where g = id, OF _ m]) (use "3.IH" in \<open>auto split: prod.splits\<close>)
  then show ?case using "3.prems" m by (simp add: walk.simps)
qed (auto simp: walk.simps)


section \<open>Writing one place\<close>

definition applyAt :: "(jsval \<Rightarrow> jsval) \<Rightarrow> PathStep list \<Rightarrow> jsval \<Rightarrow> jsval" where
  "applyAt f path v = (case locateFrom v path of None \<Rightarrow> v | Some at \<Rightarrow> writeAt v at (f (readAt v at)))"

lemma applyAt_Nil [simp]: "applyAt f [] v = f v"
  by (simp add: applyAt_def)

lemma applyAt_array:
  assumes "resolveStep (JArr (ps @ z # zs)) s = Some (Index (length ps))"
  shows "applyAt f (s # path) (JArr (ps @ z # zs)) = JArr (ps @ applyAt f path z # zs)"
  using assms
  by (auto simp: applyAt_def child_def putChild_def putIndex_def list_update_append split: option.splits)

lemma oput_middle: "k \<notin> set (okeys ps) \<Longrightarrow> oput k v (ps @ (k, w) # es) = ps @ (k, v) # es"
  by (induction ps) auto

lemma oget_middle: "k \<notin> set (okeys ps) \<Longrightarrow> oget (ps @ (k, w) # es) k = w"
  by (induction ps) auto

lemma applyAt_object:
  assumes "k \<notin> set (okeys ps)"
  shows "applyAt f (Key k # path) (JObj (ps @ (k, z) # zs)) = JObj (ps @ (k, applyAt f path z) # zs)"
proof -
  have "child (JObj (ps @ (k, z) # zs)) (Key k) = z" using assms by (simp add: child_def oget_middle)
  moreover have "putChild (JObj (ps @ (k, z) # zs)) (Key k) w = JObj (ps @ (k, w) # zs)" for w
    using assms by (simp add: putChild_def oput_middle)
  ultimately show ?thesis by (auto simp: applyAt_def resolveStep_def split: option.splits)
qed

text \<open>A step that names an entry leads to it when no entry before has its id.\<close>

lemma resolve_entry:
  assumes "s = Index (length ps) \<or>
    (\<exists>i. s = Id i \<and> entryId z = Some i \<and> (\<forall>p \<in> set ps. entryId p \<noteq> Some i))"
  shows "resolveStep (JArr (ps @ z # zs)) s = Some (Index (length ps))"
  using assms
proof
  assume "\<exists>i. s = Id i \<and> entryId z = Some i \<and> (\<forall>p \<in> set ps. entryId p \<noteq> Some i)"
  then obtain i where "s = Id i" "entryId z = Some i" "\<forall>p \<in> set ps. entryId p \<noteq> Some i" by blast
  then show ?thesis
    using find_index_append_first [of ps "\<lambda>e. entryId e = Some i" z zs] by (simp add: resolveStep_def)
qed (simp add: resolveStep_def)

text \<open>Writing deeper than one step into an object leaves its id as it is.\<close>

definition deep :: "jsval \<Rightarrow> PathStep list \<Rightarrow> bool" where
  "deep v path = (path \<noteq> [] \<and> ((\<exists>es. v = JObj es) \<longrightarrow> (\<exists>k q. path = Key k # q \<and> q \<noteq> [])))"

lemma writeAt_kind: "path \<noteq> [] \<Longrightarrow> is_str (writeAt v path w) = is_str v"
  by (cases path) (auto simp: putChild_def split: jsval.splits PathStep.splits option.splits)

lemma locate_kind: "path \<noteq> [] \<Longrightarrow> locateFrom v path = Some at \<Longrightarrow> \<not> is_str v \<and> at \<noteq> []"
  by (cases path; cases v) (auto simp: resolveStep_def split: option.splits PathStep.splits)

lemma entryId_keys:
  assumes "\<And>k. k = ''instanceId'' \<or> k = ''uuid'' \<Longrightarrow> oget es k = oget es' k \<or> (\<not> is_str (oget es k) \<and> \<not> is_str (oget es' k))"
  shows "entryId (JObj es) = entryId (JObj es')"
proof -
  have h: "(case oget es k of JStr s \<Rightarrow> Some s | _ \<Rightarrow> X) = (case oget es' k of JStr s \<Rightarrow> Some s | _ \<Rightarrow> X)"
    if "k = ''instanceId'' \<or> k = ''uuid''" for k X
    using assms [OF that] by (auto split: jsval.splits)
  show ?thesis unfolding entryId_def field_simps' h [OF disjI1 [OF refl]] h [OF disjI2 [OF refl]] ..
qed

lemma entryId_nonobj: "(\<And>es. v \<noteq> JObj es) \<Longrightarrow> entryId v = None"
  by (cases v) (auto simp: entryId_def split: jsval.split)

lemma applyAt_keeps:
  assumes "deep v path"
  shows "entryId (applyAt f path v) = entryId v \<and> ((\<exists>es. applyAt f path v = JObj es) \<longleftrightarrow> (\<exists>es. v = JObj es))"
proof (cases "\<exists>es. v = JObj es")
  case True
  then obtain es k q where v: "v = JObj es" "path = Key k # q" "q \<noteq> []" using assms by (auto simp: deep_def)
  show ?thesis
  proof (cases "locateFrom (oget es k) q")
    case None
    then show ?thesis by (simp add: v applyAt_def resolveStep_def child_def)
  next
    case (Some at)
    note k = locate_kind [OF v(3) Some]
    have a: "applyAt f path v = JObj (oput k (writeAt (oget es k) at (f (readAt (oget es k) at))) es)"
      using Some by (simp add: v applyAt_def resolveStep_def child_def putChild_def)
    moreover have "entryId (JObj (oput k (writeAt (oget es k) at (f (readAt (oget es k) at))) es)) = entryId (JObj es)"
      by (rule entryId_keys) (use k in \<open>auto simp: writeAt_kind\<close>)
    ultimately show ?thesis using v by simp
  qed
next
  case False
  have "\<not> (\<exists>es. applyAt f path v = JObj es)"
    using False assms
    by (cases path; cases v) (auto simp: applyAt_def deep_def putChild_def resolveStep_def split: option.splits PathStep.splits)
  then show ?thesis using False entryId_nonobj [of v] entryId_nonobj [of "applyAt f path v"] by metis
qed

lemma deep_cong: "((\<exists>es. v = JObj es) \<longleftrightarrow> (\<exists>es. w = JObj es)) \<Longrightarrow> deep v path = deep w path"
  by (auto simp: deep_def)

section \<open>Replaying the uses\<close>

definition restoreUse :: "BlockLinkage \<Rightarrow> PlacedBlock \<Rightarrow> jsval \<Rightarrow> jsval" where
  "restoreUse linkage p running =
     (if useRenamed (definitionMap (definitionsOf (definitions linkage) (pb_document p)) (useBlock (pb_use p)))
           running (pb_use p)
      then JObj (oput ''serviceName'' (field running ''serviceName'') (pb_use p)) else JObj (pb_use p))"

definition replay :: "BlockLinkage \<Rightarrow> nat \<Rightarrow> PlacedBlock list \<Rightarrow> jsval \<Rightarrow> jsval" where
  "replay linkage n ts v = fold (\<lambda>p. applyAt (restoreUse linkage p) (drop n (pb_path p))) ts v"

lemma replay_Nil [simp]: "replay linkage n [] v = v"
  by (simp add: replay_def)

lemma replay_append: "replay linkage n (ts @ us) v = replay linkage n us (replay linkage n ts v)"
  by (simp add: replay_def)

definition leads :: "PathStep \<Rightarrow> jsval list \<Rightarrow> jsval \<Rightarrow> bool" where
  "leads s ps z = (s = Index (length ps) \<or>
    (\<exists>i. s = Id i \<and> entryId z = Some i \<and> (\<forall>p \<in> set ps. entryId p \<noteq> Some i)))"

lemma replay_array:
  assumes "\<And>t. t \<in> set ts \<Longrightarrow> \<exists>q. drop n (pb_path t) = s # q \<and> deep z q" "leads s ps z"
  shows "replay linkage n ts (JArr (ps @ z # zs)) = JArr (ps @ replay linkage (Suc n) ts z # zs)"
  using assms
proof (induction ts arbitrary: z)
  case (Cons t ts)
  obtain q where q: "drop n (pb_path t) = s # q" "deep z q" using Cons.prems(1) by auto
  have q': "drop (Suc n) (pb_path t) = q" using q(1) by (metis drop_Suc list.sel(3) tl_drop)
  let ?z = "applyAt (restoreUse linkage t) q z"
  note k = applyAt_keeps [OF q(2), of "restoreUse linkage t"]
  have "leads s ps ?z" using Cons.prems(2) k by (simp add: leads_def)
  moreover have "\<exists>q. drop n (pb_path u) = s # q \<and> deep ?z q" if "u \<in> set ts" for u
    using Cons.prems(1) [of u] that deep_cong [of ?z z] k by auto
  ultimately have "replay linkage n ts (JArr (ps @ ?z # zs)) = JArr (ps @ replay linkage (Suc n) ts ?z # zs)"
    by (intro Cons.IH) auto
  moreover have "applyAt (restoreUse linkage t) (s # q) (JArr (ps @ z # zs)) = JArr (ps @ ?z # zs)"
    by (rule applyAt_array, rule resolve_entry) (use Cons.prems(2) in \<open>simp add: leads_def\<close>)
  ultimately show ?case by (simp add: replay_def q(1) q')
qed simp

lemma replay_object:
  assumes "\<And>t. t \<in> set ts \<Longrightarrow> \<exists>q. drop n (pb_path t) = Key k # q" "k \<notin> set (okeys ps)"
  shows "replay linkage n ts (JObj (ps @ (k, z) # zs)) = JObj (ps @ (k, replay linkage (Suc n) ts z) # zs)"
  using assms(1)
proof (induction ts arbitrary: z)
  case (Cons t ts)
  obtain q where q: "drop n (pb_path t) = Key k # q" using Cons.prems(1) by auto
  have q': "drop (Suc n) (pb_path t) = q" using q(1) by (metis drop_Suc list.sel(3) tl_drop)
  have "replay linkage n ts (JObj (ps @ (k, applyAt (restoreUse linkage t) q z) # zs))
      = JObj (ps @ (k, replay linkage (Suc n) ts (applyAt (restoreUse linkage t) q z)) # zs)"
    using Cons.prems by (intro Cons.IH) auto
  then show ?case by (simp add: replay_def q q' applyAt_object [OF assms(2)])
qed simp

section \<open>Documents that come back as they were\<close>

text \<open>
  What a document must be for its uses to be found again: entries beside each other carry different
  ids, a use's id is text, and its definition asks for no value to be made (a made value is written
  back with the use, so the document that comes back then is not the one that went in).
\<close>

definition asksRandom :: "obj \<Rightarrow> bool" where
  "asksRandom params = list_ex (\<lambda>(_, v). case v of JStr t \<Rightarrow> hits RANDOM t \<noteq> [] | _ \<Rightarrow> False) params"

definition use_ok :: "Context \<Rightarrow> obj \<Rightarrow> bool" where
  "use_ok ctx use =
     ((let given = or_else (oget use ''instanceId'') (oget use ''uuid'') in nullish given \<or> is_str given) \<and>
      (case definitionMap (ctx_definitions ctx) (useBlock use) of
         None \<Rightarrow> True | Some d \<Rightarrow> \<not> asksRandom (useParams d use)))"

fun restorable :: "Context \<Rightarrow> jsval \<Rightarrow> bool" where
  "restorable ctx (JArr xs) =
     (distinct (List.map_filter entryId xs) \<and>
      list_all (\<lambda>x. (isBlockUse x \<longrightarrow> use_ok ctx (js_obj x)) \<and> restorable ctx x) xs)"
| "restorable ctx (JObj es) = (canon_keys (okeys es) \<and> list_all (restorable ctx) (ovalues es))"
| "restorable ctx _ = True"

lemma generatedParams_none:
  "\<not> asksRandom params \<Longrightarrow> generatedParams rng params n made = (made, n)"
  by (induction rng params n made rule: generatedParams.induct)
    (auto simp: asksRandom_def split: jsval.splits)

lemma use_ok_id:
  assumes "use_ok ctx use"
  shows "or_else (oget use ''instanceId'') (oget use ''uuid'') = JStr i \<Longrightarrow> entryId (JObj use) = Some i"
    "nullish (or_else (oget use ''instanceId'') (oget use ''uuid'')) \<Longrightarrow> entryId (JObj use) = None"
    "nullish (or_else (oget use ''instanceId'') (oget use ''uuid'')) \<or>
     (\<exists>i. or_else (oget use ''instanceId'') (oget use ''uuid'') = JStr i)"
proof -
  have e: "entryId (JObj use) = (case oget use ''instanceId'' of JStr i \<Rightarrow> Some i
      | _ \<Rightarrow> (case oget use ''uuid'' of JStr i \<Rightarrow> Some i | _ \<Rightarrow> None))"
    unfolding entryId_def field_simps' ..
  show "or_else (oget use ''instanceId'') (oget use ''uuid'') = JStr i \<Longrightarrow> entryId (JObj use) = Some i"
    "nullish (or_else (oget use ''instanceId'') (oget use ''uuid'')) \<Longrightarrow> entryId (JObj use) = None"
    unfolding e by (auto simp: or_else_def nullish_def split: if_splits jsval.splits)
  have "is_str v \<Longrightarrow> \<exists>i. v = JStr i" for v by (cases v) auto
  then show "nullish (or_else (oget use ''instanceId'') (oget use ''uuid'')) \<or>
     (\<exists>i. or_else (oget use ''instanceId'') (oget use ''uuid'') = JStr i)"
    using assms by (auto simp: use_ok_def Let_def)
qed

lemma placeUse_instance:
  assumes "placeUse rng ctx use i arrayPath stack parent out = Inr inst" "use_ok ctx use"
    "definitionMap (definitionsOf (definitions linkage) (ctx_document ctx)) = definitionMap (ctx_definitions ctx)"
  shows "\<exists>p. out_placed (in_out inst) = out_placed out @ [p] \<and> pb_path p = arrayPath @ [Id i] \<and> pb_parent p = parent \<and>
     (\<forall>st. restoreUse linkage p (JObj (oput ''state'' st (in_service inst))) = JObj use \<and>
           entryId (JObj (oput ''state'' st (in_service inst))) = Some i)"
proof -
  obtain d where d: "definitionMap (ctx_definitions ctx) (useBlock use) = Some d"
    using assms(1) by (auto simp: placeUse_def split: option.splits)
  have "\<not> asksRandom (useParams d use)" using assms(2) d by (simp add: use_ok_def)
  then have m: "useWithMade rng d use c = (use, c)" for c
    by (simp add: useWithMade_def generatedParams_none)
  obtain st0 missing where s: "substituteParams (useParams d use) (oget d ''state'') [] = (st0, missing)" by fastforce
  obtain st1 where st1: "in_service inst = from_entries
      [(if length arrayPath = 1 then ''uuid'' else ''instanceId'', JStr i),
       (''serviceId'', oget d ''serviceId''), (''serviceName'', nameOfUse d use), (''state'', st1)]"
    using assms(1) d m s
    by (auto simp: placeUse_def instantiate_def Let_def split: if_splits)
  have sv: "field (JObj (oput ''state'' st (in_service inst))) ''serviceName'' = nameOfUse d use" for st
    by (simp add: st1 from_entries_def oget_ospread)
  have e: "entryId (JObj (oput ''state'' st (in_service inst))) = Some i" for st
    by (simp add: entryId_def st1 from_entries_def oget_ospread)
  have "\<exists>p. out_placed (in_out inst) = out_placed out @ [p] \<and> pb_path p = arrayPath @ [Id i] \<and> pb_parent p = parent
      \<and> pb_use p = use \<and> pb_document p = ctx_document ctx"
    using assms(1) d m s by (auto simp: placeUse_def report_def Let_def instantiate_def split: if_splits)
  then obtain p where p: "out_placed (in_out inst) = out_placed out @ [p]" "pb_path p = arrayPath @ [Id i]"
      "pb_parent p = parent" "pb_use p = use" "pb_document p = ctx_document ctx" by blast
  have "restoreUse linkage p (JObj (oput ''state'' st (in_service inst))) = JObj use" for st
    unfolding restoreUse_def p assms(3) d useRenamed_def by (simp add: sv del: field_simps')
  then show ?thesis using p e by blast
qed

section \<open>The round trip\<close>

definition same_shape :: "jsval \<Rightarrow> jsval \<Rightarrow> bool" where
  "same_shape v v' = (entryId v' = entryId v \<and> ((\<exists>es. v' = JObj es) \<longleftrightarrow> (\<exists>es. v = JObj es)) \<and> (is_str v' = is_str v) \<and> (is_str v \<longrightarrow> v' = v))"

definition restores :: "BlockLinkage \<Rightarrow> PathStep list \<Rightarrow> jsval \<Rightarrow> jsval \<Rightarrow> Expansion \<Rightarrow> Expansion \<Rightarrow> bool" where
  "restores linkage path v v' out out' =
     (extends out out' \<and> same_shape v v' \<and>
      (\<forall>t \<in> set (tops out out'). \<exists>q. pb_path t = path @ q \<and> deep v q) \<and>
      replay linkage (length path) (tops out out') v' = v)"

lemma restores_refl: "restores linkage path v v out out"
  by (simp add: restores_def same_shape_def)

text \<open>The result of expanding a use that stands by itself.\<close>

lemma expandUse_restores:
  assumes "expandUse rng ctx use i path stack None out = (z, out')" "use_ok ctx use"
    "definitionMap (definitionsOf (definitions linkage) (ctx_document ctx)) = definitionMap (ctx_definitions ctx)"
  shows "extends out out' \<and>
    (tops out out' = [] \<and> z = JObj use \<or>
     (\<exists>p. tops out out' = [p] \<and> pb_path p = path @ [Id i] \<and> restoreUse linkage p z = JObj use \<and> entryId z = Some i))"
proof (cases "placeUse rng ctx use i path stack None out")
  case (Inl r)
  obtain w o' where r: "r = (w, o')" by (cases r)
  have "out_placed o' = out_placed out @ []" using placeUse_out(1) [OF Inl [unfolded r]] by simp
  then have "extends out out'" "tops out out' = []" "z = w"
    using assms(1) Inl r extendsI [of o' out "[]"] added_eq [of o' out "[]"] by (simp_all add: expandUse.simps tops_def)
  then show ?thesis using placeUse_out(1) [OF Inl [unfolded r]] by simp
next
  case (Inr inst)
  obtain p where p: "out_placed (in_out inst) = out_placed out @ [p]" "pb_path p = path @ [Id i]" "pb_parent p = None"
     "\<And>st. restoreUse linkage p (JObj (oput ''state'' st (in_service inst))) = JObj use"
     "\<And>st. entryId (JObj (oput ''state'' st (in_service inst))) = Some i"
    using placeUse_instance [OF Inr assms(2,3)] by blast
  obtain st out2 where w: "walk rng ctx (oget (in_service inst) ''state'') (in_path inst @ [Key ''state''])
      (stack @ [in_definition inst]) (Some (pathKey (in_path inst))) (in_out inst) = (st, out2)" by fastforce
  have z: "z = JObj (oput ''state'' st (in_service inst))" "out' = out2"
    using assms(1) Inr w by (simp_all add: expandUse.simps)
  have e: "extends out (in_out inst)" "added out (in_out inst) = [p]"
    by (rule extendsI [OF p(1)], rule added_eq [OF p(1)])
  have u: "adds_under (Some (pathKey (in_path inst))) (in_out inst) out2" by (rule walk_adds(2) [OF w])
  then have e2: "extends (in_out inst) out2" by (simp add: adds_under_def)
  have "pb_parent q \<noteq> None" if "q \<in> set (added (in_out inst) out2)" for q
    using u that by (auto simp: adds_under_def)
  then have "tops (in_out inst) out2 = []" by (simp add: tops_def filter_empty_conv)
  moreover have "tops out (in_out inst) = [p]" by (simp add: tops_def e(2) p(3))
  ultimately have "tops out out' = [p]" using tops_trans [OF e(1) e2] by (simp add: z)
  then show ?thesis using extends_trans [OF e(1) e2] p z by blast
qed

lemma idOfUse_entry:
  assumes "use_ok ctx use" "idOfUse use taken = (i, taken')"
  shows "entryId (JObj use) = Some i \<and> taken' = taken \<or>
    entryId (JObj use) = None \<and> taken' = taken @ [i] \<and> i \<notin> set taken \<and> i \<noteq> []"
proof (cases "nullish (or_else (oget use ''instanceId'') (oget use ''uuid''))")
  case True
  have "first_free (freshBase (useBlock use)) taken 1 \<noteq> []"
    using first_free_form [of 1 "freshBase (useBlock use)" taken] by (auto simp: numbered_def)
  then show ?thesis
    using True assms(2) use_ok_id(2) [OF assms(1) True] first_free_not_taken
    by (auto simp: idOfUse_def Let_def freshId_def)
next
  case False
  then obtain j where "or_else (oget use ''instanceId'') (oget use ''uuid'') = JStr j"
    using use_ok_id(3) [OF assms(1)] by blast
  then show ?thesis
    using False assms(2) use_ok_id(1) [OF assms(1)] by (auto simp: idOfUse_def Let_def)
qed

definition elementStep ::
  "(nat \<Rightarrow> 8 word list) \<Rightarrow> Context \<Rightarrow> PathStep list \<Rightarrow> nat \<times> jsval \<Rightarrow> string list \<times> Expansion \<Rightarrow> jsval \<times> string list \<times> Expansion" where
  "elementStep rng ctx path = (\<lambda>(index, element) (taken, out).
     if usesHere ctx path \<and> isBlockUse element then
       (let (i, taken') = idOfUse (js_obj element) taken;
            (v, out') = expandUse rng ctx (js_obj element) i path [] None out
        in (v, taken', out'))
     else
       (let (v, out') = walk rng ctx element (path @ [stepTo element index]) [] None out
        in (v, taken, out')))"

definition ids_taken :: "jsval list \<Rightarrow> string list \<Rightarrow> bool" where
  "ids_taken xs taken = (\<forall>i. i \<noteq> [] \<longrightarrow> i \<in> set (List.map_filter entryId xs) \<longrightarrow> i \<in> set taken)"

lemma map_filter_mem: "y \<in> set (List.map_filter f xs) \<longleftrightarrow> (\<exists>x \<in> set xs. f x = Some y)"
  by (induction xs) (auto simp: List.map_filter_simps split: option.splits)

lemma map_filter_append: "List.map_filter f (xs @ ys) = List.map_filter f xs @ List.map_filter f ys"
  by (induction xs) (auto simp: List.map_filter_simps split: option.splits)

text \<open>One element of an array whose earlier entries are \<open>ps\<close>.\<close>

lemma element_restores:
  assumes "elementStep rng ctx path (length ps, y) (taken, out) = (z, taken', out')"
    and "isBlockUse y \<longrightarrow> use_ok ctx (js_obj y)"
    and "\<And>p z out'. walk rng ctx y p [] None out = (z, out') \<Longrightarrow> restores linkage p y z out out'"
    and "definitionMap (definitionsOf (definitions linkage) (ctx_document ctx)) = definitionMap (ctx_definitions ctx)"
    and "distinct (List.map_filter entryId (ps @ [y]))" "ids_taken ps taken"
  shows "extends out out' \<and> set taken \<subseteq> set taken' \<and>
    (\<forall>t \<in> set (tops out out'). \<exists>q. pb_path t = path @ q \<and> q \<noteq> []) \<and>
    (\<forall>zs. replay linkage (length path) (tops out out') (JArr (ps @ z # zs)) = JArr (ps @ y # zs))"
proof (cases "usesHere ctx path \<and> isBlockUse y")
  case True
  obtain use where y: "y = JObj use" using True by (cases y) (auto simp: isBlockUse_def)
  have ok: "use_ok ctx use" using assms(2) True y by simp
  obtain i where i: "idOfUse use taken = (i, taken')" "expandUse rng ctx use i path [] None out = (z, out')"
    using assms(1) True y by (auto simp: elementStep_def split: prod.splits)
  note e = expandUse_restores [OF i(2) ok assms(4)]
  note t = idOfUse_entry [OF ok i(1)]
  have ps: "\<forall>p \<in> set ps. entryId p \<noteq> Some i"
    using t
  proof
    assume "entryId (JObj use) = Some i \<and> taken' = taken"
    then show ?thesis
      using assms(5) y by (auto simp: map_filter_append map_filter_mem List.map_filter_simps)
  next
    assume "entryId (JObj use) = None \<and> taken' = taken @ [i] \<and> i \<notin> set taken \<and> i \<noteq> []"
    then show ?thesis using assms(6) by (auto simp: ids_taken_def map_filter_mem)
  qed
  have "replay linkage (length path) (tops out out') (JArr (ps @ z # zs)) = JArr (ps @ y # zs)" for zs
    using e
  proof (elim conjE disjE exE)
    fix p assume p: "tops out out' = [p]" "pb_path p = path @ [Id i]" "restoreUse linkage p z = JObj use" "entryId z = Some i"
    have "applyAt (restoreUse linkage p) [Id i] (JArr (ps @ z # zs)) = JArr (ps @ applyAt (restoreUse linkage p) [] z # zs)"
      by (rule applyAt_array, rule resolve_entry) (use ps p in blast)
    then show ?thesis using p y by (simp add: replay_def)
  qed (use y in simp)
  moreover have "\<forall>t \<in> set (tops out out'). \<exists>q. pb_path t = path @ q \<and> q \<noteq> []" using e by auto
  moreover have "set taken \<subseteq> set taken'" using t by auto
  ultimately show ?thesis using e by blast
next
  case False
  let ?s = "stepTo y (length ps)"
  have w: "walk rng ctx y (path @ [?s]) [] None out = (z, out')" "taken' = taken"
    using assms(1) False by (auto simp: elementStep_def split: prod.splits)
  note r = assms(3) [OF w(1)]
  have z: "entryId z = entryId y" "(\<exists>es. z = JObj es) \<longleftrightarrow> (\<exists>es. y = JObj es)"
    using r by (auto simp: restores_def same_shape_def)
  have "leads ?s ps z"
    using assms(5) z(1) by (auto simp: leads_def stepTo_def map_filter_append map_filter_mem List.map_filter_simps split: option.splits)
  moreover have "\<exists>q. drop (length path) (pb_path t) = ?s # q \<and> deep z q" if "t \<in> set (tops out out')" for t
    using r that deep_cong [OF z(2)] by (auto simp: restores_def)
  ultimately have "replay linkage (length path) (tops out out') (JArr (ps @ z # zs)) = JArr (ps @ y # zs)" for zs
    using r by (subst replay_array [where s = ?s]) (auto simp: restores_def)
  moreover have "\<exists>q. pb_path t = path @ q \<and> q \<noteq> []" if "t \<in> set (tops out out')" for t
    using r that by (auto simp: restores_def)
  ultimately show ?thesis using r w(2) by (auto simp: restores_def)
qed

lemma array_restores:
  assumes "map_state (elementStep rng ctx path) (enumerate (length ps) ys) (taken, out) = (zs, taken', out')"
    and "\<And>y. y \<in> set ys \<Longrightarrow> isBlockUse y \<longrightarrow> use_ok ctx (js_obj y)"
    and "\<And>y p z out out'. y \<in> set ys \<Longrightarrow> walk rng ctx y p [] None out = (z, out') \<Longrightarrow> restores linkage p y z out out'"
    and "definitionMap (definitionsOf (definitions linkage) (ctx_document ctx)) = definitionMap (ctx_definitions ctx)"
    and "distinct (List.map_filter entryId (ps @ ys))" "ids_taken (ps @ ys) taken"
  shows "extends out out' \<and>
    (\<forall>t \<in> set (tops out out'). \<exists>q. pb_path t = path @ q \<and> q \<noteq> []) \<and>
    replay linkage (length path) (tops out out') (JArr (ps @ zs)) = JArr (ps @ ys)"
  using assms(1,2,3,5,6)
proof (induction ys arbitrary: ps taken out zs)
  case (Cons y ys)
  obtain z t1 o1 where 1: "elementStep rng ctx path (length ps, y) (taken, out) = (z, t1, o1)" by (rule prod_cases3)
  obtain zs' t2 o2 where 2: "map_state (elementStep rng ctx path) (enumerate (Suc (length ps)) ys) (t1, o1) = (zs', t2, o2)"
    by (rule prod_cases3)
  have eq: "zs = z # zs'" "o2 = out'" "t2 = taken'" using Cons.prems(1) 1 2 by simp_all
  have dt: "distinct (List.map_filter entryId (ps @ [y]))" "ids_taken ps taken"
    using Cons.prems(4,5) by (auto simp: map_filter_append List.map_filter_simps ids_taken_def split: option.splits)
  have y: "y \<in> set (y # ys)" by simp
  note el = element_restores [OF 1 Cons.prems(2) [OF y] Cons.prems(3) [OF y] assms(4) dt]
  then have e: "extends out o1" "set taken \<subseteq> set t1" "\<forall>t \<in> set (tops out o1). \<exists>q. pb_path t = path @ q \<and> q \<noteq> []"
    "\<And>zs. replay linkage (length path) (tops out o1) (JArr (ps @ z # zs)) = JArr (ps @ y # zs)" by blast+
  have tk: "ids_taken ((ps @ [y]) @ ys) t1" using Cons.prems(5) e(2) by (auto simp: ids_taken_def)
  have r: "extends o1 out' \<and> (\<forall>t \<in> set (tops o1 out'). \<exists>q. pb_path t = path @ q \<and> q \<noteq> []) \<and>
    replay linkage (length path) (tops o1 out') (JArr ((ps @ [y]) @ zs')) = JArr ((ps @ [y]) @ ys)"
    by (rule Cons.IH [OF _ _ _ _ tk]) (use 2 eq Cons.prems(2,3,4) in \<open>simp_all\<close>)
  then have r1: "extends o1 out'" by blast
  have tt: "tops out out' = tops out o1 @ tops o1 out'" by (rule tops_trans [OF e(1) r1])
  have "replay linkage (length path) (tops out out') (JArr (ps @ zs)) = JArr (ps @ y # ys)"
    using r e(4) [of zs'] by (simp add: tt replay_append eq(1))
  moreover have "\<forall>t \<in> set (tops out out'). \<exists>q. pb_path t = path @ q \<and> q \<noteq> []"
    unfolding tt set_append ball_Un using r e(3) by blast
  ultimately show ?case using extends_trans [OF e(1) r1] by blast
qed simp


lemma object_restores:
  assumes "map_state F es out = (vs, out')"
    and "\<And>k x v o1 o2. (k, x) \<in> set es \<Longrightarrow> F (k, x) o1 = (v, o2) \<Longrightarrow> restores linkage (path @ [Key k]) x v o1 o2"
    and "distinct (okeys (ps @ es))"
  shows "extends out out' \<and> length vs = length es \<and>
    (\<forall>t \<in> set (tops out out'). \<exists>k q. k \<in> set (okeys es) \<and> pb_path t = path @ Key k # q \<and> q \<noteq> []) \<and>
    (\<forall>i < length es. same_shape (snd (es ! i)) (vs ! i)) \<and>
    replay linkage (length path) (tops out out') (JObj (ps @ zip (okeys es) vs)) = JObj (ps @ es)"
  using assms
proof (induction es arbitrary: ps out vs)
  case (Cons e es)
  obtain k x where e: "e = (k, x)" by (cases e)
  obtain v o1 where 1: "F (k, x) out = (v, o1)" by fastforce
  obtain vs' o2 where 2: "map_state F es o1 = (vs', o2)" by fastforce
  have eq: "vs = v # vs'" "o2 = out'" using Cons.prems(1) 1 2 e by simp_all
  have r: "restores linkage (path @ [Key k]) x v out o1" by (rule Cons.prems(2) [OF _ 1]) (simp add: e)
  have kps: "k \<notin> set (okeys ps)" using Cons.prems(3) e by simp
  have "\<exists>q. drop (length path) (pb_path t) = Key k # q" if "t \<in> set (tops out o1)" for t
    using r that by (auto simp: restores_def)
  from replay_object [OF this kps]
  have here: "replay linkage (length path) (tops out o1) (JObj (ps @ (k, v) # zs)) = JObj (ps @ (k, x) # zs)" for zs
    using r by (simp add: restores_def)
  have rest: "extends o1 out' \<and> length vs' = length es \<and>
    (\<forall>t \<in> set (tops o1 out'). \<exists>k q. k \<in> set (okeys es) \<and> pb_path t = path @ Key k # q \<and> q \<noteq> []) \<and>
    (\<forall>i < length es. same_shape (snd (es ! i)) (vs' ! i)) \<and>
    replay linkage (length path) (tops o1 out') (JObj ((ps @ [(k, x)]) @ zip (okeys es) vs')) = JObj ((ps @ [(k, x)]) @ es)"
    by (rule Cons.IH) (use 2 eq Cons.prems(2,3) e in \<open>simp_all\<close>)
  have e1: "extends out o1" using r by (simp add: restores_def)
  have tt: "tops out out' = tops out o1 @ tops o1 out'" by (rule tops_trans [OF e1]) (use rest in blast)
  have "replay linkage (length path) (tops out out') (JObj (ps @ zip (okeys (e # es)) vs)) = JObj (ps @ e # es)"
    using rest here [of "zip (okeys es) vs'"] by (simp add: tt replay_append eq(1) e)
  moreover have "\<exists>k' q. k' \<in> set (okeys (e # es)) \<and> pb_path t = path @ Key k' # q \<and> q \<noteq> []" if "t \<in> set (tops out out')" for t
  proof -
    consider "t \<in> set (tops out o1)" | "t \<in> set (tops o1 out')" using \<open>t \<in> set (tops out out')\<close> tt by auto
    then show ?thesis
    proof cases
      case 1
      then obtain q where "pb_path t = (path @ [Key k]) @ q" "q \<noteq> []" using r by (auto simp: restores_def deep_def)
      then show ?thesis using e by auto
    next
      case 2
      then obtain k' q where "k' \<in> set (okeys es)" "pb_path t = path @ Key k' # q" "q \<noteq> []"
        using rest by blast
      then show ?thesis using e by auto
    qed
  qed
  moreover have "same_shape (snd ((e # es) ! i)) (vs ! i)" if "i < length (e # es)" for i
    using that rest r e by (cases i) (auto simp: eq(1) restores_def)
  moreover have "extends out out'" by (rule extends_trans [OF e1]) (use rest in blast)
  moreover have "length vs = length (e # es)" using rest eq(1) by simp
  ultimately show ?case by blast
qed simp

lemma zip_oget:
  assumes "length vs = length es" "\<And>i. i < length es \<Longrightarrow> same_shape (snd (es ! i)) (vs ! i)"
  shows "oget (zip (okeys es) vs) k = oget es k \<or> (\<not> is_str (oget (zip (okeys es) vs) k) \<and> \<not> is_str (oget es k))"
  using assms
proof (induction es arbitrary: vs)
  case (Cons e es)
  obtain k' x where e: "e = (k', x)" by (cases e)
  obtain v vs' where vs: "vs = v # vs'" using Cons.prems(1) by (cases vs) auto
  have "same_shape x v" using Cons.prems(2) [of 0] by (simp add: e vs)
  moreover have "oget (zip (okeys es) vs') k = oget es k \<or> (\<not> is_str (oget (zip (okeys es) vs') k) \<and> \<not> is_str (oget es k))"
    by (rule Cons.IH) (use Cons.prems(1) Cons.prems(2) [of "Suc _"] vs in auto)
  ultimately show ?case by (auto simp: e vs same_shape_def)
qed simp

lemma deep_JObj: "q \<noteq> [] \<Longrightarrow> deep (JObj es) (Key k # q)"
  by (simp add: deep_def)

lemma deep_JArr: "q \<noteq> [] \<Longrightarrow> deep (JArr xs) q"
  by (simp add: deep_def)

lemma walk_restores:
  assumes "restorable ctx v" "walk rng ctx v path [] None out = (v', out')"
    "definitionMap (definitionsOf (definitions linkage) (ctx_document ctx)) = definitionMap (ctx_definitions ctx)"
  shows "restores linkage path v v' out out'"
  using assms(1,2)
proof (induction v arbitrary: path out v' out')
  case (Arr xs)
  obtain zs taken' o' where m: "map_state (elementStep rng ctx path) (enumerate 0 xs) (takenIds xs, out) = (zs, taken', o')"
    by (rule prod_cases3)
  have eq: "v' = JArr zs" "o' = out'"
    using Arr.prems(2) m by (simp_all add: walk.simps elementStep_def)
  have "ids_taken xs (takenIds xs)" by (auto simp: ids_taken_def takenIds_def)
  then have a: "extends out o' \<and> (\<forall>t \<in> set (tops out o'). \<exists>q. pb_path t = path @ q \<and> q \<noteq> []) \<and>
    replay linkage (length path) (tops out o') (JArr ([] @ zs)) = JArr ([] @ xs)"
    using m Arr.prems(1) assms(3) Arr.IH
    by (intro array_restores [where rng = rng and ctx = ctx and taken = "takenIds xs" and taken' = taken'])
      (auto simp: list_all_iff)
  have "same_shape (JArr xs) (JArr zs)" by (simp add: same_shape_def entryId_def)
  then show ?case using a deep_JArr unfolding restores_def eq by auto
next
  case (Obj es)
  obtain vs o' where m: "map_state (\<lambda>(key, inner) out. walk rng ctx inner (path @ [Key key]) [] None out) es out = (vs, o')"
    by fastforce
  have c: "canon_keys (okeys es)" using Obj.prems(1) by simp
  have a: "extends out o' \<and> length vs = length es \<and>
    (\<forall>t \<in> set (tops out o'). \<exists>k q. k \<in> set (okeys es) \<and> pb_path t = path @ Key k # q \<and> q \<noteq> []) \<and>
    (\<forall>i < length es. same_shape (snd (es ! i)) (vs ! i)) \<and>
    replay linkage (length path) (tops out o') (JObj ([] @ zip (okeys es) vs)) = JObj ([] @ es)"
  proof (rule object_restores [OF m])
    fix k x v o1 o2
    assume k: "(k, x) \<in> set es" and w: "(\<lambda>(key, inner) out. walk rng ctx inner (path @ [Key key]) [] None out) (k, x) o1 = (v, o2)"
    have "restorable ctx x" using Obj.prems(1) ovalues_memI [OF k] by (simp add: list_all_iff)
    then show "restores linkage (path @ [Key k]) x v o1 o2"
      using Obj.IH [OF ovalues_memI [OF k]] w by simp
  qed (use c in \<open>simp add: canon_keys_def\<close>)
  have k: "okeys (zip (okeys es) vs) = okeys es" using a by simp
  have eq: "v' = JObj (zip (okeys es) vs)" "o' = out'"
    using Obj.prems(2) m from_entries_canon [of "zip (okeys es) vs"] c by (simp_all only: walk.simps k split_def Let_def fst_conv snd_conv prod.inject)
  have "entryId (JObj (zip (okeys es) vs)) = entryId (JObj es)"
    by (rule entryId_keys) (use zip_oget [of vs es] a in blast)
  then have "same_shape (JObj es) (JObj (zip (okeys es) vs))" by (simp add: same_shape_def)
  then show ?case using a deep_JObj unfolding restores_def eq by fastforce
qed (simp_all add: walk.simps restores_refl)

lemma adds_under_parent:
  assumes "adds_under None out out'" "p \<in> set (added out out')" "pb_parent p = Some k"
  shows "k \<noteq> [] \<and> k \<in> pb_key ` set (added out out')"
proof -
  have "pb_parent p = None \<or> (\<exists>q \<in> set (added out out'). pb_parent p = Some (pb_key q))"
    using assms(1,2) by (simp add: adds_under_def)
  then obtain q where q: "q \<in> set (added out out')" "k = pb_key q" using assms(3) by auto
  then have "pb_key q \<noteq> []" using assms(1) by (simp add: adds_under_def)
  then show ?thesis using q by simp
qed

lemma outermost_tops:
  assumes "adds_under None out out'" "out_placed out = []" "placed linkage = out_placed out'"
  shows "outermostUses linkage = tops out out'"
proof -
  have a: "added out out' = out_placed out'" using assms(2) by (simp add: added_def)
  have "(case pb_parent p of None \<Rightarrow> True | Some parent \<Rightarrow> parent = [] \<or> parent \<notin> set (map pb_key (out_placed out')))
      = (pb_parent p = None)" if "p \<in> set (out_placed out')" for p
  proof (cases "pb_parent p")
    case (Some parent)
    from adds_under_parent [OF assms(1) that [folded a] Some] show ?thesis using Some by (simp add: a)
  qed simp
  then show ?thesis
    unfolding outermostUses_def tops_def a assms(3) Let_def by (rule filter_cong [OF refl])
qed

lemma collapseUse_applyAt:
  "pb_path p \<noteq> [] \<Longrightarrow> collapseUse linkage p v = applyAt (restoreUse linkage p) (pb_path p) v"
  by (simp add: collapseUse_def applyAt_def restoreUse_def locate_def Let_def split: option.splits)

lemma expandBlocks_adds:
  assumes "map_state (\<lambda>(runtimeId, list) out. walk rng (C runtimeId) list [Key runtimeId] [] None out) services out = (vs, out')"
  shows "adds_under None out out'"
proof -
  have "adds_under None (id out) (id out')"
    by (rule adds_under_map_state [where g = id, OF _ assms]) (auto dest: walk_adds(2) split: prod.splits)
  then show ?thesis by simp
qed

lemma expandBlocks_restores:
  assumes "canon_keys (okeys services)"
    and "\<forall>(runtimeId, list) \<in> set services. restorable (contextFor defs runtimeId (documentOf runtimeId)) list"
    and "expandBlocks rng services defs documentOf calls = (expanded, out)"
  shows "collapseBlocks (JObj expanded) \<lparr>definitions = defs, placed = out_placed out, editing = None\<rparr> None = JObj services"
proof -
  let ?L = "\<lparr>definitions = defs, placed = out_placed out, editing = None\<rparr>"
  let ?F = "\<lambda>(runtimeId, list) out. walk rng (contextFor defs runtimeId (documentOf runtimeId)) list [Key runtimeId] [] None out"
  define out0 where "out0 = \<lparr>out_placed = [],
      out_diagnostics = concat (map (\<lambda>(document, list). checkDefinitions document list []) defs), out_calls = calls\<rparr>"
  obtain vs out' where m: "map_state ?F services out0 = (vs, out')" by fastforce
  have o: "out' = out" and ex: "expanded = from_entries (zip (okeys services) vs)"
    using assms(3) m by (auto simp: expandBlocks_def out0_def)
  have r: "extends out0 out \<and> length vs = length services \<and>
    (\<forall>t \<in> set (tops out0 out). \<exists>k q. k \<in> set (okeys services) \<and> pb_path t = [] @ Key k # q \<and> q \<noteq> []) \<and>
    (\<forall>i < length services. same_shape (snd (services ! i)) (vs ! i)) \<and>
    replay ?L (length ([] :: PathStep list)) (tops out0 out) (JObj ([] @ zip (okeys services) vs)) = JObj ([] @ services)"
  proof (rule object_restores [OF m [unfolded o]])
    fix k x v o1 o2
    assume k: "(k, x) \<in> set services" and w: "?F (k, x) o1 = (v, o2)"
    show "restores ?L ([] @ [Key k]) x v o1 o2"
      by (rule walk_restores [where ctx = "contextFor defs k (documentOf k)" and rng = rng])
        (use assms(2) k w in \<open>auto simp: contextFor_def\<close>)
  qed (use assms(1) in \<open>simp add: canon_keys_def\<close>)
  have u: "outermostUses ?L = tops out0 out"
    by (rule outermost_tops [OF expandBlocks_adds [OF m, unfolded o]]) (simp_all add: out0_def)
  have "expanded = zip (okeys services) vs"
    unfolding ex using assms(1) r by (intro from_entries_canon) simp
  moreover have "fold (\<lambda>p. collapseUse ?L p) ts v = replay ?L 0 ts v" if "\<forall>t \<in> set ts. pb_path t \<noteq> []" for ts v
    using that by (induction ts arbitrary: v) (simp_all add: replay_def collapseUse_applyAt)
  moreover have "\<forall>t \<in> set (tops out0 out). pb_path t \<noteq> []" using r by auto
  ultimately show ?thesis using r by (simp add: collapseBlocks_def u deepClone_def)
qed

text \<open>
  C3. Saving gives back the document that was opened: collapsing the expanded services by the
  linkage of the expansion returns the services with every use as it was authored, wherever the
  uses stand, whichever documents' blocks they name, and whether or not they could be expanded.
\<close>

theorem collapseBlocks_expandBlocks:
  assumes "canon_keys (okeys services)"
    and "\<forall>(runtimeId, list) \<in> set services. restorable (contextFor defs runtimeId (documentOf runtimeId)) list"
    and "expandBlocks rng services defs documentOf calls = (expanded, out)"
  shows "collapseBlocks (JObj expanded) \<lparr>definitions = defs, placed = out_placed out, editing = None\<rparr> None = JObj services"
  using assms by (rule expandBlocks_restores)

end
