(* ===== verification/BoardBlocksLinkage.thy ===== *)
theory BoardBlocksLinkage
  imports BoardBlocksSave
begin

text \<open>
  Operations on a linkage (\<^verbatim>\<open>detachUse\<close>, \<^verbatim>\<open>withUseParams\<close>, \<^verbatim>\<open>withAdoptedDefinition\<close>,
  \<^verbatim>\<open>withBlockFrom\<close> in \<^verbatim>\<open>hkp-frontend/src/runtime/board/blocks.ts\<close>): what each changes and what it
  leaves, and the keys of placements as a code for their paths.
\<close>

section \<open>Keys\<close>

text \<open>After a step comes a comma or the closing bracket, neither of which continues a number.\<close>

lemma show_nat_prefix:
  assumes "show_nat m @ c # x = show_nat n @ d # y" "\<not> is_digit c" "\<not> is_digit d"
  shows "m = n \<and> c # x = d # y"
proof -
  have t: "takeWhile is_digit (show_nat k @ c # x) = show_nat k" if "\<not> is_digit c" for k c x
    using that by (subst takeWhile_append2) (auto dest: show_nat_digits)
  have "show_nat m = show_nat n" using t [OF assms(2), of m x] t [OF assms(3), of n y] assms(1) by simp
  then show ?thesis using assms(1) by simp
qed

lemma show_nat_hd: "\<exists>c s. show_nat n = c # s \<and> is_digit c"
  using show_nat_digits [of _ n] show_nat_not_Nil [of n] by (cases "show_nat n") auto

text \<open>The first character of a step's text tells what kind of step it is.\<close>

fun step_kind :: "PathStep \<Rightarrow> nat" where
  "step_kind (Key _) = 0"
| "step_kind (Index _) = 1"
| "step_kind (Id _) = 2"

lemma step_text_head:
  "step_text s \<noteq> [] \<and> hd (step_text s) \<noteq> CHR '']'' \<and>
   step_kind s = (if hd (step_text s) = CHR 0x22 then 0 else if hd (step_text s) = CHR ''{'' then 2 else 1)"
proof (cases s)
  case (Index n)
  obtain c w where n: "show_nat n = c # w" "is_digit c" using show_nat_hd [of n] by blast
  have "c \<noteq> CHR '']''" "c \<noteq> CHR 0x22" "c \<noteq> CHR ''{''" using n(2) by (auto simp: is_digit_def)
  then show ?thesis using n(1) Index by (simp del: show_nat.simps)
qed (simp_all add: json_quote_def)

lemma step_text_prefix:
  assumes "step_text s @ c # x = step_text t @ d # y" "c \<in> {CHR '','', CHR '']''}" "d \<in> {CHR '','', CHR '']''}"
  shows "s = t \<and> c # x = d # y"
proof -
  have nd: "\<not> is_digit c" "\<not> is_digit d" using assms(2,3) by (auto simp: is_digit_def)
  have "hd (step_text s @ c # x) = hd (step_text t @ d # y)" using assms(1) by (rule arg_cong)
  then have k: "step_kind s = step_kind t"
    using step_text_head [of s] step_text_head [of t] by (simp only: hd_append if_False)
  show ?thesis
  proof (cases s)
    case s: (Key k)
    with k obtain k' where t: "t = Key k'" by (cases t) auto
    show ?thesis using assms(1) json_quote_prefix [of k "c # x" k' "d # y"] by (simp add: s t)
  next
    case s: (Index m)
    with k obtain n where t: "t = Index n" by (cases t) auto
    show ?thesis using assms(1) show_nat_prefix [OF _ nd, of m x n y] by (simp add: s t del: show_nat.simps)
  next
    case s: (Id i)
    with k obtain j where t: "t = Id j" by (cases t) auto
    have "json_quote i @ ''}'' @ c # x = json_quote j @ ''}'' @ d # y"
      using assms(1) by (simp add: s t)
    from json_quote_prefix [OF this] show ?thesis by (simp add: s t)
  qed
qed

text \<open>The steps of a path, each followed by what follows it.\<close>

definition rest_text :: "PathStep list \<Rightarrow> string" where
  "rest_text path = (if path = [] then '']'' else CHR '','' # join_with '','' (map step_text path) @ '']'')"

lemma join_steps: "join_with '','' (map step_text (s # path)) @ '']'' = step_text s @ rest_text path"
  by (cases path) (simp_all add: rest_text_def)

lemma rest_text_head: "\<exists>d y. rest_text path = d # y \<and> d \<in> {CHR '','', CHR '']''}"
  by (simp add: rest_text_def)

lemma path_text_prefix:
  assumes "s \<noteq> []"
  shows "starts_with (join_with '','' (map step_text s) @ '','') (join_with '','' (map step_text t) @ '']'')
    \<longleftrightarrow> (\<exists>u r. t = s @ u # r)"
  using assms
proof (induction s arbitrary: t)
  case (Cons a s)
  show ?case
  proof (cases t)
    case Nil
    have "\<exists>c w. step_text a = c # w \<and> c \<noteq> CHR '']''"
      using step_text_head [of a] by (cases "step_text a") auto
    then show ?thesis using Nil by (cases s) (auto simp: starts_with_iff)
  next
    case t: (Cons b t')
    let ?x = "if s = [] then [] else join_with '','' (map step_text s) @ '',''"
    have l: "join_with '','' (map step_text (a # s)) @ '','' = step_text a @ CHR '','' # ?x"
      by (cases s) simp_all
    have "(step_text b @ rest_text t' = (step_text a @ CHR '','' # ?x) @ z) \<longleftrightarrow> a = b \<and> t' \<noteq> [] \<and>
        join_with '','' (map step_text t') @ '']'' = ?x @ z" for z
    proof
      assume eq: "step_text b @ rest_text t' = (step_text a @ CHR '','' # ?x) @ z"
      obtain d y where y: "rest_text t' = d # y" "d \<in> {CHR '','', CHR '']''}" using rest_text_head by blast
      have "step_text b @ d # y = step_text a @ CHR '','' # (?x @ z)" using eq y by simp
      from step_text_prefix [OF this y(2)] have "b = a" "d # y = CHR '','' # (?x @ z)" by auto
      then show "a = b \<and> t' \<noteq> [] \<and> join_with '','' (map step_text t') @ '']'' = ?x @ z"
        using y(1) by (auto simp: rest_text_def split: if_splits)
    qed (auto simp: rest_text_def)
    then have e: "starts_with (step_text a @ CHR '','' # ?x) (step_text b @ rest_text t') \<longleftrightarrow>
        a = b \<and> t' \<noteq> [] \<and> starts_with ?x (join_with '','' (map step_text t') @ '']'')"
      unfolding starts_with_iff by blast
    show ?thesis
    proof (cases "s = []")
      case True
      then show ?thesis using e unfolding l t join_steps by (cases t') (auto simp: starts_with_def)
    next
      case False
      have "(\<exists>u r. t' = s @ u # r) \<Longrightarrow> t' \<noteq> []" by auto
      then show ?thesis using e Cons.IH [OF False, of t'] False unfolding l t join_steps by auto
    qed
  qed
qed simp

lemma butlast_pathKey: "butlast (pathKey path) = CHR ''['' # join_with '','' (map step_text path)"
  by (simp add: pathKey_def butlast_append)

text \<open>A placement's key tells whether it sits inside another one's entry.\<close>

lemma pathKey_inside:
  "s \<noteq> [] \<Longrightarrow> starts_with (butlast (pathKey s) @ '','') (pathKey t) \<longleftrightarrow> (\<exists>u r. t = s @ u # r)"
  unfolding butlast_pathKey path_text_prefix [symmetric] by (simp add: pathKey_def starts_with_def)

lemma pathKey_inject: "s \<noteq> [] \<Longrightarrow> t \<noteq> [] \<Longrightarrow> pathKey s = pathKey t \<Longrightarrow> s = t"
proof -
  have "join_with '','' (map step_text s) @ '']'' = join_with '','' (map step_text t) @ '']'' \<Longrightarrow> s \<noteq> [] \<Longrightarrow> t \<noteq> [] \<Longrightarrow> s = t" for s t
  proof (induction s arbitrary: t)
    case (Cons a s)
    obtain b t' where t: "t = b # t'" using Cons.prems(3) by (cases t) auto
    obtain c x d y where y: "rest_text s = c # x" "rest_text t' = d # y" "c \<in> {CHR '','', CHR '']''}" "d \<in> {CHR '','', CHR '']''}"
      using rest_text_head [of s] rest_text_head [of t'] by blast
    have "step_text a @ c # x = step_text b @ d # y"
      using Cons.prems(1) unfolding t join_steps y(1,2) .
    from step_text_prefix [OF this y(3,4)] have "a = b" "rest_text s = rest_text t'" using y by simp_all
    then show ?case using Cons.IH [of t'] t by (cases "s = []"; cases "t' = []") (auto simp: rest_text_def)
  qed simp
  then show "s \<noteq> [] \<Longrightarrow> t \<noteq> [] \<Longrightarrow> pathKey s = pathKey t \<Longrightarrow> s = t" by (simp add: pathKey_def)
qed

section \<open>Linkages as the engine keeps them\<close>

text \<open>Each placement is keyed by its path, the path ends at its entry, and no key is used twice.\<close>

definition keyed :: "BlockLinkage \<Rightarrow> bool" where
  "keyed linkage =
     (list_all (\<lambda>p. pb_path p \<noteq> [] \<and> pb_key p = pathKey (pb_path p)) (placed linkage) \<and>
      distinct (map pb_key (placed linkage)))"

lemma outermost_iff:
  "keyed linkage \<Longrightarrow> p \<in> set (outermostUses linkage) \<longleftrightarrow>
     p \<in> set (placed linkage) \<and> (case pb_parent p of None \<Rightarrow> True | Some k \<Rightarrow> k \<notin> pb_key ` set (placed linkage))"
  by (auto simp: outermostUses_def keyed_def list_all_iff pathKey_nonempty [THEN not_sym] split: option.splits)

lemma filter_key_remove:
  "distinct (map f xs) \<Longrightarrow> find_index (\<lambda>x. f x = k) xs = Some i \<Longrightarrow>
   take i xs @ drop (Suc i) xs = filter (\<lambda>x. f x \<noteq> k) xs"
proof (induction xs arbitrary: i)
  case (Cons x xs)
  show ?case
  proof (cases "f x = k")
    case True
    have "f y \<noteq> k" if "y \<in> set xs" for y
      using imageI [OF that, of f] Cons.prems(1) True by auto
    then have "filter (\<lambda>x. f x \<noteq> k) xs = xs" by (simp add: filter_id_conv)
    with True show ?thesis using Cons.prems by auto
  next
    case False
    then obtain j where "find_index (\<lambda>x. f x = k) xs = Some j" "i = Suc j" using Cons.prems(2) by auto
    then show ?thesis using Cons False by simp
  qed
qed simp

text \<open>
  Detaching a use fails exactly when nothing is placed under the key or the placement sits
  inside another attached use.  Otherwise it removes that placement and no other, and what becomes
  detachable next is what was, without it, together with the uses directly inside it.
\<close>

theorem detachUse_outermost:
  assumes "keyed linkage"
  shows "case detachUse linkage key of
     Inl e \<Rightarrow> (key \<notin> pb_key ` set (placed linkage) \<and> e = NoUsePlaced key) \<or>
       (\<exists>p \<in> set (placed linkage). pb_key p = key \<and> p \<notin> set (outermostUses linkage) \<and> e = InsideAnotherUse (pb_address p))
   | Inr linkage' \<Rightarrow>
       (\<exists>p \<in> set (outermostUses linkage). pb_key p = key) \<and>
       placed linkage' = filter (\<lambda>q. pb_key q \<noteq> key) (placed linkage) \<and>
       definitions linkage' = definitions linkage \<and> keyed linkage' \<and>
       set (outermostUses linkage') =
         {q \<in> set (outermostUses linkage). pb_key q \<noteq> key}
         \<union> {q \<in> set (placed linkage). pb_parent q = Some key \<and> pb_key q \<noteq> key}"
proof (cases "find_index (\<lambda>p. pb_key p = key) (placed linkage)")
  case None
  then have "\<forall>p \<in> set (placed linkage). pb_key p \<noteq> key" by (simp only: find_index_None)
  then show ?thesis using None by (auto simp: detachUse_def)
next
  case (Some i)
  have i: "i < length (placed linkage)" "pb_key (placed linkage ! i) = key"
    using find_index_Some [OF Some] by auto
  let ?p = "placed linkage ! i"
  have mem: "?p \<in> set (placed linkage)" using i by simp
  have d: "distinct (map pb_key (placed linkage))" using assms by (simp add: keyed_def)
  show ?thesis
  proof (cases "?p \<in> set (outermostUses linkage)")
    case False
    then show ?thesis using Some mem i by (auto simp: detachUse_def Let_def)
  next
    case True
    let ?L = "linkage\<lparr>placed := filter (\<lambda>q. pb_key q \<noteq> key) (placed linkage)\<rparr>"
    have L: "detachUse linkage key = Inr ?L"
      using Some True filter_key_remove [OF d Some] by (simp add: detachUse_def Let_def)
    have k: "keyed ?L"
      using assms d by (auto simp: keyed_def list_all_iff distinct_map intro: inj_on_subset)
    have uniq: "q = ?p" if "q \<in> set (placed linkage)" "pb_key q = key" for q
      using d that mem i(2) by (auto simp: distinct_map dest: inj_onD)
    have "set (outermostUses ?L) = {q \<in> set (outermostUses linkage). pb_key q \<noteq> key}
         \<union> {q \<in> set (placed linkage). pb_parent q = Some key \<and> pb_key q \<noteq> key}"
      unfolding set_eq_iff outermost_iff [OF k] Un_iff mem_Collect_eq outermost_iff [OF assms]
      by (auto split: option.splits)
    then show ?thesis using L k True i by auto
  qed
qed


section \<open>Making a block\<close>

text \<open>
  Turning a configured service into a block succeeds exactly when its path ends in an entry
  with an id and its document has no block of that id.  The outermost uses of that runtime that lie
  inside the service become uses inside the new one, every other placement is as it was, and the
  new placement stands for the service itself.
\<close>

theorem withBlockFrom_reparents:
  assumes "keyed (linkageOr linkage)" and "list_all (\<lambda>p. pb_parent p \<noteq> Some []) (placed (linkageOr linkage))"
  shows "case withBlockFrom linkage runtimeId document path block of
     Inl e \<Rightarrow>
       (e = NoEntryId \<and> (path = [] \<or> step_id (last path) = None)) \<or>
       (e = BlockExists (def_id block) \<and>
        def_id block \<in> def_id ` set (definitionsOf (definitions (linkageOr linkage)) document))
   | Inr linkage' \<Rightarrow>
       (\<exists>i. path \<noteq> [] \<and> last path = Id i \<and>
        placed linkage' =
          map (\<lambda>p. if pb_parent p = None \<and> pb_runtimeId p = runtimeId \<and> (\<exists>s r. pb_path p = path @ s # r)
                   then p\<lparr>pb_parent := Some (pathKey path)\<rparr> else p) (placed (linkageOr linkage))
          @ [\<lparr>pb_key = pathKey path, pb_runtimeId = runtimeId, pb_path = path, pb_address = addressOf path, pb_id = i,
              pb_use = [(''block'', oget block ''id''), (if length path = 2 then ''uuid'' else ''instanceId'', JStr i)],
              pb_parent = None, pb_document = document\<rparr>])
       \<and> definitionsOf (definitions linkage') document
           = definitionsOf (definitions (linkageOr linkage)) document @ [block]
       \<and> def_id block \<notin> def_id ` set (definitionsOf (definitions (linkageOr linkage)) document)"
proof (cases "path = [] \<or> step_id (last path) = None")
  case True
  then show ?thesis by (auto simp: withBlockFrom_def)
next
  case False
  then obtain i where i: "path \<noteq> []" "last path = Id i" by (cases "last path") auto
  show ?thesis
  proof (cases "def_id block \<in> def_id ` set (definitionsOf (definitions (linkageOr linkage)) document)")
    case True
    then show ?thesis using i by (simp add: withBlockFrom_def Let_def)
  next
    case new: False
    let ?c = "\<lambda>p. (case pb_parent p of None \<Rightarrow> True | Some parent \<Rightarrow> parent = []) \<and> pb_runtimeId p = runtimeId
        \<and> starts_with (butlast (pathKey path) @ '','') (pb_key p)"
    have "?c p \<longleftrightarrow> pb_parent p = None \<and> pb_runtimeId p = runtimeId \<and> (\<exists>s r. pb_path p = path @ s # r)"
      if "p \<in> set (placed (linkageOr linkage))" for p
    proof -
      have "pb_key p = pathKey (pb_path p)" "pb_parent p \<noteq> Some []"
        using assms that by (simp_all add: keyed_def list_all_iff)
      then show ?thesis using pathKey_inside [OF i(1), of "pb_path p"] by (simp split: option.split)
    qed
    then have "map (\<lambda>p. if ?c p then p\<lparr>pb_parent := Some (pathKey path)\<rparr> else p) (placed (linkageOr linkage)) =
        map (\<lambda>p. if pb_parent p = None \<and> pb_runtimeId p = runtimeId \<and> (\<exists>s r. pb_path p = path @ s # r)
                 then p\<lparr>pb_parent := Some (pathKey path)\<rparr> else p) (placed (linkageOr linkage))"
      by (intro map_cong_set) auto
    then show ?thesis using i new by (simp add: withBlockFrom_def Let_def definitionsOf_def)
  qed
qed

section \<open>Adopting a definition\<close>

lemma omit_oput: "k \<in> set ks \<Longrightarrow> omit ks (oput k v es) = omit ks es"
  unfolding omit_def by (induction k v es rule: oput.induct) auto

lemma omit_omit: "set ks' \<subseteq> set ks \<Longrightarrow> omit ks (omit ks' es) = omit ks es"
  unfolding omit_def by (auto simp: filter_filter intro!: filter_cong)

lemma definitionContent_copy:
  "definitionContent (oput ''id'' (JStr i) (omit [''preset'', ''origin''] definition)) = definitionContent definition"
  by (simp add: definitionContent_def omit_oput omit_omit)

lemma find_append_none: "find P xs = None \<Longrightarrow> find P (xs @ ys) = find P ys"
  by (induction xs) auto

lemma freeDefinitionId_fresh: "freeDefinitionId i taken \<notin> set taken"
  by (simp add: freeDefinitionId_def first_free_not_taken)

lemma find_distinct_id:
  assumes "distinct (map def_id defs)" "d \<in> set defs"
  shows "definitionMap defs (def_id d) = Some d"
proof -
  let ?es = "map (\<lambda>definition. (def_id definition, definition)) defs"
  have d: "distinct (map fst ?es)" using assms(1) by (simp add: o_def)
  have "(def_id d, d) \<in> set ?es" using assms(2) by simp
  then show ?thesis
    unfolding definitionMap_def map_of_rev_distinct [OF d] by (rule map_of_is_SomeI [OF d])
qed

text \<open>
  Adopting a definition into a document leaves it there under the id returned: that id names a
  definition saying the same, whatever is already defined is still there under its own id, no other
  document changes and no use does, and adopting it again adds nothing.
\<close>

theorem withAdoptedDefinition_adopts:
  assumes "distinct (map def_id (definitionsOf (definitions (linkageOr linkage)) document))"
    and "withAdoptedDefinition linkage document definition = (linkage', i)"
  shows "(\<exists>d. definitionMap (definitionsOf (definitions linkage') document) i = Some d
            \<and> definitionContent d = definitionContent definition)
    \<and> (\<exists>new. definitionsOf (definitions linkage') document
            = definitionsOf (definitions (linkageOr linkage)) document @ new \<and> length new \<le> 1)
    \<and> distinct (map def_id (definitionsOf (definitions linkage') document))
    \<and> (\<forall>other. other \<noteq> document \<longrightarrow>
          definitionsOf (definitions linkage') other = definitionsOf (definitions (linkageOr linkage)) other)
    \<and> placed linkage' = placed (linkageOr linkage)
    \<and> withAdoptedDefinition (Some linkage') document definition = (linkage', i)"
proof -
  let ?defs = "definitionsOf (definitions (linkageOr linkage)) document"
  show ?thesis
  proof (cases "findSameDefinition ?defs definition")
    case (Some same)
    then have "linkage' = linkageOr linkage" "i = def_id same"
      using assms(2) by (simp_all add: withAdoptedDefinition_def Let_def)
    moreover have "same \<in> set ?defs" "definitionContent same = definitionContent definition"
      using Some by (auto simp: findSameDefinition_def find_Some_iff)
    ultimately show ?thesis
      using Some assms(1) find_distinct_id [OF assms(1)]
      by (auto simp: withAdoptedDefinition_def linkageOr_def)
  next
    case None
    let ?i = "freeDefinitionId (def_id definition) (map def_id ?defs)"
    let ?d = "oput ''id'' (JStr ?i) (omit [''preset'', ''origin''] definition)"
    have L: "linkage' = (linkageOr linkage)\<lparr>definitions := oput document (?defs @ [?d]) (definitions (linkageOr linkage))\<rparr>" "i = ?i"
      using None assms(2) by (auto simp: withAdoptedDefinition_def Let_def)
    have id: "def_id ?d = ?i" by (simp add: def_id_def)
    have defs: "definitionsOf (definitions linkage') document = ?defs @ [?d]" by (simp add: L definitionsOf_def)
    have dist: "distinct (map def_id (?defs @ [?d]))"
      using assms(1) freeDefinitionId_fresh [of "def_id definition" "map def_id ?defs"] by (simp add: id)
    have at: "definitionMap (?defs @ [?d]) ?i = Some ?d"
      using find_distinct_id [OF dist, of ?d] by (simp add: id)
    have "find (\<lambda>entry. definitionContent entry = definitionContent definition) (?defs @ [?d]) = Some ?d"
      using None definitionContent_copy by (auto simp: findSameDefinition_def find_append_none)
    then have again: "withAdoptedDefinition (Some linkage') document definition = (linkage', i)"
      by (simp add: withAdoptedDefinition_def linkageOr_def [of "Some linkage'"] defs findSameDefinition_def L(2) id)
    show ?thesis
      using dist at again definitionContent_copy by (simp add: defs L(2)) (simp add: L(1) definitionsOf_def)
  qed
qed

section \<open>Setting a use's parameters\<close>

text \<open>The placements inside another one, at any depth.\<close>

inductive inside :: "PlacedBlock list \<Rightarrow> string \<Rightarrow> string \<Rightarrow> bool" for entries key where
  direct: "p \<in> set entries \<Longrightarrow> pb_parent p = Some key \<Longrightarrow> key \<noteq> [] \<Longrightarrow> inside entries key (pb_key p)"
| deeper: "p \<in> set entries \<Longrightarrow> pb_parent p = Some k \<Longrightarrow> k \<noteq> [] \<Longrightarrow> inside entries key k \<Longrightarrow> inside entries key (pb_key p)"

lemma descendantPass_sound:
  assumes "\<forall>k \<in> set found. inside entries key k" "set ps \<subseteq> set entries"
  shows "\<forall>k \<in> set (descendantPass key ps found). inside entries key k"
  using assms unfolding descendantPass_def
proof (induction ps arbitrary: found)
  case (Cons p ps)
  have "\<forall>k \<in> set (case pb_parent p of None \<Rightarrow> found
      | Some parent \<Rightarrow> if parent \<noteq> [] \<and> (parent = key \<or> parent \<in> set found) \<and> pb_key p \<notin> set found
                       then found @ [pb_key p] else found). inside entries key k"
    using Cons.prems by (auto split: option.splits intro: inside.intros)
  then show ?case using Cons by simp
qed simp

lemma descendantPass_mono: "set found \<subseteq> set (descendantPass key ps found)"
  using descendantPass_grows [of key ps found] by auto

lemma descendantPass_adds:
  assumes "p \<in> set ps" "pb_parent p = Some k" "k \<noteq> []" "k = key \<or> k \<in> set found"
  shows "pb_key p \<in> set (descendantPass key ps found)"
  using assms(1,4) unfolding descendantPass_def
proof (induction ps arbitrary: found)
  case (Cons q ps)
  let ?f = "case pb_parent q of None \<Rightarrow> found
      | Some parent \<Rightarrow> if parent \<noteq> [] \<and> (parent = key \<or> parent \<in> set found) \<and> pb_key q \<notin> set found
                       then found @ [pb_key q] else found"
  have sub: "set found \<subseteq> set ?f" by (auto split: option.splits)
  show ?case
  proof (cases "p = q")
    case True
    then have "pb_key p \<in> set ?f" using Cons.prems assms(2,3) by auto
    then show ?thesis using descendantPass_mono [of ?f key ps] unfolding descendantPass_def by auto
  next
    case False
    then have "p \<in> set ps" "k = key \<or> k \<in> set ?f" using Cons.prems sub by auto
    from Cons.IH [OF this] show ?thesis by simp
  qed
qed simp

lemma descendants_closed:
  "descendantPass key entries (descendants key entries found) = descendants key entries found"
proof (induction key entries found rule: descendants.induct)
  case (1 key entries found)
  then show ?case by (cases "descendantPass key entries found = found") (simp_all add: descendants.simps Let_def)
qed

lemma descendants_sound:
  "\<forall>k \<in> set found. inside entries key k \<Longrightarrow> \<forall>k \<in> set (descendants key entries found). inside entries key k"
proof (induction key entries found rule: descendants.induct)
  case (1 key entries found)
  then show ?case
    using descendantPass_sound [of found entries key entries]
    by (cases "descendantPass key entries found = found") (simp_all add: descendants.simps [of key entries found] Let_def)
qed

lemma descendantsOf_inside: "k \<in> set (descendantsOf entries key) \<longleftrightarrow> inside entries key k"
proof
  show "k \<in> set (descendantsOf entries key) \<Longrightarrow> inside entries key k"
    using descendants_sound [of "[]"] by (simp add: descendantsOf_def)
  show "inside entries key k \<Longrightarrow> k \<in> set (descendantsOf entries key)"
  proof (induction k rule: inside.induct)
    case (direct p)
    then show ?case
      using descendantPass_adds [of p entries key key] descendants_closed [of key entries "[]"]
      by (metis descendantsOf_def)
  next
    case (deeper p k)
    then show ?case
      using descendantPass_adds [of p entries k key] descendants_closed [of key entries "[]"]
      by (metis descendantsOf_def)
  qed
qed

lemma expandUse_first:
  assumes "expandUse rng ctx use i path stack parent out = (z, out')"
    "definitionMap (ctx_definitions ctx) (useBlock use) = Some d" "def_id d \<notin> set stack"
  shows "\<exists>p ps. added out out' = p # ps \<and> pb_path p = path @ [Id i] \<and> pb_key p = pathKey (path @ [Id i]) \<and> pb_parent p = parent
      \<and> pb_runtimeId p = ctx_runtimeId ctx \<and> pb_document p = ctx_document ctx"
proof -
  have "\<exists>inst. placeUse rng ctx use i path stack parent out = Inr inst"
    using assms(2,3) by (auto simp: placeUse_def Let_def split: prod.splits)
  then obtain inst where inst: "placeUse rng ctx use i path stack parent out = Inr inst" by blast
  from placeUse_out(2) [OF this] obtain p where
    p: "in_path inst = path @ [Id i]" "out_placed (in_out inst) = out_placed out @ [p]" "pb_key p = pathKey (in_path inst)" "pb_parent p = parent"
        "pb_path p = in_path inst" "pb_document p = ctx_document ctx" "pb_runtimeId p = ctx_runtimeId ctx" by blast
  obtain st out2 where w: "walk rng ctx (oget (in_service inst) ''state'') (in_path inst @ [Key ''state''])
      (stack @ [in_definition inst]) (Some (pathKey (in_path inst))) (in_out inst) = (st, out2)" by fastforce
  have "out' = out2" using assms(1) inst w by (simp add: expandUse.simps)
  moreover have e2: "extends (in_out inst) out2" using walk_adds(2) [OF w] by (simp add: adds_under_def)
  moreover have e1: "extends out (in_out inst)" and a1: "added out (in_out inst) = [p]"
    by (rule extendsI [OF p(2)], rule added_eq [OF p(2)])
  ultimately have "added out out' = p # added (in_out inst) out2" using added_trans [OF e1 e2] a1 by simp
  then show ?thesis using p by auto
qed

text \<open>
  Setting a use's parameters fails exactly when nothing is placed under the key.  Otherwise the
  definitions and every placement outside that use stay, all placements inside it are made anew,
  and, where its block is defined and does not contain the use itself, the use is placed again at
  the place it had, under the key it had.
\<close>

theorem withUseParams_local:
  assumes "keyed linkage" and "list_all (\<lambda>p. last (pb_path p) = Id (pb_id p)) (placed linkage)"
  shows "case withUseParams rng calls linkage key params of
     Inl e \<Rightarrow> e = NoUsePlaced key \<and> key \<notin> pb_key ` set (placed linkage)
   | Inr r \<Rightarrow>
       (\<exists>p new. p \<in> set (placed linkage) \<and> pb_key p = key \<and>
          definitions (re_linkage r) = definitions linkage \<and>
          placed (re_linkage r) =
            filter (\<lambda>q. pb_key q \<noteq> key \<and> \<not> inside (placed linkage) key (pb_key q)) (placed linkage) @ new \<and>
          (\<forall>d. definitionMap (definitionsOf (definitions linkage) (pb_document p)) (useBlock (pb_use p)) = Some d \<and>
               def_id d \<notin> set (ancestorBlocks linkage p) \<longrightarrow>
             (\<exists>q qs. new = q # qs \<and> pb_key q = key \<and> pb_path q = pb_path p \<and> pb_parent q = pb_parent p \<and>
                pb_runtimeId q = pb_runtimeId p \<and> pb_document q = pb_document p)))"
proof (cases "find (\<lambda>p. pb_key p = key) (placed linkage)")
  case None
  then have "key \<notin> pb_key ` set (placed linkage)" by (auto simp: find_None_iff)
  then show ?thesis using None by (simp add: withUseParams_def)
next
  case (Some p)
  have p: "p \<in> set (placed linkage)" "pb_key p = key" using Some by (auto simp: find_Some_iff)
  let ?ctx = "contextFor (definitions linkage) (pb_runtimeId p) (pb_document p)"
  let ?use = "oput ''params'' (JObj params) (pb_use p)"
  let ?out = "\<lparr>out_placed = [], out_diagnostics = [], out_calls = calls\<rparr>"
  obtain service out where e: "expandUse rng ?ctx ?use (pb_id p) (butlast (pb_path p)) (ancestorBlocks linkage p) (pb_parent p) ?out = (service, out)"
    by fastforce
  have path: "butlast (pb_path p) @ [Id (pb_id p)] = pb_path p"
    using assms p by (simp add: keyed_def list_all_iff) (metis append_butlast_last_id)
  have key: "pathKey (pb_path p) = key" using assms(1) p by (auto simp: keyed_def list_all_iff)
  have use: "useBlock ?use = useBlock (pb_use p)" by (simp add: useBlock_def)
  have a: "added ?out out = out_placed out" by (simp add: added_def)
  have first: "\<exists>q qs. out_placed out = q # qs \<and> pb_key q = key \<and> pb_path q = pb_path p \<and> pb_parent q = pb_parent p \<and>
                pb_runtimeId q = pb_runtimeId p \<and> pb_document q = pb_document p"
    if "definitionMap (definitionsOf (definitions linkage) (pb_document p)) (useBlock (pb_use p)) = Some d"
      "def_id d \<notin> set (ancestorBlocks linkage p)" for d
  proof -
    have "\<exists>q qs. added ?out out = q # qs \<and> pb_path q = butlast (pb_path p) @ [Id (pb_id p)] \<and>
        pb_key q = pathKey (butlast (pb_path p) @ [Id (pb_id p)]) \<and> pb_parent q = pb_parent p \<and>
        pb_runtimeId q = ctx_runtimeId ?ctx \<and> pb_document q = ctx_document ?ctx"
      by (rule expandUse_first [OF e, of d]) (use that in \<open>simp_all add: contextFor_def use\<close>)
    then show ?thesis unfolding a path key by (auto simp: contextFor_def)
  qed
  have "withUseParams rng calls linkage key params = Inr \<lparr>re_linkage = linkage\<lparr>placed :=
          filter (\<lambda>q. pb_key q \<noteq> key \<and> \<not> inside (placed linkage) key (pb_key q)) (placed linkage) @ out_placed out\<rparr>,
       re_service = service, re_diagnostics = out_diagnostics out\<rparr>"
    using Some e by (simp add: withUseParams_def Let_def descendantsOf_inside)
  then show ?thesis using p first by auto
qed

section \<open>An example\<close>

definition noteBlock :: obj where
  "noteBlock =
     [(''id'', JStr ''note''), (''serviceId'', JStr ''sub-service''), (''name'', JStr ''Note''),
      (''state'', JObj [(''pipeline'', JArr [JObj [(''instanceId'', JStr ''m''), (''serviceId'', JStr ''monitor''),
         (''state'', JObj [(''t'', JStr ''{{param.trigger}}'')])]])]),
      (''params'', JObj [(''trigger'', JStr ''x'')])]"

definition noteServices :: obj where
  "noteServices =
     [(''rt'', JArr
        [JObj [(''block'', JStr ''note''), (''uuid'', JStr ''kick''), (''params'', JObj [(''trigger'', JStr ''kick'')])],
         JObj [(''block'', JStr ''note'')],
         JObj [(''uuid'', JStr ''m''), (''serviceId'', JStr ''monitor'')]])]"

definition noteLinkage :: BlockLinkage where
  "noteLinkage =
     \<lparr>definitions = [('''', [noteBlock])],
      placed = [\<lparr>pb_key = pathKey [Key ''rt'', Id ''kick''], pb_runtimeId = ''rt'', pb_path = [Key ''rt'', Id ''kick''],
        pb_address = ''kick'', pb_id = ''kick'', pb_use = [(''block'', JStr ''note''), (''uuid'', JStr ''kick'')],
        pb_parent = None, pb_document = ''''\<rparr>],
      editing = None\<rparr>"

theorem collapseBlocks_expandBlocks_witness:
  "collapseBlocks (JObj (fst (expandBlocks (\<lambda>_. []) noteServices [('''', [noteBlock])] (\<lambda>_. '''') 0)))
     \<lparr>definitions = [('''', [noteBlock])],
      placed = out_placed (snd (expandBlocks (\<lambda>_. []) noteServices [('''', [noteBlock])] (\<lambda>_. '''') 0)),
      editing = None\<rparr> None = JObj noteServices"
proof (rule collapseBlocks_expandBlocks)
  show "canon_keys (okeys noteServices)" by code_simp
  show "\<forall>(runtimeId, list) \<in> set noteServices. restorable (contextFor [('''', [noteBlock])] runtimeId ((\<lambda>_. '''') runtimeId)) list"
    by code_simp
qed (rule prod.collapse [symmetric])

lemma keyed_note: "keyed noteLinkage"
  by (simp add: keyed_def noteLinkage_def)

theorem detachUse_outermost_witness:
  "\<exists>linkage'. detachUse noteLinkage (pathKey [Key ''rt'', Id ''kick'']) = Inr linkage' \<and> placed linkage' = []"
  using detachUse_outermost [OF keyed_note, of "pathKey [Key ''rt'', Id ''kick'']"]
  by (simp add: noteLinkage_def detachUse_def outermostUses_def)

theorem withUseParams_local_witness:
  "\<exists>r q qs. withUseParams (\<lambda>_. []) 0 noteLinkage (pathKey [Key ''rt'', Id ''kick'']) [(''trigger'', JStr ''snare'')] = Inr r
     \<and> placed (re_linkage r) = q # qs \<and> pb_path q = [Key ''rt'', Id ''kick'']"
proof -
  let ?k = "pathKey [Key ''rt'', Id ''kick'']"
  let ?r = "withUseParams (\<lambda>_. []) 0 noteLinkage ?k [(''trigger'', JStr ''snare'')]"
  have l: "list_all (\<lambda>p. last (pb_path p) = Id (pb_id p)) (placed noteLinkage)" by (simp add: noteLinkage_def)
  note t = withUseParams_local [OF keyed_note l, where rng = "\<lambda>_. []" and calls = 0 and key = ?k and params = "[(''trigger'', JStr ''snare'')]"]
  have k: "?k \<in> pb_key ` set (placed noteLinkage)" by (simp add: noteLinkage_def)
  then obtain r where r: "?r = Inr r" using t by (cases ?r) auto
  obtain p new where p: "p \<in> set (placed noteLinkage)"
    "placed (re_linkage r) = filter (\<lambda>q. pb_key q \<noteq> ?k \<and> \<not> inside (placed noteLinkage) ?k (pb_key q)) (placed noteLinkage) @ new"
    "\<forall>d. definitionMap (definitionsOf (definitions noteLinkage) (pb_document p)) (useBlock (pb_use p)) = Some d \<and>
               def_id d \<notin> set (ancestorBlocks noteLinkage p) \<longrightarrow>
             (\<exists>q qs. new = q # qs \<and> pb_key q = ?k \<and> pb_path q = pb_path p \<and> pb_parent q = pb_parent p \<and>
                pb_runtimeId q = pb_runtimeId p \<and> pb_document q = pb_document p)"
    using t unfolding r sum.case by (elim exE conjE) (rule that)
  have "p = placed noteLinkage ! 0" using p(1) by (simp add: noteLinkage_def)
  then have pp: "pb_path p = [Key ''rt'', Id ''kick'']" "pb_document p = ''''" "useBlock (pb_use p) = ''note''" "pb_parent p = None"
    by (simp_all add: noteLinkage_def useBlock_def)
  have a: "ancestorBlocks noteLinkage p = []"
    by (simp add: ancestorBlocks_def noteLinkage_def parentOf_def pp)
  have d: "definitionMap (definitionsOf (definitions noteLinkage) '''') ''note'' = Some noteBlock"
    by (simp add: definitionMap_def definitionsOf_def noteLinkage_def def_id_def noteBlock_def)
  obtain q qs where "new = q # qs" "pb_path q = [Key ''rt'', Id ''kick'']"
    using p(3) [rule_format, of noteBlock] unfolding pp a d by auto
  moreover have "filter (\<lambda>q. pb_key q \<noteq> ?k \<and> \<not> inside (placed noteLinkage) ?k (pb_key q)) (placed noteLinkage) = []"
    by (simp add: noteLinkage_def)
  ultimately show ?thesis using r p(2) by auto
qed

theorem withBlockFrom_reparents_witness:
  "\<exists>linkage'. withBlockFrom None ''rt'' '''' [Key ''rt'', Id ''s''] noteBlock = Inr linkage'
     \<and> definitionsOf (definitions linkage') '''' = [noteBlock]"
proof -
  have "keyed (linkageOr None)" "list_all (\<lambda>p. pb_parent p \<noteq> Some []) (placed (linkageOr None))"
    by (simp_all add: keyed_def linkageOr_def emptyLinkage_def)
  from withBlockFrom_reparents [OF this, where runtimeId = "''rt''" and document = "''''" and path = "[Key ''rt'', Id ''s'']" and block = noteBlock] show ?thesis
    by (simp add: withBlockFrom_def linkageOr_def emptyLinkage_def definitionsOf_def Let_def)
qed

theorem withAdoptedDefinition_adopts_witness:
  "\<exists>linkage' i. withAdoptedDefinition (Some noteLinkage) '''' (oput ''id'' (JStr ''b'') noteBlock) = (linkage', i)
     \<and> definitionMap (definitionsOf (definitions linkage') '''') i \<noteq> None"
proof -
  obtain linkage' i where a: "withAdoptedDefinition (Some noteLinkage) '''' (oput ''id'' (JStr ''b'') noteBlock) = (linkage', i)"
    by fastforce
  have "distinct (map def_id (definitionsOf (definitions (linkageOr (Some noteLinkage))) ''''))"
    by (simp add: linkageOr_def noteLinkage_def definitionsOf_def)
  from withAdoptedDefinition_adopts [OF this a] show ?thesis using a by auto
qed

end
