(* ===== verification/BoardRemote.thy ===== *)
theory BoardRemote
  imports BoardTraversal JsText
begin

text \<open>
  How a board says which runtime server a runtime belongs on, and how this client turns that into
  an address (\<^verbatim>\<open>hkp-frontend/src/runtime/board/remote.ts\<close>, \<^verbatim>\<open>runtimeUrl.ts\<close>).  A thrown
  \<^verbatim>\<open>RuntimeAddressingError\<close> is the left of a sum.
\<close>

section \<open>Vocabulary\<close>

text \<open>\<^verbatim>\<open>aliases\<close> is what the stored value is, which the code does not trust to be a list.\<close>

record KnownRemote =
  kr_name :: string
  kr_url :: "string option"
  kr_type :: "string option"
  kr_aliases :: jsval

record AddressedRuntime =
  ar_id :: string
  ar_url :: "string option"
  ar_remote :: jsval

datatype RuntimeAddressing = AtUrl string | AtRemote string "string option" | NoAddress

record RuntimeAddressingError =
  rae_runtimeId :: string
  rae_message :: string

definition REMOTE_URL_PREFIX :: string where
  "REMOTE_URL_PREFIX = ''hkp://remotes/''"

definition EMBEDDED_REMOTE_NAME :: string where
  "EMBEDDED_REMOTE_NAME = ''embedded''"

definition isEmbedded :: "KnownRemote \<Rightarrow> bool" where
  "isEmbedded remote = (case kr_url remote of Some url \<Rightarrow> starts_with REMOTE_URL_PREFIX url | None \<Rightarrow> False)"

definition embeddedRemote :: "KnownRemote list \<Rightarrow> KnownRemote option" where
  "embeddedRemote remotes = find isEmbedded remotes"

definition SHARED_REMOTE_NAMES :: "(string \<times> string) list" where
  "SHARED_REMOTE_NAMES = [(''node'', ''hkp-node''), (''python'', ''hkp-python'')]"

definition sharedRemoteKind :: "string \<Rightarrow> string option" where
  "sharedRemoteKind name = map_of SHARED_REMOTE_NAMES name"

definition unknownRemoteMessage :: "string \<Rightarrow> string \<Rightarrow> string" where
  "unknownRemoteMessage runtimeId name =
     (if name = EMBEDDED_REMOTE_NAME then
        ''Runtime \"'' @ runtimeId @ ''\" wants the runtime the Readymade app embeds (\"'' @ EMBEDDED_REMOTE_NAME
        @ ''\"), and there is none here. Open the board in the app, or keep a runtime server under that name''
      else
        let unknown = ''Runtime \"'' @ runtimeId @ ''\" wants the remote \"'' @ name
              @ ''\", which this client does not know''
        in case sharedRemoteKind name of
             Some kind \<Rightarrow>
               if kind \<noteq> [] then
                 unknown @ ''. \"'' @ name @ ''\" is what a board calls an '' @ kind
                 @ '' runtime server: keep yours under that name, with the address it runs at, and open the board again''
               else unknown
           | None \<Rightarrow> unknown)"

section \<open>Names\<close>

definition cleanAliases :: "string \<Rightarrow> jsval \<Rightarrow> string list" where
  "cleanAliases name aliases =
     fold (\<lambda>alias kept.
             let trimmed = (case alias of JStr s \<Rightarrow> js_trim s | _ \<Rightarrow> '''')
             in if trimmed \<noteq> [] \<and> trimmed \<noteq> name \<and> trimmed \<notin> set kept then kept @ [trimmed] else kept)
       (js_arr aliases) []"

definition remoteNames :: "KnownRemote \<Rightarrow> string list" where
  "remoteNames remote = kr_name remote # cleanAliases (kr_name remote) (kr_aliases remote)"

definition findRemote :: "KnownRemote list \<Rightarrow> string \<Rightarrow> KnownRemote option" where
  "findRemote remotes name =
     (case find (\<lambda>remote. kr_name remote = name) remotes of
        Some remote \<Rightarrow> Some remote
      | None \<Rightarrow> find (\<lambda>remote. name \<in> set (remoteNames remote)) remotes)"

definition withAlias :: "KnownRemote \<Rightarrow> string \<Rightarrow> KnownRemote" where
  "withAlias remote alias =
     (let wanted = js_trim alias
      in if wanted = [] \<or> wanted \<in> set (remoteNames remote) then remote
         else remote\<lparr>kr_aliases :=
           JArr (map JStr (cleanAliases (kr_name remote) (JArr (js_arr (kr_aliases remote) @ [JStr wanted]))))\<rparr>)"

text \<open>\<^verbatim>\<open>(value ?? "").replace(/\/+$/, "")\<close>\<close>

definition address :: "string option \<Rightarrow> string" where
  "address url = (case url of None \<Rightarrow> '''' | Some u \<Rightarrow> rev (dropWhile (\<lambda>c. c = CHR ''/'') (rev u)))"

definition remoteNameForBoard :: "KnownRemote list \<Rightarrow> string option \<Rightarrow> string option" where
  "remoteNameForBoard remotes url =
     (case url of
        None \<Rightarrow> None
      | Some u \<Rightarrow>
          if u = [] then None
          else if address (Option.bind (embeddedRemote remotes) kr_url) = address url then Some EMBEDDED_REMOTE_NAME
          else
            (case find (\<lambda>remote. kr_url remote \<noteq> None \<and> kr_url remote \<noteq> Some [] \<and> address (kr_url remote) = address url)
                    remotes of
               None \<Rightarrow> None
             | Some kept \<Rightarrow>
                 (case find (\<lambda>name. sharedRemoteKind name \<noteq> None) (remoteNames kept) of
                    Some name \<Rightarrow> Some name
                  | None \<Rightarrow> Some (kr_name kept))))"

section \<open>What a document says\<close>

definition remoteNameFromUrl :: "string option \<Rightarrow> string option" where
  "remoteNameFromUrl url =
     (case url of
        None \<Rightarrow> None
      | Some u \<Rightarrow>
          (case strip REMOTE_URL_PREFIX u of
             None \<Rightarrow> None
           | Some rest \<Rightarrow>
               let name = takeWhile (\<lambda>c. c \<noteq> CHR ''/'' \<and> c \<noteq> CHR ''?'' \<and> c \<noteq> CHR ''#'') rest
               in if name = [] then None else Some name))"

definition addressingError :: "string \<Rightarrow> string \<Rightarrow> RuntimeAddressingError" where
  "addressingError runtimeId message = \<lparr>rae_runtimeId = runtimeId, rae_message = message\<rparr>"

fun mode_text :: "RuntimeAddressing \<Rightarrow> string" where
  "mode_text (AtUrl _) = ''url''"
| "mode_text (AtRemote _ (Some _)) = ''url''"
| "mode_text (AtRemote _ None) = ''remote''"
| "mode_text NoAddress = ''none''"

definition urlMode :: "string option \<Rightarrow> RuntimeAddressing list" where
  "urlMode url =
     (case url of
        None \<Rightarrow> []
      | Some u \<Rightarrow>
          if u = [] then []
          else (case remoteNameFromUrl url of
                  Some legacyName \<Rightarrow> [AtRemote legacyName (Some u)]
                | None \<Rightarrow> [AtUrl u]))"

definition addressingOf :: "AddressedRuntime \<Rightarrow> RuntimeAddressingError + RuntimeAddressing" where
  "addressingOf runtime =
     (case (case ar_remote runtime of
              JUndef \<Rightarrow> Inr []
            | JStr s \<Rightarrow>
                if js_trim s = [] then
                  Inl (addressingError (ar_id runtime)
                    (''Runtime \"'' @ ar_id runtime @ ''\": \"remote\" must be the name of a runtime server''))
                else Inr [AtRemote (js_trim s) None]
            | _ \<Rightarrow>
                Inl (addressingError (ar_id runtime)
                  (''Runtime \"'' @ ar_id runtime @ ''\": \"remote\" must be the name of a runtime server''))) of
        Inl e \<Rightarrow> Inl e
      | Inr remoteModes \<Rightarrow>
          (let modes = remoteModes @ urlMode (ar_url runtime) in
           if length modes > 1 then
             Inl (addressingError (ar_id runtime)
               (''Runtime \"'' @ ar_id runtime @ ''\" says where it runs more than once (''
                @ join_with '', '' (map mode_text modes)
                @ ''). A runtime names exactly one of \"url\" or \"remote\".''))
           else (case modes of [] \<Rightarrow> Inr NoAddress | m # _ \<Rightarrow> Inr m)))"

definition authoredAddressing :: "AddressedRuntime \<Rightarrow> obj" where
  "authoredAddressing runtime =
     (if is_str (ar_remote runtime) \<and> truthy (ar_remote runtime) then [(''remote'', ar_remote runtime)]
      else [(''url'', (case ar_url runtime of Some u \<Rightarrow> JStr u | None \<Rightarrow> JUndef))])"

definition bakeAddressing :: "obj \<Rightarrow> obj" where
  "bakeAddressing runtime = omit [''remote''] runtime"

section \<open>Resolution\<close>

datatype resolved_mode = ByUrl | ByRemote

datatype refusal = NothingNamed | UnknownRemote

datatype AddressResolution =
    Resolved string resolved_mode "string option"
  | Refused refusal string

definition dialable :: "KnownRemote list \<Rightarrow> KnownRemote list" where
  "dialable remotes = filter (\<lambda>remote. kr_url remote \<noteq> None \<and> kr_url remote \<noteq> Some []) remotes"

text \<open>The remote a name stands for: the embedded one's name is that one's wherever there is one.\<close>

definition remoteFor :: "KnownRemote list \<Rightarrow> string \<Rightarrow> KnownRemote option" where
  "remoteFor remotes name =
     (let named = findRemote (dialable remotes) name
      in if name = EMBEDDED_REMOTE_NAME
         then (case embeddedRemote remotes of Some r \<Rightarrow> Some r | None \<Rightarrow> named) else named)"

definition resolveRuntimeAddress ::
  "AddressedRuntime \<Rightarrow> KnownRemote list \<Rightarrow> RuntimeAddressingError + AddressResolution" where
  "resolveRuntimeAddress runtime remotes =
     (case addressingOf runtime of
        Inl e \<Rightarrow> Inl e
      | Inr NoAddress \<Rightarrow>
          Inr (Refused NothingNamed (''Runtime \"'' @ ar_id runtime @ ''\" names no runtime server''))
      | Inr (AtUrl url) \<Rightarrow> Inr (Resolved url ByUrl None)
      | Inr (AtRemote name (Some legacyUrl)) \<Rightarrow> Inr (Resolved legacyUrl ByRemote (Some name))
      | Inr (AtRemote name None) \<Rightarrow>
          (case remoteFor remotes name of
             None \<Rightarrow> Inr (Refused UnknownRemote (unknownRemoteMessage (ar_id runtime) name))
           | Some r \<Rightarrow> Inr (Resolved (the (kr_url r)) ByRemote (Some (kr_name r)))))"

text \<open>\<^verbatim>\<open>url.match(/\/runtimes\/([^/?#]+)/)\<close>: the leftmost place where the pattern matches.\<close>

fun runtimeIdFromUrl :: "string \<Rightarrow> string option" where
  "runtimeIdFromUrl [] = None"
| "runtimeIdFromUrl (c # cs) =
     (case strip ''/runtimes/'' (c # cs) of
        Some rest \<Rightarrow>
          (let name = takeWhile (\<lambda>c. c \<noteq> CHR ''/'' \<and> c \<noteq> CHR ''?'' \<and> c \<noteq> CHR ''#'') rest
           in if name = [] then runtimeIdFromUrl cs else Some name)
      | None \<Rightarrow> runtimeIdFromUrl cs)"

section \<open>Facts\<close>

lemma dropWhile_idem: "dropWhile P (dropWhile P xs) = dropWhile P xs"
  by (induction xs) auto

lemma js_trim_idem [simp]: "js_trim (js_trim s) = js_trim s"
proof -
  let ?d = "dropWhile is_space s"
  let ?t = "rev (dropWhile is_space (rev ?d))"
  have "dropWhile is_space ?t = ?t"
  proof (cases ?t)
    case (Cons c u)
    have "?d = ?t @ rev (takeWhile is_space (rev ?d))"
      by (metis rev_append rev_rev_ident takeWhile_dropWhile_id)
    then have "\<exists>v. ?d = c # v" using Cons by (metis append_Cons)
    then have "\<not> is_space c" using dropWhile_eq_Cons_conv [of is_space s c] by blast
    then show ?thesis using Cons by simp
  next
    case Nil
    show ?thesis unfolding Nil by simp
  qed
  then show ?thesis by (simp add: js_trim_def dropWhile_idem)
qed

text \<open>The aliases kept of a list: trimmed, not blank, not the name, each once.\<close>

definition alias_step :: "string \<Rightarrow> jsval \<Rightarrow> string list \<Rightarrow> string list" where
  "alias_step name alias kept =
     (let trimmed = (case alias of JStr s \<Rightarrow> js_trim s | _ \<Rightarrow> '''')
      in if trimmed \<noteq> [] \<and> trimmed \<noteq> name \<and> trimmed \<notin> set kept then kept @ [trimmed] else kept)"

lemma cleanAliases_fold: "cleanAliases name aliases = fold (alias_step name) (js_arr aliases) []"
  by (simp add: cleanAliases_def alias_step_def [abs_def])

definition alias_names :: "jsval list \<Rightarrow> string set" where
  "alias_names xs = {js_trim s | s. JStr s \<in> set xs}"

lemma fold_alias_step:
  "set (fold (alias_step name) xs kept) = set kept \<union> (alias_names xs - {'''', name})
   \<and> (distinct kept \<longrightarrow> distinct (fold (alias_step name) xs kept))"
proof (induction xs arbitrary: kept)
  case Nil
  then show ?case by (simp add: alias_names_def)
next
  case (Cons x xs)
  have n: "alias_names (x # xs) = (case x of JStr s \<Rightarrow> {js_trim s} | _ \<Rightarrow> {}) \<union> alias_names xs"
    by (auto simp: alias_names_def split: jsval.splits)
  have s: "set (alias_step name x kept) = set kept \<union> ((case x of JStr s \<Rightarrow> {js_trim s} | _ \<Rightarrow> {}) - {'''', name})"
    by (auto simp: alias_step_def Let_def split: jsval.splits)
  have d: "distinct kept \<Longrightarrow> distinct (alias_step name x kept)" by (simp add: alias_step_def Let_def)
  show ?case using Cons.IH [of "alias_step name x kept"] d by (simp add: n s) blast
qed

lemma set_cleanAliases: "set (cleanAliases name aliases) = alias_names (js_arr aliases) - {'''', name}"
  using fold_alias_step [of name "js_arr aliases" "[]"] by (simp add: cleanAliases_fold)

lemma distinct_remoteNames: "distinct (remoteNames remote)"
  using fold_alias_step [of "kr_name remote" "js_arr (kr_aliases remote)" "[]"]
  by (simp add: remoteNames_def set_cleanAliases) (simp add: cleanAliases_fold)

lemma set_remoteNames:
  "set (remoteNames remote) = insert (kr_name remote) (alias_names (js_arr (kr_aliases remote)) - {''''})"
  by (auto simp: remoteNames_def set_cleanAliases)

lemma alias_names_append: "alias_names (xs @ ys) = alias_names xs \<union> alias_names ys"
  by (auto simp: alias_names_def)

lemma alias_names_JStr: "alias_names (map JStr ss) = js_trim ` set ss"
  by (auto simp: alias_names_def)

lemma alias_names_trimmed: "js_trim ` (alias_names xs) = alias_names xs"
  by (auto simp: alias_names_def image_iff) (metis js_trim_idem)

lemma find_SomeD: "find P xs = Some x \<Longrightarrow> x \<in> set xs \<and> P x"
  by (auto simp: find_Some_iff)

lemma findRemote_answers:
  "findRemote remotes name = Some r \<Longrightarrow> r \<in> set remotes \<and> name \<in> set (remoteNames r)"
  by (auto simp: findRemote_def find_Some_iff remoteNames_def split: option.splits)

lemma findRemote_None: "findRemote remotes name = None \<longleftrightarrow> (\<forall>r \<in> set remotes. name \<notin> set (remoteNames r))"
  by (auto simp: findRemote_def find_None_iff find_Some_iff remoteNames_def split: option.splits)

lemma remoteFor_Some:
  assumes "remoteFor remotes name = Some r"
  shows "\<exists>url. r \<in> set remotes \<and> kr_url r = Some url \<and> url \<noteq> [] \<and>
    (name \<in> set (remoteNames r) \<or> name = EMBEDDED_REMOTE_NAME \<and> isEmbedded r)"
proof (cases "name = EMBEDDED_REMOTE_NAME \<and> embeddedRemote remotes = Some r")
  case True
  then have r: "r \<in> set remotes" "isEmbedded r" by (auto simp: embeddedRemote_def find_Some_iff)
  then have "\<exists>url. kr_url r = Some url \<and> url \<noteq> []"
    by (auto simp: isEmbedded_def REMOTE_URL_PREFIX_def starts_with_def split: option.splits)
  then show ?thesis using r True by blast
next
  case False
  then have "findRemote (dialable remotes) name = Some r"
    using assms by (auto simp: remoteFor_def Let_def split: if_splits option.splits)
  from findRemote_answers [OF this] show ?thesis by (auto simp: dialable_def)
qed

lemma remoteFor_None:
  assumes "remoteFor remotes name = None" "r \<in> set remotes" "kr_url r \<noteq> None" "kr_url r \<noteq> Some []"
  shows "name \<notin> set (remoteNames r)"
proof -
  have "findRemote (dialable remotes) name = None"
    using assms(1) by (auto simp: remoteFor_def Let_def split: if_splits option.splits)
  then show ?thesis using assms(2-4) by (auto simp: findRemote_None dialable_def)
qed

section \<open>Properties\<close>

text \<open>
  A document says where a runtime runs at most once: reading its addressing fails exactly when
  its \<^verbatim>\<open>remote\<close> is present and is not a name, or is a name beside a \<^verbatim>\<open>url\<close>; otherwise it yields the
  one of them that is there, the legacy spelling of a name being read as that name.
\<close>

theorem addressingOf_once:
  "addressingOf runtime =
     (let named = (case ar_remote runtime of JStr s \<Rightarrow> js_trim s | _ \<Rightarrow> '''');
          here = (case ar_url runtime of None \<Rightarrow> False | Some u \<Rightarrow> u \<noteq> [])
      in if ar_remote runtime = JUndef then
           (if here then
              Inr (case remoteNameFromUrl (ar_url runtime) of
                     Some name \<Rightarrow> AtRemote name (ar_url runtime)
                   | None \<Rightarrow> AtUrl (the (ar_url runtime)))
            else Inr NoAddress)
         else if named \<noteq> [] \<and> \<not> here then Inr (AtRemote named None)
         else Inl \<lparr>rae_runtimeId = ar_id runtime,
                   rae_message =
                     (if named = [] then
                        ''Runtime \"'' @ ar_id runtime @ ''\": \"remote\" must be the name of a runtime server''
                      else ''Runtime \"'' @ ar_id runtime @ ''\" says where it runs more than once (''
                        @ ''remote, url). A runtime names exactly one of \"url\" or \"remote\".'')\<rparr>)"
  by (cases "ar_remote runtime"; cases "ar_url runtime")
    (auto simp: addressingOf_def urlMode_def addressingError_def Let_def split: option.splits)

text \<open>
  A name never makes the client dial anything but a remote it keeps: for a runtime that names a
  remote and writes no address, resolution either yields the address of a remote of this client
  that answers to the name, or the embedded one where the name is the embedded one's, or it is
  refused, and then no remote with an address answers to the name.
\<close>

theorem resolveRuntimeAddress_named:
  assumes "ar_remote runtime = JStr s" and "js_trim s \<noteq> []" and "ar_url runtime = None \<or> ar_url runtime = Some []"
  shows "case resolveRuntimeAddress runtime remotes of
     Inl e \<Rightarrow> False
   | Inr (Resolved url mode name) \<Rightarrow>
       mode = ByRemote \<and>
       (\<exists>r \<in> set remotes. kr_url r = Some url \<and> url \<noteq> [] \<and> name = Some (kr_name r) \<and>
          (js_trim s \<in> set (remoteNames r) \<or> js_trim s = EMBEDDED_REMOTE_NAME \<and> isEmbedded r))
   | Inr (Refused why message) \<Rightarrow>
       why = UnknownRemote \<and>
       (\<forall>r \<in> set remotes. kr_url r \<noteq> None \<and> kr_url r \<noteq> Some [] \<longrightarrow> js_trim s \<notin> set (remoteNames r))"
proof -
  have a: "addressingOf runtime = Inr (AtRemote (js_trim s) None)"
    using assms by (auto simp: addressingOf_once)
  show ?thesis
  proof (cases "remoteFor remotes (js_trim s)")
    case None
    then show ?thesis using remoteFor_None by (simp add: resolveRuntimeAddress_def a)
  next
    case (Some r)
    from remoteFor_Some [OF this] show ?thesis
      using Some by (auto simp: resolveRuntimeAddress_def a)
  qed
qed

theorem resolveRuntimeAddress_named_witness:
  "case resolveRuntimeAddress \<lparr>ar_id = ''rt'', ar_url = None, ar_remote = JStr '' node ''\<rparr>
      [\<lparr>kr_name = ''Laptop'', kr_url = Some ''http://l'', kr_type = None, kr_aliases = JArr [JStr ''node'']\<rparr>] of
     Inl e \<Rightarrow> False | Inr (Resolved url mode name) \<Rightarrow> url = ''http://l'' | Inr (Refused why message) \<Rightarrow> False"
proof -
  let ?rt = "\<lparr>ar_id = ''rt'', ar_url = None, ar_remote = JStr '' node ''\<rparr>"
  let ?rs = "[\<lparr>kr_name = ''Laptop'', kr_url = Some ''http://l'', kr_type = None, kr_aliases = JArr [JStr ''node'']\<rparr>]"
  have t: "js_trim '' node '' = ''node''" by code_simp
  have n: "''node'' \<in> set (remoteNames (hd ?rs))" by code_simp
  have "ar_remote ?rt = JStr '' node ''" "js_trim '' node '' \<noteq> []" "ar_url ?rt = None \<or> ar_url ?rt = Some []"
    by (simp_all add: t)
  from resolveRuntimeAddress_named [OF this, of ?rs] show ?thesis
    using n by (auto simp: t split: sum.splits AddressResolution.splits)
qed

text \<open>
  Giving a remote another name makes it answer to that name, trimmed, beside every name it had,
  and to no others; a blank changes nothing, and doing it twice is doing it once.
\<close>

theorem withAlias_names:
  "set (remoteNames (withAlias remote alias))
     = (if js_trim alias = [] then {} else {js_trim alias}) \<union> set (remoteNames remote)
   \<and> kr_name (withAlias remote alias) = kr_name remote \<and> kr_url (withAlias remote alias) = kr_url remote
   \<and> withAlias (withAlias remote alias) alias = withAlias remote alias"
proof -
  have names: "set (remoteNames (withAlias remote alias))
     = (if js_trim alias = [] then {} else {js_trim alias}) \<union> set (remoteNames remote)"
  proof (cases "js_trim alias = [] \<or> js_trim alias \<in> set (remoteNames remote)")
    case True
    then show ?thesis by (auto simp: withAlias_def Let_def)
  next
    case False
    let ?c = "cleanAliases (kr_name remote) (JArr (js_arr (kr_aliases remote) @ [JStr (js_trim alias)]))"
    have c: "set ?c = (alias_names (js_arr (kr_aliases remote)) \<union> {js_trim alias}) - {'''', kr_name remote}"
      by (simp add: set_cleanAliases alias_names_append) (simp add: alias_names_def)
    have "js_trim x = x" if "x \<in> set ?c" for x
      using that unfolding c by (auto simp: alias_names_def)
    then have "js_trim ` set ?c = set ?c" by (simp add: image_def)
    then have "set (remoteNames (withAlias remote alias)) = insert (kr_name remote) (set ?c)"
      using False c by (auto simp: withAlias_def Let_def set_remoteNames alias_names_JStr)
    then show ?thesis using False c by (auto simp: set_remoteNames)
  qed
  have "js_trim alias = [] \<or> js_trim alias \<in> set (remoteNames (withAlias remote alias))"
    unfolding names by simp
  then have "withAlias (withAlias remote alias) alias = withAlias remote alias"
    by (subst withAlias_def) (simp add: Let_def)
  then show ?thesis using names by (simp add: withAlias_def Let_def)
qed

text \<open>
  The name a board is given for a runtime leads back to it: where no two remotes answer to the
  same name and none but an embedded one to the embedded name, resolving the name given for an
  address yields that address, up to closing slashes.
\<close>

theorem remoteNameForBoard_resolves:
  assumes "remoteNameForBoard remotes (Some url) = Some name" and "address (Some url) \<noteq> []"
    and "\<forall>r \<in> set remotes. \<forall>r' \<in> set remotes. r \<noteq> r' \<longrightarrow> set (remoteNames r) \<inter> set (remoteNames r') = {}"
    and "\<forall>r \<in> set remotes. kr_name r \<noteq> [] \<and> js_trim (kr_name r) = kr_name r
           \<and> EMBEDDED_REMOTE_NAME \<notin> set (remoteNames r)"
  shows "\<exists>url' n. resolveRuntimeAddress \<lparr>ar_id = i, ar_url = None, ar_remote = JStr name\<rparr> remotes
             = Inr (Resolved url' ByRemote (Some n)) \<and> address (Some url') = address (Some url)"
proof -
  let ?rt = "\<lparr>ar_id = i, ar_url = None, ar_remote = JStr name\<rparr>"
  have main: "\<exists>r url'. remoteFor remotes name = Some r \<and> kr_url r = Some url' \<and> address (Some url') = address (Some url) \<and>
      name \<noteq> [] \<and> js_trim name = name"
  proof (cases "address (Option.bind (embeddedRemote remotes) kr_url) = address (Some url)")
    case True
    then obtain r u where r: "embeddedRemote remotes = Some r" "kr_url r = Some u"
      using assms(2) by (cases "embeddedRemote remotes"; cases "kr_url (the (embeddedRemote remotes))") (auto simp: address_def)
    have n: "name = EMBEDDED_REMOTE_NAME"
      using assms(1,2) True by (auto simp: remoteNameForBoard_def split: if_splits)
    have "remoteFor remotes name = Some r" using r n by (simp add: remoteFor_def)
    moreover have "js_trim EMBEDDED_REMOTE_NAME = EMBEDDED_REMOTE_NAME" by code_simp
    ultimately show ?thesis using r True n by (auto simp: EMBEDDED_REMOTE_NAME_def)
  next
    case False
    obtain kept where kept: "find (\<lambda>remote. kr_url remote \<noteq> None \<and> kr_url remote \<noteq> Some [] \<and> address (kr_url remote) = address (Some url))
                    remotes = Some kept"
      using assms(1) False by (auto simp: remoteNameForBoard_def split: if_splits option.splits)
    then have k: "kept \<in> set remotes" "kr_url kept \<noteq> None" "kr_url kept \<noteq> Some []" "address (kr_url kept) = address (Some url)"
      by (auto simp: find_Some_iff)
    have "url \<noteq> []" using assms(1) by (auto simp: remoteNameForBoard_def)
    then have "Some name = (case find (\<lambda>name. sharedRemoteKind name \<noteq> None) (remoteNames kept) of
        Some name \<Rightarrow> Some name | None \<Rightarrow> Some (kr_name kept))"
      using assms(1) False unfolding remoteNameForBoard_def kept by simp
    then have "name \<in> set (remoteNames kept)"
      using find_SomeD [of _ "remoteNames kept" name] by (auto simp: remoteNames_def split: option.splits)
    moreover have "name \<noteq> EMBEDDED_REMOTE_NAME" using calculation assms(4) k(1) by auto
    moreover have "name \<noteq> [] \<and> js_trim name = name"
      using calculation(1) assms(4) k(1) by (auto simp: set_remoteNames alias_names_def)
    moreover have "remoteFor remotes name = Some kept"
    proof -
      have r: "remoteFor remotes name = findRemote (dialable remotes) name"
        using calculation(2) by (simp add: remoteFor_def)
      have d: "kept \<in> set (dialable remotes)" using k by (simp add: dialable_def)
      then obtain r' where r': "findRemote (dialable remotes) name = Some r'"
        using findRemote_None [of "dialable remotes" name] calculation(1) by (cases "findRemote (dialable remotes) name") auto
      from findRemote_answers [OF r'] have "r' \<in> set remotes" "name \<in> set (remoteNames r')" by (auto simp: dialable_def)
      then have "r' = kept" using assms(3) k(1) calculation(1) by auto
      then show ?thesis using r r' by simp
    qed
    ultimately show ?thesis using k by auto
  qed
  then obtain r url' where r: "remoteFor remotes name = Some r" "kr_url r = Some url'"
      "address (Some url') = address (Some url)" "name \<noteq> []" "js_trim name = name" by blast
  then have "addressingOf ?rt = Inr (AtRemote name None)" by (simp add: addressingOf_once)
  then show ?thesis using r by (simp add: resolveRuntimeAddress_def)
qed

theorem remoteNameForBoard_resolves_witness:
  "\<exists>url' n. resolveRuntimeAddress \<lparr>ar_id = ''rt'', ar_url = None, ar_remote = JStr ''node''\<rparr>
      [\<lparr>kr_name = ''Laptop'', kr_url = Some ''http://l/'', kr_type = None, kr_aliases = JArr [JStr ''node'']\<rparr>]
      = Inr (Resolved url' ByRemote (Some n)) \<and> address (Some url') = address (Some ''http://l'')"
proof (rule remoteNameForBoard_resolves)
  let ?rs = "[\<lparr>kr_name = ''Laptop'', kr_url = Some ''http://l/'', kr_type = None, kr_aliases = JArr [JStr ''node'']\<rparr>]"
  show "remoteNameForBoard ?rs (Some ''http://l'') = Some ''node''" by code_simp
  show "address (Some ''http://l'') \<noteq> []" by code_simp
  show "\<forall>r \<in> set ?rs. \<forall>r' \<in> set ?rs. r \<noteq> r' \<longrightarrow> set (remoteNames r) \<inter> set (remoteNames r') = {}" by simp
  show "\<forall>r \<in> set ?rs. kr_name r \<noteq> [] \<and> js_trim (kr_name r) = kr_name r \<and> EMBEDDED_REMOTE_NAME \<notin> set (remoteNames r)"
    by code_simp
qed

text \<open>
  Without that, it may not: where one remote has \<^verbatim>\<open>node\<close> as an alias and another is listed under
  it, a runtime put on the first is named \<^verbatim>\<open>node\<close>, and the same client resolves that name to the
  second.
\<close>

theorem remoteNameForBoard_other_server:
  "let mine = \<lparr>kr_name = ''Laptop'', kr_url = Some ''http://l'', kr_type = None, kr_aliases = JArr [JStr ''node'']\<rparr>;
       other = \<lparr>kr_name = ''node'', kr_url = Some ''http://o'', kr_type = None, kr_aliases = JUndef\<rparr>
   in remoteNameForBoard [mine, other] (Some ''http://l'') = Some ''node'' \<and>
      resolveRuntimeAddress \<lparr>ar_id = ''rt'', ar_url = None, ar_remote = JStr ''node''\<rparr> [mine, other]
        = Inr (Resolved ''http://o'' ByRemote (Some ''node''))"
  by code_simp

end
