(* ===== verification/BoardWrap.thy ===== *)
theory BoardWrap
  imports BoardAddress BoardMount
begin

text \<open>
  Wrapping a run of services in a sub-service (\<^verbatim>\<open>hkp-frontend/src/runtime/board/wrap.ts\<close>): which
  selections are a run, what a wrap would cut in two, and the facade that follows the run inside.
\<close>

section \<open>Runs\<close>

text \<open>
  A picked collection is the list of what iterating it yields; \<^verbatim>\<open>new Set\<close> keeps each once.
\<close>

definition positions :: "string list \<Rightarrow> string list \<Rightarrow> nat list" where
  "positions order wanted = map fst (filter (\<lambda>(index, i). i \<in> set wanted) (enumerate 0 order))"

definition contiguousRun :: "string list \<Rightarrow> string list \<Rightarrow> string list option" where
  "contiguousRun order picked =
     (let wanted = set_adds picked []; ps = positions order wanted in
      if wanted = [] then None
      else if length ps \<noteq> length wanted then None
      else if last ps - hd ps + 1 \<noteq> length ps then None
      else Some (drop (hd ps) (take (last ps + 1) order)))"

definition runBetween :: "string list \<Rightarrow> string \<Rightarrow> string \<Rightarrow> string list" where
  "runBetween order anchor to =
     (case (index_of anchor order, index_of to order) of
        (Some a, Some b) \<Rightarrow> drop (min a b) (take (max a b + 1) order)
      | (_, None) \<Rightarrow> []
      | (None, Some _) \<Rightarrow> [to])"

section \<open>Entries and strings of a structure\<close>

definition wrapEntryId :: "obj \<Rightarrow> string option" where
  "wrapEntryId entry =
     (case oget entry ''instanceId'' of
        JStr i \<Rightarrow> Some i
      | _ \<Rightarrow> (case oget entry ''uuid'' of JStr i \<Rightarrow> Some i | _ \<Rightarrow> None))"

text \<open>\<^verbatim>\<open>forEachEntry\<close> and \<^verbatim>\<open>forEachString\<close> as the list of what they visit, in order.\<close>

fun entriesOf :: "jsval \<Rightarrow> nat \<Rightarrow> (obj \<times> nat) list" where
  "entriesOf (JArr xs) depth = concat (map (\<lambda>item. entriesOf item depth) xs)"
| "entriesOf (JObj entry) depth =
     (let service = is_str (oget entry ''serviceId'')
      in (if service then [(entry, depth)] else [])
         @ concat (map (\<lambda>inner. entriesOf inner (if service then depth + 1 else depth)) (ovalues entry)))"
| "entriesOf _ depth = []"

fun stringsOf :: "jsval \<Rightarrow> string option \<Rightarrow> (string \<times> string option) list" where
  "stringsOf (JStr s) key = [(s, key)]"
| "stringsOf (JArr xs) key = concat (map (\<lambda>item. stringsOf item key) xs)"
| "stringsOf (JObj es) key = concat (map (\<lambda>(inner, child). stringsOf child (Some inner)) es)"
| "stringsOf _ key = []"

definition describe :: "obj \<Rightarrow> string" where
  "describe entry =
     (let name = to_str (if is_str (oget entry ''serviceName'') then oget entry ''serviceName'' else oget entry ''serviceId'')
      in case wrapEntryId entry of
           Some i \<Rightarrow> if i \<noteq> [] \<and> i \<noteq> name then ''\"'' @ name @ ''\" ('' @ i @ '')'' else ''\"'' @ name @ ''\"''
         | None \<Rightarrow> ''\"'' @ name @ ''\"'')"

section \<open>What a wrap would break\<close>

record WrapCheck =
  wrap_services :: obj
  wrap_facades :: "jsval list"
  wrap_runtimeId :: string
  wrap_ids :: "string list"
  wrap_asBlock :: bool

definition intoRun :: "WrapCheck \<Rightarrow> string \<Rightarrow> string \<Rightarrow> bool" where
  "intoRun w target targetRuntime = (targetRuntime = wrap_runtimeId w \<and> addressRoot target \<in> set (wrap_ids w))"

text \<open>What one entry's reference to another service means for the wrap.\<close>

definition entryProblems :: "WrapCheck \<Rightarrow> string \<Rightarrow> bool \<Rightarrow> obj \<times> nat \<Rightarrow> string list" where
  "entryProblems w ownerRuntime ownerInRun visited =
     (let (entry, depth) = visited in
      case field (oget entry ''state'') ''targetServiceUuid'' of
        JStr target \<Rightarrow>
          if target = [] then []
          else
            (case field (oget entry ''state'') ''targetRuntime'' of
               JStr named \<Rightarrow>
                 if named \<noteq> [] then
                   (if intoRun w target named then
                      [describe entry @ '' targets \"'' @ target @ ''\" on runtime \"'' @ named
                       @ ''\", which would move into the sub-service.'']
                    else [])
                 else if depth > 0 then []
                 else if ownerInRun \<and> \<not> intoRun w target ownerRuntime then
                   [describe entry @ '' targets \"'' @ target @ ''\", which would be left outside the sub-service.'']
                 else if \<not> ownerInRun \<and> intoRun w target ownerRuntime then
                   [describe entry @ '' targets \"'' @ target @ ''\", which would move into the sub-service.'']
                 else []
             | _ \<Rightarrow>
                 if depth > 0 then []
                 else if ownerInRun \<and> \<not> intoRun w target ownerRuntime then
                   [describe entry @ '' targets \"'' @ target @ ''\", which would be left outside the sub-service.'']
                 else if \<not> ownerInRun \<and> intoRun w target ownerRuntime then
                   [describe entry @ '' targets \"'' @ target @ ''\", which would move into the sub-service.'']
                 else [])
      | _ \<Rightarrow> [])"

definition ownerInRun :: "WrapCheck \<Rightarrow> string \<Rightarrow> jsval \<Rightarrow> bool" where
  "ownerInRun w ownerRuntime entry0 =
     (ownerRuntime = wrap_runtimeId w \<and>
      (case wrapEntryId (js_obj entry0) of Some i \<Rightarrow> i \<noteq> [] \<and> i \<in> set (wrap_ids w) | None \<Rightarrow> False))"

definition referenceProblems :: "WrapCheck \<Rightarrow> string list" where
  "referenceProblems w =
     concat (map (\<lambda>(ownerRuntime, lst).
       concat (map (\<lambda>entry0. concat (map (entryProblems w ownerRuntime (ownerInRun w ownerRuntime entry0)) (entriesOf entry0 0)))
         (js_arr lst))) (wrap_services w))"

definition mountProblems :: "WrapCheck \<Rightarrow> string list" where
  "mountProblems w =
     concat (map (\<lambda>(s, key).
       case parseMountRef (Some s) of
         Some ref \<Rightarrow>
           if intoRun w (ref_serviceUuid ref) (ref_runtimeId ref)
           then [''\"'' @ s @ ''\" refers to the endpoint of a service that would move into the sub-service.'']
           else []
       | None \<Rightarrow> []) (stringsOf (JObj (wrap_services w)) None))"

definition addressedInto :: "WrapCheck \<Rightarrow> string list" where
  "addressedInto w =
     set_adds (map fst (filter (\<lambda>(s, key). key = Some ''serviceUuid'' \<and> addressRoot s \<in> set (wrap_ids w))
       (concat (map (\<lambda>facade. stringsOf facade None) (wrap_facades w))))) []"

definition addressedElsewhere :: "WrapCheck \<Rightarrow> string list \<Rightarrow> bool" where
  "addressedElsewhere w addressed =
     list_ex (\<lambda>(i, lst).
       i \<noteq> wrap_runtimeId w \<and>
       list_ex (\<lambda>entry.
         case wrapEntryId (js_obj entry) of
           Some own \<Rightarrow> own \<noteq> [] \<and> list_ex (\<lambda>a. addressRoot a = own) addressed
         | None \<Rightarrow> False) (js_arr lst)) (wrap_services w)"

definition facadeProblems :: "WrapCheck \<Rightarrow> string list" where
  "facadeProblems w =
     (let addressed = addressedInto w in
      if addressed = [] then []
      else if wrap_asBlock w then
        map (\<lambda>a. ''The facade addresses \"'' @ a @ ''\"; inside a block nothing is addressed from outside.'') addressed
      else if addressedElsewhere w addressed then
        [''The facade addresses '' @ join_with '', '' (map (\<lambda>a. ''\"'' @ a @ ''\"'') addressed)
         @ '', and another runtime has a service by that id too, so which one it means cannot be told.'']
      else [])"

definition wrapProblems :: "WrapCheck \<Rightarrow> string list" where
  "wrapProblems w = referenceProblems w @ mountProblems w @ facadeProblems w"

section \<open>The facade afterwards\<close>

fun rewriteFacadeAddresses :: "jsval \<Rightarrow> string list \<Rightarrow> string \<Rightarrow> jsval" where
  "rewriteFacadeAddresses (JArr xs) ids wrapperId = JArr (map (\<lambda>x. rewriteFacadeAddresses x ids wrapperId) xs)"
| "rewriteFacadeAddresses (JObj es) ids wrapperId =
     JObj (from_entries (map (\<lambda>(key, inner).
       (key,
        if key = ''serviceUuid'' \<and> is_str inner \<and> addressRoot (to_str inner) \<in> set ids
        then JStr (joinAddress wrapperId (to_str inner))
        else rewriteFacadeAddresses inner ids wrapperId)) es))"
| "rewriteFacadeAddresses v ids wrapperId = v"

definition nameForRun :: "string list \<Rightarrow> string" where
  "nameForRun names =
     (let kept = filter (\<lambda>name. js_trim name \<noteq> []) names in
      case kept of
        [] \<Rightarrow> ''SubService''
      | k # _ \<Rightarrow>
          if length kept \<le> 2 then join_with '' + '' kept
          else k @ '' + '' @ show_nat (length kept - 1) @ '' more'')"

section \<open>Facts\<close>

lemma positions_filter: "positions order wanted = filter (\<lambda>i. order ! i \<in> set wanted) [0..<length order]"
proof -
  have "map fst (filter (\<lambda>(index, i). i \<in> set wanted) (enumerate n xs)) = filter (\<lambda>i. xs ! (i - n) \<in> set wanted) [n..<n + length xs]" for n xs
  proof (induction xs arbitrary: n)
    case (Cons x xs)
    have "filter (\<lambda>i. (x # xs) ! (i - n) \<in> set wanted) [Suc n..<n + Suc (length xs)]
        = filter (\<lambda>i. xs ! (i - Suc n) \<in> set wanted) [Suc n..<Suc n + length xs]"
      by (auto intro!: filter_cong simp: nth_Cons')
    moreover have "[n..<n + length (x # xs)] = n # [Suc n..<n + Suc (length xs)]" by (simp add: upt_rec)
    ultimately show ?case using Cons.IH [of "Suc n"] by simp
  qed simp
  from this [of 0 order] show ?thesis by (simp add: positions_def)
qed

lemma set_positions: "set (positions order wanted) = {i. i < length order \<and> order ! i \<in> set wanted}"
  by (auto simp: positions_filter)

lemma sorted_positions: "sorted (positions order wanted) \<and> distinct (positions order wanted)"
  by (simp add: positions_filter sorted_wrt_filter)

text \<open>An ascending list with no gap is an interval.\<close>

lemma interval_of_length:
  assumes "sorted ps" "distinct ps" "ps \<noteq> []" "last ps - hd ps + 1 = length ps"
  shows "ps = [hd ps..<last ps + 1]"
proof -
  have b: "hd ps \<le> i \<and> i \<le> last ps" if "i \<in> set ps" for i
  proof -
    obtain j where j: "j < length ps" "i = ps ! j" using \<open>i \<in> set ps\<close> by (auto simp: in_set_conv_nth)
    have "ps ! 0 \<le> ps ! j" "ps ! j \<le> ps ! (length ps - 1)"
      using assms(1) j(1) by (auto intro!: sorted_nth_mono)
    then show ?thesis using j assms(3) by (simp add: hd_conv_nth last_conv_nth)
  qed
  have "set ps = {hd ps..<last ps + 1}"
  proof (rule card_seteq)
    show "set ps \<subseteq> {hd ps..<last ps + 1}" using b by fastforce
    have "hd ps \<le> last ps" using b [of "hd ps"] assms(3) by simp
    then show "card {hd ps..<last ps + 1} \<le> card (set ps)"
      using assms(2,4) by (simp add: distinct_card)
  qed simp
  then have "set ps = set [hd ps..<last ps + 1]" by (simp only: set_upt)
  then show ?thesis by (intro sorted_distinct_set_unique) (use assms(1,2) in \<open>simp_all only: sorted_upt distinct_upt\<close>)
qed

lemma slice_nth: "b \<le> length xs \<Longrightarrow> drop a (take b xs) = map ((!) xs) [a..<b]"
  by (rule nth_equalityI) (auto simp: nth_append)

lemma segment_nth:
  assumes "distinct (pre @ run @ post)"
  shows "i < length (pre @ run @ post) \<and> (pre @ run @ post) ! i \<in> set run \<longleftrightarrow> length pre \<le> i \<and> i < length pre + length run"
proof -
  consider (pre) "i < length pre" | (run) "length pre \<le> i" "i < length pre + length run"
    | (post) "length pre + length run \<le> i" "i < length pre + length run + length post"
    | (out) "length pre + length run + length post \<le> i" by linarith
  then show ?thesis
  proof cases
    case pre
    then have "(pre @ run @ post) ! i \<in> set pre" by (simp add: nth_append)
    then show ?thesis using assms pre by auto
  next
    case run
    then have "i - length pre < length run" by linarith
    then have "(pre @ run @ post) ! i = run ! (i - length pre)" using run(1) by (simp add: nth_append)
    moreover have "run ! (i - length pre) \<in> set run" using run by (intro nth_mem) linarith
    ultimately show ?thesis using run by simp
  next
    case post
    then have "\<not> i < length pre" "\<not> i - length pre < length run" by linarith+
    then have "(pre @ run @ post) ! i = post ! (i - length pre - length run)" by (simp add: nth_append)
    moreover have "post ! (i - length pre - length run) \<in> set post" using post by (intro nth_mem) linarith
    ultimately have "(pre @ run @ post) ! i \<notin> set run" using assms by auto
    then show ?thesis using post by linarith
  qed simp
qed

lemma positions_segment:
  assumes "distinct (pre @ run @ post)" "set wanted = set run"
  shows "positions (pre @ run @ post) wanted = [length pre..<length pre + length run]"
proof (rule sorted_distinct_set_unique)
  show "set (positions (pre @ run @ post) wanted) = set [length pre..<length pre + length run]"
    unfolding set_positions assms(2) segment_nth [OF assms(1)] by auto
qed (simp_all only: sorted_positions sorted_upt distinct_upt)

section \<open>Properties\<close>

text \<open>
  A selection is a run exactly when it is one unbroken stretch of the runtime's services: the
  check accepts it, and yields the stretch in the runtime's order, precisely when the runtime's
  list is some services, then exactly the selected ones, then others.
\<close>

theorem contiguousRun_iff:
  assumes "distinct order"
  shows "contiguousRun order picked = Some run \<longleftrightarrow>
     run \<noteq> [] \<and> set run = set picked \<and> (\<exists>pre post. order = pre @ run @ post)"
proof
  let ?w = "set_adds picked []" let ?ps = "positions order ?w"
  assume "contiguousRun order picked = Some run"
  then have a: "?w \<noteq> []" "length ?ps = length ?w" "last ?ps - hd ?ps + 1 = length ?ps"
      "run = drop (hd ?ps) (take (last ?ps + 1) order)"
    by (auto simp: contiguousRun_def Let_def split: if_splits)
  have ne: "?ps \<noteq> []" using a(1,2) by auto
  have ps: "?ps = [hd ?ps..<last ?ps + 1]"
    by (rule interval_of_length) (use sorted_positions a(3) ne in auto)
  have "last ?ps < length order" using set_positions [of order ?w] last_in_set [OF ne] by auto
  then have run: "run = map ((!) order) ?ps" using a(4) slice_nth [of "last ?ps + 1" order "hd ?ps"] ps by simp
  have sub: "set run \<subseteq> set ?w" unfolding run using set_positions [of order ?w] by auto
  have "distinct run"
    using assms sorted_positions [of order ?w] set_positions [of order ?w]
    by (auto simp: run distinct_map intro!: inj_on_nth)
  then have "card (set run) = length run" by (rule distinct_card)
  then have "card (set run) = card (set ?w)"
    using a(2) distinct_card [of ?w] by (simp add: run)
  then have "set run = set ?w" using sub by (simp add: card_subset_eq)
  moreover have "\<exists>pre post. order = pre @ run @ post"
  proof -
    have "hd ?ps \<le> last ?ps + 1" using ps ne by (metis atLeastLessThan_upt empty_iff last_in_set less_or_eq_imp_le
      list.set(1) not_less_eq_eq upt_conv_Nil nat_le_linear Suc_eq_plus1)
    then have "order = take (hd ?ps) order @ drop (hd ?ps) (take (last ?ps + 1) order) @ drop (last ?ps + 1) order"
      by (metis append_assoc append_take_drop_id take_take min.absorb_iff1)
    then show ?thesis using a(4) by blast
  qed
  moreover have "run \<noteq> []" using run ne by simp
  ultimately show "run \<noteq> [] \<and> set run = set picked \<and> (\<exists>pre post. order = pre @ run @ post)" by simp
next
  let ?w = "set_adds picked []"
  assume "run \<noteq> [] \<and> set run = set picked \<and> (\<exists>pre post. order = pre @ run @ post)"
  then obtain pre post where r: "run \<noteq> []" "set run = set picked" "order = pre @ run @ post" by blast
  have ps: "positions order ?w = [length pre..<length pre + length run]"
    unfolding r(3) by (rule positions_segment) (use assms r in auto)
  have "length ?w = length run"
    using assms r distinct_card [of run] distinct_card [of ?w] by (simp only: distinct_append set_set_adds distinct_set_adds) simp
  moreover have "?w \<noteq> []" using calculation r(1) by auto
  moreover have "hd [length pre..<length pre + length run] = length pre"
    using r(1) by (intro hd_upt) simp
  moreover have "last [length pre..<length pre + length run] = length pre + length run - 1"
    using r(1) by (intro last_upt) simp
  ultimately show "contiguousRun order picked = Some run"
    using r(1) unfolding contiguousRun_def Let_def ps by (cases run) (simp_all add: r(3))
qed

theorem contiguousRun_iff_witness:
  "contiguousRun [''a'', ''b'', ''c'', ''d''] [''c'', ''b''] = Some [''b'', ''c'']"
proof -
  have "distinct [''a'', ''b'', ''c'', ''d'']" by simp
  from contiguousRun_iff [OF this, of "[''c'', ''b'']" "[''b'', ''c'']"] show ?thesis
    by (auto intro: exI [of _ "[''a'']"] exI [of _ "[''d'']"])
qed

text \<open>
  When nothing is reported, no reference is cut in two: a service that names another beside it
  is in the run exactly when the one it names is, one that names a service by runtime names none of
  the run, no mount reference leads into it, and where the run becomes a block no facade addresses
  it.
\<close>

theorem wrapProblems_keep:
  assumes "wrapProblems w = []"
  shows "(\<forall>(ownerRuntime, lst) \<in> set (wrap_services w). \<forall>entry0 \<in> set (js_arr lst). \<forall>(entry, depth) \<in> set (entriesOf entry0 0).
      \<forall>target. field (oget entry ''state'') ''targetServiceUuid'' = JStr target \<and> target \<noteq> [] \<longrightarrow>
        (case field (oget entry ''state'') ''targetRuntime'' of
           JStr named \<Rightarrow> if named \<noteq> [] then \<not> intoRun w target named
                         else depth = 0 \<longrightarrow> ownerInRun w ownerRuntime entry0 = intoRun w target ownerRuntime
         | _ \<Rightarrow> depth = 0 \<longrightarrow> ownerInRun w ownerRuntime entry0 = intoRun w target ownerRuntime))
    \<and> (\<forall>(s, key) \<in> set (stringsOf (JObj (wrap_services w)) None). \<forall>ref.
         parseMountRef (Some s) = Some ref \<longrightarrow> \<not> intoRun w (ref_serviceUuid ref) (ref_runtimeId ref))
    \<and> (wrap_asBlock w \<longrightarrow> (\<forall>facade \<in> set (wrap_facades w). \<forall>(s, key) \<in> set (stringsOf facade None).
         key = Some ''serviceUuid'' \<longrightarrow> addressRoot s \<notin> set (wrap_ids w)))"
proof -
  have e: "referenceProblems w = []" "mountProblems w = []" "facadeProblems w = []"
    using assms by (simp_all add: wrapProblems_def)
  have "case field (oget entry ''state'') ''targetRuntime'' of
           JStr named \<Rightarrow> if named \<noteq> [] then \<not> intoRun w target named
                         else depth = 0 \<longrightarrow> ownerInRun w ownerRuntime entry0 = intoRun w target ownerRuntime
         | _ \<Rightarrow> depth = 0 \<longrightarrow> ownerInRun w ownerRuntime entry0 = intoRun w target ownerRuntime"
    if "(ownerRuntime, lst) \<in> set (wrap_services w)" "entry0 \<in> set (js_arr lst)" "(entry, depth) \<in> set (entriesOf entry0 0)"
      "field (oget entry ''state'') ''targetServiceUuid'' = JStr target" "target \<noteq> []"
    for ownerRuntime lst entry0 entry depth target
  proof -
    have "entryProblems w ownerRuntime (ownerInRun w ownerRuntime entry0) (entry, depth) = []"
      using e(1) that(1-3) unfolding referenceProblems_def by (auto simp: concat_eq_Nil_conv)
    then show ?thesis using that(4,5) by (auto simp: entryProblems_def split: jsval.splits if_splits)
  qed
  moreover have "\<not> intoRun w (ref_serviceUuid ref) (ref_runtimeId ref)"
    if "(s, key) \<in> set (stringsOf (JObj (wrap_services w)) None)" "parseMountRef (Some s) = Some ref" for s key ref
    using e(2) that unfolding mountProblems_def by (fastforce split: if_splits)
  moreover have "addressRoot s \<notin> set (wrap_ids w)"
    if "wrap_asBlock w" "facade \<in> set (wrap_facades w)" "(s, Some ''serviceUuid'') \<in> set (stringsOf facade None)" for facade s
  proof -
    have "addressedInto w = []" using e(3) that(1) by (auto simp: facadeProblems_def Let_def split: if_splits)
    then have "set (addressedInto w) = {}" by simp
    then show ?thesis using that(2,3) unfolding addressedInto_def by (auto simp: image_iff)
  qed
  ultimately show ?thesis by blast
qed

text \<open>The addresses a facade dials: the texts filed directly under \<^verbatim>\<open>serviceUuid\<close>.\<close>

fun dialled :: "jsval \<Rightarrow> string list" where
  "dialled (JArr xs) = concat (map dialled xs)"
| "dialled (JObj es) =
     concat (map (\<lambda>(key, inner). (if key = ''serviceUuid'' then (case inner of JStr s \<Rightarrow> [s] | _ \<Rightarrow> []) else []) @ dialled inner) es)"
| "dialled _ = []"


text \<open>
  Moving a facade along with a run changes the addresses into the run and nothing else: in
  order, each address it dials whose root is in the run is replaced by the one that reaches it
  through the wrapper, and every other address is as it was.  A facade that dials nothing in the
  run comes back unchanged.
\<close>

theorem rewriteFacadeAddresses_dialled:
  assumes "wf_js facade"
  shows "dialled (rewriteFacadeAddresses facade ids wrapperId)
      = map (\<lambda>a. if addressRoot a \<in> set ids then joinAddress wrapperId a else a) (dialled facade)
    \<and> ((\<forall>a \<in> set (dialled facade). addressRoot a \<notin> set ids) \<longrightarrow> rewriteFacadeAddresses facade ids wrapperId = facade)"
  using assms
proof (induction facade)
  case (Arr xs)
  then have x: "dialled (rewriteFacadeAddresses x ids wrapperId)
      = map (\<lambda>a. if addressRoot a \<in> set ids then joinAddress wrapperId a else a) (dialled x)
    \<and> ((\<forall>a \<in> set (dialled x). addressRoot a \<notin> set ids) \<longrightarrow> rewriteFacadeAddresses x ids wrapperId = x)"
    if "x \<in> set xs" for x using that by (simp add: list_all_iff)
  have "map (dialled \<circ> (\<lambda>x. rewriteFacadeAddresses x ids wrapperId)) xs
      = map (map (\<lambda>a. if addressRoot a \<in> set ids then joinAddress wrapperId a else a) \<circ> dialled) xs"
    by (rule map_cong_set) (simp add: x)
  then have "dialled (rewriteFacadeAddresses (JArr xs) ids wrapperId)
      = map (\<lambda>a. if addressRoot a \<in> set ids then joinAddress wrapperId a else a) (dialled (JArr xs))"
    by (simp only: rewriteFacadeAddresses.simps dialled.simps map_map map_concat)
  moreover have "(\<forall>a \<in> set (dialled (JArr xs)). addressRoot a \<notin> set ids) \<longrightarrow> rewriteFacadeAddresses (JArr xs) ids wrapperId = JArr xs"
    using x by (auto intro!: map_idI)
  ultimately show ?case by blast
next
  case (Obj es)
  let ?r = "\<lambda>a. if addressRoot a \<in> set ids then joinAddress wrapperId a else a"
  let ?g = "\<lambda>(key, inner). (key, if key = ''serviceUuid'' \<and> is_str inner \<and> addressRoot (to_str inner) \<in> set ids
        then JStr (joinAddress wrapperId (to_str inner)) else rewriteFacadeAddresses inner ids wrapperId)"
  let ?d = "\<lambda>(key, inner). (if key = ''serviceUuid'' then (case inner of JStr s \<Rightarrow> [s] | _ \<Rightarrow> []) else []) @ dialled inner"
  have x: "dialled (rewriteFacadeAddresses x ids wrapperId) = map ?r (dialled x)
    \<and> ((\<forall>a \<in> set (dialled x). addressRoot a \<notin> set ids) \<longrightarrow> rewriteFacadeAddresses x ids wrapperId = x)"
    if "x \<in> set (ovalues es)" for x using Obj.IH [OF that] Obj.prems that by (simp add: list_all_iff)
  have k: "okeys (map ?g es) = okeys es" by (induction es) auto
  have fe: "from_entries (map ?g es) = map ?g es"
    using Obj.prems by (intro from_entries_canon) (simp only: k wf_js.simps)
  have r: "rewriteFacadeAddresses (JObj es) ids wrapperId = JObj (map ?g es)"
    by (simp only: rewriteFacadeAddresses.simps fe)
  have "?d (?g p) = map ?r (?d p)" if "p \<in> set es" for p
  proof (cases p)
    case (Pair key inner)
    have i: "inner \<in> set (ovalues es)" using that Pair by (auto intro: ovalues_memI)
    show ?thesis
    proof (cases "is_str inner")
      case True
      then obtain s where "inner = JStr s" by (cases inner) auto
      then show ?thesis by (simp add: Pair)
    next
      case False
      then have "\<not> is_str (rewriteFacadeAddresses inner ids wrapperId)" by (cases inner) auto
      with False have n: "(case inner of JStr s \<Rightarrow> [s] | _ \<Rightarrow> []) = []"
          "(case rewriteFacadeAddresses inner ids wrapperId of JStr s \<Rightarrow> [s] | _ \<Rightarrow> []) = []"
        by (auto split: jsval.splits)
      have d: "dialled (rewriteFacadeAddresses inner ids wrapperId) = map ?r (dialled inner)" using x [OF i] by blast
      show ?thesis by (simp add: Pair False n d del: rewriteFacadeAddresses.simps dialled.simps)
    qed
  qed
  then have "map (?d \<circ> ?g) es = map (map ?r \<circ> ?d) es" by (intro map_cong_set) simp
  then have "dialled (rewriteFacadeAddresses (JObj es) ids wrapperId) = map ?r (dialled (JObj es))"
    by (simp only: r dialled.simps map_map map_concat)
  moreover have "rewriteFacadeAddresses (JObj es) ids wrapperId = JObj es"
    if all: "\<forall>a \<in> set (dialled (JObj es)). addressRoot a \<notin> set ids"
  proof -
    have "?g p = p" if "p \<in> set es" for p
    proof (cases p)
      case (Pair key inner)
      have i: "inner \<in> set (ovalues es)" using that Pair by (auto intro: ovalues_memI)
      have "set (?d p) \<subseteq> set (dialled (JObj es))"
        unfolding dialled.simps set_concat set_map using that by blast
      then have "\<forall>a \<in> set (?d p). addressRoot a \<notin> set ids" using all by blast
      then have u: "\<forall>a \<in> set ((if key = ''serviceUuid'' then (case inner of JStr s \<Rightarrow> [s] | _ \<Rightarrow> []) else []) @ dialled inner).
          addressRoot a \<notin> set ids"
        by (simp only: Pair prod.case)
      have a: "\<forall>a \<in> set (dialled inner). addressRoot a \<notin> set ids" using u by (simp only: set_append) blast
      have b: "addressRoot (to_str inner) \<notin> set ids" if "key = ''serviceUuid''" "is_str inner"
      proof -
        obtain s where "inner = JStr s" using \<open>is_str inner\<close> by (cases inner) auto
        then show ?thesis using u that(1) by simp
      qed
      have "rewriteFacadeAddresses inner ids wrapperId = inner" using x [OF i] a by blast
      then show ?thesis using b by (simp del: rewriteFacadeAddresses.simps add: Pair prod_eq_iff) blast
    qed
    then show ?thesis unfolding r by (simp add: map_idI)
  qed
  ultimately show ?case by blast
qed auto

theorem rewriteFacadeAddresses_dialled_witness:
  "dialled (rewriteFacadeAddresses (JObj [(''serviceUuid'', JStr ''hit.x''), (''w'', JArr [JObj [(''serviceUuid'', JStr ''b'')]])])
      [''hit''] ''wrap'') = [''wrap.hit.x'', ''b'']"
proof -
  let ?f = "JObj [(''serviceUuid'', JStr ''hit.x''), (''w'', JArr [JObj [(''serviceUuid'', JStr ''b'')]])]"
  have "wf_js ?f" by (simp add: canon_keys_def key_before_def index_key_def is_digit_def)
  from rewriteFacadeAddresses_dialled [OF this, of "[''hit'']" "''wrap''"]
  have "dialled (rewriteFacadeAddresses ?f [''hit''] ''wrap'')
      = map (\<lambda>a. if addressRoot a \<in> set [''hit''] then joinAddress ''wrap'' a else a) (dialled ?f)" by blast
  also have "\<dots> = [''wrap.hit.x'', ''b'']" by code_simp
  finally show ?thesis .
qed

theorem wrapProblems_keep_witness:
  "\<not> intoRun \<lparr>wrap_services = [(''rt'', JArr [JObj [(''uuid'', JStr ''a''), (''serviceId'', JStr ''x'')]]),
        (''m'', JStr ''hkp-mount://other/a'')], wrap_facades = [], wrap_runtimeId = ''rt'', wrap_ids = [''a''],
        wrap_asBlock = True\<rparr> ''a'' ''other''"
proof -
  let ?w = "\<lparr>wrap_services = [(''rt'', JArr [JObj [(''uuid'', JStr ''a''), (''serviceId'', JStr ''x'')]]),
        (''m'', JStr ''hkp-mount://other/a'')], wrap_facades = [], wrap_runtimeId = ''rt'', wrap_ids = [''a''],
        wrap_asBlock = True\<rparr>"
  have "wrapProblems ?w = []" by code_simp
  note k = wrapProblems_keep [OF this, THEN conjunct2, THEN conjunct1]
  have "(''hkp-mount://other/a'', Some ''m'') \<in> set (stringsOf (JObj (wrap_services ?w)) None)" by code_simp
  moreover have "parseMountRef (Some ''hkp-mount://other/a'') = Some \<lparr>ref_runtimeId = ''other'', ref_serviceUuid = ''a''\<rparr>"
    by code_simp
  ultimately show ?thesis using k by fastforce
qed

end
