(* ===== verification/BoardAssets.thy ===== *)
theory BoardAssets
  imports BoardTraversal JsText JsJson
begin

text \<open>
  Board assets (\<^verbatim>\<open>hkp-frontend/src/runtime/board/assets.ts\<close>): descriptors and what makes one,
  references by \<^verbatim>\<open>hkp-asset://\<close>, which runtime is given which asset, where an asset is used and
  how renaming one reaches its references.
\<close>

section \<open>Descriptors\<close>

text \<open>
  \<^verbatim>\<open>AssetSource\<close> is the one of three fields a descriptor carries; \<open>asset_json\<close> is the object a
  descriptor is, its fields in the order \<^verbatim>\<open>checkAssetDescriptor\<close> sets them.
\<close>

datatype AssetSource = AssetText string | AssetBase64 string | AssetUrl string

record AssetDescriptor =
  asset_id :: string
  asset_name :: "string option"
  asset_mediaType :: string
  asset_sha256 :: "string option"
  asset_size :: "jsnum option"
  asset_runtimes :: "string list option"
  asset_source :: AssetSource

record AssetRuntime =
  at_id :: "string option"
  at_unit :: "string option"
  at_unitRuntimeId :: "string option"

definition optional :: "string \<Rightarrow> ('a \<Rightarrow> jsval) \<Rightarrow> 'a option \<Rightarrow> obj" where
  "optional key f v = (case v of None \<Rightarrow> [] | Some x \<Rightarrow> [(key, f x)])"

fun source_json :: "AssetSource \<Rightarrow> string \<times> jsval" where
  "source_json (AssetText t) = (''text'', JStr t)"
| "source_json (AssetBase64 b) = (''base64'', JStr b)"
| "source_json (AssetUrl u) = (''url'', JStr u)"

definition asset_json :: "AssetDescriptor \<Rightarrow> jsval" where
  "asset_json a =
     JObj ([(''id'', JStr (asset_id a))] @ optional ''name'' JStr (asset_name a)
       @ [(''mediaType'', JStr (asset_mediaType a))] @ optional ''sha256'' JStr (asset_sha256 a)
       @ optional ''size'' JNum (asset_size a)
       @ optional ''runtimes'' (\<lambda>rs. JArr (map JStr rs)) (asset_runtimes a)
       @ [source_json (asset_source a)])"

section \<open>Which runtime is given which asset\<close>

definition assetReaches :: "AssetDescriptor \<Rightarrow> AssetRuntime \<Rightarrow> bool" where
  "assetReaches asset runtime =
     (case asset_runtimes asset of
        None \<Rightarrow> True
      | Some rs \<Rightarrow>
          (case at_unitRuntimeId runtime of
             Some i \<Rightarrow> i
           | None \<Rightarrow> (case at_id runtime of Some i \<Rightarrow> i | None \<Rightarrow> [])) \<in> set rs)"

definition orEmpty :: "'a list option \<Rightarrow> 'a list" where
  "orEmpty xs = (case xs of Some ys \<Rightarrow> ys | None \<Rightarrow> [])"

text \<open>A unit is given by its name and the assets its source declares.\<close>

definition assetsOfRuntime ::
  "AssetRuntime option \<Rightarrow> AssetDescriptor list option \<Rightarrow> (string \<times> AssetDescriptor list option) list option
    \<Rightarrow> AssetDescriptor list" where
  "assetsOfRuntime runtime assets units =
     (case runtime of
        None \<Rightarrow> orEmpty assets
      | Some rt \<Rightarrow>
          filter (\<lambda>asset. assetReaches asset rt)
            (case at_unit rt of
               Some u \<Rightarrow>
                 if u = [] then orEmpty assets
                 else (case find (\<lambda>(name, declared). name = u) (orEmpty units) of
                         Some (name, declared) \<Rightarrow> orEmpty declared
                       | None \<Rightarrow> [])
             | None \<Rightarrow> orEmpty assets))"

definition assetsById :: "AssetDescriptor list option \<Rightarrow> (string \<times> AssetDescriptor) list" where
  "assetsById assets = from_entries (map (\<lambda>asset. (asset_id asset, asset)) (orEmpty assets))"

section \<open>References\<close>

definition ASSET_SCHEME :: string where
  "ASSET_SCHEME = ''hkp-asset://''"

abbreviation ASSET_REF :: "string matcher" where
  "ASSET_REF \<equiv> prefixed_name ASSET_SCHEME"

definition isAssetId :: "string \<Rightarrow> bool" where
  "isAssetId s = (s \<noteq> [] \<and> list_all is_name_char s)"

definition parseAssetRef :: "jsval \<Rightarrow> string option" where
  "parseAssetRef v = (case v of JStr s \<Rightarrow> whole ASSET_REF s | _ \<Rightarrow> None)"

definition formatAssetRef :: "string \<Rightarrow> string" where
  "formatAssetRef i = ASSET_SCHEME @ i"

fun findAssetRefs :: "jsval \<Rightarrow> string list \<Rightarrow> string list" where
  "findAssetRefs (JStr s) found = set_adds (hits ASSET_REF s) found"
| "findAssetRefs (JArr xs) found = fold (\<lambda>item. findAssetRefs item) xs found"
| "findAssetRefs (JObj es) found = fold (\<lambda>item. findAssetRefs item) (ovalues es) found"
| "findAssetRefs _ found = found"

text \<open>The services are given by their states.\<close>

definition referencedAssets :: "jsval list option \<Rightarrow> AssetDescriptor list option \<Rightarrow> (string \<times> AssetDescriptor) list" where
  "referencedAssets states assets =
     foldl (\<lambda>found i. case find (\<lambda>a. asset_id a = i) (orEmpty assets) of Some d \<Rightarrow> oput i d found | None \<Rightarrow> found)
       [] (findAssetRefs (JArr (orEmpty states)) [])"

section \<open>What an asset holds\<close>

datatype AssetSourceKind = TextKind | Base64Kind | UrlKind

definition assetSourceKind :: "AssetDescriptor \<Rightarrow> AssetSourceKind" where
  "assetSourceKind asset =
     (case asset_source asset of AssetText _ \<Rightarrow> TextKind | AssetBase64 _ \<Rightarrow> Base64Kind | AssetUrl _ \<Rightarrow> UrlKind)"

text \<open>What is declared is a number of the document (\<open>Inl\<close>), what is measured a count (\<open>Inr\<close>).\<close>

definition assetSize :: "AssetDescriptor \<Rightarrow> (jsnum + nat) option" where
  "assetSize asset =
     (case asset_size asset of
        Some n \<Rightarrow> Some (Inl n)
      | None \<Rightarrow>
          (case asset_source asset of
             AssetText t \<Rightarrow> Some (Inr (utf8_length t))
           | AssetBase64 b \<Rightarrow>
               Some (Inr (length b * 3 div 4 - (if ends_with ''=='' b then 2 else if ends_with ''='' b then 1 else 0)))
           | AssetUrl u \<Rightarrow> None))"

definition isTextMediaType :: "string \<Rightarrow> bool" where
  "isTextMediaType mediaType =
     (let type = toLowerCase (js_trim (hd (split_on CHR '';'' mediaType))) in
      starts_with ''text/'' type \<or> type = ''application/json'' \<or> ends_with ''+json'' type
      \<or> type = ''application/javascript'' \<or> type = ''application/xml'' \<or> ends_with ''+xml'' type)"

section \<open>Where an asset is used\<close>

datatype AssetPathStep = AtKey string | AtIndex nat

record AssetUse =
  use_runtimeId :: string
  use_serviceUuid :: jsval
  use_serviceName :: jsval
  use_path :: "AssetPathStep list"
  use_assetId :: string

text \<open>The inner \<^verbatim>\<open>walk\<close>: the path down to each mention and the id mentioned, in order.\<close>

fun walkRefs :: "string option \<Rightarrow> jsval \<Rightarrow> AssetPathStep list \<Rightarrow> (AssetPathStep list \<times> string) list" where
  "walkRefs assetId (JStr s) path =
     map (\<lambda>i. (path, i))
       (filter (\<lambda>i. case assetId of None \<Rightarrow> True | Some a \<Rightarrow> a = [] \<or> i = a) (findAssetRefs (JStr s) []))"
| "walkRefs assetId (JArr xs) path =
     concat (map (\<lambda>(index, ws). ws (path @ [AtIndex index])) (enumerate 0 (map (\<lambda>item. walkRefs assetId item) xs)))"
| "walkRefs assetId (JObj es) path =
     concat (map (\<lambda>(key, ws). ws (path @ [AtKey key])) (zip (okeys es) (map (\<lambda>item. walkRefs assetId item) (ovalues es))))"
| "walkRefs assetId _ path = []"

definition findAssetUses :: "obj \<Rightarrow> string option \<Rightarrow> AssetUse list" where
  "findAssetUses services assetId =
     concat (map (\<lambda>(runtimeId, lst).
       concat (map (\<lambda>svc.
         map (\<lambda>(path, i).
             \<lparr>use_runtimeId = runtimeId, use_serviceUuid = field svc ''uuid'',
              use_serviceName = field svc ''serviceName'', use_path = path, use_assetId = i\<rparr>)
           (walkRefs assetId (field svc ''state'') []))
         (js_arr lst))) services)"

section \<open>Renaming\<close>

text \<open>
  \<^verbatim>\<open>/hkp-asset:\/\/<from>(?![A-Za-z0-9_.-])/g\<close>: the reference to one id and no longer one.  The new
  id is put in as it is, which is what \<^verbatim>\<open>replace\<close> does with an id, that has no \<^verbatim>\<open>$\<close>.
\<close>

definition exact_ref :: "string \<Rightarrow> unit matcher" where
  "exact_ref old s =
     (case strip (ASSET_SCHEME @ old) s of
        None \<Rightarrow> None
      | Some rest \<Rightarrow>
          if rest \<noteq> [] \<and> is_name_char (hd rest) then None else Some ((), length (ASSET_SCHEME @ old)))"

definition renameText :: "string \<Rightarrow> string \<Rightarrow> string \<Rightarrow> string" where
  "renameText old new = replace_with (exact_ref old) (\<lambda>_ _. formatAssetRef new)"

definition renameAssetRefs :: "jsval \<Rightarrow> string \<Rightarrow> string \<Rightarrow> jsval" where
  "renameAssetRefs v old new =
     (if old \<notin> set (findAssetRefs v []) then v else mapStrings (renameText old new) v)"

section \<open>Reading descriptors\<close>

definition is_hex :: "char \<Rightarrow> bool" where
  "is_hex c = (let n = of_char c :: nat in is_digit c \<or> (97 \<le> n \<and> n \<le> 102) \<or> (65 \<le> n \<and> n \<le> 70))"

definition is_sha256 :: "string \<Rightarrow> bool" where
  "is_sha256 s = (length s = 64 \<and> list_all is_hex s)"

definition quoted :: "jsval \<Rightarrow> string" where
  "quoted v = (if v = JUndef then ''undefined'' else json_text v)"

definition pickSource :: "obj \<Rightarrow> AssetSource option" where
  "pickSource record =
     (case (oget record ''text'', oget record ''base64'', oget record ''url'') of
        (JStr t, b, u) \<Rightarrow> if is_str b \<or> is_str u then None else Some (AssetText t)
      | (_, JStr b, u) \<Rightarrow> if is_str u then None else Some (AssetBase64 b)
      | (_, _, JStr u) \<Rightarrow> Some (AssetUrl u)
      | _ \<Rightarrow> None)"

definition checkAssetDescriptor :: "jsval \<Rightarrow> string + AssetDescriptor" where
  "checkAssetDescriptor v =
     (case v of
        JObj record \<Rightarrow>
          (case oget record ''id'' of
             JStr i \<Rightarrow>
               if \<not> isAssetId i then
                 Inl (quoted (JStr i) @ '' is not an asset id: use letters, digits, \".\", \"-\" and \"_\"'')
               else
                 (case pickSource record of
                    None \<Rightarrow> Inl (''asset \"'' @ i @ ''\" needs exactly one of text, base64 or url'')
                  | Some source \<Rightarrow>
                      (case oget record ''mediaType'' of
                         JStr mediaType \<Rightarrow>
                           if mediaType = [] then Inl (''asset \"'' @ i @ ''\" has no mediaType'')
                           else
                             Inr \<lparr>asset_id = i,
                                  asset_name = the_str (oget record ''name''),
                                  asset_mediaType = mediaType,
                                  asset_sha256 =
                                    (case oget record ''sha256'' of
                                       JStr h \<Rightarrow> if is_sha256 h then Some (toLowerCase h) else None
                                     | _ \<Rightarrow> None),
                                  asset_size = (case oget record ''size'' of JNum n \<Rightarrow> Some n | _ \<Rightarrow> None),
                                  asset_runtimes =
                                    (case oget record ''runtimes'' of
                                       JArr rs \<Rightarrow> Some (List.map_filter the_str rs)
                                     | _ \<Rightarrow> None),
                                  asset_source = source\<rparr>
                       | _ \<Rightarrow> Inl (''asset \"'' @ i @ ''\" has no mediaType'')))
           | other \<Rightarrow>
               Inl (quoted other @ '' is not an asset id: use letters, digits, \".\", \"-\" and \"_\"''))
      | _ \<Rightarrow> Inl ''an asset is an object'')"

definition readAsset :: "jsval \<Rightarrow> AssetDescriptor list \<times> string list \<Rightarrow> AssetDescriptor list \<times> string list" where
  "readAsset entry read =
     (let (assets, problems) = read in
      case checkAssetDescriptor entry of
        Inl problem \<Rightarrow> (assets, problems @ [problem])
      | Inr checked \<Rightarrow>
          if asset_id checked \<in> asset_id ` set assets then
            (assets, problems @ [''asset \"'' @ asset_id checked @ ''\" is declared twice; the first is kept''])
          else
            (assets @ [checked],
             if field entry ''headers'' \<noteq> JUndef then
               problems @ [''asset \"'' @ asset_id checked
                 @ ''\" declares headers, which an asset does not take; it is fetched without them'']
             else problems))"

definition readBoardAssets :: "jsval \<Rightarrow> AssetDescriptor list \<times> string list" where
  "readBoardAssets v =
     (case v of
        JUndef \<Rightarrow> ([], [])
      | JArr entries \<Rightarrow> fold readAsset entries ([], [])
      | _ \<Rightarrow> ([], [''\"assets\" is not a list'']))"

section \<open>Editing the list\<close>

definition upsertAsset :: "AssetDescriptor list option \<Rightarrow> AssetDescriptor \<Rightarrow> string \<Rightarrow> AssetDescriptor list" where
  "upsertAsset assets asset replacing =
     (let lst = orEmpty assets in
      case find_index (\<lambda>entry. asset_id entry = replacing) lst of
        None \<Rightarrow> lst @ [asset]
      | Some index \<Rightarrow> lst[index := asset])"

definition is_stem_char :: "char \<Rightarrow> bool" where
  "is_stem_char c = (is_lower c \<or> is_digit c \<or> c \<in> {CHR ''_'', CHR ''.'', CHR ''-''})"

definition trim_dashes :: "string \<Rightarrow> string" where
  "trim_dashes s = rev (dropWhile (\<lambda>c. c = CHR ''-'') (rev (dropWhile (\<lambda>c. c = CHR ''-'') s)))"

definition assetStem :: "string \<Rightarrow> string" where
  "assetStem base =
     (let stem = trim_dashes (replace_with (run_of (\<lambda>c. \<not> is_stem_char c)) (\<lambda>_ _. ''-'') (toLowerCase base))
      in if stem = [] then ''asset'' else stem)"

definition uniqueAssetId :: "AssetDescriptor list option \<Rightarrow> string \<Rightarrow> string" where
  "uniqueAssetId assets base =
     (let stem = assetStem base; taken = map asset_id (orEmpty assets)
      in if stem \<notin> set taken then stem else first_free stem taken 2)"

section \<open>Facts on references\<close>

lemma set_adds_map: "set_adds (map f (set_adds xs acc)) b = set_adds (map f xs) (set_adds (map f acc) b)"
proof (induction xs arbitrary: acc)
  case (Cons x xs)
  have "set_adds (map f (set_add x acc)) b = set_add (f x) (set_adds (map f acc) b)"
    by (auto simp: set_add_def)
  then show ?case using Cons.IH by simp
qed simp

lemma hits_concat: "concat (map (\<lambda>x. concat (map g (f x))) xs) = concat (map g (concat (map f xs)))"
  by (induction xs) auto

lemma findAssetRefs_hits: "findAssetRefs v found = set_adds (concat (map (hits ASSET_REF) (strings_of v))) found"
proof (induction v arbitrary: found)
  case (Arr xs)
  have "fold (\<lambda>x. findAssetRefs x) xs t = fold (\<lambda>x. set_adds (concat (map (hits ASSET_REF) (strings_of x)))) xs t" for t
    by (rule fold_cong_pointwise) (use Arr in auto)
  then show ?case by (simp only: findAssetRefs.simps strings_of.simps fold_set_adds hits_concat map_map o_def)
next
  case (Obj es)
  have "fold (\<lambda>x. findAssetRefs x) (ovalues es) t = fold (\<lambda>x. set_adds (concat (map (hits ASSET_REF) (strings_of x)))) (ovalues es) t" for t
    by (rule fold_cong_pointwise) (use Obj in auto)
  then show ?case by (simp only: findAssetRefs.simps strings_of.simps fold_set_adds hits_concat map_map o_def)
qed auto

lemma set_findAssetRefs: "set (findAssetRefs v []) = (\<Union>t \<in> set (strings_of v). set (hits ASSET_REF t))"
  by (simp add: findAssetRefs_hits)

lemma name_chars_whole: "list_all is_name_char i \<Longrightarrow> takeWhile is_name_char i = i"
  by (auto simp: list_all_iff takeWhile_eq_all_conv)

lemma scheme_char: "h \<in> set (tl ASSET_SCHEME) \<Longrightarrow> h \<noteq> CHR ''h''"
  by (auto simp: ASSET_SCHEME_def)

lemma ASSET_SCHEME_split: "ASSET_SCHEME = CHR ''h'' # tl ASSET_SCHEME" "ASSET_SCHEME = ''hkp-asset'' @ ''://''"
  by (simp_all add: ASSET_SCHEME_def)

text \<open>A matcher that only matches where an \<^verbatim>\<open>h\<close> stands leaves other text alone.\<close>

lemma exact_ref_h: "exact_ref old s = Some p \<Longrightarrow> \<exists>t. s = ASSET_SCHEME @ old @ t \<and> p = ((), length (ASSET_SCHEME @ old))
    \<and> (t = [] \<or> \<not> is_name_char (hd t))"
  by (auto simp: exact_ref_def dest!: strip_Some split: option.splits if_splits)

lemma exact_ref_here:
  "t = [] \<or> \<not> is_name_char (hd t) \<Longrightarrow> exact_ref old (ASSET_SCHEME @ old @ t) = Some ((), length (ASSET_SCHEME @ old))"
  using strip_append [of "ASSET_SCHEME @ old" t] by (auto simp: exact_ref_def)

lemma renameText_skip: "exact_ref old (c # cs) = None \<Longrightarrow> renameText old new (c # cs) = c # renameText old new cs"
  by (simp add: renameText_def replace_with_Cons)

lemma renameText_here:
  assumes "t = [] \<or> \<not> is_name_char (hd t)"
  shows "renameText old new (ASSET_SCHEME @ old @ t) = ASSET_SCHEME @ new @ renameText old new t"
proof -
  obtain c cs where c: "ASSET_SCHEME @ old @ t = c # cs" by (simp add: ASSET_SCHEME_def)
  have "drop (length (ASSET_SCHEME @ old) - 1) cs = drop (length (ASSET_SCHEME @ old)) (c # cs)"
    by (simp add: ASSET_SCHEME_def)
  also have "\<dots> = t" unfolding c [symmetric] by simp
  finally show ?thesis
    using exact_ref_here [OF assms, of old] by (simp add: renameText_def replace_with_Cons c formatAssetRef_def)
qed

lemma exact_ref_not_h: "c \<noteq> CHR ''h'' \<Longrightarrow> exact_ref old (c # cs) = None"
  using exact_ref_h [of old "c # cs"] by (cases "exact_ref old (c # cs)") (auto simp: ASSET_SCHEME_def)

lemma renameText_plain: "CHR ''h'' \<notin> set u \<Longrightarrow> renameText old new (u @ s) = u @ renameText old new s"
  by (induction u) (auto simp: renameText_skip exact_ref_not_h)

lemma renameText_starts:
  "CHR ''h'' \<notin> set q \<Longrightarrow> starts_with q (renameText old new s) = starts_with q s"
proof (induction q arbitrary: s)
  case (Cons d q)
  show ?case
  proof (cases s)
    case Nil
    then show ?thesis by (simp add: renameText_def)
  next
    case s: (Cons c cs)
    show ?thesis
    proof (cases "exact_ref old s")
      case None
      then show ?thesis using Cons s renameText_skip [of old c cs new] by (auto simp: starts_with_def)
    next
      case (Some p)
      then obtain t where t: "s = ASSET_SCHEME @ old @ t" "t = [] \<or> \<not> is_name_char (hd t)" using exact_ref_h by blast
      have "renameText old new s = ASSET_SCHEME @ new @ renameText old new t" unfolding t(1) by (rule renameText_here [OF t(2)])
      then show ?thesis using Cons.prems t(1) by (simp add: starts_with_def ASSET_SCHEME_def)
    qed
  qed
qed (simp add: starts_with_def)

lemma renameText_names: "takeWhile is_name_char (renameText old new s) = takeWhile is_name_char s"
proof (induction s)
  case Nil
  then show ?case by (simp add: renameText_def)
next
  case (Cons c cs)
  show ?case
  proof (cases "exact_ref old (c # cs)")
    case None
    then show ?thesis using Cons renameText_skip [of old c cs new] by simp
  next
    case (Some p)
    then obtain t where t: "c # cs = ASSET_SCHEME @ old @ t" "t = [] \<or> \<not> is_name_char (hd t)" using exact_ref_h by blast
    have "renameText old new (c # cs) = ASSET_SCHEME @ new @ renameText old new t" unfolding t(1) by (rule renameText_here [OF t(2)])
    then show ?thesis unfolding t(1)
      by (simp add: ASSET_SCHEME_def is_name_char_def is_upper_def is_lower_def is_digit_def Let_def)
  qed
qed

text \<open>Inside a name that does not end in the scheme's own name no reference starts.\<close>

lemma renameText_name:
  assumes "list_all is_name_char u" "rest = [] \<or> \<not> is_name_char (hd rest)" "\<not> suffix ''hkp-asset'' u"
  shows "renameText old new (u @ rest) = u @ renameText old new rest"
  using assms(1,3)
proof (induction u)
  case (Cons c u)
  have "exact_ref old (c # u @ rest) = None"
  proof (rule ccontr)
    assume "exact_ref old (c # u @ rest) \<noteq> None"
    then obtain t where "c # u @ rest = ASSET_SCHEME @ old @ t"
      using exact_ref_h [of old "c # u @ rest"] by blast
    then have t: "(c # u) @ rest = ''hkp-asset'' @ ''://'' @ old @ t" by (simp add: ASSET_SCHEME_def)
    have "takeWhile is_name_char ((c # u) @ rest) = c # u"
      using Cons.prems(1) assms(2) by (subst takeWhile_append2) (auto simp: list_all_iff takeWhile_eq_Nil_iff)
    moreover have "takeWhile is_name_char (''hkp-asset'' @ ''://'' @ old @ t) = ''hkp-asset''"
      by (simp add: is_name_char_def is_upper_def is_lower_def is_digit_def Let_def)
    ultimately have "c # u = ''hkp-asset''" by (simp only: t)
    then show False using Cons.prems(2) by simp
  qed
  moreover have "\<not> suffix ''hkp-asset'' u" using Cons.prems(2) by (meson suffix_ConsI)
  ultimately show ?case using Cons by (simp add: renameText_skip)
qed simp

lemma ASSET_REF_here: "takeWhile is_name_char x \<noteq> [] \<Longrightarrow>
    hits ASSET_REF (ASSET_SCHEME @ x) = takeWhile is_name_char x # hits ASSET_REF (dropWhile is_name_char x)"
proof -
  assume x: "takeWhile is_name_char x \<noteq> []"
  let ?n = "takeWhile is_name_char x"
  obtain c cs where c: "ASSET_SCHEME @ x = c # cs" by (simp add: ASSET_SCHEME_def)
  have m: "ASSET_REF (ASSET_SCHEME @ x) = Some (?n, length ASSET_SCHEME + length ?n)"
    using x by (simp add: prefixed_name_def)
  have "drop (length ASSET_SCHEME + length ?n - 1) cs = drop (length ASSET_SCHEME + length ?n) (c # cs)"
    by (simp add: ASSET_SCHEME_def)
  also have "\<dots> = dropWhile is_name_char x"
    unfolding c [symmetric] by (simp add: dropWhile_eq_drop)
  finally show ?thesis using m by (simp add: c hits_Cons)
qed

lemma ASSET_REF_None:
  "ASSET_REF s = None \<longleftrightarrow> \<not> (\<exists>x. s = ASSET_SCHEME @ x \<and> takeWhile is_name_char x \<noteq> [])"
  by (auto simp: prefixed_name_def dest: strip_Some split: option.splits)

text \<open>
  A text's references after a renaming: those it had, with the new name in place of the old.
\<close>

lemma renameText_hits:
  assumes "isAssetId old" "isAssetId new" "\<forall>i \<in> set (hits ASSET_REF s). \<not> suffix ''hkp-asset'' i"
  shows "hits ASSET_REF (renameText old new s) = map (\<lambda>i. if i = old then new else i) (hits ASSET_REF s)"
  using assms(3)
proof (induction s rule: length_induct)
  case (1 s)
  show ?case
  proof (cases s)
    case Nil
    then show ?thesis by (simp add: renameText_def)
  next
    case s: (Cons c cs)
    show ?thesis
    proof (cases "ASSET_REF s")
      case None
      then have h: "hits ASSET_REF s = hits ASSET_REF cs" by (simp add: s hits_Cons)
      have e: "exact_ref old s = None"
      proof (rule ccontr)
        assume "exact_ref old s \<noteq> None"
        then obtain t where t: "s = ASSET_SCHEME @ old @ t" using exact_ref_h by blast
        then show False using None assms(1) unfolding ASSET_REF_None
          by (auto simp: isAssetId_def name_chars_whole takeWhile_append2 list_all_iff neq_Nil_conv)
      qed
      then have r: "renameText old new s = c # renameText old new cs" by (simp add: s renameText_skip)
      have "ASSET_REF (c # renameText old new cs) = None"
      proof (rule ccontr)
        assume "ASSET_REF (c # renameText old new cs) \<noteq> None"
        then obtain y where y: "c # renameText old new cs = ASSET_SCHEME @ y" "takeWhile is_name_char y \<noteq> []"
          unfolding ASSET_REF_None by blast
        have q: "CHR ''h'' \<notin> set (tl ASSET_SCHEME)" using scheme_char by blast
        have cy: "c = CHR ''h''" "renameText old new cs = tl ASSET_SCHEME @ y" using y(1) by (simp_all add: ASSET_SCHEME_def)
        then have "starts_with (tl ASSET_SCHEME) cs" using renameText_starts [OF q, of old new cs] by simp
        then obtain x where x: "cs = tl ASSET_SCHEME @ x" by (auto simp: starts_with_iff)
        then have "y = renameText old new x" using cy(2) renameText_plain [OF q, of old new x] by simp
        then have "takeWhile is_name_char x \<noteq> []" using y(2) renameText_names by simp
        then show False using None x cy(1) s unfolding ASSET_REF_None by (auto simp: ASSET_SCHEME_def)
      qed
      then have "hits ASSET_REF (renameText old new s) = hits ASSET_REF (renameText old new cs)"
        by (simp add: r hits_Cons)
      also have "\<dots> = map (\<lambda>i. if i = old then new else i) (hits ASSET_REF cs)" using 1 s h by auto
      finally show ?thesis by (simp add: h)
    next
      case (Some p)
      then obtain x where x: "s = ASSET_SCHEME @ x" "takeWhile is_name_char x \<noteq> []" using ASSET_REF_None [of s] by auto
      let ?n = "takeWhile is_name_char x" let ?d = "dropWhile is_name_char x"
      have h: "hits ASSET_REF s = ?n # hits ASSET_REF ?d" unfolding x(1) by (rule ASSET_REF_here [OF x(2)])
      have d: "?d = [] \<or> \<not> is_name_char (hd ?d)" using hd_dropWhile [of is_name_char x] by blast
      have xs: "x = ?n @ ?d" by simp
      have n: "list_all is_name_char ?n" by (auto simp: list_all_iff dest: set_takeWhileD)
      have "length ?d < length s" using length_dropWhile_le [of is_name_char x] by (simp add: x(1) ASSET_SCHEME_def)
      then have IH: "hits ASSET_REF (renameText old new ?d) = map (\<lambda>i. if i = old then new else i) (hits ASSET_REF ?d)"
        using 1 h by auto
      have dn: "takeWhile is_name_char (renameText old new ?d) = []"
        using d by (auto simp: renameText_names takeWhile_eq_Nil_iff)
      have go: "hits ASSET_REF (ASSET_SCHEME @ i @ renameText old new ?d) = i # hits ASSET_REF (renameText old new ?d)"
        if "isAssetId i" for i
      proof -
        have "takeWhile is_name_char (i @ renameText old new ?d) = i" "dropWhile is_name_char (i @ renameText old new ?d) = renameText old new ?d"
          using that dn by (auto simp: isAssetId_def list_all_iff takeWhile_append2 dropWhile_append2 takeWhile_eq_Nil_iff)
            (cases "renameText old new ?d"; simp)
        then show ?thesis using ASSET_REF_here [of "i @ renameText old new ?d"] that by (simp add: isAssetId_def)
      qed
      show ?thesis
      proof (cases "?n = old")
        case True
        then have "renameText old new s = ASSET_SCHEME @ new @ renameText old new ?d"
          using renameText_here [OF d, of old new] xs x(1) by metis
        then show ?thesis using go [OF assms(2)] True h IH by simp
      next
        case False
        have "exact_ref old s = None"
        proof (rule ccontr)
          assume "exact_ref old s \<noteq> None"
          then obtain t where t: "s = ASSET_SCHEME @ old @ t" "t = [] \<or> \<not> is_name_char (hd t)" using exact_ref_h by blast
          then have "x = old @ t" using x(1) by simp
          then have "?n = old" using assms(1) t(2)
            by (auto simp: isAssetId_def list_all_iff takeWhile_append2 takeWhile_eq_Nil_iff)
          then show False using False by simp
        qed
        then have "renameText old new s = CHR ''h'' # renameText old new (tl ASSET_SCHEME @ x)"
          using renameText_skip [of old "CHR ''h''" "tl ASSET_SCHEME @ x" new] unfolding x(1)
          by (simp add: ASSET_SCHEME_def)
        also have "\<dots> = ASSET_SCHEME @ renameText old new x"
          using renameText_plain [of "tl ASSET_SCHEME" old new x] scheme_char ASSET_SCHEME_split(1) by (metis append_Cons)
        also have "renameText old new x = ?n @ renameText old new ?d"
          using renameText_name [OF n d] 1(2) h xs by (metis list.set_intros(1))
        finally show ?thesis using go [of ?n] False h IH n x(2) by (simp add: isAssetId_def)
      qed
    qed
  qed
qed

section \<open>Facts on descriptors\<close>

lemma lower_char_hex: "is_hex c \<Longrightarrow> is_hex (lower_char c) \<and> lower_char (lower_char c) = lower_char c"
proof (cases "is_upper c")
  case True
  assume "is_hex c"
  with True have n: "65 \<le> (of_char c :: nat)" "(of_char c :: nat) \<le> 70"
    by (auto simp: is_hex_def is_upper_def is_digit_def Let_def)
  then have "(of_char (lower_char c) :: nat) = of_char c + 32"
    using True by (simp add: lower_char_def Let_def)
  with n have l: "97 \<le> (of_char (lower_char c) :: nat)" "(of_char (lower_char c) :: nat) \<le> 102" by simp_all
  then have "is_hex (lower_char c)" by (simp add: is_hex_def Let_def)
  moreover have "\<not> is_upper (lower_char c)" using l by (simp add: is_upper_def Let_def)
  ultimately show ?thesis using l by (subst (2) lower_char_def) (simp add: Let_def)
next
  case False
  assume h: "is_hex c"
  then have "(of_char c :: nat) \<le> 102" by (auto simp: is_hex_def is_digit_def Let_def)
  with False have "lower_char c = c" by (simp add: lower_char_def Let_def)
  with h show ?thesis by simp
qed

lemma toLowerCase_sha256: "is_sha256 h \<Longrightarrow> is_sha256 (toLowerCase h) \<and> toLowerCase (toLowerCase h) = toLowerCase h"
  by (auto simp: is_sha256_def toLowerCase_def list_all_iff lower_char_hex)

text \<open>What a descriptor that was accepted satisfies, and that it is read back as itself.\<close>

definition asset_ok :: "AssetDescriptor \<Rightarrow> bool" where
  "asset_ok a =
     (isAssetId (asset_id a) \<and> asset_mediaType a \<noteq> []
      \<and> (\<forall>h. asset_sha256 a = Some h \<longrightarrow> is_sha256 h \<and> toLowerCase h = h))"

lemma checkAssetDescriptor_ok: "checkAssetDescriptor v = Inr a \<Longrightarrow> asset_ok a"
proof -
  assume c: "checkAssetDescriptor v = Inr a"
  then obtain entry where v: "v = JObj entry" by (cases v) (simp_all add: checkAssetDescriptor_def)
  obtain i where i: "oget entry ''id'' = JStr i" "isAssetId i"
    using c unfolding v checkAssetDescriptor_def by (cases "oget entry ''id''") (simp_all split: if_splits)
  obtain source where s: "pickSource entry = Some source"
    using c i unfolding v checkAssetDescriptor_def by (cases "pickSource entry") simp_all
  obtain t where t: "oget entry ''mediaType'' = JStr t" "t \<noteq> []"
    using c i s unfolding v checkAssetDescriptor_def by (cases "oget entry ''mediaType''") (simp_all split: if_splits)
  have "asset_id a = i" "asset_mediaType a = t"
    "asset_sha256 a = (case oget entry ''sha256'' of JStr h \<Rightarrow> if is_sha256 h then Some (toLowerCase h) else None | _ \<Rightarrow> None)"
    using c i s t unfolding v checkAssetDescriptor_def by auto
  then show ?thesis using i t toLowerCase_sha256
    by (cases "oget entry ''sha256''") (auto simp: asset_ok_def split: if_splits)
qed

lemma oget_append: "oget (a @ b) k = (if k \<in> set (okeys a) then oget a k else oget b k)"
  by (induction a) (auto simp: oget_def)

lemma oget_optional: "oget (optional key f x) k = (if k = key then (case x of None \<Rightarrow> JUndef | Some y \<Rightarrow> f y) else JUndef)"
  by (simp add: optional_def oget_def split: option.splits)

lemma oget_optional_then: "oget (optional key f x @ b) k = (if k = key then (case x of None \<Rightarrow> oget b k | Some y \<Rightarrow> f y) else oget b k)"
  by (simp add: optional_def oget_def split: option.splits)

lemma oget_single: "oget ((k', v) # b) k = (if k = k' then v else oget b k)"
  by (simp add: oget_def)

lemma map_filter_the_str [simp]: "List.map_filter the_str (map JStr rs) = rs"
  by (induction rs) (simp_all add: List.map_filter_simps)

lemma asset_json_fields:
  assumes "asset_json a = JObj entry"
  shows "oget entry ''id'' = JStr (asset_id a)"
    "oget entry ''name'' = (case asset_name a of None \<Rightarrow> JUndef | Some n \<Rightarrow> JStr n)"
    "oget entry ''mediaType'' = JStr (asset_mediaType a)"
    "oget entry ''sha256'' = (case asset_sha256 a of None \<Rightarrow> JUndef | Some n \<Rightarrow> JStr n)"
    "oget entry ''size'' = (case asset_size a of None \<Rightarrow> JUndef | Some n \<Rightarrow> JNum n)"
    "oget entry ''runtimes'' = (case asset_runtimes a of None \<Rightarrow> JUndef | Some rs \<Rightarrow> JArr (map JStr rs))"
    "oget entry ''headers'' = JUndef"
    "pickSource entry = Some (asset_source a)"
proof -
  have e: "entry = (''id'', JStr (asset_id a)) # optional ''name'' JStr (asset_name a)
       @ (''mediaType'', JStr (asset_mediaType a)) # optional ''sha256'' JStr (asset_sha256 a)
       @ optional ''size'' JNum (asset_size a)
       @ optional ''runtimes'' (\<lambda>rs. JArr (map JStr rs)) (asset_runtimes a)
       @ [source_json (asset_source a)]"
    using assms by (simp add: asset_json_def)
  have s: "oget [source_json (asset_source a)] k = JUndef" if "k \<notin> {''text'', ''base64'', ''url''}" for k
    using that by (cases "asset_source a") (auto simp: oget_def)
  show "oget entry ''id'' = JStr (asset_id a)"
    "oget entry ''name'' = (case asset_name a of None \<Rightarrow> JUndef | Some n \<Rightarrow> JStr n)"
    "oget entry ''mediaType'' = JStr (asset_mediaType a)"
    "oget entry ''sha256'' = (case asset_sha256 a of None \<Rightarrow> JUndef | Some n \<Rightarrow> JStr n)"
    "oget entry ''size'' = (case asset_size a of None \<Rightarrow> JUndef | Some n \<Rightarrow> JNum n)"
    "oget entry ''runtimes'' = (case asset_runtimes a of None \<Rightarrow> JUndef | Some rs \<Rightarrow> JArr (map JStr rs))"
    "oget entry ''headers'' = JUndef"
    by (simp_all add: e oget_single oget_optional_then s cong: option.case_cong)
  show "pickSource entry = Some (asset_source a)"
    by (cases "asset_source a") (simp_all add: e pickSource_def oget_single oget_optional_then oget_def [of "[]"])
qed

lemma checkAssetDescriptor_json:
  assumes "asset_ok a"
  shows "checkAssetDescriptor (asset_json a) = Inr a"
proof -
  obtain entry where r: "asset_json a = JObj entry" by (simp add: asset_json_def)
  have "isAssetId (asset_id a)" "asset_mediaType a \<noteq> []" using assms by (auto simp: asset_ok_def)
  moreover have "asset_sha256 a = (case asset_sha256 a of None \<Rightarrow> None | Some h \<Rightarrow> if is_sha256 h then Some (toLowerCase h) else None)"
    using assms by (auto simp: asset_ok_def split: option.splits)
  ultimately show ?thesis
    by (simp add: r checkAssetDescriptor_def asset_json_fields [OF r]) (cases a; auto split: option.splits)
qed

lemma asset_json_headers: "field (asset_json a) ''headers'' = JUndef"
proof -
  obtain entry where r: "asset_json a = JObj entry" by (simp add: asset_json_def)
  then show ?thesis by (simp add: field_def asset_json_fields [OF r])
qed

lemma readAssets_invariant:
  assumes "distinct (map asset_id as)" "\<forall>a \<in> set as. asset_ok a" "fold readAsset entries (as, ps) = (as', ps')"
  shows "distinct (map asset_id as') \<and> (\<forall>a \<in> set as'. asset_ok a) \<and> length as + length ps + length entries \<le> length as' + length ps'"
  using assms
proof (induction entries arbitrary: as ps)
  case (Cons e entries)
  obtain as1 ps1 where 1: "readAsset e (as, ps) = (as1, ps1)" by fastforce
  have "distinct (map asset_id as1) \<and> (\<forall>a \<in> set as1. asset_ok a) \<and> length as + length ps < length as1 + length ps1"
    using 1 Cons.prems(1,2) checkAssetDescriptor_ok [of e]
    by (auto simp: readAsset_def split: sum.splits if_splits)
  then show ?case using Cons.IH [of as1 ps1] Cons.prems(3) 1 by fastforce
qed simp

lemma readAssets_json:
  assumes "distinct (map asset_id (as @ bs))" "\<forall>a \<in> set bs. asset_ok a"
  shows "fold readAsset (map asset_json bs) (as, ps) = (as @ bs, ps)"
  using assms
proof (induction bs arbitrary: as)
  case (Cons b bs)
  have "readAsset (asset_json b) (as, ps) = (as @ [b], ps)"
    using Cons.prems by (auto simp: readAsset_def checkAssetDescriptor_json asset_json_headers)
  then show ?case using Cons.IH [of "as @ [b]"] Cons.prems by simp
qed simp

section \<open>Facts on ids\<close>

lemma stem_name_char: "is_stem_char c \<Longrightarrow> is_name_char c"
  by (auto simp: is_stem_char_def is_name_char_def)

lemma set_trim_dashes: "set (trim_dashes s) \<subseteq> set s"
  by (auto simp: trim_dashes_def dest!: set_dropWhileD)

lemma stem_chars: "c \<in> set (replace_with (run_of (\<lambda>c. \<not> is_stem_char c)) (\<lambda>_ _. ''-'') s) \<Longrightarrow> is_stem_char c"
proof (induction s rule: length_induct)
  case (1 s)
  show ?case
  proof (cases s)
    case s: (Cons d cs)
    let ?n = "length (takeWhile (\<lambda>c. \<not> is_stem_char c) s)"
    have dash: "is_stem_char CHR ''-''" by (simp add: is_stem_char_def)
    show ?thesis
    proof (cases "is_stem_char d")
      case True
      then have "c = d \<or> c \<in> set (replace_with (run_of (\<lambda>c. \<not> is_stem_char c)) (\<lambda>_ _. ''-'') cs)"
        using "1.prems" unfolding s replace_with_Cons by (simp add: run_of_def [of _ "d # cs"])
      then show ?thesis using True "1.IH" s by auto
    next
      case False
      then have "c = CHR ''-'' \<or> c \<in> set (replace_with (run_of (\<lambda>c. \<not> is_stem_char c)) (\<lambda>_ _. ''-'') (drop (?n - 1) cs))"
        using "1.prems" unfolding s replace_with_Cons by (simp add: run_of_def [of _ "d # cs"])
      moreover have "length (drop (?n - 1) cs) < length s" by (simp add: s)
      ultimately show ?thesis using dash "1.IH" by blast
    qed
  qed (use 1 in simp)
qed

lemma isAssetId_stem: "isAssetId (assetStem base)"
proof -
  have "is_name_char c" if "c \<in> set (trim_dashes (replace_with (run_of (\<lambda>c. \<not> is_stem_char c)) (\<lambda>_ _. ''-'') (toLowerCase base)))" for c
    using that set_trim_dashes stem_chars stem_name_char by blast
  then show ?thesis
    by (auto simp: assetStem_def isAssetId_def list_all_iff Let_def is_name_char_def is_lower_def)
qed

lemma isAssetId_numbered: "isAssetId stem \<Longrightarrow> isAssetId (numbered stem n)"
  using show_nat_digits by (auto simp: isAssetId_def numbered_def list_all_iff is_name_char_def)

section \<open>Facts on uses\<close>

text \<open>The value at a path.\<close>

fun value_at :: "AssetPathStep list \<Rightarrow> jsval \<Rightarrow> jsval option" where
  "value_at [] v = Some v"
| "value_at (AtKey k # path) v =
     (case v of JObj es \<Rightarrow> (case map_of es k of Some x \<Rightarrow> value_at path x | None \<Rightarrow> None) | _ \<Rightarrow> None)"
| "value_at (AtIndex n # path) v =
     (case v of JArr xs \<Rightarrow> if n < length xs then value_at path (xs ! n) else None | _ \<Rightarrow> None)"

definition asked :: "string option \<Rightarrow> string \<Rightarrow> bool" where
  "asked assetId i = (case assetId of None \<Rightarrow> True | Some a \<Rightarrow> a = [] \<or> i = a)"

lemma walkRefs_JArr:
  "set (walkRefs a (JArr xs) path) = (\<Union>n < length xs. set (walkRefs a (xs ! n) (path @ [AtIndex n])))"
proof -
  have "set (walkRefs a (JArr xs) path)
      = (\<Union>(n, ws) \<in> set (enumerate 0 (map (\<lambda>item. walkRefs a item) xs)). set (ws (path @ [AtIndex n])))"
    by auto
  also have "set (enumerate 0 (map (\<lambda>item. walkRefs a item) xs)) = (\<lambda>n. (n, walkRefs a (xs ! n))) ` {..<length xs}"
    by (auto simp: in_set_enumerate_eq image_iff)
  finally show ?thesis by simp
qed

lemma zip_okeys: "zip (okeys es) (map f (ovalues es)) = map (\<lambda>(k, v). (k, f v)) es"
  by (induction es) auto

lemma walkRefs_JObj:
  "set (walkRefs a (JObj es) path) = (\<Union>(k, v) \<in> set es. set (walkRefs a v (path @ [AtKey k])))"
  unfolding walkRefs.simps zip_okeys by auto

lemma walkRefs_at_path:
  assumes "wf_js v"
  shows "(p, i) \<in> set (walkRefs a v path) \<longleftrightarrow>
    (\<exists>q t. p = path @ q \<and> value_at q v = Some (JStr t) \<and> i \<in> set (hits ASSET_REF t) \<and> asked a i)"
  using assms
proof (induction v arbitrary: path)
  case (Str s)
  have "value_at q (JStr s) = Some (JStr t) \<longleftrightarrow> q = [] \<and> t = s" for q t
    by (cases "(q, JStr s)" rule: value_at.cases) auto
  then show ?case by (auto simp: asked_def)
next
  case (Arr xs)
  have x: "(p, i) \<in> set (walkRefs a (xs ! n) path') \<longleftrightarrow>
      (\<exists>q t. p = path' @ q \<and> value_at q (xs ! n) = Some (JStr t) \<and> i \<in> set (hits ASSET_REF t) \<and> asked a i)"
    if "n < length xs" for n path'
    using Arr that nth_mem [OF that] by (simp add: list_all_iff)
  have q: "value_at q (JArr xs) = Some (JStr t) \<longleftrightarrow>
      (\<exists>n q'. n < length xs \<and> q = AtIndex n # q' \<and> value_at q' (xs ! n) = Some (JStr t))" for q t
    by (cases "(q, JArr xs)" rule: value_at.cases) auto
  have "(p, i) \<in> set (walkRefs a (JArr xs) path) \<longleftrightarrow>
      (\<exists>n. n < length xs \<and> (p, i) \<in> set (walkRefs a (xs ! n) (path @ [AtIndex n])))"
    unfolding walkRefs_JArr by auto
  also have "\<dots> \<longleftrightarrow> (\<exists>n. n < length xs \<and>
      (\<exists>q t. p = path @ AtIndex n # q \<and> value_at q (xs ! n) = Some (JStr t) \<and> i \<in> set (hits ASSET_REF t) \<and> asked a i))"
    using x by (metis append.assoc append_Cons append_Nil)
  finally show ?case unfolding q by blast
next
  case (Obj es)
  have d: "distinct (okeys es)" using Obj.prems by (simp add: canon_keys_def)
  have x: "(p, i) \<in> set (walkRefs a v path') \<longleftrightarrow>
      (\<exists>q t. p = path' @ q \<and> value_at q v = Some (JStr t) \<and> i \<in> set (hits ASSET_REF t) \<and> asked a i)"
    if "(k, v) \<in> set es" for k v path'
    using Obj.IH [OF ovalues_memI [OF that]] Obj.prems ovalues_memI [OF that] by (simp add: list_all_iff)
  have q: "value_at q (JObj es) = Some (JStr t) \<longleftrightarrow>
      (\<exists>k v q'. (k, v) \<in> set es \<and> q = AtKey k # q' \<and> value_at q' v = Some (JStr t))" for q t
    unfolding map_of_eq_Some_iff [OF d, symmetric]
    by (cases "(q, JObj es)" rule: value_at.cases) (auto split: option.splits)
  have "(p, i) \<in> set (walkRefs a (JObj es) path) \<longleftrightarrow>
      (\<exists>k v. (k, v) \<in> set es \<and> (p, i) \<in> set (walkRefs a v (path @ [AtKey k])))"
    unfolding walkRefs_JObj by auto
  also have "\<dots> \<longleftrightarrow> (\<exists>k v. (k, v) \<in> set es \<and>
      (\<exists>q t. p = path @ AtKey k # q \<and> value_at q v = Some (JStr t) \<and> i \<in> set (hits ASSET_REF t) \<and> asked a i))"
    using x by (metis append.assoc append_Cons append_Nil)
  finally show ?case unfolding q by blast
next
  case Undef
  have "value_at q JUndef \<noteq> Some (JStr t)" for q t by (cases "(q, JUndef)" rule: value_at.cases) auto
  then show ?case by simp
next
  case Null
  have "value_at q JNull \<noteq> Some (JStr t)" for q t by (cases "(q, JNull)" rule: value_at.cases) auto
  then show ?case by simp
next
  case (Bool b)
  have "value_at q (JBool b) \<noteq> Some (JStr t)" for q t by (cases "(q, JBool b)" rule: value_at.cases) auto
  then show ?case by simp
next
  case (Num n)
  have "value_at q (JNum n) \<noteq> Some (JStr t)" for q t by (cases "(q, JNum n)" rule: value_at.cases) auto
  then show ?case by simp
qed

lemma find_list_update:
  "distinct (map f xs) \<Longrightarrow> n < length xs \<Longrightarrow> f a = f (xs ! n) \<or> f a \<notin> f ` set xs \<Longrightarrow>
    find (\<lambda>x. f x = i) (xs[n := a]) = (if i = f a then Some a else if i = f (xs ! n) then None else find (\<lambda>x. f x = i) xs)"
proof (induction xs arbitrary: n)
  case (Cons x xs)
  show ?case
  proof (cases n)
    case 0
    have "find (\<lambda>x. f x = i) xs = None" if "i = f x"
      unfolding find_None_iff using that Cons.prems(1) by (metis distinct.simps(2) image_eqI list.set_map list.simps(9))
    then show ?thesis by (simp add: 0)
  next
    case (Suc m)
    have m: "m < length xs" using Cons.prems(2) Suc by simp
    then have x: "f x \<noteq> f (xs ! m)" using Cons.prems(1) by auto
    have y: "f x \<noteq> f a" using Cons.prems(3) x Suc by auto
    have "f a = f (xs ! m) \<or> f a \<notin> f ` set xs" using Cons.prems(3) Suc by auto
    moreover have "distinct (map f xs)" using Cons.prems(1) by simp
    ultimately have IH: "find (\<lambda>x. f x = i) (xs[m := a])
        = (if i = f a then Some a else if i = f (xs ! m) then None else find (\<lambda>x. f x = i) xs)"
      using Cons.IH m by blast
    show ?thesis
    proof (cases "f x = i")
      case True
      then show ?thesis using x y by (simp add: Suc)
    next
      case False
      then show ?thesis by (simp add: Suc IH)
    qed
  qed
qed simp

section \<open>Properties\<close>

text \<open>
  Reading a board's assets is stable: the ids of what is read are all different, every entry
  that was not taken is accounted for by a sentence, and writing the descriptors out and reading
  them again gives the same descriptors with nothing to report.
\<close>

theorem readBoardAssets_stable:
  "distinct (map asset_id (fst (readBoardAssets v)))
   \<and> length (js_arr v) \<le> length (fst (readBoardAssets v)) + length (snd (readBoardAssets v))
   \<and> readBoardAssets (JArr (map asset_json (fst (readBoardAssets v)))) = (fst (readBoardAssets v), [])"
proof (cases v)
  case (JArr entries)
  obtain as ps where r: "fold readAsset entries ([], []) = (as, ps)" by fastforce
  have i: "distinct (map asset_id as)" "\<forall>a \<in> set as. asset_ok a" "length entries \<le> length as + length ps"
    using readAssets_invariant [OF _ _ r] by simp_all
  have "fold readAsset (map asset_json as) ([], []) = (as, [])"
    using readAssets_json [of "[]" as "[]"] i by simp
  then show ?thesis using i by (simp add: readBoardAssets_def JArr r)
qed (simp_all add: readBoardAssets_def)

text \<open>
  A value is a reference, as a whole, exactly when it is the scheme followed by an asset id;
  so formatting an id and parsing a reference are inverse to each other.
\<close>

theorem parseAssetRef_iff:
  "parseAssetRef v = Some i \<longleftrightarrow> isAssetId i \<and> v = JStr (formatAssetRef i)"
proof
  assume "parseAssetRef v = Some i"
  then obtain s where s: "v = JStr s" "whole ASSET_REF s = Some i" by (auto simp: parseAssetRef_def split: jsval.splits)
  then obtain x where x: "strip ASSET_SCHEME s = Some x" "i = takeWhile is_name_char x" "i \<noteq> []"
      "length ASSET_SCHEME + length i = length s"
    by (auto simp: whole_def prefixed_name_def split: option.splits if_splits)
  have "s = ASSET_SCHEME @ x" using x(1) by (rule strip_Some)
  moreover have "length x = length i" using x(4) calculation by simp
  then have "x = i" using x(2) takeWhile_dropWhile_id [of is_name_char x] by (metis append_eq_append_conv append.right_neutral)
  moreover have "list_all is_name_char i" by (auto simp: x(2) list_all_iff dest: set_takeWhileD)
  ultimately show "isAssetId i \<and> v = JStr (formatAssetRef i)" using s(1) x(3) by (simp add: isAssetId_def formatAssetRef_def)
next
  assume "isAssetId i \<and> v = JStr (formatAssetRef i)"
  then show "parseAssetRef v = Some i"
    by (simp add: parseAssetRef_def formatAssetRef_def whole_def prefixed_name_def isAssetId_def name_chars_whole)
qed

text \<open>
  Renaming an asset reaches every mention of it and no other: the references of the renamed
  value are those it had, in order, with the new id in place of the old, as whole values and inside
  longer text alike, unless an id ends in the scheme's own name.
\<close>

theorem renameAssetRefs_refs:
  assumes "wf_js v" "isAssetId old" "isAssetId new" "\<forall>i \<in> set (findAssetRefs v []). \<not> suffix ''hkp-asset'' i"
  shows "findAssetRefs (renameAssetRefs v old new) []
    = set_adds (map (\<lambda>i. if i = old then new else i) (findAssetRefs v [])) []"
proof (cases "old \<in> set (findAssetRefs v [])")
  case False
  have "map (\<lambda>i. if i = old then new else i) (findAssetRefs v []) = findAssetRefs v []"
    using False by (auto intro!: map_idI)
  moreover have "set_adds (findAssetRefs v []) [] = findAssetRefs v []"
    using set_adds_map [of id "concat (map (hits ASSET_REF) (strings_of v))" "[]" "[]"] by (simp add: findAssetRefs_hits)
  ultimately show ?thesis using False by (simp add: renameAssetRefs_def)
next
  case True
  have "hits ASSET_REF (renameText old new t) = map (\<lambda>i. if i = old then new else i) (hits ASSET_REF t)"
    if "t \<in> set (strings_of v)" for t
    using renameText_hits [OF assms(2,3)] assms(4) that by (auto simp: set_findAssetRefs)
  then have "map (hits ASSET_REF) (map (renameText old new) (strings_of v))
      = map (map (\<lambda>i. if i = old then new else i)) (map (hits ASSET_REF) (strings_of v))" by simp
  then show ?thesis using True
    by (simp only: renameAssetRefs_def mapStrings_map_text [OF assms(1)] findAssetRefs_hits strings_of_map_text
      map_concat set_adds_map not_True_eq_False if_False fold_simps list.map(1))
qed

theorem renameAssetRefs_refs_witness:
  "findAssetRefs (renameAssetRefs (JArr [JStr ''hkp-asset://page'', JStr ''a hkp-asset://page.v2, hkp-asset://page'']) ''page'' ''home'') []
   = [''home'', ''page.v2'']"
proof -
  let ?v = "JArr [JStr ''hkp-asset://page'', JStr ''a hkp-asset://page.v2, hkp-asset://page'']"
  have r: "findAssetRefs ?v [] = [''page'', ''page.v2'']" by code_simp
  have "isAssetId ''page''" "isAssetId ''home''" by code_simp+
  moreover have "\<forall>i \<in> set (findAssetRefs ?v []). \<not> suffix ''hkp-asset'' i" unfolding r by (simp add: suffix_def)
  ultimately show ?thesis using renameAssetRefs_refs [of ?v "''page''" "''home''"] unfolding r by (simp add: set_add_def)
qed

text \<open>
  A new id is an asset id and is not taken, whatever it is derived from.
\<close>

theorem uniqueAssetId_fresh:
  "isAssetId (uniqueAssetId assets base) \<and> uniqueAssetId assets base \<notin> asset_id ` set (orEmpty assets)"
proof -
  let ?stem = "assetStem base" let ?taken = "map asset_id (orEmpty assets)"
  obtain k where "first_free ?stem ?taken 2 = numbered ?stem k" using first_free_form by blast
  then have "isAssetId (first_free ?stem ?taken 2)" using isAssetId_numbered isAssetId_stem by simp
  then show ?thesis using isAssetId_stem first_free_not_taken [of ?stem ?taken 2] by (simp add: uniqueAssetId_def Let_def)
qed

text \<open>
  The uses of an asset are exactly the mentions of it: a use is listed if and only if the state
  of a service of that runtime has, at that path, a string in which that id is referenced.
\<close>

theorem findAssetUses_iff:
  assumes "wf_js (JObj services)"
  shows "u \<in> set (findAssetUses services assetId) \<longleftrightarrow>
    (\<exists>lst svc t. (use_runtimeId u, lst) \<in> set services \<and> svc \<in> set (js_arr lst)
       \<and> use_serviceUuid u = field svc ''uuid'' \<and> use_serviceName u = field svc ''serviceName''
       \<and> value_at (use_path u) (field svc ''state'') = Some (JStr t)
       \<and> use_assetId u \<in> set (hits ASSET_REF t) \<and> asked assetId (use_assetId u))"
proof -
  have w: "wf_js (field svc ''state'')" if "(r, lst) \<in> set services" "svc \<in> set (js_arr lst)" for r lst svc
  proof -
    have "wf_js lst" using assms ovalues_memI [OF that(1)] by (simp add: list_all_iff)
    then have "wf_js svc" using that(2) by (cases lst) (auto simp: list_all_iff)
    then show ?thesis by (rule wf_js_field)
  qed
  have "u \<in> set (findAssetUses services assetId) \<longleftrightarrow>
    (\<exists>lst svc. (use_runtimeId u, lst) \<in> set services \<and> svc \<in> set (js_arr lst)
       \<and> use_serviceUuid u = field svc ''uuid'' \<and> use_serviceName u = field svc ''serviceName''
       \<and> (use_path u, use_assetId u) \<in> set (walkRefs assetId (field svc ''state'') []))"
    by (cases u) (auto simp: findAssetUses_def, force+)
  also have "\<dots> \<longleftrightarrow> (\<exists>lst svc. (use_runtimeId u, lst) \<in> set services \<and> svc \<in> set (js_arr lst)
       \<and> use_serviceUuid u = field svc ''uuid'' \<and> use_serviceName u = field svc ''serviceName''
       \<and> (\<exists>q t. use_path u = [] @ q \<and> value_at q (field svc ''state'') = Some (JStr t)
            \<and> use_assetId u \<in> set (hits ASSET_REF t) \<and> asked assetId (use_assetId u)))"
    using walkRefs_at_path [OF w] by (intro ex_cong1 conj_cong refl) blast
  finally show ?thesis by (simp only: append_Nil) blast
qed

text \<open>
  Saving an edited asset puts it in the place of the one it replaces: the ids stay different,
  looking its id up finds it, an id it gave up finds nothing, and every other id finds what it found
  before.
\<close>

theorem upsertAsset_replaces:
  assumes "distinct (map asset_id (orEmpty assets))"
    "asset_id asset = replacing \<or> asset_id asset \<notin> asset_id ` set (orEmpty assets)"
  shows "distinct (map asset_id (upsertAsset assets asset replacing))
    \<and> (\<forall>i. find (\<lambda>a. asset_id a = i) (upsertAsset assets asset replacing)
         = (if i = asset_id asset then Some asset
            else if i = replacing then None
            else find (\<lambda>a. asset_id a = i) (orEmpty assets)))"
proof (cases "find_index (\<lambda>entry. asset_id entry = replacing) (orEmpty assets)")
  case None
  then have n: "replacing \<notin> asset_id ` set (orEmpty assets)" by (auto simp: find_index_None)
  then have a: "asset_id asset \<notin> asset_id ` set (orEmpty assets)" using assms(2) by auto
  have f: "find (\<lambda>a. asset_id a = i) (xs @ [asset]) = (case find (\<lambda>a. asset_id a = i) xs of Some a \<Rightarrow> Some a
      | None \<Rightarrow> if i = asset_id asset then Some asset else None)" for i xs by (induction xs) auto
  have "find (\<lambda>a. asset_id a = i) (orEmpty assets) = None" if "i \<notin> asset_id ` set (orEmpty assets)" for i
    using that by (auto simp: find_None_iff)
  then show ?thesis using None n a assms(1) by (auto simp: upsertAsset_def f split: option.splits)
next
  case (Some n)
  then have n: "n < length (orEmpty assets)" "asset_id (orEmpty assets ! n) = replacing" using find_index_Some by blast+
  have "distinct ((map asset_id (orEmpty assets))[n := asset_id asset])"
    using assms n by (cases "asset_id asset = replacing") (auto intro: distinct_list_update simp: list_update_same_conv)
  moreover have "asset_id asset = asset_id (orEmpty assets ! n) \<or> asset_id asset \<notin> asset_id ` set (orEmpty assets)"
    using assms(2) n(2) by simp
  ultimately show ?thesis
    using Some n find_list_update [OF assms(1) n(1), of asset] by (simp add: upsertAsset_def map_update)
qed

theorem findAssetUses_iff_witness:
  "\<lparr>use_runtimeId = ''rt'', use_serviceUuid = JStr ''s'', use_serviceName = JUndef,
     use_path = [AtKey ''html'', AtIndex 1], use_assetId = ''page''\<rparr>
   \<in> set (findAssetUses [(''rt'', JArr [JObj [(''uuid'', JStr ''s''),
        (''state'', JObj [(''html'', JArr [JNull, JStr ''hkp-asset://page''])])]])] None)"
proof -
  let ?state = "JObj [(''html'', JArr [JNull, JStr ''hkp-asset://page''])]"
  let ?svc = "JObj [(''uuid'', JStr ''s''), (''state'', ?state)]"
  have "wf_js (JObj [(''rt'', JArr [?svc])])" by code_simp
  note i = findAssetUses_iff [OF this]
  have "value_at [AtKey ''html'', AtIndex 1] ?state = Some (JStr ''hkp-asset://page'')"
      "''page'' \<in> set (hits ASSET_REF ''hkp-asset://page'')" by code_simp+
  then show ?thesis unfolding i by (intro exI [of _ "JArr [?svc]"] exI [of _ ?svc]) (auto simp: asked_def)
qed

theorem upsertAsset_replaces_witness:
  "let a = \<lparr>asset_id = ''a'', asset_name = None, asset_mediaType = ''text/plain'', asset_sha256 = None,
      asset_size = None, asset_runtimes = None, asset_source = AssetText ''x''\<rparr>; b = a\<lparr>asset_id := ''b''\<rparr>
   in distinct (map asset_id (upsertAsset (Some [a]) b ''a''))"
proof -
  let ?a = "\<lparr>asset_id = ''a'', asset_name = None, asset_mediaType = ''text/plain'', asset_sha256 = None,
      asset_size = None, asset_runtimes = None, asset_source = AssetText ''x''\<rparr>"
  show ?thesis
    using upsertAsset_replaces [of "Some [?a]" "?a\<lparr>asset_id := ''b''\<rparr>" "''a''"] by (simp add: orEmpty_def)
qed

end
