(* ===== verification/BoardLink.thy ===== *)
theory BoardLink
  imports BoardUnits
begin

text \<open>
  Resolving a composition's units (\<^verbatim>\<open>hkp-frontend/src/core/linkUnits.ts\<close>): the documents a board pulls in,
  and the documents those pull in, are loaded breadth first and then projected into one board.  An
  origin is a parameter: \<open>load r\<close> is the document it has, nothing, or the message of what it
  throws.  A diagnostic is what its message is put together from.  The entries of a document are
  the objects of its \<^verbatim>\<open>units\<close> list, and a \<^verbatim>\<open>uri\<close> that is not a text is absent.
\<close>

section \<open>Origins\<close>

type_synonym origin = "UnitRef \<Rightarrow> string + obj option"

fun ref_value :: "UnitRef \<Rightarrow> string" where
  "ref_value (RelativeRef v) = v"
| "ref_value (AbsoluteRef v) = v"

definition isComposition :: "obj option \<Rightarrow> bool" where
  "isComposition board =
     (case board of None \<Rightarrow> False | Some b \<Rightarrow> (case oget b ''units'' of JArr us \<Rightarrow> us \<noteq> [] | _ \<Rightarrow> False))"

text \<open>\<open>getSaved\<close> looks a saved board up by name, \<open>fetched\<close> is the document at a URL.\<close>

definition defaultUnitOrigin :: "(string \<Rightarrow> string + obj option) \<Rightarrow> origin \<Rightarrow> origin" where
  "defaultUnitOrigin getSaved fetched ref =
     (case ref of
        RelativeRef v \<Rightarrow>
          (case getSaved v of
             Inr None \<Rightarrow> getSaved (unitBaseName v)
           | r \<Rightarrow> r)
      | AbsoluteRef v \<Rightarrow> fetched ref)"

definition filesUnitOrigin :: "(string \<times> obj) list \<Rightarrow> origin" where
  "filesUnitOrigin documents ref =
     (let byBaseName = fold (\<lambda>(name, board) m. m(unitBaseName name \<mapsto> board)) documents Map.empty
      in Inr (case map_of documents (ref_value ref) of
                Some b \<Rightarrow> Some b
              | None \<Rightarrow> byBaseName (unitBaseName (ref_value ref))))"

fun chainUnitOrigins :: "origin list \<Rightarrow> origin" where
  "chainUnitOrigins [] ref = Inr None"
| "chainUnitOrigins (load # origins) ref =
     (case load ref of
        Inr (Some board) \<Rightarrow> Inr (Some board)
      | _ \<Rightarrow> chainUnitOrigins origins ref)"

section \<open>Linking\<close>

datatype LinkDiagnostic =
    UriInvalid
  | UnitCycle string "string list"
  | UnitUnreadable string string
  | UnitNotFound string string

record Pending =
  pe_entry :: obj
  pe_prefix :: string
  pe_path :: "string list"

record Linking =
  lk_diagnostics :: "LinkDiagnostic list"
  lk_resolved :: "ResolvedUnit list"
  lk_placed :: "string list"

definition entry_uri :: "obj \<Rightarrow> string option" where
  "entry_uri entry = the_str (oget entry ''uri'')"

definition unit_entries :: "obj \<Rightarrow> obj list" where
  "unit_entries board = map js_obj (js_arr (oget board ''units''))"

definition placed_name :: "string \<Rightarrow> obj \<Rightarrow> obj \<Rightarrow> string" where
  "placed_name pre entry board =
     (if pre \<noteq> [] then pre @ ''.'' @ to_str (unitNameOf entry board) else to_str (unitNameOf entry board))"

definition placed_key :: "string \<Rightarrow> string \<Rightarrow> string" where
  "placed_key refValue name = refValue @ ''#'' @ name"

definition complain :: "LinkDiagnostic \<Rightarrow> Linking \<Rightarrow> Pending list \<times> Linking" where
  "complain d st = ([], st\<lparr>lk_diagnostics := lk_diagnostics st @ [d]\<rparr>)"

text \<open>One turn of the loop: what it adds to the queue.\<close>

definition link_one :: "origin \<Rightarrow> Pending \<Rightarrow> Linking \<Rightarrow> Pending list \<times> Linking" where
  "link_one load p st =
     (case parseUnitRef (entry_uri (pe_entry p)) of
        None \<Rightarrow> complain UriInvalid st
      | Some ref \<Rightarrow>
          if ref_value ref \<in> set (pe_path p) then complain (UnitCycle (ref_value ref) (pe_path p)) st
          else
            (case load ref of
               Inl message \<Rightarrow> complain (UnitUnreadable (the (entry_uri (pe_entry p))) message) st
             | Inr None \<Rightarrow> complain (UnitNotFound (the (entry_uri (pe_entry p))) (ref_value ref)) st
             | Inr (Some board) \<Rightarrow>
                 let name = placed_name (pe_prefix p) (pe_entry p) board;
                     key = placed_key (ref_value ref) name
                 in if key \<in> set (lk_placed st) then ([], st)
                    else
                      (map (\<lambda>nested. \<lparr>pe_entry = nested, pe_prefix = name, pe_path = pe_path p @ [ref_value ref]\<rparr>)
                         (unit_entries board),
                       st\<lparr>lk_resolved := lk_resolved st @ [\<lparr>ru_entry = pe_entry p, ru_board = board, ru_name = name\<rparr>],
                          lk_placed := lk_placed st @ [key]\<rparr>)))"

partial_function (option) link_loop :: "origin \<Rightarrow> Pending list \<Rightarrow> Linking \<Rightarrow> Linking option" where
  "link_loop load queue st =
     (case queue of
        [] \<Rightarrow> Some st
      | p # rest \<Rightarrow> let (new, st') = link_one load p st in link_loop load (rest @ new) st')"

definition link_start :: "obj \<Rightarrow> Pending list" where
  "link_start root = map (\<lambda>entry. \<lparr>pe_entry = entry, pe_prefix = [], pe_path = []\<rparr>) (unit_entries root)"

definition nothing_linked :: Linking where
  "nothing_linked = \<lparr>lk_diagnostics = [], lk_resolved = [], lk_placed = []\<rparr>"

definition linkBoard :: "obj \<Rightarrow> origin \<Rightarrow> (LinkDiagnostic list \<times> Projection) option" where
  "linkBoard root load =
     map_option (\<lambda>st. (lk_diagnostics st, projectUnits root (lk_resolved st)))
       (link_loop load (link_start root) nothing_linked)"

text \<open>The units that could not be found, of the error that is thrown where there are errors.\<close>

fun missing_uri :: "LinkDiagnostic \<Rightarrow> string option" where
  "missing_uri (UnitUnreadable uri message) = Some uri"
| "missing_uri (UnitNotFound uri refValue) = Some uri"
| "missing_uri _ = None"

section \<open>The loop ends\<close>

text \<open>The documents an origin has, each under as many references as it answers to, and what a document refers to.\<close>

definition documents_of :: "origin \<Rightarrow> obj set" where
  "documents_of load = {board. \<exists>ref. load ref = Inr (Some board)}"

definition named_by :: "obj \<Rightarrow> string set" where
  "named_by board = {ref_value ref | ref. \<exists>entry \<in> set (unit_entries board). parseUnitRef (entry_uri entry) = Some ref}"

lemma finite_named_by [simp]: "finite (named_by board)"
proof -
  have "named_by board \<subseteq> (\<lambda>entry. ref_value (the (parseUnitRef (entry_uri entry)))) ` set (unit_entries board)"
    by (force simp: named_by_def)
  then show ?thesis by (rule finite_subset) simp
qed

text \<open>
  A pending reference weighs what its whole tree of references could: there are \<open>n\<close> names in use, each document has
  fewer than \<open>k\<close> references, and a path holds no name twice.
\<close>

definition weight :: "nat \<Rightarrow> nat \<Rightarrow> Pending \<Rightarrow> nat" where
  "weight k n p = k ^ (n - length (pe_path p))"

definition path_ok :: "string set \<Rightarrow> Pending \<Rightarrow> bool" where
  "path_ok names p =
     (distinct (pe_path p) \<and> set (pe_path p) \<subseteq> names
      \<and> (\<forall>ref. parseUnitRef (entry_uri (pe_entry p)) = Some ref \<longrightarrow> ref_value ref \<in> names))"

lemma link_one_lighter:
  assumes "link_one load p st = (new, st')" "path_ok names p" "finite names" "card names = n" "0 < k"
    and "\<And>board. board \<in> documents_of load \<Longrightarrow> length (unit_entries board) < k \<and> named_by board \<subseteq> names"
  shows "sum_list (map (weight k n) new) < weight k n p \<and> (\<forall>q \<in> set new. path_ok names q)"
proof (cases "new = []")
  case True
  then show ?thesis using assms(5) by (simp add: weight_def)
next
  case False
  then obtain ref board name where r: "parseUnitRef (entry_uri (pe_entry p)) = Some ref" "ref_value ref \<notin> set (pe_path p)"
    "load ref = Inr (Some board)"
    "new = map (\<lambda>nested. \<lparr>pe_entry = nested, pe_prefix = name, pe_path = pe_path p @ [ref_value ref]\<rparr>) (unit_entries board)"
    using assms(1)
    by (auto simp: link_one_def complain_def Let_def split: option.splits if_splits sum.splits)
  have board: "length (unit_entries board) < k" "named_by board \<subseteq> names"
    using assms(6) r(3) by (auto simp: documents_of_def)
  have ok: "distinct (pe_path p @ [ref_value ref])" "set (pe_path p @ [ref_value ref]) \<subseteq> names"
    using assms(2) r(1,2) by (auto simp: path_ok_def)
  have "length (pe_path p @ [ref_value ref]) \<le> n"
    using card_mono [OF assms(3) ok(2)] distinct_card [OF ok(1)] assms(4) by simp
  then obtain m where m: "n - length (pe_path p) = Suc m" "n - Suc (length (pe_path p)) = m"
    by (cases "n - length (pe_path p)") auto
  have "sum_list (map (weight k n) new) = length (unit_entries board) * k ^ m"
    by (simp add: r(4) weight_def o_def m(2) sum_list_triv)
  also have "\<dots> < k * k ^ m" using assms(5) board(1) by simp
  finally show ?thesis using ok board(2) by (auto simp: weight_def m(1) r(4) path_ok_def named_by_def)
qed

lemma link_loop_ends:
  assumes "finite (documents_of load)" "finite names" "\<And>board. board \<in> documents_of load \<Longrightarrow> named_by board \<subseteq> names"
    and "\<forall>p \<in> set queue. path_ok names p"
  shows "\<exists>st'. link_loop load queue st = Some st'"
proof -
  define n where "n = card names"
  define k where "k = Suc (Max (insert 0 ((\<lambda>board. length (unit_entries board)) ` documents_of load)))"
  have k: "length (unit_entries board) < k \<and> named_by board \<subseteq> names" if "board \<in> documents_of load" for board
    using that assms(1,3) by (simp add: k_def less_Suc_eq_le Max_ge)
  show ?thesis
    using assms(4)
  proof (induction "sum_list (map (weight k n) queue)" arbitrary: queue st rule: less_induct)
    case less
    show ?case
    proof (cases queue)
      case Nil
      then show ?thesis by (simp add: link_loop.simps)
    next
      case (Cons p rest)
      obtain new st' where l: "link_one load p st = (new, st')" by fastforce
      have p: "path_ok names p" using less.prems Cons by simp
      have light: "sum_list (map (weight k n) new) < weight k n p" "\<forall>q \<in> set new. path_ok names q"
        using link_one_lighter [OF l p assms(2) n_def [symmetric] _ k] by (simp_all add: k_def)
      have "\<exists>st''. link_loop load (rest @ new) st' = Some st''"
        by (rule less.hyps) (use light less.prems Cons in auto)
      then show ?thesis by (subst link_loop.simps) (simp add: Cons l)
    qed
  qed
qed

text \<open>The origins of the code have finitely many documents, if what they read from has.\<close>

lemma by_base_name:
  "fold (\<lambda>(name, board) m. m(unitBaseName name \<mapsto> board)) ds m key = Some b \<Longrightarrow> b \<in> snd ` set ds \<or> m key = Some b"
proof (induction ds arbitrary: m)
  case (Cons d ds)
  obtain name board where d: "d = (name, board)" by (cases d)
  from Cons.prems have "fold (\<lambda>(name, board) m. m(unitBaseName name \<mapsto> board)) ds (m(unitBaseName name \<mapsto> board)) key = Some b"
    unfolding d by (simp only: fold.simps comp_apply prod.case)
  from Cons.IH [OF this] show ?case by (auto simp: d split: if_splits)
qed simp

lemma files_documents: "documents_of (filesUnitOrigin documents) \<subseteq> snd ` set documents"
proof
  fix board assume "board \<in> documents_of (filesUnitOrigin documents)"
  then obtain ref where ref: "filesUnitOrigin documents ref = Inr (Some board)" by (auto simp: documents_of_def)
  show "board \<in> snd ` set documents"
  proof (cases "map_of documents (ref_value ref)")
    case None
    then show ?thesis using ref by_base_name [of documents Map.empty] by (auto simp: filesUnitOrigin_def Let_def)
  next
    case (Some b)
    then show ?thesis using ref by (force simp: filesUnitOrigin_def Let_def dest: map_of_SomeD)
  qed
qed

lemma finite_files [simp]: "finite (documents_of (filesUnitOrigin documents))"
  using files_documents by (rule finite_subset) simp

lemma finite_default:
  assumes "finite {board. \<exists>name. getSaved name = Inr (Some board)}" "finite (documents_of fetched)"
  shows "finite (documents_of (defaultUnitOrigin getSaved fetched))"
proof (rule finite_subset)
  show "documents_of (defaultUnitOrigin getSaved fetched) \<subseteq> {board. \<exists>name. getSaved name = Inr (Some board)} \<union> documents_of fetched"
    by (auto simp: documents_of_def defaultUnitOrigin_def split: UnitRef.split_asm sum.split_asm option.split_asm)
qed (use assms in simp)

lemma finite_chain: "(\<And>load. load \<in> set origins \<Longrightarrow> finite (documents_of load)) \<Longrightarrow> finite (documents_of (chainUnitOrigins origins))"
proof (induction origins)
  case (Cons load origins)
  have "documents_of (chainUnitOrigins (load # origins)) \<subseteq> documents_of load \<union> documents_of (chainUnitOrigins origins)"
    by (auto simp: documents_of_def split: sum.split_asm option.split_asm)
  then show ?case by (rule finite_subset) (use Cons in simp)
qed (simp add: documents_of_def)

section \<open>Nothing is left out\<close>

text \<open>
  What becomes of an entry, named from a document placed as \<open>pre\<close>: it is complained about, or a unit is
  placed under the key it stands for.
\<close>

definition unit_key :: "ResolvedUnit \<Rightarrow> string option" where
  "unit_key ru =
     map_option (\<lambda>ref. placed_key (ref_value ref) (ru_name ru)) (parseUnitRef (entry_uri (ru_entry ru)))"

definition settled :: "origin \<Rightarrow> Linking \<Rightarrow> string \<Rightarrow> obj \<Rightarrow> bool" where
  "settled load st pre entry =
     (lk_diagnostics st \<noteq> []
      \<or> (\<exists>ref board. parseUnitRef (entry_uri entry) = Some ref \<and> load ref = Inr (Some board)
           \<and> (\<exists>ru \<in> set (lk_resolved st). unit_key ru = Some (placed_key (ref_value ref) (placed_name pre entry board)))))"

definition complete_upto :: "origin \<Rightarrow> obj \<Rightarrow> Pending list \<Rightarrow> Linking \<Rightarrow> bool" where
  "complete_upto load root queue st =
     ((\<forall>entry \<in> set (unit_entries root). settled load st [] entry \<or> (\<exists>p \<in> set queue. pe_entry p = entry \<and> pe_prefix p = []))
      \<and> (\<forall>ru \<in> set (lk_resolved st). \<forall>entry \<in> set (unit_entries (ru_board ru)).
           settled load st (ru_name ru) entry \<or> (\<exists>p \<in> set queue. pe_entry p = entry \<and> pe_prefix p = ru_name ru))
      \<and> map unit_key (lk_resolved st) = map Some (lk_placed st) \<and> distinct (lk_placed st))"

definition extends :: "Linking \<Rightarrow> Linking \<Rightarrow> bool" where
  "extends st st' =
     (set (lk_resolved st) \<subseteq> set (lk_resolved st') \<and> (lk_diagnostics st \<noteq> [] \<longrightarrow> lk_diagnostics st' \<noteq> []))"

lemma settled_extends: "settled load st pre entry \<Longrightarrow> extends st st' \<Longrightarrow> settled load st' pre entry"
  by (auto simp: settled_def extends_def)

text \<open>A turn either complains, finds the unit placed already, or places it and queues its entries.\<close>

lemma link_one_cases:
  assumes "link_one load p st = (new, st')"
  obtains (complains) d where "new = []" "st' = st\<lparr>lk_diagnostics := lk_diagnostics st @ [d]\<rparr>"
  | (known) ref board where "parseUnitRef (entry_uri (pe_entry p)) = Some ref" "load ref = Inr (Some board)"
      "placed_key (ref_value ref) (placed_name (pe_prefix p) (pe_entry p) board) \<in> set (lk_placed st)" "new = []" "st' = st"
  | (places) ref board name key where "parseUnitRef (entry_uri (pe_entry p)) = Some ref" "load ref = Inr (Some board)"
      "name = placed_name (pe_prefix p) (pe_entry p) board" "key = placed_key (ref_value ref) name" "key \<notin> set (lk_placed st)"
      "new = map (\<lambda>nested. \<lparr>pe_entry = nested, pe_prefix = name, pe_path = pe_path p @ [ref_value ref]\<rparr>) (unit_entries board)"
      "st' = st\<lparr>lk_resolved := lk_resolved st @ [\<lparr>ru_entry = pe_entry p, ru_board = board, ru_name = name\<rparr>],
                lk_placed := lk_placed st @ [key]\<rparr>"
proof (cases "parseUnitRef (entry_uri (pe_entry p))")
  case None
  then show ?thesis using assms complains [of UriInvalid] by (auto simp: link_one_def complain_def)
next
  case (Some ref)
  show ?thesis
  proof (cases "ref_value ref \<in> set (pe_path p)")
    case True
    then show ?thesis
      using assms complains [of "UnitCycle (ref_value ref) (pe_path p)"] Some by (auto simp: link_one_def complain_def)
  next
    case False
    consider (Threw) message where "load ref = Inl message" | (Nothing) "load ref = Inr None"
      | (Loaded) board where "load ref = Inr (Some board)"
      by (metis option.exhaust sum.exhaust)
    then show ?thesis
    proof cases
      case Threw
      then show ?thesis
        using assms complains [of "UnitUnreadable (the (entry_uri (pe_entry p))) message"] Some False
        by (auto simp: link_one_def complain_def)
    next
      case Nothing
      then show ?thesis
        using assms complains [of "UnitNotFound (the (entry_uri (pe_entry p))) (ref_value ref)"] Some False
        by (auto simp: link_one_def complain_def)
    next
      case Loaded
      then show ?thesis
        using assms Some False known [of ref board]
          places [of ref board "placed_name (pe_prefix p) (pe_entry p) board"
            "placed_key (ref_value ref) (placed_name (pe_prefix p) (pe_entry p) board)"]
        by (auto simp: link_one_def Let_def split: if_splits)
    qed
  qed
qed

lemma link_one_complete:
  assumes "link_one load p st = (new, st')" "complete_upto load root (p # rest) st"
  shows "complete_upto load root (rest @ new) st'"
  using assms(1)
proof (cases rule: link_one_cases)
  case (complains d)
  have "settled load st' pre entry" for pre entry by (simp add: settled_def complains(2))
  then show ?thesis using assms(2) by (simp add: complete_upto_def complains)
next
  case (known ref board)
  have "Some (placed_key (ref_value ref) (placed_name (pe_prefix p) (pe_entry p) board)) \<in> set (map unit_key (lk_resolved st))"
    using known(3) assms(2) by (simp add: complete_upto_def)
  then have "settled load st (pe_prefix p) (pe_entry p)"
    unfolding settled_def using known(1,2) by (metis (no_types, lifting) image_iff list.set_map)
  then have old: "settled load st pre entry \<or> (\<exists>q \<in> set (rest @ []). pe_entry q = entry \<and> pe_prefix q = pre)"
    if "settled load st pre entry \<or> (\<exists>q \<in> set (p # rest). pe_entry q = entry \<and> pe_prefix q = pre)" for pre entry
    using that by auto
  show ?thesis using assms(2) old unfolding complete_upto_def known(4,5) by blast
next
  case (places ref board name key)
  let ?ru = "\<lparr>ru_entry = pe_entry p, ru_board = board, ru_name = name\<rparr>"
  have ex: "extends st st'" by (auto simp: extends_def places(7))
  have key: "unit_key ?ru = Some key" by (simp add: unit_key_def places(1,4))
  then have here: "settled load st' (pe_prefix p) (pe_entry p)"
    unfolding settled_def using places(1-4,7) by auto
  have new: "\<exists>q \<in> set (rest @ new). pe_entry q = entry \<and> pe_prefix q = name" if "entry \<in> set (unit_entries board)" for entry
    using that by (force simp: places(6))
  have old: "settled load st' pre entry \<or> (\<exists>q \<in> set (rest @ new). pe_entry q = entry \<and> pe_prefix q = pre)"
    if "settled load st pre entry \<or> (\<exists>q \<in> set (p # rest). pe_entry q = entry \<and> pe_prefix q = pre)" for pre entry
    using that settled_extends [OF _ ex] here by auto
  show ?thesis
    unfolding complete_upto_def
  proof (intro conjI ballI)
    show "settled load st' [] entry \<or> (\<exists>q \<in> set (rest @ new). pe_entry q = entry \<and> pe_prefix q = [])"
      if "entry \<in> set (unit_entries root)" for entry
      using that assms(2) by (intro old) (simp add: complete_upto_def)
    show "settled load st' (ru_name ru) entry \<or> (\<exists>q \<in> set (rest @ new). pe_entry q = entry \<and> pe_prefix q = ru_name ru)"
      if "ru \<in> set (lk_resolved st')" "entry \<in> set (unit_entries (ru_board ru))" for ru entry
    proof (cases "ru = ?ru")
      case True
      then show ?thesis using new [of entry] that(2) by simp
    next
      case False
      then show ?thesis using that assms(2) by (intro old) (simp add: complete_upto_def places(7))
    qed
    show "map unit_key (lk_resolved st') = map Some (lk_placed st')" "distinct (lk_placed st')"
      using assms(2) key places(5) by (simp_all add: places(7) complete_upto_def)
  qed
qed

lemma link_loop_complete:
  assumes "link_loop load queue st = Some st'" "complete_upto load root queue st"
  shows "complete_upto load root [] st'"
proof -
  have "complete_upto load root queue st \<longrightarrow> complete_upto load root [] st'"
  proof (rule link_loop.raw_induct
      [where P = "\<lambda>load queue st st'. complete_upto load root queue st \<longrightarrow> complete_upto load root [] st'", OF _ assms(1)])
    fix loop load queue st st'
    assume IH: "\<And>load queue st st'. loop load queue st = Some st' \<Longrightarrow>
        complete_upto load root queue st \<longrightarrow> complete_upto load root [] st'"
      and body: "(case queue of [] \<Rightarrow> Some st | p # rest \<Rightarrow> let (new, st') = link_one load p st in loop load (rest @ new) st') = Some st'"
    show "complete_upto load root queue st \<longrightarrow> complete_upto load root [] st'"
    proof (cases queue)
      case Nil
      then show ?thesis using body by simp
    next
      case (Cons p rest)
      obtain new st1 where l: "link_one load p st = (new, st1)" by fastforce
      have "loop load (rest @ new) st1 = Some st'" using body Cons l by simp
      from IH [OF this] show ?thesis using link_one_complete [OF l] Cons by blast
    qed
  qed
  then show ?thesis using assms(2) by blast
qed

lemma link_start_complete: "complete_upto load root (link_start root) nothing_linked"
  by (auto simp: complete_upto_def link_start_def nothing_linked_def)

lemma link_start_ok: "named_by root \<subseteq> names \<Longrightarrow> \<forall>p \<in> set (link_start root). path_ok names p"
  by (auto simp: link_start_def path_ok_def named_by_def)

section \<open>Properties\<close>

text \<open>
  C38. Linking ends: where an origin has finitely many documents, under however many references it answers with
  them, resolving a composition comes to an end whatever the documents refer to, themselves and each other
  included.
\<close>

theorem linkBoard_ends:
  assumes "finite {board. \<exists>ref. load ref = Inr (Some board)}"
  shows "\<exists>result. linkBoard root load = Some result"
proof -
  let ?names = "named_by root \<union> (\<Union>board \<in> documents_of load. named_by board)"
  have d: "finite (documents_of load)" using assms by (simp add: documents_of_def)
  have "\<exists>st'. link_loop load (link_start root) nothing_linked = Some st'"
    by (rule link_loop_ends [OF d, of ?names]) (use d link_start_ok [of root ?names] in auto)
  then show ?thesis by (auto simp: linkBoard_def)
qed

text \<open>
  Nothing is silently left out: where linking reports no problem, every reference of the composition,
  and every reference of every document it placed, is a unit of the board under the name it is to
  have there, and no reference is placed twice under one name.
\<close>

theorem linkBoard_complete:
  assumes "link_loop load (link_start root) nothing_linked = Some st" "lk_diagnostics st = []"
  shows "(\<forall>entry \<in> set (unit_entries root). settled load st [] entry)
    \<and> (\<forall>ru \<in> set (lk_resolved st). \<forall>entry \<in> set (unit_entries (ru_board ru)). settled load st (ru_name ru) entry)
    \<and> distinct (map unit_key (lk_resolved st))
    \<and> linkBoard root load = Some ([], projectUnits root (lk_resolved st))"
proof -
  have c: "complete_upto load root [] st" by (rule link_loop_complete [OF assms(1) link_start_complete])
  then have "distinct (map unit_key (lk_resolved st))" by (simp add: complete_upto_def distinct_map)
  then show ?thesis using c assms by (simp add: complete_upto_def linkBoard_def)
qed

text \<open>A composition of two files, each of which refers to the other and one of them to itself.\<close>

abbreviation cyclic_files :: "(string \<times> obj) list" where
  "cyclic_files \<equiv>
     [(''a.json'', [(''units'', JArr [JObj [(''uri'', JStr ''./b'')], JObj [(''uri'', JStr ''./a'')]])]),
      (''b.json'', [(''units'', JArr [JObj [(''uri'', JStr ''./a'')]])])]"

theorem linkBoard_ends_witness:
  "\<exists>result. linkBoard [(''units'', JArr [JObj [(''uri'', JStr ''./a'')]])] (filesUnitOrigin cyclic_files) = Some result"
  by (rule linkBoard_ends) (rule finite_files [unfolded documents_of_def])

definition flat_origin :: origin where
  "flat_origin ref = (if ref = RelativeRef ''a'' then Inr (Some []) else Inr None)"

theorem linkBoard_complete_witness:
  "\<exists>st. link_loop flat_origin (link_start [(''units'', JArr [JObj [(''uri'', JStr ''a'')]])]) nothing_linked = Some st
    \<and> settled flat_origin st [] [(''uri'', JStr ''a'')]"
proof -
  let ?root = "[(''units'', JArr [JObj [(''uri'', JStr ''a'')]])]"
  have p: "parseUnitRef (Some ''a'') = Some (RelativeRef ''a'')"
    by (simp add: parseUnitRef_def UNIT_SCHEME_def starts_with_def has_scheme_def)
  obtain st where st: "link_loop flat_origin (link_start ?root) nothing_linked = Some st" "lk_diagnostics st = []"
    by (simp add: link_loop.simps link_start_def unit_entries_def link_one_def entry_uri_def p flat_origin_def nothing_linked_def Let_def)
  from linkBoard_complete [OF st] have "settled flat_origin st [] [(''uri'', JStr ''a'')]" by (simp add: unit_entries_def)
  then show ?thesis using st by blast
qed

end
