(* ===== verification/Secrets.thy ===== *)
theory Secrets
  imports BoardTraversal JsText "HOL-Library.AList"
begin

text \<open>
  Secret references (\<^verbatim>\<open>hkp-frontend/src/core/secrets.ts\<close>) and the host's vault
  (\<^verbatim>\<open>hkp-frontend/src/vault.ts\<close>).  A store is a state and the functions a host registers on it, and
  every use of a secret returns the state it leaves.  The URL parser is a parameter: \<open>hostname u\<close> is
  \<^verbatim>\<open>new URL(u).hostname\<close>, \<^const>\<open>None\<close> where the constructor throws.  An alias named like a member
  every object inherits is outside the model.
\<close>

section \<open>References\<close>

abbreviation SECRET :: "string matcher" where
  "SECRET \<equiv> braced_name ''secret.''"

definition secretReference :: "string \<Rightarrow> string" where
  "secretReference alias = ''{{secret.'' @ alias @ ''}}''"

definition referencedSecrets :: "jsval \<Rightarrow> string list" where
  "referencedSecrets v = snd (walkStrings (\<lambda>text found. (text, set_adds (hits SECRET text) found)) v [])"

section \<open>Stores\<close>

record 's SecretStore =
  get_secret :: "'s \<Rightarrow> string \<Rightarrow> string option"
  audience :: "'s \<Rightarrow> string \<Rightarrow> string list option"
  learn :: "'s \<Rightarrow> string \<Rightarrow> string \<Rightarrow> 's"
  list_secrets :: "'s \<Rightarrow> string list"

definition EMPTY_STORE :: "'s SecretStore" where
  "EMPTY_STORE = \<lparr>get_secret = \<lambda>_ _. None, audience = \<lambda>_ _. None, learn = \<lambda>s _ _. s, list_secrets = \<lambda>_. []\<rparr>"

definition setSecretStore :: "'s SecretStore option \<Rightarrow> 's SecretStore" where
  "setSecretStore next_store = (case next_store of Some from_store \<Rightarrow> from_store | None \<Rightarrow> EMPTY_STORE)"

definition unavailableSecrets :: "'s SecretStore \<Rightarrow> jsval \<Rightarrow> 's \<Rightarrow> string list" where
  "unavailableSecrets st v s = filter (\<lambda>alias. get_secret st s alias = None) (referencedSecrets v)"

section \<open>Destinations\<close>

definition THIS_DEVICE :: string where
  "THIS_DEVICE = ''(this device)''"

text \<open>\<^verbatim>\<open>/^[A-Za-z][A-Za-z0-9+.-]*:\/\//\<close>; a colon is no character of the class.\<close>

definition names_scheme :: "string \<Rightarrow> bool" where
  "names_scheme s =
     (case s of
        [] \<Rightarrow> False
      | c # cs \<Rightarrow>
          (is_upper c \<or> is_lower c)
          \<and> starts_with ''://'' (dropWhile (\<lambda>c. is_upper c \<or> is_lower c \<or> is_digit c \<or> c \<in> set ''+.-'') cs))"

definition destinationHost :: "(string \<Rightarrow> string option) \<Rightarrow> jsval \<Rightarrow> string option" where
  "destinationHost hostname dest =
     (case dest of
        JStr t \<Rightarrow>
          let trimmed = js_trim t in
          if trimmed = [] then None
          else if trimmed = THIS_DEVICE then Some THIS_DEVICE
          else
            (case hostname (if names_scheme trimmed then trimmed else ''hkp://'' @ trimmed) of
               None \<Rightarrow> None
             | Some h \<Rightarrow> if h = [] then None else Some (toLowerCase h))
      | _ \<Rightarrow> None)"

text \<open>\<^verbatim>\<open>!audience || !audience.length\<close>.\<close>

definition unconstrained :: "string list option \<Rightarrow> bool" where
  "unconstrained hosts = (hosts = None \<or> hosts = Some [])"

definition entry_covers :: "string \<Rightarrow> string \<Rightarrow> bool" where
  "entry_covers entry host =
     (let allowed = toLowerCase (js_trim entry) in
      if allowed = [] then False
      else if starts_with ''*.'' allowed then ends_with (drop 1 allowed) host
      else host = allowed)"

definition permits :: "string list option \<Rightarrow> string \<Rightarrow> bool" where
  "permits hosts host =
     (unconstrained hosts \<or> (\<exists>entry \<in> set (the hosts). entry_covers entry host))"

section \<open>Releasing secrets\<close>

record SecretRefusal =
  refused_alias :: string
  refused_to :: string
  refused_audience :: "string list"

record ResolvedSecrets =
  resolved_value :: jsval
  resolved_missing :: "string list"
  resolved_refused :: "SecretRefusal list"

record 's Resolving =
  rs_store :: 's
  rs_missing :: "string list"
  rs_refused :: "(string \<times> SecretRefusal) list"

text \<open>The callback of \<^verbatim>\<open>text.replace\<close>: what one reference becomes.\<close>

definition releaseSecret :: "'s SecretStore \<Rightarrow> string \<Rightarrow> string \<Rightarrow> 's Resolving \<Rightarrow> string \<times> 's Resolving" where
  "releaseSecret st host alias r =
     (case get_secret st (rs_store r) alias of
        None \<Rightarrow> ([], r\<lparr>rs_missing := set_add alias (rs_missing r)\<rparr>)
      | Some secret \<Rightarrow>
          let hosts = audience st (rs_store r) alias in
          if \<not> permits hosts host then
            ([], r\<lparr>rs_refused := AList.update alias
                    \<lparr>refused_alias = alias, refused_to = host,
                     refused_audience = (case hosts of Some hs \<Rightarrow> hs | None \<Rightarrow> [])\<rparr> (rs_refused r)\<rparr>)
          else
            (secret, if unconstrained hosts then r\<lparr>rs_store := learn st (rs_store r) alias host\<rparr> else r))"

definition NO_DESTINATION :: string where
  "NO_DESTINATION =
     ''withSecrets requires a destination: pass { to } naming the host the secret is sent to''"

definition withSecrets ::
  "(string \<Rightarrow> string option) \<Rightarrow> 's SecretStore \<Rightarrow> jsval \<Rightarrow> jsval \<Rightarrow> 's \<Rightarrow> string + ResolvedSecrets \<times> 's" where
  "withSecrets hostname st v dest s =
     (case destinationHost hostname dest of
        None \<Rightarrow> Inl NO_DESTINATION
      | Some host \<Rightarrow>
          let (resolved, r) =
            walkStrings (replace_state SECRET (\<lambda>alias _. releaseSecret st host alias)) v
              \<lparr>rs_store = s, rs_missing = [], rs_refused = []\<rparr>
          in Inr (\<lparr>resolved_value = resolved, resolved_missing = rs_missing r,
                   resolved_refused = map snd (rs_refused r)\<rparr>, rs_store r))"

definition resolveCredential ::
  "(string \<Rightarrow> string option) \<Rightarrow> 's SecretStore \<Rightarrow> jsval \<Rightarrow> jsval \<Rightarrow> 's \<Rightarrow> string + (jsval \<times> string) \<times> 's" where
  "resolveCredential hostname st held dest s =
     (if referencedSecrets held = [] then Inr ((held, ''''), s)
      else
        (case withSecrets hostname st held dest s of
           Inl e \<Rightarrow> Inl e
         | Inr (r, s') \<Rightarrow>
             Inr ((case resolved_refused r of
                     f # _ \<Rightarrow>
                       (JUndef,
                        if refused_to f = THIS_DEVICE
                        then refused_alias f @ '' may only be sent to '' @ join_with '', '' (refused_audience f)
                        else refused_alias f @ '' may not be sent to '' @ refused_to f)
                   | [] \<Rightarrow>
                       if resolved_missing r \<noteq> []
                       then (JUndef, ''no value stored for '' @ join_with '', '' (resolved_missing r))
                       else (resolved_value r, '''')), s')))"

section \<open>The vault\<close>

record VaultEntry =
  vault_value :: string
  vault_audience :: "string list"

text \<open>What has been written to the durable store, where one is registered.\<close>

record Vault =
  vault_cache :: "(string \<times> VaultEntry) list"
  vault_persist :: "(string \<times> string list) list option"

definition normalizeEntry :: "jsval \<Rightarrow> VaultEntry option" where
  "normalizeEntry entry =
     (case entry of
        JStr s \<Rightarrow> Some \<lparr>vault_value = s, vault_audience = []\<rparr>
      | _ \<Rightarrow>
          (case field entry ''value'' of
             JStr s \<Rightarrow>
               Some \<lparr>vault_value = s,
                     vault_audience = filter (\<lambda>h. h \<noteq> []) (List.map_filter the_str (js_arr (field entry ''audience'')))\<rparr>
           | _ \<Rightarrow> None))"

definition loadVault :: "obj \<Rightarrow> Vault" where
  "loadVault injected =
     \<lparr>vault_cache =
        fold (\<lambda>(alias, entry) cache. case normalizeEntry entry of Some e \<Rightarrow> oput alias e cache | None \<Rightarrow> cache) injected [],
      vault_persist = None\<rparr>"

definition vaultGet :: "Vault \<Rightarrow> string \<Rightarrow> string option" where
  "vaultGet s key = map_option vault_value (map_of (vault_cache s) key)"

definition vaultAudience :: "Vault \<Rightarrow> string \<Rightarrow> string list" where
  "vaultAudience s key = (case map_of (vault_cache s) key of Some e \<Rightarrow> vault_audience e | None \<Rightarrow> [])"

definition vaultSet :: "Vault \<Rightarrow> string \<Rightarrow> string \<Rightarrow> Vault" where
  "vaultSet s key v =
     s\<lparr>vault_cache := oput key \<lparr>vault_value = v, vault_audience = vaultAudience s key\<rparr> (vault_cache s)\<rparr>"

definition vaultSetAudience :: "Vault \<Rightarrow> string \<Rightarrow> string list \<Rightarrow> Vault" where
  "vaultSetAudience s key hosts =
     (case map_of (vault_cache s) key of
        Some e \<Rightarrow> s\<lparr>vault_cache := oput key \<lparr>vault_value = vault_value e, vault_audience = hosts\<rparr> (vault_cache s)\<rparr>
      | None \<Rightarrow> s)"

definition vaultDelete :: "Vault \<Rightarrow> string \<Rightarrow> Vault" where
  "vaultDelete s key = s\<lparr>vault_cache := omit [key] (vault_cache s)\<rparr>"

definition vaultAliases :: "Vault \<Rightarrow> string list" where
  "vaultAliases s = okeys (vault_cache s)"

definition setVaultPersist :: "Vault \<Rightarrow> bool \<Rightarrow> Vault" where
  "setVaultPersist s registered = s\<lparr>vault_persist := (if registered then Some [] else None)\<rparr>"

definition vaultLearn :: "Vault \<Rightarrow> string \<Rightarrow> string \<Rightarrow> Vault" where
  "vaultLearn s alias host =
     (if map_of (vault_cache s) alias = None \<or> vaultAudience s alias \<noteq> [] \<or> host = [] then s
      else
        let s' = vaultSetAudience s alias [host]
        in s'\<lparr>vault_persist := map_option (\<lambda>written. written @ [(alias, [host])]) (vault_persist s')\<rparr>)"

definition vaultSecretStore :: "Vault SecretStore" where
  "vaultSecretStore =
     \<lparr>get_secret = vaultGet,
      audience = \<lambda>s alias. (let held = vaultAudience s alias in if held \<noteq> [] then Some held else None),
      learn = vaultLearn,
      list_secrets = vaultAliases\<rparr>"


section \<open>What a lawful store lets a use rely on\<close>

text \<open>The references a value makes, one for each place, and what each becomes at a host.\<close>

definition secret_refs :: "jsval \<Rightarrow> string list" where
  "secret_refs v = concat (map (hits SECRET) (strings_of v))"

definition answer :: "'s SecretStore \<Rightarrow> 's \<Rightarrow> string \<Rightarrow> string \<Rightarrow> string" where
  "answer st s host a =
     (case get_secret st s a of Some secret \<Rightarrow> if permits (audience st s a) host then secret else [] | None \<Rightarrow> [])"

definition refusal_for :: "'s SecretStore \<Rightarrow> 's \<Rightarrow> string \<Rightarrow> string \<Rightarrow> SecretRefusal" where
  "refusal_for st s host a =
     \<lparr>refused_alias = a, refused_to = host,
      refused_audience = (case audience st s a of Some hs \<Rightarrow> hs | None \<Rightarrow> [])\<rparr>"

abbreviation missing_at :: "'s SecretStore \<Rightarrow> 's \<Rightarrow> string \<Rightarrow> bool" where
  "missing_at st s a \<equiv> get_secret st s a = None"

abbreviation refused_at :: "'s SecretStore \<Rightarrow> 's \<Rightarrow> string \<Rightarrow> string \<Rightarrow> bool" where
  "refused_at st s host a \<equiv> get_secret st s a \<noteq> None \<and> \<not> permits (audience st s a) host"

lemma referencedSecrets_eq: "wf_js v \<Longrightarrow> referencedSecrets v = set_adds (secret_refs v) []"
  by (simp add: referencedSecrets_def secret_refs_def fold_set_adds
      walkStrings_pure [where f = "\<lambda>t. t" and g = "\<lambda>t. set_adds (hits SECRET t)"])

lemma set_referencedSecrets: "wf_js v \<Longrightarrow> set (referencedSecrets v) = set (secret_refs v)"
  by (simp add: referencedSecrets_eq)

lemma update_map_keys: "AList.update a (F a) (map (\<lambda>a. (a, F a)) ks) = map (\<lambda>a. (a, F a)) (set_add a ks)"
  by (induction ks) (auto simp: set_add_def)

lemma refused_alias_refusal [simp]: "refused_alias (refusal_for st s host a) = a"
  by (simp add: refusal_for_def)

lemma ball_split: "(\<forall>a \<in> S. \<not> M a \<and> P a) \<longleftrightarrow> {a \<in> S. M a} = {} \<and> {a \<in> S. \<not> M a \<and> \<not> P a} = {}"
  by blast

locale secret_store =
  fixes st :: "'s SecretStore"
  assumes get_learn: "get_secret st (learn st s a h) b = get_secret st s b"
    and audience_learn: "audience st (learn st s a h) b \<in> {audience st s b, if b = a then Some [h] else audience st s b}"
begin

definition same_for :: "string \<Rightarrow> 's \<Rightarrow> 's \<Rightarrow> bool" where
  "same_for host s t =
     (\<forall>a. get_secret st t a = get_secret st s a
        \<and> permits (audience st t a) host = permits (audience st s a) host
        \<and> (\<not> permits (audience st s a) host \<longrightarrow> audience st t a = audience st s a))"

lemma same_for_refl [simp]: "same_for host s s"
  by (simp add: same_for_def)

definition after :: "string \<Rightarrow> string \<Rightarrow> 's Resolving \<Rightarrow> 's Resolving" where
  "after host a r = snd (releaseSecret st host a r)"

lemma learn_same:
  assumes "entry_covers host host" "unconstrained (audience st t a)" "same_for host s t"
  shows "same_for host s (learn st t a host)"
proof -
  have t: "permits (audience st t b) host = permits (audience st s b) host"
    "\<not> permits (audience st s b) host \<Longrightarrow> audience st t b = audience st s b"
    "get_secret st t b = get_secret st s b" for b
    using assms(3) by (simp_all add: same_for_def)
  have p: "permits (audience st s a) host" using assms(2) t(1) [of a] by (simp add: permits_def)
  have l: "permits (Some [host]) host" using assms(1) by (simp add: permits_def)
  show ?thesis
    unfolding same_for_def
  proof
    fix b
    consider "audience st (learn st t a host) b = audience st t b" | "b = a" "audience st (learn st t a host) b = Some [host]"
      using audience_learn [of t a host b] by (auto split: if_splits)
    then show "get_secret st (learn st t a host) b = get_secret st s b
        \<and> permits (audience st (learn st t a host) b) host = permits (audience st s b) host
        \<and> (\<not> permits (audience st s b) host \<longrightarrow> audience st (learn st t a host) b = audience st s b)"
      using t [of b] p l get_learn [of t a host b] by cases simp_all
  qed
qed

lemma release_step:
  assumes "entry_covers host host" "same_for host s (rs_store r)"
  shows "releaseSecret st host a r = (answer st s host a, after host a r)
    \<and> same_for host s (rs_store (after host a r))
    \<and> rs_missing (after host a r) = (if missing_at st s a then set_add a (rs_missing r) else rs_missing r)
    \<and> rs_refused (after host a r) =
        (if refused_at st s host a then AList.update a (refusal_for st s host a) (rs_refused r) else rs_refused r)"
proof -
  have t: "get_secret st (rs_store r) a = get_secret st s a"
    "permits (audience st (rs_store r) a) host = permits (audience st s a) host"
    "\<not> permits (audience st s a) host \<Longrightarrow> audience st (rs_store r) a = audience st s a"
    using assms(2) by (simp_all add: same_for_def)
  show ?thesis
    using assms t learn_same [OF assms(1) _ assms(2), of a]
    by (cases "get_secret st s a"; cases "permits (audience st s a) host")
      (simp_all add: after_def releaseSecret_def answer_def refusal_for_def Let_def)
qed

lemma fold_after:
  assumes "entry_covers host host" "same_for host s (rs_store r)" "rs_refused r = map (\<lambda>a. (a, refusal_for st s host a)) ks"
  shows "rs_missing (fold (after host) as r) = set_adds (filter (missing_at st s) as) (rs_missing r)
    \<and> rs_refused (fold (after host) as r)
        = map (\<lambda>a. (a, refusal_for st s host a)) (set_adds (filter (refused_at st s host) as) ks)
    \<and> same_for host s (rs_store (fold (after host) as r))"
  using assms(2,3)
proof (induction as arbitrary: r ks)
  case (Cons a as)
  have step: "same_for host s (rs_store (after host a r))"
    "rs_missing (after host a r) = (if missing_at st s a then set_add a (rs_missing r) else rs_missing r)"
    "rs_refused (after host a r) = map (\<lambda>a. (a, refusal_for st s host a)) (if refused_at st s host a then set_add a ks else ks)"
    using release_step [OF assms(1) Cons.prems(1), of a] Cons.prems(2) update_map_keys [of a "refusal_for st s host" ks]
    by simp_all
  show ?case using Cons.IH [OF step(1,3)] step(2) by simp
qed simp

lemma withSecrets_result:
  assumes "destinationHost hostname dest = Some host" "entry_covers host host" "wf_js v"
  shows "withSecrets hostname st v dest s =
    Inr (\<lparr>resolved_value = map_text (replace_with SECRET (\<lambda>a _. answer st s host a)) v,
          resolved_missing = set_adds (filter (missing_at st s) (secret_refs v)) [],
          resolved_refused = map (refusal_for st s host) (set_adds (filter (refused_at st s host) (secret_refs v)) [])\<rparr>,
         rs_store (fold (after host) (secret_refs v) \<lparr>rs_store = s, rs_missing = [], rs_refused = []\<rparr>))"
proof -
  define r0 where "r0 = \<lparr>rs_store = s, rs_missing = [], rs_refused = ([] :: (string \<times> SecretRefusal) list)\<rparr>"
  have I0: "same_for host s (rs_store r0)" by (simp add: r0_def)
  have visit: "replace_state SECRET (\<lambda>alias _. releaseSecret st host alias) t r
      = (replace_with SECRET (\<lambda>a _. answer st s host a) t, fold (after host) (hits SECRET t) r)
      \<and> same_for host s (rs_store (fold (after host) (hits SECRET t) r))"
    if "same_for host s (rs_store r)" for t r
    by (rule replace_state_tracked [where I = "\<lambda>r. same_for host s (rs_store r)"])
      (use release_step [OF assms(2)] that in auto)
  have "walkStrings (replace_state SECRET (\<lambda>alias _. releaseSecret st host alias)) v r0
      = (map_text (replace_with SECRET (\<lambda>a _. answer st s host a)) v,
         fold (\<lambda>t. fold (after host) (hits SECRET t)) (strings_of v) r0)
      \<and> same_for host s (rs_store (fold (\<lambda>t. fold (after host) (hits SECRET t)) (strings_of v) r0))"
    by (rule walkStrings_tracked [where I = "\<lambda>r. same_for host s (rs_store r)"]) (use visit assms(3) I0 in auto)
  moreover have "fold (\<lambda>t. fold (after host) (hits SECRET t)) (strings_of v) r0 = fold (after host) (secret_refs v) r0"
    by (simp add: secret_refs_def fold_concat fold_map o_def)
  moreover have "rs_missing (fold (after host) (secret_refs v) r0) = set_adds (filter (missing_at st s) (secret_refs v)) []"
    "rs_refused (fold (after host) (secret_refs v) r0)
      = map (\<lambda>a. (a, refusal_for st s host a)) (set_adds (filter (refused_at st s host) (secret_refs v)) [])"
    using fold_after [OF assms(2) I0, of "[]" "secret_refs v"] by (simp_all add: r0_def)
  ultimately show ?thesis
    by (simp add: withSecrets_def assms(1) Let_def o_def flip: r0_def)
qed

lemma fold_after_same:
  assumes "entry_covers host host"
  shows "same_for host s (rs_store (fold (after host) as \<lparr>rs_store = s, rs_missing = [], rs_refused = []\<rparr>))"
  using fold_after [OF assms, of s "\<lparr>rs_store = s, rs_missing = [], rs_refused = []\<rparr>" "[]" as] by simp

lemma resolveCredential_result:
  assumes "destinationHost hostname dest = Some host" "entry_covers host host" "wf_js held"
  shows "\<exists>problem s'. resolveCredential hostname st held dest s =
      Inr ((if \<forall>a \<in> set (referencedSecrets held). get_secret st s a \<noteq> None \<and> permits (audience st s a) host
            then mapStrings (replace_with SECRET (\<lambda>a _. the (get_secret st s a))) held else JUndef, problem), s')
    \<and> (problem = [] \<longleftrightarrow>
        (\<forall>a \<in> set (referencedSecrets held). get_secret st s a \<noteq> None \<and> permits (audience st s a) host))"
proof (cases "referencedSecrets held = []")
  case True
  then have "secret_refs held = []" using set_referencedSecrets [OF assms(3)] by simp
  then have "hits SECRET t = []" if "t \<in> set (strings_of held)" for t using that by (auto simp: secret_refs_def)
  then have "mapStrings (replace_with SECRET (\<lambda>a _. the (get_secret st s a))) held = held"
    using assms(3) by (simp add: mapStrings_map_text map_text_id replace_with_no_hits)
  with True show ?thesis by (simp add: resolveCredential_def)
next
  case refs: False
  define fine where "fine = (\<forall>a \<in> set (referencedSecrets held). get_secret st s a \<noteq> None \<and> permits (audience st s a) host)"
  define ms where "ms = set_adds (filter (missing_at st s) (secret_refs held)) []"
  define rf where "rf = set_adds (filter (refused_at st s host) (secret_refs held)) []"
  note r = withSecrets_result [OF assms, of s, folded ms_def rf_def]
  have "set ms = {a \<in> set (secret_refs held). missing_at st s a}" "set rf = {a \<in> set (secret_refs held). refused_at st s host a}"
    by (simp_all add: ms_def rf_def)
  then have iff: "fine \<longleftrightarrow> set ms = {} \<and> set rf = {}"
    unfolding fine_def set_referencedSecrets [OF assms(3)] by (simp only: ball_split)
  have same: "map_text (replace_with SECRET (\<lambda>a _. answer st s host a)) held
      = mapStrings (replace_with SECRET (\<lambda>a _. the (get_secret st s a))) held" if fine
    unfolding mapStrings_map_text [OF assms(3)]
  proof (rule map_text_cong, rule replace_with_cong)
    fix t a u assume "t \<in> set (strings_of held)" "a \<in> set (hits SECRET t)"
    then have "a \<in> set (referencedSecrets held)" unfolding set_referencedSecrets [OF assms(3)] by (auto simp: secret_refs_def)
    then have "get_secret st s a \<noteq> None \<and> permits (audience st s a) host" using that unfolding fine_def by blast
    then show "answer st s host a = the (get_secret st s a)" by (cases "get_secret st s a") (simp_all add: answer_def)
  qed
  show ?thesis
    unfolding fine_def [symmetric]
  proof (cases fine)
    case True
    then show "\<exists>problem s'. resolveCredential hostname st held dest s =
        Inr ((if fine then mapStrings (replace_with SECRET (\<lambda>a _. the (get_secret st s a))) held else JUndef, problem), s')
        \<and> (problem = [] \<longleftrightarrow> fine)"
      using iff same refs by (simp add: resolveCredential_def r)
  next
    case False
    then show "\<exists>problem s'. resolveCredential hostname st held dest s =
        Inr ((if fine then mapStrings (replace_with SECRET (\<lambda>a _. the (get_secret st s a))) held else JUndef, problem), s')
        \<and> (problem = [] \<longleftrightarrow> fine)"
      using iff refs by (cases rf) (auto simp: resolveCredential_def r)
  qed
qed

end

section \<open>Trust on first use\<close>

text \<open>The secrets a use was given, and over a sequence of uses each with the host it was for.\<close>

definition released :: "jsval \<Rightarrow> ResolvedSecrets \<Rightarrow> string list" where
  "released v r =
     filter (\<lambda>a. a \<notin> set (resolved_missing r) \<and> a \<notin> set (map refused_alias (resolved_refused r))) (referencedSecrets v)"

fun releases ::
  "(string \<Rightarrow> string option) \<Rightarrow> 's SecretStore \<Rightarrow> (jsval \<times> jsval) list \<Rightarrow> 's \<Rightarrow> (string \<times> string) list" where
  "releases hostname st [] s = []"
| "releases hostname st ((v, dest) # uses) s =
     (case withSecrets hostname st v dest s of
        Inl e \<Rightarrow> releases hostname st uses s
      | Inr (r, s') \<Rightarrow>
          map (\<lambda>a. (a, the (destinationHost hostname dest))) (released v r) @ releases hostname st uses s')"

text \<open>What is relied on of the URL parser: no host name has white space in it.\<close>

definition url_hosts :: "(string \<Rightarrow> string option) \<Rightarrow> bool" where
  "url_hosts hostname = (\<forall>u h. hostname u = Some h \<longrightarrow> (\<forall>c \<in> set h. \<not> is_space c))"

lemma destinationHost_normal:
  assumes "url_hosts hostname" "destinationHost hostname dest = Some host"
  shows "toLowerCase (js_trim host) = host \<and> host \<noteq> []"
proof (cases "host = THIS_DEVICE")
  case True
  then show ?thesis by (simp add: THIS_DEVICE_def js_trim_def is_space_def toLowerCase_def lower_char_def is_upper_def)
next
  case False
  then obtain u h where h: "hostname u = Some h" "h \<noteq> []" "host = toLowerCase h"
    using assms(2) by (auto simp: destinationHost_def Let_def split: jsval.splits if_splits option.splits)
  have "\<forall>c \<in> set host. \<not> is_space c" using assms(1) h by (auto simp: url_hosts_def toLowerCase_def)
  then show ?thesis using h js_trim_no_space [of host] by (simp add: toLowerCase_def o_def)
qed

lemma covers_itself: "url_hosts hostname \<Longrightarrow> destinationHost hostname dest = Some host \<Longrightarrow> entry_covers host host"
  using destinationHost_normal [of hostname dest host]
  by (auto simp: entry_covers_def Let_def ends_with_def starts_with_iff dest!: starts_withD)

text \<open>What a host permits once it is the whole audience: itself, or what it reads as a wildcard for.\<close>

lemma permits_learned:
  "url_hosts hostname \<Longrightarrow> destinationHost hostname dest = Some host \<Longrightarrow>
    permits (Some [host]) host' \<longleftrightarrow> (if starts_with ''*.'' host then ends_with (drop 1 host) host' else host' = host)"
  using destinationHost_normal [of hostname dest host]
  by (simp add: permits_def unconstrained_def entry_covers_def Let_def)

text \<open>The hosts a secret was given to, in order.\<close>

definition given_to :: "string \<Rightarrow> (string \<times> string) list \<Rightarrow> string list" where
  "given_to a rs = map snd (filter (\<lambda>r. fst r = a) rs)"

lemma given_to_append [simp]: "given_to a (rs @ rs') = given_to a rs @ given_to a rs'"
  by (simp add: given_to_def)

lemma set_given_to: "h \<in> set (given_to a rs) \<longleftrightarrow> (a, h) \<in> set rs"
  by (force simp: given_to_def)

lemma given_to_one: "given_to a (map (\<lambda>a. (a, host)) as) = replicate (count_list as a) host"
  by (induction as) (simp_all add: given_to_def)

locale pinning_store = secret_store +
  assumes pins: "get_secret st s a \<noteq> None \<Longrightarrow> unconstrained (audience st s a) \<Longrightarrow> h \<noteq> [] \<Longrightarrow>
      audience st (learn st s a h) a = Some [h]"
begin

lemma release_audience:
  assumes "entry_covers host host" "host \<noteq> []" "same_for host s (rs_store r)"
  shows "audience st (rs_store (after host b r)) a =
    (if a = b \<and> get_secret st s a \<noteq> None \<and> unconstrained (audience st (rs_store r) a) then Some [host]
     else audience st (rs_store r) a)"
proof -
  have g: "get_secret st (rs_store r) b = get_secret st s b" using assms(3) by (simp add: same_for_def)
  have other: "a \<noteq> b \<Longrightarrow> audience st (learn st (rs_store r) b host) a = audience st (rs_store r) a"
    using audience_learn [of "rs_store r" b host a] by simp
  show ?thesis
    using g other pins [of "rs_store r" b host] assms(2)
    by (cases "get_secret st s b"; cases "unconstrained (audience st (rs_store r) b)")
      (auto simp: after_def releaseSecret_def Let_def permits_def)
qed

lemma fold_audience:
  assumes "entry_covers host host" "host \<noteq> []" "same_for host s (rs_store r)"
  shows "audience st (rs_store (fold (after host) as r)) a =
    (if a \<in> set as \<and> get_secret st s a \<noteq> None \<and> unconstrained (audience st (rs_store r) a) then Some [host]
     else audience st (rs_store r) a)"
  using assms(3)
proof (induction as arbitrary: r)
  case (Cons b as)
  have "same_for host s (rs_store (after host b r))" using release_step [OF assms(1) Cons.prems] by blast
  from Cons.IH [OF this] show ?case
    using release_audience [OF assms(1,2) Cons.prems, of b a] by (auto simp: unconstrained_def)
qed simp

lemma one_use:
  assumes "url_hosts hostname" "destinationHost hostname dest = Some host" "wf_js v"
  shows "\<exists>r s'. withSecrets hostname st v dest s = Inr (r, s')
    \<and> (\<forall>a. a \<in> set (released v r) \<longleftrightarrow>
         a \<in> set (secret_refs v) \<and> get_secret st s a \<noteq> None \<and> permits (audience st s a) host)
    \<and> (\<forall>a. get_secret st s' a = get_secret st s a
         \<and> audience st s' a =
             (if a \<in> set (secret_refs v) \<and> get_secret st s a \<noteq> None \<and> unconstrained (audience st s a) then Some [host]
              else audience st s a))"
proof -
  note c = covers_itself [OF assms(1,2)]
  have host: "host \<noteq> []" using destinationHost_normal [OF assms(1,2)] by blast
  define r0 where "r0 = \<lparr>rs_store = s, rs_missing = [], rs_refused = ([] :: (string \<times> SecretRefusal) list)\<rparr>"
  have I0: "same_for host s (rs_store r0)" by (simp add: r0_def)
  have state: "get_secret st (rs_store (fold (after host) (secret_refs v) r0)) a = get_secret st s a"
    "audience st (rs_store (fold (after host) (secret_refs v) r0)) a =
       (if a \<in> set (secret_refs v) \<and> get_secret st s a \<noteq> None \<and> unconstrained (audience st s a) then Some [host]
        else audience st s a)" for a
    using fold_after_same [OF c, of s "secret_refs v"] fold_audience [OF c host I0, of "secret_refs v" a]
    by (auto simp: same_for_def r0_def)
  show ?thesis
    using withSecrets_result [OF assms(2) c assms(3), of s] state set_referencedSecrets [OF assms(3)]
    by (auto simp: released_def r0_def image_image)
qed

lemma pinned_stays:
  assumes "url_hosts hostname" "\<forall>use \<in> set uses. wf_js (fst use)" "audience st s a = Some [h]"
    "(a, h') \<in> set (releases hostname st uses s)"
  shows "permits (Some [h]) h'"
  using assms(2-4)
proof (induction uses arbitrary: s)
  case (Cons use uses)
  obtain v dest where use: "use = (v, dest)" by (cases use)
  show ?case
  proof (cases "destinationHost hostname dest")
    case None
    then show ?thesis using Cons use by (simp add: withSecrets_def)
  next
    case (Some host)
    have "wf_js v" using Cons.prems(1) use by simp
    then obtain r s' where r: "withSecrets hostname st v dest s = Inr (r, s')"
      "\<forall>a. a \<in> set (released v r) \<longleftrightarrow>
         a \<in> set (secret_refs v) \<and> get_secret st s a \<noteq> None \<and> permits (audience st s a) host"
      "audience st s' a = Some [h]"
      using one_use [OF assms(1) Some, of v s] Cons.prems(2) by (auto simp: unconstrained_def)
    consider "a \<in> set (released v r)" "h' = host" | "(a, h') \<in> set (releases hostname st uses s')"
      using Cons.prems(3) use r(1) Some by auto
    then show ?thesis
    proof cases
      case 1
      then show ?thesis using r(2) Cons.prems(2) by simp
    next
      case 2
      then show ?thesis using Cons.IH [OF _ r(3)] Cons.prems(1) by simp
    qed
  qed
qed simp

lemma first_use_decides:
  assumes "url_hosts hostname" "\<forall>use \<in> set uses. wf_js (fst use)" "unconstrained (audience st s a)"
    "given_to a (releases hostname st uses s) = h # hs"
  shows "(\<exists>dest. destinationHost hostname dest = Some h) \<and> (\<forall>h' \<in> set hs. permits (Some [h]) h')"
  using assms(2-4)
proof (induction uses arbitrary: s)
  case (Cons use uses)
  obtain v dest where use: "use = (v, dest)" by (cases use)
  have uses: "\<forall>use \<in> set uses. wf_js (fst use)" using Cons.prems(1) by simp
  show ?case
  proof (cases "destinationHost hostname dest")
    case None
    then show ?thesis using Cons use by (simp add: withSecrets_def)
  next
    case (Some host)
    have v: "wf_js v" using Cons.prems(1) use by simp
    obtain r s' where r: "withSecrets hostname st v dest s = Inr (r, s')"
      "\<forall>a. a \<in> set (released v r) \<longleftrightarrow>
         a \<in> set (secret_refs v) \<and> get_secret st s a \<noteq> None \<and> permits (audience st s a) host"
      "audience st s' a =
         (if a \<in> set (secret_refs v) \<and> get_secret st s a \<noteq> None \<and> unconstrained (audience st s a) then Some [host]
          else audience st s a)"
      using one_use [OF assms(1) Some v, of s] by blast
    have all: "given_to a (releases hostname st (use # uses) s)
        = replicate (count_list (released v r) a) host @ given_to a (releases hostname st uses s')"
      using use r(1) Some by (simp add: given_to_one)
    show ?thesis
    proof (cases "a \<in> set (released v r)")
      case True
      then obtain n where "count_list (released v r) a = Suc n" by (metis count_list_0_iff not0_implies_Suc)
      then have hs: "h = host" "hs = replicate n host @ given_to a (releases hostname st uses s')"
        using Cons.prems(3) all by auto
      have "audience st s' a = Some [host]" using r(2,3) True Cons.prems(2) by simp
      from pinned_stays [OF assms(1) uses this] have "permits (Some [host]) h'" if "h' \<in> set hs" for h'
        using that hs(2) covers_itself [OF assms(1) Some] by (auto simp: set_given_to permits_def split: if_splits)
      then show ?thesis using hs(1) Some by blast
    next
      case False
      then have "unconstrained (audience st s' a)" using r(2,3) Cons.prems(2) by (auto simp: permits_def)
      moreover have "given_to a (releases hostname st uses s') = h # hs" using all False Cons.prems(3) by (simp add: count_list_0_iff)
      ultimately show ?thesis using Cons.IH [OF uses] by blast
    qed
  qed
qed (simp add: given_to_def)

end

section \<open>The stores of the code\<close>

lemma vaultLearn_get: "vaultGet (vaultLearn s a h) b = vaultGet s b"
  by (simp add: vaultLearn_def vaultSetAudience_def vaultGet_def Let_def split: option.splits)

lemma vaultLearn_audience:
  "vaultAudience (vaultLearn s a h) b =
    (if b = a \<and> vaultGet s a \<noteq> None \<and> vaultAudience s a = [] \<and> h \<noteq> [] then [h] else vaultAudience s b)"
  by (auto simp: vaultLearn_def vaultSetAudience_def vaultGet_def vaultAudience_def Let_def split: option.splits)

lemma vaultSet_audience: "vaultAudience (vaultSet s a x) b = vaultAudience s b"
  by (simp add: vaultSet_def vaultAudience_def)

lemma vaultSet_get: "vaultGet (vaultSet s a x) b = (if b = a then Some x else vaultGet s b)"
  by (simp add: vaultSet_def vaultGet_def)

lemma vault_store_simps [simp]:
  "get_secret vaultSecretStore = vaultGet"
  "audience vaultSecretStore s a = (if vaultAudience s a = [] then None else Some (vaultAudience s a))"
  "learn vaultSecretStore = vaultLearn"
  by (simp_all add: vaultSecretStore_def Let_def)

interpretation vault: pinning_store vaultSecretStore
  by unfold_locales (auto simp: vaultLearn_get vaultLearn_audience unconstrained_def split: if_splits)

interpretation no_store: secret_store EMPTY_STORE
  by unfold_locales (simp_all add: EMPTY_STORE_def)

section \<open>Properties\<close>

text \<open>
  C12. A secret that may not be sent to a host has no influence on what a use for that host gets:
  whatever its value is, the resolved configuration, the missing aliases and the refusals are the
  same.
\<close>

theorem withSecrets_noninterference:
  assumes "url_hosts hostname" "destinationHost hostname dest = Some host" "wf_js v"
    and "vaultGet s a \<noteq> None" "vaultAudience s a \<noteq> []" "\<not> permits (Some (vaultAudience s a)) host"
  shows "map_sum id fst (withSecrets hostname vaultSecretStore v dest (vaultSet s a secret))
    = map_sum id fst (withSecrets hostname vaultSecretStore v dest s)"
proof -
  let ?t = "vaultSet s a secret"
  have "answer vaultSecretStore ?t host = answer vaultSecretStore s host"
    using assms(4-6) by (auto simp: answer_def vaultSet_get vaultSet_audience fun_eq_iff split: option.splits)
  moreover have "refusal_for vaultSecretStore ?t host = refusal_for vaultSecretStore s host"
    by (simp add: refusal_for_def vaultSet_audience fun_eq_iff)
  moreover have "missing_at vaultSecretStore ?t = missing_at vaultSecretStore s"
    using assms(4) by (auto simp: vaultSet_get fun_eq_iff)
  moreover have "refused_at vaultSecretStore ?t host = refused_at vaultSecretStore s host"
    using assms(4) by (auto simp: vaultSet_get vaultSet_audience fun_eq_iff)
  ultimately show ?thesis
    using vault.withSecrets_result [OF assms(2) covers_itself [OF assms(1,2)] assms(3)] by simp
qed

definition example_hosts :: "string \<Rightarrow> string option" where
  "example_hosts u =
     (if u = ''hkp://a.io'' then Some ''a.io'' else if u = ''hkp://b.io'' then Some ''b.io'' else None)"

lemma example_hosts_lawful: "url_hosts example_hosts"
  by (auto simp: url_hosts_def example_hosts_def is_space_def split: if_splits)

theorem withSecrets_noninterference_witness:
  "map_sum id fst (withSecrets example_hosts vaultSecretStore (JStr (secretReference ''k'')) (JStr ''b.io'')
      (vaultSet (loadVault [(''k'', JObj [(''value'', JStr ''s''), (''audience'', JArr [JStr ''a.io''])])]) ''k'' ''other''))
    = map_sum id fst (withSecrets example_hosts vaultSecretStore (JStr (secretReference ''k'')) (JStr ''b.io'')
      (loadVault [(''k'', JObj [(''value'', JStr ''s''), (''audience'', JArr [JStr ''a.io''])])]))"
  by (rule withSecrets_noninterference [where host = "''b.io''", OF example_hosts_lawful]) code_simp+

text \<open>
  C11. Trust on first use: over any sequence of uses of the vault, the first host a secret that starts
  without an audience is given to decides: it is given to that host alone, or, where the first use was for a
  name an audience reads as a wildcard, to the hosts that name covers.
\<close>

theorem vault_trust_on_first_use:
  assumes "url_hosts hostname" "\<forall>use \<in> set uses. wf_js (fst use)" "vaultAudience s a = []"
  shows "case given_to a (releases hostname vaultSecretStore uses s) of
      [] \<Rightarrow> True
    | h # hs \<Rightarrow> \<forall>h' \<in> set hs. if starts_with ''*.'' h then ends_with (drop 1 h) h' else h' = h"
proof (cases "given_to a (releases hostname vaultSecretStore uses s)")
  case (Cons h hs)
  have "unconstrained (audience vaultSecretStore s a)" using assms(3) by (simp add: unconstrained_def)
  from vault.first_use_decides [OF assms(1,2) this Cons]
  obtain dest where "destinationHost hostname dest = Some h" "\<forall>h' \<in> set hs. permits (Some [h]) h'" by blast
  then show ?thesis using Cons permits_learned [OF assms(1)] by simp
qed simp

theorem vault_trust_on_first_use_witness:
  "given_to ''k'' (releases example_hosts vaultSecretStore
      [(JStr (secretReference ''k''), JStr ''a.io''), (JStr (secretReference ''k''), JStr ''b.io''), (JStr (secretReference ''k''), JStr ''a.io'')]
      (loadVault [(''k'', JStr ''s'')])) = [''a.io'', ''a.io'']"
proof -
  let ?uses = "[(JStr (secretReference ''k''), JStr ''a.io''), (JStr (secretReference ''k''), JStr ''b.io''), (JStr (secretReference ''k''), JStr ''a.io'')]"
  let ?s = "loadVault [(''k'', JStr ''s'')]" and ?given = "given_to ''k''"
  have p: "\<forall>use \<in> set ?uses. wf_js (fst use)" by code_simp
  have a: "vaultAudience ?s ''k'' = []" by code_simp
  have "hd (?given (releases example_hosts vaultSecretStore ?uses ?s)) = ''a.io''"
    "length (?given (releases example_hosts vaultSecretStore ?uses ?s)) = 2" by code_simp+
  then obtain h' where g: "?given (releases example_hosts vaultSecretStore ?uses ?s) = [''a.io'', h']"
    by (auto simp: length_Suc_conv numeral_2_eq_2)
  from vault_trust_on_first_use [OF example_hosts_lawful p a, unfolded g] have "h' = ''a.io''"
    by (simp add: starts_with_def)
  with g show ?thesis by simp
qed

text \<open>A first use for such a name is learned as it is, and what was trusted to one destination is given to another.\<close>

theorem wildcard_learned:
  "given_to ''k'' (releases (\<lambda>u. if u = ''hkp://*.io'' then Some ''*.io'' else example_hosts u) vaultSecretStore
      [(JStr (secretReference ''k''), JStr ''*.io''), (JStr (secretReference ''k''), JStr ''b.io'')]
      (loadVault [(''k'', JStr ''s'')])) = [''*.io'', ''b.io'']"
  by code_simp

text \<open>
  A credential is resolved whole or not at all: with a destination, every reference is replaced by
  its secret if the vault holds each one and may send it there, and then no problem is reported;
  otherwise no part of the value is handed back and a problem is.
\<close>

theorem resolveCredential_whole_or_nothing:
  assumes "url_hosts hostname" "destinationHost hostname dest = Some host" "wf_js held"
  shows "\<exists>problem s'. resolveCredential hostname vaultSecretStore held dest s =
      Inr ((if \<forall>a \<in> set (referencedSecrets held). vaultGet s a \<noteq> None \<and> permits (Some (vaultAudience s a)) host
            then mapStrings (replace_with SECRET (\<lambda>a _. the (vaultGet s a))) held else JUndef, problem), s')
    \<and> (problem = [] \<longleftrightarrow>
        (\<forall>a \<in> set (referencedSecrets held). vaultGet s a \<noteq> None \<and> permits (Some (vaultAudience s a)) host))"
proof -
  have "permits (audience vaultSecretStore s a) host = permits (Some (vaultAudience s a)) host" for a
    by (simp add: permits_def unconstrained_def)
  then show ?thesis
    using vault.resolveCredential_result [OF assms(2) covers_itself [OF assms(1,2)] assms(3), of s]
    by (simp only: vault_store_simps(1))
qed

theorem resolveCredential_whole_or_nothing_witness:
  "\<exists>problem s'. resolveCredential example_hosts vaultSecretStore (JStr (secretReference ''k'')) (JStr ''a.io'')
      (loadVault [(''k'', JStr ''s'')]) = Inr ((JStr ''s'', problem), s') \<and> problem = []"
proof -
  let ?s = "loadVault [(''k'', JStr ''s'')]" and ?held = "JStr (secretReference ''k'')"
  have d: "destinationHost example_hosts (JStr ''a.io'') = Some ''a.io''" and w: "wf_js ?held" by code_simp+
  have ok: "\<forall>a \<in> set (referencedSecrets ?held). vaultGet ?s a \<noteq> None \<and> permits (Some (vaultAudience ?s a)) ''a.io''"
    and m: "mapStrings (replace_with SECRET (\<lambda>a _. the (vaultGet ?s a))) ?held = JStr ''s''" by code_simp+
  from resolveCredential_whole_or_nothing [OF example_hosts_lawful d w, of ?s] show ?thesis
    unfolding m if_P [OF ok] using ok by simp
qed

end
