(* ===== verification/Slots.thy ===== *)
theory Slots
  imports JsValue "HOL-Library.AList"
begin

text \<open>
  Named cells (\<^verbatim>\<open>hkp-frontend/src/runtime/slots.ts\<close>): the store pipelines share values through.  A
  JavaScript \<^verbatim>\<open>Map\<close> is the list of its entries in insertion order, where a write to a key it has
  keeps the key's place; the listeners of a store are numbers, and a change answers with the ones
  it calls.
\<close>

section \<open>The interface of a store of cells\<close>

text \<open>
  What a client of such a store relies on: a cell holds what was last put into it, and a write or
  removal touches no other cell.
\<close>

locale cell_store =
  fixes get :: "'s \<Rightarrow> 'k \<Rightarrow> 'v option"
    and put :: "'s \<Rightarrow> 'k \<Rightarrow> 'v \<Rightarrow> 's"
    and del :: "'s \<Rightarrow> 'k \<Rightarrow> 's"
  assumes get_put: "get (put s k v) k' = (if k' = k then Some v else get s k')"
    and get_del: "get (del s k) k' = (if k' = k then None else get s k')"
begin

lemma put_put: "get (put (put s k v) k w) k' = get (put s k w) k'"
  by (simp add: get_put)

lemma put_commute: "k \<noteq> l \<Longrightarrow> get (put (put s k v) l w) k' = get (put (put s l w) k v) k'"
  by (simp add: get_put)

text \<open>After any writes, a cell holds the last value written to it.\<close>

lemma get_puts:
  "get (fold (\<lambda>(k, v) s. put s k v) ws s) k' =
     (case map_of (rev ws) k' of Some v \<Rightarrow> Some v | None \<Rightarrow> get s k')"
proof (induction ws arbitrary: s)
  case (Cons w ws)
  obtain k v where w: "w = (k, v)" by (cases w)
  show ?case by (simp add: Cons w get_put map_add_def split: option.splits)
qed simp

text \<open>Two stores that hold the same are told apart by no write or removal.\<close>

lemma same_after_put: "get s = get t \<Longrightarrow> get (put s k v) = get (put t k v)"
  by (auto simp: get_put fun_eq_iff)

lemma same_after_del: "get s = get t \<Longrightarrow> get (del s k) = get (del t k)"
  by (auto simp: get_del fun_eq_iff)

end

section \<open>The store of the code\<close>

record SlotStore =
  cells :: "(string \<times> jsval) list"
  watchers :: "nat list"

definition createSlotStore :: SlotStore where
  "createSlotStore = \<lparr>cells = [], watchers = []\<rparr>"

definition slotGet :: "SlotStore \<Rightarrow> string \<Rightarrow> jsval option" where
  "slotGet s name = map_of (cells s) name"

text \<open>\<^verbatim>\<open>changed\<close>: every listener is called, in the order they were added.\<close>

definition changed :: "SlotStore \<Rightarrow> nat list" where
  "changed s = watchers s"

definition slotSet :: "SlotStore \<Rightarrow> string \<Rightarrow> jsval \<Rightarrow> SlotStore" where
  "slotSet s name v = s\<lparr>cells := AList.update name v (cells s)\<rparr>"

definition slotRemove :: "SlotStore \<Rightarrow> string \<Rightarrow> SlotStore" where
  "slotRemove s name = s\<lparr>cells := AList.delete name (cells s)\<rparr>"

text \<open>The operations as a client calls them, with the listeners each call wakes.\<close>

definition doSet :: "SlotStore \<Rightarrow> string \<Rightarrow> jsval \<Rightarrow> SlotStore \<times> nat list" where
  "doSet s name v = (let s' = slotSet s name v in (s', changed s'))"

definition doRemove :: "SlotStore \<Rightarrow> string \<Rightarrow> SlotStore \<times> nat list" where
  "doRemove s name =
     (if name \<in> set (map fst (cells s)) then let s' = slotRemove s name in (s', changed s') else (s, []))"

definition slotEntries :: "SlotStore \<Rightarrow> (string \<times> jsval) list" where
  "slotEntries s = cells s"

definition watch :: "SlotStore \<Rightarrow> nat \<Rightarrow> SlotStore" where
  "watch s listener = s\<lparr>watchers := set_add listener (watchers s)\<rparr>"

definition unwatch :: "SlotStore \<Rightarrow> nat \<Rightarrow> SlotStore" where
  "unwatch s listener = s\<lparr>watchers := filter (\<lambda>l. l \<noteq> listener) (watchers s)\<rparr>"

interpretation slots: cell_store slotGet slotSet slotRemove
  by unfold_locales (simp_all add: slotGet_def slotSet_def slotRemove_def update_conv' delete_conv')

section \<open>Reachable stores\<close>

datatype slot_op = OpSet string jsval | OpRemove string | OpWatch nat | OpUnwatch nat

inductive slot_step :: "SlotStore \<Rightarrow> slot_op \<Rightarrow> SlotStore \<times> nat list \<Rightarrow> bool" where
  step_set: "slot_step s (OpSet name v) (doSet s name v)"
| step_remove: "slot_step s (OpRemove name) (doRemove s name)"
| step_watch: "slot_step s (OpWatch l) (watch s l, [])"
| step_unwatch: "slot_step s (OpUnwatch l) (unwatch s l, [])"

inductive_cases slot_step_elims:
  "slot_step s (OpSet name v) r" "slot_step s (OpRemove name) r" "slot_step s (OpWatch l) r" "slot_step s (OpUnwatch l) r"

inductive slot_reachable :: "SlotStore \<Rightarrow> bool" where
  reach_new: "slot_reachable createSlotStore"
| reach_step: "slot_reachable s \<Longrightarrow> slot_step s act (s', woken) \<Longrightarrow> slot_reachable s'"

text \<open>The names of the cells are different, and so are the listeners.\<close>

definition slots_ok :: "SlotStore \<Rightarrow> bool" where
  "slots_ok s = (distinct (map fst (cells s)) \<and> distinct (watchers s))"

lemma slot_reachable_ok: "slot_reachable s \<Longrightarrow> slots_ok s"
proof (induction rule: slot_reachable.induct)
  case reach_new
  then show ?case by (simp add: slots_ok_def createSlotStore_def)
next
  case (reach_step s act s' woken)
  show ?case using reach_step(2,3)
    by (cases rule: slot_step.cases)
      (auto simp: doSet_def doRemove_def slotSet_def slotRemove_def watch_def unwatch_def slots_ok_def Let_def
        distinct_update distinct_delete split: if_splits)
qed

lemma doRemove_get: "slotGet (fst (doRemove s name)) name' = (if name' = name then None else slotGet s name')"
  by (auto simp: doRemove_def slots.get_del Let_def) (simp_all add: slotGet_def map_of_eq_None_iff)

lemma doSet_get: "slotGet (fst (doSet s name v)) name' = (if name' = name then Some v else slotGet s name')"
  by (simp add: doSet_def slots.get_put Let_def)

section \<open>Properties\<close>

text \<open>
  In every store that operations can lead to, the entries a panel draws are the cells, each
  name once; a write or a removal changes the one cell it names, and wakes every listener if and
  only if it is a write or a removal of a cell that is there.
\<close>

theorem slot_store_steps:
  assumes "slot_reachable s" "slot_step s act (s', woken)"
  shows "distinct (map fst (slotEntries s')) \<and> map_of (slotEntries s') = slotGet s'
    \<and> (case act of
         OpSet name v \<Rightarrow> slotGet s' = (slotGet s)(name \<mapsto> v) \<and> woken = watchers s
       | OpRemove name \<Rightarrow> slotGet s' = (slotGet s)(name := None)
           \<and> woken = (if slotGet s name = None then [] else watchers s)
       | _ \<Rightarrow> slotGet s' = slotGet s \<and> woken = [])"
proof -
  have "slots_ok s'" using assms slot_reachable_ok reach_step by blast
  then have d: "distinct (map fst (slotEntries s')) \<and> map_of (slotEntries s') = slotGet s'"
    by (simp add: slots_ok_def slotEntries_def slotGet_def fun_eq_iff)
  have r: "name \<in> set (map fst (cells s)) \<longleftrightarrow> slotGet s name \<noteq> None" for name
    by (simp add: slotGet_def map_of_eq_None_iff)
  from assms(2) show ?thesis
  proof (cases rule: slot_step.cases)
    case (step_set name v)
    have "slotGet s' = (slotGet s)(name \<mapsto> v)"
      using step_set(2) doSet_get [of s name v] by (metis fst_conv fun_upd_apply ext)
    moreover have "woken = watchers s" using step_set(2) by (simp add: doSet_def changed_def slotSet_def Let_def)
    ultimately show ?thesis using d step_set(1) by simp
  next
    case (step_remove name)
    have "slotGet s' = (slotGet s)(name := None)"
      using step_remove(2) doRemove_get [of s name] by (metis fst_conv fun_upd_apply ext)
    moreover have "woken = (if slotGet s name = None then [] else watchers s)"
      using step_remove(2) r [of name] by (auto simp: doRemove_def changed_def slotRemove_def Let_def split: if_splits)
    ultimately show ?thesis using d step_remove(1) by simp
  next
    case (step_watch l)
    then show ?thesis using d by (simp add: watch_def slotGet_def fun_eq_iff)
  next
    case (step_unwatch l)
    then show ?thesis using d by (simp add: unwatch_def slotGet_def fun_eq_iff)
  qed
qed

theorem slot_store_steps_witness:
  "slotGet (fst (doSet createSlotStore ''a'' JNull)) = [''a'' \<mapsto> JNull]"
proof -
  have e: "slotGet createSlotStore = Map.empty" by (simp add: createSlotStore_def slotGet_def fun_eq_iff)
  have "slot_step createSlotStore (OpSet ''a'' JNull) (fst (doSet createSlotStore ''a'' JNull), snd (doSet createSlotStore ''a'' JNull))"
    using step_set [of createSlotStore "''a''" JNull] by simp
  from slot_store_steps [OF reach_new this] show ?thesis by (simp add: e)
qed

end
