(* ===== verification/SecretConsent.thy ===== *)
theory SecretConsent
  imports JsJson Slots
begin

text \<open>
  Consent for releasing secrets to a runtime (\<^verbatim>\<open>hkp-frontend/src/core/secretConsent.ts\<close>).  The URL
  parser of the host is a parameter, and so is the person asked: \<open>prompt request\<close> is the decision
  the promise resolves to.  \<^verbatim>\<open>localStorage\<close> is a map from keys to the values \<^verbatim>\<open>JSON.parse\<close> reads
  back, or absent where it cannot be used.
\<close>

section \<open>Requests and their keys\<close>

record SecretRelease =
  rel_boardName :: string
  rel_runtimeId :: string
  rel_runtimeName :: "string option"
  rel_url :: string
  rel_aliases :: "string list"

record ConsentDecision =
  dec_allowed :: "string list"
  dec_remember :: bool

record ConsentUrl =
  url_protocol :: string
  url_hostname :: string
  url_port :: string
  url_origin :: string

definition releaseOrigin :: "(string \<Rightarrow> ConsentUrl option) \<Rightarrow> string \<Rightarrow> string" where
  "releaseOrigin parse url =
     (case parse url of Some u \<Rightarrow> toLowerCase (url_origin u) | None \<Rightarrow> toLowerCase (js_trim url))"

text \<open>The port of the host's own runtime, \<^const>\<open>None\<close> or 0 where it binds none.\<close>

definition inProcessRuntime :: "(string \<Rightarrow> ConsentUrl option) \<Rightarrow> string \<Rightarrow> nat option \<Rightarrow> bool" where
  "inProcessRuntime parse url runtimePort =
     (case parse url of
        None \<Rightarrow> False
      | Some u \<Rightarrow>
          url_protocol u = ''hkp:''
          \<or> (case runtimePort of
               None \<Rightarrow> False
             | Some p \<Rightarrow>
                 p \<noteq> 0 \<and> url_hostname u \<in> {''127.0.0.1'', ''localhost'', ''[::1]'', ''::1''}
                 \<and> url_port u = show_nat p))"

definition grantKey :: "(string \<Rightarrow> ConsentUrl option) \<Rightarrow> SecretRelease \<Rightarrow> string" where
  "grantKey parse request =
     json_text (JArr
       [JStr (if rel_boardName request = [] then ''(unsaved)'' else rel_boardName request),
        JStr (rel_runtimeId request),
        JStr (releaseOrigin parse (rel_url request))])"

text \<open>\<open>json_parse\<close> is \<^verbatim>\<open>JSON.parse\<close>, \<^const>\<open>None\<close> where it throws.\<close>

definition readGrantKey :: "(string \<Rightarrow> jsval option) \<Rightarrow> string \<Rightarrow> (string \<times> string \<times> string) option" where
  "readGrantKey json_parse key =
     (case json_parse key of
        Some (JArr [JStr boardName, JStr runtimeId, JStr origin]) \<Rightarrow> Some (boardName, runtimeId, origin)
      | _ \<Rightarrow> None)"

section \<open>Remembered grants\<close>

record 's GrantStore =
  granted :: "'s \<Rightarrow> string \<Rightarrow> string list"
  grant :: "'s \<Rightarrow> string \<Rightarrow> string list \<Rightarrow> 's"

text \<open>\<^const>\<open>None\<close> is a window without storage, where reading throws and writing does too.\<close>

type_synonym local_storage = "(string \<times> jsval) list option"

definition STORAGE_PREFIX :: string where
  "STORAGE_PREFIX = ''hkp.secret-grants''"

definition localGranted :: "local_storage \<Rightarrow> string \<Rightarrow> string list" where
  "localGranted storage key =
     (case storage of
        None \<Rightarrow> []
      | Some items \<Rightarrow>
          (case map_of items (STORAGE_PREFIX @ '':'' @ key) of
             Some (JArr parsed) \<Rightarrow> List.map_filter the_str parsed
           | _ \<Rightarrow> []))"

definition localGrant :: "local_storage \<Rightarrow> string \<Rightarrow> string list \<Rightarrow> local_storage" where
  "localGrant storage key aliases =
     (let merged = sort (set_adds (localGranted storage key @ aliases) [])
      in map_option (AList.update (STORAGE_PREFIX @ '':'' @ key) (JArr (map JStr merged))) storage)"

definition localGrantStore :: "local_storage GrantStore" where
  "localGrantStore = \<lparr>granted = localGranted, grant = localGrant\<rparr>"

section \<open>The gate\<close>

text \<open>What a host has registered: how to ask, where to remember, what needs no asking.\<close>

record 's Consent =
  con_prompt :: "(SecretRelease \<Rightarrow> ConsentDecision) option"
  con_grants :: "'s GrantStore"
  con_inProcess :: "string \<Rightarrow> bool"

definition resetSecretConsent :: "local_storage Consent" where
  "resetSecretConsent = \<lparr>con_prompt = None, con_grants = localGrantStore, con_inProcess = \<lambda>_. False\<rparr>"

text \<open>An absent field of the argument leaves what is registered; a prompt may be taken back.\<close>

definition setSecretConsent ::
  "(SecretRelease \<Rightarrow> ConsentDecision) option option \<Rightarrow> 's GrantStore option \<Rightarrow> (string \<Rightarrow> bool) option \<Rightarrow>
    's Consent \<Rightarrow> 's Consent" where
  "setSecretConsent prompt grants isInProcess c =
     \<lparr>con_prompt = (case prompt of Some p \<Rightarrow> p | None \<Rightarrow> con_prompt c),
      con_grants = (case grants of Some g \<Rightarrow> g | None \<Rightarrow> con_grants c),
      con_inProcess = (case isInProcess of Some f \<Rightarrow> f | None \<Rightarrow> con_inProcess c)\<rparr>"

definition alreadyGranted ::
  "(string \<Rightarrow> ConsentUrl option) \<Rightarrow> 's Consent \<Rightarrow> SecretRelease \<Rightarrow> 's \<Rightarrow> bool" where
  "alreadyGranted parse c request s =
     (if rel_aliases request = [] \<or> con_inProcess c (rel_url request) then True
      else list_all (\<lambda>alias. alias \<in> set (granted (con_grants c) s (grantKey parse request))) (rel_aliases request))"

definition allowedSecrets ::
  "(string \<Rightarrow> ConsentUrl option) \<Rightarrow> 's Consent \<Rightarrow> SecretRelease \<Rightarrow> 's \<Rightarrow> string list \<times> 's" where
  "allowedSecrets parse c request s =
     (if rel_aliases request = [] \<or> con_inProcess c (rel_url request) then (rel_aliases request, s)
      else
        let key = grantKey parse request;
            held = granted (con_grants c) s key;
            asking = filter (\<lambda>alias. alias \<notin> set held) (rel_aliases request)
        in (case (if asking = [] then None else con_prompt c) of
              None \<Rightarrow> (rel_aliases request, s)
            | Some prompt \<Rightarrow>
                let decision = prompt (request\<lparr>rel_aliases := asking\<rparr>);
                    allowed = filter (\<lambda>alias. alias \<in> set asking) (dec_allowed decision);
                    s' = (if dec_remember decision \<and> allowed \<noteq> [] then grant (con_grants c) s key allowed else s)
                in (filter (\<lambda>alias. alias \<in> set held \<or> alias \<in> set allowed) (rel_aliases request), s')))"

section \<open>A store of grants\<close>

text \<open>
  What the gate relies on: a store remembers no more than it is told, for the key it is told it for.
  It may remember less, as a store with nothing to write to does.
\<close>

locale grant_store =
  fixes g :: "'s GrantStore"
  assumes grant_adds: "set (granted g (grant g s key aliases) key') \<subseteq>
      set (granted g s key') \<union> (if key' = key then set aliases else {})"
    and grant_keeps: "set (granted g s key') \<subseteq> set (granted g (grant g s key aliases) key')"
begin

text \<open>Over any releases, one of a secret is preceded by a yes to it for the same key.\<close>

lemma allowed_only:
  assumes "con_grants c = g" "con_prompt c = Some prompt" "\<not> con_inProcess c (rel_url request)"
    and "allowedSecrets parse c request s = (out, s')"
  shows "set out \<subseteq> set (granted g s (grantKey parse request))
           \<union> set (dec_allowed (prompt (request\<lparr>rel_aliases :=
               filter (\<lambda>a. a \<notin> set (granted g s (grantKey parse request))) (rel_aliases request)\<rparr>)))
    \<and> (\<forall>key. set (granted g s key) \<subseteq> set (granted g s' key)
        \<and> set (granted g s' key) \<subseteq> set (granted g s key) \<union> (if key = grantKey parse request then set out else {}))"
proof (cases "rel_aliases request = []")
  case True
  then show ?thesis using assms(4) by (auto simp: allowedSecrets_def)
next
  case False
  define key where "key = grantKey parse request"
  define asking where "asking = filter (\<lambda>a. a \<notin> set (granted g s key)) (rel_aliases request)"
  show ?thesis
  proof (cases "asking = []")
    case True
    then have "set (rel_aliases request) \<subseteq> set (granted g s key)" by (auto simp: asking_def filter_empty_conv)
    then show ?thesis
      using assms False True by (auto simp: allowedSecrets_def Let_def asking_def key_def)
  next
    case ask: False
    define allowed where "allowed = filter (\<lambda>a. a \<in> set asking) (dec_allowed (prompt (request\<lparr>rel_aliases := asking\<rparr>)))"
    have out: "out = filter (\<lambda>a. a \<in> set (granted g s key) \<or> a \<in> set allowed) (rel_aliases request)"
      and s': "s' = s \<or> s' = grant g s key allowed"
      using assms False ask
      by (auto simp: allowedSecrets_def Let_def allowed_def simp flip: asking_def key_def split: if_splits)
    have in_out: "set allowed \<subseteq> set out" by (auto simp: out allowed_def asking_def)
    have yes: "set allowed \<subseteq> set (dec_allowed (prompt (request\<lparr>rel_aliases := asking\<rparr>)))" by (auto simp: allowed_def)
    have "set out \<subseteq> set (granted g s key) \<union> set allowed" by (auto simp: out)
    with yes have "set out \<subseteq> set (granted g s key) \<union> set (dec_allowed (prompt (request\<lparr>rel_aliases := asking\<rparr>)))"
      by (meson Un_mono order_trans order_refl)
    moreover have "set (granted g s k) \<subseteq> set (granted g s' k)
         \<and> set (granted g s' k) \<subseteq> set (granted g s k) \<union> (if k = key then set out else {})" for k
      using s' grant_adds [of s key allowed k] grant_keeps [of s k key allowed] in_out
      by (elim disjE; cases "k = key"; simp; blast)
    ultimately have "set out \<subseteq> set (granted g s key) \<union> set (dec_allowed (prompt (request\<lparr>rel_aliases := asking\<rparr>)))
      \<and> (\<forall>k. set (granted g s k) \<subseteq> set (granted g s' k)
         \<and> set (granted g s' k) \<subseteq> set (granted g s k) \<union> (if k = key then set out else {}))" by simp
    then show ?thesis unfolding key_def [symmetric] asking_def [symmetric] .
  qed
qed

lemma allowed_yes:
  assumes "con_grants c = g" "con_prompt c = Some prompt" "\<not> con_inProcess c (rel_url request)"
    and "allowedSecrets parse c request s = (out, s')" "a \<in> set out"
  shows "a \<in> set (granted g s (grantKey parse request))
    \<or> (\<exists>asking. a \<in> set (dec_allowed (prompt (request\<lparr>rel_aliases := asking\<rparr>))))"
  using allowed_only [OF assms(1-4)] assms(5) by blast

lemma allowed_remembers:
  assumes "con_grants c = g" "con_prompt c = Some prompt" "\<not> con_inProcess c (rel_url request)"
    and "allowedSecrets parse c request s = (out, s')" "a \<in> set (granted g s' key)"
  shows "a \<in> set (granted g s key) \<or> key = grantKey parse request \<and> a \<in> set out"
  using conjunct2 [OF allowed_only [OF assms(1-4)], THEN spec [where x = key]] assms(5) by (auto split: if_splits)

end

text \<open>The store of the code: \<^verbatim>\<open>localStorage\<close>, present or not.\<close>

lemma localGrant_granted:
  "localGranted (localGrant storage key aliases) key' =
     (if key' = key \<and> storage \<noteq> None then sort (set_adds (localGranted storage key @ aliases) [])
      else localGranted storage key')"
proof (cases storage)
  case (Some items)
  have "List.map_filter the_str (map JStr ss) = ss" for ss by (induction ss) (simp_all add: List.map_filter_simps)
  then show ?thesis by (simp add: Some localGrant_def localGranted_def Let_def update_conv')
qed (simp add: localGrant_def localGranted_def Let_def)

interpretation local_grants: grant_store localGrantStore
  by unfold_locales (auto simp: localGrantStore_def localGrant_granted)

text \<open>What a grant is for: the board, the runtime as the board names it, and the server's origin.\<close>

definition release_scope :: "(string \<Rightarrow> ConsentUrl option) \<Rightarrow> SecretRelease \<Rightarrow> string \<times> string \<times> string" where
  "release_scope parse request =
     (if rel_boardName request = [] then ''(unsaved)'' else rel_boardName request,
      rel_runtimeId request, releaseOrigin parse (rel_url request))"

lemma grantKey_scope: "grantKey parse r = grantKey parse r' \<longleftrightarrow> release_scope parse r = release_scope parse r'"
proof
  obtain b i u b' i' u' where p: "release_scope parse r = (b, i, u)" "release_scope parse r' = (b', i', u')"
    by (metis prod_cases3)
  have key: "grantKey parse q = json_text (JArr [JStr x, JStr y, JStr z])" if "release_scope parse q = (x, y, z)" for q x y z
    using that by (simp add: grantKey_def release_scope_def)
  assume "grantKey parse r = grantKey parse r'"
  then have "json_quote b @ CHR '','' # json_quote i @ CHR '','' # json_quote u @ '']''
      = json_quote b' @ CHR '','' # json_quote i' @ CHR '','' # json_quote u' @ '']''"
    unfolding key [OF p(1)] key [OF p(2)] by simp
  from json_quote_prefix [OF this] have "b = b'" and 2: "json_quote i @ CHR '','' # json_quote u @ '']'' = json_quote i' @ CHR '','' # json_quote u' @ '']''"
    by simp_all
  from json_quote_prefix [OF 2] have "i = i'" and 3: "json_quote u @ '']'' = json_quote u' @ '']''" by simp_all
  from json_quote_prefix [OF 3] \<open>b = b'\<close> \<open>i = i'\<close> show "release_scope parse r = release_scope parse r'" by (simp add: p)
next
  assume "release_scope parse r = release_scope parse r'"
  then show "grantKey parse r = grantKey parse r'" by (simp add: grantKey_def release_scope_def)
qed

fun releases_asked ::
  "(string \<Rightarrow> ConsentUrl option) \<Rightarrow> 's Consent \<Rightarrow> SecretRelease list \<Rightarrow> 's \<Rightarrow> (SecretRelease \<times> string list) list" where
  "releases_asked parse c [] s = []"
| "releases_asked parse c (request # requests) s =
     (let (out, s') = allowedSecrets parse c request s in (request, out) # releases_asked parse c requests s')"

section \<open>Properties\<close>

text \<open>
  Consent over time: asked about releases one after another, with grants in local storage, every
  alias that is released to a runtime across a wire was said yes to by the person, in answer to a
  request of the same board for the same runtime at the same origin, or was granted to these before.
\<close>

theorem consent_covers_releases:
  assumes "con_grants c = localGrantStore" "con_prompt c = Some prompt"
    and "(request, out) \<in> set (releases_asked parse c requests s)" "a \<in> set out"
    and "\<not> con_inProcess c (rel_url request)"
  shows "a \<in> set (localGranted s (grantKey parse request))
    \<or> (\<exists>r \<in> set requests. release_scope parse r = release_scope parse request
         \<and> (\<exists>asking. a \<in> set (dec_allowed (prompt (r\<lparr>rel_aliases := asking\<rparr>)))))"
  using assms(3)
proof (induction requests arbitrary: s)
  case (Cons r requests)
  obtain out1 s1 where r: "allowedSecrets parse c r s = (out1, s1)" by fastforce
  have g: "granted localGrantStore = localGranted" by (simp add: localGrantStore_def)
  show ?case
  proof (cases "con_inProcess c (rel_url r)")
    case True
    then have "s1 = s" using r by (simp add: allowedSecrets_def)
    then show ?thesis using Cons r True assms(5) by (auto simp: Let_def)
  next
    case False
    note yes = local_grants.allowed_yes [OF assms(1,2) False r, unfolded g]
    note remembers = local_grants.allowed_remembers [OF assms(1,2) False r, unfolded g]
    consider "request = r" "out = out1" | "(request, out) \<in> set (releases_asked parse c requests s1)"
      using Cons.prems r by (auto simp: Let_def)
    then show ?thesis
    proof cases
      case 1
      then show ?thesis using yes [of a] assms(4) by auto
    next
      case 2
      from Cons.IH [OF this] show ?thesis
      proof
        assume "a \<in> set (localGranted s1 (grantKey parse request))"
        from remembers [OF this] show ?thesis
          using yes [of a] by (metis grantKey_scope list.set_intros(1))
      qed auto
    qed
  qed
qed simp

theorem consent_covers_releases_witness:
  "set (snd (hd (releases_asked (\<lambda>_. None)
      (resetSecretConsent\<lparr>con_prompt := Some (\<lambda>_. \<lparr>dec_allowed = [''slack''], dec_remember = True\<rparr>)\<rparr>)
      [\<lparr>rel_boardName = ''b'', rel_runtimeId = ''node'', rel_runtimeName = None, rel_url = ''u'', rel_aliases = [''gmail'', ''slack'']\<rparr>]
      (Some [])))) \<subseteq> {''slack''}"
proof
  let ?c = "resetSecretConsent\<lparr>con_prompt := Some (\<lambda>_. \<lparr>dec_allowed = [''slack''], dec_remember = True\<rparr>)\<rparr>"
  let ?r = "\<lparr>rel_boardName = ''b'', rel_runtimeId = ''node'', rel_runtimeName = None, rel_url = ''u'', rel_aliases = [''gmail'', ''slack'']\<rparr>"
  obtain out s' where r: "allowedSecrets (\<lambda>_. None) ?c ?r (Some []) = (out, s')" by fastforce
  fix a assume "a \<in> set (snd (hd (releases_asked (\<lambda>_. None) ?c [?r] (Some []))))"
  then have "a \<in> set out" using r by simp
  then show "a \<in> {''slack''}"
    using consent_covers_releases [of ?c "\<lambda>_. \<lparr>dec_allowed = [''slack''], dec_remember = True\<rparr>" ?r out "\<lambda>_. None" "[?r]" "Some []" a] r
    by (auto simp: resetSecretConsent_def localGranted_def)
qed

end
