(* ===== verification/ProcessContext.thy ===== *)
theory ProcessContext
  imports JsValue Complex_Main
begin

text \<open>
  Run identity (\<^verbatim>\<open>hkp-frontend/src/runtime/processContext.ts\<close>): who is acting in a run, and how runs
  begin, nest and continue.  \<^verbatim>\<open>crypto.randomUUID()\<close> is an argument, the fresh identifier it returns,
  and so is \<^verbatim>\<open>Date.now()\<close>.  Times are exact numbers; a reply address is the requester's
  identifier and the number of the callback that resolves it.
\<close>

section \<open>Data\<close>

datatype Role = Owner | Member

record Caller =
  caller_sub :: string
  caller_email :: "string option"
  caller_name :: "string option"
  caller_role :: "Role option"

datatype RunActor = PersonActor Caller rat | BoardActor | MountActor | LocalActor

record ProcessContext =
  ctx_requestId :: string
  ctx_onResolve :: "nat option"
  ctx_runId :: "string option"
  ctx_parentRunId :: "string option"
  ctx_actor :: RunActor

record User =
  user_username :: string
  user_userId :: string
  user_email :: "string option"

definition DEFAULT_PERSON_RUN_TTL_MS :: rat where
  "DEFAULT_PERSON_RUN_TTL_MS = 15 * 60 * 1000"

text \<open>The value of a document's number.\<close>

fun num_val :: "jsnum \<Rightarrow> rat" where
  "num_val NegZero = 0"
| "num_val (Dec m e) = (if 0 \<le> e then of_int m * 10 ^ nat e else of_int m / 10 ^ nat (- e))"

section \<open>Runs begun by this app\<close>

definition newRun :: "string \<Rightarrow> RunActor \<Rightarrow> ProcessContext" where
  "newRun uuid actor =
     \<lparr>ctx_requestId = [], ctx_onResolve = None, ctx_runId = Some uuid, ctx_parentRunId = None, ctx_actor = actor\<rparr>"

definition startedRun :: "string \<Rightarrow> ProcessContext option \<Rightarrow> ProcessContext" where
  "startedRun uuid context = (case context of Some c \<Rightarrow> c | None \<Rightarrow> newRun uuid LocalActor)"

text \<open>An empty text is no identifier, no address and no name.\<close>

definition told :: "string \<Rightarrow> string option" where
  "told s = (if s = [] then None else Some s)"

definition personRun :: "string \<Rightarrow> rat \<Rightarrow> User option \<Rightarrow> ProcessContext" where
  "personRun uuid now user =
     newRun uuid
       (case user of
          None \<Rightarrow> LocalActor
        | Some u \<Rightarrow>
            if user_userId u = [] then LocalActor
            else
              PersonActor
                \<lparr>caller_sub = user_userId u,
                 caller_email = map_option toLowerCase (Option.bind (user_email u) (\<lambda>e. told (js_trim e))),
                 caller_name = told (user_username u),
                 caller_role = Some Owner\<rparr>
                (now + DEFAULT_PERSON_RUN_TTL_MS))"

definition boardRun :: "string \<Rightarrow> ProcessContext" where
  "boardRun uuid = newRun uuid BoardActor"

definition nestedRun :: "string \<Rightarrow> ProcessContext option \<Rightarrow> ProcessContext option" where
  "nestedRun uuid outer =
     map_option (\<lambda>o'. (newRun uuid (ctx_actor o'))\<lparr>ctx_parentRunId := Option.bind (ctx_runId o') told\<rparr>) outer"

section \<open>Runs a coordinator hands over\<close>

fun is_record :: "jsval \<Rightarrow> bool" where
  "is_record (JObj es) = True"
| "is_record _ = False"

fun text_field :: "jsval \<Rightarrow> string \<Rightarrow> string option" where
  "text_field wire k = (case field wire k of JStr s \<Rightarrow> told s | _ \<Rightarrow> None)"

definition statedCaller :: "jsval \<Rightarrow> Caller option" where
  "statedCaller wire =
     map_option (\<lambda>sub.
       \<lparr>caller_sub = sub, caller_email = text_field wire ''email'', caller_name = text_field wire ''name'',
        caller_role =
          (if field wire ''role'' = JStr ''owner'' then Some Owner
           else if field wire ''role'' = JStr ''member'' then Some Member else None)\<rparr>)
       (text_field wire ''sub'')"

definition nobody :: Caller where
  "nobody = \<lparr>caller_sub = [], caller_email = None, caller_name = None, caller_role = None\<rparr>"

definition statedActor :: "jsval \<Rightarrow> RunActor" where
  "statedActor wire =
     (if \<not> is_record wire then BoardActor
      else if field wire ''kind'' = JStr ''person'' then
        (case statedCaller wire of
           Some c \<Rightarrow> PersonActor c (case field wire ''expiresAt'' of JNum n \<Rightarrow> num_val n | _ \<Rightarrow> 0)
         | None \<Rightarrow> PersonActor nobody 0)
      else if field wire ''kind'' = JStr ''mount'' then MountActor
      else if field wire ''kind'' = JStr ''local'' then LocalActor
      else BoardActor)"

definition continuedRun :: "string \<Rightarrow> jsval \<Rightarrow> string \<Rightarrow> nat option \<Rightarrow> ProcessContext" where
  "continuedRun uuid wire requestId onResolve =
     \<lparr>ctx_requestId = requestId, ctx_onResolve = onResolve,
      ctx_runId = Some (case text_field wire ''runId'' of Some r \<Rightarrow> r | None \<Rightarrow> uuid),
      ctx_parentRunId = text_field wire ''parentRunId'',
      ctx_actor = statedActor (field wire ''actor'')\<rparr>"

definition runExpired :: "ProcessContext option \<Rightarrow> rat \<Rightarrow> bool" where
  "runExpired context now =
     (case context of
        None \<Rightarrow> False
      | Some c \<Rightarrow> (case ctx_actor c of PersonActor _ expiresAt \<Rightarrow> expiresAt \<le> now | _ \<Rightarrow> False))"

section \<open>Facts\<close>

lemma field_not_record: "\<not> is_record wire \<Longrightarrow> field wire k = JUndef"
  by (cases wire) simp_all

lemma text_field_Some: "text_field wire k = Some s \<longleftrightarrow> field wire k = JStr s \<and> s \<noteq> []"
  by (cases "field wire k") (auto simp: told_def)

text \<open>
  What acts in a run, and until when: nested runs to any depth act as the outermost one, for as long
  as it.
\<close>

fun nested_runs :: "string list \<Rightarrow> ProcessContext option \<Rightarrow> ProcessContext option list" where
  "nested_runs [] outer = [outer]"
| "nested_runs (uuid # uuids) outer = outer # nested_runs uuids (nestedRun uuid outer)"

definition run_ids_told :: "ProcessContext option \<Rightarrow> bool" where
  "run_ids_told c = (case c of Some r \<Rightarrow> ctx_runId r \<noteq> None \<and> ctx_runId r \<noteq> Some [] | None \<Rightarrow> True)"

lemma nestedRun_actor: "map_option ctx_actor (nestedRun uuid outer) = map_option ctx_actor outer"
  by (cases outer) (simp_all add: nestedRun_def newRun_def)

lemma nestedRun_parent:
  "outer = Some r \<Longrightarrow> ctx_runId r = Some rid \<Longrightarrow> rid \<noteq> [] \<Longrightarrow>
    \<exists>inner. nestedRun uuid outer = Some inner \<and> ctx_runId inner = Some uuid \<and> ctx_parentRunId inner = Some rid"
  by (simp add: nestedRun_def newRun_def told_def)

lemma nested_runs_nth:
  "i < length (nested_runs uuids outer) \<Longrightarrow>
    map_option ctx_actor (nested_runs uuids outer ! i) = map_option ctx_actor outer"
proof (induction uuids arbitrary: outer i)
  case (Cons u us)
  then show ?case by (cases i) (simp_all add: nestedRun_actor)
qed simp

lemma nested_runs_hd: "nested_runs uuids outer ! 0 = outer"
  by (cases uuids) simp_all

section \<open>Properties\<close>

text \<open>
  Who acts in a run does not change on the way in: a service nested at any depth runs as exactly
  the actor of the outermost run, with the same deadline, and each level names the one around it as
  its parent, so a trace is a path back to where the run began.
\<close>

theorem nested_runs_actor:
  assumes "run_ids_told outer" "\<forall>u \<in> set uuids. u \<noteq> []"
  shows "\<forall>i < length (nested_runs uuids outer).
      map_option ctx_actor (nested_runs uuids outer ! i) = map_option ctx_actor outer
    \<and> (\<forall>now. runExpired (nested_runs uuids outer ! i) now = runExpired outer now)
    \<and> (0 < i \<longrightarrow> (\<forall>r. nested_runs uuids outer ! i = Some r \<longrightarrow>
         (\<exists>p. nested_runs uuids outer ! (i - 1) = Some p \<and> ctx_parentRunId r = ctx_runId p
           \<and> ctx_runId r = Some (uuids ! (i - 1)))))"
  using assms
proof (induction uuids arbitrary: outer)
  case Nil
  then show ?case by simp
next
  case (Cons u us)
  have told: "run_ids_told (nestedRun u outer)"
    using Cons.prems by (simp add: run_ids_told_def nestedRun_def newRun_def split: option.splits)
  have same: "runExpired (nestedRun u outer) now = runExpired outer now" for now
    by (cases outer) (simp_all add: runExpired_def nestedRun_def newRun_def)
  have us: "\<forall>u \<in> set us. u \<noteq> []" using Cons.prems(2) by simp
  note IH = Cons.IH [OF told us]
  show ?case
  proof (intro allI impI)
    fix i assume i: "i < length (nested_runs (u # us) outer)"
    show "map_option ctx_actor (nested_runs (u # us) outer ! i) = map_option ctx_actor outer
      \<and> (\<forall>now. runExpired (nested_runs (u # us) outer ! i) now = runExpired outer now)
      \<and> (0 < i \<longrightarrow> (\<forall>r. nested_runs (u # us) outer ! i = Some r \<longrightarrow>
           (\<exists>p. nested_runs (u # us) outer ! (i - 1) = Some p \<and> ctx_parentRunId r = ctx_runId p
             \<and> ctx_runId r = Some ((u # us) ! (i - 1)))))"
    proof (cases i)
      case (Suc j)
      then have j: "j < length (nested_runs us (nestedRun u outer))" using i by simp
      show ?thesis
      proof (cases j)
        case 0
        have "\<exists>p. outer = Some p \<and> ctx_parentRunId r = ctx_runId p \<and> ctx_runId r = Some u"
          if "nestedRun u outer = Some r" for r
          using that Cons.prems(1)
          by (auto simp: nestedRun_def newRun_def run_ids_told_def told_def split: option.splits)
        then show ?thesis using Suc 0 by (simp add: nested_runs_hd nestedRun_actor same)
      next
        case (Suc k)
        then show ?thesis using IH [rule_format, OF j] \<open>i = Suc j\<close> by (simp add: nestedRun_actor same)
      qed
    qed simp
  qed
qed

theorem nested_runs_actor_witness:
  "map_option ctx_actor (nested_runs [''a'', ''b''] (Some (boardRun ''r'')) ! 2) = Some BoardActor"
proof -
  have "run_ids_told (Some (boardRun ''r''))" "\<forall>u \<in> set [''a'', ''b'']. u \<noteq> []"
    by (simp_all add: run_ids_told_def boardRun_def newRun_def)
  from nested_runs_actor [OF this, THEN spec [where x = 2]] show ?thesis by (simp add: boardRun_def newRun_def)
qed

text \<open>
  A run a coordinator hands over never acts as a person the wire does not state: whoever is signed
  in here, the actor is a person only where the wire says so, with the subject and the roles it
  gives; one it names no subject or no deadline for has expired from the start.
\<close>

theorem continuedRun_person_stated:
  assumes "ctx_actor (continuedRun uuid wire requestId onResolve) = PersonActor c expiresAt"
  shows "field (field wire ''actor'') ''kind'' = JStr ''person''
    \<and> (caller_sub c \<noteq> [] \<longrightarrow> field (field wire ''actor'') ''sub'' = JStr (caller_sub c))
    \<and> (caller_role c = Some Owner \<longrightarrow> field (field wire ''actor'') ''role'' = JStr ''owner'')
    \<and> (caller_sub c = [] \<or> (\<forall>n. field (field wire ''actor'') ''expiresAt'' \<noteq> JNum n) \<longrightarrow>
         (\<forall>now \<ge> 0. runExpired (Some (continuedRun uuid wire requestId onResolve)) now))"
proof -
  let ?actor = "field wire ''actor''"
  have actor: "statedActor ?actor = PersonActor c expiresAt" using assms by (simp add: continuedRun_def)
  then have kind: "field ?actor ''kind'' = JStr ''person''" by (simp add: statedActor_def split: if_splits)
  have rec: "is_record ?actor" using kind field_not_record by force
  have expired: "runExpired (Some (continuedRun uuid wire requestId onResolve)) now \<longleftrightarrow> expiresAt \<le> now" for now
    using assms by (simp add: runExpired_def)
  show ?thesis
  proof (cases "statedCaller ?actor")
    case None
    then have "c = nobody" "expiresAt = 0" using actor kind rec by (simp_all add: statedActor_def)
    then show ?thesis using kind expired by (simp add: nobody_def)
  next
    case (Some c')
    then have c: "c = c'" "expiresAt = (case field ?actor ''expiresAt'' of JNum n \<Rightarrow> num_val n | _ \<Rightarrow> 0)"
      using actor kind rec by (simp_all add: statedActor_def)
    obtain sub where s: "text_field ?actor ''sub'' = Some sub" "caller_sub c' = sub"
      "caller_role c' = (if field ?actor ''role'' = JStr ''owner'' then Some Owner
           else if field ?actor ''role'' = JStr ''member'' then Some Member else None)"
      using Some by (auto simp: statedCaller_def)
    have "field ?actor ''sub'' = JStr sub" "sub \<noteq> []" using s(1) text_field_Some by blast+
    moreover have "(\<forall>n. field ?actor ''expiresAt'' \<noteq> JNum n) \<Longrightarrow> expiresAt = 0"
      unfolding c(2) by (cases "field ?actor ''expiresAt''") simp_all
    ultimately show ?thesis using kind expired c(1) s(2,3) by (auto split: if_splits)
  qed
qed

theorem continuedRun_person_stated_witness:
  "runExpired (Some (continuedRun ''u'' (JObj [(''actor'', JObj [(''kind'', JStr ''person''), (''sub'', JStr ''ann'')])]) ''q'' None)) 5"
proof -
  let ?wire = "JObj [(''actor'', JObj [(''kind'', JStr ''person''), (''sub'', JStr ''ann'')])]"
  have "ctx_actor (continuedRun ''u'' ?wire ''q'' None)
      = PersonActor \<lparr>caller_sub = ''ann'', caller_email = None, caller_name = None, caller_role = None\<rparr> 0"
    by (simp add: continuedRun_def statedActor_def statedCaller_def told_def)
  from continuedRun_person_stated [OF this] show ?thesis by simp
qed

end
