(* ===== verification/RuntimeScope.thy ===== *)
theory RuntimeScope
  imports ProcessContext Slots "HOL-Library.Multiset"
begin

text \<open>
  The browser runtime (\<^verbatim>\<open>hkp-frontend/src/runtime/browser/BrowserRuntimeScope.ts\<close>): a scope holds the
  services of a runtime or of a nested pipeline and takes values through them.  A pass awaits every
  service it calls, so passes interleave with each other and with edits of the scope; each
  asynchronous function is cut at its awaits, and what runs between two of them is one function
  here.  Runs are objects compared by identity: a run is the number of its object, and the contexts
  themselves are the table \<open>runs\<close>.  A service is its uuid; what its \<^verbatim>\<open>process\<close> answers comes from
  outside.  Logging, call reports, slots and the other members of the app are not part of a pass.
\<close>

section \<open>State\<close>

text \<open>
  \<^verbatim>\<open>serviceInstances\<close> is an array a pass keeps hold of: adding a service extends it in place, removing
  and rearranging replace it.  \<open>arrays\<close> are all it has been, the present one last.
\<close>

record Scope =
  arrays :: "string list list"
  subservices :: "(string \<times> string) list"
  bypassed :: "string list"
  disposing :: bool
  generation :: nat
  serviceContexts :: "string \<Rightarrow> nat list"
  deferredRuns :: "nat \<Rightarrow> nat"

definition newScope :: Scope where
  "newScope =
     \<lparr>arrays = [[]], subservices = [], bypassed = [], disposing = False, generation = 0,
      serviceContexts = (\<lambda>_. []), deferredRuns = (\<lambda>_. 0)\<rparr>"

definition serviceInstances :: "Scope \<Rightarrow> string list" where
  "serviceInstances s = last (arrays s)"

section \<open>The runs a service is called in\<close>

definition contextOf :: "Scope \<Rightarrow> string \<Rightarrow> nat option" where
  "contextOf s svc =
     (case serviceContexts s svc of
        [] \<Rightarrow> None
      | only # active \<Rightarrow> if list_all (\<lambda>run. run = only) active then Some only else None)"

definition enterContext :: "Scope \<Rightarrow> string \<Rightarrow> nat \<Rightarrow> Scope" where
  "enterContext s svc run = s\<lparr>serviceContexts := (serviceContexts s)(svc := serviceContexts s svc @ [run])\<rparr>"

text \<open>\<^verbatim>\<open>splice\<close> at \<^verbatim>\<open>lastIndexOf\<close>.\<close>

definition remove_last :: "'a \<Rightarrow> 'a list \<Rightarrow> 'a list" where
  "remove_last x xs = rev (remove1 x (rev xs))"

definition leaveContext :: "Scope \<Rightarrow> string \<Rightarrow> nat \<Rightarrow> Scope" where
  "leaveContext s svc run =
     s\<lparr>serviceContexts := (serviceContexts s)(svc := remove_last run (serviceContexts s svc))\<rparr>"

definition deferRun :: "Scope \<Rightarrow> nat \<Rightarrow> Scope" where
  "deferRun s run = s\<lparr>deferredRuns := (deferredRuns s)(run := deferredRuns s run + 1)\<rparr>"

definition resumeRun :: "Scope \<Rightarrow> nat \<Rightarrow> bool \<times> Scope" where
  "resumeRun s run =
     (if deferredRuns s run = 0 then (False, s)
      else (True, s\<lparr>deferredRuns := (deferredRuns s)(run := deferredRuns s run - 1)\<rparr>))"

section \<open>The services\<close>

text \<open>The service found, and its place, \<^const>\<open>None\<close> for \<open>-1\<close>.\<close>

definition findServiceInstance :: "Scope \<Rightarrow> string option \<Rightarrow> string option \<times> nat option" where
  "findServiceInstance s uuid =
     (case uuid of
        None \<Rightarrow> (case serviceInstances s of [] \<Rightarrow> None | first # _ \<Rightarrow> Some first, Some 0)
      | Some u \<Rightarrow>
          let searchUuid = (case map_of (subservices s) u of Some parent \<Rightarrow> parent | None \<Rightarrow> u)
          in (case find_index (\<lambda>i. i = searchUuid) (serviceInstances s) of
                None \<Rightarrow> (None, None)
              | Some idx \<Rightarrow> (Some (serviceInstances s ! idx), Some idx)))"

definition appendService :: "Scope \<Rightarrow> string \<Rightarrow> Scope" where
  "appendService s svc = s\<lparr>arrays := butlast (arrays s) @ [serviceInstances s @ [svc]]\<rparr>"

definition appendSubservice :: "Scope \<Rightarrow> string \<Rightarrow> string \<Rightarrow> Scope" where
  "appendSubservice s svc parent = s\<lparr>subservices := AList.update svc parent (subservices s)\<rparr>"

text \<open>\<^verbatim>\<open>removeService\<close> awaits twice: once its subservices have gone, and once it has itself.\<close>

definition dropSubservices :: "Scope \<Rightarrow> string \<Rightarrow> Scope" where
  "dropSubservices s svc = s\<lparr>subservices := filter (\<lambda>(_, parent). parent \<noteq> svc) (subservices s)\<rparr>"

definition dropService :: "Scope \<Rightarrow> string \<Rightarrow> Scope" where
  "dropService s svc = s\<lparr>arrays := arrays s @ [filter (\<lambda>u. u \<noteq> svc) (serviceInstances s)]\<rparr>"

definition removeService :: "Scope \<Rightarrow> string \<Rightarrow> Scope" where
  "removeService s svc = dropService (dropSubservices s svc) svc"

definition rearrangeServices :: "Scope \<Rightarrow> string list \<Rightarrow> Scope" where
  "rearrangeServices s rearranged =
     s\<lparr>arrays := arrays s @ [map (\<lambda>svc. the (fst (findServiceInstance s (Some svc)))) rearranged]\<rparr>"

definition setBypass :: "Scope \<Rightarrow> string \<Rightarrow> bool \<Rightarrow> Scope" where
  "setBypass s svc on = s\<lparr>bypassed := (if on then set_add svc (bypassed s) else removeAll svc (bypassed s))\<rparr>"

definition cancelInFlight :: "Scope \<Rightarrow> Scope" where
  "cancelInFlight s = s\<lparr>generation := generation s + 1\<rparr>"

definition beginDispose :: "Scope \<Rightarrow> Scope" where
  "beginDispose s = s\<lparr>disposing := True\<rparr>"

lemma serviceInstances_drop: "serviceInstances (removeService s svc) = filter (\<lambda>u. u \<noteq> svc) (serviceInstances s)"
  by (simp add: removeService_def dropService_def dropSubservices_def serviceInstances_def)

text \<open>The loop of \<^verbatim>\<open>dispose\<close>, undisturbed.\<close>

function removeAllServices :: "Scope \<Rightarrow> Scope" where
  "removeAllServices s =
     (case serviceInstances s of [] \<Rightarrow> s | first # _ \<Rightarrow> removeAllServices (removeService s first))"
  by pat_completeness auto
termination
proof (relation "measure (\<lambda>s. length (serviceInstances s))")
  fix s first rest assume "serviceInstances s = first # rest"
  then show "(removeService s first, s) \<in> measure (\<lambda>s. length (serviceInstances s))"
    by (simp add: serviceInstances_drop le_imp_less_Suc)
qed simp

declare removeAllServices.simps [simp del]

definition dispose :: "Scope \<Rightarrow> Scope" where
  "dispose s = removeAllServices (beginDispose s)"

section \<open>Passes\<close>

datatype pass_at = Calling nat string jsval | Returned jsval

record Pass =
  pass_array :: nat
  pass_generation :: nat
  pass_deferred :: nat
  pass_ctx :: "nat option"
  pass_reports :: bool
  pass_at :: pass_at

text \<open>What leaves the scope through \<^verbatim>\<open>onResult\<close>: the last service, the result, the run.\<close>

type_synonym out = "string option \<times> jsval \<times> nat option"

definition endPass :: "Scope \<Rightarrow> Pass \<Rightarrow> string option \<Rightarrow> jsval \<Rightarrow> pass_at \<times> out list" where
  "endPass s p svc result =
     (if pass_generation p \<noteq> generation s then (Returned JNull, [])
      else
        (Returned result,
         if pass_reports p \<and> \<not> disposing s
            \<and> (case pass_ctx p of None \<Rightarrow> True | Some run \<Rightarrow> deferredRuns s run \<le> pass_deferred p)
         then [(svc, result, pass_ctx p)] else []))"

text \<open>
  The loop of \<^verbatim>\<open>next\<close>, from one await to the next one: it passes over bypassed services, and stops at a
  service it calls or at the end of the pass.  \<open>expired\<close> is \<^verbatim>\<open>runExpired(context)\<close>.
\<close>

fun pass_loop :: "bool \<Rightarrow> Scope \<Rightarrow> Pass \<Rightarrow> nat \<Rightarrow> string list \<Rightarrow> string option \<Rightarrow> jsval \<Rightarrow> Scope \<times> pass_at \<times> out list" where
  "pass_loop expired s p i [] svc result = (s, endPass s p svc result)"
| "pass_loop expired s p i (u # us) svc result =
     (if result = JNull then (s, endPass s p svc result)
      else if expired then (s, Returned JNull, [])
      else if disposing s \<or> pass_generation p \<noteq> generation s then (s, Returned JNull, [])
      else if u \<in> set (bypassed s) then pass_loop expired s p (Suc i) us (Some u) result
      else ((case pass_ctx p of None \<Rightarrow> s | Some run \<Rightarrow> enterContext s u run), Calling i u result, []))"

definition startPass ::
  "bool \<Rightarrow> Scope \<Rightarrow> string option \<Rightarrow> jsval \<Rightarrow> nat option \<Rightarrow> bool \<Rightarrow> bool \<Rightarrow> Scope \<times> Pass \<times> out list" where
  "startPass expired s service params context advanceBeforeProcess reportResult =
     (let p = \<lparr>pass_array = length (arrays s) - 1, pass_generation = generation s,
               pass_deferred = (case context of None \<Rightarrow> 0 | Some run \<Rightarrow> deferredRuns s run),
               pass_ctx = context, pass_reports = reportResult, pass_at = Returned JNull\<rparr>
      in if disposing s then (s, p, [])
         else
           (case findServiceInstance s (Option.bind service told) of
              (_, None) \<Rightarrow> (s, p\<lparr>pass_at := Returned JUndef\<rparr>, [])
            | (svc, Some position) \<Rightarrow>
                let i = (if advanceBeforeProcess then position + 1 else position);
                    (s', place, outs) = pass_loop expired s p i (drop i (serviceInstances s)) svc params
                in (s', p\<lparr>pass_at := place\<rparr>, outs)))"

text \<open>The service a pass is in has answered, or thrown, and the pass goes on.\<close>

definition continuePass :: "bool \<Rightarrow> Scope \<Rightarrow> Pass \<Rightarrow> jsval option \<Rightarrow> Scope \<times> Pass \<times> out list" where
  "continuePass expired s p answer =
     (case pass_at p of
        Returned r \<Rightarrow> (s, p, [])
      | Calling i u params \<Rightarrow>
          let result = (case answer of Some r \<Rightarrow> r | None \<Rightarrow> params);
              s1 = (case pass_ctx p of None \<Rightarrow> s | Some run \<Rightarrow> leaveContext s u run);
              (s2, place, outs) = pass_loop expired s1 p (Suc i) (drop (Suc i) (arrays s1 ! pass_array p)) (Some u) result
          in (s2, p\<lparr>pass_at := place\<rparr>, outs))"

section \<open>Executions\<close>

text \<open>
  A scope with its passes, the calls made of it through \<^verbatim>\<open>callInContext\<close> that have not ended, and what
  happened so far: the call of service \<open>u\<close> with \<open>v\<close> by pass \<open>k\<close> at a time, and what pass \<open>k\<close> reported.
\<close>

record Execution =
  scope :: Scope
  passes :: "Pass list"
  panel_calls :: "(string \<times> nat) list"
  called :: "(nat \<times> string \<times> jsval \<times> rat) list"
  reported :: "(nat \<times> out) list"

definition newExecution :: Execution where
  "newExecution = \<lparr>scope = newScope, passes = [], panel_calls = [], called = [], reported = []\<rparr>"

definition calls_of :: "nat \<Rightarrow> rat \<Rightarrow> Pass \<Rightarrow> (nat \<times> string \<times> jsval \<times> rat) list" where
  "calls_of k now p = (case pass_at p of Calling i u v \<Rightarrow> [(k, u, v, now)] | Returned r \<Rightarrow> [])"

abbreviation expired_at :: "(nat \<Rightarrow> ProcessContext) \<Rightarrow> rat \<Rightarrow> nat option \<Rightarrow> bool" where
  "expired_at runs now ctx \<equiv> runExpired (map_option runs ctx) now"

definition nextPass ::
  "(nat \<Rightarrow> ProcessContext) \<Rightarrow> rat \<Rightarrow> string option \<Rightarrow> jsval \<Rightarrow> nat option \<Rightarrow> bool \<Rightarrow> bool \<Rightarrow> Execution \<Rightarrow> Execution" where
  "nextPass runs now service params context advance report e =
     (let (s, p, outs) = startPass (expired_at runs now context) (scope e) service params context advance report;
          k = length (passes e)
      in e\<lparr>scope := s, passes := passes e @ [p], called := called e @ calls_of k now p,
           reported := reported e @ map (Pair k) outs\<rparr>)"

definition answerPass :: "(nat \<Rightarrow> ProcessContext) \<Rightarrow> rat \<Rightarrow> nat \<Rightarrow> jsval option \<Rightarrow> Execution \<Rightarrow> Execution" where
  "answerPass runs now k answer e =
     (let p = passes e ! k;
          (s, p', outs) = continuePass (expired_at runs now (pass_ctx p)) (scope e) p answer
      in e\<lparr>scope := s, passes := (passes e)[k := p'], called := called e @ calls_of k now p',
           reported := reported e @ map (Pair k) outs\<rparr>)"

text \<open>The edits of a scope that touch neither its passes nor the runs its services are in.\<close>

inductive scope_edit :: "Scope \<Rightarrow> Scope \<Rightarrow> bool" where
  edit_append: "scope_edit s (appendService s svc)"
| edit_subservice: "scope_edit s (appendSubservice s svc parent)"
| edit_dropSub: "scope_edit s (dropSubservices s svc)"
| edit_drop: "scope_edit s (dropService s svc)"
| edit_rearrange: "\<forall>svc \<in> set rearranged. fst (findServiceInstance s (Some svc)) \<noteq> None \<Longrightarrow>
    scope_edit s (rearrangeServices s rearranged)"
| edit_bypass: "scope_edit s (setBypass s svc on)"
| edit_cancel: "scope_edit s (cancelInFlight s)"
| edit_dispose: "scope_edit s (beginDispose s)"
| edit_defer: "scope_edit s (deferRun s run)"
| edit_resume: "scope_edit s (snd (resumeRun s run))"

inductive scope_step :: "(nat \<Rightarrow> ProcessContext) \<Rightarrow> Execution \<Rightarrow> Execution \<Rightarrow> bool" for runs where
  step_next: "scope_step runs e (nextPass runs now service params context advance report e)"
| step_answer: "k < length (passes e) \<Longrightarrow> pass_at (passes e ! k) = Calling i u v \<Longrightarrow>
    scope_step runs e (answerPass runs now k answer e)"
| step_enter: "scope_step runs e
    (e\<lparr>scope := enterContext (scope e) svc run, panel_calls := (svc, run) # panel_calls e\<rparr>)"
| step_leave: "(svc, run) \<in> set (panel_calls e) \<Longrightarrow> scope_step runs e
    (e\<lparr>scope := leaveContext (scope e) svc run, panel_calls := remove1 (svc, run) (panel_calls e)\<rparr>)"
| step_edit: "scope_edit (scope e) s \<Longrightarrow> scope_step runs e (e\<lparr>scope := s\<rparr>)"

abbreviation scope_steps :: "(nat \<Rightarrow> ProcessContext) \<Rightarrow> Execution \<Rightarrow> Execution \<Rightarrow> bool" where
  "scope_steps runs \<equiv> (scope_step runs)\<^sup>*\<^sup>*"

definition scope_reachable :: "(nat \<Rightarrow> ProcessContext) \<Rightarrow> Execution \<Rightarrow> bool" where
  "scope_reachable runs = scope_steps runs newExecution"

section \<open>What one stretch of a pass does\<close>

lemma endPass_cases:
  "endPass s p svc result = (place, outs) \<Longrightarrow>
    \<exists>r. place = Returned r \<and> (outs = [] \<or> \<not> disposing s \<and> pass_generation p = generation s)"
  by (auto simp: endPass_def split: if_splits)

text \<open>A stretch ends with the pass returning, or in a service, at a place in what was left.\<close>

lemma pass_loop_cases:
  assumes "pass_loop expired s p i us svc result = (s', place, outs)"
  obtains (returned) r where "place = Returned r" "s' = s" "outs = [] \<or> \<not> disposing s \<and> pass_generation p = generation s"
  | (calling) j u where "place = Calling j u result" "i \<le> j" "j < i + length us" "outs = []" "\<not> expired"
      "\<not> disposing s" "pass_generation p = generation s"
      "s' = (case pass_ctx p of None \<Rightarrow> s | Some run \<Rightarrow> enterContext s u run)"
proof -
  have "(\<exists>r. place = Returned r \<and> s' = s \<and> (outs = [] \<or> \<not> disposing s \<and> pass_generation p = generation s))
    \<or> (\<exists>j u. place = Calling j u result \<and> i \<le> j \<and> j < i + length us \<and> outs = [] \<and> \<not> expired \<and> \<not> disposing s
        \<and> pass_generation p = generation s \<and> s' = (case pass_ctx p of None \<Rightarrow> s | Some run \<Rightarrow> enterContext s u run))"
    using assms
  proof (induction us arbitrary: i svc)
    case Nil
    then show ?case using endPass_cases [of s p svc result place outs] by auto
  next
    case (Cons u us)
    consider "result = JNull" | "result \<noteq> JNull" "expired \<or> disposing s \<or> pass_generation p \<noteq> generation s"
      | "result \<noteq> JNull" "\<not> expired" "\<not> disposing s" "pass_generation p = generation s" "u \<in> set (bypassed s)"
      | "result \<noteq> JNull" "\<not> expired" "\<not> disposing s" "pass_generation p = generation s" "u \<notin> set (bypassed s)"
      by blast
    then show ?case
    proof cases
      case 1
      then show ?thesis using Cons.prems endPass_cases [of s p svc result place outs] by auto
    next
      case 2
      then show ?thesis using Cons.prems by (auto split: if_splits)
    next
      case 3
      then have "pass_loop expired s p (Suc i) us (Some u) result = (s', place, outs)" using Cons.prems by simp
      from Cons.IH [OF this] show ?thesis
      proof (elim disjE exE conjE)
        fix j u'
        assume "place = Calling j u' result" "Suc i \<le> j" "j < Suc i + length us" "outs = []" "\<not> expired" "\<not> disposing s"
          "pass_generation p = generation s" "s' = (case pass_ctx p of None \<Rightarrow> s | Some run \<Rightarrow> enterContext s u' run)"
        then show ?thesis by (intro disjI2 exI [of _ j] exI [of _ u']) simp
      qed auto
    next
      case 4
      then show ?thesis using Cons.prems by (intro disjI2 exI [of _ i] exI [of _ u]) auto
    qed
  qed
  then show ?thesis using returned calling by blast
qed

text \<open>What a stretch leaves as it was.\<close>

definition same_scope :: "Scope \<Rightarrow> Scope \<Rightarrow> bool" where
  "same_scope s s' =
     (arrays s' = arrays s \<and> generation s' = generation s \<and> disposing s' = disposing s
      \<and> bypassed s' = bypassed s \<and> subservices s' = subservices s \<and> deferredRuns s' = deferredRuns s)"

lemma same_scope_simps [simp]:
  "same_scope s s" "same_scope s (enterContext s' u run) = same_scope s s'" "same_scope s (leaveContext s' u run) = same_scope s s'"
  by (auto simp: same_scope_def enterContext_def leaveContext_def)

text \<open>The runs a pass has a service in.\<close>

definition calling_run :: "string \<Rightarrow> Pass \<Rightarrow> nat list" where
  "calling_run u p =
     (case pass_at p of
        Calling i u' v \<Rightarrow> if u' = u then (case pass_ctx p of Some run \<Rightarrow> [run] | None \<Rightarrow> []) else []
      | Returned r \<Rightarrow> [])"

text \<open>
  The start and the continuation of a pass, each read as one stretch: what it started from is kept,
  a service is entered where it ends in a call, and only an undisturbed pass calls or reports.
\<close>

definition stretch :: "bool \<Rightarrow> Scope \<Rightarrow> Scope \<Rightarrow> Pass \<Rightarrow> out list \<Rightarrow> nat \<Rightarrow> nat \<Rightarrow> bool" where
  "stretch expired s s' p' outs i n =
     (same_scope s s'
      \<and> (\<forall>u. serviceContexts s' u = serviceContexts s u @ calling_run u p')
      \<and> (outs \<noteq> [] \<longrightarrow> \<not> disposing s \<and> pass_generation p' = generation s)
      \<and> (case pass_at p' of
           Calling j u v \<Rightarrow> i \<le> j \<and> j < n \<and> \<not> expired \<and> \<not> disposing s \<and> pass_generation p' = generation s
         | Returned r \<Rightarrow> True))"

lemma pass_loop_stretch:
  assumes "pass_loop expired s p i us svc result = (s', place, outs)" "p' = p\<lparr>pass_at := place\<rparr>"
  shows "stretch expired s s' p' outs i (i + length us)"
  using assms(1)
proof (cases rule: pass_loop_cases)
  case (returned r)
  then show ?thesis using assms(2) by (auto simp: stretch_def calling_run_def)
next
  case (calling j u)
  then show ?thesis using assms(2)
    by (auto simp: stretch_def calling_run_def enterContext_def same_scope_def split: option.splits)
qed

definition started :: "Scope \<Rightarrow> Pass \<Rightarrow> bool" where
  "started s p = (pass_array p = length (arrays s) - 1 \<and> pass_generation p = generation s)"

lemma startPass_stretch:
  assumes "startPass expired s service params context advance report = (s', p', outs)"
  shows "stretch expired s s' p' outs 0 (length (serviceInstances s)) \<and> started s p' \<and> pass_ctx p' = context"
proof -
  have returned: "stretch expired s s p [] 0 n" if "pass_at p = Returned r" for p r n
    using that by (simp add: stretch_def calling_run_def)
  show ?thesis
  proof (cases "disposing s \<or> snd (findServiceInstance s (Option.bind service told)) = None")
    case True
    then show ?thesis
      using assms returned by (auto simp: startPass_def started_def Let_def split: if_splits prod.splits option.splits)
  next
    case False
    then obtain svc position where f: "findServiceInstance s (Option.bind service told) = (svc, Some position)"
      by (cases "findServiceInstance s (Option.bind service told)") auto
    define i where "i = (if advance then position + 1 else position)"
    define p where "p = \<lparr>pass_array = length (arrays s) - 1, pass_generation = generation s,
               pass_deferred = (case context of None \<Rightarrow> 0 | Some run \<Rightarrow> deferredRuns s run),
               pass_ctx = context, pass_reports = report, pass_at = Returned JNull\<rparr>"
    obtain s1 place outs1 where l: "pass_loop expired s p i (drop i (serviceInstances s)) svc params = (s1, place, outs1)"
      by (metis prod_cases3)
    have eq: "s' = s1" "p' = p\<lparr>pass_at := place\<rparr>" "outs = outs1"
      using assms False f l by (simp_all add: startPass_def Let_def i_def p_def)
    have "stretch expired s s1 p' outs i (i + length (drop i (serviceInstances s)))"
      using pass_loop_stretch [OF l eq(2)] eq(3) by simp
    then show ?thesis using eq by (auto simp: stretch_def started_def p_def split: pass_at.splits)
  qed
qed

lemma continuePass_stretch:
  assumes "continuePass expired s p answer = (s', p', outs)" "pass_at p = Calling i u v"
  shows "stretch expired (case pass_ctx p of None \<Rightarrow> s | Some run \<Rightarrow> leaveContext s u run) s' p' outs
      (Suc i) (length (arrays s ! pass_array p))
    \<and> pass_array p' = pass_array p \<and> pass_generation p' = pass_generation p \<and> pass_ctx p' = pass_ctx p"
proof -
  define s1 where "s1 = (case pass_ctx p of None \<Rightarrow> s | Some run \<Rightarrow> leaveContext s u run)"
  have a: "arrays s1 = arrays s" by (simp add: s1_def leaveContext_def split: option.splits)
  define result where "result = (case answer of Some r \<Rightarrow> r | None \<Rightarrow> v)"
  obtain s2 place outs1 where
    l: "pass_loop expired s1 p (Suc i) (drop (Suc i) (arrays s1 ! pass_array p)) (Some u) result = (s2, place, outs1)"
    by (metis prod_cases3)
  have eq: "s' = s2" "p' = p\<lparr>pass_at := place\<rparr>" "outs = outs1"
    using assms l by (simp_all add: continuePass_def Let_def s1_def result_def)
  from pass_loop_stretch [OF l eq(2)] show ?thesis
    unfolding s1_def [symmetric] by (auto simp: stretch_def a eq split: pass_at.splits)
qed

section \<open>What edits leave as it was\<close>

definition grown :: "Scope \<Rightarrow> Scope \<Rightarrow> bool" where
  "grown s s' =
     (length (arrays s) \<le> length (arrays s')
      \<and> (\<forall>i < length (arrays s). length (arrays s ! i) \<le> length (arrays s' ! i)))"

lemma grown_refl [simp]: "grown s s"
  by (simp add: grown_def)

lemma grown_same: "same_scope s s' \<Longrightarrow> grown s s'"
  by (simp add: same_scope_def grown_def)

lemma scope_edit_keeps:
  assumes "scope_edit s s'"
  shows "serviceContexts s' = serviceContexts s \<and> generation s \<le> generation s' \<and> (disposing s \<longrightarrow> disposing s') \<and> grown s s'"
  using assms
proof (cases rule: scope_edit.cases)
  case (edit_append svc)
  have "length (arrays s ! i) \<le> length ((butlast (arrays s) @ [serviceInstances s @ [svc]]) ! i)" if "i < length (arrays s)" for i
  proof (cases "i < length (butlast (arrays s))")
    case False
    then have "i = length (arrays s) - 1" "arrays s \<noteq> []" using that by auto
    then show ?thesis by (simp add: nth_append serviceInstances_def last_conv_nth)
  qed (simp add: nth_append nth_butlast)
  then show ?thesis using edit_append by (simp add: appendService_def grown_def)
qed (auto simp: appendSubservice_def dropSubservices_def dropService_def rearrangeServices_def setBypass_def cancelInFlight_def
    beginDispose_def deferRun_def resumeRun_def grown_def nth_append)

section \<open>Invariants of executions\<close>

abbreviation left :: "Scope \<Rightarrow> Pass \<Rightarrow> string \<Rightarrow> Scope" where
  "left s p u \<equiv> (case pass_ctx p of None \<Rightarrow> s | Some run \<Rightarrow> leaveContext s u run)"

lemma same_scope_left: "same_scope (left s p u) s' = same_scope s s'"
  by (auto simp: same_scope_def leaveContext_def split: option.splits)

lemma left_simps [simp]:
  "disposing (left s p u) = disposing s" "generation (left s p u) = generation s" "arrays (left s p u) = arrays s"
  by (simp_all add: leaveContext_def split: option.splits)

lemma scope_step_obtain:
  assumes "scope_step runs e e'"
  obtains (bgn) now s' p' outs where
      "stretch (expired_at runs now (pass_ctx p')) (scope e) s' p' outs 0 (length (serviceInstances (scope e)))"
      "started (scope e) p'"
      "e' = e\<lparr>scope := s', passes := passes e @ [p'], called := called e @ calls_of (length (passes e)) now p',
               reported := reported e @ map (Pair (length (passes e))) outs\<rparr>"
  | (continues) now k i u v s' p' outs where
      "k < length (passes e)" "pass_at (passes e ! k) = Calling i u v"
      "stretch (expired_at runs now (pass_ctx p')) (left (scope e) (passes e ! k) u) s' p' outs (Suc i)
         (length (arrays (scope e) ! pass_array p'))"
      "pass_array p' = pass_array (passes e ! k)" "pass_generation p' = pass_generation (passes e ! k)"
      "pass_ctx p' = pass_ctx (passes e ! k)"
      "e' = e\<lparr>scope := s', passes := (passes e)[k := p'], called := called e @ calls_of k now p',
               reported := reported e @ map (Pair k) outs\<rparr>"
  | (enters) svc run where
      "e' = e\<lparr>scope := enterContext (scope e) svc run, panel_calls := (svc, run) # panel_calls e\<rparr>"
  | (leaves) svc run where "(svc, run) \<in> set (panel_calls e)"
      "e' = e\<lparr>scope := leaveContext (scope e) svc run, panel_calls := remove1 (svc, run) (panel_calls e)\<rparr>"
  | (edits) s where "scope_edit (scope e) s" "e' = e\<lparr>scope := s\<rparr>"
  using assms
proof (cases rule: scope_step.cases)
  case (step_next now service params ctx advance report)
  obtain s' p' outs where s:
    "startPass (expired_at runs now ctx) (scope e) service params ctx advance report = (s', p', outs)"
    by (metis prod_cases3)
  show ?thesis
    using bgn [of p' now s' outs] startPass_stretch [OF s] step_next s by (simp add: nextPass_def Let_def)
next
  case (step_answer k i u v now answer)
  obtain s' p' outs where s:
    "continuePass (expired_at runs now (pass_ctx (passes e ! k))) (scope e) (passes e ! k) answer = (s', p', outs)"
    by (metis prod_cases3)
  from continuePass_stretch [OF s step_answer(3)] show ?thesis
    using continues [of k i u v p' now s' outs] step_answer s by (simp add: answerPass_def Let_def)
qed (use enters leaves edits in blast)+

subsection \<open>The runs a service is in\<close>

definition contexts_ok :: "Execution \<Rightarrow> bool" where
  "contexts_ok e =
     (\<forall>u. mset (serviceContexts (scope e) u) =
        mset (concat (map (calling_run u) (passes e))) + mset (map snd (filter (\<lambda>c. fst c = u) (panel_calls e))))"

lemma mset_remove_last: "mset (remove_last x xs) = mset xs - {#x#}"
  by (simp add: remove_last_def)

lemma mset_concat_update:
  assumes "k < length xs"
  shows "mset (concat (map f (xs[k := y]))) = mset (concat (map f xs)) - mset (f (xs ! k)) + mset (f y)"
proof -
  have "mset (concat (map f xs)) = mset (concat (map f (take k xs @ xs ! k # drop (Suc k) xs)))"
    using assms by (simp add: id_take_nth_drop [symmetric])
  then show ?thesis using assms by (simp add: upd_conv_take_nth_drop)
qed

lemma mset_swap: "A = B + X \<Longrightarrow> C \<subseteq># B \<Longrightarrow> A - C + D = B - C + D + X" for A :: "'a multiset"
  by (auto simp: mset_subset_eq_exists_conv ac_simps)

lemma mset_left:
  assumes "pass_at p = Calling i u v"
  shows "mset (serviceContexts (left s p u) u') = mset (serviceContexts s u') - mset (calling_run u' p)"
  using assms by (auto simp: calling_run_def leaveContext_def mset_remove_last split: option.splits)

lemma contexts_ok_step:
  assumes "contexts_ok e" "scope_step runs e e'"
  shows "contexts_ok e'"
  using assms(2)
proof (cases rule: scope_step_obtain)
  case (bgn now s' p' outs)
  have "mset (serviceContexts s' u) = mset (serviceContexts (scope e) u) + mset (calling_run u p')" for u
    using bgn(1) by (simp add: stretch_def)
  then show ?thesis using assms(1) bgn(3) by (simp add: contexts_ok_def ac_simps)
next
  case (continues now k i u v s' p' outs)
  have sub: "mset (calling_run u' (passes e ! k)) \<subseteq># mset (concat (map (calling_run u') (passes e)))" for u'
  proof -
    have "mset (concat (map (calling_run u') (passes e)))
        = mset (concat (map (calling_run u') (take k (passes e) @ passes e ! k # drop (Suc k) (passes e))))"
      using continues(1) by (simp add: id_take_nth_drop [symmetric])
    then show ?thesis by simp
  qed
  show ?thesis
    unfolding contexts_ok_def
  proof
    fix u'
    have "mset (serviceContexts s' u') = mset (serviceContexts (left (scope e) (passes e ! k) u) u') + mset (calling_run u' p')"
      using continues(3) by (simp add: stretch_def)
    also have "\<dots> = mset (serviceContexts (scope e) u') - mset (calling_run u' (passes e ! k)) + mset (calling_run u' p')"
      by (simp only: mset_left [OF continues(2)])
    also have "\<dots> = mset (concat (map (calling_run u') (passes e))) - mset (calling_run u' (passes e ! k))
        + mset (calling_run u' p') + mset (map snd (filter (\<lambda>c. fst c = u') (panel_calls e)))"
      using assms(1) by (intro mset_swap [OF _ sub]) (simp add: contexts_ok_def)
    finally show "mset (serviceContexts (scope e') u') =
        mset (concat (map (calling_run u') (passes e'))) + mset (map snd (filter (\<lambda>c. fst c = u') (panel_calls e')))"
      using continues(7) mset_concat_update [OF continues(1), of "calling_run u'" p'] by simp
  qed
next
  case (enters svc run)
  then show ?thesis using assms(1) by (auto simp: contexts_ok_def enterContext_def)
next
  case (leaves svc run)
  have drop: "mset (map snd (filter (\<lambda>c. fst c = u) (remove1 (svc, run) cs)))
      = mset (map snd (filter (\<lambda>c. fst c = u) cs)) - (if u = svc then {#run#} else {#})"
    if "(svc, run) \<in> set cs" for u and cs :: "(string \<times> nat) list"
  proof (cases "u = svc")
    case True
    have "{#(svc, run)#} \<subseteq># {#x \<in># mset cs. fst x = svc#}" using that by simp
    from image_mset_Diff [OF this, of snd] show ?thesis using True by simp
  qed (simp add: filter_remove1)
  have sub: "run \<in># mset (map snd (filter (\<lambda>c. fst c = svc) (panel_calls e)))" using leaves(1) by force
  show ?thesis
    unfolding contexts_ok_def
  proof
    fix u
    have "mset (serviceContexts (scope e') u) = mset (serviceContexts (scope e) u) - (if u = svc then {#run#} else {#})"
      by (simp add: leaves(2) leaveContext_def mset_remove_last)
    also have "\<dots> = mset (concat (map (calling_run u) (passes e)))
        + (mset (map snd (filter (\<lambda>c. fst c = u) (panel_calls e))) - (if u = svc then {#run#} else {#}))"
    proof -
      have "(if u = svc then {#run#} else {#}) \<subseteq># mset (map snd (filter (\<lambda>c. fst c = u) (panel_calls e)))"
        using sub by simp
      from multiset_diff_union_assoc [OF this] show ?thesis
        using assms(1) unfolding contexts_ok_def by metis
    qed
    finally show "mset (serviceContexts (scope e') u) =
        mset (concat (map (calling_run u) (passes e'))) + mset (map snd (filter (\<lambda>c. fst c = u) (panel_calls e')))"
      using drop [OF leaves(1), of u] leaves(2) by simp
  qed
next
  case (edits s)
  then show ?thesis using assms(1) scope_edit_keeps [OF edits(1)] by (simp add: contexts_ok_def)
qed

subsection \<open>Who calls and reports\<close>

definition undisturbed :: "Execution \<Rightarrow> Execution \<Rightarrow> nat \<Rightarrow> bool" where
  "undisturbed e e' k =
     (k < length (passes e') \<and> \<not> disposing (scope e) \<and> pass_generation (passes e' ! k) = generation (scope e))"

lemma calls_of_stretch:
  assumes "stretch expired s s' p' outs i n" "(k', u, v, now') \<in> set (calls_of k now p')"
  shows "k' = k \<and> now' = now \<and> \<not> expired \<and> \<not> disposing s \<and> pass_generation p' = generation s"
  using assms by (auto simp: stretch_def calls_of_def split: pass_at.splits)

lemma step_acts:
  assumes "scope_step runs e e'"
  obtains cs rs where "called e' = called e @ cs" "reported e' = reported e @ rs"
    "\<forall>(k, u, v, now) \<in> set cs. undisturbed e e' k \<and> \<not> expired_at runs now (pass_ctx (passes e' ! k))"
    "\<forall>(k, r) \<in> set rs. undisturbed e e' k"
    "length (passes e) \<le> length (passes e')"
    "\<forall>k < length (passes e). pass_generation (passes e' ! k) = pass_generation (passes e ! k)
       \<and> pass_ctx (passes e' ! k) = pass_ctx (passes e ! k)"
    "\<forall>k < length (passes e'). length (passes e) \<le> k \<longrightarrow> pass_generation (passes e' ! k) = generation (scope e)"
    "generation (scope e) \<le> generation (scope e')" "disposing (scope e) \<longrightarrow> disposing (scope e')"
  using assms
proof (cases rule: scope_step_obtain)
  case (bgn now s' p' outs)
  have u: "undisturbed e e' (length (passes e))" if "\<not> disposing (scope e)"
    using that bgn(2,3) by (simp add: undisturbed_def started_def)
  have s: "generation s' = generation (scope e)" "disposing s' = disposing (scope e)"
    using bgn(1) by (simp_all add: stretch_def same_scope_def)
  show ?thesis
  proof (rule that [of "calls_of (length (passes e)) now p'" "map (Pair (length (passes e))) outs"])
    show "\<forall>(k, u, v, now) \<in> set (calls_of (length (passes e)) now p').
        undisturbed e e' k \<and> \<not> expired_at runs now (pass_ctx (passes e' ! k))"
      using calls_of_stretch [OF bgn(1)] u bgn(3) by fastforce
    show "\<forall>(k, r) \<in> set (map (Pair (length (passes e))) outs). undisturbed e e' k"
      using bgn(1) u by (auto simp: stretch_def)
    show "\<forall>k < length (passes e'). length (passes e) \<le> k \<longrightarrow> pass_generation (passes e' ! k) = generation (scope e)"
      using bgn(2,3) by (auto simp: started_def less_Suc_eq_le le_antisym nth_append)
  qed (simp_all add: bgn(3) nth_append s)
next
  case (continues now k i u v s' p' outs)
  have un: "undisturbed e e' k" if "\<not> disposing (scope e)" "pass_generation p' = generation (scope e)"
    using that continues(1,7) by (simp add: undisturbed_def)
  have s: "generation s' = generation (scope e)" "disposing s' = disposing (scope e)"
    using continues(3) by (simp_all add: stretch_def same_scope_left) (simp_all add: same_scope_def)
  show ?thesis
  proof (rule that [of "calls_of k now p'" "map (Pair k) outs"])
    show "\<forall>(k, u, v, now) \<in> set (calls_of k now p').
        undisturbed e e' k \<and> \<not> expired_at runs now (pass_ctx (passes e' ! k))"
      using calls_of_stretch [OF continues(3)] un continues(1,7) by fastforce
    show "\<forall>(k, r) \<in> set (map (Pair k) outs). undisturbed e e' k"
      using continues(3) un by (auto simp: stretch_def)
    show "\<forall>k' < length (passes e). pass_generation (passes e' ! k') = pass_generation (passes e ! k')
       \<and> pass_ctx (passes e' ! k') = pass_ctx (passes e ! k')"
      using continues(1,5,6,7) by (simp add: nth_list_update)
  qed (simp_all add: continues(7) s)
next
  case (edits s)
  then show ?thesis using that [of "[]" "[]"] scope_edit_keeps [OF edits(1)] by simp
qed (use that [of "[]" "[]"] in \<open>simp_all add: enterContext_def leaveContext_def\<close>)

definition logs_ok :: "(nat \<Rightarrow> ProcessContext) \<Rightarrow> Execution \<Rightarrow> bool" where
  "logs_ok runs e =
     ((\<forall>(k, u, v, now) \<in> set (called e). k < length (passes e) \<and> \<not> expired_at runs now (pass_ctx (passes e ! k)))
      \<and> (\<forall>k < length (passes e). pass_generation (passes e ! k) \<le> generation (scope e)))"

lemma logs_ok_step:
  assumes "logs_ok runs e" "scope_step runs e e'"
  shows "logs_ok runs e'"
  using assms(2)
proof (cases rule: step_acts)
  case (1 cs rs)
  have old: "k < length (passes e') \<and> \<not> expired_at runs now (pass_ctx (passes e' ! k))"
    if "(k, u, v, now) \<in> set (called e)" for k u v now
    using that assms(1) 1(5,6) by (fastforce simp: logs_ok_def)
  have "pass_generation (passes e' ! k) \<le> generation (scope e')" if "k < length (passes e')" for k
    using that assms(1) 1(6,7,8) by (cases "k < length (passes e)") (fastforce simp: logs_ok_def)+
  moreover have "k < length (passes e') \<and> \<not> expired_at runs now (pass_ctx (passes e' ! k))"
    if "(k, u, v, now) \<in> set (called e')" for k u v now
    using that old 1(1,3) by (fastforce simp: undisturbed_def)
  ultimately show ?thesis by (auto simp: logs_ok_def)
qed

lemma reachable_induct [consumes 1, case_names new step]:
  assumes "scope_reachable runs e" "P newExecution"
    and "\<And>e e'. scope_reachable runs e \<Longrightarrow> P e \<Longrightarrow> scope_step runs e e' \<Longrightarrow> P e'"
  shows "P e"
  using assms(1) unfolding scope_reachable_def
proof (induction rule: rtranclp_induct)
  case (step e e')
  then show ?case using assms(3) by (simp add: scope_reachable_def)
qed (rule assms(2))

lemma reachable_contexts: "scope_reachable runs e \<Longrightarrow> contexts_ok e"
proof (induction rule: reachable_induct)
  case new
  show ?case by (simp add: contexts_ok_def newExecution_def newScope_def)
qed (rule contexts_ok_step)

lemma reachable_logs: "scope_reachable runs e \<Longrightarrow> logs_ok runs e"
proof (induction rule: reachable_induct)
  case new
  show ?case by (simp add: logs_ok_def newExecution_def)
qed (rule logs_ok_step)

text \<open>A pass of an earlier generation acts no more.\<close>

lemma stale_pass_silent:
  assumes "scope_steps runs e e'" "k < length (passes e)" "pass_generation (passes e ! k) < generation (scope e)"
  shows "filter (\<lambda>c. fst c = k) (called e') = filter (\<lambda>c. fst c = k) (called e)
    \<and> filter (\<lambda>r. fst r = k) (reported e') = filter (\<lambda>r. fst r = k) (reported e)
    \<and> k < length (passes e') \<and> pass_generation (passes e' ! k) < generation (scope e')"
  using assms(1)
proof (induction rule: rtranclp_induct)
  case (step e1 e2)
  from step.hyps(2) show ?case
  proof (cases rule: step_acts)
    case (1 cs rs)
    have "\<not> undisturbed e1 e2 k" using step.IH 1(6) by (simp add: undisturbed_def)
    then have "filter (\<lambda>c. fst c = k) cs = []" "filter (\<lambda>r. fst r = k) rs = []"
      using 1(3,4) by (force simp: filter_empty_conv)+
    then show ?thesis using step.IH 1 by auto
  qed
qed (use assms(2,3) in simp)

lemma disposing_silent:
  assumes "scope_steps runs e e'" "disposing (scope e)"
  shows "called e' = called e \<and> reported e' = reported e \<and> disposing (scope e')"
  using assms(1)
proof (induction rule: rtranclp_induct)
  case (step e1 e2)
  from step.hyps(2) show ?case
  proof (cases rule: step_acts)
    case (1 cs rs)
    have "cs = []" "rs = []" using step.IH 1(3,4) by (cases cs; cases rs; auto simp: undisturbed_def)+
    then show ?thesis using step.IH 1 by simp
  qed
qed (use assms(2) in simp)

subsection \<open>How often a pass calls\<close>

abbreviation made :: "nat \<Rightarrow> Execution \<Rightarrow> nat" where
  "made k e \<equiv> length (filter (\<lambda>c. fst c = k) (called e))"

definition pass_bounded :: "Scope \<Rightarrow> Pass \<Rightarrow> nat \<Rightarrow> bool" where
  "pass_bounded s p n =
     (pass_array p < length (arrays s)
      \<and> (case pass_at p of
           Calling i u v \<Rightarrow> i < length (arrays s ! pass_array p) \<and> n \<le> Suc i
         | Returned r \<Rightarrow> n \<le> length (arrays s ! pass_array p)))"

definition bounded :: "Execution \<Rightarrow> bool" where
  "bounded e =
     (arrays (scope e) \<noteq> [] \<and> (\<forall>c \<in> set (called e). fst c < length (passes e))
      \<and> (\<forall>k < length (passes e). pass_bounded (scope e) (passes e ! k) (made k e)))"

lemma pass_bounded_grown: "grown s s' \<Longrightarrow> pass_bounded s p n \<Longrightarrow> pass_bounded s' p n"
  by (fastforce simp: pass_bounded_def grown_def split: pass_at.splits)

lemma pass_bounded_le: "pass_bounded s p n \<Longrightarrow> n \<le> length (arrays s ! pass_array p)"
  by (auto simp: pass_bounded_def split: pass_at.splits)

lemma calls_of_other: "k' \<noteq> k \<Longrightarrow> filter (\<lambda>c. fst c = k') (calls_of k now p) = []"
  by (simp add: calls_of_def split: pass_at.splits)

lemma bounded_step:
  assumes "bounded e" "scope_step runs e e'"
  shows "bounded e'"
  using assms(2)
proof (cases rule: scope_step_obtain)
  case (bgn now s' p' outs)
  let ?k = "length (passes e)"
  have same: "same_scope (scope e) s'" using bgn(1) by (simp add: stretch_def)
  have arr: "arrays s' = arrays (scope e)" using same by (simp add: same_scope_def)
  have none: "filter (\<lambda>c. fst c = ?k) (called e) = []" using assms(1) by (auto simp: bounded_def filter_empty_conv)
  have "pass_bounded s' p' (length (filter (\<lambda>c. fst c = ?k) (calls_of ?k now p')))"
    using bgn(1,2) assms(1)
    by (auto simp: pass_bounded_def stretch_def started_def calls_of_def bounded_def arr serviceInstances_def last_conv_nth
        split: pass_at.splits)
  then have new: "pass_bounded (scope e') p' (made ?k e')" using bgn(3) none by simp
  show ?thesis
    unfolding bounded_def
  proof (intro conjI allI impI ballI)
    show "arrays (scope e') \<noteq> []" using assms(1) bgn(3) arr by (simp add: bounded_def)
    show "fst c < length (passes e')" if "c \<in> set (called e')" for c
      using that assms(1) bgn(3) by (auto simp: bounded_def calls_of_def split: pass_at.splits)
    show "pass_bounded (scope e') (passes e' ! k) (made k e')" if "k < length (passes e')" for k
    proof (cases "k = ?k")
      case True
      then show ?thesis using new bgn(3) by simp
    next
      case False
      then have "k < length (passes e)" using that bgn(3) by simp
      then show ?thesis
        using assms(1) bgn(3) False pass_bounded_grown [OF grown_same [OF same]] calls_of_other [OF False]
        by (simp add: bounded_def nth_append)
    qed
  qed
next
  case (continues now k i u v s' p' outs)
  have same: "same_scope (scope e) s'" using continues(3) by (simp add: stretch_def same_scope_left)
  have arr: "arrays s' = arrays (scope e)" using same by (simp add: same_scope_def)
  have "pass_bounded (scope e) (passes e ! k) (made k e)" using assms(1) continues(1) by (simp add: bounded_def)
  then have old: "pass_array (passes e ! k) < length (arrays (scope e))" "i < length (arrays (scope e) ! pass_array p')" "made k e \<le> Suc i"
    using continues(2,4) by (simp_all add: pass_bounded_def)
  have new: "pass_bounded s' p' (made k e + length (filter (\<lambda>c. fst c = k) (calls_of k now p')))"
    using continues(3,4) old by (auto simp: pass_bounded_def stretch_def calls_of_def arr split: pass_at.splits)
  show ?thesis
    unfolding bounded_def
  proof (intro conjI allI impI ballI)
    show "arrays (scope e') \<noteq> []" using assms(1) continues(7) arr by (simp add: bounded_def)
    show "fst c < length (passes e')" if "c \<in> set (called e')" for c
      using that assms(1) continues(1,7) by (auto simp: bounded_def calls_of_def split: pass_at.splits)
    show "pass_bounded (scope e') (passes e' ! k') (made k' e')" if "k' < length (passes e')" for k'
    proof (cases "k' = k")
      case True
      then show ?thesis using new continues(1,7) by simp
    next
      case False
      then show ?thesis
        using assms(1) continues(1,7) that pass_bounded_grown [OF grown_same [OF same]] calls_of_other [OF False]
        by (simp add: bounded_def)
    qed
  qed
next
  case (enters svc run)
  have "grown (scope e) (enterContext (scope e) svc run)" by (simp add: grown_def enterContext_def)
  from pass_bounded_grown [OF this] show ?thesis using assms(1) enters by (simp add: bounded_def enterContext_def)
next
  case (leaves svc run)
  have "grown (scope e) (leaveContext (scope e) svc run)" by (simp add: grown_def leaveContext_def)
  from pass_bounded_grown [OF this] show ?thesis using assms(1) leaves(2) by (simp add: bounded_def leaveContext_def)
next
  case (edits s)
  then have g: "grown (scope e) s" using scope_edit_keeps by blast
  then have "arrays s \<noteq> []" using assms(1) by (auto simp: grown_def bounded_def)
  then show ?thesis using assms(1) edits(2) pass_bounded_grown [OF g] by (simp add: bounded_def)
qed

lemma reachable_bounded: "scope_reachable runs e \<Longrightarrow> bounded e"
proof (induction rule: reachable_induct)
  case new
  show ?case by (simp add: bounded_def newExecution_def newScope_def)
qed (rule bounded_step)

section \<open>What an undisturbed pass computes\<close>

text \<open>The reference: each service in turn, a failing one passed by, and nothing after a \<^verbatim>\<open>null\<close>.\<close>

fun pipeline :: "(string \<Rightarrow> jsval \<Rightarrow> jsval option) \<Rightarrow> string list \<Rightarrow> jsval \<Rightarrow> jsval" where
  "pipeline f [] v = v"
| "pipeline f (u # us) v =
     (if v = JNull then JNull else pipeline f us (case f u v of Some r \<Rightarrow> r | None \<Rightarrow> v))"

text \<open>A pass driven on by services that answer as \<open>f\<close> says, for at most so many answers.\<close>

fun drive :: "nat \<Rightarrow> (string \<Rightarrow> jsval \<Rightarrow> jsval option) \<Rightarrow> Scope \<times> Pass \<times> out list \<Rightarrow> Scope \<times> Pass \<times> out list" where
  "drive 0 f r = r"
| "drive (Suc n) f (s, p, outs) =
     (case pass_at p of
        Returned r \<Rightarrow> (s, p, outs)
      | Calling i u v \<Rightarrow> let (s', p', outs') = continuePass False s p (f u v) in drive n f (s', p', outs @ outs'))"

lemma pipeline_null [simp]: "pipeline f us JNull = JNull"
  by (cases us) simp_all

lemma drive_returned: "pass_at p = Returned r \<Longrightarrow> drive n f (s, p, outs) = (s, p, outs)"
  by (cases n) simp_all

lemma leave_enter: "leaveContext (enterContext s u run) u run = s"
  by (simp add: leaveContext_def enterContext_def remove_last_def)

lemma pass_loop_at [simp]: "pass_loop expired s (p\<lparr>pass_at := place\<rparr>) i us svc v = pass_loop expired s p i us svc v"
proof -
  have "endPass s (p\<lparr>pass_at := place\<rparr>) svc v = endPass s p svc v" for svc v
    by (auto simp: endPass_def split: option.splits)
  then show ?thesis by (induction us arbitrary: i svc) auto
qed

lemma drive_loop:
  assumes "\<not> disposing s" "pass_generation p = generation s" "pass_reports p"
    "case pass_ctx p of None \<Rightarrow> True | Some run \<Rightarrow> deferredRuns s run \<le> pass_deferred p"
    "drop i (arrays s ! pass_array p) = us" "length us \<le> n"
    "pass_loop False s p i us svc v = (s1, place, outs)"
  shows "\<exists>last. drive n f (s1, p\<lparr>pass_at := place\<rparr>, outs) =
    (let r = pipeline f (filter (\<lambda>u. u \<notin> set (bypassed s)) us) v
     in (s, p\<lparr>pass_at := Returned r\<rparr>, [(last, r, pass_ctx p)]))"
  using assms(5-7)
proof (induction us arbitrary: i svc v n s1 place outs)
  case Nil
  then show ?case using assms(1-4) by (auto simp: endPass_def drive_returned Let_def)
next
  case (Cons u us)
  have rest: "drop (Suc i) (arrays s ! pass_array p) = us"
    using Cons.prems(1) by (metis drop_Suc list.sel(3) tl_drop)
  consider "v = JNull" | "v \<noteq> JNull" "u \<in> set (bypassed s)" | "v \<noteq> JNull" "u \<notin> set (bypassed s)" by blast
  then show ?case
  proof cases
    case 1
    then show ?thesis using Cons.prems assms(1-4) by (auto simp: endPass_def drive_returned Let_def)
  next
    case 2
    then have "pass_loop False s p (Suc i) us (Some u) v = (s1, place, outs)"
      using Cons.prems(3) assms(1,2) by simp
    from Cons.IH [OF rest _ this, of n] show ?thesis using Cons.prems(2) 2 by simp
  next
    case 3
    have at: "s1 = (case pass_ctx p of None \<Rightarrow> s | Some run \<Rightarrow> enterContext s u run)" "place = Calling i u v" "outs = []"
      using Cons.prems(3) assms(1,2) 3 by simp_all
    obtain m where n: "n = Suc m" "length us \<le> m" using Cons.prems(2) by (cases n) auto
    define r where "r = (case f u v of Some r \<Rightarrow> r | None \<Rightarrow> v)"
    have left: "(case pass_ctx p of None \<Rightarrow> s1 | Some run \<Rightarrow> leaveContext s1 u run) = s"
      by (simp add: at(1) leave_enter split: option.splits)
    obtain s2 place2 outs2 where l: "pass_loop False s p (Suc i) us (Some u) r = (s2, place2, outs2)"
      by (metis prod_cases3)
    have "arrays s1 = arrays s" by (simp add: at(1) enterContext_def split: option.splits)
    then have "continuePass False s1 (p\<lparr>pass_at := place\<rparr>) (f u v) = (s2, p\<lparr>pass_at := place2\<rparr>, outs2)"
      using l rest by (simp add: continuePass_def at(2) Let_def left flip: r_def)
    then have "drive n f (s1, p\<lparr>pass_at := place\<rparr>, outs) = drive m f (s2, p\<lparr>pass_at := place2\<rparr>, outs2)"
      by (simp add: n(1) at(2,3))
    then show ?thesis using Cons.IH [OF rest n(2) l] 3 by (simp add: r_def)
  qed
qed

section \<open>Properties\<close>

text \<open>
  C5. What a pass computes: left undisturbed, a pass from a service of the scope answers exactly what
  the reference makes of the services from there on that are not bypassed, after at most as many
  answers as there are services; it reports that result once, and leaves the scope as it was.
\<close>

theorem next_computes_pipeline:
  assumes "arrays s \<noteq> []" "\<not> disposing s" "findServiceInstance s (Option.bind service told) = (svc, Some position)"
    and "i = (if advance then position + 1 else position)"
    and "r = pipeline f (filter (\<lambda>u. u \<notin> set (bypassed s)) (drop i (serviceInstances s))) params"
  shows "\<exists>p last. drive (length (serviceInstances s)) f (startPass False s service params ctx advance True)
      = (s, p, [(last, r, ctx)]) \<and> pass_at p = Returned r"
proof -
  define p where "p = \<lparr>pass_array = length (arrays s) - 1, pass_generation = generation s,
             pass_deferred = (case ctx of None \<Rightarrow> 0 | Some run \<Rightarrow> deferredRuns s run),
             pass_ctx = ctx, pass_reports = True, pass_at = Returned JNull\<rparr>"
  have arr: "arrays s ! pass_array p = serviceInstances s" using assms(1) by (simp add: p_def serviceInstances_def last_conv_nth)
  obtain s1 place outs where l: "pass_loop False s p i (drop i (serviceInstances s)) svc params = (s1, place, outs)"
    by (metis prod_cases3)
  have "startPass False s service params ctx advance True = (s1, p\<lparr>pass_at := place\<rparr>, outs)"
    using assms(2,3) l unfolding assms(4) by (simp add: startPass_def Let_def p_def)
  moreover have "\<exists>last. drive (length (serviceInstances s)) f (s1, p\<lparr>pass_at := place\<rparr>, outs) =
      (let r = pipeline f (filter (\<lambda>u. u \<notin> set (bypassed s)) (drop i (serviceInstances s))) params
       in (s, p\<lparr>pass_at := Returned r\<rparr>, [(last, r, pass_ctx p)]))"
    by (rule drive_loop [OF assms(2)]) (use l arr in \<open>auto simp: p_def split: option.splits\<close>)
  moreover have "pass_ctx p = ctx" by (simp add: p_def)
  ultimately show ?thesis unfolding Let_def assms(5) [symmetric] by fastforce
qed

theorem next_computes_pipeline_witness:
  "\<exists>s p last. drive 2 (\<lambda>u v. if u = ''a'' then None else Some (JArr [v]))
      (startPass False (newScope\<lparr>arrays := [[''a'', ''b'']]\<rparr>) None (JBool True) None False True)
    = (s, p, [(last, JArr [JBool True], None)]) \<and> pass_at p = Returned (JArr [JBool True])"
proof -
  let ?s = "newScope\<lparr>arrays := [[''a'', ''b'']]\<rparr>" and ?f = "\<lambda>u v. if u = ''a'' then None else Some (JArr [v])"
  have s: "arrays ?s \<noteq> []" "\<not> disposing ?s" "findServiceInstance ?s (Option.bind None told) = (Some ''a'', Some 0)"
    "JArr [JBool True] = pipeline ?f (filter (\<lambda>u. u \<notin> set (bypassed ?s)) (drop 0 (serviceInstances ?s))) (JBool True)"
    "length (serviceInstances ?s) = 2"
    by (simp_all add: newScope_def findServiceInstance_def serviceInstances_def)
  show ?thesis
    using next_computes_pipeline [OF s(1,2,3) _ s(4), of False None] unfolding s(5) by auto
qed

text \<open>
  C6. A service never speaks in somebody else's run: in every execution, however passes and panel
  calls overlap, the run a service is said to be in is one it is being called in, and every call
  it is in at that moment is in that same run.
\<close>

theorem contextOf_sound:
  assumes "scope_reachable runs e" "contextOf (scope e) u = Some run"
  shows "((\<exists>p \<in> set (passes e). run \<in> set (calling_run u p)) \<or> (u, run) \<in> set (panel_calls e))
    \<and> (\<forall>p \<in> set (passes e). set (calling_run u p) \<subseteq> {run}) \<and> (\<forall>run'. (u, run') \<in> set (panel_calls e) \<longrightarrow> run' = run)"
proof -
  have "set_mset (mset (serviceContexts (scope e) u)) =
      (\<Union>p \<in> set (passes e). set (calling_run u p)) \<union> {r. (u, r) \<in> set (panel_calls e)}"
    using reachable_contexts [OF assms(1)] by (force simp: contexts_ok_def)
  moreover have "set (serviceContexts (scope e) u) = {run}"
    using assms(2) by (auto simp: contextOf_def list_all_iff split: list.splits if_splits)
  ultimately have eq: "(\<Union>p \<in> set (passes e). set (calling_run u p)) \<union> {r. (u, r) \<in> set (panel_calls e)} = {run}" by simp
  then show ?thesis by blast
qed

theorem contextOf_sound_witness:
  "contextOf (scope (newExecution\<lparr>scope := enterContext (scope newExecution) ''s'' 7, panel_calls := [(''s'', 7)]\<rparr>)) ''s'' = Some 7
   \<and> {run'. (''s'', run') \<in> set (panel_calls (newExecution\<lparr>scope := enterContext (scope newExecution) ''s'' 7, panel_calls := [(''s'', 7)]\<rparr>))} \<subseteq> {7}"
proof -
  define e where "e = newExecution\<lparr>scope := enterContext (scope newExecution) ''s'' 7, panel_calls := [(''s'', 7)]\<rparr>"
  have "scope_step (\<lambda>_. boardRun ''r'') newExecution e"
    using step_enter [of "\<lambda>_. boardRun ''r''" newExecution "''s''" 7] by (simp add: e_def newExecution_def)
  then have "scope_reachable (\<lambda>_. boardRun ''r'') e" by (simp add: scope_reachable_def)
  moreover have "contextOf (scope e) ''s'' = Some 7"
    by (simp add: e_def newExecution_def newScope_def contextOf_def enterContext_def)
  ultimately show ?thesis using contextOf_sound [of "\<lambda>_. boardRun ''r''" e "''s''" 7] unfolding e_def by blast
qed

text \<open>
  C7. Cancelling ends every pass there is: whatever happens afterwards, a pass that was running calls
  no further service and reports nothing; and once a scope is being disposed of, no pass does.
\<close>

theorem cancel_and_dispose_silence:
  assumes "scope_reachable runs e"
  shows "(scope_steps runs (e\<lparr>scope := cancelInFlight (scope e)\<rparr>) e' \<longrightarrow>
      (\<forall>k < length (passes e). filter (\<lambda>c. fst c = k) (called e') = filter (\<lambda>c. fst c = k) (called e)
        \<and> filter (\<lambda>r. fst r = k) (reported e') = filter (\<lambda>r. fst r = k) (reported e)))
    \<and> (scope_steps runs (e\<lparr>scope := beginDispose (scope e)\<rparr>) e' \<longrightarrow> called e' = called e \<and> reported e' = reported e)"
proof (intro conjI impI allI)
  fix k assume steps: "scope_steps runs (e\<lparr>scope := cancelInFlight (scope e)\<rparr>) e'" and k: "k < length (passes e)"
  have "pass_generation (passes e ! k) \<le> generation (scope e)"
    using reachable_logs [OF assms] k by (simp add: logs_ok_def)
  with stale_pass_silent [OF steps, of k] k
  show "filter (\<lambda>c. fst c = k) (called e') = filter (\<lambda>c. fst c = k) (called e)"
    and "filter (\<lambda>r. fst r = k) (reported e') = filter (\<lambda>r. fst r = k) (reported e)"
    by (simp_all add: cancelInFlight_def)
next
  assume steps: "scope_steps runs (e\<lparr>scope := beginDispose (scope e)\<rparr>) e'"
  from disposing_silent [OF this] show "called e' = called e" "reported e' = reported e"
    by (simp_all add: beginDispose_def)
qed

theorem cancel_and_dispose_silence_witness:
  "called (nextPass (\<lambda>_. boardRun ''r'') 0 None JNull None False True
      (newExecution\<lparr>scope := beginDispose (scope newExecution)\<rparr>)) = []"
proof -
  let ?runs = "\<lambda>_ :: nat. boardRun ''r''" and ?e = "newExecution\<lparr>scope := beginDispose (scope newExecution)\<rparr>"
  have "scope_reachable ?runs newExecution" by (simp add: scope_reachable_def)
  moreover have "scope_steps ?runs ?e (nextPass ?runs 0 None JNull None False True ?e)"
    by (rule r_into_rtranclp, rule step_next)
  ultimately have "called (nextPass ?runs 0 None JNull None False True ?e) = called newExecution"
    using cancel_and_dispose_silence by blast
  then show ?thesis by (simp add: newExecution_def)
qed

text \<open>
  In every execution a pass calls at most as many services as its array has ever held, each at a
  later place than the one before, and none in a run whose person's authority had expired by then.
\<close>

theorem pass_calls_bounded:
  assumes "scope_reachable runs e" "k < length (passes e)"
  shows "made k e \<le> length (arrays (scope e) ! pass_array (passes e ! k))
    \<and> (\<forall>(k', u, v, now) \<in> set (called e). k' = k \<longrightarrow> \<not> runExpired (map_option runs (pass_ctx (passes e ! k))) now)"
  using reachable_bounded [OF assms(1)] reachable_logs [OF assms(1)] assms(2) pass_bounded_le
  by (fastforce simp: bounded_def logs_ok_def)

theorem pass_calls_bounded_witness:
  "made 0 (nextPass (\<lambda>_. boardRun ''r'') 0 None (JBool True) None False True newExecution) \<le> 0"
proof -
  let ?runs = "\<lambda>_ :: nat. boardRun ''r''"
  let ?e = "nextPass ?runs 0 None (JBool True) None False True newExecution"
  have "scope_reachable ?runs ?e"
    unfolding scope_reachable_def by (rule r_into_rtranclp, rule step_next)
  moreover have "passes ?e \<noteq> [] \<and> arrays (scope ?e) ! pass_array (passes ?e ! 0) = []"
    by (simp add: nextPass_def newExecution_def newScope_def startPass_def findServiceInstance_def serviceInstances_def endPass_def
        runExpired_def)
  ultimately show ?thesis using pass_calls_bounded [of ?runs ?e 0] by simp
qed

end
