(* ===== verification/CallReport.thy ===== *)
theory CallReport
  imports JsJson
begin

text \<open>
  Call reports (\<^verbatim>\<open>hkp-frontend/src/runtime/callReport.ts\<close>): how much of the value a service was called
  with leaves in a report of the call.  The values are documents; bytes and instances of classes,
  which the code counts by their length or as a constant, are outside the model.  The code unit of
  the ellipsis is a parameter, since it is not among those modelled.
\<close>

section \<open>Measuring a value\<close>

definition CALL_REPORT_LIMIT :: nat where
  "CALL_REPORT_LIMIT = 5 * 1024 * 1024"

definition PREVIEW_LENGTH :: nat where
  "PREVIEW_LENGTH = 1024"

text \<open>A budget that is used up is \<open>0\<close>; where the code has a negative one, the answer is the same.\<close>

definition utf8LengthUpTo :: "string \<Rightarrow> nat \<Rightarrow> nat" where
  "utf8LengthUpTo txt budget = (if length txt > budget then length txt else utf8_length txt)"

text \<open>The keys of an object, counted until the budget is passed, and the values pushed so far.\<close>

fun size_fields :: "nat \<Rightarrow> nat \<Rightarrow> obj \<Rightarrow> jsval list \<Rightarrow> nat \<times> jsval list" where
  "size_fields budget counted [] pending = (counted, pending)"
| "size_fields budget counted ((key, v) # es) pending =
     (let counted' = counted + utf8LengthUpTo key (budget - counted) + 4
      in if counted' > budget then (counted', pending) else size_fields budget counted' es (v # pending))"

text \<open>\<open>pending\<close> is the stack, its top first.\<close>

lemma size_fields_pending:
  "sum_list (map size (snd (size_fields budget counted es pending))) + length (snd (size_fields budget counted es pending))
    \<le> sum_list (map size (ovalues es)) + length es + sum_list (map size pending) + length pending"
proof (induction es arbitrary: counted pending)
  case (Cons e es)
  obtain key v where e: "e = (key, v)" by (cases e)
  define counted' where "counted' = counted + utf8LengthUpTo key (budget - counted) + 4"
  show ?case using Cons.IH [of counted' "v # pending"] by (simp add: e Let_def flip: counted'_def)
qed simp

lemma size_list_sum: "size_list size xs = sum_list (map size xs) + length xs" for xs :: "jsval list"
  by (induction xs) auto

lemma size_fields_sum: "size_list (size_prod (\<lambda>_. 0) size) es = sum_list (map size (ovalues es)) + 2 * length es"
  for es :: obj
  by (induction es) auto

function size_loop :: "nat \<Rightarrow> nat \<Rightarrow> jsval list \<Rightarrow> nat" where
  "size_loop budget counted [] = counted"
| "size_loop budget counted (v # pending) =
     (if counted > budget then counted
      else
        (case v of
           JStr s \<Rightarrow> size_loop budget (counted + utf8LengthUpTo s (budget - counted) + 2) pending
         | JNum n \<Rightarrow> size_loop budget (counted + length (show_num n)) pending
         | JBool b \<Rightarrow> size_loop budget (counted + (if b then 4 else 5)) pending
         | JNull \<Rightarrow> size_loop budget (counted + 4) pending
         | JUndef \<Rightarrow> size_loop budget (counted + 4) pending
         | JArr xs \<Rightarrow>
             let counted' = counted + 2 + (length xs - 1)
             in if counted' > budget then counted' else size_loop budget counted' (rev xs @ pending)
         | JObj es \<Rightarrow>
             let (counted', pending') = size_fields budget (counted + 2) es pending
             in size_loop budget counted' pending'))"
  by pat_completeness auto
termination
  apply (relation "measure (\<lambda>(budget, counted, pending). sum_list (map size pending) + length pending)")
  apply (auto simp: size_list_sum rev_map [symmetric] sum_list_rev)
  subgoal for budget counted pending es
    using size_fields_pending [of budget "Suc (Suc counted)" es pending] by (auto simp: size_fields_sum split: prod.splits)
  done

definition sizeUpTo :: "jsval \<Rightarrow> nat \<Rightarrow> nat" where
  "sizeUpTo v budget = size_loop budget 0 [v]"

section \<open>What a report carries\<close>

definition head_of :: "string \<Rightarrow> nat \<Rightarrow> string" where
  "head_of txt n = (if length txt \<le> n then txt else take n txt)"

text \<open>The loop over the parts of a container: a comma between them, and an end where the preview is full.\<close>

fun write_each :: "('a \<Rightarrow> string \<Rightarrow> bool \<times> string) \<Rightarrow> bool \<Rightarrow> 'a list \<Rightarrow> string \<Rightarrow> bool \<times> string" where
  "write_each f first [] out = (True, out)"
| "write_each f first (x # xs) out =
     (let (go, out') = f x (out @ (if first then '''' else '',''))
      in if go then write_each f False xs out' else (False, out'))"

lemma write_each_same: "(\<And>x u. x \<in> set xs \<Longrightarrow> f x u = g x u) \<Longrightarrow> write_each f first xs out = write_each g first xs out"
  by (induction xs arbitrary: first out) (simp_all split: prod.split)

lemma write_each_cong [fundef_cong]:
  "xs = ys \<Longrightarrow> first = first' \<Longrightarrow> out = out' \<Longrightarrow> (\<And>x u. x \<in> set ys \<Longrightarrow> f x u = g x u) \<Longrightarrow>
    write_each f first xs out = write_each g first' ys out'"
  by hypsubst (rule write_each_same)

fun write_item :: "jsval \<Rightarrow> string \<Rightarrow> bool \<times> string" where
  "write_item v out =
     (if length out \<ge> PREVIEW_LENGTH then (False, out)
      else
        (case v of
           JStr s \<Rightarrow>
             let out' = out @ json_quote (head_of s (PREVIEW_LENGTH - length out)) in (length out' < PREVIEW_LENGTH, out')
         | JArr xs \<Rightarrow>
             let (go, out') = write_each (\<lambda>x. write_item x) True xs (out @ ''['')
             in if go then (length (out' @ '']'') < PREVIEW_LENGTH, out' @ '']'') else (False, out')
         | JObj es \<Rightarrow>
             let (go, out') = write_each (\<lambda>(k, x) out. write_item x (out @ json_quote k @ '':'')) True es (out @ ''{'')
             in if go then (length (out' @ ''}'') < PREVIEW_LENGTH, out' @ ''}'') else (False, out')
         | _ \<Rightarrow> (length (out @ json_text v) < PREVIEW_LENGTH, out @ json_text v)))"

declare write_item.simps [simp del]

definition preview :: "char \<Rightarrow> jsval \<Rightarrow> string" where
  "preview ellipsis v =
     (let (complete, out) = write_item v '''' in if complete then out else head_of out PREVIEW_LENGTH @ [ellipsis])"

text \<open>A count as a number of a document.\<close>

fun dec_nat :: "nat \<Rightarrow> nat \<Rightarrow> jsnum" where
  "dec_nat m e = (if m \<noteq> 0 \<and> m mod 10 = 0 then dec_nat (m div 10) (Suc e) else Dec (int m) (int e))"

declare dec_nat.simps [simp del]

definition tooLarge :: "string \<Rightarrow> nat \<Rightarrow> bool \<Rightarrow> string option \<Rightarrow> jsval" where
  "tooLarge kind bytes exact begins =
     JObj [(''__hkpTooLarge'',
       JObj ([(''type'', JStr kind), (''bytes'', JNum (dec_nat bytes 0)), (''exact'', JBool exact)]
         @ (case begins of Some p \<Rightarrow> [(''preview'', JStr p)] | None \<Rightarrow> [])))]"

fun isTooLarge :: "jsval \<Rightarrow> bool" where
  "isTooLarge (JObj es) = (''__hkpTooLarge'' \<in> set (okeys es))"
| "isTooLarge _ = False"

definition reportedValue :: "char \<Rightarrow> jsval \<Rightarrow> nat \<Rightarrow> jsval" where
  "reportedValue ellipsis v limit =
     (case v of
        JStr s \<Rightarrow>
          let bytes = utf8LengthUpTo s limit in
          if bytes > limit then tooLarge ''string'' bytes (length s \<le> limit) (Some (head_of s PREVIEW_LENGTH)) else v
      | JArr _ \<Rightarrow>
          let bytes = sizeUpTo v limit in
          if bytes > limit then tooLarge ''json'' bytes False (Some (preview ellipsis v)) else v
      | JObj _ \<Rightarrow>
          let bytes = sizeUpTo v limit in
          if bytes > limit then tooLarge ''json'' bytes False (Some (preview ellipsis v)) else v
      | _ \<Rightarrow> v)"

text \<open>\<^verbatim>\<open>{ data, ...report }\<close> of the bracket, and what is put back in its place.\<close>

definition outgoingPayload :: "char \<Rightarrow> jsval \<Rightarrow> bool \<Rightarrow> jsval" where
  "outgoingPayload ellipsis payload capture =
     (case payload of
        JObj es \<Rightarrow>
          (case oget es ''__internal'' of
             JObj internal \<Rightarrow>
               let data = oget internal ''data'';
                   report = omit [''data''] internal
               in if oget report ''state'' \<noteq> JStr ''call-process'' \<and> oget report ''state'' \<noteq> JStr ''call-process-finished''
                  then payload
                  else
                    let carried =
                      (if capture then
                         (if js_in ''data'' internal then oput ''data'' (reportedValue ellipsis data CALL_REPORT_LIMIT) report
                          else report)
                       else if oget report ''state'' = JStr ''call-process-finished'' \<and> nullish data
                       then oput ''stopped'' (JBool True) report
                       else report)
                    in JObj (oput ''__internal'' (JObj carried) es)
           | _ \<Rightarrow> payload)
      | _ \<Rightarrow> payload)"

section \<open>The reference: the whole size\<close>

fun json_size :: "jsval \<Rightarrow> nat" where
  "json_size (JStr s) = utf8_length s + 2"
| "json_size (JNum n) = length (show_num n)"
| "json_size (JBool b) = (if b then 4 else 5)"
| "json_size JNull = 4"
| "json_size JUndef = 4"
| "json_size (JArr xs) = 2 + (length xs - 1) + sum_list (map json_size xs)"
| "json_size (JObj es) = 2 + sum_list (map (\<lambda>k. utf8_length k + 4) (okeys es)) + sum_list (map json_size (ovalues es))"

text \<open>A count that is right as far as it goes: equal within the budget, and past it only with the whole.\<close>

definition right_upto :: "nat \<Rightarrow> nat \<Rightarrow> nat \<Rightarrow> bool" where
  "right_upto budget n whole_size = ((n \<le> budget \<longrightarrow> n = whole_size) \<and> (budget < n \<longrightarrow> budget < whole_size))"

lemma right_upto_cases: "right_upto b n w \<longleftrightarrow> n = w \<or> (b < n \<and> b < w)"
  by (auto simp: right_upto_def)

lemma utf8LengthUpTo_right: "right_upto b (n + utf8LengthUpTo s (b - n) + c) (n + utf8_length s + c)" if "n \<le> b"
  using that utf8_length_ge [of s] by (auto simp: right_upto_cases utf8LengthUpTo_def)

lemma right_upto_more: "right_upto b n w \<Longrightarrow> w \<le> w' \<Longrightarrow> b < n \<Longrightarrow> right_upto b n w'"
  by (auto simp: right_upto_def)

lemma size_fields_right:
  assumes "n \<le> b" "size_fields b n es pending = (n', pending')"
  shows "(n' \<le> b \<and> n' = n + sum_list (map (\<lambda>k. utf8_length k + 4) (okeys es)) \<and> pending' = rev (ovalues es) @ pending)
    \<or> (b < n' \<and> b < n + sum_list (map (\<lambda>k. utf8_length k + 4) (okeys es)))"
  using assms
proof (induction es arbitrary: n pending)
  case (Cons e es)
  obtain key v where e: "e = (key, v)" by (cases e)
  define m where "m = n + utf8LengthUpTo key (b - n) + 4"
  have m: "right_upto b m (n + utf8_length key + 4)"
    using utf8LengthUpTo_right [OF Cons.prems(1), of key 4] by (simp add: m_def)
  show ?case
  proof (cases "m > b")
    case True
    then show ?thesis using Cons.prems m by (auto simp: e Let_def right_upto_def simp flip: m_def)
  next
    case False
    then have "size_fields b m es (v # pending) = (n', pending')" using Cons.prems by (simp add: e Let_def flip: m_def)
    from Cons.IH [OF _ this] False m show ?thesis by (auto simp: e right_upto_def)
  qed
qed simp

lemma size_loop_stop [simp]: "b < n \<Longrightarrow> size_loop b n pending = n"
  by (cases pending) simp_all

lemma size_loop_right:
  "n \<le> b \<Longrightarrow> right_upto b (size_loop b n pending) (n + sum_list (map json_size pending))"
proof (induction b n pending rule: size_loop.induct)
  case (1 b n)
  then show ?case by (simp add: right_upto_def)
next
  case (2 b n v pending)
  have leaf: "right_upto b (size_loop b m pending) (n + json_size v + sum_list (map json_size pending))"
    if "right_upto b m (n + json_size v)" "m \<le> b \<Longrightarrow> right_upto b (size_loop b m pending) (m + sum_list (map json_size pending))"
    for m
    using that by (cases "m \<le> b") (auto simp: right_upto_def)
  note n = 2(8)
  have nb: "\<not> n > b" using n by simp
  show ?case
  proof (cases v)
    case (JStr s)
    then show ?thesis
      using leaf [of "n + utf8LengthUpTo s (b - n) + 2"] 2(5) [OF nb JStr] utf8LengthUpTo_right [OF n, of s 2] nb
      by (simp add: ac_simps)
  next
    case (JNum m)
    then show ?thesis using leaf [of "n + length (show_num m)"] 2(4) [OF nb JNum] nb by (simp add: right_upto_def ac_simps)
  next
    case (JBool x)
    then show ?thesis
      using leaf [of "n + (if x then 4 else 5)"] 2(3) [OF nb JBool] nb by (simp add: right_upto_def ac_simps split: if_splits)
  next
    case JNull
    then show ?thesis using leaf [of "n + 4"] 2(2) [OF nb JNull] nb by (simp add: right_upto_def ac_simps)
  next
    case JUndef
    then show ?thesis using leaf [of "n + 4"] 2(1) [OF nb JUndef] nb by (simp add: right_upto_def ac_simps)
  next
    case (JArr xs)
    define m where "m = n + 2 + (length xs - 1)"
    show ?thesis
    proof (cases "m > b")
      case True
      then show ?thesis using JArr nb by (simp add: Let_def right_upto_def flip: m_def) (simp add: m_def)
    next
      case False
      have "right_upto b (size_loop b m (rev xs @ pending)) (m + sum_list (map json_size (rev xs @ pending)))"
        using 2(6) [OF nb JArr m_def False] False by simp
      then show ?thesis
        using JArr nb False by (simp add: Let_def rev_map [symmetric] sum_list_rev m_def ac_simps)
    qed
  next
    case (JObj es)
    obtain m pending' where f: "size_fields b (n + 2) es pending = (m, pending')" by fastforce
    show ?thesis
    proof (cases "n + 2 \<le> b")
      case True
      from size_fields_right [OF True f] show ?thesis
      proof
        assume *: "m \<le> b \<and> m = n + 2 + sum_list (map (\<lambda>k. utf8_length k + 4) (okeys es)) \<and> pending' = rev (ovalues es) @ pending"
        then have "right_upto b (size_loop b m pending') (m + sum_list (map json_size pending'))"
          using 2(7) [OF nb JObj] f by simp
        then show ?thesis using * JObj nb f by (simp add: rev_map [symmetric] sum_list_rev ac_simps)
      next
        assume "b < m \<and> b < n + 2 + sum_list (map (\<lambda>k. utf8_length k + 4) (okeys es))"
        then show ?thesis using JObj nb f by (simp add: right_upto_def)
      qed
    next
      case False
      have "n + 2 \<le> m" using f
      proof (induction es arbitrary: pending)
        case Nil
        then show ?case by simp
      next
        case (Cons e es)
        then show ?case by (cases e) (use False in \<open>auto simp: Let_def split: if_splits\<close>)
      qed
      then show ?thesis using False JObj nb f by (simp add: right_upto_def)
    qed
  qed
qed

text \<open>A preview that is whole ends below the limit.\<close>

lemma write_item_short: "write_item v out = (True, out') \<Longrightarrow> length out' < PREVIEW_LENGTH"
  by (subst (asm) write_item.simps) (auto simp: Let_def split: if_splits jsval.splits prod.splits)

lemma preview_length: "length (preview ellipsis v) \<le> PREVIEW_LENGTH + 1"
  using write_item_short [of v "[]"] by (auto simp: preview_def head_of_def split: prod.splits if_splits)

lemma sizeUpTo_right: "right_upto b (sizeUpTo v b) (json_size v)"
  using size_loop_right [of 0 b "[v]"] by (simp add: sizeUpTo_def)

section \<open>Properties\<close>

text \<open>
  Measuring with a budget agrees with measuring all of it: the loop ends on every value, says that
  a value is past the budget exactly when the whole of it is, and within the budget counts it exactly.
\<close>

theorem sizeUpTo_exact:
  "(budget < sizeUpTo v budget \<longleftrightarrow> budget < json_size v)
    \<and> (sizeUpTo v budget = json_size v \<or> budget < sizeUpTo v budget)"
  using sizeUpTo_right [of budget v] by (auto simp: right_upto_def not_le)

text \<open>
  A report never carries more of a text, a list or an object than the limit: one that is larger is
  replaced by a description that begins with at most 1025 characters of it, and nothing else is.
\<close>

theorem reportedValue_bounded:
  assumes "v = JStr s \<and> n = utf8_length s \<or> (v = JArr xs \<or> v = JObj es) \<and> n = json_size v"
  shows "(n \<le> limit \<longrightarrow> reportedValue ellipsis v limit = v)
    \<and> (limit < n \<longrightarrow> (\<exists>kind bytes exact begins. reportedValue ellipsis v limit = tooLarge kind bytes exact (Some begins)
         \<and> limit < bytes \<and> length begins \<le> PREVIEW_LENGTH + 1))"
proof -
  have utf8: "limit < utf8LengthUpTo s limit \<longleftrightarrow> limit < utf8_length s"
    using utf8_length_ge [of s] by (auto simp: utf8LengthUpTo_def)
  have h: "length (head_of s PREVIEW_LENGTH) \<le> PREVIEW_LENGTH + 1" by (simp add: head_of_def)
  have z: "limit < sizeUpTo v limit \<longleftrightarrow> limit < json_size v" using sizeUpTo_right [of limit v] by (auto simp: right_upto_def not_le)
  from assms show ?thesis
  proof (elim disjE conjE)
    assume v: "v = JStr s" "n = utf8_length s"
    have r: "reportedValue ellipsis v limit =
        (if limit < utf8_length s
         then tooLarge ''string'' (utf8LengthUpTo s limit) (length s \<le> limit) (Some (head_of s PREVIEW_LENGTH)) else v)"
      by (simp add: reportedValue_def v(1) Let_def utf8)
    show ?thesis unfolding r v(2) using utf8 h by auto
  next
    assume v: "v = JArr xs" "n = json_size v"
    have r: "reportedValue ellipsis v limit =
        (if limit < json_size v then tooLarge ''json'' (sizeUpTo v limit) False (Some (preview ellipsis v)) else v)"
      using z by (simp add: reportedValue_def v(1) Let_def del: json_size.simps)
    show ?thesis unfolding r v(2) using z preview_length [of ellipsis v] by auto
  next
    assume v: "v = JObj es" "n = json_size v"
    have r: "reportedValue ellipsis v limit =
        (if limit < json_size v then tooLarge ''json'' (sizeUpTo v limit) False (Some (preview ellipsis v)) else v)"
      using z by (simp add: reportedValue_def v(1) Let_def del: json_size.simps)
    show ?thesis unfolding r v(2) using z preview_length [of ellipsis v] by auto
  qed
qed

theorem reportedValue_bounded_witness:
  "reportedValue (CHR ''.'') (JArr [JStr ''abc'', JNull]) 12 = JArr [JStr ''abc'', JNull]"
  using reportedValue_bounded [of "JArr [JStr ''abc'', JNull]" "[]" "json_size (JArr [JStr ''abc'', JNull])" "[JStr ''abc'', JNull]" "[]" 12 "CHR ''.''"]
  by (simp add: utf8_length_def)

text \<open>
  Outside Capture mode a call report says nothing of the value: two reports of one call that differ
  in the value alone leave as one and the same message, as long as both calls passed something on or
  both passed nothing on.
\<close>

theorem outgoingPayload_private:
  assumes "oget es ''__internal'' = JObj internal" "oget es' ''__internal'' = JObj internal'"
    and "omit [''data''] internal = omit [''data''] internal'" "omit [''__internal''] es = omit [''__internal''] es'"
    and "okeys es = okeys es'" "distinct (okeys es)"
    and "oget internal ''state'' \<in> {JStr ''call-process'', JStr ''call-process-finished''}"
    and "nullish (oget internal ''data'') = nullish (oget internal' ''data'')"
  shows "outgoingPayload ellipsis (JObj es) False = outgoingPayload ellipsis (JObj es') False"
proof -
  have put: "oput k v xs = oput k v ys"
    if "omit [k] xs = omit [k] ys" "okeys xs = okeys ys" "distinct (okeys xs)" "k \<in> set (okeys xs)"
    for k and v :: jsval and xs ys
    using that
  proof (induction xs arbitrary: ys)
    case (Cons x xs)
    obtain k1 v1 where x: "x = (k1, v1)" by (cases x)
    obtain v2 ys' where y: "ys = (k1, v2) # ys'" using Cons.prems(2) x by (cases ys) auto
    show ?case
    proof (cases "k = k1")
      case True
      have same: "omit [k] zs = zs" if "k \<notin> set (okeys zs)" for zs :: "(string \<times> jsval) list"
        using that by (force simp: omit_def filter_id_conv)
      have "k \<notin> set (okeys xs)" "okeys xs = okeys ys'" using Cons.prems(2,3) x y True by simp_all
      moreover have "omit [k] xs = omit [k] ys'" using Cons.prems(1) x y True by (simp add: omit_def)
      ultimately have "xs = ys'" using same [of xs] same [of ys'] by simp
      then show ?thesis using x y True by simp
    next
      case False
      then have "oput k v xs = oput k v ys'" using Cons x y by (simp add: omit_def)
      moreover have "v1 = v2" using Cons.prems(1) x y False by (simp add: omit_def)
      ultimately show ?thesis using x y False Cons.prems by auto
    qed
  qed simp
  have state: "oget (omit [''data''] internal) ''state'' \<in> {JStr ''call-process'', JStr ''call-process-finished''}"
    using assms(7) by simp
  have key: "''__internal'' \<in> set (okeys es)"
    using assms(1) oget_mem [of es "''__internal''"] by force
  show ?thesis
    using state assms(8) put [OF assms(4,5,6) key]
    by (simp add: outgoingPayload_def assms(1,2) Let_def flip: assms(3)) auto
qed

theorem outgoingPayload_private_witness:
  "outgoingPayload (CHR ''.'') (JObj [(''__internal'', JObj [(''state'', JStr ''call-process''), (''data'', JStr ''secret'')])]) False
   = outgoingPayload (CHR ''.'') (JObj [(''__internal'', JObj [(''state'', JStr ''call-process''), (''data'', JBool True)])]) False"
  by (rule outgoingPayload_private
      [where internal = "[(''state'', JStr ''call-process''), (''data'', JStr ''secret'')]"
         and internal' = "[(''state'', JStr ''call-process''), (''data'', JBool True)]"])
    (simp_all add: nullish_def omit_def)

end
