(* ===== verification/Hold.thy ===== *)
theory Hold
  imports Slots JsJson
begin

text \<open>
  Sample-and-hold (\<^verbatim>\<open>hkp-frontend/src/runtime/browser/services/Hold.ts\<close>): a service that keeps a
  value between runs, in a cell of its own or in a slot it shares with other Holds.  The store of the
  scope is passed in and out, absent where the runtime provides none; a value is a document (bytes,
  which the code also takes, are held like any other value and only reported otherwise).
\<close>

section \<open>State\<close>

datatype HoldOp = HoldRead | HoldWrite

record HoldState =
  hold_property :: string
  hold_slot :: string
  hold_op :: HoldOp
  hold_value :: jsval
  hold_own :: jsval
  hold_reads :: nat
  hold_writes :: nat

definition freshHold :: HoldState where
  "freshHold = \<lparr>hold_property = [], hold_slot = [], hold_op = HoldRead, hold_value = JUndef,
     hold_own = JNull, hold_reads = 0, hold_writes = 0\<rparr>"

section \<open>What is held\<close>

definition cellOf :: "SlotStore \<Rightarrow> string \<Rightarrow> jsval" where
  "cellOf s name = (case slotGet s name of Some v \<Rightarrow> v | None \<Rightarrow> JUndef)"

definition holdGet :: "HoldState \<Rightarrow> SlotStore option \<Rightarrow> jsval" where
  "holdGet h store =
     (if hold_slot h = [] then hold_own h
      else or_else (case store of Some s \<Rightarrow> cellOf s (hold_slot h) | None \<Rightarrow> hold_own h) JNull)"

definition holdPut :: "HoldState \<Rightarrow> SlotStore option \<Rightarrow> jsval \<Rightarrow> HoldState \<times> SlotStore option" where
  "holdPut h store v =
     (case (if hold_slot h = [] then None else store) of
        Some s \<Rightarrow> (h, Some (slotSet s (hold_slot h) v))
      | None \<Rightarrow> (h\<lparr>hold_own := v\<rparr>, store))"

definition forget :: "HoldState \<Rightarrow> SlotStore option \<Rightarrow> HoldState \<times> SlotStore option" where
  "forget h store =
     (h\<lparr>hold_own := JNull, hold_reads := 0, hold_writes := 0\<rparr>,
      if hold_slot h = [] then store else map_option (\<lambda>s. slotSet s (hold_slot h) JNull) store)"

section \<open>What is told\<close>

fun op_text :: "HoldOp \<Rightarrow> string" where
  "op_text HoldRead = ''read''"
| "op_text HoldWrite = ''write''"

definition arrangement :: "HoldState \<Rightarrow> obj" where
  "arrangement h =
     (if hold_slot h = [] then [(''property'', JStr (hold_property h))]
      else if hold_op h = HoldWrite \<and> hold_value h \<noteq> JUndef then
        [(''slot'', JStr (hold_slot h)), (''op'', JStr (op_text (hold_op h))), (''value'', hold_value h)]
      else [(''slot'', JStr (hold_slot h)), (''op'', JStr (op_text (hold_op h)))])"

fun js_typeof :: "jsval \<Rightarrow> string" where
  "js_typeof JUndef = ''undefined''"
| "js_typeof (JBool b) = ''boolean''"
| "js_typeof (JNum n) = ''number''"
| "js_typeof (JStr s) = ''string''"
| "js_typeof v = ''object''"

definition describeHeld :: "jsval \<Rightarrow> string" where
  "describeHeld v = (case v of JArr xs \<Rightarrow> ''array of '' @ show_nat (length xs) | _ \<Rightarrow> js_typeof v)"

definition REPORTABLE_LIMIT :: nat where
  "REPORTABLE_LIMIT = 2048"

definition reportable :: "jsval \<Rightarrow> jsval" where
  "reportable v =
     (if v = JUndef then JNull
      else
        let n = length (json_text v)
        in if n > REPORTABLE_LIMIT then JStr (''['' @ describeHeld v @ '', '' @ show_nat n @ '' characters]'')
           else written_down v)"

record HoldReport =
  rep_arrangement :: obj
  rep_held :: jsval
  rep_readCount :: nat
  rep_writeCount :: nat

definition holdReport :: "HoldState \<Rightarrow> SlotStore option \<Rightarrow> HoldReport" where
  "holdReport h store =
     \<lparr>rep_arrangement = arrangement h, rep_held = reportable (holdGet h store),
      rep_readCount = hold_reads h, rep_writeCount = hold_writes h\<rparr>"

section \<open>Configuring\<close>

definition setProperty :: "obj \<Rightarrow> HoldState \<times> SlotStore option \<Rightarrow> HoldState \<times> SlotStore option" where
  "setProperty config w =
     (case oget config ''property'' of
        JStr p \<Rightarrow>
          (let (h, store) = (if p \<noteq> hold_property (fst w) then forget (fst w) (snd w) else w)
           in (h\<lparr>hold_property := p\<rparr>, store))
      | _ \<Rightarrow> w)"

definition setSlot :: "obj \<Rightarrow> HoldState \<times> SlotStore option \<Rightarrow> HoldState \<times> SlotStore option" where
  "setSlot config w =
     (case oget config ''slot'' of
        JStr s \<Rightarrow>
          (let h = (if s \<noteq> hold_slot (fst w)
                    then (fst w)\<lparr>hold_own := JNull, hold_reads := 0, hold_writes := 0\<rparr> else fst w)
           in (h\<lparr>hold_slot := s\<rparr>, snd w))
      | _ \<Rightarrow> w)"

definition setOp :: "obj \<Rightarrow> HoldState \<times> SlotStore option \<Rightarrow> HoldState \<times> SlotStore option" where
  "setOp config w =
     (if oget config ''op'' = JStr ''read'' then ((fst w)\<lparr>hold_op := HoldRead\<rparr>, snd w)
      else if oget config ''op'' = JStr ''write'' then ((fst w)\<lparr>hold_op := HoldWrite\<rparr>, snd w)
      else w)"

definition setValue :: "obj \<Rightarrow> HoldState \<times> SlotStore option \<Rightarrow> HoldState \<times> SlotStore option" where
  "setValue config w =
     (let v = oget config ''value'' in
      if v \<noteq> JUndef \<and> hold_slot (fst w) \<noteq> [] \<and> hold_op (fst w) = HoldWrite then
        (let (h, store) = holdPut ((fst w)\<lparr>hold_value := v\<rparr>) (snd w) v
         in (h\<lparr>hold_writes := hold_writes h + 1\<rparr>, store))
      else w)"

definition holdConfigure :: "HoldState \<Rightarrow> SlotStore option \<Rightarrow> obj \<Rightarrow> HoldState \<times> SlotStore option" where
  "holdConfigure h store config =
     (let w = setValue config (setOp config (setSlot config (setProperty config (h, store))))
      in if oget config ''action'' = JStr ''clear'' then forget (fst w) (snd w) else w)"

section \<open>Running\<close>

text \<open>A property named like a member every object inherits is outside the model.\<close>

definition carriedValue :: "jsval \<Rightarrow> string \<Rightarrow> jsval" where
  "carriedValue input property = field input property"

definition useSlot :: "HoldState \<Rightarrow> SlotStore option \<Rightarrow> jsval \<Rightarrow> jsval \<times> HoldState \<times> SlotStore option" where
  "useSlot h store input =
     (if hold_op h = HoldWrite then
        (let (h1, store1) = holdPut h store input
         in (input, h1\<lparr>hold_writes := hold_writes h1 + 1\<rparr>, store1))
      else
        (let h1 = h\<lparr>hold_reads := hold_reads h + 1\<rparr>
         in (or_else (holdGet h1 store) JNull, h1, store)))"

definition holdProcess :: "HoldState \<Rightarrow> SlotStore option \<Rightarrow> jsval \<Rightarrow> jsval \<times> HoldState \<times> SlotStore option" where
  "holdProcess h store input =
     (if hold_slot h \<noteq> [] then useSlot h store input
      else if hold_property h = [] then (input, h, store)
      else
        let incoming = carriedValue input (hold_property h);
            (h1, store1) =
              (if \<not> nullish incoming
               then let (h1, store1) = holdPut h store incoming in (h1\<lparr>hold_writes := hold_writes h1 + 1\<rparr>, store1)
               else (h\<lparr>hold_reads := hold_reads h + 1\<rparr>, store));
            held = holdGet h1 store1
        in (if held = JNull then JNull else JObj [(hold_property h, held)], h1, store1))"

definition holdDestroy :: "HoldState \<Rightarrow> HoldState" where
  "holdDestroy h = h\<lparr>hold_own := JNull, hold_reads := 0, hold_writes := 0\<rparr>"

section \<open>The specification: one register per slot\<close>

text \<open>
  Several Holds of one scope, called in any order: call \<open>(k, input)\<close> is a call of the \<open>k\<close>-th.  The
  abstract machine has a register for each slot; a writing end stores its input and passes it on, a
  reading end answers what is stored.
\<close>

fun holds_run :: "HoldState list \<Rightarrow> SlotStore option \<Rightarrow> (nat \<times> jsval) list \<Rightarrow> jsval list" where
  "holds_run hs store [] = []"
| "holds_run hs store ((k, input) # calls) =
     (let (out, h, store') = holdProcess (hs ! k) store input in out # holds_run (hs[k := h]) store' calls)"

fun registers_run :: "(string \<times> HoldOp) list \<Rightarrow> (string \<Rightarrow> jsval) \<Rightarrow> (nat \<times> jsval) list \<Rightarrow> jsval list" where
  "registers_run ends reg [] = []"
| "registers_run ends reg ((k, input) # calls) =
     (case ends ! k of
        (slot, HoldWrite) \<Rightarrow> input # registers_run ends (reg(slot := input)) calls
      | (slot, HoldRead) \<Rightarrow> or_else (reg slot) JNull # registers_run ends reg calls)"

text \<open>A Hold on a property alone: what it emits for a run of inputs.\<close>

fun hold_outputs :: "HoldState \<Rightarrow> SlotStore option \<Rightarrow> jsval list \<Rightarrow> jsval list" where
  "hold_outputs h store [] = []"
| "hold_outputs h store (x # xs) =
     (let (out, h', store') = holdProcess h store x in out # hold_outputs h' store' xs)"

text \<open>The last value carried so far, where none is carried the one held before.\<close>

fun latest :: "string \<Rightarrow> jsval \<Rightarrow> jsval list \<Rightarrow> jsval" where
  "latest p v [] = v"
| "latest p v (x # xs) = latest p (if nullish (field x p) then v else field x p) xs"

section \<open>Facts\<close>

lemma or_else_idem [simp]: "or_else (or_else v JNull) JNull = or_else v JNull"
  by (simp add: or_else_def)

lemma cellOf_slotSet: "cellOf (slotSet s n v) m = (if m = n then v else cellOf s m)"
  by (simp add: cellOf_def slots.get_put)

lemma useSlot_write:
  "hold_slot h \<noteq> [] \<Longrightarrow> hold_op h = HoldWrite \<Longrightarrow>
    holdProcess h (Some s) input = (input, h\<lparr>hold_writes := hold_writes h + 1\<rparr>, Some (slotSet s (hold_slot h) input))"
  by (simp add: holdProcess_def useSlot_def holdPut_def)

lemma useSlot_read:
  "hold_slot h \<noteq> [] \<Longrightarrow> hold_op h = HoldRead \<Longrightarrow>
    holdProcess h (Some s) input = (or_else (cellOf s (hold_slot h)) JNull, h\<lparr>hold_reads := hold_reads h + 1\<rparr>, Some s)"
  by (simp add: holdProcess_def useSlot_def holdGet_def)

lemma ends_update:
  "k < length hs \<Longrightarrow> hold_slot h = hold_slot (hs ! k) \<Longrightarrow> hold_op h = hold_op (hs ! k) \<Longrightarrow>
    map (\<lambda>h. (hold_slot h, hold_op h)) (hs[k := h]) = map (\<lambda>h. (hold_slot h, hold_op h)) hs"
  by (rule nth_equalityI) (auto simp: nth_list_update)

lemmas configure_defs = holdConfigure_def setProperty_def setSlot_def setOp_def setValue_def

lemma forget_fresh: "forget freshHold store = (freshHold, store)"
  by (simp add: forget_def freshHold_def)

lemma configure_property: "holdConfigure freshHold store [(''property'', JStr p)] = (freshHold\<lparr>hold_property := p\<rparr>, store)"
  by (simp add: configure_defs forget_def freshHold_def)

lemma configure_slot:
  "holdConfigure freshHold store [(''slot'', JStr n), (''op'', JStr (op_text act))]
    = (freshHold\<lparr>hold_slot := n, hold_op := act\<rparr>, store)"
  by (cases act) (simp_all add: configure_defs freshHold_def)

lemma configure_value:
  assumes "holdConfigure freshHold store [(''slot'', JStr n), (''op'', JStr (op_text HoldWrite)), (''value'', v)] = (h', store')"
    and "n \<noteq> []" "v \<noteq> JUndef"
  shows "hold_slot h' = n \<and> hold_op h' = HoldWrite \<and> hold_value h' = v \<and> holdGet h' store' = or_else v JNull"
proof -
  let ?h = "freshHold\<lparr>hold_slot := n, hold_op := HoldWrite, hold_value := v\<rparr>"
  have "(h', store') = (let (h, store) = holdPut ?h store v in (h\<lparr>hold_writes := hold_writes h + 1\<rparr>, store))"
    using assms by (simp add: configure_defs freshHold_def)
  then show ?thesis
    using assms(2) by (cases store) (simp_all add: holdPut_def holdGet_def cellOf_slotSet)
qed

section \<open>Properties\<close>

text \<open>
  C40. Holds on slots of one store are ends of shared registers: over any calls in any order, each
  Hold answers what the specification does, a write its input unchanged and a read the last value
  written to its slot by any of them, or null where nothing was.
\<close>

theorem holds_refine_registers:
  assumes "\<forall>h \<in> set hs. hold_slot h \<noteq> []" "\<forall>(k, input) \<in> set calls. k < length hs"
  shows "holds_run hs (Some s) calls = registers_run (map (\<lambda>h. (hold_slot h, hold_op h)) hs) (cellOf s) calls"
  using assms
proof (induction calls arbitrary: hs s)
  case (Cons c calls)
  obtain k input where c: "c = (k, input)" by (cases c)
  have k: "k < length hs" "hold_slot (hs ! k) \<noteq> []" using Cons.prems by (simp_all add: c)
  have rest: "holds_run (hs[k := h]) (Some s') calls = registers_run (map (\<lambda>h. (hold_slot h, hold_op h)) hs) (cellOf s') calls"
    if "hold_slot h = hold_slot (hs ! k)" "hold_op h = hold_op (hs ! k)" for h s'
  proof -
    have "\<forall>h' \<in> set (hs[k := h]). hold_slot h' \<noteq> []"
      using Cons.prems(1) k that set_update_subset_insert [of hs k h] by (metis insert_iff subsetD)
    then show ?thesis using Cons.IH [of "hs[k := h]" s'] Cons.prems(2) ends_update [OF k(1) that] by simp
  qed
  show ?case
  proof (cases "hold_op (hs ! k)")
    case HoldWrite
    have "cellOf (slotSet s (hold_slot (hs ! k)) input) = (cellOf s)(hold_slot (hs ! k) := input)"
      by (simp add: cellOf_slotSet fun_eq_iff)
    then show ?thesis using k rest [of "(hs ! k)\<lparr>hold_writes := hold_writes (hs ! k) + 1\<rparr>"]
      by (simp add: c useSlot_write [OF k(2) HoldWrite] HoldWrite)
  next
    case HoldRead
    then show ?thesis using k rest [of "(hs ! k)\<lparr>hold_reads := hold_reads (hs ! k) + 1\<rparr>" s]
      by (simp add: c useSlot_read [OF k(2) HoldRead])
  qed
qed simp

theorem holds_refine_registers_witness:
  "holds_run [freshHold\<lparr>hold_slot := ''a'', hold_op := HoldWrite\<rparr>, freshHold\<lparr>hold_slot := ''a''\<rparr>] (Some createSlotStore)
     [(1, JNull), (0, JStr ''x''), (1, JNull)] = [JNull, JStr ''x'', JStr ''x'']"
proof -
  let ?hs = "[freshHold\<lparr>hold_slot := ''a'', hold_op := HoldWrite\<rparr>, freshHold\<lparr>hold_slot := ''a''\<rparr>]"
  let ?calls = "[(1, JNull), (0, JStr ''x''), (1, JNull)]"
  have "\<forall>h \<in> set ?hs. hold_slot h \<noteq> []" "\<forall>(k, input) \<in> set ?calls. k < length ?hs" by (simp_all add: freshHold_def)
  from holds_refine_registers [OF this, of createSlotStore] show ?thesis
    by (simp add: freshHold_def cellOf_def slotGet_def createSlotStore_def or_else_def nullish_def)
qed

text \<open>
  A Hold on a property samples and holds: for every run of inputs, each answer carries, under
  that property, the last value of it that any input so far carried, and nothing is passed on while
  there is none.
\<close>

theorem hold_samples:
  assumes "hold_slot h = []" "hold_property h = p" "p \<noteq> []" "hold_own h \<noteq> JUndef"
  shows "hold_outputs h store xs =
    map (\<lambda>i. let v = latest p (hold_own h) (take (Suc i) xs) in if v = JNull then JNull else JObj [(p, v)]) [0..<length xs]"
  using assms
proof (induction xs arbitrary: h)
  case (Cons x xs)
  define h' where "h' = (if nullish (field x p) then h\<lparr>hold_reads := hold_reads h + 1\<rparr>
      else h\<lparr>hold_own := field x p, hold_writes := hold_writes h + 1\<rparr>)"
  define v where "v = (if nullish (field x p) then hold_own h else field x p)"
  have p: "holdProcess h store x = (if v = JNull then JNull else JObj [(p, v)], h', store)"
    using Cons.prems by (simp add: holdProcess_def carriedValue_def holdPut_def holdGet_def h'_def v_def Let_def nullish_def)
  have h': "hold_slot h' = []" "hold_property h' = p" "hold_own h' = v" "v \<noteq> JUndef"
    using Cons.prems by (simp_all add: h'_def v_def nullish_def)
  have "[0..<length (x # xs)] = 0 # map Suc [0..<length xs]" by (simp add: upt_conv_Cons map_Suc_upt del: upt_Suc)
  then show ?case
    using Cons.IH [of h'] Cons.prems(3) h' by (simp add: p v_def [symmetric] o_def Let_def)
qed simp

theorem hold_samples_witness:
  "hold_outputs (freshHold\<lparr>hold_property := ''t''\<rparr>) None [JNull, JObj [(''t'', JBool True)], JNull]
    = [JNull, JObj [(''t'', JBool True)], JObj [(''t'', JBool True)]]"
  using hold_samples [of "freshHold\<lparr>hold_property := ''t''\<rparr>" "''t''" None "[JNull, JObj [(''t'', JBool True)], JNull]"]
  by (simp add: freshHold_def nullish_def upt_rec)

text \<open>
  A board that keeps what a Hold reports as its configuration gets the same Hold back: the
  arrangement of a fresh Hold configured with it is the one it was taken from, with or without a
  store, and its slot then holds the value again.
\<close>

theorem holdConfigure_arrangement:
  "arrangement (fst (holdConfigure freshHold store (arrangement h))) = arrangement h
   \<and> (hold_slot h \<noteq> [] \<and> hold_op h = HoldWrite \<and> \<not> nullish (hold_value h)
       \<longrightarrow> holdGet (fst (holdConfigure freshHold store (arrangement h))) (snd (holdConfigure freshHold store (arrangement h))) = hold_value h)"
proof (cases "hold_slot h = []")
  case True
  then have a: "arrangement h = [(''property'', JStr (hold_property h))]" by (simp add: arrangement_def)
  show ?thesis using True unfolding a configure_property by (simp add: arrangement_def freshHold_def)
next
  case slot: False
  show ?thesis
  proof (cases "hold_op h = HoldWrite \<and> hold_value h \<noteq> JUndef")
    case True
    then have a: "arrangement h = [(''slot'', JStr (hold_slot h)), (''op'', JStr (op_text HoldWrite)), (''value'', hold_value h)]"
      using slot by (simp add: arrangement_def)
    obtain h' store' where c: "holdConfigure freshHold store (arrangement h) = (h', store')" by fastforce
    then show ?thesis using configure_value [OF c [unfolded a]] slot True a
      by (auto simp: arrangement_def or_else_def)
  next
    case False
    then have a: "arrangement h = [(''slot'', JStr (hold_slot h)), (''op'', JStr (op_text (hold_op h)))]"
      using slot by (auto simp: arrangement_def)
    show ?thesis using slot False unfolding a configure_slot by (auto simp: arrangement_def freshHold_def nullish_def)
  qed
qed

theorem holdConfigure_arrangement_witness:
  "holdGet (fst (holdConfigure freshHold None (arrangement (freshHold\<lparr>hold_slot := ''a'', hold_op := HoldWrite, hold_value := JStr ''v''\<rparr>))))
     (snd (holdConfigure freshHold None (arrangement (freshHold\<lparr>hold_slot := ''a'', hold_op := HoldWrite, hold_value := JStr ''v''\<rparr>))))
   = JStr ''v''"
  using holdConfigure_arrangement [of None "freshHold\<lparr>hold_slot := ''a'', hold_op := HoldWrite, hold_value := JStr ''v''\<rparr>"]
  by (simp add: nullish_def)

text \<open>
  Moving a Hold from a slot to a property empties the slot for everyone else: the property is
  read first, and changing it forgets what is held while the slot is still the old one.
\<close>

theorem holdConfigure_empties_slot:
  assumes "hold_slot h = n" "n \<noteq> []" "p \<noteq> hold_property h"
  shows "slotGet (the (snd (holdConfigure h (Some s) [(''property'', JStr p), (''slot'', JStr [])]))) n = Some JNull"
  using assms
  by (simp add: holdConfigure_def setProperty_def setSlot_def setOp_def setValue_def forget_def slots.get_put)

theorem holdConfigure_empties_slot_witness:
  "slotGet (the (snd (holdConfigure (freshHold\<lparr>hold_slot := ''a''\<rparr>) (Some (slotSet createSlotStore ''a'' (JStr ''v'')))
      [(''property'', JStr ''p''), (''slot'', JStr [])]))) ''a'' = Some JNull"
  by (rule holdConfigure_empties_slot) (simp_all add: freshHold_def)

end
