(* ===== verification/Timeline.thy ===== *)
theory Timeline
  imports JsValue Complex_Main "HOL-Library.Product_Lexorder"
begin

text \<open>
  Which of a timeline's actions are due in a stretch of time
  (\<^verbatim>\<open>hkp-frontend/src/runtime/browser/services/timeline-core.ts\<close>).  Positions are exact numbers: what
  rounding does to positions that are no multiples of a power of two is not modelled.
\<close>

section \<open>Actions and extents\<close>

record TimelineAction =
  act_at :: rat
  act_data :: jsval

record Extent =
  ext_length :: rat
  ext_loop :: bool
  ext_loopStart :: "rat option"
  ext_loopEnd :: "rat option"

definition loopRange :: "Extent \<Rightarrow> (rat \<times> rat) option" where
  "loopRange e =
     (if \<not> ext_loop e then None
      else
        let start = max 0 (case ext_loopStart e of Some s \<Rightarrow> s | None \<Rightarrow> 0);
            end0 = (case ext_loopEnd e of Some t \<Rightarrow> if t > 0 then t else ext_length e | None \<Rightarrow> ext_length e);
            end1 = (if ext_length e > 0 then min end0 (ext_length e) else end0)
        in if end1 > start then Some (start, end1) else None)"

definition inWindow :: "rat \<Rightarrow> rat \<Rightarrow> bool \<Rightarrow> rat \<Rightarrow> bool" where
  "inWindow t0 t1 includeFrom pos = ((if includeFrom then pos \<ge> t0 else pos > t0) \<and> pos \<le> t1)"

text \<open>The positions at which one action is due.\<close>

definition duePositions :: "rat \<Rightarrow> rat \<Rightarrow> Extent \<Rightarrow> bool \<Rightarrow> rat \<Rightarrow> rat list" where
  "duePositions t0 t1 e includeFrom pos_at =
     (if pos_at < 0 then []
      else
        (case loopRange e of
           None \<Rightarrow>
             if ext_length e > 0 \<and> pos_at > ext_length e then []
             else filter (inWindow t0 t1 includeFrom) [pos_at]
         | Some (start, stop) \<Rightarrow>
             if pos_at < start then filter (inWindow t0 t1 includeFrom) [pos_at]
             else if pos_at \<ge> stop then []
             else
               let span = stop - start;
                   first = max 0 \<lfloor>(t0 - pos_at) / span\<rfloor>;
                   final = \<lfloor>(t1 - pos_at) / span\<rfloor>
               in filter (inWindow t0 t1 includeFrom) (map (\<lambda>pass. pos_at + of_int pass * span) [first..final])))"

text \<open>An entry of \<^verbatim>\<open>due\<close>: the position, the index of the action, its data.\<close>

definition dueIn :: "TimelineAction list \<Rightarrow> rat \<Rightarrow> rat \<Rightarrow> Extent \<Rightarrow> bool \<Rightarrow> (rat \<times> nat \<times> jsval) list" where
  "dueIn actions t0 t1 e includeFrom =
     (if t1 < t0 then []
      else
        sort_key (\<lambda>(pos, index, data). (pos, index))
          (concat (map (\<lambda>(index, a). map (\<lambda>pos. (pos, index, act_data a)) (duePositions t0 t1 e includeFrom (act_at a)))
            (enumerate 0 actions))))"

definition dueActions :: "TimelineAction list \<Rightarrow> rat \<Rightarrow> rat \<Rightarrow> Extent \<Rightarrow> bool \<Rightarrow> jsval list" where
  "dueActions actions t0 t1 e includeFrom =
     map (\<lambda>(pos, index, data). if data = JUndef then JNull else data) (dueIn actions t0 t1 e includeFrom)"

definition withoutDue :: "TimelineAction list \<Rightarrow> rat \<Rightarrow> rat \<Rightarrow> Extent \<Rightarrow> bool \<Rightarrow> TimelineAction list" where
  "withoutDue actions t0 t1 e includeFrom =
     (let due = map (\<lambda>(pos, index, data). index) (dueIn actions t0 t1 e includeFrom)
      in if due = [] then actions
         else map snd (filter (\<lambda>(index, a). index \<notin> set due) (enumerate 0 actions)))"

definition insertAction :: "TimelineAction list \<Rightarrow> TimelineAction \<Rightarrow> TimelineAction list" where
  "insertAction actions a =
     (case find_index (\<lambda>b. act_at b > act_at a) actions of
        None \<Rightarrow> actions @ [a]
      | Some before \<Rightarrow> take before actions @ [a] @ drop before actions)"

definition wrap :: "rat \<Rightarrow> Extent \<Rightarrow> rat" where
  "wrap pos e =
     (case loopRange e of
        None \<Rightarrow> pos
      | Some (start, stop) \<Rightarrow>
          if pos < stop then pos
          else
            let span = stop - start; into = pos - start
            in start + into - of_int \<lfloor>into / span\<rfloor> * span)"

section \<open>The specification: when an action fires\<close>

text \<open>On an unwrapped timeline: once, or once in every pass of the loop it is in.\<close>

definition fires :: "Extent \<Rightarrow> rat \<Rightarrow> rat \<Rightarrow> bool" where
  "fires e pos_at pos =
     (0 \<le> pos_at
      \<and> (case loopRange e of
           None \<Rightarrow> (ext_length e \<le> 0 \<or> pos_at \<le> ext_length e) \<and> pos = pos_at
         | Some (start, stop) \<Rightarrow>
             if pos_at < start then pos = pos_at
             else pos_at < stop \<and> (\<exists>pass :: nat. pos = pos_at + of_nat pass * (stop - start))))"

lemma loopRange_bounds: "loopRange e = Some (start, stop) \<Longrightarrow> 0 \<le> start \<and> start < stop"
  by (auto simp: loopRange_def Let_def split: if_splits)

text \<open>The passes enumerated are those in which the action can be in the window.\<close>

lemma pass_in_range:
  fixes span :: rat
  assumes "0 < span" "t0 \<le> pos_at + of_nat k * span" "pos_at + of_nat k * span \<le> t1"
  shows "int k \<in> set [max 0 \<lfloor>(t0 - pos_at) / span\<rfloor>..\<lfloor>(t1 - pos_at) / span\<rfloor>]"
proof -
  have "(t0 - pos_at) / span \<le> of_nat k" "of_nat k \<le> (t1 - pos_at) / span"
    using assms by (simp_all add: field_simps)
  then have "\<lfloor>(t0 - pos_at) / span\<rfloor> \<le> int k" "int k \<le> \<lfloor>(t1 - pos_at) / span\<rfloor>"
    by (metis floor_mono floor_of_nat, simp add: le_floor_iff)
  then show ?thesis by simp
qed

lemma duePositions_set:
  "set (duePositions t0 t1 e includeFrom pos_at) = {pos. fires e pos_at pos \<and> inWindow t0 t1 includeFrom pos}"
proof (cases "loopRange e")
  case None
  then show ?thesis by (auto simp: duePositions_def fires_def)
next
  case (Some r)
  obtain start stop where r: "r = (start, stop)" by (cases r)
  have b: "start < stop" using loopRange_bounds Some r by blast
  show ?thesis
  proof (cases "0 \<le> pos_at \<and> start \<le> pos_at \<and> pos_at < stop")
    case True
    let ?passes = "[max 0 \<lfloor>(t0 - pos_at) / (stop - start)\<rfloor>..\<lfloor>(t1 - pos_at) / (stop - start)\<rfloor>]"
    have "set (duePositions t0 t1 e includeFrom pos_at)
        = {pos. \<exists>pass \<in> set ?passes. pos = pos_at + of_int pass * (stop - start) \<and> inWindow t0 t1 includeFrom pos}"
      using True by (auto simp: duePositions_def Some r Let_def)
    moreover have "(\<exists>pass \<in> set ?passes. pos = pos_at + of_int pass * (stop - start) \<and> inWindow t0 t1 includeFrom pos)
        \<longleftrightarrow> (\<exists>pass :: nat. pos = pos_at + of_nat pass * (stop - start)) \<and> inWindow t0 t1 includeFrom pos" for pos
    proof
      assume "\<exists>pass \<in> set ?passes. pos = pos_at + of_int pass * (stop - start) \<and> inWindow t0 t1 includeFrom pos"
      then obtain pass where p: "pass \<in> set ?passes" "pos = pos_at + of_int pass * (stop - start)" "inWindow t0 t1 includeFrom pos"
        by blast
      then have "of_int pass = (of_nat (nat pass) :: rat)" by simp
      then show "(\<exists>pass :: nat. pos = pos_at + of_nat pass * (stop - start)) \<and> inWindow t0 t1 includeFrom pos"
        using p by metis
    next
      assume "(\<exists>pass :: nat. pos = pos_at + of_nat pass * (stop - start)) \<and> inWindow t0 t1 includeFrom pos"
      then obtain k :: nat where k: "pos = pos_at + of_nat k * (stop - start)" "inWindow t0 t1 includeFrom pos" by blast
      have "int k \<in> set ?passes"
        by (rule pass_in_range) (use b k in \<open>auto simp: inWindow_def split: if_splits\<close>)
      then show "\<exists>pass \<in> set ?passes. pos = pos_at + of_int pass * (stop - start) \<and> inWindow t0 t1 includeFrom pos"
        using k by (intro bexI [of _ "int k"]) simp_all
    qed
    ultimately show ?thesis using True by (simp add: fires_def Some r)
  next
    case False
    then show ?thesis by (auto simp: duePositions_def fires_def Some r Let_def)
  qed
qed

lemma duePositions_distinct: "distinct (duePositions t0 t1 e includeFrom pos_at)"
proof -
  have "distinct (map (\<lambda>pass. pos_at + of_int pass * (stop - start)) is)"
    if "start < stop" "distinct is" for start stop :: rat and "is" :: "int list"
    using that by (simp add: distinct_map inj_on_def)
  then show ?thesis
    using loopRange_bounds by (auto simp: duePositions_def Let_def split: option.splits)
qed

lemma set_enumerate_0: "set (enumerate 0 xs) = {(i, xs ! i) | i. i < length xs}"
  by (auto simp: in_set_enumerate_eq)

lemma dueIn_set:
  "set (dueIn actions t0 t1 e includeFrom) =
     {(pos, index, act_data (actions ! index)) | pos index.
        t0 \<le> t1 \<and> index < length actions \<and> fires e (act_at (actions ! index)) pos \<and> inWindow t0 t1 includeFrom pos}"
  by (auto simp: dueIn_def set_enumerate_0 duePositions_set)

lemma dueIn_distinct: "distinct (map (\<lambda>(pos, index, data). (pos, index)) (dueIn actions t0 t1 e includeFrom))"
proof -
  let ?key = "\<lambda>(pos :: rat, index :: nat, data :: jsval). (pos, index)"
  let ?f = "\<lambda>(index, a). map (\<lambda>pos. (pos, index, act_data a)) (duePositions t0 t1 e includeFrom (act_at a))"
  have "distinct (map ?key (concat (map ?f (enumerate n as))))
      \<and> (\<forall>x \<in> set (concat (map ?f (enumerate n as))). n \<le> fst (snd x))" for n as
  proof (induction as arbitrary: n)
    case (Cons a as)
    have d: "distinct (map (\<lambda>pos. (pos, n)) (duePositions t0 t1 e includeFrom (act_at a)))"
      using duePositions_distinct by (simp add: distinct_map inj_on_def)
    show ?case using Cons [of "Suc n"] d by (fastforce simp: o_def)
  qed simp
  then have "distinct (map ?key (concat (map ?f (enumerate 0 actions))))" by blast
  then show ?thesis
    unfolding dueIn_def by (auto simp: distinct_map simp del: distinct_concat_iff)
qed

lemma dueIn_sorted: "sorted (map (\<lambda>(pos, index, data). (pos, index)) (dueIn actions t0 t1 e includeFrom))"
  by (simp add: dueIn_def)

abbreviation due_key :: "rat \<times> nat \<times> jsval \<Rightarrow> rat \<times> nat" where
  "due_key \<equiv> \<lambda>(pos, index, data). (pos, index)"

lemma due_unique:
  assumes "set xs = set ys" "sorted (map due_key xs)" "sorted (map due_key ys)" "distinct (map due_key xs)" "distinct (map due_key ys)"
    and "\<And>pos index data. (pos, index, data) \<in> set xs \<Longrightarrow> data = g index"
  shows "xs = ys"
proof (rule map_sorted_distinct_set_unique [of due_key])
  show "inj_on due_key (set xs \<union> set ys)" using assms(1) assms(6) by (auto simp: inj_on_def) metis
qed (use assms in auto)

lemma insertAction_sorted:
  assumes "sorted (map act_at actions)"
  shows "sorted (map act_at (insertAction actions a))"
proof (cases "find_index (\<lambda>b. act_at b > act_at a) actions")
  case None
  then have "\<forall>b \<in> set actions. act_at b \<le> act_at a" by (auto simp: find_index_None not_less)
  then show ?thesis using assms None by (auto simp: insertAction_def sorted_append)
next
  case (Some i)
  then have i: "i < length actions" "act_at (actions ! i) > act_at a" "\<forall>j < i. act_at (actions ! j) \<le> act_at a"
    using find_index_Some [OF Some] by (auto simp: not_less)
  have "act_at b \<le> act_at a" if "b \<in> set (take i actions)" for b
    using that i by (auto simp: in_set_conv_nth)
  moreover have "act_at a \<le> act_at b" if b: "b \<in> set (drop i actions)" for b
  proof -
    obtain j where j: "j < length (drop i actions)" "drop i actions ! j = b" using b unfolding in_set_conv_nth by blast
    then have "b = actions ! (i + j)" "i + j < length actions" by (simp_all add: nth_drop less_diff_conv add.commute)
    then have "act_at (actions ! i) \<le> act_at b" using assms i(1) by (simp add: sorted_iff_nth_mono)
    then show ?thesis using i(2) by simp
  qed
  moreover have "sorted (map act_at (take i actions))" "sorted (map act_at (drop i actions))"
    using assms by (simp_all add: take_map [symmetric] drop_map [symmetric] sorted_wrt_take sorted_wrt_drop)
  moreover have "act_at b \<le> act_at c" if "b \<in> set (take i actions)" "c \<in> set (drop i actions)" for b c
    using that calculation(1,2) by fastforce
  ultimately show ?thesis by (auto simp: insertAction_def Some sorted_append)
qed

section \<open>Properties\<close>

text \<open>
  However time is cut into stretches, the same actions fire in the same order: what is due in a
  stretch is what is due up to any moment of it, followed by what is due after that moment, on
  timelines that loop and timelines that do not.
\<close>

theorem dueIn_split:
  assumes "t0 \<le> t1" "t1 \<le> t2"
  shows "dueIn actions t0 t2 e includeFrom = dueIn actions t0 t1 e includeFrom @ dueIn actions t1 t2 e False"
proof (rule due_unique [where g = "\<lambda>index. act_data (actions ! index)"])
  show "set (dueIn actions t0 t2 e includeFrom) = set (dueIn actions t0 t1 e includeFrom @ dueIn actions t1 t2 e False)"
    using assms by (fastforce simp: dueIn_set inWindow_def)
  show "distinct (map due_key (dueIn actions t0 t1 e includeFrom @ dueIn actions t1 t2 e False))"
    using dueIn_distinct [of actions t0 t1 e includeFrom] dueIn_distinct [of actions t1 t2 e False]
    by (auto simp: dueIn_set inWindow_def)
  show "sorted (map due_key (dueIn actions t0 t1 e includeFrom @ dueIn actions t1 t2 e False))"
    using dueIn_sorted [of actions t0 t1 e includeFrom] dueIn_sorted [of actions t1 t2 e False]
    by (auto simp: dueIn_set inWindow_def sorted_append less_eq_prod_def)
qed (auto simp: dueIn_set dueIn_sorted dueIn_distinct)

definition example_loop :: Extent where
  "example_loop = \<lparr>ext_length = 4, ext_loop = True, ext_loopStart = None, ext_loopEnd = None\<rparr>"

theorem dueIn_split_witness:
  "dueIn [\<lparr>act_at = 1, act_data = JNull\<rparr>] 0 9 example_loop False
    = dueIn [\<lparr>act_at = 1, act_data = JNull\<rparr>] 0 4 example_loop False @ dueIn [\<lparr>act_at = 1, act_data = JNull\<rparr>] 4 9 example_loop False"
  by (rule dueIn_split) simp_all

text \<open>
  A looping timeline keeps firing: an action inside the loop is due at least once in every stretch of
  time as long as the loop that ends after the action's place, and each time it is due it is due
  at a whole number of passes after it.
\<close>

theorem dueIn_every_pass:
  assumes "loopRange e = Some (start, stop)" "index < length actions"
    and "start \<le> act_at (actions ! index)" "act_at (actions ! index) < stop" "act_at (actions ! index) \<le> t1"
    and "stop - start \<le> t1 - t0"
  shows "\<exists>pass :: nat. (act_at (actions ! index) + of_nat pass * (stop - start), index, act_data (actions ! index))
    \<in> set (dueIn actions t0 t1 e includeFrom)"
proof -
  define x where "x = act_at (actions ! index)"
  define k where "k = nat \<lfloor>(t1 - x) / (stop - start)\<rfloor>"
  have b: "0 \<le> start" "start < stop" using loopRange_bounds [OF assms(1)] by simp_all
  have pos: "0 \<le> \<lfloor>(t1 - x) / (stop - start)\<rfloor>" using assms(5) b by (simp add: x_def zero_le_floor)
  then have k: "of_nat k = (of_int \<lfloor>(t1 - x) / (stop - start)\<rfloor> :: rat)" by (simp add: k_def)
  have "of_nat k \<le> (t1 - x) / (stop - start)" "(t1 - x) / (stop - start) < of_nat k + 1"
    unfolding k using floor_correct [of "(t1 - x) / (stop - start)"] by simp_all
  then have le: "x + of_nat k * (stop - start) \<le> t1" and gt: "t1 - x < of_nat k * (stop - start) + (stop - start)"
    using b by (simp_all add: field_simps)
  have "inWindow t0 t1 includeFrom (x + of_nat k * (stop - start))"
    using le gt assms(6) by (auto simp: inWindow_def)
  moreover have "fires e x (x + of_nat k * (stop - start))"
    using assms(1,3,4) b by (auto simp: fires_def x_def)
  moreover have "t0 \<le> t1" using assms(6) b by simp
  ultimately show ?thesis using assms(2) by (auto simp: dueIn_set x_def)
qed

theorem dueIn_every_pass_witness:
  "\<exists>pass :: nat. (1 + of_nat pass * 4, 0, JNull) \<in> set (dueIn [\<lparr>act_at = 1, act_data = JNull\<rparr>] 6 10 example_loop False)"
  using dueIn_every_pass [of example_loop 0 4 0 "[\<lparr>act_at = 1, act_data = JNull\<rparr>]" 10 6 False]
  by (simp add: loopRange_def example_loop_def Let_def)

text \<open>
  Clearing what time passes over leaves nothing due there and everything else in its place: what is
  left is the actions in their order less those that were due.
\<close>

theorem withoutDue_clears:
  "dueIn (withoutDue actions t0 t1 e includeFrom) t0 t1 e includeFrom = []
    \<and> withoutDue actions t0 t1 e includeFrom =
        map snd (filter (\<lambda>(index, a). \<not> (t0 \<le> t1 \<and> (\<exists>pos. fires e (act_at a) pos \<and> inWindow t0 t1 includeFrom pos)))
          (enumerate 0 actions))"
proof -
  let ?due = "\<lambda>a. t0 \<le> t1 \<and> (\<exists>pos. fires e (act_at a) pos \<and> inWindow t0 t1 includeFrom pos)"
  have mem: "index \<in> set (map (\<lambda>(pos, index, data). index) (dueIn actions t0 t1 e includeFrom)) \<longleftrightarrow> ?due a"
    if "(index, a) \<in> set (enumerate 0 actions)" for index a
    using that by (force simp: dueIn_set set_enumerate_0)
  have eq: "withoutDue actions t0 t1 e includeFrom = map snd (filter (\<lambda>(index, a). \<not> ?due a) (enumerate 0 actions))"
  proof (cases "map (\<lambda>(pos, index, data). index) (dueIn actions t0 t1 e includeFrom) = []")
    case True
    then have "\<not> ?due a" if "(index, a) \<in> set (enumerate 0 actions)" for index a using mem [OF that] by (metis empty_iff empty_set)
    then have "filter (\<lambda>(index, a). \<not> ?due a) (enumerate 0 actions) = enumerate 0 actions" by (auto intro!: filter_True)
    then show ?thesis using True by (simp add: withoutDue_def Let_def)
  next
    case False
    have "filter (\<lambda>(index, a). index \<notin> set (map (\<lambda>(pos, index, data). index) (dueIn actions t0 t1 e includeFrom))) (enumerate 0 actions)
        = filter (\<lambda>(index, a). \<not> ?due a) (enumerate 0 actions)"
      by (rule filter_cong) (use mem in \<open>auto simp del: set_map\<close>)
    then show ?thesis using False unfolding withoutDue_def Let_def by (simp only: if_False)
  qed
  have "\<not> ?due a" if "a \<in> set (withoutDue actions t0 t1 e includeFrom)" for a
    using that unfolding eq by auto
  then have "set (dueIn (withoutDue actions t0 t1 e includeFrom) t0 t1 e includeFrom) = {}"
    unfolding dueIn_set using nth_mem by blast
  then show ?thesis using eq by simp
qed

text \<open>
  A position is reported inside the loop: past the loop's end it is wrapped to its place in the
  range, a whole number of passes earlier, and wrapping again changes nothing.
\<close>

theorem wrap_in_range:
  assumes "loopRange e = Some (start, stop)" "stop \<le> pos"
  shows "start \<le> wrap pos e \<and> wrap pos e < stop \<and> wrap (wrap pos e) e = wrap pos e
    \<and> (\<exists>passes :: nat. 0 < passes \<and> pos = wrap pos e + of_nat passes * (stop - start))"
proof -
  define span where "span = stop - start"
  define q where "q = \<lfloor>(pos - start) / span\<rfloor>"
  have b: "0 < span" using loopRange_bounds [OF assms(1)] by (simp add: span_def)
  have w: "wrap pos e = pos - of_int q * span"
    using assms by (simp add: wrap_def Let_def q_def span_def)
  have "of_int q \<le> (pos - start) / span" "(pos - start) / span < of_int q + 1" 
    using floor_correct [of "(pos - start) / span"] by (simp_all add: q_def)
  then have q: "of_int q * span \<le> pos - start" "pos - start < of_int q * span + span" using b by (simp_all add: field_simps)
  have "1 \<le> (pos - start) / span" using assms(2) b by (simp add: span_def)
  then have "1 \<le> q" by (simp add: q_def le_floor_iff)
  then have "of_int q = (of_nat (nat q) :: rat)" "0 < nat q" by simp_all
  then have "0 < nat q \<and> pos = wrap pos e + of_nat (nat q) * (stop - start)" by (simp add: w span_def)
  then have p: "\<exists>passes :: nat. 0 < passes \<and> pos = wrap pos e + of_nat passes * (stop - start)" by blast
  have r: "start \<le> wrap pos e" "wrap pos e < stop" using q by (simp_all add: w span_def)
  then have "wrap (wrap pos e) e = wrap pos e" by (subst wrap_def) (simp add: assms(1))
  then show ?thesis using r p by blast
qed

theorem wrap_in_range_witness: "0 \<le> wrap 9 example_loop \<and> wrap 9 example_loop < 4"
  using wrap_in_range [of example_loop 0 4 9] by (simp add: loopRange_def example_loop_def Let_def)

end
