(* ===== verification/WireBytes.thy ===== *)
theory WireBytes
  imports JsValue "HOL-Library.Word"
begin

text \<open>
  Bytes as \<^verbatim>\<open>DataView\<close> reads and writes them: numbers of a fixed width at an offset of a buffer,
  little-endian or big-endian, with the \<^verbatim>\<open>RangeError\<close> of an access that does not fit.  The interface
  of the fixed-width encodings is the locale \<open>byte_codec\<close>.
\<close>

type_synonym bytes = "8 word list"

section \<open>Numbers as bytes\<close>

fun le_bytes :: "nat \<Rightarrow> nat \<Rightarrow> bytes" where
  "le_bytes 0 n = []"
| "le_bytes (Suc w) n = word_of_nat n # le_bytes w (n div 256)"

fun le_value :: "bytes \<Rightarrow> nat" where
  "le_value [] = 0"
| "le_value (b # bs) = unat b + 256 * le_value bs"

definition be_bytes :: "nat \<Rightarrow> nat \<Rightarrow> bytes" where
  "be_bytes w n = rev (le_bytes w n)"

definition be_value :: "bytes \<Rightarrow> nat" where
  "be_value bs = le_value (rev bs)"

lemma length_le_bytes [simp]: "length (le_bytes w n) = w"
  by (induction w arbitrary: n) auto

lemma le_bytes_add: "le_bytes (a + b) n = le_bytes a n @ le_bytes b (n div 256 ^ a)"
  by (induction a arbitrary: n) (simp_all add: div_mult2_eq)

lemma le_bytes_zero: "le_bytes w 0 = replicate w 0"
  by (induction w) auto

lemma le_value_bytes: "le_value (le_bytes w n) = n mod 256 ^ w"
proof (induction w arbitrary: n)
  case (Suc w)
  have "n mod 256 ^ Suc w = n mod 256 + 256 * (n div 256 mod 256 ^ w)"
    by (simp add: mod_mult2_eq)
  moreover have "unat (word_of_nat n :: 8 word) = n mod 256"
    by (simp add: unat_of_nat)
  ultimately show ?case using Suc by simp
qed simp

lemma unat_byte: "unat (b :: 8 word) < 256"
  using unsigned_less [of b] by simp

lemma le_value_bound: "le_value bs < 256 ^ length bs"
proof (induction bs)
  case (Cons b bs)
  then show ?case using unat_byte [of b] by simp
qed simp

lemma le_bytes_value: "le_bytes (length bs) (le_value bs) = bs"
proof (induction bs)
  case (Cons b bs)
  have "(unat b + 256 * le_value bs) div 256 = le_value bs" using unat_byte [of b] by simp
  moreover have "(word_of_nat (unat b + 256 * le_value bs) :: 8 word) = b"
  proof -
    have z: "(256 :: 8 word) = 0" by transfer simp
    have "(word_of_nat (unat b + 256 * le_value bs) :: 8 word) = b + 256 * word_of_nat (le_value bs)" by simp
    also have "\<dots> = b" unfolding z by simp
    finally show ?thesis .
  qed
  ultimately show ?case using Cons by simp
qed simp

lemma length_be_bytes [simp]: "length (be_bytes w n) = w"
  by (simp add: be_bytes_def)

lemma be_value_bytes: "be_value (be_bytes w n) = n mod 256 ^ w"
  by (simp add: be_bytes_def be_value_def le_value_bytes)

section \<open>Errors\<close>

text \<open>
  A \<^verbatim>\<open>RangeError\<close> is thrown by an access outside the buffer, by an array of an impossible length and by
  \<^verbatim>\<open>BigInt\<close> of a number that is not an integer.
\<close>

datatype wire_error =
    RangeError
  | InvalidHeader
  | UnsupportedType nat
  | UnsupportedData
  | IncorrectType nat
  | JsonError

fun and_then :: "'e + 'a \<Rightarrow> ('a \<Rightarrow> 'e + 'b) \<Rightarrow> 'e + 'b" where
  "and_then (Inl e) f = Inl e"
| "and_then (Inr x) f = f x"

lemma and_then_cong [fundef_cong]:
  "x = y \<Longrightarrow> (\<And>a. y = Inr a \<Longrightarrow> f a = g a) \<Longrightarrow> and_then x f = and_then y g"
  by (cases y) auto

lemma and_then_Inr: "and_then x f = Inr y \<longleftrightarrow> (\<exists>a. x = Inr a \<and> f a = Inr y)"
  by (cases x) auto

lemma and_then_Inl: "and_then x f = Inl e \<longleftrightarrow> x = Inl e \<or> (\<exists>a. x = Inr a \<and> f a = Inl e)"
  by (cases x) auto

section \<open>Views\<close>

text \<open>\<^verbatim>\<open>view.getX(offset)\<close> and \<^verbatim>\<open>view.setX(offset, n)\<close> for a width and an encoding of that width.\<close>

definition dv_get :: "(bytes \<Rightarrow> nat) \<Rightarrow> nat \<Rightarrow> bytes \<Rightarrow> nat \<Rightarrow> wire_error + nat" where
  "dv_get dec w view offset =
     (if offset + w \<le> length view then Inr (dec (take w (drop offset view))) else Inl RangeError)"

definition dv_set :: "(nat \<Rightarrow> bytes) \<Rightarrow> nat \<Rightarrow> bytes \<Rightarrow> nat \<Rightarrow> nat \<Rightarrow> wire_error + bytes" where
  "dv_set enc w view offset n =
     (if offset + w \<le> length view
      then Inr (take offset view @ enc n @ drop (offset + w) view) else Inl RangeError)"

text \<open>\<^verbatim>\<open>buffer.slice(from, to)\<close>: clamped to the buffer.\<close>

definition slice :: "bytes \<Rightarrow> nat \<Rightarrow> nat \<Rightarrow> bytes" where
  "slice view start stop = take (stop - start) (drop start view)"

text \<open>
  A run of writes \<^verbatim>\<open>view.setX(offset, n, true); offset += w\<close>: the fields with their widths, and the
  offset after them.
\<close>

fun put_fields :: "(nat \<times> nat) list \<Rightarrow> nat \<Rightarrow> bytes \<Rightarrow> wire_error + (nat \<times> bytes)" where
  "put_fields [] offset view = Inr (offset, view)"
| "put_fields ((w, n) # fields) offset view =
     and_then (dv_set (le_bytes w) w view offset n) (put_fields fields (offset + w))"

section \<open>The interface of an encoding\<close>

locale byte_codec =
  fixes width :: nat and enc :: "nat \<Rightarrow> bytes" and dec :: "bytes \<Rightarrow> nat"
  assumes length_enc: "length (enc n) = width"
    and dec_enc: "dec (enc n) = n mod 256 ^ width"
begin

lemma get_put: "dv_get dec width (pre @ enc n @ post) (length pre) = Inr (n mod 256 ^ width)"
  by (simp add: dv_get_def length_enc dec_enc)

lemma get_short: "length view < offset + width \<Longrightarrow> dv_get dec width view offset = Inl RangeError"
  by (simp add: dv_get_def)

lemma put_here: "length old = width \<Longrightarrow> dv_set enc width (pre @ old @ post) (length pre) n = Inr (pre @ enc n @ post)"
  by (simp add: dv_set_def)

lemma put_then_get:
  assumes "dv_set enc width view offset n = Inr view'"
  shows "dv_get dec width view' offset = Inr (n mod 256 ^ width) \<and> length view' = length view"
proof -
  have o: "offset + width \<le> length view" "view' = take offset view @ enc n @ drop (offset + width) view"
    using assms by (auto simp: dv_set_def split: if_splits)
  then have "length (take offset view) = offset" by simp
  then show ?thesis using get_put [of "take offset view" n "drop (offset + width) view"] o length_enc by simp
qed

end

interpretation le: byte_codec w "le_bytes w" le_value for w
  by unfold_locales (simp_all add: le_value_bytes)

interpretation be: byte_codec w "be_bytes w" be_value for w
  by unfold_locales (simp_all add: be_value_bytes)

text \<open>A run of writes that fits leaves the fields one after the other.\<close>

definition fields_bytes :: "(nat \<times> nat) list \<Rightarrow> bytes" where
  "fields_bytes fields = concat (map (\<lambda>(w, n). le_bytes w n) fields)"

definition fields_length :: "(nat \<times> nat) list \<Rightarrow> nat" where
  "fields_length fields = sum_list (map fst fields)"

lemma length_fields_bytes [simp]: "length (fields_bytes fields) = fields_length fields"
  by (induction fields) (auto simp: fields_bytes_def fields_length_def)

lemma put_fields_eq:
  "length old = fields_length fields \<Longrightarrow>
    put_fields fields (length pre) (pre @ old @ post) = Inr (length pre + fields_length fields, pre @ fields_bytes fields @ post)"
proof (induction fields arbitrary: pre old)
  case Nil
  then show ?case by (simp add: fields_bytes_def fields_length_def)
next
  case (Cons f fields)
  obtain w n where f: "f = (w, n)" by (cases f)
  have o: "old = take w old @ drop w old" "length (take w old) = w" "length (drop w old) = fields_length fields"
    using Cons.prems by (simp_all add: f fields_length_def)
  have "dv_set (le_bytes w) w (pre @ take w old @ (drop w old @ post)) (length pre) n = Inr (pre @ le_bytes w n @ (drop w old @ post))"
    by (rule le.put_here [OF o(2)])
  then have s: "dv_set (le_bytes w) w (pre @ old @ post) (length pre) n = Inr ((pre @ le_bytes w n) @ drop w old @ post)"
    by (metis append.assoc o(1))
  show ?case
    using Cons.IH [OF o(3), of "pre @ le_bytes w n"]
    by (simp add: f s fields_bytes_def fields_length_def add.assoc)
qed

lemma put_fields_fresh:
  "put_fields fields 0 (replicate (fields_length fields) 0) = Inr (fields_length fields, fields_bytes fields)"
  using put_fields_eq [of "replicate (fields_length fields) 0" fields "[]" "[]"] by simp

text \<open>Reading a field where the fields before it end.\<close>

lemma get_field:
  "offset = length pre \<Longrightarrow> dv_get le_value w (pre @ le_bytes w n @ post) offset = Inr (n mod 256 ^ w)"
  using le.get_put by blast

lemma slice_here: "slice (pre @ x @ post) (length pre) (length pre + length x) = x"
  by (simp add: slice_def)

end
