(* ===== verification/YasMessage.thy ===== *)
theory YasMessage
  imports WireBytes
begin

text \<open>
  The binary messages between the client and a runtime
  (\<^verbatim>\<open>hkp-frontend/src/runtime/rest/Message.ts\<close> and \<^verbatim>\<open>Data.ts\<close>): the YAS header, the fields of a
  message, and the payload of each type of data.

  \<^verbatim>\<open>TextDecoder.decode\<close> and \<^verbatim>\<open>JSON.parse\<close> are parameters.  A ring buffer's id and timestamp are
  integers, and \<^verbatim>\<open>Number(n)\<close> of a 64-bit integer is the integer, as it is below \<open>2 ^ 53\<close>.
\<close>

section \<open>Data\<close>

datatype Data =
    FloatRingBuffer bytes int int
  | Null
  | TextData string
  | BinaryData bytes
  | JsonData jsval

definition getDataTypeId :: "Data \<Rightarrow> wire_error + nat" where
  "getDataTypeId data =
     (case data of
        FloatRingBuffer array i ts \<Rightarrow> Inr 1
      | Null \<Rightarrow> Inr 5
      | BinaryData b \<Rightarrow> Inr 3
      | _ \<Rightarrow> Inl UnsupportedData)"

datatype MessagePurpose = NOTIFICATION | RESULT | RESULT_AWAITING_RESPONSE | RESULT_WITH_REQUEST_ID

fun purpose_value :: "MessagePurpose \<Rightarrow> nat" where
  "purpose_value NOTIFICATION = 0"
| "purpose_value RESULT = 1"
| "purpose_value RESULT_AWAITING_RESPONSE = 2"
| "purpose_value RESULT_WITH_REQUEST_ID = 3"

text \<open>What is read holds whatever number the purpose field has; no data is \<^verbatim>\<open>undefined\<close>.\<close>

record Message =
  msg_purpose :: nat
  msg_data :: "Data option"
  msg_sender :: string

section \<open>The header\<close>

definition yasHeader :: "(nat \<times> nat) list" where
  "yasHeader = [(1, 121), (1, 97), (1, 115), (1, 48), (1, 48), (1, 49), (1, 55)]"

definition writeYasHeader :: "bytes \<Rightarrow> nat \<Rightarrow> wire_error + (nat \<times> bytes)" where
  "writeYasHeader view offset = put_fields yasHeader offset view"

abbreviation u8 :: "bytes \<Rightarrow> nat \<Rightarrow> wire_error + nat" where "u8 \<equiv> dv_get le_value 1"
abbreviation u16 :: "bytes \<Rightarrow> nat \<Rightarrow> wire_error + nat" where "u16 \<equiv> dv_get le_value 2"
abbreviation u32 :: "bytes \<Rightarrow> nat \<Rightarrow> wire_error + nat" where "u32 \<equiv> dv_get le_value 4"
abbreviation u64 :: "bytes \<Rightarrow> nat \<Rightarrow> wire_error + nat" where "u64 \<equiv> dv_get le_value 8"

definition parseYasHeader :: "bytes \<Rightarrow> nat \<Rightarrow> wire_error + nat" where
  "parseYasHeader view offset =
     and_then (u8 view offset) (\<lambda>byte1.
     and_then (u8 view (offset + 1)) (\<lambda>byte2.
     and_then (u8 view (offset + 2)) (\<lambda>byte3.
       if byte1 \<noteq> 121 \<or> byte2 \<noteq> 97 \<or> byte3 \<noteq> 115 then Inl InvalidHeader else Inr 7)))"

section \<open>Writing\<close>

definition serializeYasRingBuffer :: "bytes \<Rightarrow> int \<Rightarrow> int \<Rightarrow> wire_error + bytes" where
  "serializeYasRingBuffer array i ts =
     (let buffer = replicate (7 + 4 + 8 + length array + 4 + 8) 0 in
      and_then (writeYasHeader buffer 0) (\<lambda>(offset, view).
      and_then (put_fields [(4, 1)] offset view) (\<lambda>(offset, view).
      if length array mod 4 \<noteq> 0 then Inl RangeError
      else
        and_then (put_fields [(8, length array div 4)] offset view) (\<lambda>(offset, view).
        and_then (put_fields (map (\<lambda>b. (1, unat b)) array) offset view) (\<lambda>(offset, view).
        and_then (put_fields [(4, nat (i mod 2 ^ 32)), (8, nat (ts mod 2 ^ 64))] offset view) (\<lambda>(offset, view).
        Inr view))))))"

definition serializeYasMessage :: "Data \<Rightarrow> string \<Rightarrow> nat \<Rightarrow> wire_error + bytes" where
  "serializeYasMessage data sender purpose =
     (let header = replicate (7 + 2 + 2 + 8 + length sender) 0 in
      and_then (writeYasHeader header 0) (\<lambda>(offset, view).
      and_then (put_fields [(2, purpose)] offset view) (\<lambda>(offset, view).
      and_then (getDataTypeId data) (\<lambda>type.
      and_then (put_fields [(2, type), (8, length sender)] offset view) (\<lambda>(offset, view).
      and_then (put_fields (map (\<lambda>c. (1, of_char c)) sender) offset view) (\<lambda>(offset, header).
        case data of
          FloatRingBuffer array i ts \<Rightarrow> and_then (serializeYasRingBuffer array i ts) (\<lambda>payload. Inr (header @ payload))
        | Null \<Rightarrow> Inr (header @ [0])
        | BinaryData b \<Rightarrow> Inr (header @ b)
        | _ \<Rightarrow> Inl UnsupportedData))))))"

section \<open>Reading\<close>

definition deserializeYasRingBuffer :: "bytes \<Rightarrow> nat \<Rightarrow> wire_error + Data" where
  "deserializeYasRingBuffer view offset0 =
     and_then (parseYasHeader view offset0) (\<lambda>n.
     let offset = offset0 + n in
     and_then (u16 view offset) (\<lambda>typeId.
     if typeId \<noteq> 1 then Inl (IncorrectType typeId)
     else
       let offset = offset + 2 in
       and_then (u64 view offset) (\<lambda>numSamples.
       let arrayLength = numSamples * 4; offset = offset + 8;
           array = slice view offset (offset + arrayLength); offset = offset + arrayLength in
       and_then (u32 view offset) (\<lambda>i.
       let offset = offset + 4 in
       and_then (u64 view offset) (\<lambda>ts.
       Inr (FloatRingBuffer array (int i) (int ts)))))))"

definition deserializeYasJson :: "(bytes \<Rightarrow> string) \<Rightarrow> (string \<Rightarrow> jsval option) \<Rightarrow> bytes \<Rightarrow> nat \<Rightarrow> wire_error + Data" where
  "deserializeYasJson decode parse view offset0 =
     and_then (parseYasHeader view offset0) (\<lambda>n.
     let offset = offset0 + n in
     and_then (u64 view offset) (\<lambda>jsonLength.
     let offset = offset + 8 in
     case parse (decode (slice view offset (offset + jsonLength))) of
       None \<Rightarrow> Inl JsonError
     | Some v \<Rightarrow> Inr (JsonData v)))"

definition deserializeYasText :: "(bytes \<Rightarrow> string) \<Rightarrow> bytes \<Rightarrow> nat \<Rightarrow> wire_error + Data" where
  "deserializeYasText decode view offset0 =
     and_then (parseYasHeader view offset0) (\<lambda>n.
     let offset = offset0 + n in
     and_then (u64 view offset) (\<lambda>textLength.
     let offset = offset + 8 in
     Inr (TextData (decode (slice view offset (offset + textLength))))))"

definition deserializeYasMessage ::
  "(bytes \<Rightarrow> string) \<Rightarrow> (string \<Rightarrow> jsval option) \<Rightarrow> bytes \<Rightarrow> wire_error + Message" where
  "deserializeYasMessage decode parse buffer =
     and_then (parseYasHeader buffer 0) (\<lambda>offset.
     and_then (u16 buffer offset) (\<lambda>purpose.
     and_then (u16 buffer (offset + 2)) (\<lambda>dataType.
     and_then (u64 buffer (offset + 4)) (\<lambda>senderLength.
     let offset = offset + 12;
         sender = decode (slice buffer offset (offset + senderLength));
         offset = offset + senderLength;
         message = (\<lambda>data. \<lparr>msg_purpose = purpose, msg_data = data, msg_sender = sender\<rparr>) in
     if dataType = 1 then and_then (deserializeYasRingBuffer buffer offset) (\<lambda>d. Inr (message (Some d)))
     else if dataType = 2 then and_then (deserializeYasJson decode parse buffer offset) (\<lambda>d. Inr (message (Some d)))
     else if dataType = 5 then Inr (message (Some Null))
     else if dataType = 0 then Inr (message None)
     else if dataType = 3 then Inr (message (Some (BinaryData (drop offset buffer))))
     else if dataType = 4 then and_then (deserializeYasText decode buffer offset) (\<lambda>d. Inr (message (Some d)))
     else Inl (UnsupportedType dataType)))))"

text \<open>\<^verbatim>\<open>passesNothing\<close>: \<^verbatim>\<open>null\<close> from a browser runtime (\<open>Inl\<close>), or a Null from a remote one.\<close>

definition passesNothing :: "jsval + Data \<Rightarrow> bool" where
  "passesNothing result = (case result of Inl v \<Rightarrow> v = JNull | Inr d \<Rightarrow> d = Null)"

section \<open>What is written\<close>

lemma fields_bytes_append: "fields_bytes (xs @ ys) = fields_bytes xs @ fields_bytes ys"
  by (simp add: fields_bytes_def)

lemma fields_length_append: "fields_length (xs @ ys) = fields_length xs + fields_length ys"
  by (simp add: fields_length_def)

text \<open>Successive runs of writes into a fresh buffer.\<close>

lemma writes:
  "fields_length gs \<le> n \<Longrightarrow>
    put_fields gs (fields_length fs) (fields_bytes fs @ replicate n 0)
      = Inr (fields_length (fs @ gs), fields_bytes (fs @ gs) @ replicate (n - fields_length gs) 0)"
proof -
  assume n: "fields_length gs \<le> n"
  have "replicate n (0 :: 8 word) = replicate (fields_length gs) 0 @ replicate (n - fields_length gs) 0"
    using n by (simp add: replicate_add [symmetric])
  then show ?thesis
    using put_fields_eq [of "replicate (fields_length gs) 0" gs "fields_bytes fs" "replicate (n - fields_length gs) 0"]
    by (simp add: fields_bytes_append fields_length_append)
qed

lemma writes_first:
  "fields_length gs \<le> n \<Longrightarrow>
    put_fields gs 0 (replicate n 0) = Inr (fields_length gs, fields_bytes gs @ replicate (n - fields_length gs) 0)"
  using writes [of gs n "[]"] by (simp add: fields_bytes_def fields_length_def)

lemma fields_length_header [simp]: "fields_length yasHeader = 7"
  by (simp add: fields_length_def yasHeader_def)

lemma fields_length_units [simp]: "fields_length (map (\<lambda>x. (Suc 0, f x)) xs) = length xs"
  by (induction xs) (auto simp: fields_length_def)

lemma fields_bytes_bytes: "fields_bytes (map (\<lambda>b. (Suc 0, unat b)) bs) = bs"
  by (induction bs) (simp_all add: fields_bytes_def)

text \<open>A sender's characters as the bytes they are written as.\<close>

definition char_bytes :: "string \<Rightarrow> bytes" where
  "char_bytes s = map (\<lambda>c. word_of_nat (of_char c)) s"

lemma fields_bytes_chars: "fields_bytes (map (\<lambda>c. (Suc 0, of_char c)) s) = char_bytes s"
  by (induction s) (simp_all add: fields_bytes_def char_bytes_def)

lemma length_char_bytes [simp]: "length (char_bytes s) = length s"
  by (simp add: char_bytes_def)

definition message_header :: "nat \<Rightarrow> nat \<Rightarrow> string \<Rightarrow> bytes" where
  "message_header purpose type sender =
     fields_bytes yasHeader @ le_bytes 2 purpose @ le_bytes 2 type @ le_bytes 8 (length sender) @ char_bytes sender"

definition ring_layout :: "nat \<Rightarrow> bytes \<Rightarrow> int \<Rightarrow> int \<Rightarrow> bytes" where
  "ring_layout typeWidth array i ts =
     fields_bytes yasHeader @ le_bytes typeWidth 1 @ le_bytes 8 (length array div 4) @ array
       @ le_bytes 4 (nat (i mod 2 ^ 32)) @ le_bytes 8 (nat (ts mod 2 ^ 64))"

lemma fields_length_simps [simp]:
  "fields_length [] = 0" "fields_length ((w, n) # fs) = w + fields_length fs"
  "fields_length (fs @ gs) = fields_length fs + fields_length gs"
  by (simp_all add: fields_length_def)

lemma fields_bytes_simps:
  "fields_bytes [] = []" "fields_bytes ((w, n) # fs) = le_bytes w n @ fields_bytes fs"
  by (simp_all add: fields_bytes_def)

lemmas layout_simps = fields_bytes_append fields_bytes_simps fields_bytes_bytes fields_bytes_chars

text \<open>Each buffer is allocated with exactly the bytes that are written to it.\<close>

lemma serializeYasRingBuffer_layout:
  "serializeYasRingBuffer array i ts
     = (if length array mod 4 = 0 then Inr (ring_layout 4 array i ts) else Inl RangeError)"
proof -
  let ?n = "7 + 4 + 8 + length array + 4 + 8"
  let ?f1 = "yasHeader @ [(4, 1)]" let ?f2 = "?f1 @ [(8, length array div 4)]"
  let ?f3 = "?f2 @ map (\<lambda>b. (1, unat b)) array"
  let ?f4 = "[(4, nat (i mod 2 ^ 32)), (8, nat (ts mod 2 ^ 64))]"
  have w: "writeYasHeader (replicate ?n 0) 0 = Inr (fields_length yasHeader, fields_bytes yasHeader @ replicate (?n - 7) 0)"
    unfolding writeYasHeader_def by (subst writes_first) simp_all
  have p1: "put_fields [(4, 1)] (fields_length yasHeader) (fields_bytes yasHeader @ replicate (?n - 7) 0)
      = Inr (fields_length ?f1, fields_bytes ?f1 @ replicate (?n - 11) 0)"
    by (subst writes) simp_all
  have p2: "put_fields [(8, length array div 4)] (fields_length ?f1) (fields_bytes ?f1 @ replicate (?n - 11) 0)
      = Inr (fields_length ?f2, fields_bytes ?f2 @ replicate (?n - 19) 0)"
    by (subst writes) simp_all
  have p3: "put_fields (map (\<lambda>b. (1, unat b)) array) (fields_length ?f2) (fields_bytes ?f2 @ replicate (?n - 19) 0)
      = Inr (fields_length ?f3, fields_bytes ?f3 @ replicate 12 0)"
    by (subst writes) simp_all
  have p4: "put_fields ?f4 (fields_length ?f3) (fields_bytes ?f3 @ replicate 12 0) = Inr (fields_length (?f3 @ ?f4), fields_bytes (?f3 @ ?f4))"
    by (subst writes) simp_all
  show ?thesis
    unfolding serializeYasRingBuffer_def Let_def w p1 and_then.simps prod.case
    unfolding p2 p3 p4 and_then.simps prod.case
    by (simp add: ring_layout_def layout_simps)
qed

lemma serializeYasMessage_layout:
  "serializeYasMessage data sender purpose =
     (case data of
        FloatRingBuffer array i ts \<Rightarrow>
          and_then (serializeYasRingBuffer array i ts) (\<lambda>p. Inr (message_header purpose 1 sender @ p))
      | Null \<Rightarrow> Inr (message_header purpose 5 sender @ [0])
      | BinaryData b \<Rightarrow> Inr (message_header purpose 3 sender @ b)
      | _ \<Rightarrow> Inl UnsupportedData)"
proof -
  let ?n = "7 + 2 + 2 + 8 + length sender"
  let ?f1 = "yasHeader @ [(2, purpose)]"
  have w: "writeYasHeader (replicate ?n 0) 0 = Inr (fields_length yasHeader, fields_bytes yasHeader @ replicate (?n - 7) 0)"
    unfolding writeYasHeader_def by (subst writes_first) simp_all
  have p1: "put_fields [(2, purpose)] (fields_length yasHeader) (fields_bytes yasHeader @ replicate (?n - 7) 0)
      = Inr (fields_length ?f1, fields_bytes ?f1 @ replicate (?n - 9) 0)"
    by (subst writes) simp_all
  have p2: "put_fields [(2, t), (8, length sender)] (fields_length ?f1) (fields_bytes ?f1 @ replicate (?n - 9) 0)
      = Inr (fields_length (?f1 @ [(2, t), (8, length sender)]), fields_bytes (?f1 @ [(2, t), (8, length sender)]) @ replicate (length sender) 0)" for t
    by (subst writes) simp_all
  have p3: "put_fields (map (\<lambda>c. (1, of_char c)) sender) (fields_length (?f1 @ [(2, t), (8, length sender)]))
        (fields_bytes (?f1 @ [(2, t), (8, length sender)]) @ replicate (length sender) 0)
      = Inr (7 + 2 + 2 + 8 + length sender, message_header purpose t sender)" for t
    by (subst writes) (simp_all add: message_header_def layout_simps)
  show ?thesis
    unfolding serializeYasMessage_def Let_def w p1 and_then.simps prod.case getDataTypeId_def
    by (cases data) (simp_all only: p2 p3 and_then.simps prod.case Data.case)
qed

section \<open>What is read\<close>

lemma parseYasHeader_here: "offset = length pre \<Longrightarrow> parseYasHeader (pre @ fields_bytes yasHeader @ post) offset = Inr 7"
proof -
  assume o: "offset = length pre"
  have h: "fields_bytes yasHeader = [121, 97, 115, 48, 48, 49, 55]" by (simp add: fields_bytes_def yasHeader_def)
  have "u8 (pre @ fields_bytes yasHeader @ post) (length pre) = Inr 121"
    "u8 (pre @ fields_bytes yasHeader @ post) (length pre + 1) = Inr 97"
    "u8 (pre @ fields_bytes yasHeader @ post) (length pre + 2) = Inr 115"
    by (simp_all add: dv_get_def h)
  then show ?thesis by (simp add: parseYasHeader_def o)
qed

lemma length_header [simp]: "length (fields_bytes yasHeader) = 7" "length (message_header purpose type sender) = 19 + length sender"
  by (simp_all add: message_header_def)

text \<open>The fields of a message's header, as they are read back.\<close>

lemma read_message_header:
  assumes "purpose < 65536" "type < 65536" "length sender < 2 ^ 64"
  shows "parseYasHeader (message_header purpose type sender @ payload) 0 = Inr 7"
    "u16 (message_header purpose type sender @ payload) 7 = Inr purpose"
    "u16 (message_header purpose type sender @ payload) 9 = Inr type"
    "u64 (message_header purpose type sender @ payload) 11 = Inr (length sender)"
    "slice (message_header purpose type sender @ payload) 19 (19 + length sender) = char_bytes sender"
proof -
  let ?h = "fields_bytes yasHeader" let ?p = "le_bytes 2 purpose" let ?t = "le_bytes 2 type" let ?l = "le_bytes 8 (length sender)"
  have m: "message_header purpose type sender @ payload = ?h @ ?p @ ?t @ ?l @ char_bytes sender @ payload"
    by (simp add: message_header_def)
  show "parseYasHeader (message_header purpose type sender @ payload) 0 = Inr 7"
    using parseYasHeader_here [of 0 "[]"] unfolding m by simp
  show "u16 (message_header purpose type sender @ payload) 7 = Inr purpose"
    using get_field [of 7 ?h 2 purpose] assms(1) unfolding m by simp
  show "u16 (message_header purpose type sender @ payload) 9 = Inr type"
    using get_field [of 9 "?h @ ?p" 2 type] assms(2) unfolding m by simp
  show "u64 (message_header purpose type sender @ payload) 11 = Inr (length sender)"
    using get_field [of 11 "?h @ ?p @ ?t" 8 "length sender"] assms(3) unfolding m by simp
  show "slice (message_header purpose type sender @ payload) 19 (19 + length sender) = char_bytes sender"
    using slice_here [of "?h @ ?p @ ?t @ ?l" "char_bytes sender" payload] unfolding m by simp
qed

lemma deserialize_header:
  assumes "purpose < 65536" "type < 65536" "length sender < 2 ^ 64" "decode (char_bytes sender) = sender"
  shows "deserializeYasMessage decode parse (message_header purpose type sender @ payload) =
    (let buffer = message_header purpose type sender @ payload; offset = 19 + length sender;
         message = (\<lambda>data. \<lparr>msg_purpose = purpose, msg_data = data, msg_sender = sender\<rparr>) in
     if type = 1 then and_then (deserializeYasRingBuffer buffer offset) (\<lambda>d. Inr (message (Some d)))
     else if type = 2 then and_then (deserializeYasJson decode parse buffer offset) (\<lambda>d. Inr (message (Some d)))
     else if type = 5 then Inr (message (Some Null))
     else if type = 0 then Inr (message None)
     else if type = 3 then Inr (message (Some (BinaryData payload)))
     else if type = 4 then and_then (deserializeYasText decode buffer offset) (\<lambda>d. Inr (message (Some d)))
     else Inl (UnsupportedType type))"
proof -
  define b where "b = message_header purpose type sender @ payload"
  note r = read_message_header [OF assms(1-3), of payload, folded b_def]
  have d: "drop (19 + length sender) b = payload" by (simp add: b_def)
  have "deserializeYasMessage decode parse b =
    (let offset = 19 + length sender; message = (\<lambda>data. \<lparr>msg_purpose = purpose, msg_data = data, msg_sender = sender\<rparr>) in
     if type = 1 then and_then (deserializeYasRingBuffer b offset) (\<lambda>d. Inr (message (Some d)))
     else if type = 2 then and_then (deserializeYasJson decode parse b offset) (\<lambda>d. Inr (message (Some d)))
     else if type = 5 then Inr (message (Some Null))
     else if type = 0 then Inr (message None)
     else if type = 3 then Inr (message (Some (BinaryData payload)))
     else if type = 4 then and_then (deserializeYasText decode b offset) (\<lambda>d. Inr (message (Some d)))
     else Inl (UnsupportedType type))"
    unfolding deserializeYasMessage_def r(1) and_then.simps
    using r(2-5) assms(4) d by (simp add: Let_def)
  then show ?thesis unfolding b_def Let_def .
qed

lemma take_le_bytes: "take k (le_bytes w n) = le_bytes (min k w) n"
proof (induction w arbitrary: k n)
  case (Suc w)
  then show ?case by (cases k) auto
qed simp

text \<open>A ring buffer's payload as the reader expects it: a type of two bytes.\<close>

lemma deserializeYasRingBuffer_reads:
  assumes "length array mod 4 = 0" "length array div 4 < 2 ^ 64" "offset = length pre"
  shows "deserializeYasRingBuffer (pre @ ring_layout 2 array i ts @ post) offset
    = Inr (FloatRingBuffer array (i mod 2 ^ 32) (ts mod 2 ^ 64))"
proof -
  let ?h = "fields_bytes yasHeader" let ?l = "le_bytes 8 (length array div 4)"
  let ?i = "le_bytes 4 (nat (i mod 2 ^ 32))" let ?t = "le_bytes 8 (nat (ts mod 2 ^ 64))"
  define v where "v = pre @ ring_layout 2 array i ts @ post"
  have v: "v = pre @ ?h @ le_bytes 2 1 @ ?l @ array @ ?i @ ?t @ post" by (simp add: v_def ring_layout_def)
  have n: "4 * (length array div 4) = length array" using assms(1) mult_div_mod_eq [of 4 "length array"] by simp
  have "parseYasHeader v (length pre) = Inr 7" using parseYasHeader_here [of "length pre" pre] by (simp add: v)
  moreover have "u16 v (length pre + 7) = Inr 1"
    using get_field [of "length pre + 7" "pre @ ?h" 2 1] by (simp add: v)
  moreover have "u64 v (length pre + 9) = Inr (length array div 4)"
    using get_field [of "length pre + 9" "pre @ ?h @ le_bytes 2 1" 8 "length array div 4"] assms(2) by (simp add: v)
  moreover have "slice v (length pre + 17) (length pre + 17 + length array) = array"
    using slice_here [of "pre @ ?h @ le_bytes 2 1 @ ?l" array "?i @ ?t @ post"] by (simp add: v add.assoc)
  moreover have "u32 v (length pre + 17 + length array) = Inr (nat (i mod 2 ^ 32))"
    using get_field [of "length pre + 17 + length array" "pre @ ?h @ le_bytes 2 1 @ ?l @ array" 4 "nat (i mod 2 ^ 32)"]
    by (simp add: v nat_less_iff)
  moreover have "u64 v (length pre + 17 + length array + 4) = Inr (nat (ts mod 2 ^ 64))"
    using get_field [of "length pre + 17 + length array + 4" "pre @ ?h @ le_bytes 2 1 @ ?l @ array @ ?i" 8 "nat (ts mod 2 ^ 64)"]
    by (simp add: v nat_less_iff)
  ultimately have "deserializeYasRingBuffer v offset = Inr (FloatRingBuffer array (i mod 2 ^ 32) (ts mod 2 ^ 64))"
    by (simp add: deserializeYasRingBuffer_def assms(3) n Let_def ac_simps)
  then show ?thesis by (simp add: v_def)
qed

text \<open>As it is written, with a type of four bytes, the reader takes the count for another.\<close>

lemma deserializeYasRingBuffer_misread:
  assumes "length array = 4 * n" "0 < n" "n < 2 ^ 46" "offset = length pre"
  shows "deserializeYasRingBuffer (pre @ ring_layout 4 array i ts) offset = Inl RangeError"
proof -
  let ?h = "fields_bytes yasHeader" let ?l = "le_bytes 8 n"
  let ?i = "le_bytes 4 (nat (i mod 2 ^ 32))" let ?t = "le_bytes 8 (nat (ts mod 2 ^ 64))"
  define v where "v = pre @ ring_layout 4 array i ts"
  have two: "(4 :: nat) = 2 + 2" by simp
  have "le_bytes 2 (1 div 256 ^ 2) = [0, 0]" by (simp add: le_bytes_zero numeral_2_eq_2)
  then have four: "le_bytes 4 1 = le_bytes 2 1 @ [0, 0]" unfolding two le_bytes_add by simp
  have v: "v = pre @ ?h @ le_bytes 2 1 @ ([0, 0] @ take 6 ?l) @ drop 6 ?l @ array @ ?i @ ?t"
    using append_take_drop_id [of 6 ?l] by (simp add: v_def ring_layout_def assms(1) four [unfolded One_nat_def])
  have p: "parseYasHeader v (length pre) = Inr 7" using parseYasHeader_here [of "length pre" pre] by (simp add: v)
  have t: "u16 v (length pre + 7) = Inr 1" using get_field [of "length pre + 7" "pre @ ?h" 2 1] by (simp add: v)
  have "n < 256 ^ 6" using assms(3) by simp
  then have "le_value (take 6 ?l) = n" by (simp add: take_le_bytes le_value_bytes)
  then have c: "u64 v (length pre + 9) = Inr (65536 * n)" by (simp add: dv_get_def v)
  have "length v = length pre + 31 + 4 * n" by (simp add: v assms(1))
  then have e: "u32 v (length pre + 17 + 65536 * n * 4) = Inl RangeError" using assms(2) by (simp add: dv_get_def)
  have "deserializeYasRingBuffer v offset = Inl RangeError"
    using p t c e by (simp add: deserializeYasRingBuffer_def assms(4) Let_def ac_simps)
  then show ?thesis by (simp add: v_def)
qed

section \<open>Properties\<close>

text \<open>
  C39. A message that the client sends and that has raw bytes or nothing as its data is read back as
  it was: purpose, sender and data, for every sender of plain letters.  What \<^verbatim>\<open>TextDecoder\<close> must do is
  give back the characters of bytes below 128.
\<close>

theorem deserialize_serialize:
  assumes "\<And>s. list_all (\<lambda>c. (of_char c :: nat) < 128) s \<Longrightarrow> decode (char_bytes s) = s"
    and "list_all (\<lambda>c. (of_char c :: nat) < 128) sender" "length sender < 2 ^ 64" "purpose < 2 ^ 16"
    and "data = Null \<or> (\<exists>b. data = BinaryData b)"
  shows "\<exists>frame. serializeYasMessage data sender purpose = Inr frame
    \<and> deserializeYasMessage decode parse frame = Inr \<lparr>msg_purpose = purpose, msg_data = Some data, msg_sender = sender\<rparr>"
  using assms(5)
proof (elim disjE exE)
  assume "data = Null"
  then show ?thesis using assms(1) [OF assms(2)] assms(3,4)
    by (simp add: serializeYasMessage_layout deserialize_header)
next
  fix b assume "data = BinaryData b"
  then show ?thesis using assms(1) [OF assms(2)] assms(3,4)
    by (simp add: serializeYasMessage_layout deserialize_header)
qed

theorem deserialize_serialize_witness:
  "\<exists>frame. serializeYasMessage (BinaryData [1, 2]) ''svc'' 0 = Inr frame
    \<and> deserializeYasMessage (map (\<lambda>b. char_of (unat b))) (\<lambda>_. None) frame
        = Inr \<lparr>msg_purpose = 0, msg_data = Some (BinaryData [1, 2]), msg_sender = ''svc''\<rparr>"
proof (rule deserialize_serialize)
  show "map (\<lambda>b. char_of (unat b)) (char_bytes s) = s" if "list_all (\<lambda>c. (of_char c :: nat) < 128) s" for s
    using that by (induction s) (simp_all add: char_bytes_def unat_of_nat)
  show "list_all (\<lambda>c. (of_char c :: nat) < 128) ''svc''" by simp
qed simp_all

text \<open>
  A ring buffer that the client writes is refused by its own reader: the writer gives the type
  four bytes and the reader takes two, so the count is read sixteen bits too high and the samples
  run past the end of the frame.
\<close>

theorem ringBuffer_not_read_back:
  assumes "decode (char_bytes sender) = sender" "length sender < 2 ^ 64" "purpose < 2 ^ 16"
    and "length array = 4 * n" "0 < n" "n < 2 ^ 46"
  shows "\<exists>frame. serializeYasMessage (FloatRingBuffer array i ts) sender purpose = Inr frame
    \<and> deserializeYasMessage decode parse frame = Inl RangeError"
proof -
  have m: "length array mod 4 = 0" using assms(4) by simp
  have "deserializeYasRingBuffer (message_header purpose 1 sender @ ring_layout 4 array i ts) (19 + length sender) = Inl RangeError"
    by (rule deserializeYasRingBuffer_misread [OF assms(4-6)]) simp
  then show ?thesis using assms(1-3) m
    by (simp add: serializeYasMessage_layout serializeYasRingBuffer_layout deserialize_header)
qed

theorem ringBuffer_not_read_back_witness:
  "\<exists>frame. serializeYasMessage (FloatRingBuffer [0, 0, 0, 0] 7 9) [] 0 = Inr frame
    \<and> deserializeYasMessage (\<lambda>_. []) (\<lambda>_. None) frame = Inl RangeError"
  by (rule ringBuffer_not_read_back [where n = 1]) simp_all

text \<open>
  A ring buffer with a type of two bytes, as the reader documents it, is read exactly: its
  samples, its id and its timestamp, whatever follows it.
\<close>

theorem ringBuffer_read:
  assumes "decode (char_bytes sender) = sender" "length sender < 2 ^ 64" "purpose < 2 ^ 16"
    and "length array mod 4 = 0" "length array div 4 < 2 ^ 64" "0 \<le> i" "i < 2 ^ 32" "0 \<le> ts" "ts < 2 ^ 64"
  shows "deserializeYasMessage decode parse (message_header purpose 1 sender @ ring_layout 2 array i ts @ post)
    = Inr \<lparr>msg_purpose = purpose, msg_data = Some (FloatRingBuffer array i ts), msg_sender = sender\<rparr>"
proof -
  have "deserializeYasRingBuffer (message_header purpose 1 sender @ ring_layout 2 array i ts @ post) (19 + length sender)
      = Inr (FloatRingBuffer array (i mod 2 ^ 32) (ts mod 2 ^ 64))"
    by (rule deserializeYasRingBuffer_reads [OF assms(4,5)]) simp
  then show ?thesis using assms by (simp add: deserialize_header)
qed

theorem ringBuffer_read_witness:
  "deserializeYasMessage (\<lambda>_. []) (\<lambda>_. None) (message_header 0 1 [] @ ring_layout 2 [0, 0, 128, 63] 7 9 @ [])
    = Inr \<lparr>msg_purpose = 0, msg_data = Some (FloatRingBuffer [0, 0, 128, 63] 7 9), msg_sender = []\<rparr>"
  by (rule ringBuffer_read) simp_all

text \<open>
  No read goes past the end of a frame: one too short for its fixed fields is refused, never
  read as something else.
\<close>

theorem deserializeYasMessage_short:
  assumes "length buffer < 19"
  shows "deserializeYasMessage decode parse buffer \<in> {Inl RangeError, Inl InvalidHeader}"
proof -
  have u: "u64 buffer 11 = Inl RangeError" using assms by (simp add: dv_get_def)
  have g: "dv_get le_value w buffer k = Inl RangeError \<or> (\<exists>n. dv_get le_value w buffer k = Inr n)" for w k
    by (auto simp: dv_get_def)
  have "parseYasHeader buffer 0 \<in> {Inl RangeError, Inl InvalidHeader, Inr 7}"
    by (auto simp: parseYasHeader_def dv_get_def)
  then consider (err) "parseYasHeader buffer 0 \<in> {Inl RangeError, Inl InvalidHeader}" | (ok) "parseYasHeader buffer 0 = Inr 7" by blast
  then show ?thesis
  proof cases
    case err
    then show ?thesis by (auto simp: deserializeYasMessage_def)
  next
    case ok
    have n: "(7 :: nat) + 2 = 9" "(7 :: nat) + 4 = 11" by simp_all
    show ?thesis using g [of 2 7] g [of 2 9] unfolding deserializeYasMessage_def ok and_then.simps n
      by (elim disjE exE) (simp_all only: and_then.simps u insert_iff simp_thms)
  qed
qed

theorem deserializeYasMessage_short_witness:
  "deserializeYasMessage (\<lambda>_. []) (\<lambda>_. None) (fields_bytes yasHeader) \<in> {Inl RangeError, Inl InvalidHeader}"
  by (rule deserializeYasMessage_short) simp

end
