(* ===== verification/BridgeFrame.thy ===== *)
theory BridgeFrame
  imports WireBytes JsJson
begin

text \<open>
  Binary frames of the coordinator bridge (\<^verbatim>\<open>hkp-frontend/src/views/cloud/bridgeBinary.ts\<close>): a length
  of four bytes, big-endian, a JSON header of that length, and the payload.  \<^verbatim>\<open>TextDecoder.decode\<close> and
  \<^verbatim>\<open>JSON.parse\<close> are parameters.
\<close>

section \<open>Values and shapes\<close>

text \<open>
  A pipeline value: plain JSON, bytes, an array buffer, a ring buffer, or an object whose \<^verbatim>\<open>binary\<close>
  field is bytes, given by its other fields.
\<close>

datatype PipeValue =
    PipeJson jsval
  | PipeBytes bytes
  | PipeArrayBuffer bytes
  | PipeRing bytes jsnum jsnum
  | PipeMixed obj bytes

datatype BinaryShape = ShapeBytes | ShapeRing jsnum jsnum | ShapeMixed obj

definition toBinaryValue :: "PipeValue \<Rightarrow> (BinaryShape \<times> bytes) option" where
  "toBinaryValue value =
     (case value of
        PipeRing array i ts \<Rightarrow> Some (ShapeRing i ts, array)
      | PipeBytes b \<Rightarrow> Some (ShapeBytes, b)
      | PipeArrayBuffer b \<Rightarrow> Some (ShapeBytes, b)
      | PipeMixed json binary \<Rightarrow> Some (ShapeMixed json, binary)
      | PipeJson v \<Rightarrow> None)"

fun fromBinaryValue :: "BinaryShape \<times> bytes \<Rightarrow> PipeValue" where
  "fromBinaryValue (ShapeBytes, bytes) = PipeBytes bytes"
| "fromBinaryValue (ShapeRing i ts, bytes) = PipeRing bytes i ts"
| "fromBinaryValue (ShapeMixed json, bytes) = PipeMixed json bytes"

section \<open>Frames\<close>

fun shape_json :: "BinaryShape \<Rightarrow> jsval" where
  "shape_json ShapeBytes = JObj [(''kind'', JStr ''bytes'')]"
| "shape_json (ShapeRing i ts) = JObj [(''kind'', JStr ''floatRingBuffer''), (''id'', JNum i), (''ts'', JNum ts)]"
| "shape_json (ShapeMixed json) = JObj [(''kind'', JStr ''mixed''), (''json'', JObj json)]"

text \<open>\<^verbatim>\<open>TextEncoder\<close>: UTF-8 of code units below 256.\<close>

definition utf8_char :: "char \<Rightarrow> bytes" where
  "utf8_char c =
     (let n = of_char c :: nat in
      if n < 128 then [word_of_nat n] else [word_of_nat (192 + n div 64), word_of_nat (128 + n mod 64)])"

definition utf8 :: "string \<Rightarrow> bytes" where
  "utf8 s = concat (map utf8_char s)"

definition frame_header :: "obj \<Rightarrow> BinaryShape \<Rightarrow> jsval" where
  "frame_header header shape = JObj (oput ''binary'' (shape_json shape) header)"

text \<open>\<^verbatim>\<open>frame.set(bytes, offset)\<close>.\<close>

definition typed_set :: "bytes \<Rightarrow> bytes \<Rightarrow> nat \<Rightarrow> wire_error + bytes" where
  "typed_set frame bs offset = dv_set (\<lambda>_. bs) (length bs) frame offset 0"

definition encodeBinaryFrame :: "obj \<Rightarrow> BinaryShape \<times> bytes \<Rightarrow> wire_error + bytes" where
  "encodeBinaryFrame header value =
     (let head = utf8 (json_text (frame_header header (fst value)));
          frame = replicate (4 + length head + length (snd value)) 0 in
      and_then (dv_set (be_bytes 4) 4 frame 0 (length head)) (\<lambda>frame.
      and_then (typed_set frame head 4) (\<lambda>frame.
      typed_set frame (snd value) (4 + length head))))"

definition number_or_zero :: "jsval \<Rightarrow> jsnum" where
  "number_or_zero v = (case v of JNum n \<Rightarrow> n | _ \<Rightarrow> Dec 0 0)"

definition readShape :: "jsval \<Rightarrow> BinaryShape option" where
  "readShape value =
     (case value of
        JObj o' \<Rightarrow>
          if oget o' ''kind'' = JStr ''bytes'' then Some ShapeBytes
          else if oget o' ''kind'' = JStr ''floatRingBuffer'' then
            Some (ShapeRing (number_or_zero (oget o' ''id'')) (number_or_zero (oget o' ''ts'')))
          else if oget o' ''kind'' = JStr ''mixed'' then
            Some (ShapeMixed (case oget o' ''json'' of JObj json \<Rightarrow> json | _ \<Rightarrow> []))
          else None
      | _ \<Rightarrow> None)"

definition decodeBinaryFrame ::
  "(bytes \<Rightarrow> string) \<Rightarrow> (string \<Rightarrow> jsval option) \<Rightarrow> bytes \<Rightarrow> (obj \<times> (BinaryShape \<times> bytes)) option" where
  "decodeBinaryFrame decode parse raw =
     (if length raw < 4 then None
      else
        let headLength = be_value (take 4 raw); stop = 4 + headLength in
        if length raw < stop then None
        else
          (case parse (decode (slice raw 4 (4 + headLength))) of
             Some (JObj parsed) \<Rightarrow>
               (case readShape (oget parsed ''binary'') of
                  None \<Rightarrow> None
                | Some shape \<Rightarrow> Some (omit [''binary''] parsed, (shape, drop stop raw)))
           | _ \<Rightarrow> None))"

section \<open>Facts\<close>

lemma encodeBinaryFrame_layout:
  "encodeBinaryFrame header value =
    (let head = utf8 (json_text (frame_header header (fst value)))
     in Inr (be_bytes 4 (length head) @ head @ snd value))"
proof -
  define head where "head = utf8 (json_text (frame_header header (fst value)))"
  have "encodeBinaryFrame header value = Inr (be_bytes 4 (length head) @ head @ snd value)"
    unfolding encodeBinaryFrame_def head_def [symmetric] Let_def
    by (simp add: dv_set_def typed_set_def)
  then show ?thesis by (simp add: head_def Let_def)
qed

lemma readShape_json: "readShape (shape_json shape) = Some shape"
  by (cases shape) (simp_all add: readShape_def number_or_zero_def)

lemma omit_oput_frame: "distinct (okeys header) \<Longrightarrow> k \<notin> set (okeys header) \<Longrightarrow> omit [k] (oput k v header) = header"
proof -
  assume k: "k \<notin> set (okeys header)"
  have "omit [k] (oput k v es) = es" if "k \<notin> set (okeys es)" for es
    using that
  proof (induction es)
    case (Cons p es)
    have "filter (\<lambda>(k', v). k' \<noteq> k) es = es" using Cons.prems by (force simp: filter_id_conv)
    then show ?case using Cons by (cases p) (auto simp: omit_def)
  qed (simp add: omit_def)
  then show ?thesis using k by blast
qed

lemma oget_oput_same: "oget (oput k v es) k = v"
  by (simp add: oget_def)

section \<open>Properties\<close>

text \<open>
  What crosses the bridge arrives: a value that is not JSON is framed under a header, and the
  frame is read back as that header and that value, an array buffer as its bytes.  Relied on are
  that \<^verbatim>\<open>JSON.parse\<close> reads back the text of the header and that \<^verbatim>\<open>TextDecoder\<close> reads back UTF-8.
\<close>

theorem decodeBinaryFrame_encode:
  assumes "toBinaryValue v = Some value" "''binary'' \<notin> set (okeys header)" "distinct (okeys header)"
    and "parse (json_text (frame_header header (fst value))) = Some (frame_header header (fst value))"
    and "\<And>s. decode (utf8 s) = s" "length (utf8 (json_text (frame_header header (fst value)))) < 2 ^ 32"
  shows "\<exists>frame. encodeBinaryFrame header value = Inr frame \<and> decodeBinaryFrame decode parse frame = Some (header, value)
    \<and> fromBinaryValue value = (case v of PipeArrayBuffer b \<Rightarrow> PipeBytes b | _ \<Rightarrow> v)"
proof -
  define head where "head = utf8 (json_text (frame_header header (fst value)))"
  have l: "length head < 256 ^ 4" using assms(6) by (simp add: head_def)
  let ?f = "be_bytes 4 (length head) @ head @ snd value"
  have "be_value (take 4 ?f) = length head" using l by (simp add: be_value_bytes)
  moreover have "slice ?f 4 (4 + length head) = head"
    using slice_here [of "be_bytes 4 (length head)" head "snd value"] by simp
  moreover have "decode head = json_text (frame_header header (fst value))" by (simp add: head_def assms(5))
  moreover have "drop (4 + length head) ?f = snd value" by simp
  ultimately have "decodeBinaryFrame decode parse ?f = Some (header, (fst value, snd value))"
    using assms(2-4)
    by (simp add: decodeBinaryFrame_def frame_header_def oget_oput_same readShape_json omit_oput_frame)
  moreover have "encodeBinaryFrame header value = Inr ?f"
    by (simp add: encodeBinaryFrame_layout head_def Let_def)
  moreover have "fromBinaryValue value = (case v of PipeArrayBuffer b \<Rightarrow> PipeBytes b | _ \<Rightarrow> v)"
    using assms(1) by (cases v) (auto simp: toBinaryValue_def)
  ultimately show ?thesis by simp
qed

text \<open>
  A frame cut off in its length or its header is no frame, however much of it arrived.
\<close>

theorem decodeBinaryFrame_cut:
  assumes "encodeBinaryFrame header value = Inr frame" "length frame - length (snd value) < 2 ^ 32"
    and "k < length frame - length (snd value)"
  shows "decodeBinaryFrame decode parse (take k frame) = None"
proof -
  define head where "head = utf8 (json_text (frame_header header (fst value)))"
  have f: "frame = be_bytes 4 (length head) @ head @ snd value"
    using assms(1) by (simp add: encodeBinaryFrame_layout head_def Let_def)
  show ?thesis
  proof (cases "k < 4")
    case True
    then have "length (take k frame) < 4" by simp
    then show ?thesis unfolding decodeBinaryFrame_def by (rule if_P)
  next
    case False
    have l: "length head < 256 ^ 4" "k < 4 + length head" using assms(2,3) by (simp_all add: f)
    define t where "t = take k frame"
    have "take 4 t = be_bytes 4 (length head)" using False by (simp add: t_def f)
    then have "be_value (take 4 t) = length head" using l(1) by (simp add: be_value_bytes)
    moreover have "length t < 4 + length head" using l(2) by (simp add: t_def)
    ultimately have "decodeBinaryFrame decode parse t = None" by (simp add: decodeBinaryFrame_def Let_def)
    then show ?thesis by (simp add: t_def)
  qed
qed

text \<open>A decoder of what \<open>utf8\<close> writes, and a reader of one header: the parameters can be as assumed.\<close>

fun utf8_decode :: "bytes \<Rightarrow> string" where
  "utf8_decode [] = []"
| "utf8_decode [b] = [char_of (unat b)]"
| "utf8_decode (b # c # cs) =
     (if unat b < 128 then char_of (unat b) # utf8_decode (c # cs)
      else char_of ((unat b - 192) * 64 + (unat c - 128)) # utf8_decode cs)"

lemma utf8_decode_ascii: "n < 128 \<Longrightarrow> utf8_decode (word_of_nat n # bs) = char_of n # utf8_decode bs"
  by (cases bs) (simp_all add: unat_of_nat)

lemma utf8_decode_utf8: "utf8_decode (utf8 s) = s"
proof (induction s)
  case (Cons c s)
  have n: "(of_char c :: nat) < 256" by simp
  then have q: "(of_char c :: nat) div 64 < 4" by (simp add: less_mult_imp_div_less)
  have m: "(of_char c :: nat) mod 64 < 64" by simp
  have e: "(of_char c :: nat) div 64 * 64 + of_char c mod 64 = of_char c" by (rule div_mult_mod_eq)
  show ?case
  proof (cases "(of_char c :: nat) < 128")
    case True
    then show ?thesis using Cons by (simp add: utf8_def utf8_char_def utf8_decode_ascii)
  next
    case False
    have "unat (word_of_nat (192 + of_char c div 64) :: 8 word) = 192 + of_char c div 64"
        "unat (word_of_nat (128 + of_char c mod 64) :: 8 word) = 128 + of_char c mod 64"
      using q m by (simp_all only: unat_of_nat) simp_all
    then show ?thesis using False Cons e
      by (simp add: utf8_def utf8_char_def Let_def del: of_nat_add)
  qed
qed (simp add: utf8_def)

theorem decodeBinaryFrame_encode_witness:
  "\<exists>frame. encodeBinaryFrame [(''type'', JStr ''result'')] (ShapeMixed [(''w'', JNull)], [1, 2]) = Inr frame
    \<and> decodeBinaryFrame utf8_decode
        (\<lambda>_. Some (frame_header [(''type'', JStr ''result'')] (ShapeMixed [(''w'', JNull)]))) frame
      = Some ([(''type'', JStr ''result'')], (ShapeMixed [(''w'', JNull)], [1, 2]))"
proof -
  have v: "toBinaryValue (PipeMixed [(''w'', JNull)] [1, 2]) = Some (ShapeMixed [(''w'', JNull)], [1, 2])"
    by (simp add: toBinaryValue_def)
  have h: "''binary'' \<notin> set (okeys [(''type'', JStr ''result'')])" "distinct (okeys [(''type'', JStr ''result'')])" by simp_all
  have "length (utf8 (json_text (frame_header [(''type'', JStr ''result'')] (ShapeMixed [(''w'', JNull)])))) = 61" by code_simp
  then show ?thesis
    using decodeBinaryFrame_encode [OF v h, where decode = utf8_decode
      and parse = "\<lambda>_. Some (frame_header [(''type'', JStr ''result'')] (ShapeMixed [(''w'', JNull)]))"]
    by (auto simp: utf8_decode_utf8)
qed

theorem decodeBinaryFrame_cut_witness:
  "decodeBinaryFrame utf8_decode (\<lambda>_. None)
     (take 5 (be_bytes 4 (length (utf8 (json_text (frame_header [] ShapeBytes)))) @ utf8 (json_text (frame_header [] ShapeBytes)) @ [7])) = None"
proof (rule decodeBinaryFrame_cut)
  show "encodeBinaryFrame [] (ShapeBytes, [7]) =
      Inr (be_bytes 4 (length (utf8 (json_text (frame_header [] ShapeBytes)))) @ utf8 (json_text (frame_header [] ShapeBytes)) @ [7])"
    by (simp add: encodeBinaryFrame_layout Let_def)
  have l: "length (utf8 (json_text (frame_header [] ShapeBytes))) = 27" by code_simp
  show "length (be_bytes 4 (length (utf8 (json_text (frame_header [] ShapeBytes)))) @ utf8 (json_text (frame_header [] ShapeBytes)) @ [7])
      - length (snd (ShapeBytes, [7 :: 8 word])) < 2 ^ 32"
    "5 < length (be_bytes 4 (length (utf8 (json_text (frame_header [] ShapeBytes)))) @ utf8 (json_text (frame_header [] ShapeBytes)) @ [7])
      - length (snd (ShapeBytes, [7 :: 8 word]))"
    by (simp_all add: l)
qed

end
