(* ===== verification/Presets.thy ===== *)
theory Presets
  imports BoardBlocks Secrets JsJson
begin

text \<open>
  Presets (\<^verbatim>\<open>hkp-frontend/src/core/presets.ts\<close>): a service's configuration as a document, read from a
  file, made from a service, and as the definition of a block.  A preset is the object it is in the
  code.  A thrown error is the left of a sum, its message.
\<close>

section \<open>Reading a preset\<close>

definition PRESET_FORMAT :: string where
  "PRESET_FORMAT = ''v1''"

definition isBoardField :: "string \<Rightarrow> bool" where
  "isBoardField key = starts_with ''__hkp'' key"

definition not_a :: "string \<Rightarrow> string \<Rightarrow> string" where
  "not_a what reason = ''Not a '' @ what @ '': '' @ reason"

text \<open>\<^verbatim>\<open>Object.entries\<close> copied one by one, the board's own fields left out.\<close>

definition withoutBoardFields :: "obj \<Rightarrow> obj" where
  "withoutBoardFields es = from_entries (filter (\<lambda>(key, entry). \<not> isBoardField key) es)"

text \<open>Kebab-case: \<^verbatim>\<open>[^a-z0-9]+\<close> becomes a dash, and a dash at either end goes.\<close>

definition is_slug_char :: "char \<Rightarrow> bool" where
  "is_slug_char c = (is_lower c \<or> is_digit c)"

definition trim_dash :: "string \<Rightarrow> string" where
  "trim_dash s =
     (let t = (case s of CHR ''-'' # r \<Rightarrow> r | _ \<Rightarrow> s)
      in if t \<noteq> [] \<and> last t = CHR ''-'' then butlast t else t)"

definition slug :: "string \<Rightarrow> string" where
  "slug name = trim_dash (replace_with (run_of (\<lambda>c. \<not> is_slug_char c)) (\<lambda>_ _. ''-'') (toLowerCase name))"

text \<open>The map \<^verbatim>\<open>seen\<close> from a tag in lower case to the tag as it first came.\<close>

definition see_tag :: "jsval \<Rightarrow> (string \<times> string) list \<Rightarrow> (string \<times> string) list" where
  "see_tag entry seen =
     (case entry of
        JStr s \<Rightarrow>
          let tag = js_trim s
          in if tag \<noteq> [] \<and> toLowerCase tag \<notin> fst ` set seen then seen @ [(toLowerCase tag, tag)] else seen
      | _ \<Rightarrow> seen)"

definition normalizeTags :: "jsval \<Rightarrow> jsval" where
  "normalizeTags v =
     (case v of
        JArr entries \<Rightarrow>
          let seen = fold see_tag entries []
          in if seen \<noteq> [] then JArr (map (\<lambda>(_, tag). JStr tag) seen) else JUndef
      | _ \<Rightarrow> JUndef)"

text \<open>\<^verbatim>\<open>typeof v === "string" && v\<close>.\<close>

definition some_text :: "jsval \<Rightarrow> bool" where
  "some_text v = (is_str v \<and> v \<noteq> JStr [])"

fun is_plain :: "jsval \<Rightarrow> bool" where
  "is_plain (JObj es) = True"
| "is_plain _ = False"

definition parsePresetBody :: "obj \<Rightarrow> string \<Rightarrow> string + obj" where
  "parsePresetBody raw what =
     (if \<not> some_text (oget raw ''serviceId'') then Inl (not_a what ''\"serviceId\" is missing'')
      else if \<not> some_text (oget raw ''name'') then Inl (not_a what ''\"name\" is missing'')
      else if \<not> is_plain (oget raw ''state'') then Inl (not_a what ''\"state\" is missing or not an object'')
      else if oget raw ''params'' \<noteq> JUndef \<and> \<not> is_plain (oget raw ''params'')
      then Inl (not_a what ''\"params\" is not an object'')
      else
        Inr (ospread (from_entries raw)
          [(''id'', if some_text (oget raw ''id'') then oget raw ''id'' else JStr (slug (to_str (oget raw ''name'')))),
           (''name'', oget raw ''name''),
           (''serviceId'', oget raw ''serviceId''),
           (''tags'', normalizeTags (oget raw ''tags'')),
           (''state'', JObj (withoutBoardFields (js_obj (oget raw ''state''))))]))"

definition parsePreset :: "jsval \<Rightarrow> string + obj" where
  "parsePreset v =
     (case v of
        JObj raw \<Rightarrow>
          if oget raw ''preset'' \<noteq> JStr PRESET_FORMAT then
            Inl (not_a ''preset''
              (if oget raw ''preset'' = JUndef
               then ''no \"preset\" field (expected \"'' @ PRESET_FORMAT @ ''\")''
               else ''unknown format \"'' @ to_str (oget raw ''preset'') @ ''\" (this build reads \"'' @ PRESET_FORMAT @ ''\")''))
          else
            (case parsePresetBody raw ''preset'' of
               Inl e \<Rightarrow> Inl e
             | Inr body \<Rightarrow> Inr (oput ''preset'' (JStr PRESET_FORMAT) body))
      | _ \<Rightarrow> Inl (not_a ''preset'' ''not a JSON object''))"

definition parseBlockDefinition :: "jsval \<Rightarrow> string + obj" where
  "parseBlockDefinition v =
     (case v of
        JObj raw \<Rightarrow>
          (case parsePresetBody raw ''block'' of
             Inl e \<Rightarrow> Inl e
           | Inr definition \<Rightarrow>
               if toCanonicalServiceId (to_str (oget definition ''serviceId'')) \<noteq> ''sub-service''
               then Inl (not_a ''block'' ''\"serviceId\" must name a sub-service'')
               else
                 (case field (oget definition ''state'') ''pipeline'' of
                    JArr _ \<Rightarrow> Inr definition
                  | _ \<Rightarrow> Inl (not_a ''block'' ''\"state.pipeline\" is missing or not an array'')))
      | _ \<Rightarrow> Inl (not_a ''block'' ''not a JSON object''))"

definition isUsableAsBlock :: "obj \<Rightarrow> bool" where
  "isUsableAsBlock preset =
     (if \<not> truthy (oget preset ''params'') \<or> js_obj (oget preset ''params'') = [] then False
      else case parseBlockDefinition (JObj preset) of Inr _ \<Rightarrow> True | Inl _ \<Rightarrow> False)"

text \<open>A file is what \<^verbatim>\<open>JSON.parse\<close> makes of its text, or the message of what it throws.\<close>

definition parseEach :: "jsval list \<Rightarrow> string + obj list" where
  "parseEach entries =
     foldr (\<lambda>entry rest.
         case parsePreset entry of Inl e \<Rightarrow> Inl e | Inr p \<Rightarrow> (case rest of Inl e \<Rightarrow> Inl e | Inr ps \<Rightarrow> Inr (p # ps)))
       entries (Inr [])"

definition parsePresetFile :: "string + jsval \<Rightarrow> string + obj list" where
  "parsePresetFile parsed =
     (case parsed of
        Inl message \<Rightarrow> Inl (not_a ''preset'' (''invalid JSON ('' @ message @ '')''))
      | Inr v \<Rightarrow>
          (case field v ''presets'' of
             JArr entries \<Rightarrow> parseEach entries
           | _ \<Rightarrow> (case parsePreset v of Inl e \<Rightarrow> Inl e | Inr p \<Rightarrow> Inr [p])))"

section \<open>Using and making a preset\<close>

definition presetState :: "(nat \<Rightarrow> 8 word list) \<Rightarrow> obj \<Rightarrow> nat \<Rightarrow> jsval \<times> nat" where
  "presetState rng preset calls =
     (let params = js_obj (oget preset ''params'');
          (made, calls') = generatedParams rng params calls []
      in (fst (substituteParams (ospread (from_entries params) made) (oget preset ''state'') []), calls'))"

definition presetSecrets :: "obj \<Rightarrow> string list" where
  "presetSecrets preset = referencedSecrets (oget preset ''state'')"

definition presetFromService :: "obj \<Rightarrow> obj \<Rightarrow> string \<Rightarrow> obj \<Rightarrow> obj" where
  "presetFromService service state name extra =
     oput ''state'' (JObj (withoutBoardFields state))
       (ospread
         (from_entries
           [(''preset'', JStr PRESET_FORMAT), (''id'', JStr (slug name)), (''name'', JStr name),
            (''serviceId'', oget service ''serviceId''), (''serviceName'', JStr name)])
         extra)"

text \<open>\<^verbatim>\<open>/^https:\/\/github\.com\/([^/]+)\/([^/]+)\/blob\/(.+)$/\<close>.\<close>

definition presetFetchUrl :: "string \<Rightarrow> string" where
  "presetFetchUrl url =
     (case strip ''https://github.com/'' url of
        None \<Rightarrow> url
      | Some a \<Rightarrow>
          let owner = takeWhile (\<lambda>c. c \<noteq> CHR ''/'') a;
              b = drop (Suc (length owner)) a;
              repo = takeWhile (\<lambda>c. c \<noteq> CHR ''/'') b
          in (case strip ''/blob/'' (drop (length repo) b) of
                None \<Rightarrow> url
              | Some rest \<Rightarrow>
                  if owner \<noteq> [] \<and> repo \<noteq> [] \<and> rest \<noteq> [] \<and> CHR 0x0A \<notin> set rest \<and> CHR 0x0D \<notin> set rest
                  then ''https://raw.githubusercontent.com/'' @ owner @ ''/'' @ repo @ ''/'' @ rest
                  else url))"

section \<open>Facts\<close>

lemma oput_present: "map_of es k = Some v \<Longrightarrow> oput k v es = es"
proof (induction k v es rule: oput.induct)
  case (2 k v k' v' es)
  show ?case
  proof (cases "k = k'")
    case False
    then have m: "map_of es k = Some v" using "2.prems" by simp
    then have "k \<in> set (okeys es)" by (force dest: map_of_SomeD)
    with 2 m False show ?thesis by simp
  qed (use "2.prems" in simp)
qed simp

lemma js_trim_again [simp]: "js_trim (js_trim s) = js_trim s"
proof -
  have d: "dropWhile is_space t = t" if "t = [] \<or> \<not> is_space (hd t)" for t
    using that by (cases t) auto
  define t where "t = dropWhile is_space s"
  define u where "u = rev (dropWhile is_space (rev t))"
  have t: "t = [] \<or> \<not> is_space (hd t)" using hd_dropWhile [of is_space s] by (auto simp: t_def)
  have u1: "dropWhile is_space (rev u) = rev u"
    using hd_dropWhile [of is_space "rev t"] by (intro d) (auto simp: u_def)
  obtain sp where "rev t = sp @ rev u"
    using takeWhile_dropWhile_id [of is_space "rev t"] by (metis rev_rev_ident u_def)
  then have "t = u @ rev sp" by (metis rev_append rev_rev_ident)
  then have "u = [] \<or> \<not> is_space (hd u)" using t by (cases u) auto
  then have "dropWhile is_space u = u" by (rule d)
  with u1 show ?thesis by (simp add: js_trim_def u_def t_def)
qed

text \<open>The tags kept are trimmed, and no two are one in lower case.\<close>

definition tags_ok :: "(string \<times> string) list \<Rightarrow> bool" where
  "tags_ok seen \<longleftrightarrow>
     distinct (map fst seen) \<and> (\<forall>(low, tag) \<in> set seen. low = toLowerCase tag \<and> js_trim tag = tag \<and> tag \<noteq> [])"

lemma tags_ok_fold: "tags_ok seen \<Longrightarrow> tags_ok (fold see_tag entries seen)"
proof (induction entries arbitrary: seen)
  case (Cons v entries)
  have "tags_ok (see_tag v seen)"
    using Cons.prems by (cases v) (auto simp: see_tag_def tags_ok_def Let_def image_iff)
  then show ?case using Cons.IH by simp
qed simp

lemma tags_again: "tags_ok (done @ new) \<Longrightarrow> fold see_tag (map (\<lambda>(_, tag). JStr tag) new) done = done @ new"
proof (induction new arbitrary: "done")
  case (Cons p new)
  obtain low tag where p: "p = (low, tag)" by fastforce
  have "see_tag (JStr tag) done = done @ [p]"
    using Cons.prems by (auto simp: see_tag_def tags_ok_def p Let_def)
  then show ?case using Cons.IH [of "done @ [p]"] Cons.prems by (simp add: p)
qed simp

lemma normalizeTags_idem: "normalizeTags (normalizeTags v) = normalizeTags v"
proof (cases v)
  case (JArr entries)
  define seen where "seen = fold see_tag entries []"
  have "tags_ok seen" unfolding seen_def by (rule tags_ok_fold) (simp add: tags_ok_def)
  then have "fold see_tag (map (\<lambda>(_, tag). JStr tag) seen) [] = seen" using tags_again [of "[]" seen] by simp
  then show ?thesis using JArr by (cases seen) (simp_all add: normalizeTags_def seen_def [symmetric] Let_def)
qed (simp_all add: normalizeTags_def)

lemma canon_from_entries: "canon_keys (okeys (from_entries es))"
  unfolding from_entries_def by (rule canon_keys_ospread) (simp add: canon_keys_def)

lemma withoutBoardFields_keys: "key \<in> set (okeys (withoutBoardFields es)) \<Longrightarrow> \<not> isBoardField key"
proof -
  assume "key \<in> set (okeys (withoutBoardFields es))"
  then have "key \<in> set (okeys (filter (\<lambda>(key, entry). \<not> isBoardField key) es))"
    unfolding withoutBoardFields_def from_entries_def set_okeys_ospread by simp
  then show ?thesis by auto
qed

lemma withoutBoardFields_idem: "withoutBoardFields (withoutBoardFields es) = withoutBoardFields es"
proof -
  have "filter (\<lambda>(key, entry). \<not> isBoardField key) (withoutBoardFields es) = withoutBoardFields es"
    using withoutBoardFields_keys [of _ es] by (intro filter_True) (force simp: image_iff)
  moreover have "from_entries (withoutBoardFields es) = withoutBoardFields es"
    by (rule from_entries_canon) (simp add: withoutBoardFields_def canon_from_entries)
  ultimately show ?thesis by (simp add: withoutBoardFields_def)
qed

lemma oget_from_entries: "distinct (okeys es) \<Longrightarrow> oget (from_entries es) k = oget es k"
  by (simp add: oget_def map_of_from_entries)

lemma parsePresetBody_get:
  assumes "parsePresetBody raw what = Inr body" "distinct (okeys raw)"
  shows "oget body k =
     (if k = ''id'' then if some_text (oget raw ''id'') then oget raw ''id'' else JStr (slug (to_str (oget raw ''name'')))
      else if k = ''tags'' then normalizeTags (oget raw ''tags'')
      else if k = ''state'' then JObj (withoutBoardFields (js_obj (oget raw ''state'')))
      else oget raw k)"
    and "some_text (oget raw ''serviceId'')" "some_text (oget raw ''name'')" "is_plain (oget raw ''state'')"
    and "oget raw ''params'' = JUndef \<or> is_plain (oget raw ''params'')" "canon_keys (okeys body)"
    and "{''id'', ''name'', ''serviceId'', ''tags'', ''state''} \<subseteq> set (okeys body)"
proof -
  have b: "body = ospread (from_entries raw)
      [(''id'', if some_text (oget raw ''id'') then oget raw ''id'' else JStr (slug (to_str (oget raw ''name'')))),
       (''name'', oget raw ''name''), (''serviceId'', oget raw ''serviceId''), (''tags'', normalizeTags (oget raw ''tags'')),
       (''state'', JObj (withoutBoardFields (js_obj (oget raw ''state''))))]"
    using assms(1) unfolding parsePresetBody_def by (simp split: if_splits)
  show "oget body k =
     (if k = ''id'' then if some_text (oget raw ''id'') then oget raw ''id'' else JStr (slug (to_str (oget raw ''name'')))
      else if k = ''tags'' then normalizeTags (oget raw ''tags'')
      else if k = ''state'' then JObj (withoutBoardFields (js_obj (oget raw ''state'')))
      else oget raw k)"
    by (simp add: b ospread_def oget_from_entries [OF assms(2)])
  show "canon_keys (okeys body)" unfolding b by (rule canon_keys_ospread [OF canon_from_entries])
  show "{''id'', ''name'', ''serviceId'', ''tags'', ''state''} \<subseteq> set (okeys body)"
    unfolding b set_okeys_ospread by auto
qed (use assms(1) in \<open>auto simp: parsePresetBody_def split: if_splits\<close>)

text \<open>What a preset is, apart from its marker: nothing a reading of it would change.\<close>

definition is_body :: "obj \<Rightarrow> bool" where
  "is_body p \<longleftrightarrow> canon_keys (okeys p) \<and> {''id'', ''name'', ''serviceId'', ''tags'', ''state''} \<subseteq> set (okeys p)
     \<and> some_text (oget p ''serviceId'') \<and> some_text (oget p ''name'')
     \<and> (some_text (oget p ''id'') \<or> oget p ''id'' = JStr (slug (to_str (oget p ''name''))))
     \<and> oget p ''tags'' = normalizeTags (oget p ''tags'')
     \<and> (\<exists>st. oget p ''state'' = JObj st \<and> withoutBoardFields st = st)
     \<and> (oget p ''params'' = JUndef \<or> is_plain (oget p ''params''))"

lemma parsePresetBody_is_body:
  assumes "parsePresetBody raw what = Inr body" "distinct (okeys raw)"
  shows "is_body body"
  unfolding is_body_def parsePresetBody_get(1) [OF assms]
  using parsePresetBody_get(2-) [OF assms] by (simp add: normalizeTags_idem withoutBoardFields_idem)

lemma oput_get_same: "k \<in> set (okeys es) \<Longrightarrow> oput k (oget es k) es = es"
  by (rule oput_present) (auto simp: oget_def weak_map_of_SomeI split: option.splits)

lemma ospread_same: "set ks \<subseteq> set (okeys es) \<Longrightarrow> ospread es (map (\<lambda>k. (k, oget es k)) ks) = es"
proof (induction ks)
  case (Cons k ks)
  then show ?case using oput_get_same [of k es] by (simp add: ospread_def)
qed simp

lemma is_body_parse:
  assumes "is_body p"
  shows "parsePresetBody p what = Inr p"
proof -
  obtain st where st: "oget p ''state'' = JObj st" "withoutBoardFields st = st" using assms by (auto simp: is_body_def)
  have i: "(if some_text (oget p ''id'') then oget p ''id'' else JStr (slug (to_str (oget p ''name'')))) = oget p ''id''"
    using assms by (auto simp: is_body_def)
  have t: "normalizeTags (oget p ''tags'') = oget p ''tags''" using assms by (simp add: is_body_def)
  have "ospread p (map (\<lambda>k. (k, oget p k)) [''id'', ''name'', ''serviceId'', ''tags'', ''state'']) = p"
    by (rule ospread_same) (use assms in \<open>simp add: is_body_def\<close>)
  then have o: "ospread p
      [(''id'', oget p ''id''), (''name'', oget p ''name''), (''serviceId'', oget p ''serviceId''),
       (''tags'', oget p ''tags''), (''state'', JObj st)] = p"
    by (simp add: st)
  have f: "from_entries p = p" using assms by (simp add: is_body_def from_entries_canon)
  have c: "some_text (oget p ''serviceId'')" "some_text (oget p ''name'')" "is_plain (oget p ''state'')"
    "\<not> (oget p ''params'' \<noteq> JUndef \<and> \<not> is_plain (oget p ''params''))"
    using assms st by (auto simp: is_body_def)
  show ?thesis unfolding parsePresetBody_def i t f using c st o by simp
qed

section \<open>Properties\<close>

text \<open>
  C32. Reading is stable and leaves nothing of a board behind: what was read as a preset, or as the
  definition of a block, is read again as itself; it has an id, a name and the service it
  configures, its tags differ in lower case, and its state has none of the board's own fields.
\<close>

theorem parsePreset_stable:
  assumes "wf_js v"
  shows "(\<forall>p. parsePreset v = Inr p \<longrightarrow> parsePreset (JObj p) = Inr p \<and> is_body p)
    \<and> (\<forall>d. parseBlockDefinition v = Inr d \<longrightarrow> parseBlockDefinition (JObj d) = Inr d \<and> is_body d)"
proof (intro conjI allI impI)
  fix p assume "parsePreset v = Inr p"
  then obtain raw body where v: "v = JObj raw" and b: "parsePresetBody raw ''preset'' = Inr body"
    and p: "p = oput ''preset'' (JStr PRESET_FORMAT) body" and f: "oget raw ''preset'' = JStr PRESET_FORMAT"
    by (auto simp: parsePreset_def split: jsval.splits if_splits sum.splits)
  have d: "distinct (okeys raw)" using assms wf_js_distinct v by simp
  have g: "oget body ''preset'' = JStr PRESET_FORMAT" using parsePresetBody_get(1) [OF b d] f by simp
  then have mo: "map_of body ''preset'' = Some (JStr PRESET_FORMAT)"
    by (auto simp: oget_def split: option.splits)
  have same: "p = body" by (simp add: p oput_present [OF mo])
  with g have m: "oget p ''preset'' = JStr PRESET_FORMAT" by simp
  have body: "is_body p" using parsePresetBody_is_body [OF b d] same by simp
  have "oput ''preset'' (JStr PRESET_FORMAT) p = p" unfolding same by (rule oput_present [OF mo])
  with m show "parsePreset (JObj p) = Inr p" by (simp add: parsePreset_def is_body_parse [OF body])
  show "is_body p" by (rule body)
next
  fix d assume "parseBlockDefinition v = Inr d"
  then obtain raw where v: "v = JObj raw" and b: "parsePresetBody raw ''block'' = Inr d"
    and c: "toCanonicalServiceId (to_str (oget d ''serviceId'')) = ''sub-service''"
    and "\<exists>xs. field (oget d ''state'') ''pipeline'' = JArr xs"
    by (auto simp: parseBlockDefinition_def split: jsval.splits if_splits sum.splits)
  then obtain xs where x: "field (oget d ''state'') ''pipeline'' = JArr xs" by blast
  have body: "is_body d" by (rule parsePresetBody_is_body [OF b]) (use assms wf_js_distinct v in simp)
  then show "parseBlockDefinition (JObj d) = Inr d" by (simp add: parseBlockDefinition_def is_body_parse c x)
  show "is_body d" by (rule body)
qed

theorem parsePreset_stable_witness:
  "\<exists>p. parsePreset (JObj [(''preset'', JStr ''v1''), (''name'', JStr ''Text to Speech!''), (''serviceId'', JStr ''http-client''),
        (''tags'', JArr [JStr ''Audio '', JStr ''audio'']), (''state'', JObj [(''__hkpMount'', JStr ''m''), (''url'', JStr ''u'')])]) = Inr p
     \<and> oget p ''id'' = JStr ''text-to-speech'' \<and> oget p ''tags'' = JArr [JStr ''Audio'']
     \<and> oget p ''state'' = JObj [(''url'', JStr ''u'')] \<and> parsePreset (JObj p) = Inr p"
proof -
  let ?v = "JObj [(''preset'', JStr ''v1''), (''name'', JStr ''Text to Speech!''), (''serviceId'', JStr ''http-client''),
        (''tags'', JArr [JStr ''Audio '', JStr ''audio'']), (''state'', JObj [(''__hkpMount'', JStr ''m''), (''url'', JStr ''u'')])]"
  have w: "wf_js ?v" by code_simp
  have "(case parsePreset ?v of Inr p \<Rightarrow> (oget p ''id'', oget p ''tags'', oget p ''state'') | Inl _ \<Rightarrow> (JUndef, JUndef, JUndef))
      = (JStr ''text-to-speech'', JArr [JStr ''Audio''], JObj [(''url'', JStr ''u'')])" by code_simp
  then obtain p where p: "parsePreset ?v = Inr p" "oget p ''id'' = JStr ''text-to-speech'' \<and> oget p ''tags'' = JArr [JStr ''Audio'']
      \<and> oget p ''state'' = JObj [(''url'', JStr ''u'')]"
    by (cases "parsePreset ?v") auto
  with p show ?thesis using parsePreset_stable [OF w] by blast
qed

end
