(* ===== verification/PresetLibrary.thy ===== *)
theory PresetLibrary
  imports Presets "HOL-Library.AList"
begin

text \<open>
  The presets a device keeps (\<^verbatim>\<open>hkp-frontend/src/core/presets.ts\<close>, from \<^verbatim>\<open>PresetStorage\<close> on): a list in
  local storage, or files in a store the host attaches.  Writes to a file are asynchronous and run
  one after another; each takes what the file is to hold when its turn comes.  An asynchronous
  function is cut at its awaits.  A stored text is what \<^verbatim>\<open>JSON.parse\<close> makes of it.  A session attaches
  one store, as \<^verbatim>\<open>PlatformProvider\<close> does, though more than once when it could not be listed.
\<close>

section \<open>State\<close>

type_synonym stored = "string + jsval"

text \<open>
  \<open>lib_local\<close> is what the key of local storage holds, \<^const>\<open>JUndef\<close> when nothing that can be read, and
  \<^const>\<open>None\<close> where local storage throws.  A write is queued, and then on its way to the host with
  what it writes, \<^const>\<open>None\<close> to remove the file; the flag marks the writes of \<^verbatim>\<open>attachPresetStorage\<close>,
  which waits for each: \<open>lib_moving\<close> are the files it has still to write, and \<^verbatim>\<open>allMoved\<close>.
\<close>

record Library =
  lib_local :: "jsval option"
  lib_attached :: bool
  lib_files :: "(string \<times> stored) list"
  lib_held :: "(obj \<times> string) list option"
  lib_known :: "string list"
  lib_queue :: "(string \<times> bool) list"
  lib_flight :: "(string \<times> bool \<times> jsval option) list"
  lib_moving :: "(string list \<times> bool) option"

definition newLibrary :: "jsval option \<Rightarrow> (string \<times> stored) list \<Rightarrow> Library" where
  "newLibrary local files =
     \<lparr>lib_local = local, lib_attached = False, lib_files = files, lib_held = None, lib_known = [],
      lib_queue = [], lib_flight = [], lib_moving = None\<rparr>"

section \<open>Names and texts\<close>

definition isSame :: "obj \<Rightarrow> obj \<Rightarrow> bool" where
  "isSame a b =
     (oget a ''id'' = oget b ''id''
      \<and> toCanonicalServiceId (to_str (oget a ''serviceId'')) = toCanonicalServiceId (to_str (oget b ''serviceId'')))"

definition presetFileStem :: "obj \<Rightarrow> string" where
  "presetFileStem p =
     slug (toCanonicalServiceId (to_str (oget p ''serviceId''))) @ ''--''
     @ (let i = slug (to_str (oget p ''id'')) in if i = [] then ''preset'' else i)"

definition presetFileName :: "obj \<Rightarrow> string" where
  "presetFileName p = presetFileStem p @ ''.json''"

text \<open>The names \<open>base-2.json\<close>, \<open>base-3.json\<close> and so on that are taken, without their ending.\<close>

definition json_stems :: "string list \<Rightarrow> string list" where
  "json_stems names = map (\<lambda>f. take (length f - 5) f) (filter (ends_with ''.json'') names)"

definition freeFileName :: "obj \<Rightarrow> Library \<Rightarrow> string \<times> Library" where
  "freeFileName p s =
     (let file = (if presetFileName p \<in> set (lib_known s)
                  then first_free (presetFileStem p) (json_stems (lib_known s)) 2 @ ''.json''
                  else presetFileName p)
      in (file, s\<lparr>lib_known := set_add file (lib_known s)\<rparr>))"

definition readLocalPresets :: "Library \<Rightarrow> obj list" where
  "readLocalPresets s =
     (case lib_local s of
        Some (JArr entries) \<Rightarrow> List.map_filter (\<lambda>entry. case parsePreset entry of Inr p \<Rightarrow> Some p | Inl _ \<Rightarrow> None) entries
      | _ \<Rightarrow> [])"

definition writeLocalPresets :: "obj list \<Rightarrow> Library \<Rightarrow> Library" where
  "writeLocalPresets presets s =
     (case lib_local s of None \<Rightarrow> s | Some _ \<Rightarrow> s\<lparr>lib_local := Some (written_down (JArr (map JObj presets)))\<rparr>)"

definition readStoredFiles :: "(string \<times> stored) list \<Rightarrow> (obj \<times> string) list" where
  "readStoredFiles files =
     concat (map (\<lambda>(file, source). case parsePresetFile source of Inr ps \<Rightarrow> map (\<lambda>p. (p, file)) ps | Inl _ \<Rightarrow> []) files)"

section \<open>Writing\<close>

definition inFile :: "(obj \<times> string) list \<Rightarrow> string \<Rightarrow> obj list" where
  "inFile held file = map fst (filter (\<lambda>(p, f). f = file) held)"

definition fileContent :: "obj list \<Rightarrow> jsval option" where
  "fileContent presets =
     (case presets of
        [] \<Rightarrow> None
      | [p] \<Rightarrow> Some (written_down (JObj p))
      | _ \<Rightarrow> Some (written_down (JObj [(''presets'', JArr (map JObj presets))])))"

definition persistFile :: "string \<Rightarrow> bool \<Rightarrow> Library \<Rightarrow> Library" where
  "persistFile file moves s = s\<lparr>lib_queue := lib_queue s @ [(file, moves)]\<rparr>"

text \<open>What \<^verbatim>\<open>attachPresetStorage\<close> does once a write it waits for has ended.\<close>

definition continueMove :: "bool \<Rightarrow> Library \<Rightarrow> Library" where
  "continueMove ok s =
     (case lib_moving s of
        None \<Rightarrow> s
      | Some (f # fs, allMoved) \<Rightarrow> persistFile f True (s\<lparr>lib_moving := Some (fs, ok \<and> allMoved)\<rparr>)
      | Some ([], allMoved) \<Rightarrow>
          s\<lparr>lib_moving := None,
            lib_local := (if ok \<and> allMoved then map_option (\<lambda>_. JUndef) (lib_local s) else lib_local s)\<rparr>)"

text \<open>\<^verbatim>\<open>writeFile\<close>, to where it waits for the host: the \<open>n\<close>-th write that is queued.\<close>

definition beginWrite :: "nat \<Rightarrow> Library \<Rightarrow> Library" where
  "beginWrite n s =
     (let (file, moves) = lib_queue s ! n;
          s' = s\<lparr>lib_queue := take n (lib_queue s) @ drop (Suc n) (lib_queue s)\<rparr>
      in if \<not> lib_attached s \<or> lib_held s = None then (if moves then continueMove False s' else s')
         else s'\<lparr>lib_flight := lib_flight s @ [(file, moves, fileContent (inFile (the (lib_held s)) file))]\<rparr>)"

definition endWrite :: "nat \<Rightarrow> bool \<Rightarrow> Library \<Rightarrow> Library" where
  "endWrite n ok s =
     (let (file, moves, content) = lib_flight s ! n;
          s' = s\<lparr>lib_flight := take n (lib_flight s) @ drop (Suc n) (lib_flight s),
                 lib_files :=
                   (if ok then
                      (case content of
                         None \<Rightarrow> AList.delete file (lib_files s)
                       | Some v \<Rightarrow> AList.update file (Inr v) (lib_files s))
                    else lib_files s)\<rparr>
      in if moves then continueMove ok s' else s')"

section \<open>Operations\<close>

definition attachPresetStorage :: "Library \<Rightarrow> Library" where
  "attachPresetStorage s = (if lib_attached s then s else s\<lparr>lib_attached := True, lib_held := None\<rparr>)"

text \<open>\<^verbatim>\<open>attachPresetStorage\<close> from where the store has been listed, or could not be.\<close>

definition storageListed :: "bool \<Rightarrow> Library \<Rightarrow> Library" where
  "storageListed ok s =
     (if \<not> ok then s\<lparr>lib_attached := False\<rparr>
      else
        let read = readStoredFiles (lib_files s);
            legacy = filter (\<lambda>preset. \<not> (\<exists>entry \<in> set read. isSame (fst entry) preset)) (readLocalPresets s);
            (names, s1) = map_state freeFileName legacy (s\<lparr>lib_known := remdups (map fst (lib_files s))\<rparr>);
            moved = zip legacy names;
            s2 = s1\<lparr>lib_held := Some (read @ moved)\<rparr>
        in (case map snd moved of
              [] \<Rightarrow> s2
            | f # fs \<Rightarrow> persistFile f True (s2\<lparr>lib_moving := Some (fs, True)\<rparr>)))"

definition savedPresets :: "Library \<Rightarrow> obj list" where
  "savedPresets s =
     (case (if lib_attached s then lib_held s else None) of
        Some held \<Rightarrow> map fst held
      | None \<Rightarrow> readLocalPresets s)"

text \<open>The first entry for which a test holds, replaced; \<^const>\<open>None\<close> takes it out.\<close>

fun replace_first :: "('a \<Rightarrow> bool) \<Rightarrow> 'a option \<Rightarrow> 'a list \<Rightarrow> 'a list" where
  "replace_first P y [] = []"
| "replace_first P y (x # xs) =
     (if P x then (case y of Some z \<Rightarrow> z # xs | None \<Rightarrow> xs) else x # replace_first P y xs)"

definition savePreset :: "obj \<Rightarrow> Library \<Rightarrow> Library" where
  "savePreset preset s =
     (case (if lib_attached s then lib_held s else None) of
        Some held \<Rightarrow>
          (case find (\<lambda>entry. isSame (fst entry) preset) held of
             Some (_, file) \<Rightarrow>
               persistFile file False
                 (s\<lparr>lib_held := Some (replace_first (\<lambda>entry. isSame (fst entry) preset) (Some (preset, file)) held)\<rparr>)
           | None \<Rightarrow>
               let (file, s1) = freeFileName preset s
               in persistFile file False (s1\<lparr>lib_held := Some (held @ [(preset, file)])\<rparr>))
      | None \<Rightarrow>
          writeLocalPresets
            (filter (\<lambda>entry. \<not> (oget entry ''id'' = oget preset ''id'' \<and> oget entry ''serviceId'' = oget preset ''serviceId''))
               (readLocalPresets s) @ [preset]) s)"

definition removeSavedPreset :: "string \<Rightarrow> string \<Rightarrow> Library \<Rightarrow> Library" where
  "removeSavedPreset serviceId i s =
     (let key = [(''serviceId'', JStr serviceId), (''id'', JStr i)]
      in case (if lib_attached s then lib_held s else None) of
        Some held \<Rightarrow>
          (case find (\<lambda>entry. isSame (fst entry) key) held of
             Some (_, file) \<Rightarrow>
               persistFile file False
                 (s\<lparr>lib_held := Some (replace_first (\<lambda>entry. isSame (fst entry) key) None held)\<rparr>)
           | None \<Rightarrow> s)
      | None \<Rightarrow>
          writeLocalPresets
            (filter (\<lambda>entry. \<not> (oget entry ''id'' = JStr i \<and> oget entry ''serviceId'' = JStr serviceId)) (readLocalPresets s)) s)"

section \<open>A preset written and read again\<close>

text \<open>A preset as a file can hold it by itself: a field \<^verbatim>\<open>presets\<close> would make it a file of several.\<close>

definition ok_preset :: "obj \<Rightarrow> bool" where
  "ok_preset p \<longleftrightarrow> is_body p \<and> oget p ''preset'' = JStr PRESET_FORMAT \<and> (\<forall>xs. oget p ''presets'' \<noteq> JArr xs)"

definition same_preset :: "obj \<Rightarrow> obj \<Rightarrow> bool" where
  "same_preset p q \<longleftrightarrow> (\<forall>k. oget (kept_fields p) k = oget (kept_fields q) k)"

lemma same_preset_refl [simp]: "same_preset p p"
  by (simp add: same_preset_def)

lemma some_textE: "some_text v \<Longrightarrow> (\<And>s. v = JStr s \<Longrightarrow> s \<noteq> [] \<Longrightarrow> thesis) \<Longrightarrow> thesis"
  by (cases v) (auto simp: some_text_def)

lemma some_text_JStr [simp]: "some_text (JStr s) = (s \<noteq> [])"
  by (simp add: some_text_def)

lemma written_down_tags: "written_down (normalizeTags v) = (if normalizeTags v = JUndef then JNull else normalizeTags v)"
  by (cases v) (auto simp: normalizeTags_def Let_def split: prod.splits)

lemma kept_fields_board: "withoutBoardFields st = st \<Longrightarrow> withoutBoardFields (kept_fields st) = kept_fields st"
proof -
  assume st: "withoutBoardFields st = st"
  have c: "canon_keys (okeys st)" using canon_from_entries [of "filter (\<lambda>(key, entry). \<not> isBoardField key) st"] st
    by (simp add: withoutBoardFields_def)
  have "\<not> isBoardField k" if "k \<in> set (okeys (kept_fields st))" for k
    using withoutBoardFields_keys [of k st] that st by (simp add: okeys_kept_fields)
  then have "filter (\<lambda>(key, entry). \<not> isBoardField key) (kept_fields st) = kept_fields st"
    by (intro filter_True) (force simp: image_iff)
  then show ?thesis
    using from_entries_canon [OF canon_keys_kept_fields [OF c]] by (simp add: withoutBoardFields_def)
qed

lemma parse_kept:
  assumes "ok_preset p"
  shows "\<exists>q. parsePreset (JObj (kept_fields p)) = Inr q \<and> (\<forall>k. oget q k = oget (kept_fields p) k) \<and> is_body q"
proof -
  let ?raw = "kept_fields p"
  have body: "is_body p" and fmt: "oget p ''preset'' = JStr PRESET_FORMAT" using assms by (simp_all add: ok_preset_def)
  obtain sid name where t: "oget p ''serviceId'' = JStr sid" "sid \<noteq> []" "oget p ''name'' = JStr name" "name \<noteq> []"
    using body by (auto simp: is_body_def elim!: some_textE)
  obtain i where i: "oget p ''id'' = JStr i" "i = [] \<Longrightarrow> i = slug name"
    using body t by (auto simp: is_body_def elim!: some_textE)
  obtain st where st: "oget p ''state'' = JObj st" "withoutBoardFields st = st" using body by (auto simp: is_body_def)
  have tags: "oget p ''tags'' = normalizeTags (oget p ''tags'')" using body by (simp add: is_body_def)
  have tags': "oget ?raw ''tags'' = oget p ''tags''"
    using written_down_tags [of "oget p ''tags''"] tags by (simp add: oget_kept_fields)
  have pr: "oget p ''params'' = JUndef \<or> is_plain (oget p ''params'')" using body by (simp add: is_body_def)
  then have params: "\<not> (oget ?raw ''params'' \<noteq> JUndef \<and> \<not> is_plain (oget ?raw ''params''))"
    by (cases "oget p ''params''") (auto simp: oget_kept_fields written_down_JObj simp del: written_down.simps(4))
  have f: "oget ?raw ''serviceId'' = JStr sid" "oget ?raw ''name'' = JStr name" "oget ?raw ''id'' = JStr i"
    "oget ?raw ''state'' = JObj (kept_fields st)" "oget ?raw ''preset'' = JStr PRESET_FORMAT"
    using t i st fmt by (simp_all add: oget_kept_fields written_down_JObj del: written_down.simps(4))
  have d: "distinct (okeys ?raw)" using body by (simp add: is_body_def okeys_kept_fields canon_keys_def)
  obtain b where b: "parsePresetBody ?raw ''preset'' = Inr b"
    using params t by (auto simp: parsePresetBody_def f)
  have g: "oget b k = oget ?raw k" for k
    unfolding parsePresetBody_get(1) [OF b d] using i tags' tags st
    by (auto simp: f kept_fields_board)
  have "oget b ''preset'' = JStr PRESET_FORMAT" using g f(5) by simp
  then have "map_of b ''preset'' = Some (JStr PRESET_FORMAT)" by (auto simp: oget_def split: option.splits)
  then have "parsePreset (JObj ?raw) = Inr b" by (simp add: parsePreset_def f b oput_present)
  then show ?thesis using g parsePresetBody_is_body [OF b d] by blast
qed

lemma same_presetI: "(\<And>k. oget q k = oget (kept_fields p) k) \<Longrightarrow> same_preset p q"
  by (simp add: same_preset_def oget_kept_fields)

lemma parseEach_kept:
  "\<forall>p \<in> set ps. ok_preset p \<Longrightarrow> \<exists>qs. parseEach (map (\<lambda>p. JObj (kept_fields p)) ps) = Inr qs \<and> list_all2 same_preset ps qs"
proof (induction ps)
  case (Cons p ps)
  then obtain qs where qs: "parseEach (map (\<lambda>p. JObj (kept_fields p)) ps) = Inr qs" "list_all2 same_preset ps qs" by auto
  obtain q where q: "parsePreset (JObj (kept_fields p)) = Inr q" "\<forall>k. oget q k = oget (kept_fields p) k"
    using parse_kept [of p] Cons.prems by auto
  then have "same_preset p q" by (intro same_presetI) simp
  with qs q show ?case by (simp add: parseEach_def)
qed (simp add: parseEach_def)

lemma parse_content:
  assumes "\<forall>p \<in> set ps. ok_preset p" "fileContent ps = Some v"
  shows "\<exists>qs. parsePresetFile (Inr v) = Inr qs \<and> list_all2 same_preset ps qs"
proof (cases ps rule: remdups_adj.cases)
  case 1
  with assms show ?thesis by (simp add: fileContent_def)
next
  case (2 p)
  then have v: "v = JObj (kept_fields p)" using assms(2) by (simp add: fileContent_def written_down_JObj del: written_down.simps)
  obtain q where q: "parsePreset v = Inr q" "\<forall>k. oget q k = oget (kept_fields p) k"
    using parse_kept [of p] assms(1) 2 v by auto
  have "\<forall>xs. oget (kept_fields p) ''presets'' \<noteq> JArr xs"
    using assms(1) 2 by (cases "oget p ''presets''") (auto simp: oget_kept_fields ok_preset_def)
  then have "parsePresetFile (Inr v) = Inr [q]"
    using q v by (auto simp: parsePresetFile_def split: jsval.splits)
  moreover have "same_preset p q" using q by (intro same_presetI) simp
  ultimately show ?thesis using 2 by auto
next
  case (3 p p' ps')
  then have "v = JObj [(''presets'', JArr (map (\<lambda>p. JObj (kept_fields p)) ps))]"
    using assms(2) by (simp add: fileContent_def comp_def kept_fields_def)
  then show ?thesis using parseEach_kept [OF assms(1)] by (auto simp: parsePresetFile_def)
qed

section \<open>Runs of the library\<close>

text \<open>
  \<open>library_step ok s s'\<close>: something a session does, with \<open>ok\<close> false only where the host fails a write.
  A queued write begins when no earlier one of its file is queued or on its way.
\<close>

inductive library_step :: "bool \<Rightarrow> Library \<Rightarrow> Library \<Rightarrow> bool" where
  step_save: "ok_preset p \<Longrightarrow> library_step ok s (savePreset p s)"
| step_remove: "library_step ok s (removeSavedPreset serviceId i s)"
| step_attach: "library_step ok s (attachPresetStorage s)"
| step_listed: "lib_attached s \<Longrightarrow> lib_held s = None \<Longrightarrow> library_step ok s (storageListed listed s)"
| step_begin: "n < length (lib_queue s) \<Longrightarrow> fst (lib_queue s ! n) \<notin> fst ` set (take n (lib_queue s)) \<Longrightarrow>
    fst (lib_queue s ! n) \<notin> fst ` set (lib_flight s) \<Longrightarrow> library_step ok s (beginWrite n s)"
| step_end: "n < length (lib_flight s) \<Longrightarrow> library_step written s (endWrite n written s)"

text \<open>What a session may start from: files with different names, and presets a file can hold.\<close>

definition startable :: "jsval option \<Rightarrow> (string \<times> stored) list \<Rightarrow> bool" where
  "startable local files \<longleftrightarrow>
     distinct (map fst files)
     \<and> (\<forall>p \<in> fst ` set (readStoredFiles files) \<union> set (readLocalPresets (newLibrary local files)). ok_preset p)"

section \<open>What every run keeps\<close>

text \<open>A file of the store holds the presets the library has for it.\<close>

definition agrees :: "Library \<Rightarrow> string \<Rightarrow> bool" where
  "agrees s f =
     (let ps = inFile (the (lib_held s)) f in
      case map_of (lib_files s) f of
        None \<Rightarrow> ps = []
      | Some source \<Rightarrow> (case parsePresetFile source of Inl _ \<Rightarrow> ps = [] | Inr qs \<Rightarrow> list_all2 same_preset ps qs))"

definition pending :: "Library \<Rightarrow> string \<Rightarrow> bool" where
  "pending s f \<longleftrightarrow> f \<in> fst ` set (lib_queue s) \<or> (\<exists>rest allMoved. lib_moving s = Some (rest, allMoved) \<and> f \<in> set rest)"

definition unread :: "(string \<times> stored) list \<Rightarrow> string set" where
  "unread files = {f. \<exists>source message. map_of files f = Some source \<and> parsePresetFile source = Inl message}"

lemma first_free_json: "first_free stem (json_stems known) 2 @ ''.json'' \<notin> set known"
proof
  assume a: "first_free stem (json_stems known) 2 @ ''.json'' \<in> set known"
  have e: "ends_with ''.json'' (t @ ''.json'')" "take (length (t @ ''.json'') - 5) (t @ ''.json'') = t" for t
    by (simp_all add: ends_with_def starts_with_def)
  have "first_free stem (json_stems known) 2 \<in> (\<lambda>f. take (length f - 5) f) ` {f \<in> set known. ends_with ''.json'' f}"
    using a e by (intro image_eqI [where x = "first_free stem (json_stems known) 2 @ ''.json''"]) auto
  then have "first_free stem (json_stems known) 2 \<in> set (json_stems known)" by (simp add: json_stems_def)
  with first_free_not_taken show False by blast
qed

lemma freeFileName_fresh:
  assumes "freeFileName p s = (name, s')"
  shows "name \<notin> set (lib_known s) \<and> s' = s\<lparr>lib_known := set_add name (lib_known s)\<rparr>"
  using assms first_free_json by (auto simp: freeFileName_def Let_def split: if_splits)

lemma freeFileNames_fresh:
  assumes "map_state freeFileName ps s = (names, s')"
  shows "\<exists>known. s' = s\<lparr>lib_known := known\<rparr> \<and> set known = set names \<union> set (lib_known s)
    \<and> set names \<inter> set (lib_known s) = {} \<and> length names = length ps \<and> distinct names"
  using assms
proof (induction ps arbitrary: s names s')
  case Nil
  then show ?case by (intro exI [of _ "lib_known s"]) auto
next
  case (Cons p ps)
  obtain nm s1 where f: "freeFileName p s = (nm, s1)" by fastforce
  obtain rest where r: "map_state freeFileName ps s1 = (rest, s')" and n: "names = nm # rest"
    using Cons.prems f by (auto split: prod.splits)
  from freeFileName_fresh [OF f] have fr: "nm \<notin> set (lib_known s)" "s1 = s\<lparr>lib_known := set_add nm (lib_known s)\<rparr>" by simp_all
  from Cons.IH [OF r] obtain known where k: "s' = s1\<lparr>lib_known := known\<rparr>" "set known = set rest \<union> set (lib_known s1)"
    "set rest \<inter> set (lib_known s1) = {}" "length rest = length ps" "distinct rest" by blast
  show ?case using fr k n by (intro exI [of _ known]) auto
qed

lemma inFile_append: "inFile (xs @ ys) f = inFile xs f @ inFile ys f"
  by (simp add: inFile_def)

lemma inFile_none: "f \<notin> snd ` set held \<Longrightarrow> inFile held f = []"
  by (induction held) (auto simp: inFile_def)

lemma inFile_readStored:
  "distinct (map fst files) \<Longrightarrow> inFile (readStoredFiles files) f =
     (case map_of files f of None \<Rightarrow> [] | Some source \<Rightarrow> (case parsePresetFile source of Inr ps \<Rightarrow> ps | Inl _ \<Rightarrow> []))"
proof (induction files)
  case (Cons e files)
  obtain g source where e: "e = (g, source)" by fastforce
  have one: "inFile (case parsePresetFile source of Inr ps \<Rightarrow> map (\<lambda>p. (p, g)) ps | Inl _ \<Rightarrow> []) f
      = (if f = g then case parsePresetFile source of Inr ps \<Rightarrow> ps | Inl _ \<Rightarrow> [] else [])"
    by (auto simp: inFile_def comp_def split: sum.splits)
  have "map_of files g = None" using Cons.prems e by (auto simp: map_of_eq_None_iff)
  then show ?case using Cons.IH Cons.prems
    by (simp add: readStoredFiles_def e inFile_append one [simplified])
qed (simp add: readStoredFiles_def inFile_def)

lemma replace_first_found:
  assumes "find P held = Some (q, file)" "case y of None \<Rightarrow> True | Some z \<Rightarrow> snd z = file"
  shows "g \<noteq> file \<Longrightarrow> inFile (replace_first P y held) g = inFile held g"
    and "set (replace_first P y held) \<subseteq> set held \<union> set_option y" "(q, file) \<in> set held"
  using assms
proof (induction held)
  case (Cons x held)
  { case 1 with Cons.IH(1) show ?case by (cases x) (auto simp: inFile_def split: if_splits option.splits)
  next case 2 with Cons.IH(2) show ?case by (cases x) (auto split: if_splits option.splits)
  next case 3 with Cons.IH(3) show ?case by (auto split: if_splits) }
qed simp_all

lemma parse_kept_ok:
  assumes "ok_preset p"
  shows "\<exists>q. parsePreset (JObj (kept_fields p)) = Inr q \<and> ok_preset q"
proof -
  obtain q where q: "parsePreset (JObj (kept_fields p)) = Inr q" "\<forall>k. oget q k = oget (kept_fields p) k" "is_body q"
    using parse_kept [OF assms] by blast
  have "oget q ''preset'' = JStr PRESET_FORMAT" using q(2) assms by (simp add: oget_kept_fields ok_preset_def)
  moreover have "oget q ''presets'' \<noteq> JArr xs" for xs
    using q(2) assms by (cases "oget p ''presets''") (auto simp: oget_kept_fields ok_preset_def)
  ultimately show ?thesis using q by (auto simp: ok_preset_def)
qed

lemma readLocal_write:
  assumes "\<forall>p \<in> set ps. ok_preset p" "\<forall>p \<in> set (readLocalPresets s). ok_preset p"
  shows "\<forall>p \<in> set (readLocalPresets (writeLocalPresets ps s)). ok_preset p"
proof (cases "lib_local s")
  case (Some v)
  have "ok_preset q" if "p \<in> set ps" "parsePreset (JObj (kept_fields p)) = Inr q" for p q
    using parse_kept_ok [of p] that assms(1) by auto
  then show ?thesis using Some
    by (auto simp: writeLocalPresets_def readLocalPresets_def map_filter_def kept_fields_def split: sum.splits)
qed (use assms(2) in \<open>simp add: writeLocalPresets_def\<close>)

definition settled :: "Library \<Rightarrow> string \<Rightarrow> bool" where
  "settled s f =
     (case map_of (lib_flight s) f of
        Some (_, content) \<Rightarrow> content = fileContent (inFile (the (lib_held s)) f)
      | None \<Rightarrow> agrees s f)"

definition held_inv :: "(string \<times> stored) list \<Rightarrow> bool \<Rightarrow> (obj \<times> string) list \<Rightarrow> Library \<Rightarrow> bool" where
  "held_inv files ok held s \<longleftrightarrow>
     (\<forall>(p, f) \<in> set held. ok_preset p \<and> f \<in> set (lib_known s) - unread files)
     \<and> fst ` set (lib_files s) \<subseteq> set (lib_known s)
     \<and> (\<forall>f. pending s f \<or> f \<in> fst ` set (lib_flight s) \<longrightarrow> f \<in> set (lib_known s) - unread files)
     \<and> distinct (map fst (lib_flight s))
     \<and> (ok \<longrightarrow> (\<forall>f. pending s f \<or> settled s f))"

definition lib_inv :: "(string \<times> stored) list \<Rightarrow> bool \<Rightarrow> Library \<Rightarrow> bool" where
  "lib_inv files ok s \<longleftrightarrow>
     distinct (map fst (lib_files s))
     \<and> (\<forall>f \<in> unread files. map_of (lib_files s) f = map_of files f)
     \<and> (\<forall>p \<in> set (readLocalPresets s). ok_preset p)
     \<and> (case lib_held s of
          None \<Rightarrow> lib_files s = files \<and> lib_queue s = [] \<and> lib_flight s = [] \<and> lib_moving s = None
        | Some held \<Rightarrow> lib_attached s \<and> held_inv files ok held s)"

lemma pending_persist [simp]: "pending (persistFile g moves s) f \<longleftrightarrow> f = g \<or> pending s f"
  by (auto simp: pending_def persistFile_def)

lemma pending_continue [simp]: "pending (continueMove ok s) f \<longleftrightarrow> pending s f"
  by (auto simp: pending_def continueMove_def persistFile_def image_iff split: option.splits list.splits prod.splits)

lemma persist_fields [simp]:
  "lib_local (persistFile g m s) = lib_local s" "lib_attached (persistFile g m s) = lib_attached s"
  "lib_files (persistFile g m s) = lib_files s" "lib_held (persistFile g m s) = lib_held s"
  "lib_known (persistFile g m s) = lib_known s" "lib_flight (persistFile g m s) = lib_flight s"
  "lib_moving (persistFile g m s) = lib_moving s"
  by (simp_all add: persistFile_def)

lemma continue_fields [simp]:
  "lib_attached (continueMove ok s) = lib_attached s" "lib_files (continueMove ok s) = lib_files s"
  "lib_held (continueMove ok s) = lib_held s" "lib_known (continueMove ok s) = lib_known s"
  "lib_flight (continueMove ok s) = lib_flight s"
  by (auto simp: continueMove_def persistFile_def split: option.splits list.splits)

lemma continue_local: "p \<in> set (readLocalPresets (continueMove ok s)) \<Longrightarrow> p \<in> set (readLocalPresets s)"
proof -
  assume p: "p \<in> set (readLocalPresets (continueMove ok s))"
  have "lib_local (continueMove ok s) = lib_local s \<or> lib_local (continueMove ok s) = map_option (\<lambda>_. JUndef) (lib_local s)"
    by (auto simp: continueMove_def split: option.splits list.splits)
  then show ?thesis
  proof
    assume "lib_local (continueMove ok s) = lib_local s"
    with p show ?thesis by (simp add: readLocalPresets_def)
  next
    assume "lib_local (continueMove ok s) = map_option (\<lambda>_. JUndef) (lib_local s)"
    with p show ?thesis by (cases "lib_local s") (simp_all add: readLocalPresets_def)
  qed
qed

lemma settled_cong:
  "lib_files s' = lib_files s \<Longrightarrow> lib_flight s' = lib_flight s \<Longrightarrow>
   inFile (the (lib_held s')) f = inFile (the (lib_held s)) f \<Longrightarrow> settled s' f = settled s f"
  by (auto simp: settled_def agrees_def split: option.split)

lemma unread_known: "lib_inv files ok s \<Longrightarrow> lib_held s = Some held \<Longrightarrow> unread files \<subseteq> set (lib_known s)"
proof
  fix f assume i: "lib_inv files ok s" and h: "lib_held s = Some held" and f: "f \<in> unread files"
  then have "map_of (lib_files s) f \<noteq> None" by (auto simp: lib_inv_def unread_def)
  then have "f \<in> fst ` set (lib_files s)" by (simp add: map_of_eq_None_iff)
  with i h show "f \<in> set (lib_known s)" by (auto simp: lib_inv_def held_inv_def)
qed

lemma inv_held_update:
  assumes "lib_inv files ok s" "lib_held s = Some held" "set (lib_known s) \<subseteq> set known" "g \<in> set known - unread files"
    and "\<forall>(q, f) \<in> set held'. ok_preset q \<and> f \<in> set known - unread files"
    and "\<And>f. f \<noteq> g \<Longrightarrow> inFile held' f = inFile held f"
  shows "lib_inv files ok (persistFile g m (s\<lparr>lib_known := known, lib_held := Some held'\<rparr>))"
proof -
  let ?s = "s\<lparr>lib_known := known, lib_held := Some held'\<rparr>"
  have "settled (persistFile g m ?s) f" if "settled s f" "f \<noteq> g" for f
    using that assms(2,6) settled_cong [of "persistFile g m ?s" s f] by simp
  moreover have "pending ?s f = pending s f" for f by (simp add: pending_def)
  moreover have "readLocalPresets (persistFile g m ?s) = readLocalPresets s" by (simp add: readLocalPresets_def)
  moreover have "held_inv files ok held s" using assms(1,2) by (simp add: lib_inv_def)
  ultimately show ?thesis
    using assms by (auto simp: lib_inv_def held_inv_def)
qed

lemma replace_first_subset: "set (replace_first P y held) \<subseteq> set held \<union> set_option y"
  by (induction held) (auto split: option.splits)

lemma inv_replace:
  assumes "lib_inv files ok s" "lib_held s = Some held" "find P held = Some (q, f)"
    and "case y of None \<Rightarrow> True | Some (p, g) \<Rightarrow> ok_preset p \<and> g = f"
  shows "lib_inv files ok (persistFile f m (s\<lparr>lib_held := Some (replace_first P y held)\<rparr>))"
proof -
  have h: "\<forall>(p, f) \<in> set held. ok_preset p \<and> f \<in> set (lib_known s) - unread files"
    using assms(1,2) by (auto simp: lib_inv_def held_inv_def)
  have y: "case y of None \<Rightarrow> True | Some z \<Rightarrow> snd z = f" using assms(4) by (auto split: option.splits)
  have f: "f \<in> set (lib_known s) - unread files" using replace_first_found(3) [OF assms(3) y] h by auto
  have "lib_inv files ok (persistFile f m (s\<lparr>lib_known := lib_known s, lib_held := Some (replace_first P y held)\<rparr>))"
  proof (rule inv_held_update [OF assms(1,2) _ f])
    show "\<forall>(q, f) \<in> set (replace_first P y held). ok_preset q \<and> f \<in> set (lib_known s) - unread files"
      using replace_first_subset [of P y held] h f assms(4) by (fastforce split: option.splits)
  qed (use replace_first_found(1) [OF assms(3) y] in auto)
  then show ?thesis by simp
qed

lemma inv_local:
  assumes "lib_inv files ok s" "\<forall>p \<in> set ps. ok_preset p"
  shows "lib_inv files ok (writeLocalPresets ps s)"
proof -
  have l: "\<forall>p \<in> set (readLocalPresets (writeLocalPresets ps s)). ok_preset p"
    by (rule readLocal_write [OF assms(2)]) (use assms(1) in \<open>simp add: lib_inv_def\<close>)
  obtain v where w: "writeLocalPresets ps s = s\<lparr>lib_local := v\<rparr>"
    by (cases "lib_local s") (auto simp: writeLocalPresets_def intro: that [of "lib_local s"])
  have "held_inv files ok held (s\<lparr>lib_local := v\<rparr>) = held_inv files ok held s" for held
    by (simp add: held_inv_def pending_def settled_def agrees_def cong: option.case_cong)
  with assms(1) l show ?thesis unfolding lib_inv_def w by (cases "lib_held s") auto
qed

lemma inv_save:
  assumes "lib_inv files ok s" "ok_preset p"
  shows "lib_inv files ok (savePreset p s)"
proof (cases "if lib_attached s then lib_held s else None")
  case None
  have "\<forall>q \<in> set (filter (\<lambda>entry. \<not> (oget entry ''id'' = oget p ''id'' \<and> oget entry ''serviceId'' = oget p ''serviceId''))
      (readLocalPresets s) @ [p]). ok_preset q"
    using assms by (auto simp: lib_inv_def)
  with None show ?thesis using inv_local [OF assms(1)] by (simp add: savePreset_def)
next
  case (Some held)
  then have h: "lib_held s = Some held" by (simp split: if_splits)
  show ?thesis
  proof (cases "find (\<lambda>entry. isSame (fst entry) p) held")
    case None
    obtain nm s1 where f: "freeFileName p s = (nm, s1)" by fastforce
    from freeFileName_fresh [OF f] have fr: "nm \<notin> set (lib_known s)" "s1 = s\<lparr>lib_known := set_add nm (lib_known s)\<rparr>" by simp_all
    have "nm \<notin> unread files" using fr(1) unread_known [OF assms(1) h] by blast
    moreover have "held_inv files ok held s" using assms(1) h by (simp add: lib_inv_def)
    ultimately have "lib_inv files ok (persistFile nm False (s\<lparr>lib_known := set_add nm (lib_known s), lib_held := Some (held @ [(p, nm)])\<rparr>))"
      using assms(2) by (intro inv_held_update [OF assms(1) h]) (auto simp: held_inv_def inFile_append inFile_def)
    with Some None f fr show ?thesis by (simp add: savePreset_def)
  next
    case (Some e)
    then obtain q g where e: "find (\<lambda>entry. isSame (fst entry) p) held = Some (q, g)" by (cases e) auto
    have "lib_inv files ok (persistFile g False
        (s\<lparr>lib_held := Some (replace_first (\<lambda>entry. isSame (fst entry) p) (Some (p, g)) held)\<rparr>))"
      by (rule inv_replace [OF assms(1) h e]) (simp add: assms(2))
    with e \<open>(if lib_attached s then lib_held s else None) = Some held\<close> show ?thesis by (simp add: savePreset_def)
  qed
qed

lemma inv_remove: "lib_inv files ok s \<Longrightarrow> lib_inv files ok (removeSavedPreset serviceId i s)"
proof -
  assume a: "lib_inv files ok s"
  let ?key = "[(''serviceId'', JStr serviceId), (''id'', JStr i)]"
  show ?thesis
  proof (cases "if lib_attached s then lib_held s else None")
    case None
    have "\<forall>q \<in> set (filter (\<lambda>entry. \<not> (oget entry ''id'' = JStr i \<and> oget entry ''serviceId'' = JStr serviceId))
        (readLocalPresets s)). ok_preset q"
      using a by (auto simp: lib_inv_def)
    with None show ?thesis using inv_local [OF a] by (simp add: removeSavedPreset_def Let_def)
  next
    case (Some held)
    then have h: "lib_held s = Some held" by (simp split: if_splits)
    show ?thesis
    proof (cases "find (\<lambda>entry. isSame (fst entry) ?key) held")
      case None
      with Some a show ?thesis by (simp add: removeSavedPreset_def)
    next
      case (Some e)
      then obtain q g where e: "find (\<lambda>entry. isSame (fst entry) ?key) held = Some (q, g)" by (cases e) auto
      have "lib_inv files ok (persistFile g False
          (s\<lparr>lib_held := Some (replace_first (\<lambda>entry. isSame (fst entry) ?key) None held)\<rparr>))"
        by (rule inv_replace [OF a h e]) simp
      with e \<open>(if lib_attached s then lib_held s else None) = Some held\<close> show ?thesis
        by (simp add: removeSavedPreset_def)
    qed
  qed
qed

text \<open>What a write that began or ended leaves to \<^verbatim>\<open>attachPresetStorage\<close>.\<close>

lemma inv_continue:
  assumes "lib_inv files ok s"
  shows "lib_inv files ok (if moves then continueMove done s else s)"
proof -
  have l: "\<forall>p \<in> set (readLocalPresets (continueMove done s)). ok_preset p"
    using assms continue_local by (auto simp: lib_inv_def)
  have "settled (continueMove done s) f = settled s f" for f by (rule settled_cong) simp_all
  then have "held_inv files ok held (continueMove done s) = held_inv files ok held s" for held by (simp add: held_inv_def)
  moreover have "lib_held s = None \<Longrightarrow> continueMove done s = s" using assms by (simp add: lib_inv_def continueMove_def)
  ultimately show ?thesis using assms l by (cases "lib_held s") (auto simp: lib_inv_def)
qed

lemma inv_begin:
  assumes "lib_inv files ok s" "n < length (lib_queue s)" "fst (lib_queue s ! n) \<notin> fst ` set (lib_flight s)"
  shows "lib_inv files ok (beginWrite n s)"
proof -
  obtain f m where q: "lib_queue s ! n = (f, m)" by fastforce
  have "lib_queue s \<noteq> []" using assms(2) by auto
  then obtain held where h: "lib_held s = Some held" "lib_attached s" "held_inv files ok held s"
    using assms(1) by (auto simp: lib_inv_def split: option.splits)
  define s' where "s' = s\<lparr>lib_queue := take n (lib_queue s) @ drop (Suc n) (lib_queue s),
      lib_flight := lib_flight s @ [(f, m, fileContent (inFile held f))]\<rparr>"
  have b: "beginWrite n s = s'" using h q by (simp add: beginWrite_def s'_def)
  have set_q: "fst ` set (lib_queue s) = insert f (fst ` (set (take n (lib_queue s)) \<union> set (drop (Suc n) (lib_queue s))))"
    using id_take_nth_drop [OF assms(2)] q by (metis (no_types) Un_insert_right image_insert list.simps(15) set_append fst_conv)
  have p1: "pending s g \<Longrightarrow> g \<noteq> f \<Longrightarrow> pending s' g" for g
    using set_q by (auto simp: pending_def s'_def image_Un)
  have p2: "pending s' g \<Longrightarrow> pending s g" for g
    using set_q by (auto simp: pending_def s'_def image_Un)
  have pf: "pending s f" using set_q by (simp add: pending_def)
  have nf: "map_of (lib_flight s) f = None" using assms(3) q by (simp add: map_of_eq_None_iff)
  have s1: "settled s' f" using nf h by (simp add: settled_def s'_def map_add_def)
  have s2: "settled s' g = settled s g" if "g \<noteq> f" for g
    using that by (auto simp: settled_def agrees_def s'_def map_add_def split: option.splits)
  have d: "distinct (map fst (lib_flight s'))" using h(3) assms(3) q by (auto simp: s'_def held_inv_def)
  have "held_inv files ok held s'"
    unfolding held_inv_def
  proof (intro conjI)
    show "ok \<longrightarrow> (\<forall>g. pending s' g \<or> settled s' g)" using h(3) p1 s1 s2 by (metis held_inv_def)
    show "\<forall>g. pending s' g \<or> g \<in> fst ` set (lib_flight s') \<longrightarrow> g \<in> set (lib_known s') - unread files"
      using h(3) p2 pf by (auto simp: held_inv_def s'_def)
  qed (use h(3) d in \<open>auto simp: held_inv_def s'_def\<close>)
  moreover have "readLocalPresets s' = readLocalPresets s" by (simp add: readLocalPresets_def s'_def)
  ultimately show ?thesis using assms(1) h unfolding b lib_inv_def by (simp add: s'_def)
qed

lemma map_of_without_nth:
  assumes "distinct (map fst xs)" "n < length xs" "xs ! n = (k, v)"
  shows "map_of (take n xs @ drop (Suc n) xs) = (map_of xs)(k := None)" "map_of xs k = Some v"
    "fst ` set (take n xs @ drop (Suc n) xs) \<subseteq> fst ` set xs" "distinct (map fst (take n xs @ drop (Suc n) xs))"
proof -
  have x: "xs = take n xs @ (k, v) # drop (Suc n) xs" using id_take_nth_drop [OF assms(2)] assms(3) by simp
  have d: "distinct (map fst (take n xs @ (k, v) # drop (Suc n) xs))" using assms(1) x by metis
  have k: "map_of (take n xs) k = None" "map_of (drop (Suc n) xs) k = None"
    using d by (auto simp: map_of_eq_None_iff)
  have "map_of xs = map_of (take n xs @ (k, v) # drop (Suc n) xs)" using x by metis
  then show "map_of (take n xs @ drop (Suc n) xs) = (map_of xs)(k := None)" "map_of xs k = Some v"
    using k by (auto simp: fun_eq_iff map_add_def split: option.splits)
  show "fst ` set (take n xs @ drop (Suc n) xs) \<subseteq> fst ` set xs"
    using set_take_subset [of n xs] set_drop_subset [of "Suc n" xs] by auto
  show "distinct (map fst (take n xs @ drop (Suc n) xs))" using d by auto
qed

lemma inv_end:
  assumes "lib_inv files ok s" "n < length (lib_flight s)" "ok \<longrightarrow> written"
  shows "lib_inv files ok (endWrite n written s)"
proof -
  obtain f m c where e: "lib_flight s ! n = (f, m, c)" using prod_cases3 by blast
  have "lib_flight s \<noteq> []" using assms(2) by auto
  then obtain held where h: "lib_held s = Some held" "lib_attached s" "held_inv files ok held s"
    using assms(1) by (auto simp: lib_inv_def split: option.splits)
  have dist: "distinct (map fst (lib_files s))" using assms(1) by (simp add: lib_inv_def)
  define files' where "files' = (if written then (case c of None \<Rightarrow> AList.delete f (lib_files s)
      | Some v \<Rightarrow> AList.update f (Inr v) (lib_files s)) else lib_files s)"
  define s' where "s' = s\<lparr>lib_flight := take n (lib_flight s) @ drop (Suc n) (lib_flight s), lib_files := files'\<rparr>"
  have b: "endWrite n written s = (if m then continueMove written s' else s')"
    using e by (simp add: endWrite_def s'_def files'_def)
  have "distinct (map fst (lib_flight s))" using h(3) by (simp add: held_inv_def)
  note w = map_of_without_nth [OF this assms(2) e]
  have known: "f \<in> set (lib_known s) - unread files"
    using h(3) assms(2) e nth_mem [OF assms(2)] by (auto simp: held_inv_def image_iff)
  have files: "map_of files' g = map_of (lib_files s) g" if "g \<noteq> f" for g
    using that by (auto simp: files'_def update_conv' delete_conv' split: option.splits)
  have keys: "distinct (map fst files')" "fst ` set files' \<subseteq> insert f (fst ` set (lib_files s))"
    using dist by (auto simp: files'_def distinct_update dom_update AList.delete_eq distinct_map_filter split: option.splits)
  have okf: "\<forall>(p, f) \<in> set held. ok_preset p" using h(3) by (auto simp: held_inv_def)
  have p: "pending s' g = pending s g" for g by (simp add: pending_def s'_def)
  have s2: "settled s' g = settled s g" if "g \<noteq> f" for g
    using that w(1) files [OF that] by (simp add: settled_def agrees_def s'_def split: option.splits)
  have s1: "settled s' f" if "settled s f" "written"
  proof -
    have c: "c = fileContent (inFile held f)" using that(1) w(2) h by (simp add: settled_def)
    have ps: "\<forall>p \<in> set (inFile held f). ok_preset p" using okf by (auto simp: inFile_def)
    have "agrees s' f"
    proof (cases c)
      case None
      then have "inFile held f = []" using c by (simp add: fileContent_def split: list.splits)
      then show ?thesis using None that(2) h by (simp add: agrees_def s'_def files'_def delete_conv')
    next
      case (Some v)
      with parse_content [OF ps] c obtain qs where "parsePresetFile (Inr v) = Inr qs" "list_all2 same_preset (inFile held f) qs" by metis
      then show ?thesis using Some that(2) h by (simp add: agrees_def s'_def files'_def update_conv')
    qed
    moreover have "map_of (lib_flight s') f = None" using w(1) by (simp add: s'_def)
    ultimately show ?thesis by (simp add: settled_def)
  qed
  have "held_inv files ok held s'"
    unfolding held_inv_def
  proof (intro conjI)
    show "ok \<longrightarrow> (\<forall>g. pending s' g \<or> settled s' g)" using h(3) p s1 s2 assms(3) by (metis held_inv_def)
    have "fst ` set (lib_flight s') \<subseteq> fst ` set (lib_flight s)" using w(3) by (simp add: s'_def)
    moreover have "lib_known s' = lib_known s" by (simp add: s'_def)
    ultimately show "\<forall>g. pending s' g \<or> g \<in> fst ` set (lib_flight s') \<longrightarrow> g \<in> set (lib_known s') - unread files"
      using h(3) p by (metis (no_types, lifting) held_inv_def subsetD)
    show "fst ` set (lib_files s') \<subseteq> set (lib_known s')" using h(3) keys(2) known by (auto simp: held_inv_def s'_def)
  qed (use h(3) w(4) in \<open>auto simp: held_inv_def s'_def\<close>)
  moreover have "readLocalPresets s' = readLocalPresets s" by (simp add: readLocalPresets_def s'_def)
  moreover have "\<forall>g \<in> unread files. map_of files' g = map_of files g"
    using files known assms(1) by (metis DiffD2 lib_inv_def)
  ultimately have "lib_inv files ok s'" using assms(1) h keys(1) by (simp add: lib_inv_def s'_def)
  from inv_continue [OF this] show ?thesis unfolding b .
qed

lemma readStoredFiles_Cons:
  "readStoredFiles ((g, source) # files)
    = (case parsePresetFile source of Inr ps \<Rightarrow> map (\<lambda>p. (p, g)) ps | Inl _ \<Rightarrow> []) @ readStoredFiles files"
  by (simp add: readStoredFiles_def)

lemma readStored_mem:
  "(p, f) \<in> set (readStoredFiles files) \<Longrightarrow> \<exists>source ps. (f, source) \<in> set files \<and> parsePresetFile source = Inr ps \<and> p \<in> set ps"
proof (induction files)
  case (Cons e files)
  obtain g source where e: "e = (g, source)" by fastforce
  show ?case
  proof (cases "(p, f) \<in> set (readStoredFiles files)")
    case True
    from Cons.IH [OF this] show ?thesis by auto
  next
    case False
    then have "(p, f) \<in> set (case parsePresetFile source of Inr ps \<Rightarrow> map (\<lambda>p. (p, g)) ps | Inl _ \<Rightarrow> [])"
      using Cons.prems readStoredFiles_Cons [of g source files] by (simp add: e)
    then show ?thesis by (cases "parsePresetFile source") (auto simp: e)
  qed
qed (simp add: readStoredFiles_def)

lemma inv_listed:
  assumes "lib_inv files ok s" "lib_attached s" "lib_held s = None" "startable local files"
  shows "lib_inv files ok (storageListed listed s)"
proof (cases listed)
  case False
  with assms show ?thesis by (auto simp: storageListed_def lib_inv_def readLocalPresets_def)
next
  case True
  have s: "lib_files s = files" "lib_queue s = []" "lib_flight s = []" "lib_moving s = None"
    "\<forall>p \<in> set (readLocalPresets s). ok_preset p"
    using assms(1,3) by (auto simp: lib_inv_def)
  have dist: "distinct (map fst files)" and stored: "\<forall>p \<in> fst ` set (readStoredFiles files). ok_preset p"
    using assms(4) by (auto simp: startable_def)
  define legacy where "legacy = filter (\<lambda>preset. \<forall>entry \<in> set (readStoredFiles files). \<not> isSame (fst entry) preset) (readLocalPresets s)"
  define s0 where "s0 = s\<lparr>lib_known := remdups (map fst files)\<rparr>"
  obtain names s1 where n: "map_state freeFileName legacy s0 = (names, s1)" by fastforce
  from freeFileNames_fresh [OF n] obtain known where k: "s1 = s0\<lparr>lib_known := known\<rparr>"
    "set known = set names \<union> set (lib_known s0)" "set names \<inter> set (lib_known s0) = {}" "length names = length legacy" by blast
  define held where "held = readStoredFiles files @ zip legacy names"
  define s2 where "s2 = s\<lparr>lib_known := known, lib_held := Some held\<rparr>"
  define s3 where "s3 = (case names of [] \<Rightarrow> s2 | f # fs \<Rightarrow> persistFile f True (s2\<lparr>lib_moving := Some (fs, True)\<rparr>))"
  have l: "storageListed listed s = s3"
    using True s(1) n k(1,4)
    by (simp add: storageListed_def s0_def s2_def s3_def held_def Let_def legacy_def [symmetric])
       (simp add: legacy_def s2_def held_def split: list.split)
  have pend: "pending s3 f \<longleftrightarrow> f \<in> set names" for f
    using s by (auto simp: s3_def s2_def pending_def persistFile_def split: list.splits)
  have names: "set names \<inter> fst ` set files = {}" using k(3) by (simp add: s0_def)
  have unread: "unread files \<subseteq> fst ` set files"
  proof
    fix f assume "f \<in> unread files"
    then have "map_of files f \<noteq> None" by (auto simp: unread_def)
    then show "f \<in> fst ` set files" by (simp add: map_of_eq_None_iff)
  qed
  have read: "f \<in> fst ` set files \<and> f \<notin> unread files" if "(p, f) \<in> set (readStoredFiles files)" for p f
  proof -
    from readStored_mem [OF that] obtain source ps where f: "(f, source) \<in> set files" "parsePresetFile source = Inr ps"
      by blast
    then have "map_of files f = Some source" using dist by simp
    with f show ?thesis by (force simp: unread_def)
  qed
  have fields: "lib_files s3 = files" "lib_flight s3 = []" "lib_held s3 = Some held" "lib_known s3 = known" "lib_attached s3"
    "readLocalPresets s3 = readLocalPresets s"
    using s assms(2) by (simp_all add: s3_def s2_def readLocalPresets_def persistFile_def split: list.splits)
  have settled: "settled s3 f" if "f \<notin> set names" for f
  proof -
    have "inFile (zip legacy names) f = []" using that by (intro inFile_none) (auto dest: set_zip_rightD)
    then have "inFile held f = (case map_of files f of None \<Rightarrow> [] | Some source \<Rightarrow> (case parsePresetFile source of Inr ps \<Rightarrow> ps | Inl _ \<Rightarrow> []))"
      by (simp add: held_def inFile_append inFile_readStored [OF dist])
    then show ?thesis
      by (simp add: settled_def agrees_def fields list_all2_refl split: option.splits sum.splits)
  qed
  have "held_inv files ok held s3"
    unfolding held_inv_def fields pend
  proof (intro conjI)
    show "\<forall>(p, f) \<in> set held. ok_preset p \<and> f \<in> set known - unread files"
    proof clarify
      fix p f assume "(p, f) \<in> set held"
      then consider "(p, f) \<in> set (readStoredFiles files)" | "(p, f) \<in> set (zip legacy names)" by (auto simp: held_def)
      then show "ok_preset p \<and> f \<in> set known - unread files"
      proof cases
        case 1
        have "ok_preset p" using stored 1 by force
        then show ?thesis using read [OF 1] k(2) by (simp add: s0_def)
      next
        case 2
        from set_zip_leftD [OF this] have "ok_preset p" using s(5) by (simp add: legacy_def)
        moreover from set_zip_rightD [OF 2] have "f \<in> set known" "f \<notin> unread files" using k(2) names unread by auto
        ultimately show ?thesis by simp
      qed
    qed
    show "\<forall>f. f \<in> set names \<or> f \<in> fst ` set ([] :: (string \<times> bool \<times> jsval option) list) \<longrightarrow> f \<in> set known - unread files"
      using names unread k(2) by auto
    show "ok \<longrightarrow> (\<forall>f. f \<in> set names \<or> settled s3 f)" using settled by blast
    show "fst ` set files \<subseteq> set known" using k(2) by (auto simp: s0_def)
  qed simp
  then show ?thesis using s dist unfolding l by (simp add: lib_inv_def fields)
qed

lemma inv_attach: "lib_inv files ok s \<Longrightarrow> lib_inv files ok (attachPresetStorage s)"
proof -
  assume i: "lib_inv files ok s"
  show ?thesis
  proof (cases "lib_attached s")
    case False
    then have "lib_held s = None" using i by (auto simp: lib_inv_def split: option.splits)
    with False i show ?thesis by (auto simp: attachPresetStorage_def lib_inv_def readLocalPresets_def)
  qed (use i in \<open>simp add: attachPresetStorage_def\<close>)
qed

lemma inv_step:
  assumes "library_step ok' s s'" "lib_inv files ok s" "ok \<longrightarrow> ok'" "startable local files"
  shows "lib_inv files ok s'"
  using assms(1,2,3)
  by (cases rule: library_step.cases)
     (auto intro: inv_save inv_remove inv_attach inv_listed [OF _ _ _ assms(4)] inv_begin inv_end)

lemma inv_start: "startable local files \<Longrightarrow> lib_inv files ok (newLibrary local files)"
  by (auto simp: startable_def lib_inv_def newLibrary_def)

text \<open>What a run can reach, with no write failing or with any.\<close>

definition library_reaches :: "bool \<Rightarrow> jsval option \<Rightarrow> (string \<times> stored) list \<Rightarrow> Library \<Rightarrow> bool" where
  "library_reaches ok local files = (\<lambda>s'. (\<lambda>s s'. \<exists>ok'. (ok \<longrightarrow> ok') \<and> library_step ok' s s')\<^sup>*\<^sup>* (newLibrary local files) s')"

lemma inv_reaches:
  assumes "library_reaches ok local files s" "startable local files"
  shows "lib_inv files ok s"
  using assms(1) unfolding library_reaches_def
proof (induction rule: rtranclp_induct)
  case base
  show ?case by (rule inv_start) fact
next
  case (step s s')
  then show ?case using inv_step [OF _ _ _ assms(2)] by blast
qed

section \<open>Properties\<close>

text \<open>
  C15. Presets that were kept are there the next time: when every write has ended and none has failed,
  the store holds, file by file, the presets the session shows, so reading it again gives the same
  ones in the same files; whatever was saved, removed, moved out of local storage or still being
  written in between.
\<close>

theorem library_persists:
  assumes "startable local files" "library_reaches True local files s"
    and "lib_held s = Some held" "lib_queue s = []" "lib_flight s = []" "lib_moving s = None"
  shows "list_all2 same_preset (inFile held f) (inFile (readStoredFiles (lib_files s)) f)
    \<and> savedPresets s = map fst held"
proof -
  have i: "lib_inv files True s" by (rule inv_reaches [OF assms(2,1)])
  then have a: "lib_attached s" and h: "held_inv files True held s" and d: "distinct (map fst (lib_files s))"
    using assms(3) by (simp_all add: lib_inv_def)
  have "\<not> pending s f" using assms(4,6) by (simp add: pending_def)
  then have "agrees s f" using h assms(5) by (auto simp: held_inv_def settled_def)
  then have "list_all2 same_preset (inFile held f) (inFile (readStoredFiles (lib_files s)) f)"
    using assms(3) by (auto simp: agrees_def inFile_readStored [OF d] Let_def split: option.splits sum.splits)
  then show ?thesis using a assms(3) by (auto simp: inFile_def savedPresets_def)
qed

definition example_preset :: obj where
  "example_preset =
     [(''preset'', JStr ''v1''), (''id'', JStr ''a''), (''name'', JStr ''A''), (''serviceId'', JStr ''timer''),
      (''tags'', JUndef), (''state'', JObj [(''periodic'', JBool True)])]"

lemma example_ok: "ok_preset example_preset"
proof -
  have "withoutBoardFields [(''periodic'', JBool True)] = [(''periodic'', JBool True)]" by code_simp
  moreover have "canon_keys (okeys example_preset)" by code_simp
  ultimately show ?thesis
    by (simp add: ok_preset_def is_body_def example_preset_def PRESET_FORMAT_def normalizeTags_def)
qed

text \<open>A session that attaches a store with somebody else's file in it and saves a preset.\<close>

definition example_saved :: Library where
  "example_saved = savePreset example_preset
     (storageListed True (attachPresetStorage (newLibrary (Some JUndef) [(''timer--a.json'', Inl ''m'')])))"

definition example_library :: Library where
  "example_library = endWrite 0 True (beginWrite 0 example_saved)"

lemma example_reaches: "library_reaches ok (Some JUndef) [(''timer--a.json'', Inl ''m'')] example_library"
proof -
  define R where "R = (\<lambda>s s'. \<exists>ok'. (ok \<longrightarrow> ok') \<and> library_step ok' s s')"
  have stepI: "library_step True s s' \<Longrightarrow> R s s'" for s s' by (auto simp: R_def)
  let ?s0 = "newLibrary (Some JUndef) [(''timer--a.json'', Inl ''m'')]"
  have 1: "R ?s0 (attachPresetStorage ?s0)" by (intro stepI step_attach)
  have 2: "R (attachPresetStorage ?s0) (storageListed True (attachPresetStorage ?s0))"
    by (intro stepI step_listed) (simp_all add: attachPresetStorage_def newLibrary_def)
  have 3: "R (storageListed True (attachPresetStorage ?s0)) example_saved"
    unfolding example_saved_def by (intro stepI step_save example_ok)
  have "lib_flight example_saved = []" "0 < length (lib_queue example_saved)" by code_simp+
  then have 4: "R example_saved (beginWrite 0 example_saved)" by (intro stepI step_begin) simp_all
  have "0 < length (lib_flight (beginWrite 0 example_saved))" by code_simp
  then have 5: "R (beginWrite 0 example_saved) example_library"
    unfolding example_library_def by (intro stepI step_end)
  have t: "R\<^sup>*\<^sup>* s s' \<Longrightarrow> R s' s'' \<Longrightarrow> R\<^sup>*\<^sup>* s s''" for s s' s'' by (rule rtranclp.rtrancl_into_rtrancl)
  have "R\<^sup>*\<^sup>* ?s0 example_library" by (rule t [OF t [OF t [OF t [OF r_into_rtranclp [of R, OF 1] 2] 3] 4] 5])
  then show ?thesis unfolding library_reaches_def R_def .
qed

lemma example_startable: "startable (Some JUndef) [(''timer--a.json'', Inl ''m'')]"
  by (simp add: startable_def readStoredFiles_def parsePresetFile_def readLocalPresets_def newLibrary_def)

theorem library_persists_witness:
  "lib_held example_library = Some [(example_preset, ''timer--a-2.json'')]
    \<and> list_all2 same_preset [example_preset] (inFile (readStoredFiles (lib_files example_library)) ''timer--a-2.json'')"
proof -
  have h: "lib_held example_library = Some [(example_preset, ''timer--a-2.json'')]" by code_simp
  have q: "lib_queue example_library = []" "lib_flight example_library = []" "lib_moving example_library = None" by code_simp+
  show ?thesis
    using library_persists [OF example_startable example_reaches h q, of "''timer--a-2.json''"] h
    by (simp add: inFile_def)
qed

text \<open>
  C19. A file that is not a preset is somebody else's: whatever happens in a session, failed writes
  included, a file of the store that could not be read as presets is as it was.
\<close>

theorem library_spares_other_files:
  assumes "startable local files" "library_reaches False local files s"
    and "map_of files f = Some source" "parsePresetFile source = Inl message"
  shows "map_of (lib_files s) f = Some source"
  using inv_reaches [OF assms(2,1)] assms(3,4) by (auto simp: lib_inv_def unread_def)

theorem library_spares_other_files_witness:
  "map_of (lib_files example_library) ''timer--a.json'' = Some (Inl ''m'') \<and> length (lib_files example_library) = 2"
proof -
  have "map_of (lib_files example_library) ''timer--a.json'' = Some (Inl ''m'')"
    by (rule library_spares_other_files [OF example_startable example_reaches]) (simp_all add: parsePresetFile_def)
  moreover have "length (lib_files example_library) = 2" by code_simp
  ultimately show ?thesis by simp
qed

end
