(* ===== verification/BlockLink.thy ===== *)
theory BlockLink
  imports BoardBlocksLinkage Presets
begin

text \<open>
  Blocks linked into a board and back out of it (\<^verbatim>\<open>hkp-frontend/src/core/linkBlocks.ts\<close>): the
  definitions of the board and of its units, every use expanded, what addresses the inside of a use,
  and the board written back.  A descriptor is the object it is in the code; a runtime's id and unit
  are texts.  The dash of a message is a hyphen here, since it is no code unit of the model.
\<close>

section \<open>Linking\<close>

definition blockInvalid :: "string \<Rightarrow> string option \<Rightarrow> string \<Rightarrow> Diagnostic" where
  "blockInvalid document block message =
     (diagnostic Error ''block-invalid'' (if document \<noteq> [] then Some document else None) message)\<lparr>d_block := block\<rparr>"

fun parseList :: "string \<Rightarrow> nat \<Rightarrow> jsval list \<Rightarrow> obj list \<times> Diagnostic list" where
  "parseList document index [] = ([], [])"
| "parseList document index (raw # rest) =
     (let (defs, ds) = parseList document (Suc index) rest
      in case parseBlockDefinition raw of
           Inr d \<Rightarrow> (d # defs, ds)
         | Inl message \<Rightarrow>
             (defs, blockInvalid document (the_str (field raw ''id''))
                      (''Block '' @ show_nat (index + 1) @ '': '' @ message) # ds))"

definition parseDefinitions :: "jsval \<Rightarrow> string \<Rightarrow> obj list option \<times> Diagnostic list" where
  "parseDefinitions listed document =
     (case listed of
        JUndef \<Rightarrow> (None, [])
      | JArr entries \<Rightarrow> (let (defs, ds) = parseList document 0 entries in (Some defs, ds))
      | _ \<Rightarrow> (Some [], [blockInvalid document None ''\"blocks\" is not a list.'']))"

definition addDefinitions :: "string \<Rightarrow> jsval \<Rightarrow> (string \<times> obj list) list \<times> Diagnostic list \<Rightarrow> (string \<times> obj list) list \<times> Diagnostic list" where
  "addDefinitions document listed st =
     (let (theirs, ds) = parseDefinitions listed document
      in (case theirs of Some d \<Rightarrow> oput document d (fst st) | None \<Rightarrow> fst st, snd st @ ds))"

definition definitionsFor :: "obj \<Rightarrow> PlacedUnit list \<Rightarrow> (string \<times> obj list) list \<times> Diagnostic list" where
  "definitionsFor board units =
     fold (\<lambda>unit. addDefinitions (pu_name unit) (oget (pu_source unit) ''blocks'')) units
       (addDefinitions [] (oget board ''blocks'') ([], []))"

text \<open>\<^verbatim>\<open>unitOf.get(runtimeId) ?? ""\<close>; a \<^verbatim>\<open>Map\<close> built from entries holds the last one of a key.\<close>

definition unitOf :: "obj \<Rightarrow> string \<Rightarrow> string" where
  "unitOf board runtimeId =
     (case map_of (rev (map (\<lambda>runtime. (to_str (field runtime ''id''), or_else (field runtime ''unit'') (JStr [])))
                      (js_arr (oget board ''runtimes'')))) runtimeId of
        Some v \<Rightarrow> to_str v
      | None \<Rightarrow> [])"

record LinkedBlocks =
  lb_board :: obj
  lb_linkage :: "BlockLinkage option"
  lb_diagnostics :: "Diagnostic list"

definition linkBlocks :: "(nat \<Rightarrow> 8 word list) \<Rightarrow> obj \<Rightarrow> PlacedUnit list \<Rightarrow> nat \<Rightarrow> LinkedBlocks" where
  "linkBlocks rng board units calls =
     (let (defs, ds) = definitionsFor board units;
          (expanded, out) = expandBlocks rng (js_obj (oget board ''services'')) defs (unitOf board) calls;
          running = from_entries (omit [''blocks''] board)
      in \<lparr>lb_board = oput ''services'' (JObj expanded) running,
          lb_linkage =
            (if out_placed out \<noteq> [] \<or> defs \<noteq> []
             then Some \<lparr>definitions = defs, placed = out_placed out, editing = None\<rparr> else None),
          lb_diagnostics = ds @ out_diagnostics out\<rparr>)"

section \<open>Addresses into uses\<close>

fun facadeAddresses :: "jsval \<Rightarrow> string list" where
  "facadeAddresses (JArr xs) = concat (map facadeAddresses xs)"
| "facadeAddresses (JObj es) =
     concat (map (\<lambda>(k, v). if k = ''serviceUuid'' \<and> is_str v then [to_str v] else facadeAddresses v) es)"
| "facadeAddresses _ = []"

record ConfiguratorTarget =
  ct_address :: string
  ct_target :: string
  ct_targetRuntime :: jsval

definition own_target :: "obj \<Rightarrow> string list \<Rightarrow> ConfiguratorTarget list" where
  "own_target entry here =
     (case (oget entry ''serviceId'', field (oget entry ''state'') ''targetServiceUuid'') of
        (JStr serviceId, JStr target) \<Rightarrow>
          if toCanonicalServiceId serviceId = ''configurator'' \<and> target \<noteq> []
          then [\<lparr>ct_address = join_with ''.'' here, ct_target = target,
                 ct_targetRuntime = field (oget entry ''state'') ''targetRuntime''\<rparr>]
          else []
      | _ \<Rightarrow> [])"

definition here_ids :: "obj \<Rightarrow> string list \<Rightarrow> string list" where
  "here_ids entry ids =
     (case if is_str (oget entry ''instanceId'') then oget entry ''instanceId'' else oget entry ''uuid'' of
        JStr i \<Rightarrow> if is_str (oget entry ''serviceId'') then ids @ [i] else ids
      | _ \<Rightarrow> ids)"

fun configurators :: "jsval \<Rightarrow> string list \<Rightarrow> ConfiguratorTarget list" where
  "configurators (JArr xs) ids = concat (map (\<lambda>x. configurators x ids) xs)"
| "configurators (JObj es) ids =
     (let here = here_ids es ids
      in own_target es here @ concat (map (\<lambda>inner. configurators inner here) (ovalues es)))"
| "configurators _ ids = []"

text \<open>A runtime that is no text is no runtime of a placement.\<close>

definition useAround :: "BlockLinkage \<Rightarrow> string \<Rightarrow> jsval \<Rightarrow> PlacedBlock option" where
  "useAround linkage address runtimeId =
     (case runtimeId of
        JStr r \<Rightarrow> blockUseContaining (Some linkage) address (Some r)
      | v \<Rightarrow> if truthy v then None else blockUseContaining (Some linkage) address None)"

definition refuseAddress :: "BlockLinkage \<Rightarrow> string \<Rightarrow> string \<Rightarrow> jsval \<Rightarrow> Diagnostic list" where
  "refuseAddress linkage who address runtimeId =
     (case useAround linkage address runtimeId of
        None \<Rightarrow> []
      | Some p \<Rightarrow>
          [(diagnostic Warning ''block-address-inside'' None
              (who @ '' addresses \"'' @ address @ ''\", inside a use of block \"'' @ useBlock (pb_use p)
               @ ''\"; that is refused - a use is addressed as a whole and varied through its params.''))
             \<lparr>d_block := Some (useBlock (pb_use p))\<rparr>])"

definition checkConfigurator :: "BlockLinkage \<Rightarrow> string \<Rightarrow> ConfiguratorTarget \<Rightarrow> Diagnostic list" where
  "checkConfigurator linkage runtimeId c =
     (case blockUseContaining (Some linkage) (ct_address c) (Some runtimeId) of
        Some container \<Rightarrow>
          if starts_with (pb_address container @ ''.'') (ct_target c) then []
          else refuseAddress linkage (''Configurator \"'' @ ct_address c @ ''\"'') (ct_target c)
                 (or_else (ct_targetRuntime c) (JStr runtimeId))
      | None \<Rightarrow>
          refuseAddress linkage (''Configurator \"'' @ ct_address c @ ''\"'') (ct_target c)
            (or_else (ct_targetRuntime c) (JStr runtimeId)))"

definition checkAddressesIntoUses :: "obj \<Rightarrow> BlockLinkage option \<Rightarrow> jsval list \<Rightarrow> Diagnostic list" where
  "checkAddressesIntoUses board linkage facades =
     (case linkage of
        None \<Rightarrow> []
      | Some l \<Rightarrow>
          if placed l = [] then []
          else
            concat (map (\<lambda>address. refuseAddress l ''A facade widget'' address JUndef)
              (set_adds (concat (map facadeAddresses facades)) []))
            @ concat (map (\<lambda>(runtimeId, services).
                concat (map (checkConfigurator l runtimeId) (configurators services [])))
              (js_obj (oget board ''services''))))"

section \<open>Writing a board back\<close>

definition unlinkBlocks :: "obj \<Rightarrow> BlockLinkage option \<Rightarrow> bool \<Rightarrow> obj" where
  "unlinkBlocks board linkage ownOnly =
     (case linkage of
        None \<Rightarrow> board
      | Some l \<Rightarrow>
          ospread (from_entries board)
            ((case map_of (definitions l) [] of Some own \<Rightarrow> [(''blocks'', JArr (map JObj own))] | None \<Rightarrow> [])
             @ [(''services'',
                 collapseBlocks (or_else (oget board ''services'') (JObj [])) l (if ownOnly then Some [[]] else None))]))"

definition withUnitBlocks :: "string \<Rightarrow> obj \<Rightarrow> BlockLinkage option \<Rightarrow> obj" where
  "withUnitBlocks name board linkage =
     (case Option.bind linkage (\<lambda>l. map_of (definitions l) name) of
        Some theirs \<Rightarrow> oput ''blocks'' (JArr (map JObj theirs)) (from_entries board)
      | None \<Rightarrow> board)"

section \<open>Facts\<close>

text \<open>
  A document's blocks as linking holds them.  They are sound where each is one, and reads as what its
  text says: reading may only leave a field undefined that the text does not have.
\<close>

definition blocks_read :: "jsval \<Rightarrow> obj list option" where
  "blocks_read listed =
     (case listed of
        JArr entries \<Rightarrow> Some (map (\<lambda>raw. case parseBlockDefinition raw of Inr d \<Rightarrow> d | Inl _ \<Rightarrow> []) entries)
      | _ \<Rightarrow> None)"

definition sound_blocks :: "jsval \<Rightarrow> bool" where
  "sound_blocks listed =
     (case listed of
        JUndef \<Rightarrow> True
      | JArr entries \<Rightarrow>
          list_all (\<lambda>raw. case parseBlockDefinition raw of
              Inr d \<Rightarrow> written_down (JObj d) = written_down raw
            | Inl _ \<Rightarrow> False) entries
      | _ \<Rightarrow> False)"

lemma parseList_sound:
  "sound_blocks (JArr entries) \<Longrightarrow> parseList document n entries = (the (blocks_read (JArr entries)), [])"
  by (induction entries arbitrary: n) (auto simp: sound_blocks_def blocks_read_def split: sum.splits)

lemma parseDefinitions_sound:
  "sound_blocks listed \<Longrightarrow> parseDefinitions listed document = (blocks_read listed, [])"
  by (cases listed) (simp_all add: parseDefinitions_def parseList_sound, simp_all add: sound_blocks_def blocks_read_def)

lemma addDefinitions_sound:
  "sound_blocks listed \<Longrightarrow> addDefinitions document listed st
     = (case blocks_read listed of Some d \<Rightarrow> oput document d (fst st) | None \<Rightarrow> fst st, snd st)"
  by (simp add: addDefinitions_def parseDefinitions_sound)

lemma blocks_read_written:
  "sound_blocks listed \<Longrightarrow> blocks_read listed = Some d \<Longrightarrow> written_down (JArr (map JObj d)) = written_down listed"
proof (cases listed)
  case (JArr entries)
  assume "sound_blocks listed" "blocks_read listed = Some d"
  then show ?thesis
    using JArr by (auto simp: sound_blocks_def blocks_read_def list_all_iff simp del: written_down.simps(5) split: sum.splits)
qed (simp_all add: blocks_read_def)

lemma blocks_read_none: "sound_blocks listed \<Longrightarrow> blocks_read listed = None \<longleftrightarrow> listed = JUndef"
  by (cases listed) (simp_all add: blocks_read_def sound_blocks_def)

lemma added_definitions:
  fixes st :: "(string \<times> obj list) list \<times> Diagnostic list"
  assumes "\<forall>u \<in> set us. sound_blocks (oget (pu_source u) ''blocks'')" "distinct (map pu_name us)"
  defines "defs \<equiv> fold (\<lambda>unit. addDefinitions (pu_name unit) (oget (pu_source unit) ''blocks'')) us st"
  shows "snd defs = snd st" "n \<notin> set (map pu_name us) \<Longrightarrow> map_of (fst defs) n = map_of (fst st) n"
    and "u \<in> set us \<Longrightarrow> map_of (fst st) (pu_name u) = None \<Longrightarrow>
           map_of (fst defs) (pu_name u) = blocks_read (oget (pu_source u) ''blocks'')"
proof -
  let ?add = "\<lambda>unit. addDefinitions (pu_name unit) (oget (pu_source unit) ''blocks'')"
  have *: "snd (fold ?add us st) = snd st" "n \<notin> set (map pu_name us) \<Longrightarrow> map_of (fst (fold ?add us st)) n = map_of (fst st) n"
    if "\<forall>u \<in> set us. sound_blocks (oget (pu_source u) ''blocks'')" for us st n
    using that by (induction us arbitrary: st) (auto simp: addDefinitions_sound split: option.splits)
  show "snd defs = snd st" "n \<notin> set (map pu_name us) \<Longrightarrow> map_of (fst defs) n = map_of (fst st) n"
    unfolding defs_def using * [OF assms(1)] by auto
  have "map_of (fst (fold ?add us st)) (pu_name u) = blocks_read (oget (pu_source u) ''blocks'')"
    if "u \<in> set us" "map_of (fst st) (pu_name u) = None"
    using that assms(1,2)
  proof (induction us arbitrary: st)
    case (Cons v us)
    have v: "sound_blocks (oget (pu_source v) ''blocks'')" and us: "\<forall>u \<in> set us. sound_blocks (oget (pu_source u) ''blocks'')"
      using Cons.prems by simp_all
    show ?case
    proof (cases "u = v")
      case True
      then have "map_of (fst (fold ?add us (?add v st))) (pu_name v) = map_of (fst (?add v st)) (pu_name v)"
        using * (2) [OF us, of "pu_name v"] Cons.prems(4) by simp
      then show ?thesis using True Cons.prems(2) by (simp add: addDefinitions_sound [OF v] split: option.splits)
    next
      case False
      then have "u \<in> set us" "pu_name u \<noteq> pu_name v" using Cons.prems(1,4) by (auto simp: image_iff)
      then show ?thesis
        using Cons.IH [of "?add v st"] Cons.prems(2,4) us by (simp add: addDefinitions_sound [OF v] split: option.splits)
    qed
  qed simp
  then show "u \<in> set us \<Longrightarrow> map_of (fst st) (pu_name u) = None \<Longrightarrow>
      map_of (fst defs) (pu_name u) = blocks_read (oget (pu_source u) ''blocks'')"
    unfolding defs_def by blast
qed

lemma definitionsFor_sound:
  assumes "sound_blocks (oget board ''blocks'')" "\<forall>u \<in> set units. sound_blocks (oget (pu_source u) ''blocks'')"
    and "distinct (map pu_name units)" "[] \<notin> set (map pu_name units)"
  shows "snd (definitionsFor board units) = []"
    and "map_of (fst (definitionsFor board units)) [] = blocks_read (oget board ''blocks'')"
    and "u \<in> set units \<Longrightarrow> map_of (fst (definitionsFor board units)) (pu_name u) = blocks_read (oget (pu_source u) ''blocks'')"
proof -
  let ?st = "addDefinitions [] (oget board ''blocks'') ([], [])"
  have st: "snd ?st = []" "map_of (fst ?st) [] = blocks_read (oget board ''blocks'')"
    "n \<noteq> [] \<Longrightarrow> map_of (fst ?st) n = None" for n
    by (auto simp: addDefinitions_sound [OF assms(1)] split: option.splits)
  note f = added_definitions [OF assms(2,3), where st = ?st]
  show "snd (definitionsFor board units) = []" "map_of (fst (definitionsFor board units)) [] = blocks_read (oget board ''blocks'')"
    unfolding definitionsFor_def using f(1) f(2) [of "[]"] st assms(4) by simp_all
  show "map_of (fst (definitionsFor board units)) (pu_name u) = blocks_read (oget (pu_source u) ''blocks'')" if "u \<in> set units"
  proof -
    have "pu_name u \<noteq> []" using assms(4) that by (auto simp: image_iff)
    then show ?thesis unfolding definitionsFor_def by (intro f(3) that st(3))
  qed
qed

section \<open>Properties\<close>

lemma alist_same: "okeys a = okeys b \<Longrightarrow> distinct (okeys b) \<Longrightarrow> map_of a = map_of b \<Longrightarrow> a = b"
proof (induction a b rule: list_induct2')
  case (4 p a q b)
  have "p = q" using 4(2) fun_cong [OF 4(4), of "fst p"] by (cases p; cases q) auto
  moreover have "map_of a x = map_of b x" for x
  proof (cases "x = fst p")
    case True
    then have "x \<notin> set (okeys b)" "x \<notin> set (okeys a)" using 4(2,3) \<open>p = q\<close> by auto
    then show ?thesis by (simp add: map_of_eq_None_iff [THEN iffD2])
  next
    case False
    then show ?thesis using fun_cong [OF 4(4), of x] \<open>p = q\<close> by (cases p) auto
  qed
  ultimately show ?case using 4 by auto
qed simp_all

lemma okeys_oput_present: "k \<in> set (okeys es) \<Longrightarrow> distinct (okeys es) \<Longrightarrow> okeys (oput k v es) = okeys es"
  by (induction k v es rule: oput.induct) auto

lemma kept_fields_oput:
  assumes "distinct (okeys es)" "v \<noteq> JUndef" "oget es k \<noteq> JUndef" "written_down v = written_down (oget es k)"
  shows "kept_fields (oput k v es) = kept_fields es"
proof -
  have k: "k \<in> set (okeys es)" using assms(3) by (force simp: oget_def image_iff split: option.splits dest: map_of_SomeD)
  have keys: "okeys (oput k v es) = okeys es" using k assms(1) by (rule okeys_oput_present)
  have d: "distinct (okeys (kept_fields a))" if "distinct (okeys a)" for a
    using that by (simp add: okeys_kept_fields)
  have ks: "okeys (kept_fields (oput k v es)) = okeys (kept_fields es)"
    using assms(2,3) unfolding okeys_kept_fields keys by (intro filter_cong) auto
  have "map_of (kept_fields (oput k v es)) = map_of (kept_fields es)"
  proof
    fix x
    have o: "oget (kept_fields (oput k v es)) x = oget (kept_fields es) x"
      using assms(2-4) by (auto simp: oget_kept_fields)
    have "map_of (kept_fields a) x \<noteq> Some JUndef" for a
    proof
      assume m: "map_of (kept_fields a) x = Some JUndef"
      then have "x \<in> set (okeys (kept_fields a))" by (force dest: map_of_SomeD)
      then have "oget a x \<noteq> JUndef" by (simp add: okeys_kept_fields)
      then show False using oget_kept_fields [of a x] m written_down_defined [of "oget a x"] by (auto simp: oget_def)
    qed
    then show "map_of (kept_fields (oput k v es)) x = map_of (kept_fields es) x"
      using o by (auto simp: oget_def split: option.splits)
  qed
  then show ?thesis using ks d [OF assms(1)] by (intro alist_same)
qed

lemma linkBlocks_restores:
  assumes "oget board ''services'' = JObj services" "canon_keys (okeys services)" "distinct (okeys board)"
    and "sound_blocks (oget board ''blocks'')" "\<forall>u \<in> set units. sound_blocks (oget (pu_source u) ''blocks'')"
    and "distinct (map pu_name units)" "[] \<notin> set (map pu_name units)"
    and "\<forall>(runtimeId, list) \<in> set services.
           restorable (contextFor (fst (definitionsFor board units)) runtimeId (unitOf board runtimeId)) list"
    and "linked = linkBlocks rng board units calls"
  shows "(\<forall>k. k \<noteq> ''blocks'' \<longrightarrow> oget (unlinkBlocks (lb_board linked) (lb_linkage linked) False) k = oget board k)
    \<and> (\<forall>k. oget (kept_fields (unlinkBlocks (lb_board linked) (lb_linkage linked) False)) k = oget (kept_fields board) k)
    \<and> (\<forall>u \<in> set units. canon_keys (okeys (pu_source u)) \<longrightarrow>
         kept_fields (withUnitBlocks (pu_name u) (pu_source u) (lb_linkage linked)) = kept_fields (pu_source u))"
proof -
  define defs where "defs = fst (definitionsFor board units)"
  obtain expanded out where e: "expandBlocks rng services defs (unitOf board) calls = (expanded, out)" by fastforce
  note d = definitionsFor_sound [OF assms(4-7), folded defs_def]
  define l where "l = \<lparr>definitions = defs, placed = out_placed out, editing = None\<rparr>"
  have linked: "lb_board linked = oput ''services'' (JObj expanded) (from_entries (omit [''blocks''] board))"
    "lb_linkage linked = (if out_placed out \<noteq> [] \<or> defs \<noteq> [] then Some l else None)"
    using e by (simp_all add: assms(1,9) linkBlocks_def defs_def l_def case_prod_beta)
  have c: "collapseBlocks (JObj expanded) l None = JObj services"
    unfolding l_def by (rule expandBlocks_restores [OF assms(2) _ e]) (use assms(8) in \<open>simp add: defs_def\<close>)
  have b: "oget (lb_board linked) k = (if k = ''services'' then JObj expanded else if k = ''blocks'' then JUndef else oget board k)" for k
    by (simp add: linked oget_from_entries distinct_omit [OF assms(3)])
  have "distinct (okeys (lb_board linked))" by (simp add: linked distinct_oput from_entries_def distinct_ospread)
  note f = oget_from_entries [OF this]
  have "oget (unlinkBlocks (lb_board linked) (lb_linkage linked) False) k =
      (if k = ''services'' then JObj services
       else if k = ''blocks'' then (case blocks_read (oget board ''blocks'') of Some own \<Rightarrow> JArr (map JObj own) | None \<Rightarrow> JUndef)
       else oget board k)" for k
  proof (cases "out_placed out \<noteq> [] \<or> defs \<noteq> []")
    case True
    then show ?thesis
      by (auto simp: unlinkBlocks_def linked(2) ospread_def f b c or_else_def nullish_def d(2) l_def split: option.splits)
        (use c in \<open>simp_all add: l_def\<close>)
  next
    case False
    then have "JObj expanded = JObj services" using c by (simp add: l_def collapseBlocks_def outermostUses_def deepClone_def)
    moreover have "blocks_read (oget board ''blocks'') = None" using False d(2) by simp
    ultimately show ?thesis using False assms(1) blocks_read_none [OF assms(4)] by (simp add: unlinkBlocks_def linked(2) b)
  qed
  note u = this
  have "oget (kept_fields (unlinkBlocks (lb_board linked) (lb_linkage linked) False)) k = oget (kept_fields board) k" for k
    using blocks_read_none [OF assms(4)] blocks_read_written [OF assms(4)] assms(1)
    by (auto simp: oget_kept_fields u simp del: written_down.simps split: option.splits)
  moreover have "kept_fields (withUnitBlocks (pu_name u) (pu_source u) (lb_linkage linked)) = kept_fields (pu_source u)"
    if u: "u \<in> set units" and k: "canon_keys (okeys (pu_source u))" for u
  proof (cases "blocks_read (oget (pu_source u) ''blocks'')")
    case None
    then show ?thesis using d(3) [OF u] by (simp add: withUnitBlocks_def linked(2) l_def)
  next
    case (Some theirs)
    have s: "sound_blocks (oget (pu_source u) ''blocks'')" using assms(5) u by simp
    have "lb_linkage linked = Some l" using d(3) [OF u] Some by (auto simp: linked(2))
    then have "withUnitBlocks (pu_name u) (pu_source u) (lb_linkage linked) = oput ''blocks'' (JArr (map JObj theirs)) (pu_source u)"
      using Some d(3) [OF u] from_entries_canon [OF k] by (simp add: withUnitBlocks_def l_def)
    also have "kept_fields \<dots> = kept_fields (pu_source u)"
      using k Some blocks_read_none [OF s] blocks_read_written [OF s Some]
      by (intro kept_fields_oput) (auto simp: canon_keys_def simp del: written_down.simps)
    finally show ?thesis .
  qed
  ultimately show ?thesis using u assms(1) by simp
qed

text \<open>
  C4. A board that was opened is saved as it was: a board whose uses are expanded on the way in and
  written back on the way out has every field of its text, its services and its blocks among them,
  and each unit has the blocks of its document.
\<close>

theorem unlinkBlocks_linkBlocks:
  assumes "oget board ''services'' = JObj services" "canon_keys (okeys services)" "distinct (okeys board)"
    and "sound_blocks (oget board ''blocks'')" "\<forall>u \<in> set units. sound_blocks (oget (pu_source u) ''blocks'')"
    and "distinct (map pu_name units)" "[] \<notin> set (map pu_name units)"
    and "\<forall>(runtimeId, list) \<in> set services.
           restorable (contextFor (fst (definitionsFor board units)) runtimeId (unitOf board runtimeId)) list"
    and "linked = linkBlocks rng board units calls"
  shows "(\<forall>k. k \<noteq> ''blocks'' \<longrightarrow> oget (unlinkBlocks (lb_board linked) (lb_linkage linked) False) k = oget board k)
    \<and> (\<forall>k. oget (kept_fields (unlinkBlocks (lb_board linked) (lb_linkage linked) False)) k = oget (kept_fields board) k)
    \<and> (\<forall>u \<in> set units. canon_keys (okeys (pu_source u)) \<longrightarrow>
         kept_fields (withUnitBlocks (pu_name u) (pu_source u) (lb_linkage linked)) = kept_fields (pu_source u))"
  using assms by (rule linkBlocks_restores)

text \<open>A block without tags, which reading leaves undefined.\<close>

definition notedBoard :: obj where
  "notedBoard =
     [(''boardName'', JStr ''notes''), (''runtimes'', JArr [JObj [(''id'', JStr ''rt'')]]),
      (''services'', JObj noteServices), (''blocks'', JArr [JObj noteBlock])]"

definition notedUnit :: PlacedUnit where
  "notedUnit =
     \<lparr>pu_name = ''led'', pu_uri = JStr ''led.json'', pu_entry = [], pu_boardName = JStr ''led'', pu_declaration = JUndef,
      pu_runtimeIds = [], pu_source = [(''blocks'', JArr [JObj noteBlock])]\<rparr>"

theorem unlinkBlocks_linkBlocks_witness:
  "oget (unlinkBlocks (lb_board (linkBlocks (\<lambda>_. []) notedBoard [notedUnit] 0))
          (lb_linkage (linkBlocks (\<lambda>_. []) notedBoard [notedUnit] 0)) False) ''services'' = JObj noteServices
   \<and> oget (lb_board (linkBlocks (\<lambda>_. []) notedBoard [notedUnit] 0)) ''services'' \<noteq> JObj noteServices
   \<and> kept_fields (withUnitBlocks ''led'' (pu_source notedUnit) (lb_linkage (linkBlocks (\<lambda>_. []) notedBoard [notedUnit] 0)))
       = kept_fields (pu_source notedUnit)"
proof -
  let ?l = "linkBlocks (\<lambda>_. []) notedBoard [notedUnit] 0"
  have s: "oget notedBoard ''services'' = JObj noteServices" "canon_keys (okeys noteServices)" "distinct (okeys notedBoard)"
    "sound_blocks (oget notedBoard ''blocks'')" "\<forall>u \<in> set [notedUnit]. sound_blocks (oget (pu_source u) ''blocks'')"
    "distinct (map pu_name [notedUnit])" "[] \<notin> set (map pu_name [notedUnit])"
    "\<forall>(runtimeId, list) \<in> set noteServices.
       restorable (contextFor (fst (definitionsFor notedBoard [notedUnit])) runtimeId (unitOf notedBoard runtimeId)) list"
    by code_simp+
  have n: "canon_keys (okeys (pu_source notedUnit))" "pu_name notedUnit = ''led''"
    "oget (lb_board ?l) ''services'' \<noteq> JObj noteServices"
    by code_simp+
  show ?thesis
    using unlinkBlocks_linkBlocks [OF s refl, where rng = "\<lambda>_. []" and calls = 0] n s(1) by auto
qed

end
