(* ===== verification/BoardDocuments.thy ===== *)
theory BoardDocuments
  imports BoardLink BlockLink
begin

text \<open>
  Opening a board and writing it back (\<^verbatim>\<open>hkp-frontend/src/core/boardPersistence.ts\<close>,
  \<^verbatim>\<open>linkBoardDocument\<close> and \<^verbatim>\<open>unlinkBoardDocuments\<close>, with \<^verbatim>\<open>reportLinkDiagnostics\<close> of
  \<^verbatim>\<open>core/linkUnits.ts\<close>).  The units are linked, then the blocks of the projection expanded; saving takes
  the two steps back in the other order.  Where the units come from is the parameter \<^verbatim>\<open>load\<close>.
\<close>

section \<open>Opening\<close>

record BoardLinkage =
  bl_units :: "PlacedUnit list"
  bl_views :: "BoardView list"
  bl_blocks :: "BlockLinkage option"

record UnitLinkError =
  ul_errors :: nat
  ul_missing :: "string list"

definition reportLinkDiagnostics :: "LinkDiagnostic list \<Rightarrow> Diagnostic list \<Rightarrow> UnitLinkError option" where
  "reportLinkDiagnostics fromLink others =
     (let errors = filter (\<lambda>entry. d_level entry = Error) others
      in if fromLink \<noteq> [] \<or> errors \<noteq> []
         then Some \<lparr>ul_errors = length fromLink + length errors,
                    ul_missing = filter (\<lambda>uri. uri \<noteq> []) (List.map_filter missing_uri fromLink)\<rparr>
         else None)"

definition linkProjection ::
  "(nat \<Rightarrow> 8 word list) \<Rightarrow> obj \<Rightarrow> LinkDiagnostic list \<times> Projection \<Rightarrow> nat \<Rightarrow> UnitLinkError + obj \<times> BoardLinkage option" where
  "linkProjection rng board linked calls =
     (let (fromLink, projection) = linked;
          blocks = linkBlocks rng (oput ''blocks'' (oget board ''blocks'') (from_entries (pr_board projection)))
                     (pr_units projection) calls;
          intoUses = checkAddressesIntoUses (lb_board blocks) (lb_linkage blocks)
                       (oget (lb_board blocks) ''facade'' # map view_facade (pr_views projection))
      in case reportLinkDiagnostics fromLink (pr_diagnostics projection @ lb_diagnostics blocks @ intoUses) of
           Some failure \<Rightarrow> Inl failure
         | None \<Rightarrow>
             Inr (lb_board blocks,
               if pr_units projection \<noteq> [] \<or> lb_linkage blocks \<noteq> None
               then Some \<lparr>bl_units = pr_units projection, bl_views = pr_views projection, bl_blocks = lb_linkage blocks\<rparr>
               else None))"

definition linkBoardDocument ::
  "(nat \<Rightarrow> 8 word list) \<Rightarrow> obj \<Rightarrow> origin \<Rightarrow> nat \<Rightarrow> (UnitLinkError + obj \<times> BoardLinkage option) option" where
  "linkBoardDocument rng board load calls =
     map_option (\<lambda>linked. linkProjection rng board linked calls) (linkBoard board load)"

section \<open>Writing back\<close>

record UnitDocument =
  ud_name :: string
  ud_uri :: jsval
  ud_board :: obj

record BoardDocuments =
  docs_composition :: obj
  docs_units :: "UnitDocument list"

definition unlinkBoardDocuments :: "obj \<Rightarrow> BoardLinkage option \<Rightarrow> BoardDocuments" where
  "unlinkBoardDocuments board linkage =
     (let collapsed = unlinkBlocks board (Option.bind linkage bl_blocks) False
      in case linkage of
           Some l \<Rightarrow>
             if bl_units l = [] then \<lparr>docs_composition = collapsed, docs_units = []\<rparr>
             else
               let boards = unlinkProjection collapsed (bl_units l)
               in \<lparr>docs_composition = ub_composition boards,
                   docs_units = map (\<lambda>(unit, document).
                       \<lparr>ud_name = pu_name unit, ud_uri = pu_uri unit,
                        ud_board = withUnitBlocks (pu_name unit) document (bl_blocks l)\<rparr>) (ub_units boards)\<rparr>
         | None \<Rightarrow> \<lparr>docs_composition = collapsed, docs_units = []\<rparr>)"

definition serializeBoardSource :: "obj \<Rightarrow> BoardLinkage option \<Rightarrow> obj" where
  "serializeBoardSource serialized linkage = unlinkBlocks serialized (Option.bind linkage bl_blocks) True"

section \<open>Facts\<close>

text \<open>The documents of the units depend on the runtimes and the services alone.\<close>

lemma unlinkRuntime_same:
  "oget a ''services'' = oget b ''services'' \<Longrightarrow> unlinkRuntime a units = unlinkRuntime b units"
  by (intro ext) (simp add: unlinkRuntime_def)

lemma ub_units_same:
  assumes "oget a ''runtimes'' = oget b ''runtimes''" "oget a ''services'' = oget b ''services''"
  shows "ub_units (unlinkProjection a units) = ub_units (unlinkProjection b units)"
  using assms by (simp add: unlinkProjection_def Let_def unlinkRuntime_same [OF assms(2)])

lemma canon_projected: "canon_keys (okeys (js_obj (oget (pr_board (projectUnits root resolved)) ''services'')))"
proof -
  have "canon_keys (okeys (foldl ospread a bs))" if "canon_keys (okeys a)" for a :: obj and bs
    using that by (induction bs arbitrary: a) (simp_all add: canon_keys_ospread)
  then show ?thesis by (simp add: projectUnits_fields canon_from_entries)
qed

lemma distinct_projected: "distinct (okeys root) \<Longrightarrow> distinct (okeys (pr_board (projectUnits root resolved)))"
  by (simp add: projectUnits_def Let_def distinct_ospread split: prod.splits)

text \<open>What the splitting leaves the composition: its own runtimes, and for each its services.\<close>

definition is_own :: "PlacedUnit list \<Rightarrow> jsval \<Rightarrow> bool" where
  "is_own units runtime = (\<not> truthy (field runtime ''unitRuntimeId'') \<or> unitOfRuntime units runtime = None)"

lemma unlinkRuntime_own:
  "un_ownRuntimes (unlinkRuntime s units x u) = un_ownRuntimes u @ (if is_own units x then [JObj (stripProvenance x)] else [])"
  "un_ownServices (unlinkRuntime s units x u) = (if is_own units x then oput (rid x) (servicesAt s x) (un_ownServices u) else un_ownServices u)"
  by (auto simp: unlinkRuntime_def is_own_def servicesAt_def Let_def split: option.splits)

lemma unlinkRuntimes_own:
  "un_ownRuntimes (fold (unlinkRuntime s units) xs u) = un_ownRuntimes u @ map (\<lambda>x. JObj (stripProvenance x)) (filter (is_own units) xs)"
  "un_ownServices (fold (unlinkRuntime s units) xs u) = ospread (un_ownServices u) (map (\<lambda>x. (rid x, servicesAt s x)) (filter (is_own units) xs))"
  by (induction xs arbitrary: u) (simp_all add: unlinkRuntime_own ospread_def)

abbreviation ownRuntimesOf :: "obj \<Rightarrow> jsval list" where
  "ownRuntimesOf root \<equiv> js_arr (field (rootBodyOf root) ''runtimes'')"

lemma own_runtimes:
  assumes "composable root resolved"
  shows "filter (is_own (map (\<lambda>r. pl_unit (placeUnit r)) resolved)) (js_arr (oget (pr_board (projectUnits root resolved)) ''runtimes''))
    = ownRuntimesOf root"
proof -
  let ?units = "map (\<lambda>r. pl_unit (placeUnit r)) resolved"
  have "is_own ?units x" if "x \<in> set (ownRuntimesOf root)" for x
    using composableD(5) [OF assms that] by (simp add: is_own_def unitOfRuntime_def)
  moreover have "\<not> is_own ?units x" if r: "r \<in> set resolved" and x: "x \<in> set (pl_runtimes (placeUnit r))" for r x
  proof -
    obtain y where "y \<in> set (runtimesOf r)" "x = placeRuntime (ru_entry r) (ru_board r) (ru_name r) (idsOf r) y"
      using x by (auto simp: placeUnit_fields)
    then have "belongs ?units (ru_name r) x" using belongs_placed [OF assms r r] by simp
    then show ?thesis by (auto simp: belongs_def is_own_def split: option.splits)
  qed
  ultimately show ?thesis
    unfolding projectUnits_fields(2) by (auto simp: filter_id_conv filter_empty_conv filter_concat)
qed

lemma foldl_ospread_other:
  "(\<And>r. r \<in> set rs \<Longrightarrow> k \<notin> set (okeys (g r))) \<Longrightarrow> map_of (foldl ospread a (map g rs)) k = map_of a k"
proof (induction rs rule: rev_induct)
  case (snoc b rs)
  then have "map_of (rev (g b)) k = None" by (simp add: map_of_eq_None_iff)
  then show ?case using snoc by (simp add: map_add_def)
qed simp

lemma own_services:
  assumes "composable root resolved" "\<forall>r \<in> set resolved. rid x \<notin> projected r ` set (runtimesOf r)"
  shows "oget (js_obj (oget (pr_board (projectUnits root resolved)) ''services'')) (rid x)
    = oget (from_entries (js_obj (field (rootBodyOf root) ''services''))) (rid x)"
proof -
  have "rid x \<notin> set (okeys (pl_services (placeUnit r)))" if "r \<in> set resolved" for r
    using assms(2) that placedServices_keys [OF composableD(1) [OF assms(1) that]] by simp
  from foldl_ospread_other [where g = "\<lambda>r. pl_services (placeUnit r)", OF this] show ?thesis
    unfolding projectUnits_fields(3) by (simp add: oget_def)
qed

lemma ospread_keyed:
  assumes "x \<in> set xs" "\<And>y. y \<in> set xs \<Longrightarrow> f y = f x \<Longrightarrow> g y = g x"
  shows "oget (ospread [] (map (\<lambda>x. (f x, g x)) xs)) (f x) = g x"
proof -
  have "map_of (rev (map (\<lambda>x. (f x, g x)) xs)) (f x) \<noteq> None"
    using assms(1) unfolding map_of_eq_None_iff by force
  then obtain v where v: "map_of (rev (map (\<lambda>x. (f x, g x)) xs)) (f x) = Some v" by blast
  then have "(f x, v) \<in> set (map (\<lambda>x. (f x, g x)) xs)" by (auto dest: map_of_SomeD)
  then have "v = g x" using assms(2) by auto
  then show ?thesis using v by (simp add: oget_ospread)
qed

definition documents_split :: "UnlinkedBoards \<Rightarrow> BlockLinkage option \<Rightarrow> BoardDocuments" where
  "documents_split boards blocks =
     \<lparr>docs_composition = ub_composition boards,
      docs_units = map (\<lambda>(unit, document). \<lparr>ud_name = pu_name unit, ud_uri = pu_uri unit,
        ud_board = withUnitBlocks (pu_name unit) document blocks\<rparr>) (ub_units boards)\<rparr>"

lemma unlinked_documents:
  "units \<noteq> [] \<Longrightarrow> unlinkBoardDocuments board (Some \<lparr>bl_units = units, bl_views = views, bl_blocks = blocks\<rparr>)
    = documents_split (unlinkProjection (unlinkBlocks board blocks False) units) blocks"
  by (simp add: unlinkBoardDocuments_def documents_split_def Let_def)

lemma projected_elsewhere:
  "k \<notin> {''runtimes'', ''services'', ''facade''} \<Longrightarrow> oget (pr_board (projectUnits root resolved)) k = oget root k"
  by (auto simp: projectUnits_def Let_def oget_ospread split: prod.splits)

lemma projected_facade:
  "oget (pr_board (projectUnits root resolved)) ''facade''
    = (if truthy (field (rootBodyOf root) ''facade'') then field (rootBodyOf root) ''facade'' else oget root ''facade'')"
  by (simp add: projectUnits_def rootBodyOf_def Let_def oget_ospread split: prod.splits)

lemma composition_restored:
  assumes "composable root resolved"
    and "oget collapsed ''runtimes'' = oget (pr_board (projectUnits root resolved)) ''runtimes''"
    and "oget collapsed ''services'' = oget (pr_board (projectUnits root resolved)) ''services''"
  defines "composition \<equiv> ub_composition (unlinkProjection collapsed (map (\<lambda>r. pl_unit (placeUnit r)) resolved))"
  shows "k \<notin> {''runtimes'', ''services'', ''units''} \<Longrightarrow> oget composition k = oget collapsed k"
    and "oget composition ''units'' = JArr (map (\<lambda>r. JObj (ru_entry r)) resolved)"
    and "oget composition ''runtimes'' = JArr (map (\<lambda>x. JObj (stripProvenance x)) (ownRuntimesOf root))"
    and "set (okeys (js_obj (oget composition ''services''))) = rid ` set (ownRuntimesOf root)"
    and "x \<in> set (ownRuntimesOf root) \<Longrightarrow> \<forall>r \<in> set resolved. rid x \<notin> projected r ` set (runtimesOf r) \<Longrightarrow>
      oget (js_obj (oget composition ''services'')) (rid x)
      = or_else (oget (from_entries (js_obj (field (rootBodyOf root) ''services''))) (rid x)) (JArr [])"
proof -
  let ?units = "map (\<lambda>r. pl_unit (placeUnit r)) resolved"
  have own: "filter (is_own ?units) (js_arr (oget collapsed ''runtimes'')) = ownRuntimesOf root"
    unfolding assms(2) by (rule own_runtimes [OF assms(1)])
  have at: "servicesAt collapsed x = or_else (oget (js_obj (oget (pr_board (projectUnits root resolved)) ''services'')) (rid x)) (JArr [])" for x
    unfolding servicesAt_def assms(3) projectUnits_fields(3) by (simp add: field_def)
  have s: "oget composition ''services'' = JObj (ospread [] (map (\<lambda>x. (rid x, servicesAt collapsed x)) (ownRuntimesOf root)))"
    by (simp add: composition_def unlinkProjection_def Let_def oget_ospread unlinkRuntimes_own own)
  show "k \<notin> {''runtimes'', ''services'', ''units''} \<Longrightarrow> oget composition k = oget collapsed k"
    and "oget composition ''units'' = JArr (map (\<lambda>r. JObj (ru_entry r)) resolved)"
    and "oget composition ''runtimes'' = JArr (map (\<lambda>x. JObj (stripProvenance x)) (ownRuntimesOf root))"
    by (simp_all add: composition_def unlinkProjection_def Let_def oget_ospread unlinkRuntimes_own own placeUnit_fields o_def)
  show "set (okeys (js_obj (oget composition ''services''))) = rid ` set (ownRuntimesOf root)"
    unfolding s js_obj.simps set_okeys_ospread by (simp add: image_image)
  show "oget (js_obj (oget composition ''services'')) (rid x)
      = or_else (oget (from_entries (js_obj (field (rootBodyOf root) ''services''))) (rid x)) (JArr [])"
    if "x \<in> set (ownRuntimesOf root)" "\<forall>r \<in> set resolved. rid x \<notin> projected r ` set (runtimesOf r)"
    using ospread_keyed [OF that(1), of rid "servicesAt collapsed"] own_services [OF assms(1) that(2)]
    unfolding s at by simp
qed

section \<open>Properties\<close>

text \<open>
  C1. What was opened is what is saved.  A board assembled from units, every block in it expanded, is
  written back as the documents it came from: each unit's with its own ids, its references, its parameters
  unfilled, its uses and its blocks; and the composition's with every field of its own, its blocks among them, the
  entries of its units, and its own runtimes with their services, those of no unit among them.  Its own
  runtimes, services and facade are written as they were opened, the composition's own parameters filled in.
\<close>

theorem openedBoard_saved:
  assumes "composable root resolved" "distinct (okeys root)" "resolved \<noteq> []"
    and "sound_blocks (oget root ''blocks'')" "[] \<notin> set (map ru_name resolved)"
    and "\<forall>r \<in> set resolved. sound_blocks (oget (ru_board r) ''blocks'') \<and> canon_keys (okeys (ru_board r))"
    and "projection = projectUnits root resolved"
    and "running = oput ''blocks'' (oget root ''blocks'') (from_entries (pr_board projection))"
    and "\<forall>(runtimeId, list) \<in> set (js_obj (oget (pr_board projection) ''services'')).
           restorable (contextFor (fst (definitionsFor running (pr_units projection))) runtimeId (unitOf running runtimeId)) list"
    and "linkProjection rng root (fromLink, projection) calls = Inr (board, linkage)"
  shows "map (\<lambda>d. (ud_name d, kept_fields (ud_board d))) (docs_units (unlinkBoardDocuments board linkage))
           = map (\<lambda>r. (ru_name r, kept_fields (ru_board r))) resolved
    \<and> (let own = rootBodyOf root; composition = docs_composition (unlinkBoardDocuments board linkage)
       in (\<forall>k. k \<notin> {''runtimes'', ''services'', ''units'', ''facade''} \<longrightarrow> oget (kept_fields composition) k = oget (kept_fields root) k)
        \<and> oget composition ''facade'' = (if truthy (field own ''facade'') then field own ''facade'' else oget root ''facade'')
        \<and> oget composition ''units'' = JArr (map (\<lambda>r. JObj (ru_entry r)) resolved)
        \<and> oget composition ''runtimes'' = JArr (map (\<lambda>x. JObj (stripProvenance x)) (js_arr (field own ''runtimes'')))
        \<and> set (okeys (js_obj (oget composition ''services''))) = rid ` set (js_arr (field own ''runtimes''))
        \<and> (\<forall>x \<in> set (js_arr (field own ''runtimes'')). (\<forall>r \<in> set resolved. rid x \<notin> projected r ` set (runtimesOf r)) \<longrightarrow>
            oget (js_obj (oget composition ''services'')) (rid x)
            = or_else (oget (from_entries (js_obj (field own ''services''))) (rid x)) (JArr [])))"
proof -
  let ?units = "map (\<lambda>r. pl_unit (placeUnit r)) resolved"
  define blocks where "blocks = linkBlocks rng running ?units calls"
  have units: "pr_units projection = ?units" by (simp add: assms(7) projectUnits_fields)
  have board: "board = lb_board blocks"
    and linkage: "linkage = Some \<lparr>bl_units = ?units, bl_views = pr_views projection, bl_blocks = lb_linkage blocks\<rparr>"
    using assms(3,10) by (simp_all add: linkProjection_def Let_def units blocks_def flip: assms(8) split: option.splits)
  have p: "distinct (okeys (pr_board projection))" using distinct_projected [OF assms(2)] by (simp add: assms(7))
  have k: "oget running k = (if k = ''blocks'' then oget root ''blocks'' else oget (pr_board projection) k)" for k
    by (simp add: assms(8) oget_from_entries [OF p])
  obtain services where s: "oget (pr_board projection) ''services'' = JObj services"
    by (simp add: assms(7) projectUnits_fields)
  have "canon_keys (okeys services)" using canon_projected [of root resolved] s by (simp add: assms(7))
  moreover have "distinct (okeys running)" by (simp add: assms(8) distinct_oput from_entries_def distinct_ospread)
  moreover have "distinct (map pu_name ?units)" using composableD(2) [OF assms(1)] by (simp add: placeUnit_fields o_def)
  moreover have "[] \<notin> set (map pu_name ?units)" using assms(5) by (simp add: placeUnit_fields o_def)
  moreover have "pu_source (pl_unit (placeUnit r)) = ru_board r" for r by (rule placeUnit_fields)
  moreover have "\<forall>u \<in> set ?units. sound_blocks (oget (pu_source u) ''blocks'')"
    using assms(6) by (auto simp: placeUnit_fields)
  ultimately have l: "\<And>k. k \<noteq> ''blocks'' \<Longrightarrow> oget (unlinkBlocks board (lb_linkage blocks) False) k = oget running k"
    "\<And>k. oget (kept_fields (unlinkBlocks board (lb_linkage blocks) False)) k = oget (kept_fields running) k"
    "\<And>r. r \<in> set resolved \<Longrightarrow>
       kept_fields (withUnitBlocks (ru_name r) (ru_board r) (lb_linkage blocks)) = kept_fields (ru_board r)"
    using linkBlocks_restores [of running services ?units blocks rng calls] s assms(4,6,9)
    by (auto simp: k board blocks_def units placeUnit_fields)
  have "ub_units (unlinkProjection (unlinkBlocks board (lb_linkage blocks) False) ?units)
      = ub_units (unlinkProjection (pr_board projection) ?units)"
    by (rule ub_units_same) (simp_all add: l(1) k)
  also have "\<dots> = map (\<lambda>r. (pl_unit (placeUnit r), ru_board r)) resolved"
    using projectUnits_restores [OF assms(1)] by (simp add: assms(7) projectUnits_fields)
  finally have units_back: "ub_units (unlinkProjection (unlinkBlocks board (lb_linkage blocks) False) ?units)
      = map (\<lambda>r. (pl_unit (placeUnit r), ru_board r)) resolved" .
  have docs: "unlinkBoardDocuments board linkage =
      documents_split (unlinkProjection (unlinkBlocks board (lb_linkage blocks) False) ?units) (lb_linkage blocks)"
    using unlinked_documents [of ?units] assms(3) by (simp add: linkage)
  have same: "oget (unlinkBlocks board (lb_linkage blocks) False) k = oget (pr_board (projectUnits root resolved)) k" if "k \<noteq> ''blocks''" for k
    using l(1) [OF that] k [of k] that by (simp add: assms(7))
  note composition = composition_restored [OF assms(1) same same, simplified]
  have elsewhere: "oget (kept_fields (docs_composition (unlinkBoardDocuments board linkage))) k = oget (kept_fields root) k"
    if "k \<notin> {''runtimes'', ''services'', ''units'', ''facade''}" for k
  proof -
    have same_k: "oget running k = oget root k" using that projected_elsewhere [of k root resolved] by (simp add: k assms(7))
    have "oget (docs_composition (unlinkBoardDocuments board linkage)) k = oget (unlinkBlocks board (lb_linkage blocks) False) k"
      using that composition(1) [of k] by (simp add: docs documents_split_def)
    then show ?thesis using l(2) [of k] unfolding oget_kept_fields same_k by (simp only:)
  qed
  have "map (\<lambda>d. (ud_name d, kept_fields (ud_board d))) (docs_units (unlinkBoardDocuments board linkage))
      = map (\<lambda>r. (ru_name r, kept_fields (ru_board r))) resolved"
    using l(3) by (simp add: docs documents_split_def units_back o_def placeUnit_fields)
  then show ?thesis
    using elsewhere projected_facade [of root resolved] composition same [of "''facade''"] by (simp add: Let_def docs documents_split_def assms(7))
qed

text \<open>A unit with a block of its own, used twice.\<close>

definition drumUnit :: ResolvedUnit where
  "drumUnit =
     \<lparr>ru_entry = [(''uri'', JStr ''drums.json'')],
      ru_board =
        [(''boardName'', JStr ''drums''), (''runtimes'', JArr [JObj [(''id'', JStr ''rt'')]]),
         (''services'', JObj noteServices), (''blocks'', JArr [JObj noteBlock])],
      ru_name = ''drums''\<rparr>"

definition bandProjection :: Projection where
  "bandProjection = projectUnits ledRoot [ledUnit, drumUnit]"

theorem openedBoard_saved_witness:
  "case linkProjection (\<lambda>_. []) ledRoot ([], bandProjection) 0 of
     Inr (board, linkage) \<Rightarrow>
       map (\<lambda>d. (ud_name d, kept_fields (ud_board d))) (docs_units (unlinkBoardDocuments board linkage))
         = [(''led'', kept_fields ledBoard), (''drums'', kept_fields (ru_board drumUnit))]
       \<and> oget board ''services'' \<noteq> oget (pr_board bandProjection) ''services''
   | Inl _ \<Rightarrow> False"
proof -
  define running where "running = oput ''blocks'' (oget ledRoot ''blocks'') (from_entries (pr_board bandProjection))"
  have h: "composable ledRoot [ledUnit, drumUnit]" "distinct (okeys ledRoot)" "[ledUnit, drumUnit] \<noteq> []"
    "sound_blocks (oget ledRoot ''blocks'')" "[] \<notin> set (map ru_name [ledUnit, drumUnit])"
    "\<forall>r \<in> set [ledUnit, drumUnit]. sound_blocks (oget (ru_board r) ''blocks'') \<and> canon_keys (okeys (ru_board r))"
    by code_simp+
  have r: "\<forall>(runtimeId, list) \<in> set (js_obj (oget (pr_board bandProjection) ''services'')).
      restorable (contextFor (fst (definitionsFor running (pr_units bandProjection))) runtimeId (unitOf running runtimeId)) list"
    unfolding running_def by code_simp
  have "case linkProjection (\<lambda>_. []) ledRoot ([], bandProjection) 0 of
      Inr (board, linkage) \<Rightarrow> oget board ''services'' \<noteq> oget (pr_board bandProjection) ''services'' | Inl _ \<Rightarrow> False"
    by code_simp
  then obtain board linkage where l: "linkProjection (\<lambda>_. []) ledRoot ([], bandProjection) 0 = Inr (board, linkage)"
    "oget board ''services'' \<noteq> oget (pr_board bandProjection) ''services''"
    by (auto split: sum.splits)
  show ?thesis
    using openedBoard_saved [OF h bandProjection_def running_def r l(1)] l by (simp add: ledUnit_def drumUnit_def)
qed

end
