(* ===== verification/BoardState.thy ===== *)
theory BoardState
  imports BoardDocuments BoardRemote BoardAssets Secrets
begin

text \<open>
  The board a page holds, and how it is brought up and taken down
  (\<^verbatim>\<open>hkp-frontend/src/core/boardPersistence.ts\<close>, \<^verbatim>\<open>runtimeOperations.ts\<close>, \<^verbatim>\<open>remotePrompt.ts\<close>).
  A scope is a handle of the runtime API it came from.  What the APIs, the person and the session answer is the
  host, a record of functions; what is done to the world, in order, is a list of effects beside the
  result.  Calls started together are listed in the order they are started in; where several of them
  fail, the caller sees one of the failures, and the model lists them all.
\<close>

section \<open>State\<close>

record BoardState =
  bs_boardName :: jsval
  bs_runtimes :: "obj list"
  bs_services :: obj
  bs_registry :: obj
  bs_scopes :: "(string \<times> nat option) list"
  bs_facade :: jsval
  bs_linkage :: "BoardLinkage option"
  bs_assets :: "AssetDescriptor list option"
  bs_error :: "string option"

record RestoreRuntimeResult =
  rr_runtime :: obj
  rr_services :: jsval
  rr_registry :: jsval
  rr_scope :: "nat option"

text \<open>A call that is rejected is the left of a sum, and so is a removal that fails.\<close>

record RuntimeApi =
  api_resolvesAddress :: bool
  api_restoreRuntime :: "obj \<Rightarrow> jsval \<Rightarrow> jsval \<Rightarrow> string + RestoreRuntimeResult option"
  api_removeRuntime :: "nat \<Rightarrow> obj \<Rightarrow> string + unit"
  api_getServiceConfig :: "nat \<Rightarrow> jsval \<Rightarrow> string + jsval"
  api_serializeState :: "nat \<Rightarrow> obj"
  api_addRuntime :: "obj \<Rightarrow> jsval \<Rightarrow> string + RestoreRuntimeResult option"
  api_pushAssets :: "nat \<Rightarrow> (string \<times> AssetDescriptor) list \<Rightarrow> string option"
  api_configureService :: "nat \<Rightarrow> jsval \<Rightarrow> string + unit"

text \<open>A name a board uses, and the runtime that wants it.\<close>

record UnknownRemote =
  ur_name :: string
  ur_runtimeName :: jsval
  ur_kind :: "string option"

text \<open>
  The questions of \<^verbatim>\<open>remotePrompt.ts\<close>: \<open>asking\<close> is its map of the promises that are pending under a name, a
  promise being what it will be answered with, and \<open>questions\<close> are those put to the person, in order.
\<close>

record Asking =
  asking :: "(string \<times> KnownRemote option) list"
  questions :: "UnknownRemote list"

text \<open>
  \<open>h_prompt\<close> is the prompt registered last, if there is one, and what it answers to each question by its number:
  two questions under one name may be answered differently.  \<open>h_asking\<close> are the questions that other boards
  have put and that are not answered yet.
\<close>

record Host =
  h_apis :: "(string \<times> RuntimeApi) list"
  h_authenticated :: "obj \<Rightarrow> string + bool"
  h_user :: bool
  h_login :: "string + unit"
  h_remotes :: "KnownRemote list"
  h_prompt :: "(nat \<Rightarrow> UnknownRemote \<Rightarrow> KnownRemote option) option"
  h_asking :: "(string \<times> KnownRemote option) list"
  h_vault :: Vault
  h_assetsFor :: "obj \<Rightarrow> AssetDescriptor list"
  h_onRemoveRuntime :: "(obj \<Rightarrow> string + unit) option"

datatype Effect =
    LoginWaited
  | SessionWaited
  | RemoteAsked UnknownRemote
  | RuntimeRestored obj jsval jsval
  | RuntimeRemoved string
  | RuntimeAdded string
  | AddFailed string

definition toCanonicalRuntimeClassType :: "string \<Rightarrow> string" where
  "toCanonicalRuntimeClassType type =
     (if type = ''remote'' then ''graphql'' else if type = ''realtime'' then ''rest'' else type)"

definition isRuntimeGraphQLClassType :: "string \<Rightarrow> bool" where
  "isRuntimeGraphQLClassType type = (toCanonicalRuntimeClassType type = ''graphql'')"

definition runtime_type :: "obj \<Rightarrow> string" where
  "runtime_type rt = to_str (oget rt ''type'')"

definition runtime_id :: "obj \<Rightarrow> string" where
  "runtime_id rt = to_str (oget rt ''id'')"

definition apiFor :: "Host \<Rightarrow> obj \<Rightarrow> RuntimeApi option" where
  "apiFor host rt =
     (case map_of (h_apis host) (runtime_type rt) of
        Some api \<Rightarrow> Some api
      | None \<Rightarrow> map_of (h_apis host) (toCanonicalRuntimeClassType (runtime_type rt)))"

definition getRuntimeScopeApi :: "Host \<Rightarrow> string \<Rightarrow> BoardState \<Rightarrow> nat option \<times> RuntimeApi option" where
  "getRuntimeScopeApi host runtimeId s =
     (case map_of (bs_scopes s) runtimeId of Some sc \<Rightarrow> sc | None \<Rightarrow> None,
      Option.bind (find (\<lambda>rt. runtime_id rt = runtimeId) (bs_runtimes s)) (apiFor host))"

section \<open>Addresses before anything is built\<close>

definition addressed :: "obj \<Rightarrow> AddressedRuntime" where
  "addressed rt = \<lparr>ar_id = runtime_id rt, ar_url = the_str (oget rt ''url''), ar_remote = oget rt ''remote''\<rparr>"

definition askAboutRemote :: "Host \<Rightarrow> UnknownRemote \<Rightarrow> Asking \<Rightarrow> KnownRemote option \<times> Asking" where
  "askAboutRemote host wanted a =
     (case h_prompt host of
        None \<Rightarrow> (None, a)
      | Some prompt \<Rightarrow>
          (case map_of (asking a) (ur_name wanted) of
             Some pending \<Rightarrow> (pending, a)
           | None \<Rightarrow>
               let asked = prompt (length (questions a)) wanted
               in (asked, a\<lparr>asking := (ur_name wanted, asked) # asking a, questions := questions a @ [wanted]\<rparr>)))"

text \<open>An answer settles its question: the name may be asked about again.\<close>

definition settleRemote :: "string \<Rightarrow> Asking \<Rightarrow> Asking" where
  "settleRemote name a = a\<lparr>asking := filter (\<lambda>p. fst p \<noteq> name) (asking a)\<rparr>"

definition remoteNamed :: "obj \<Rightarrow> string" where
  "remoteNamed rt = (case addressingOf (addressed rt) of Inr (AtRemote name _) \<Rightarrow> name | _ \<Rightarrow> [])"

definition wantedBy :: "obj \<Rightarrow> UnknownRemote" where
  "wantedBy rt =
     \<lparr>ur_name = remoteNamed rt, ur_runtimeName = (if truthy (oget rt ''name'') then oget rt ''name'' else oget rt ''id''),
      ur_kind = sharedRemoteKind (remoteNamed rt)\<rparr>"

definition resolveForRestore :: "Host \<Rightarrow> obj \<Rightarrow> Asking \<Rightarrow> (string + obj) \<times> Asking" where
  "resolveForRestore host rt a =
     (case resolveRuntimeAddress (addressed rt) (h_remotes host) of
        Inl e \<Rightarrow> (Inl (rae_message e), a)
      | Inr (Resolved url _ _) \<Rightarrow> (Inr (oput ''url'' (JStr url) (from_entries rt)), a)
      | Inr (Refused why message) \<Rightarrow>
          if why = UnknownRemote then
            (case askAboutRemote host (wantedBy rt) a of
               (None, a') \<Rightarrow> (Inl message, a')
             | (Some kept, a') \<Rightarrow>
                 (case resolveRuntimeAddress (addressed rt) [kept] of
                    Inr (Resolved url _ _) \<Rightarrow> (Inr (oput ''url'' (JStr url) (from_entries rt)), a')
                  | _ \<Rightarrow> (Inl message, a')))
          else (Inl message, a))"

text \<open>All of them at once: each runs until it waits for an answer, in the order they are started in.\<close>

fun resolvePlaced :: "Host \<Rightarrow> obj list \<Rightarrow> Asking \<Rightarrow> (string + obj) list \<times> Asking" where
  "resolvePlaced host [] a = ([], a)"
| "resolvePlaced host (rt # rts) a =
     (let (r, a1) = resolveForRestore host rt a; (rs, a2) = resolvePlaced host rts a1 in (r # rs, a2))"

section \<open>Bringing a board up\<close>

definition lefts :: "('a + 'b) list \<Rightarrow> 'a list" where
  "lefts rs = List.map_filter (\<lambda>r. case r of Inl e \<Rightarrow> Some e | Inr _ \<Rightarrow> None) rs"

definition rights :: "('a + 'b) list \<Rightarrow> 'b list" where
  "rights rs = List.map_filter (\<lambda>r. case r of Inl _ \<Rightarrow> None | Inr v \<Rightarrow> Some v) rs"

definition reduceByRuntimeId :: "(RestoreRuntimeResult \<Rightarrow> 'v) \<Rightarrow> RestoreRuntimeResult list \<Rightarrow> (string \<times> 'v) list" where
  "reduceByRuntimeId prop results =
     fold (\<lambda>cur all. oput (runtime_id (rr_runtime cur)) (prop cur) all) results []"

record RestoredBoard =
  rb_boardName :: jsval
  rb_runtimes :: "obj list"
  rb_services :: obj
  rb_registry :: obj
  rb_scopes :: "(string \<times> nat option) list"
  rb_missing :: "string list"

definition needsAddress :: "Host \<Rightarrow> obj \<Rightarrow> bool" where
  "needsAddress host rt = (case apiFor host rt of Some api \<Rightarrow> api_resolvesAddress api | None \<Rightarrow> False)"

text \<open>The login and the session, before anything else; who is logged in goes to the APIs, which are the host's.\<close>

definition signIn :: "Host \<Rightarrow> obj list \<Rightarrow> Effect list \<times> (string list + unit)" where
  "signIn host runtimes =
     (let answers = map (\<lambda>rt. if isRuntimeGraphQLClassType (runtime_type rt) then map_sum (\<lambda>e. e @ '' for runtime '' @ to_str (oget rt ''url'')) id (h_authenticated host rt)
              else Inr True) runtimes;
          remote = (\<exists>rt \<in> set runtimes. toCanonicalRuntimeClassType (runtime_type rt) \<noteq> ''browser'')
      in if lefts answers \<noteq> [] then ([], Inl (lefts answers))
         else if False \<in> set (rights answers) \<and> \<not> h_user host
         then ([LoginWaited], case h_login host of Inl e \<Rightarrow> Inl [e] | Inr _ \<Rightarrow> Inr ())
         else (if remote \<and> \<not> h_user host then [SessionWaited] else [], Inr ()))"

text \<open>
  One runtime: what is asked of its API.  \<^verbatim>\<open>resolvedRuntimes\<close> is a \<^verbatim>\<open>Map\<close>, which holds the last that
  was set for an id.
\<close>

definition restoreOne :: "Host \<Rightarrow> (string \<times> obj) list \<Rightarrow> obj \<Rightarrow> jsval \<Rightarrow> obj \<Rightarrow> Effect list \<times> (string + RestoreRuntimeResult option)" where
  "restoreOne host resolved services boardName rt =
     (case apiFor host rt of
        None \<Rightarrow> ([], Inr None)
      | Some api \<Rightarrow>
          let given = (if api_resolvesAddress api
                       then (case map_of (rev resolved) (runtime_id rt) of Some r \<Rightarrow> r | None \<Rightarrow> rt)
                       else from_entries rt);
              theirs = oget services (runtime_id rt);
              name = or_else (oget rt ''boardName'') boardName
          in ([RuntimeRestored given theirs name], api_restoreRuntime api given theirs name))"

definition missingSecrets :: "Host \<Rightarrow> obj list \<Rightarrow> obj \<Rightarrow> string list" where
  "missingSecrets host runtimes services =
     concat (map (\<lambda>rt. case apiFor host rt of
         None \<Rightarrow> []
       | Some _ \<Rightarrow> unavailableSecrets vaultSecretStore (oget services (runtime_id rt)) (h_vault host)) runtimes)"

definition restoreBoard :: "Host \<Rightarrow> jsval \<Rightarrow> obj \<Rightarrow> Effect list \<times> (string list + RestoredBoard)" where
  "restoreBoard host currentName board =
     (let name = (if oget board ''boardName'' = JUndef then or_else currentName JUndef else oget board ''boardName'');
          runtimes = map js_obj (js_arr (oget board ''runtimes''));
          services = js_obj (oget board ''services'');
          (signing, signed) = signIn host runtimes
      in case signed of
           Inl es \<Rightarrow> (signing, Inl es)
         | Inr _ \<Rightarrow>
             let placed = filter (needsAddress host) runtimes;
                 (addresses, a) = resolvePlaced host placed \<lparr>asking = h_asking host, questions = []\<rparr>;
                 asked = map RemoteAsked (questions a)
             in if lefts addresses \<noteq> [] then (signing @ asked, Inl (lefts addresses))
                else
                  let resolved = zip (map runtime_id placed) (rights addresses);
                      calls = map (restoreOne host resolved services name) runtimes;
                      effects = signing @ asked @ concat (map fst calls);
                      failed = lefts (map snd calls);
                      results = List.map_filter id (rights (map snd calls));
                      scopes = reduceByRuntimeId rr_scope results
                  in if failed \<noteq> [] then (effects, Inl failed)
                     else
                       (effects,
                        Inr \<lparr>rb_boardName = name,
                          rb_runtimes = map rr_runtime
                            (filter (\<lambda>r. Option.bind (map_of scopes (runtime_id (rr_runtime r))) id \<noteq> None) results),
                          rb_services = reduceByRuntimeId rr_services results,
                          rb_registry = reduceByRuntimeId rr_registry results,
                          rb_scopes = scopes,
                          rb_missing = set_adds (missingSecrets host runtimes services) []\<rparr>))"

section \<open>Taking a board down, and putting another in its place\<close>

definition withoutRuntime :: "string \<Rightarrow> BoardState \<Rightarrow> BoardState" where
  "withoutRuntime i s =
     s\<lparr>bs_runtimes := filter (\<lambda>r. runtime_id r \<noteq> i) (bs_runtimes s),
       bs_services := from_entries (filter (\<lambda>(k, _). k \<noteq> i) (bs_services s)),
       bs_scopes := from_entries (filter (\<lambda>(k, _). k \<noteq> i) (bs_scopes s)),
       bs_registry := from_entries (filter (\<lambda>(k, _). k \<noteq> i) (bs_registry s))\<rparr>"

definition removeRuntime :: "Host \<Rightarrow> obj \<Rightarrow> BoardState \<Rightarrow> Effect list \<times> BoardState \<times> (string + unit)" where
  "removeRuntime host runtime s =
     (case h_onRemoveRuntime host of
        None \<Rightarrow> ([], s, Inl ''BoardContext misses prop: onRemoveRuntime'')
      | Some onRemove \<Rightarrow>
          (case onRemove runtime of
             Inl e \<Rightarrow> ([], s, Inl e)
           | Inr _ \<Rightarrow>
               (case getRuntimeScopeApi host (runtime_id runtime) s of
                  (Some scope, Some api) \<Rightarrow>
                    (case api_removeRuntime api scope runtime of
                       Inl e \<Rightarrow> ([RuntimeRemoved (runtime_id runtime)], s, Inl e)
                     | Inr _ \<Rightarrow> ([RuntimeRemoved (runtime_id runtime)], withoutRuntime (runtime_id runtime) s, Inr ()))
                | _ \<Rightarrow> ([], s, Inl (''BoardContext.removeRuntime() runtime api is missing: '' @ runtime_type runtime)))))"

fun removeRuntimes :: "Host \<Rightarrow> obj list \<Rightarrow> BoardState \<Rightarrow> Effect list \<times> BoardState \<times> (string + unit)" where
  "removeRuntimes host [] s = ([], s, Inr ())"
| "removeRuntimes host (rt # rts) s =
     (let (effects, s1, outcome) = removeRuntime host rt s
      in case outcome of
           Inl e \<Rightarrow> (effects, s1, Inl e)
         | Inr _ \<Rightarrow> (let (more, s2, outcome2) = removeRuntimes host rts s1 in (effects @ more, s2, outcome2)))"

definition boardAssets :: "obj \<Rightarrow> AssetDescriptor list option" where
  "boardAssets board = (if truthy (oget board ''assets'') then Some (fst (readBoardAssets (oget board ''assets''))) else None)"

definition withRestored :: "RestoredBoard \<Rightarrow> BoardState \<Rightarrow> BoardState" where
  "withRestored r s =
     s\<lparr>bs_boardName := rb_boardName r, bs_runtimes := rb_runtimes r, bs_services := rb_services r,
       bs_registry := rb_registry r, bs_scopes := rb_scopes r\<rparr>"

definition linkFailed :: string where
  "linkFailed = ''This board could not be linked''"

text \<open>From where the board has been linked, or could not be.\<close>

definition setBoardState ::
  "Host \<Rightarrow> UnitLinkError + obj \<times> BoardLinkage option \<Rightarrow> BoardState \<Rightarrow> Effect list \<times> BoardState \<times> (string list + unit)" where
  "setBoardState host linked s =
     (case linked of
        Inl failure \<Rightarrow> ([], s\<lparr>bs_error := Some linkFailed\<rparr>, Inr ())
      | Inr (board, linkage) \<Rightarrow>
          (case removeRuntimes host (bs_runtimes s) s of
             (removals, s1, Inl e) \<Rightarrow> (removals, s1, Inl [e])
           | (removals, s1, Inr _) \<Rightarrow>
               let s2 = s1\<lparr>bs_error := None, bs_facade := oget board ''facade'', bs_linkage := linkage,
                          bs_assets := boardAssets board\<rparr>
               in (case restoreBoard host (bs_boardName s2) board of
                     (bringing, Inl es) \<Rightarrow> (removals @ bringing, s2, Inl es)
                   | (bringing, Inr r) \<Rightarrow> (removals @ bringing, withRestored r s2, Inr ()))))"

definition clearBoard :: "Host \<Rightarrow> jsval \<Rightarrow> BoardState \<Rightarrow> Effect list \<times> BoardState \<times> (string + unit)" where
  "clearBoard host newName s =
     (case removeRuntimes host (bs_runtimes s) s of
        (removals, s1, Inl e) \<Rightarrow> (removals, s1, Inl e)
      | (removals, s1, Inr _) \<Rightarrow>
          (removals,
           s1\<lparr>bs_runtimes := [], bs_services := [], bs_registry := [], bs_facade := JUndef, bs_assets := None,
              bs_linkage := None, bs_boardName := (if truthy newName then newName else JStr [])\<rparr>,
           Inr ()))"

section \<open>Facts\<close>

fun restoring :: "Effect \<Rightarrow> bool" where
  "restoring (RuntimeRestored _ _ _) = True"
| "restoring _ = False"

fun preparing :: "Effect \<Rightarrow> bool" where
  "preparing LoginWaited = True"
| "preparing SessionWaited = True"
| "preparing (RemoteAsked _) = True"
| "preparing _ = False"

fun askedName :: "Effect \<Rightarrow> string option" where
  "askedName (RemoteAsked wanted) = Some (ur_name wanted)"
| "askedName _ = None"

fun askedRemote :: "Effect \<Rightarrow> UnknownRemote option" where
  "askedRemote (RemoteAsked wanted) = Some wanted"
| "askedRemote _ = None"

text \<open>
  Who was given as the server of a name: by a question still open from elsewhere, or by the person, to one of
  these questions, put under that name.  And how the runtime is built that needs an address: with one that
  its own name stands for, among the person's remotes or as it was answered.
\<close>

definition answeredFor :: "Host \<Rightarrow> UnknownRemote list \<Rightarrow> string \<Rightarrow> KnownRemote \<Rightarrow> bool" where
  "answeredFor host qs name kept =
     ((name, Some kept) \<in> set (h_asking host)
      \<or> (\<exists>prompt q. h_prompt host = Some prompt \<and> q < length qs \<and> ur_name (qs ! q) = name \<and> prompt q (qs ! q) = Some kept))"

definition addressedBy :: "Host \<Rightarrow> UnknownRemote list \<Rightarrow> obj \<Rightarrow> obj \<Rightarrow> bool" where
  "addressedBy host qs rt given =
     (\<exists>url name mode. given = oput ''url'' (JStr url) (from_entries rt)
        \<and> (resolveRuntimeAddress (addressed rt) (h_remotes host) = Inr (Resolved url name mode)
          \<or> (\<exists>message kept. resolveRuntimeAddress (addressed rt) (h_remotes host) = Inr (Refused UnknownRemote message)
               \<and> answeredFor host qs (remoteNamed rt) kept
               \<and> resolveRuntimeAddress (addressed rt) [kept] = Inr (Resolved url name mode))))"

lemma lefts_Nil: "lefts rs = [] \<longleftrightarrow> (\<forall>r \<in> set rs. \<not> isl r)"
  by (induction rs) (auto simp: lefts_def split: sum.splits)

lemma lefts_mem: "e \<in> set (lefts rs) \<longleftrightarrow> Inl e \<in> set rs"
  by (induction rs) (auto simp: lefts_def split: sum.splits)

lemma rights_mem: "v \<in> set (rights rs) \<longleftrightarrow> Inr v \<in> set rs"
  by (induction rs) (auto simp: rights_def split: sum.splits)

text \<open>No name is asked about while a question under it is open, so none is asked about twice.\<close>

definition asked_well :: "Host \<Rightarrow> Asking \<Rightarrow> bool" where
  "asked_well host a =
     (distinct (map ur_name (questions a)) \<and> ur_name ` set (questions a) \<inter> fst ` set (h_asking host) = {}
      \<and> ur_name ` set (questions a) \<union> fst ` set (h_asking host) \<subseteq> fst ` set (asking a)
      \<and> (\<forall>name kept. map_of (asking a) name = Some (Some kept) \<longrightarrow> answeredFor host (questions a) name kept))"

lemma answeredFor_more: "answeredFor host qs name kept \<Longrightarrow> answeredFor host (qs @ qs2) name kept"
proof -
  have "(qs @ qs2) ! q = qs ! q \<and> q < length (qs @ qs2)" if "q < length qs" for q
    using that by (simp add: nth_append)
  then show "answeredFor host qs name kept \<Longrightarrow> answeredFor host (qs @ qs2) name kept"
    unfolding answeredFor_def by metis
qed

lemma addressedBy_more: "addressedBy host qs rt given \<Longrightarrow> addressedBy host (qs @ qs2) rt given"
  unfolding addressedBy_def using answeredFor_more by blast

lemma asked_well_start: "asked_well host \<lparr>asking = h_asking host, questions = []\<rparr>"
  by (auto simp: asked_well_def answeredFor_def dest: map_of_SomeD)

lemma asked_well_ask:
  assumes "asked_well host a" "askAboutRemote host wanted a = (kept, a')"
  shows "asked_well host a' \<and> (\<exists>qs2. questions a' = questions a @ qs2)
    \<and> (\<forall>k. kept = Some k \<longrightarrow> answeredFor host (questions a') (ur_name wanted) k)"
proof (cases "h_prompt host = None \<or> map_of (asking a) (ur_name wanted) \<noteq> None")
  case True
  then show ?thesis using assms by (auto simp: askAboutRemote_def asked_well_def split: option.splits)
next
  case False
  then obtain prompt where p: "h_prompt host = Some prompt" "map_of (asking a) (ur_name wanted) = None" by fastforce
  let ?answer = "prompt (length (questions a)) wanted"
  have a': "a' = a\<lparr>asking := (ur_name wanted, ?answer) # asking a, questions := questions a @ [wanted]\<rparr>" "kept = ?answer"
    using assms(2) p by (auto simp: askAboutRemote_def Let_def)
  have fresh: "ur_name wanted \<notin> fst ` set (asking a)" using p(2) by (simp add: map_of_eq_None_iff)
  have new: "answeredFor host (questions a @ [wanted]) (ur_name wanted) k" if "?answer = Some k" for k
    using that p(1) unfolding answeredFor_def by (intro disjI2 exI [of _ prompt] exI [of _ "length (questions a)"]) simp
  have "map_of (asking a') name = Some (Some k) \<longrightarrow> answeredFor host (questions a') name k" for name k
    using assms(1) new answeredFor_more [of host "questions a" name k "[wanted]"] by (auto simp: a' asked_well_def)
  then show ?thesis
    using assms(1) fresh new unfolding asked_well_def by (auto simp: a')
qed

lemma resolveForRestore_asks:
  assumes "resolveRuntimeAddress (addressed rt) (h_remotes host) = Inr (Refused UnknownRemote message)"
    and "askAboutRemote host (wantedBy rt) a = (kept, a1)"
  shows "snd (resolveForRestore host rt a) = a1"
    and "fst (resolveForRestore host rt a) = Inr given \<Longrightarrow>
      \<exists>k url name mode. kept = Some k \<and> resolveRuntimeAddress (addressed rt) [k] = Inr (Resolved url name mode)
        \<and> given = oput ''url'' (JStr url) (from_entries rt)"
  using assms by (auto simp: resolveForRestore_def split: option.splits sum.splits AddressResolution.splits)

lemma asked_well_resolve:
  assumes "asked_well host a" "resolveForRestore host rt a = (r, a')"
  shows "asked_well host a' \<and> (\<exists>qs2. questions a' = questions a @ qs2)
    \<and> (\<forall>given. r = Inr given \<longrightarrow> addressedBy host (questions a') rt given)"
proof (cases "\<exists>message. resolveRuntimeAddress (addressed rt) (h_remotes host) = Inr (Refused UnknownRemote message)")
  case True
  then obtain message where m: "resolveRuntimeAddress (addressed rt) (h_remotes host) = Inr (Refused UnknownRemote message)" ..
  obtain kept a1 where k: "askAboutRemote host (wantedBy rt) a = (kept, a1)" by fastforce
  note asks = resolveForRestore_asks [OF m k]
  have a1: "a' = a1" using asks(1) assms(2) by simp
  note well = asked_well_ask [OF assms(1) k, folded a1]
  moreover have "addressedBy host (questions a') rt given" if "r = Inr given" for given
  proof -
    obtain k url name mode where g: "kept = Some k" "resolveRuntimeAddress (addressed rt) [k] = Inr (Resolved url name mode)"
      "given = oput ''url'' (JStr url) (from_entries rt)"
      using asks(2) [of given] assms(2) \<open>r = Inr given\<close> by auto
    moreover have "answeredFor host (questions a') (remoteNamed rt) k"
      using well g(1) by (simp add: wantedBy_def)
    ultimately show ?thesis using m unfolding addressedBy_def by blast
  qed
  ultimately show ?thesis by blast
next
  case False
  then show ?thesis
    using assms by (auto simp: resolveForRestore_def addressedBy_def split: sum.splits AddressResolution.splits if_splits)
qed

lemma asked_well_all:
  assumes "asked_well host a" "resolvePlaced host rts a = (rs, a')"
  shows "asked_well host a' \<and> (\<exists>qs2. questions a' = questions a @ qs2)
    \<and> list_all2 (\<lambda>r rt. \<forall>given. r = Inr given \<longrightarrow> addressedBy host (questions a') rt given) rs rts"
  using assms
proof (induction rts arbitrary: a rs)
  case (Cons rt rts)
  obtain r a1 where r: "resolveForRestore host rt a = (r, a1)" by fastforce
  obtain rs' where rs: "resolvePlaced host rts a1 = (rs', a')" "rs = r # rs'"
    using Cons.prems(2) r by (auto split: prod.splits)
  note one = asked_well_resolve [OF Cons.prems(1) r]
  note all = Cons.IH [OF conjunct1 [OF one] rs(1)]
  obtain qs2 where "questions a' = questions a1 @ qs2" using all by blast
  then have "addressedBy host (questions a') rt given" if "r = Inr given" for given
    using one that addressedBy_more by metis
  then show ?case using one all by (auto simp: rs(2))
qed simp

text \<open>Over time too, with answers between the questions, no name has two that are open.\<close>

inductive asking_step :: "Asking \<Rightarrow> Asking \<Rightarrow> bool" where
  asks: "asking_step a (snd (askAboutRemote host wanted a))"
| settles: "asking_step a (settleRemote name a)"

lemma one_open_question: "asking_step\<^sup>*\<^sup>* \<lparr>asking = [], questions = []\<rparr> a \<Longrightarrow> distinct (map fst (asking a))"
proof (induction rule: rtranclp_induct)
  case (step a b)
  from step(2,3) show ?case
    by (cases rule: asking_step.cases)
      (auto simp: askAboutRemote_def settleRemote_def Let_def map_of_eq_None_iff distinct_map_filter split: option.splits)
qed simp

lemma signIn_quiet: "e \<in> set (fst (signIn host runtimes)) \<Longrightarrow> e = LoginWaited \<or> e = SessionWaited"
  by (auto simp: signIn_def Let_def split: if_splits)

text \<open>What restoring one runtime hands to its API.\<close>

lemma restoreOne_effects:
  assumes "e \<in> set (fst (restoreOne host resolved services name rt))"
  shows "\<exists>given. e = RuntimeRestored given (oget services (runtime_id rt)) (or_else (oget rt ''boardName'') name)
    \<and> (if needsAddress host rt then map_of (rev resolved) (runtime_id rt) = Some given
         \<or> map_of (rev resolved) (runtime_id rt) = None \<and> given = rt
       else given = from_entries rt)"
  using assms by (auto simp: restoreOne_def needsAddress_def Let_def split: option.splits if_splits)

lemma okeys_without: "set (okeys (from_entries (filter (\<lambda>(k, v). k \<noteq> i) es))) = set (okeys es) - {i}"
proof -
  have "set (okeys (filter (\<lambda>(k, v). k \<noteq> i) es)) = set (okeys es) - {i}" by force
  then show ?thesis by (simp only: from_entries_def set_okeys_ospread) simp
qed

lemma withoutRuntime_fields:
  "bs_runtimes (withoutRuntime i s) = filter (\<lambda>r. runtime_id r \<noteq> i) (bs_runtimes s)"
  "set (okeys (bs_services (withoutRuntime i s))) = set (okeys (bs_services s)) - {i}"
  "set (okeys (bs_registry (withoutRuntime i s))) = set (okeys (bs_registry s)) - {i}"
  using okeys_without [of i "bs_services s"] okeys_without [of i "bs_registry s"] by (simp_all add: withoutRuntime_def)

lemma removeRuntimes_effects:
  "removeRuntimes host rts s = (effects, s', Inr ()) \<Longrightarrow> effects = map (\<lambda>rt. RuntimeRemoved (runtime_id rt)) rts"
proof (induction rts arbitrary: s effects s')
  case (Cons rt rts)
  then show ?case
    by (auto simp: removeRuntime_def Let_def split: prod.splits sum.splits option.splits)
qed simp

lemma removeRuntimes_state:
  assumes "removeRuntimes host rts s = (effects, s', Inr ())"
  shows "bs_runtimes s' = filter (\<lambda>r. runtime_id r \<notin> runtime_id ` set rts) (bs_runtimes s)"
    and "set (okeys (bs_services s')) = set (okeys (bs_services s)) - runtime_id ` set rts"
  using assms
proof (induction rts arbitrary: s effects)
  case (Cons rt rts)
  have one: "s1 = withoutRuntime (runtime_id rt) s" if "removeRuntime host rt s = (eff, s1, Inr ())" for s eff s1
    using that by (auto simp: removeRuntime_def split: option.splits sum.splits prod.splits)
  {
    case 1
    then obtain eff s1 more where r: "removeRuntime host rt s = (eff, s1, Inr ())" "removeRuntimes host rts s1 = (more, s', Inr ())"
      by (auto simp: Let_def split: prod.splits sum.splits)
    show ?case
      using Cons.IH(1) [OF r(2)] unfolding one [OF r(1)] withoutRuntime_fields by (auto intro: filter_cong)
  next
    case 2
    then obtain eff s1 more where r: "removeRuntime host rt s = (eff, s1, Inr ())" "removeRuntimes host rts s1 = (more, s', Inr ())"
      by (auto simp: Let_def split: prod.splits sum.splits)
    show ?case
      using Cons.IH(2) [OF r(2)] unfolding one [OF r(1)] withoutRuntime_fields by auto
  }
qed simp_all

lemma removeRuntimes_keeps:
  "removeRuntimes host rts s = (effects, s', outcome) \<Longrightarrow>
     set (bs_runtimes s') \<subseteq> set (bs_runtimes s) \<and> bs_boardName s' = bs_boardName s"
proof (induction rts arbitrary: s effects)
  case (Cons rt rts)
  obtain eff s1 out where r: "removeRuntime host rt s = (eff, s1, out)" by (metis prod_cases3)
  then have one: "set (bs_runtimes s1) \<subseteq> set (bs_runtimes s) \<and> bs_boardName s1 = bs_boardName s"
    by (auto simp: removeRuntime_def withoutRuntime_def split: option.splits sum.splits prod.splits)
  show ?case
  proof (cases out)
    case (Inr u)
    then obtain more where "removeRuntimes host rts s1 = (more, s', outcome)"
      using Cons.prems r by (auto simp: Let_def split: prod.splits)
    then show ?thesis using Cons.IH [of s1 more] one by auto
  qed (use Cons.prems r one in simp)
qed simp

lemma rights_all2:
  "list_all2 (\<lambda>r rt. \<forall>given. r = Inr given \<longrightarrow> P given rt) rs rts \<Longrightarrow> lefts rs = [] \<Longrightarrow> list_all2 P (rights rs) rts"
  by (induction rs rts rule: list_all2_induct) (auto simp: lefts_def rights_def split: sum.splits)

lemma resolved_under_id:
  assumes "list_all2 (P :: obj \<Rightarrow> obj \<Rightarrow> bool) gs rts" "rt \<in> set rts"
  shows "\<exists>given. map_of (rev (zip (map runtime_id rts) gs)) (runtime_id rt) = Some given
    \<and> (\<exists>rt' \<in> set rts. runtime_id rt' = runtime_id rt \<and> P given rt')"
proof -
  have "length gs = length rts" using assms(1) by (rule list_all2_lengthD)
  then have "runtime_id rt \<in> fst ` set (rev (zip (map runtime_id rts) gs))"
    using assms(2) by (simp flip: set_map) simp
  then obtain given where g: "map_of (rev (zip (map runtime_id rts) gs)) (runtime_id rt) = Some given"
    by (metis map_of_eq_None_iff not_None_eq)
  then have "(runtime_id rt, given) \<in> set (zip (map runtime_id rts) gs)" by (auto dest: map_of_SomeD)
  then obtain n where "n < length rts" "runtime_id (rts ! n) = runtime_id rt" "gs ! n = given"
    by (auto simp: set_zip)
  then show ?thesis using assms(1) g by (metis list_all2_conv_all_nth nth_mem)
qed

text \<open>What the API of a runtime is handed, once every address is there.\<close>

definition handed :: "Host \<Rightarrow> UnknownRemote list \<Rightarrow> obj list \<Rightarrow> jsval \<Rightarrow> jsval \<Rightarrow> Effect \<Rightarrow> obj \<Rightarrow> bool" where
  "handed host qs runtimes services name e rt =
     (\<exists>given. e = RuntimeRestored given (field services (runtime_id rt)) (or_else (oget rt ''boardName'') name)
        \<and> (if needsAddress host rt then \<exists>rt' \<in> set runtimes. runtime_id rt' = runtime_id rt \<and> addressedBy host qs rt' given
           else given = from_entries rt))"

lemma restoreOne_handed:
  assumes "list_all2 (\<lambda>given rt. addressedBy host qs rt given) gs (filter (needsAddress host) runtimes)" "rt \<in> set runtimes"
    and "apiFor host rt \<noteq> None"
  shows "\<exists>e. fst (restoreOne host (zip (map runtime_id (filter (needsAddress host) runtimes)) gs) (js_obj services) name rt) = [e]
    \<and> handed host qs runtimes services name e rt"
proof -
  have f: "oget (js_obj services) k = field services k" for k
    by (cases services) (simp_all add: field_def oget_def)
  obtain api where api: "apiFor host rt = Some api" using assms(3) by blast
  show ?thesis
  proof (cases "needsAddress host rt")
    case True
    then have "rt \<in> set (filter (needsAddress host) runtimes)" using assms(2) by simp
    from resolved_under_id [OF assms(1) this] True show ?thesis
      by (auto simp: restoreOne_def api handed_def Let_def f needsAddress_def)
  qed (use api in \<open>simp add: restoreOne_def handed_def Let_def f needsAddress_def\<close>)
qed

lemma restoreOne_calls:
  assumes "list_all2 (\<lambda>given rt. addressedBy host qs rt given) gs (filter (needsAddress host) runtimes)" "set rts \<subseteq> set runtimes"
  shows "list_all2 (handed host qs runtimes services name)
    (concat (map (\<lambda>rt. fst (restoreOne host (zip (map runtime_id (filter (needsAddress host) runtimes)) gs) (js_obj services) name rt)) rts))
    (filter (\<lambda>rt. apiFor host rt \<noteq> None) rts)"
  using assms(2)
proof (induction rts)
  case (Cons rt rts)
  show ?case
  proof (cases "apiFor host rt = None")
    case True
    then show ?thesis using Cons by (simp add: restoreOne_def)
  next
    case False
    obtain e where "fst (restoreOne host (zip (map runtime_id (filter (needsAddress host) runtimes)) gs) (js_obj services) name rt) = [e]"
      "handed host qs runtimes services name e rt"
      using restoreOne_handed [OF assms(1) _ False] Cons.prems by force
    then show ?thesis using Cons False by auto
  qed
qed simp

lemma asked_none: "(\<And>e. e \<in> set es \<Longrightarrow> askedName e = None) \<Longrightarrow> List.map_filter askedName es = [] \<and> List.map_filter askedRemote es = []"
proof (induction es)
  case (Cons e es)
  have "askedName e = None" using Cons.prems by simp
  then have "askedRemote e = None" by (cases e) simp_all
  with Cons show ?case by simp
qed simp

lemma asked_questions: "List.map_filter askedName (map RemoteAsked qs) = map ur_name qs" "List.map_filter askedRemote (map RemoteAsked qs) = qs"
  by (induction qs) simp_all

lemma restoreBoard_effects:
  assumes "restoreBoard host currentName board = (effects, outcome)"
  shows "\<exists>waiting building. effects = waiting @ building \<and> (\<forall>e \<in> set waiting. preparing e) \<and> (\<forall>e \<in> set building. restoring e)
    \<and> distinct (List.map_filter askedName waiting)
    \<and> set (List.map_filter askedName waiting) \<inter> fst ` set (h_asking host) = {}
    \<and> (building = [] \<and> isl outcome
          \<and> (isl (snd (signIn host (map js_obj (js_arr (oget board ''runtimes'')))))
            \<or> (\<exists>r \<in> set (fst (resolvePlaced host (filter (needsAddress host) (map js_obj (js_arr (oget board ''runtimes''))))
                  \<lparr>asking = h_asking host, questions = []\<rparr>)). isl r))
      \<or> list_all2 (handed host (List.map_filter askedRemote waiting) (map js_obj (js_arr (oget board ''runtimes''))) (oget board ''services'')
            (if oget board ''boardName'' = JUndef then or_else currentName JUndef else oget board ''boardName''))
          building (filter (\<lambda>rt. apiFor host rt \<noteq> None) (map js_obj (js_arr (oget board ''runtimes'')))))"
proof -
  let ?runtimes = "map js_obj (js_arr (oget board ''runtimes''))" and ?services = "oget board ''services''"
  let ?placed = "filter (needsAddress host) ?runtimes"
  obtain addresses a where r: "resolvePlaced host ?placed \<lparr>asking = h_asking host, questions = []\<rparr> = (addresses, a)" by fastforce
  note well = asked_well_all [OF asked_well_start r]
  obtain signing signed where s: "signIn host ?runtimes = (signing, signed)" by fastforce
  have quiet: "preparing e" "askedName e = None" if "e \<in> set signing" for e
    using signIn_quiet [of e host ?runtimes] that s by auto
  note silent = asked_none [of signing, OF quiet(2)]
  have names: "List.map_filter askedName (signing @ map RemoteAsked (questions a)) = map ur_name (questions a)"
    "List.map_filter askedRemote (signing @ map RemoteAsked (questions a)) = questions a"
    using silent by (simp_all add: asked_questions map_filter_append)
  have once: "distinct (map ur_name (questions a))" "set (map ur_name (questions a)) \<inter> fst ` set (h_asking host) = {}"
    using well by (auto simp: asked_well_def)
  show ?thesis
  proof (cases "isl signed \<or> lefts addresses \<noteq> []")
    case True
    then have all: "effects = signing \<or> effects = signing @ map RemoteAsked (questions a)"
      using assms s r by (auto simp: restoreBoard_def Let_def split: sum.splits)
    have failed: "isl outcome" "isl (snd (signIn host ?runtimes)) \<or> (\<exists>r \<in> set (fst (resolvePlaced host ?placed \<lparr>asking = h_asking host, questions = []\<rparr>)). isl r)"
      using assms s r True by (auto simp: restoreBoard_def Let_def lefts_Nil split: sum.splits if_splits)
    from all show ?thesis
    proof
      assume "effects = signing"
      then show ?thesis using quiet(1) silent failed by (intro exI [of _ effects] exI [of _ "[]"]) simp
    next
      assume "effects = signing @ map RemoteAsked (questions a)"
      then show ?thesis using quiet(1) names once failed by (intro exI [of _ effects] exI [of _ "[]"]) auto
    qed
  next
    case False
    define name where "name = (if oget board ''boardName'' = JUndef then or_else currentName JUndef else oget board ''boardName'')"
    define building where "building = concat (map (\<lambda>rt. fst (restoreOne host (zip (map runtime_id ?placed) (rights addresses)) (js_obj ?services) name rt)) ?runtimes)"
    have e: "effects = (signing @ map RemoteAsked (questions a)) @ building"
      using assms s r False by (auto simp: restoreBoard_def building_def name_def Let_def comp_def split: sum.splits if_splits)
    have "list_all2 (\<lambda>given rt. addressedBy host (questions a) rt given) (rights addresses) ?placed"
      using rights_all2 [of "\<lambda>given rt. addressedBy host (questions a) rt given"] well False by blast
    from restoreOne_calls [OF this subset_refl]
    have all: "list_all2 (handed host (questions a) ?runtimes ?services name) building (filter (\<lambda>rt. apiFor host rt \<noteq> None) ?runtimes)"
      by (simp only: building_def)
    have "restoring e" if "e \<in> set building" for e
      using all that by (auto simp: list_all2_conv_all_nth in_set_conv_nth handed_def)
    then show ?thesis
      using e all [unfolded name_def] names once quiet(1) by (intro exI [of _ "signing @ map RemoteAsked (questions a)"] exI [of _ building]) auto
  qed
qed

lemma restoreBoard_removes_none:
  assumes "restoreBoard host currentName board = (effects, outcome)"
  shows "RuntimeRemoved i \<notin> set effects"
proof -
  have "\<not> restoring (RuntimeRemoved i)" "\<not> preparing (RuntimeRemoved i)" by simp_all
  with restoreBoard_effects [OF assms] show ?thesis by (metis Un_iff set_append)
qed

section \<open>Properties\<close>

text \<open>
  C33. No runtime is built before every address is known: the effects of bringing a board up are the waiting
  and the questions first and the runtimes after them.  However many runtimes wait for a name it is asked
  about once, and not at all while a question under it is open from elsewhere.  Unless signing in fails or an
  address is not known, and then nothing is built, every runtime there is an API for is built, in order: with
  the services of its own id in the document, the references to secrets in them as they are, and the board
  name it keeps; and where it needs an address, as the runtime of that id with one that its own name stands
  for, among the person's remotes or as the question under that name was answered.
\<close>

theorem restoreBoard_addresses_first:
  assumes "restoreBoard host currentName board = (effects, outcome)"
  shows "\<exists>waiting building. effects = waiting @ building \<and> (\<forall>e \<in> set waiting. preparing e) \<and> (\<forall>e \<in> set building. restoring e)
    \<and> distinct (List.map_filter askedName waiting)
    \<and> set (List.map_filter askedName waiting) \<inter> fst ` set (h_asking host) = {}
    \<and> (building = [] \<and> isl outcome
          \<and> (isl (snd (signIn host (map js_obj (js_arr (oget board ''runtimes'')))))
            \<or> (\<exists>r \<in> set (fst (resolvePlaced host (filter (needsAddress host) (map js_obj (js_arr (oget board ''runtimes''))))
                  \<lparr>asking = h_asking host, questions = []\<rparr>)). isl r))
      \<or> list_all2 (\<lambda>e rt. \<exists>given. e = RuntimeRestored given (field (oget board ''services'') (runtime_id rt))
              (or_else (oget rt ''boardName'') (if oget board ''boardName'' = JUndef then or_else currentName JUndef else oget board ''boardName''))
            \<and> (if needsAddress host rt
               then \<exists>rt' \<in> set (map js_obj (js_arr (oget board ''runtimes''))).
                 runtime_id rt' = runtime_id rt \<and> addressedBy host (List.map_filter askedRemote waiting) rt' given
               else given = from_entries rt))
          building (filter (\<lambda>rt. apiFor host rt \<noteq> None) (map js_obj (js_arr (oget board ''runtimes'')))))"
  using restoreBoard_effects [OF assms] unfolding handed_def .

text \<open>
  Replacing a board keeps the one there is until the other is linked: where linking fails nothing is
  removed and the board is as it was, with the error; otherwise every runtime there was is removed
  once, in order, before any of the other board is brought up.
\<close>

theorem setBoardState_replaces:
  "case linked of
     Inl failure \<Rightarrow> setBoardState host linked s = ([], s\<lparr>bs_error := Some linkFailed\<rparr>, Inr ())
   | Inr (board, linkage) \<Rightarrow>
       (case setBoardState host linked s of
          (effects, s', Inr _) \<Rightarrow>
            \<exists>bringing r. effects = map (\<lambda>rt. RuntimeRemoved (runtime_id rt)) (bs_runtimes s) @ bringing
              \<and> (\<forall>i. RuntimeRemoved i \<notin> set bringing)
              \<and> restoreBoard host (bs_boardName s) board = (bringing, Inr r)
              \<and> bs_runtimes s' = rb_runtimes r \<and> bs_services s' = rb_services r \<and> bs_scopes s' = rb_scopes r
              \<and> bs_linkage s' = linkage \<and> bs_error s' = None
        | (effects, s', Inl es) \<Rightarrow> set (bs_runtimes s') \<subseteq> set (bs_runtimes s))"
proof (cases linked)
  case (Inr l)
  obtain board linkage where l: "l = (board, linkage)" by (cases l)
  obtain removals s1 outcome where r: "removeRuntimes host (bs_runtimes s) s = (removals, s1, outcome)" by (metis prod_cases3)
  note kept = removeRuntimes_keeps [OF r]
  show ?thesis
  proof (cases outcome)
    case (Inl e)
    then show ?thesis using kept by (auto simp: \<open>linked = Inr l\<close> l setBoardState_def r)
  next
    case (Inr u)
    define s2 where "s2 = s1\<lparr>bs_error := None, bs_facade := oget board ''facade'', bs_linkage := linkage,
                          bs_assets := boardAssets board\<rparr>"
    obtain bringing answer where b: "restoreBoard host (bs_boardName s2) board = (bringing, answer)" by fastforce
    have u: "outcome = Inr ()" using Inr by simp
    have quiet: "RuntimeRemoved i \<notin> set bringing" for i by (rule restoreBoard_removes_none [OF b])
    have e: "removals = map (\<lambda>rt. RuntimeRemoved (runtime_id rt)) (bs_runtimes s)"
      using removeRuntimes_effects r u by blast
    have bn: "bs_boardName s1 = bs_boardName s2" by (simp add: s2_def)
    have n: "bs_boardName s2 = bs_boardName s" using kept by (simp add: s2_def)
    show ?thesis
    proof (cases answer)
      case (Inl es)
      then show ?thesis
        using kept b by (simp add: \<open>linked = Inr l\<close> l setBoardState_def r u flip: s2_def) (auto simp: s2_def)
    next
      case (Inr restored)
      then have "setBoardState host linked s = (removals @ bringing, withRestored restored s2, Inr ())"
        using b by (simp add: \<open>linked = Inr l\<close> l setBoardState_def r u bn flip: s2_def)
      moreover have "bs_linkage (withRestored restored s2) = linkage" "bs_error (withRestored restored s2) = None"
        by (simp_all add: withRestored_def s2_def)
      ultimately show ?thesis
        using quiet b Inr n e by (simp add: \<open>linked = Inr l\<close> l withRestored_def)
    qed
  qed
qed (simp add: setBoardState_def)

text \<open>Two runtimes on a server this client does not keep: one question, and both where it was answered.\<close>

definition pagesApi :: RuntimeApi where
  "pagesApi =
     \<lparr>api_resolvesAddress = True,
      api_restoreRuntime = (\<lambda>rt services name.
        Inr (Some \<lparr>rr_runtime = rt, rr_services = services, rr_registry = JArr [], rr_scope = Some 7\<rparr>)),
      api_removeRuntime = (\<lambda>_ _. Inr ()), api_getServiceConfig = (\<lambda>_ service. Inr (field service ''state'')),
      api_serializeState = (\<lambda>_. []), api_addRuntime = (\<lambda>_ _. Inr None), api_pushAssets = (\<lambda>_ _. None),
      api_configureService = (\<lambda>_ _. Inr ())\<rparr>"

definition pagesHost :: Host where
  "pagesHost =
     \<lparr>h_apis = [(''rest'', pagesApi)], h_authenticated = (\<lambda>_. Inr True), h_user = True, h_login = Inr (),
      h_remotes = [],
      h_prompt = Some (\<lambda>q wanted. Some \<lparr>kr_name = ur_name wanted, kr_url = Some (if q = 0 then ''http://n'' else ''http://other''),
        kr_type = None, kr_aliases = JUndef\<rparr>),
      h_asking = [],
      h_vault = loadVault [], h_assetsFor = (\<lambda>_. []), h_onRemoveRuntime = Some (\<lambda>_. Inr ())\<rparr>"

definition pagesRuntime :: "string \<Rightarrow> obj" where
  "pagesRuntime i = [(''id'', JStr i), (''type'', JStr ''rest''), (''remote'', JStr ''node'')]"

definition pagesBoard :: obj where
  "pagesBoard =
     [(''runtimes'', JArr [JObj (pagesRuntime ''a''), JObj (pagesRuntime ''b'')]),
      (''services'', JObj [(''a'', JArr [JStr ''secret'']), (''b'', JArr [])])]"

abbreviation nodeWanted :: UnknownRemote where
  "nodeWanted \<equiv> \<lparr>ur_name = ''node'', ur_runtimeName = JStr ''a'', ur_kind = Some ''hkp-node''\<rparr>"

theorem restoreBoard_addresses_first_witness:
  "\<exists>waiting building. fst (restoreBoard pagesHost JUndef pagesBoard) = waiting @ building
    \<and> waiting = [RemoteAsked nodeWanted] \<and> length building = 2"
proof -
  have e: "fst (restoreBoard pagesHost JUndef pagesBoard) =
      [RemoteAsked nodeWanted, RuntimeRestored (oput ''url'' (JStr ''http://n'') (pagesRuntime ''a'')) (JArr [JStr ''secret'']) JUndef,
       RuntimeRestored (oput ''url'' (JStr ''http://n'') (pagesRuntime ''b'')) (JArr []) JUndef]"
    by code_simp
  obtain waiting building where w: "fst (restoreBoard pagesHost JUndef pagesBoard) = waiting @ building"
    "\<forall>e \<in> set waiting. preparing e" "\<forall>e \<in> set building. restoring e"
    using restoreBoard_addresses_first [OF prod.collapse [symmetric], of pagesHost JUndef pagesBoard] by blast
  have "filter preparing (waiting @ building) = waiting" "filter restoring (waiting @ building) = building"
    using w(2,3) by (auto simp: filter_empty_conv filter_id_conv elim!: preparing.elims restoring.elims)
  then have "waiting = [RemoteAsked nodeWanted]" "length building = 2" unfolding w(1) [symmetric] e by auto
  with w(1) show ?thesis by (intro exI [of _ waiting] exI [of _ building]) simp
qed

end
