(* ===== verification/RuntimeOperations.thy ===== *)
theory RuntimeOperations
  imports BoardState
begin

text \<open>
  What a person does to the runtimes of a board, and the board as it is serialised
  (\<^verbatim>\<open>hkp-frontend/src/core/runtimeOperations.ts\<close>, \<^verbatim>\<open>serializeBoard\<close> of \<^verbatim>\<open>boardPersistence.ts\<close>).
\<close>

section \<open>Runtimes\<close>

definition isRuntimeRestClassType :: "string \<Rightarrow> bool" where
  "isRuntimeRestClassType type = (toCanonicalRuntimeClassType type = ''rest'')"

text \<open>What is put on the board, and the runtime's entries in the three dictionaries.\<close>

definition runtimeOnBoard :: "Host \<Rightarrow> obj \<Rightarrow> jsval \<Rightarrow> obj \<Rightarrow> obj" where
  "runtimeOnBoard host rtClass boardName runtime =
     (let remote = (if isRuntimeRestClassType (runtime_type rtClass)
                    then remoteNameForBoard (h_remotes host) (the_str (oget rtClass ''url'')) else None)
      in ospread runtime
           ((case remote of Some name \<Rightarrow> if name \<noteq> [] then [(''remote'', JStr name)] else [] | None \<Rightarrow> [])
            @ [(''state'', JObj (ospread (from_entries (js_obj (oget runtime ''state''))) [(''color'', oget rtClass ''color'')])),
               (''boardName'', boardName)]))"

definition putOnBoard :: "obj \<Rightarrow> string \<Rightarrow> jsval \<Rightarrow> jsval \<Rightarrow> nat \<Rightarrow> BoardState \<Rightarrow> BoardState" where
  "putOnBoard rt i services registry scope s =
     s\<lparr>bs_runtimes := bs_runtimes s @ [rt],
       bs_services := oput i services (from_entries (bs_services s)),
       bs_registry := oput i registry (from_entries (bs_registry s)),
       bs_scopes := oput i (Some scope) (from_entries (bs_scopes s))\<rparr>"

text \<open>An error inside the attempt is reported, and the login waited for; \<^verbatim>\<open>null\<close> is \<^const>\<open>None\<close>.\<close>

definition addFailed :: "Host \<Rightarrow> string \<Rightarrow> BoardState \<Rightarrow> Effect list \<times> BoardState \<times> (string + obj option)" where
  "addFailed host message s =
     ([AddFailed message, LoginWaited], s, case h_login host of Inl e \<Rightarrow> Inl e | Inr _ \<Rightarrow> Inr None)"

definition addRuntime :: "Host \<Rightarrow> obj \<Rightarrow> BoardState \<Rightarrow> Effect list \<times> BoardState \<times> (string + obj option)" where
  "addRuntime host rtClass s =
     (case map_of (h_apis host) (runtime_type rtClass) of
        None \<Rightarrow> ([], s, Inl (''BoardContext.addRuntime() runtime api is missing: '' @ runtime_type rtClass))
      | Some api \<Rightarrow>
          (case api_addRuntime api rtClass (or_else (bs_boardName s) JUndef) of
             Inl e \<Rightarrow> addFailed host e s
           | Inr None \<Rightarrow> ([], s, Inr None)
           | Inr (Some r) \<Rightarrow>
               (case rr_scope r of
                  None \<Rightarrow> addFailed host ''scope is missing'' s
                | Some scope \<Rightarrow>
                    let rt = runtimeOnBoard host rtClass (or_else (bs_boardName s) JUndef) (rr_runtime r)
                    in case api_pushAssets api scope (assetsById (Some (h_assetsFor host rt))) of
                         Some refused \<Rightarrow>
                           ([RuntimeRemoved (runtime_id rt),
                             AddFailed (''it did not take the board's assets ('' @ refused @ ''), so it was not added''
                               @ (case api_removeRuntime api scope rt of
                                    Inl _ \<Rightarrow> ''; it could not be removed again and is still running there'' | Inr _ \<Rightarrow> []))],
                            s, Inr None)
                       | None \<Rightarrow>
                           ([RuntimeAdded (runtime_id rt)],
                            putOnBoard rt (runtime_id (rr_runtime r)) (rr_services r)
                              (if rr_registry r = JUndef then JArr [] else rr_registry r) scope s,
                            Inr (Some rt)))))"

text \<open>The edited JSON of a runtime and its services; \<^verbatim>\<open>withoutSession\<close> leaves the signed-in user out.\<close>

definition withoutSession :: "obj \<Rightarrow> obj" where
  "withoutSession runtime = from_entries (omit [''user''] runtime)"

definition replaceRuntime :: "string \<Rightarrow> obj \<Rightarrow> BoardState \<Rightarrow> BoardState" where
  "replaceRuntime i rt s = s\<lparr>bs_runtimes := map (\<lambda>r. if runtime_id r = i then rt else r) (bs_runtimes s)\<rparr>"

definition updateRuntime :: "Host \<Rightarrow> string \<Rightarrow> obj \<Rightarrow> jsval list \<Rightarrow> BoardState \<Rightarrow> Effect list \<times> BoardState \<times> (string + unit)" where
  "updateRuntime host i newRuntime services s =
     (case (getRuntimeScopeApi host i s, find (\<lambda>r. runtime_id r = i) (bs_runtimes s)) of
        ((Some scope, Some api), Some runtime) \<Rightarrow>
          let rt = withoutSession newRuntime
          in if runtime_id rt \<noteq> i then
               (case api_removeRuntime api scope runtime of
                  Inl e \<Rightarrow> ([RuntimeRemoved i], s, Inl e)
                | Inr _ \<Rightarrow>
                    (case api_restoreRuntime api rt (JArr services) JUndef of
                       Inl e \<Rightarrow> ([RuntimeRemoved i, RuntimeRestored rt (JArr services) JUndef], s, Inl e)
                     | Inr None \<Rightarrow> ([RuntimeRemoved i, RuntimeRestored rt (JArr services) JUndef], s, Inr ())
                     | Inr (Some r) \<Rightarrow>
                         let s1 = replaceRuntime i rt s
                         in ([RuntimeRemoved i, RuntimeRestored rt (JArr services) JUndef],
                             s1\<lparr>bs_services := oput (runtime_id rt) (JArr services) (from_entries (bs_services s1)),
                                bs_scopes := oput (runtime_id rt) (rr_scope r) (from_entries (bs_scopes s1))\<rparr>,
                             Inr ())))
             else
               (case lefts (map (api_configureService api scope) services) of
                  e # _ \<Rightarrow> ([], s, Inl e)
                | [] \<Rightarrow> ([], replaceRuntime i rt s, Inr ()))
      | _ \<Rightarrow> ([], s, Inl (''BoardContext.updateRuntime() runtime api is missing: '' @ i)))"

text \<open>
  \<^verbatim>\<open>reorderRuntime\<close>, whose second \<^verbatim>\<open>splice\<close> counts a negative position from the end.  Where there is no
  such runtime the code would move what is not there; no caller asks for that.
\<close>

definition splice_in :: "int \<Rightarrow> 'a \<Rightarrow> 'a list \<Rightarrow> 'a list" where
  "splice_in position x xs =
     (let start = nat (if position < 0 then max 0 (int (length xs) + position) else position)
      in take start xs @ x # drop start xs)"

definition reorder :: "('a \<Rightarrow> bool) \<Rightarrow> int \<Rightarrow> 'a list \<Rightarrow> 'a list" where
  "reorder P targetPosition xs =
     (let fromIndex = length (takeWhile (\<lambda>x. \<not> P x) xs)
      in if fromIndex < length xs then
           let toIndex = (if targetPosition > int fromIndex then max (targetPosition - 1) 0 else targetPosition)
           in splice_in toIndex (xs ! fromIndex) (take fromIndex xs @ drop (Suc fromIndex) xs)
         else xs)"

definition arrangeRuntimes :: "Host \<Rightarrow> string \<Rightarrow> int \<Rightarrow> BoardState \<Rightarrow> BoardState \<times> (string + unit)" where
  "arrangeRuntimes host i targetPosition s =
     (case getRuntimeScopeApi host i s of
        (Some _, Some _) \<Rightarrow> (s\<lparr>bs_runtimes := reorder (\<lambda>rt. runtime_id rt = i) targetPosition (bs_runtimes s)\<rparr>, Inr ())
      | _ \<Rightarrow> (s, Inl ''BoardContext.arrangeServices, scope or api missing''))"

definition setRuntimeName :: "string \<Rightarrow> string \<Rightarrow> BoardState \<Rightarrow> BoardState \<times> (string + unit)" where
  "setRuntimeName i newName s =
     (if \<exists>rt \<in> set (bs_runtimes s). runtime_id rt = i \<and> runtime_type rt \<noteq> ''browser''
      then (s, Inl ''BoardContext.setRuntimeName() only supported for browser runtimes'')
      else (s\<lparr>bs_runtimes := map (\<lambda>rt. if runtime_id rt = i then oput ''name'' (JStr newName) rt else rt)
                (bs_runtimes s)\<rparr>, Inr ()))"

section \<open>The servers a person keeps\<close>

definition poolEntry :: "obj \<Rightarrow> obj" where
  "poolEntry rt =
     (let kept = cleanAliases (to_str (oget rt ''name'')) (oget rt ''aliases'')
      in [(''name'', oget rt ''name''), (''type'', oget rt ''type''), (''url'', oget rt ''url''), (''color'', oget rt ''color'')]
         @ (if kept \<noteq> [] then [(''aliases'', JArr (map JStr kept))] else []))"

definition addAvailableRuntime :: "obj \<Rightarrow> bool \<Rightarrow> obj list \<Rightarrow> obj list" where
  "addAvailableRuntime runtime overwriteIfExists current =
     (if overwriteIfExists then filter (\<lambda>rt. oget rt ''name'' \<noteq> oget runtime ''name'') current else current)
     @ [poolEntry runtime]"

text \<open>The entry put in is told from an equal one by its identity: \<open>Inr\<close> here.\<close>

definition updateAvailableRuntime :: "obj \<Rightarrow> obj \<Rightarrow> obj list \<Rightarrow> obj list" where
  "updateAvailableRuntime previous new current =
     (let entry = poolEntry new;
          named = (\<lambda>rt. oget rt ''name'' = oget previous ''name'');
          replaced = (if \<exists>rt \<in> set current. named rt
                      then map (\<lambda>rt. if named rt then Inr entry else Inl rt) current
                      else map Inl current @ [Inr entry])
      in map (\<lambda>rt. case rt of Inl r \<Rightarrow> r | Inr e \<Rightarrow> e)
           (filter (\<lambda>rt. case rt of Inl r \<Rightarrow> oget r ''name'' \<noteq> oget new ''name'' | Inr e \<Rightarrow> True) replaced))"

definition removeAvailableRuntime :: "obj \<Rightarrow> obj list \<Rightarrow> obj list" where
  "removeAvailableRuntime runtime current = filter (\<lambda>rt. oget rt ''name'' \<noteq> oget runtime ''name'') current"

section \<open>The board as it is serialised\<close>

definition serializeService :: "RuntimeApi option \<times> nat option \<Rightarrow> jsval \<Rightarrow> string + jsval" where
  "serializeService access svc =
     map_sum id (\<lambda>config. JObj [(''uuid'', field svc ''uuid''), (''serviceId'', field svc ''serviceId''),
           (''serviceName'', field svc ''serviceName''), (''state'', config)])
       (case access of
          (Some api, Some scope) \<Rightarrow> api_getServiceConfig api scope svc
        | _ \<Rightarrow> Inr (JObj []))"

definition serializeServices :: "Host \<Rightarrow> BoardState \<Rightarrow> string \<times> jsval \<Rightarrow> string list + string \<times> jsval" where
  "serializeServices host s entry =
     (case entry of
        (runtimeId, services) \<Rightarrow>
          if runtimeId \<notin> runtime_id ` set (bs_runtimes s)
          then Inl [''BoardContext.serializeBoard runtime with id: '' @ runtimeId]
          else
            let (scope, api) = getRuntimeScopeApi host runtimeId s;
                configs = map (serializeService (api, scope)) (js_arr services)
            in if lefts configs \<noteq> [] then Inl (lefts configs) else Inr (runtimeId, JArr (rights configs)))"

definition runtimeState :: "Host \<Rightarrow> BoardState \<Rightarrow> obj \<Rightarrow> jsval" where
  "runtimeState host s rt =
     (if js_arr (oget (bs_services s) (runtime_id rt)) \<noteq> [] then
        JObj (ospread (from_entries (js_obj (oget (the (find (\<lambda>r. runtime_id r = runtime_id rt) (bs_runtimes s))) ''state'')))
          (case getRuntimeScopeApi host (runtime_id rt) s of
             (Some scope, Some api) \<Rightarrow> api_serializeState api scope
           | _ \<Rightarrow> []))
      else JObj [(''wrapServices'', JBool False), (''minimized'', JBool False)])"

definition serializeRuntime :: "Host \<Rightarrow> BoardState \<Rightarrow> obj \<Rightarrow> obj" where
  "serializeRuntime host s rt =
     [(''id'', oget rt ''id''), (''name'', oget rt ''name''), (''type'', oget rt ''type'')]
     @ authoredAddressing (addressed rt)
     @ [(''bundles'', oget rt ''bundles'')]
     @ (if truthy (oget rt ''unit'')
        then [(''unit'', oget rt ''unit''), (''unitRuntimeId'', oget rt ''unitRuntimeId''), (''boardName'', oget rt ''boardName'')]
        else [])
     @ [(''state'', runtimeState host s rt)]"

definition serializeBoard :: "Host \<Rightarrow> BoardState \<Rightarrow> string list + obj" where
  "serializeBoard host s =
     (let services = map (serializeServices host s) (bs_services s)
      in if lefts services \<noteq> [] then Inl (concat (lefts services))
         else
           Inr ([(''runtimes'', JArr (map (JObj \<circ> serializeRuntime host s) (bs_runtimes s))),
                 (''services'', JObj (from_entries (rights services)))]
                @ (case bs_assets s of
                     Some (a # as) \<Rightarrow> [(''assets'', JArr (map asset_json (a # as)))]
                   | _ \<Rightarrow> [])))"

section \<open>What may happen to a board\<close>

text \<open>\<open>renames\<close> is whether an edited runtime may be given another id.\<close>

inductive board_step :: "Host \<Rightarrow> bool \<Rightarrow> BoardState \<Rightarrow> BoardState \<Rightarrow> bool" for host renames where
  step_set: "setBoardState host linked s = (effects, s', outcome) \<Longrightarrow> board_step host renames s s'"
| step_clear: "clearBoard host newName s = (effects, s', outcome') \<Longrightarrow> board_step host renames s s'"
| step_add: "addRuntime host rtClass s = (effects, s', onBoard) \<Longrightarrow> board_step host renames s s'"
| step_remove: "removeRuntime host rt s = (effects, s', outcome') \<Longrightarrow> board_step host renames s s'"
| step_update: "updateRuntime host i rt services s = (effects, s', outcome') \<Longrightarrow>
    renames \<or> runtime_id (withoutSession rt) = i \<Longrightarrow> board_step host renames s s'"
| step_arrange: "arrangeRuntimes host i position s = (s', outcome') \<Longrightarrow> board_step host renames s s'"
| step_name: "setRuntimeName i name s = (s', outcome') \<Longrightarrow> board_step host renames s s'"

text \<open>An API that restores a runtime answers with its scope, as its type says.\<close>

definition scopes_given :: "Host \<Rightarrow> bool" where
  "scopes_given host \<longleftrightarrow>
     (\<forall>(type, api) \<in> set (h_apis host). \<forall>rt services name r.
        api_restoreRuntime api rt services name = Inr (Some r) \<longrightarrow> rr_scope r \<noteq> None)"

definition saveable :: "BoardState \<Rightarrow> bool" where
  "saveable s \<longleftrightarrow> set (okeys (bs_services s)) \<subseteq> runtime_id ` set (bs_runtimes s)"

lemma set_splice_in: "set (splice_in n x xs) = insert x (set xs)"
proof -
  have "set (take k xs) \<union> set (drop k xs) = set xs" for k by (metis append_take_drop_id set_append)
  then show ?thesis by (auto simp: splice_in_def Let_def)
qed

lemma set_reorder: "set (reorder P n xs) = set xs"
proof -
  have "insert (xs ! i) (set (take i xs) \<union> set (drop (Suc i) xs)) = set xs" if "i < length xs" for i
    using that by (metis Un_insert_right id_take_nth_drop list.simps(15) set_append)
  then show ?thesis by (simp add: reorder_def Let_def set_splice_in)
qed

lemma keys_reduce:
  "set (okeys (reduceByRuntimeId prop results)) = (runtime_id \<circ> rr_runtime) ` set results"
proof -
  have "set (okeys (fold (\<lambda>cur all. oput (runtime_id (rr_runtime cur)) (prop cur) all) results acc))
      = set (okeys acc) \<union> (runtime_id \<circ> rr_runtime) ` set results" for acc
    by (induction results arbitrary: acc) auto
  then show ?thesis by (simp add: reduceByRuntimeId_def)
qed

lemma reduce_values:
  assumes "map_of (reduceByRuntimeId prop results) i = Some v"
  shows "\<exists>r \<in> set results. runtime_id (rr_runtime r) = i \<and> prop r = v"
proof -
  have "map_of (fold (\<lambda>cur all. oput (runtime_id (rr_runtime cur)) (prop cur) all) results acc) i = Some v \<Longrightarrow>
      map_of acc i = Some v \<or> (\<exists>r \<in> set results. runtime_id (rr_runtime r) = i \<and> prop r = v)" for acc
    by (induction results arbitrary: acc) (fastforce split: if_splits)+
  from this [of "[]"] assms show ?thesis by (simp add: reduceByRuntimeId_def)
qed

lemma apiFor_mem: "apiFor host rt = Some api \<Longrightarrow> \<exists>type. (type, api) \<in> set (h_apis host)"
  by (auto simp: apiFor_def split: option.splits dest!: map_of_SomeD)

lemma restored_results:
  assumes "restoreBoard host currentName board = (effects, Inr r)"
  shows "\<exists>results. (\<forall>v \<in> set results. \<exists>type api rt services name. (type, api) \<in> set (h_apis host)
        \<and> api_restoreRuntime api rt services name = Inr (Some v))
    \<and> rb_runtimes r = map rr_runtime
        (filter (\<lambda>v. Option.bind (map_of (reduceByRuntimeId rr_scope results) (runtime_id (rr_runtime v))) id \<noteq> None) results)
    \<and> rb_services r = reduceByRuntimeId rr_services results"
proof -
  have a: "\<exists>type api given theirs. (type, api) \<in> set (h_apis host) \<and> api_restoreRuntime api given theirs (or_else (oget rt ''boardName'') name) = Inr (Some v)"
    if "snd (restoreOne host resolved services name rt) = Inr (Some v)" for resolved services name rt v
  proof (cases "apiFor host rt")
    case (Some api)
    then obtain type where "(type, api) \<in> set (h_apis host)" using apiFor_mem by blast
    then show ?thesis using that Some by (auto simp: restoreOne_def Let_def)
  qed (use that in \<open>simp add: restoreOne_def\<close>)
  let ?runtimes = "map js_obj (js_arr (oget board ''runtimes''))" and ?services = "js_obj (oget board ''services'')"
  define name where "name = (if oget board ''boardName'' = JUndef then or_else currentName JUndef else oget board ''boardName'')"
  define resolved where "resolved = zip (map runtime_id (filter (needsAddress host) ?runtimes))
    (rights (fst (resolvePlaced host (filter (needsAddress host) ?runtimes) \<lparr>asking = h_asking host, questions = []\<rparr>)))"
  define results where "results = List.map_filter id (rights (map snd (map (restoreOne host resolved ?services name) ?runtimes)))"
  have "rb_runtimes r = map rr_runtime
        (filter (\<lambda>v. Option.bind (map_of (reduceByRuntimeId rr_scope results) (runtime_id (rr_runtime v))) id \<noteq> None) results)
    \<and> rb_services r = reduceByRuntimeId rr_services results"
    using assms by (auto simp: restoreBoard_def results_def resolved_def name_def Let_def split: prod.splits sum.splits if_splits)
  moreover have "\<exists>type api rt services name. (type, api) \<in> set (h_apis host)
        \<and> api_restoreRuntime api rt services name = Inr (Some v)" if "v \<in> set results" for v
  proof -
    have "Inr (Some v) \<in> set (map snd (map (restoreOne host resolved ?services name) ?runtimes))"
      using that by (auto simp: results_def map_filter_def rights_mem)
    then obtain rt where "snd (restoreOne host resolved ?services name rt) = Inr (Some v)" by (auto simp: comp_def)
    then show ?thesis using a by blast
  qed
  ultimately show ?thesis by blast
qed

lemma saveable_same:
  "saveable s \<Longrightarrow> set (okeys (bs_services s')) \<subseteq> set (okeys (bs_services s)) \<Longrightarrow>
     runtime_id ` set (bs_runtimes s) \<subseteq> runtime_id ` set (bs_runtimes s') \<Longrightarrow> saveable s'"
  unfolding saveable_def by blast

lemma saveable_empty: "bs_services s = [] \<Longrightarrow> saveable s"
  by (simp add: saveable_def)

lemma saveable_remove:
  assumes "removeRuntime host rt s = (effects, s', outcome)" "saveable s"
  shows "saveable s'"
proof -
  have "saveable (withoutRuntime i s)" for i
    using assms(2) unfolding saveable_def withoutRuntime_fields by auto
  then show ?thesis using assms by (auto simp: removeRuntime_def split: option.splits sum.splits prod.splits)
qed

lemma saveable_removed:
  "removeRuntimes host rts s = (effects, s', outcome) \<Longrightarrow> saveable s \<Longrightarrow> saveable s'"
proof (induction rts arbitrary: s effects)
  case (Cons rt rts)
  obtain eff s1 out where r: "removeRuntime host rt s = (eff, s1, out)" by (metis prod_cases3)
  then have "saveable s1" using Cons.prems(2) by (rule saveable_remove)
  then show ?case using Cons r by (auto simp: Let_def split: sum.splits prod.splits)
qed simp

lemma saveable_restored:
  assumes "restoreBoard host currentName board = (effects, Inr r)" "scopes_given host"
  shows "saveable (withRestored r s)"
proof -
  obtain results where v: "\<forall>v \<in> set results. \<exists>type api rt services name. (type, api) \<in> set (h_apis host)
        \<and> api_restoreRuntime api rt services name = Inr (Some v)"
    and rt: "rb_runtimes r = map rr_runtime
        (filter (\<lambda>v. Option.bind (map_of (reduceByRuntimeId rr_scope results) (runtime_id (rr_runtime v))) id \<noteq> None) results)"
    and sv: "rb_services r = reduceByRuntimeId rr_services results"
    using restored_results [OF assms(1)] by blast
  have "rr_scope v \<noteq> None" if "v \<in> set results" for v
    using v that assms(2) by (fastforce simp: scopes_given_def)
  then have "Option.bind (map_of (reduceByRuntimeId rr_scope results) (runtime_id (rr_runtime v))) id \<noteq> None"
    if "v \<in> set results" for v
  proof -
    have "runtime_id (rr_runtime v) \<in> set (okeys (reduceByRuntimeId rr_scope results))"
      unfolding keys_reduce using that by auto
    then obtain sc where "map_of (reduceByRuntimeId rr_scope results) (runtime_id (rr_runtime v)) = Some sc"
      by (metis map_of_eq_None_iff not_None_eq set_map)
    then show ?thesis using reduce_values [of rr_scope results] \<open>\<And>v. v \<in> set results \<Longrightarrow> rr_scope v \<noteq> None\<close> by fastforce
  qed
  then have "rb_runtimes r = map rr_runtime results" unfolding rt by (auto intro!: filter_True)
  moreover have "set (okeys (rb_services r)) = (runtime_id \<circ> rr_runtime) ` set results" unfolding sv by (rule keys_reduce)
  ultimately show ?thesis unfolding saveable_def withRestored_def by (simp add: image_comp)
qed

lemma saveable_set:
  assumes "setBoardState host linked s = (effects, s', outcome)" "saveable s" "scopes_given host"
  shows "saveable s'"
proof (cases linked)
  case (Inl failure)
  then show ?thesis using assms(1,2) by (auto simp: setBoardState_def intro: saveable_same)
next
  case (Inr l)
  obtain board linkage where l: "l = (board, linkage)" by (cases l)
  obtain removals s1 removed where r: "removeRuntimes host (bs_runtimes s) s = (removals, s1, removed)" by (metis prod_cases3)
  have s1: "saveable s1" by (rule saveable_removed [OF r assms(2)])
  show ?thesis
  proof (cases removed)
    case (Inl e)
    then show ?thesis using assms(1) s1 by (simp add: \<open>linked = Inr l\<close> l setBoardState_def r)
  next
    case (Inr u)
    define s2 where "s2 = s1\<lparr>bs_error := None, bs_facade := oget board ''facade'', bs_linkage := linkage,
                          bs_assets := boardAssets board\<rparr>"
    have s2: "saveable s2" by (rule saveable_same [OF s1]) (simp_all add: s2_def)
    obtain bringing answer where b: "restoreBoard host (bs_boardName s2) board = (bringing, answer)" by fastforce
    have n: "bs_boardName s1 = bs_boardName s2" by (simp add: s2_def)
    have "s' = (case answer of Inl es \<Rightarrow> s2 | Inr r \<Rightarrow> withRestored r s2)"
      using assms(1) b Inr by (auto simp: \<open>linked = Inr l\<close> l setBoardState_def r n simp flip: s2_def split: sum.splits)
    then show ?thesis using s2 b saveable_restored [OF _ assms(3)] by (auto split: sum.splits)
  qed
qed

lemma saveable_step:
  assumes "board_step host False s s'" "saveable s" "scopes_given host"
  shows "saveable s'"
  using assms
proof (induction rule: board_step.induct)
  case (step_set linked s effects s' outcome)
  then show ?case by (rule saveable_set)
next
  case (step_clear newName s effects s' outcome')
  obtain removals s1 removed where r: "removeRuntimes host (bs_runtimes s) s = (removals, s1, removed)" by (metis prod_cases3)
  have "saveable s1" by (rule saveable_removed [OF r]) fact
  then show ?case using step_clear.hyps r by (auto simp: clearBoard_def saveable_empty split: sum.splits)
next
  case (step_remove rt s effects s' outcome')
  then show ?case using saveable_remove by blast
next
  case (step_add rtClass s effects s' onBoard)
  have i: "runtime_id (runtimeOnBoard host rtClass name rt) = runtime_id rt" for name rt
    by (auto simp: runtimeOnBoard_def runtime_id_def oget_ospread Let_def split: option.splits)
  have "saveable (putOnBoard (runtimeOnBoard host rtClass name rt) (runtime_id rt) services registry scope s)"
    for name rt services registry scope
  proof -
    have "set (okeys (oput (runtime_id rt) services (from_entries (bs_services s)))) = insert (runtime_id rt) (set (okeys (bs_services s)))"
      by (simp only: set_okeys_oput from_entries_def set_okeys_ospread) simp
    then show ?thesis using \<open>saveable s\<close> unfolding saveable_def putOnBoard_def by (simp add: i subset_insertI2 insert_subset)
  qed
  then show ?case
    using step_add by (auto simp: addRuntime_def addFailed_def Let_def split: option.splits sum.splits)
next
  case (step_update i rt services s effects s' outcome')
  have "saveable (replaceRuntime i (withoutSession rt) s)" if "runtime_id (withoutSession rt) = i"
    by (rule saveable_same [OF \<open>saveable s\<close>]) (use that in \<open>auto simp: replaceRuntime_def image_iff\<close>)
  then show ?case
    using step_update by (auto simp: updateRuntime_def Let_def split: option.splits sum.splits prod.splits list.splits)
next
  case (step_arrange i position s s' outcome')
  show ?case
    by (rule saveable_same [OF \<open>saveable s\<close>])
      (use step_arrange.hyps in \<open>auto simp: arrangeRuntimes_def set_reorder split: option.splits prod.splits\<close>)
next
  case (step_name i name s s' outcome')
  have "runtime_id (oput ''name'' v rt) = runtime_id rt" for v rt
    by (simp add: runtime_id_def)
  then have "map runtime_id (bs_runtimes s') = map runtime_id (bs_runtimes s)"
    using step_name.hyps by (auto simp: setRuntimeName_def split: if_splits)
  then have "runtime_id ` set (bs_runtimes s') = runtime_id ` set (bs_runtimes s)" by (metis set_map)
  moreover have "bs_services s' = bs_services s" using step_name.hyps by (auto simp: setRuntimeName_def split: if_splits)
  ultimately show ?case by (intro saveable_same [OF \<open>saveable s\<close>]) simp_all
qed

lemma saveable_reaches:
  assumes "(board_step host False)\<^sup>*\<^sup>* s0 s" "bs_services s0 = []" "scopes_given host"
  shows "saveable s"
  using assms(1)
  by (induction rule: rtranclp_induct) (auto intro: saveable_step [OF _ _ assms(3)] saveable_empty [OF assms(2)])

lemma oget_only: "oget [(k, v)] k' = (if k' = k then v else JUndef)"
  by (simp add: oget_def)

lemma serializeServices_errors:
  assumes "saveable s" "entry \<in> set (bs_services s)" "serializeServices host s entry = Inl es" "e \<in> set es"
  shows "\<exists>type api scope svc. (type, api) \<in> set (h_apis host) \<and> api_getServiceConfig api scope svc = Inl e"
proof -
  obtain i services where entry: "entry = (i, services)" by fastforce
  obtain scope api where a: "getRuntimeScopeApi host i s = (scope, api)" by fastforce
  have "i \<in> runtime_id ` set (bs_runtimes s)" using assms(1,2) entry by (force simp: saveable_def)
  then have "Inl e \<in> set (map (serializeService (api, scope)) (js_arr services))"
    using assms(3,4) a by (auto simp: serializeServices_def entry Let_def lefts_mem split: if_splits)
  then obtain svc where "serializeService (api, scope) svc = Inl e" by auto
  then obtain p sc where p: "api = Some p" "api_getServiceConfig p sc svc = Inl e"
    by (cases api; cases scope) (auto simp: serializeService_def map_sum_def split: sum.splits)
  then have "\<exists>type. (type, p) \<in> set (h_apis host)"
    using a by (auto simp: getRuntimeScopeApi_def bind_eq_Some_conv dest: apiFor_mem)
  with p(2) show ?thesis by blast
qed

section \<open>Properties\<close>

text \<open>
  C34. A board can be saved at any time: whatever was opened, cleared, added, removed, edited, moved or
  renamed on it, with calls failing or not, the only thing that keeps it from being serialised is a
  runtime that does not answer for one of its services; and every dictionary entry is in the document.
\<close>

theorem board_always_saved:
  assumes "(board_step host False)\<^sup>*\<^sup>* s0 s" "bs_services s0 = []" "scopes_given host"
  shows "case serializeBoard host s of
      Inl es \<Rightarrow> \<forall>e \<in> set es. \<exists>type api scope svc. (type, api) \<in> set (h_apis host) \<and> api_getServiceConfig api scope svc = Inl e
    | Inr document \<Rightarrow> set (okeys (js_obj (oget document ''services''))) = set (okeys (bs_services s))
        \<and> map (\<lambda>rt. field rt ''id'') (js_arr (oget document ''runtimes'')) = map (\<lambda>rt. oget rt ''id'') (bs_runtimes s)"
proof (cases "lefts (map (serializeServices host s) (bs_services s)) = []")
  case True
  then have all: "\<not> isl (serializeServices host s entry)" if "entry \<in> set (bs_services s)" for entry
    using that by (simp add: lefts_Nil)
  have key: "fst (projr (serializeServices host s entry)) = fst entry" if "\<not> isl (serializeServices host s entry)" for entry
    using that by (cases entry) (auto simp: serializeServices_def Let_def split: prod.splits if_splits)
  have "map fst (rights (map (serializeServices host s) es)) = okeys es" if "set es \<subseteq> set (bs_services s)" for es
    using that
  proof (induction es)
    case (Cons entry es)
    then have n: "\<not> isl (serializeServices host s entry)" using all by auto
    then show ?case
      using Cons key [OF n] by (cases "serializeServices host s entry") (auto simp: rights_def)
  qed (simp add: rights_def)
  then have "okeys (rights (map (serializeServices host s) (bs_services s))) = okeys (bs_services s)" by blast
  then have "set (okeys (from_entries (rights (map (serializeServices host s) (bs_services s))))) = set (okeys (bs_services s))"
    by (simp only: from_entries_def set_okeys_ospread) simp
  moreover have "\<exists>document. serializeBoard host s = Inr document
      \<and> oget document ''services'' = JObj (from_entries (rights (map (serializeServices host s) (bs_services s))))
      \<and> oget document ''runtimes'' = JArr (map (JObj \<circ> serializeRuntime host s) (bs_runtimes s))"
    using True by (auto simp: serializeBoard_def Let_def oget_def split: option.splits list.splits)
  moreover have "field (JObj (serializeRuntime host s rt)) ''id'' = oget rt ''id''" for rt
    by (simp add: serializeRuntime_def oget_def)
  ultimately show ?thesis by (auto simp: comp_def)
next
  case False
  have "\<exists>type api scope svc. (type, api) \<in> set (h_apis host) \<and> api_getServiceConfig api scope svc = Inl e"
    if e: "e \<in> set (concat (lefts (map (serializeServices host s) (bs_services s))))" for e
  proof -
    obtain es where es: "Inl es \<in> set (map (serializeServices host s) (bs_services s))" "e \<in> set es"
      using e by (auto simp: lefts_mem simp del: set_map)
    then obtain entry where "entry \<in> set (bs_services s)" "serializeServices host s entry = Inl es" by auto
    with es(2) show ?thesis using serializeServices_errors [OF saveable_reaches [OF assms]] by blast
  qed
  then show ?thesis using False by (simp only: serializeBoard_def Let_def if_True simp_thms sum.case) blast
qed

text \<open>
  Giving a runtime another id in its JSON leaves a board that cannot be saved: its services stay
  filed under the id it had, and serialising stops at them.
\<close>

theorem updateRuntime_new_id_unsaved:
  assumes "updateRuntime host i rt services s = (effects, s', Inr ())"
    and "runtime_id (withoutSession rt) \<noteq> i" "runtime_id (withoutSession rt) \<notin> runtime_id ` set (bs_runtimes s)"
    and "runtime_id (withoutSession rt) \<in> runtime_id ` set (bs_runtimes s')" "i \<in> set (okeys (bs_services s))"
  shows "\<exists>es. serializeBoard host s' = Inl es \<and> ''BoardContext.serializeBoard runtime with id: '' @ i \<in> set es"
proof -
  let ?rt = "withoutSession rt"
  have replaced: "s' = s \<or> bs_runtimes s' = bs_runtimes (replaceRuntime i ?rt s)
      \<and> bs_services s' = oput (runtime_id ?rt) (JArr services) (from_entries (bs_services s))"
  proof -
    obtain scope api runtime where g: "getRuntimeScopeApi host i s = (Some scope, Some api)"
        "find (\<lambda>r. runtime_id r = i) (bs_runtimes s) = Some runtime"
      using assms(1) by (auto simp: updateRuntime_def split: prod.splits option.splits)
    show ?thesis
      using assms(1,2)
      by (cases "api_removeRuntime api scope runtime"; cases "api_restoreRuntime api (withoutSession rt) (JArr services) JUndef")
        (auto simp: updateRuntime_def g Let_def replaceRuntime_def simp del: One_nat_def split: option.splits)
  qed
  have "s' \<noteq> s" using assms(3,4) by metis
  with replaced have s': "bs_runtimes s' = bs_runtimes (replaceRuntime i ?rt s)"
    "bs_services s' = oput (runtime_id ?rt) (JArr services) (from_entries (bs_services s))"
    by simp_all
  have gone: "i \<notin> runtime_id ` set (bs_runtimes s')"
    using assms(2) by (auto simp: s' replaceRuntime_def)
  have "set (okeys (bs_services s')) = insert (runtime_id ?rt) (set (okeys (bs_services s)))"
    by (simp only: s' set_okeys_oput from_entries_def set_okeys_ospread) simp
  then have "i \<in> set (okeys (bs_services s'))" using assms(5) by blast
  then obtain v where v: "(i, v) \<in> set (bs_services s')" by auto
  have "Inl [''BoardContext.serializeBoard runtime with id: '' @ i] = serializeServices host s' (i, v)"
    using gone by (simp add: serializeServices_def)
  with v have m: "[''BoardContext.serializeBoard runtime with id: '' @ i] \<in> set (lefts (map (serializeServices host s') (bs_services s')))"
    unfolding lefts_mem set_map by (intro image_eqI)
  then have "lefts (map (serializeServices host s') (bs_services s')) \<noteq> []" by (metis empty_iff list.set(1))
  then show ?thesis by (auto simp: serializeBoard_def Let_def intro!: bexI [OF _ m])
qed

text \<open>
  C36. An address found on one machine never leaves it with a board: what a runtime says of where it runs is
  saved as it was authored, a name as the name, whatever the name resolved to.
\<close>

theorem addressing_saved_as_authored:
  assumes "fst (resolveForRestore host rt a) = Inr restored" "distinct (okeys rt)"
  shows "oget (serializeRuntime host s restored) ''remote'' = oget rt ''remote''
    \<and> oget (serializeRuntime host s restored) ''url'' = (if oget rt ''remote'' = JUndef then oget rt ''url'' else JUndef)"
proof -
  obtain url where r: "restored = oput ''url'' (JStr url) (from_entries rt)"
    using assms(1)
    by (auto simp: resolveForRestore_def split: sum.splits AddressResolution.splits option.splits prod.splits if_splits)
  have o: "oget restored k = (if k = ''url'' then JStr url else oget rt k)" for k
    by (simp add: r oget_from_entries [OF assms(2)])
  have u: "oget (serializeRuntime host s restored) ''remote'' = oget (authoredAddressing (addressed restored)) ''remote''"
    "oget (serializeRuntime host s restored) ''url'' = oget (authoredAddressing (addressed restored)) ''url''"
    by (auto simp: serializeRuntime_def authoredAddressing_def oget_def)
  show ?thesis
  proof (cases "oget rt ''remote'' = JUndef")
    case True
    have "the_str (oget rt ''url'') = Some url"
      using assms(1) r True
      by (auto simp: resolveForRestore_def resolveRuntimeAddress_def addressingOf_once addressed_def Let_def
          split: sum.splits AddressResolution.splits option.splits prod.splits if_splits dest!: arg_cong [where f = "\<lambda>es. oget es ''url''"])
    then have "oget rt ''url'' = JStr url" by (cases "oget rt ''url''") simp_all
    then show ?thesis using True o by (simp add: u authoredAddressing_def addressed_def oget_only)
  next
    case False
    then have "\<exists>name. oget rt ''remote'' = JStr name \<and> name \<noteq> []"
      using assms(1)
      by (auto simp: resolveForRestore_def resolveRuntimeAddress_def addressingOf_once addressed_def Let_def js_trim_def
          split: sum.splits if_splits jsval.splits)
    then show ?thesis using o by (auto simp: u authoredAddressing_def addressed_def oget_only)
  qed
qed

section \<open>Instances\<close>

definition noBoard :: BoardState where
  "noBoard =
     \<lparr>bs_boardName = JUndef, bs_runtimes = [], bs_services = [], bs_registry = [], bs_scopes = [], bs_facade = JUndef,
      bs_linkage = None, bs_assets = None, bs_error = None\<rparr>"

definition pagesOpened :: BoardState where
  "pagesOpened = fst (snd (setBoardState pagesHost (Inr (pagesBoard, None)) noBoard))"

lemma pages_scopes: "scopes_given pagesHost"
  by (simp add: scopes_given_def pagesHost_def pagesApi_def)

theorem board_always_saved_witness:
  "case serializeBoard pagesHost pagesOpened of
     Inl es \<Rightarrow> False
   | Inr document \<Rightarrow> set (okeys (js_obj (oget document ''services''))) = {''a'', ''b''}"
proof -
  have "board_step pagesHost False noBoard pagesOpened"
    unfolding pagesOpened_def by (rule step_set [OF surjective_pairing [THEN trans, OF arg_cong [where f = "Pair _", OF surjective_pairing]]])
  then have r: "(board_step pagesHost False)\<^sup>*\<^sup>* noBoard pagesOpened" by (rule r_into_rtranclp)
  have "bs_services noBoard = []" by (simp add: noBoard_def)
  note saved = board_always_saved [OF r this pages_scopes]
  have "\<not> isl (serializeBoard pagesHost pagesOpened)" by code_simp
  moreover have "okeys (bs_services pagesOpened) = [''a'', ''b'']" by code_simp
  ultimately show ?thesis using saved by (auto split: sum.splits simp del: set_map)
qed

theorem updateRuntime_new_id_unsaved_witness:
  "\<exists>es. serializeBoard pagesHost (fst (snd (updateRuntime pagesHost ''a'' (pagesRuntime ''c'') [] pagesOpened))) = Inl es
     \<and> ''BoardContext.serializeBoard runtime with id: a'' \<in> set es"
proof -
  let ?u = "updateRuntime pagesHost ''a'' (pagesRuntime ''c'') [] pagesOpened"
  have "snd (snd ?u) = Inr ()" by code_simp
  then have u: "?u = (fst ?u, fst (snd ?u), Inr ())" by (simp add: prod_eq_iff)
  have n: "runtime_id (withoutSession (pagesRuntime ''c'')) \<noteq> ''a''"
    "runtime_id (withoutSession (pagesRuntime ''c'')) \<notin> runtime_id ` set (bs_runtimes pagesOpened)"
    "runtime_id (withoutSession (pagesRuntime ''c'')) \<in> runtime_id ` set (bs_runtimes (fst (snd ?u)))"
    "''a'' \<in> set (okeys (bs_services pagesOpened))"
    by code_simp+
  from updateRuntime_new_id_unsaved [OF u n] show ?thesis by simp
qed

theorem addressing_saved_as_authored_witness:
  "\<exists>restored. fst (resolveForRestore pagesHost (pagesRuntime ''a'') \<lparr>asking = [], questions = []\<rparr>) = Inr restored \<and> oget restored ''url'' = JStr ''http://n''
    \<and> oget (serializeRuntime pagesHost pagesOpened restored) ''url'' = JUndef
    \<and> oget (serializeRuntime pagesHost pagesOpened restored) ''remote'' = JStr ''node''"
proof -
  let ?r = "oput ''url'' (JStr ''http://n'') (pagesRuntime ''a'')"
  have r: "fst (resolveForRestore pagesHost (pagesRuntime ''a'') \<lparr>asking = [], questions = []\<rparr>) = Inr ?r" by code_simp
  have "distinct (okeys (pagesRuntime ''a''))" by code_simp
  note a = addressing_saved_as_authored [OF r this, where s = pagesOpened]
  have "oget (pagesRuntime ''a'') ''remote'' = JStr ''node''" by code_simp
  with a r show ?thesis by (intro exI [of _ ?r]) simp
qed

section \<open>The pool is keyed by name\<close>

text \<open>
  Editing a kept server keeps the pool keyed by name: no name twice, the edited entry where the one it
  replaces was, or at the end, and every other entry as it was unless its name was taken over.
\<close>

theorem updateAvailableRuntime_keyed:
  assumes "distinct (map (\<lambda>rt. oget rt ''name'') current)"
  shows "distinct (map (\<lambda>rt. oget rt ''name'') (updateAvailableRuntime previous new current))
    \<and> filter (\<lambda>rt. oget rt ''name'' \<noteq> oget new ''name'') (updateAvailableRuntime previous new current)
        = filter (\<lambda>rt. oget rt ''name'' \<noteq> oget new ''name'' \<and> oget rt ''name'' \<noteq> oget previous ''name'') current
    \<and> filter (\<lambda>rt. oget rt ''name'' = oget new ''name'') (updateAvailableRuntime previous new current) = [poolEntry new]"
proof -
  let ?N = "oget new ''name''" and ?P = "oget previous ''name''"
  define kept where "kept rts = concat (map (\<lambda>rt. if oget rt ''name'' = ?P then [poolEntry new]
      else if oget rt ''name'' = ?N then [] else [rt]) rts)" for rts
  have n [simp]: "oget (poolEntry new) ''name'' = ?N" by (simp add: poolEntry_def Let_def oget_def)
  have u: "updateAvailableRuntime previous new current =
      kept current @ (if \<exists>rt \<in> set current. oget rt ''name'' = ?P then [] else [poolEntry new])"
  proof -
    have "map (case_sum (\<lambda>r. r) (\<lambda>e. e)) (filter (case_sum (\<lambda>r. oget r ''name'' \<noteq> ?N) (\<lambda>e. True))
        (map (\<lambda>rt. if oget rt ''name'' = ?P then Inr (poolEntry new) else Inl rt) rts)) = kept rts" for rts
      by (induction rts) (auto simp: kept_def)
    moreover have "kept rts = filter (\<lambda>rt. oget rt ''name'' \<noteq> ?N) rts" if "\<forall>rt \<in> set rts. oget rt ''name'' \<noteq> ?P" for rts
      using that by (induction rts) (auto simp: kept_def)
    moreover have "map (case_sum (\<lambda>r. r) (\<lambda>e. e)) (filter (case_sum (\<lambda>r. oget r ''name'' \<noteq> ?N) (\<lambda>e. True)) (map Inl rts))
        = filter (\<lambda>rt. oget rt ''name'' \<noteq> ?N) rts" for rts
      by (induction rts) auto
    ultimately show ?thesis by (auto simp: updateAvailableRuntime_def Let_def)
  qed
  have k: "filter (\<lambda>rt. oget rt ''name'' \<noteq> ?N) (kept rts) = filter (\<lambda>rt. oget rt ''name'' \<noteq> ?N \<and> oget rt ''name'' \<noteq> ?P) rts" for rts
    by (induction rts) (auto simp: kept_def)
  have e: "filter (\<lambda>rt. oget rt ''name'' = ?N) (kept rts) = (if \<exists>rt \<in> set rts. oget rt ''name'' = ?P then [poolEntry new] else [])"
    if "distinct (map (\<lambda>rt. oget rt ''name'') rts)" for rts
    using that by (induction rts) (auto simp: kept_def image_iff)
  have m: "oget rt ''name'' \<in> insert ?N ((\<lambda>rt. oget rt ''name'') ` set rts)" if "rt \<in> set (kept rts)" for rt rts
    using that by (auto simp: kept_def split: if_splits)
  have d: "distinct (map (\<lambda>rt. oget rt ''name'') (kept rts))" if "distinct (map (\<lambda>rt. oget rt ''name'') rts)" for rts
    using that
  proof (induction rts)
    case (Cons rt rts)
    have "?N \<notin> (\<lambda>rt. oget rt ''name'') ` set (kept rts)" if "oget rt ''name'' = ?P"
    proof -
      have "\<not> (\<exists>r \<in> set rts. oget r ''name'' = ?P)" using Cons.prems that by (auto simp: image_iff)
      then have "filter (\<lambda>rt. oget rt ''name'' = ?N) (kept rts) = []" using e [of rts] Cons.prems by simp
      then show ?thesis by (auto simp: filter_empty_conv)
    qed
    moreover have "oget rt ''name'' \<notin> (\<lambda>rt. oget rt ''name'') ` set (kept rts)" if "oget rt ''name'' \<noteq> ?N"
      using Cons.prems m [of _ rts] that by fastforce
    ultimately show ?case using Cons by (auto simp: kept_def)
  qed (simp add: kept_def)
  have "?N \<notin> (\<lambda>rt. oget rt ''name'') ` set (kept current)" if "\<not> (\<exists>rt \<in> set current. oget rt ''name'' = ?P)"
    using e [OF assms] that by (auto simp: filter_empty_conv)
  then show ?thesis using d [OF assms] k [of current] e [OF assms] by (auto simp: u)
qed

theorem updateAvailableRuntime_keyed_witness:
  "map (\<lambda>rt. oget rt ''name'') (updateAvailableRuntime [(''name'', JStr ''a'')] [(''name'', JStr ''c'')]
      [[(''name'', JStr ''a'')], [(''name'', JStr ''b'')], [(''name'', JStr ''c'')]]) = [JStr ''c'', JStr ''b'']
   \<and> distinct (map (\<lambda>rt. oget rt ''name'') (updateAvailableRuntime [(''name'', JStr ''a'')] [(''name'', JStr ''c'')]
      [[(''name'', JStr ''a'')], [(''name'', JStr ''b'')], [(''name'', JStr ''c'')]]))"
proof -
  have "distinct (map (\<lambda>rt. oget rt ''name'') [[(''name'', JStr ''a'')], [(''name'', JStr ''b'')], [(''name'', JStr ''c'')]])"
    by code_simp
  from updateAvailableRuntime_keyed [OF this] show ?thesis by (intro conjI) (code_simp, blast)
qed

end
