(* ===== verification/BoardSnapshots.thy ===== *)
theory BoardSnapshots
  imports JsJson
begin

text \<open>
  When a board is kept as it runs (\<^verbatim>\<open>hkp-frontend/src/core/boardSnapshots.ts\<close>).  The scheduler's closure
  variables are a record; \<^verbatim>\<open>writes\<close>, a chain of promises, is the list of the writes not finished yet,
  in their order; a timer is the time it is due.  What \<^verbatim>\<open>serialize\<close> answers a write is
  an argument of the step that finishes it: nothing, a failure, or the board in its documents.
\<close>

section \<open>The scheduler\<close>

datatype BoardSnapshotReason = Structure | Configuration

fun reason_text :: "BoardSnapshotReason \<Rightarrow> string" where
  "reason_text Structure = ''structure''"
| "reason_text Configuration = ''configuration''"

record SnapshotScheduler =
  pending :: "BoardSnapshotReason option"
  pendingConfiguration :: bool
  rebasing :: bool
  firstPendingAt :: "int option"
  timer :: "int option"
  writes :: "(BoardSnapshotReason \<times> bool) list"
  lastWritten :: "string option"
  written :: "obj list"

definition createSnapshotScheduler :: "SnapshotScheduler" where
  "createSnapshotScheduler =
     \<lparr>pending = None, pendingConfiguration = False, rebasing = False, firstPendingAt = None, timer = None,
      writes = [], lastWritten = None, written = []\<rparr>"

definition clearTimer :: "SnapshotScheduler \<Rightarrow> SnapshotScheduler" where
  "clearTimer s = s\<lparr>timer := None\<rparr>"

definition flush :: "SnapshotScheduler \<Rightarrow> SnapshotScheduler" where
  "flush s =
     (case pending s of
        None \<Rightarrow> clearTimer s
      | Some reason \<Rightarrow>
          (clearTimer s)\<lparr>pending := None, pendingConfiguration := False, rebasing := False, firstPendingAt := None,
            writes := writes s @ [(reason, rebasing s \<and> \<not> pendingConfiguration s)]\<rparr>)"

definition schedule :: "int \<Rightarrow> BoardSnapshotReason \<Rightarrow> int \<Rightarrow> int \<Rightarrow> SnapshotScheduler \<Rightarrow> SnapshotScheduler" where
  "schedule maxWaitMs reason delayMs at s =
     (let first = (case firstPendingAt s of Some t \<Rightarrow> t | None \<Rightarrow> at);
          remaining = max 0 (first + maxWaitMs - at)
      in (clearTimer s)\<lparr>pending := Some (if pending s = Some Structure then Structure else reason),
           pendingConfiguration := pendingConfiguration s \<or> reason = Configuration,
           firstPendingAt := Some first,
           timer := Some (at + max 0 (min delayMs remaining))\<rparr>)"

definition cancel :: "SnapshotScheduler \<Rightarrow> SnapshotScheduler" where
  "cancel s =
     (clearTimer s)\<lparr>pending := None, pendingConfiguration := False, rebasing := False, firstPendingAt := None\<rparr>"

definition rebase :: "SnapshotScheduler \<Rightarrow> SnapshotScheduler" where
  "rebase s = s\<lparr>rebasing := True\<rparr>"

text \<open>\<^verbatim>\<open>writeSnapshot\<close> of the write at the head of the chain, once \<^verbatim>\<open>serialize\<close> has answered.\<close>

definition writeSnapshot :: "string + obj option \<Rightarrow> SnapshotScheduler \<Rightarrow> SnapshotScheduler" where
  "writeSnapshot answered s =
     (case writes s of
        [] \<Rightarrow> s
      | (reason, baselineOnly) # rest \<Rightarrow>
          (let s' = s\<lparr>writes := rest\<rparr>
           in case answered of
                Inr (Some serialized) \<Rightarrow>
                  (let key = json_text (JObj serialized)
                   in if Some key = lastWritten s then s'
                      else s'\<lparr>lastWritten := Some key,
                             written := (if baselineOnly then written s
                               else written s @ [oput ''reason'' (JStr (reason_text reason)) (from_entries serialized)])\<rparr>)
              | _ \<Rightarrow> s'))"

section \<open>The scheduler in time\<close>

text \<open>
  The scheduler under a clock: what is called, in any order, and a timer that fires when it is due.
  The middle component is what a person has waited for: the times of the requests no write was
  started for.
\<close>

inductive scheduling ::
  "int \<Rightarrow> int \<times> int list \<times> SnapshotScheduler \<Rightarrow> int \<times> int list \<times> SnapshotScheduler \<Rightarrow> bool" for maxWaitMs where
  requested: "scheduling maxWaitMs (clock, waiting, s) (clock, waiting @ [clock], schedule maxWaitMs reason delayMs clock s)"
| expired: "timer s = Some clock \<Longrightarrow> scheduling maxWaitMs (clock, waiting, s) (clock, [], flush s)"
| flushed: "scheduling maxWaitMs (clock, waiting, s) (clock, [], flush s)"
| cancelled: "scheduling maxWaitMs (clock, waiting, s) (clock, [], cancel s)"
| rebased: "scheduling maxWaitMs (clock, waiting, s) (clock, waiting, rebase s)"
| finished: "scheduling maxWaitMs (clock, waiting, s) (clock, waiting, writeSnapshot answered s)"
| ticked: "clock \<le> later \<Longrightarrow> timer s = None \<or> later \<le> the (timer s) \<Longrightarrow>
    scheduling maxWaitMs (clock, waiting, s) (later, waiting, s)"

definition on_time :: "int \<Rightarrow> int \<times> int list \<times> SnapshotScheduler \<Rightarrow> bool" where
  "on_time maxWaitMs w =
     (case w of
        (clock, waiting, s) \<Rightarrow>
          (case (pending s, firstPendingAt s, timer s) of
             (None, None, None) \<Rightarrow> waiting = []
           | (Some _, Some first, Some due) \<Rightarrow>
               waiting \<noteq> [] \<and> list_all (\<lambda>asked. first \<le> asked) waiting \<and> first \<le> clock \<and> clock \<le> due \<and> due \<le> first + maxWaitMs
           | _ \<Rightarrow> False))"

lemmas scheduler_defs = schedule_def flush_def cancel_def rebase_def clearTimer_def writeSnapshot_def

lemma on_time_step:
  assumes "scheduling maxWaitMs w w'" "on_time maxWaitMs w" "0 \<le> maxWaitMs"
  shows "on_time maxWaitMs w'"
  using assms
proof (induction rule: scheduling.induct)
  case (requested clock waiting s reason delayMs)
  then show ?case
    by (auto simp: on_time_def scheduler_defs Let_def list_all_iff split: option.splits)
next
  case (finished clock waiting s answered)
  then show ?case
    by (auto simp: on_time_def scheduler_defs Let_def split: option.splits list.splits sum.splits)
qed (auto simp: on_time_def scheduler_defs split: option.splits)

section \<open>Facts\<close>

lemma not_structure: "reason = Configuration \<longleftrightarrow> reason \<noteq> Structure"
  by (cases reason) simp_all

lemma requests_pending:
  assumes "s' = fold (\<lambda>(reason, delayMs, at). schedule maxWaitMs reason delayMs at) requests s"
  shows "writes s' = writes s \<and> written s' = written s \<and> lastWritten s' = lastWritten s \<and> rebasing s' = rebasing s
    \<and> pendingConfiguration s' = (pendingConfiguration s \<or> (\<exists>q \<in> set requests. fst q = Configuration))
    \<and> pending s' = (if requests = [] then pending s
        else if pending s = Some Structure \<or> (\<exists>q \<in> set requests. fst q = Structure) then Some Structure else Some Configuration)"
  unfolding assms
proof (induction requests arbitrary: s)
  case (Cons q requests)
  obtain reason delayMs at where q: "q = (reason, delayMs, at)" by (cases q)
  show ?case
    using Cons [of "schedule maxWaitMs reason delayMs at s"]
    by (cases reason) (auto simp: q schedule_def clearTimer_def Let_def)
qed simp

section \<open>Properties\<close>

text \<open>
  C37. A change waits no longer than it may, whatever else is asked meanwhile: whenever a request has no
  write started for it there is a timer, due before the longest wait of the oldest such request is
  over, and until then no request has waited longer.
\<close>

theorem snapshot_waits_bounded:
  assumes "(scheduling maxWaitMs)\<^sup>*\<^sup>* (start, [], createSnapshotScheduler) (clock, waiting, s)" "0 \<le> maxWaitMs"
  shows "(waiting \<noteq> [] \<longleftrightarrow> pending s \<noteq> None) \<and> (\<forall>asked \<in> set waiting. \<exists>due. timer s = Some due \<and> clock \<le> due \<and> due \<le> asked + maxWaitMs)"
proof -
  have "on_time maxWaitMs (start, [], createSnapshotScheduler)"
    by (simp add: on_time_def createSnapshotScheduler_def)
  with assms(1) have "on_time maxWaitMs (clock, waiting, s)"
    by (induction rule: rtranclp_induct) (auto intro: on_time_step assms(2))
  then show ?thesis by (fastforce simp: on_time_def list_all_iff split: option.splits)
qed

text \<open>
  What the snapshot of a pause is: one write for all that was requested in it, called structural
  where any request was.  Right after the board was loaded it is only remembered, unless a person
  changed something: opening a board is not an edit.  A board that is as it was last is not written.
\<close>

theorem snapshot_of_requests:
  assumes "requests \<noteq> []" "pending s = None" "\<not> pendingConfiguration s" "writes s = []"
  shows "written (writeSnapshot (Inr (Some board)) (flush (fold (\<lambda>(reason, delayMs, at). schedule maxWaitMs reason delayMs at) requests s)))
    = written s @
        (if lastWritten s = Some (json_text (JObj board))
            \<or> rebasing s \<and> (\<forall>(reason, delayMs, at) \<in> set requests. reason = Structure)
         then []
         else [oput ''reason''
                 (JStr (if \<exists>(reason, delayMs, at) \<in> set requests. reason = Structure then ''structure'' else ''configuration''))
                 (from_entries board)])"
proof -
  define s' where "s' = fold (\<lambda>(reason, delayMs, at). schedule maxWaitMs reason delayMs at) requests s"
  note r = requests_pending [OF s'_def]
  have c: "(\<exists>q \<in> set requests. fst q = Configuration) \<longleftrightarrow> \<not> (\<forall>(reason, delayMs, at) \<in> set requests. reason = Structure)"
    by (simp add: not_structure case_prod_unfold)
  have t: "(\<exists>q \<in> set requests. fst q = Structure) \<longleftrightarrow> (\<exists>(reason, delayMs, at) \<in> set requests. reason = Structure)"
    by (simp add: case_prod_unfold)
  define structural where "structural \<longleftrightarrow> (\<exists>(reason, delayMs, at) \<in> set requests. reason = Structure)"
  define only where "only \<longleftrightarrow> (\<forall>(reason, delayMs, at) \<in> set requests. reason = Structure)"
  have f: "writes s' = []" "written s' = written s" "lastWritten s' = lastWritten s" "rebasing s' = rebasing s"
    using r assms(4) by simp_all
  have "pendingConfiguration s' = (pendingConfiguration s \<or> (\<exists>q \<in> set requests. fst q = Configuration))"
    using r by blast
  then have p: "pendingConfiguration s' = (\<not> only)" unfolding c only_def [symmetric] using assms(3) by blast
  have "pending s' = (if requests = [] then pending s
      else if pending s = Some Structure \<or> (\<exists>q \<in> set requests. fst q = Structure) then Some Structure else Some Configuration)"
    using r by blast
  then have q: "pending s' = Some (if structural then Structure else Configuration)"
    unfolding t structural_def [symmetric] using assms(1,2) by simp
  show ?thesis
    unfolding s'_def [symmetric] structural_def [symmetric] only_def [symmetric]
    by (simp add: flush_def clearTimer_def writeSnapshot_def Let_def f p q del: json_text.simps)
qed

theorem snapshot_waits_bounded_witness:
  "\<exists>due. timer (schedule 2000 Configuration 500 0 createSnapshotScheduler) = Some due \<and> 300 \<le> due \<and> due \<le> 0 + 2000"
proof -
  let ?s = "schedule 2000 Configuration 500 0 createSnapshotScheduler"
  have "scheduling 2000 (0, [], createSnapshotScheduler) (0, [] @ [0], ?s)" by (rule requested)
  moreover have "scheduling 2000 (0, [] @ [0], ?s) (300, [] @ [0], ?s)"
    by (rule ticked) (simp_all add: schedule_def createSnapshotScheduler_def)
  ultimately have "(scheduling 2000)\<^sup>*\<^sup>* (0, [], createSnapshotScheduler) (300, [] @ [0], ?s)" by simp
  from snapshot_waits_bounded [OF this] show ?thesis by simp
qed

theorem snapshot_of_requests_witness:
  "let s = rebase createSnapshotScheduler;
       snapshot = (\<lambda>requests board s. writeSnapshot (Inr (Some board))
         (flush (fold (\<lambda>(reason, delayMs, at). schedule 2000 reason delayMs at) requests s)));
       opened = snapshot [(Structure, 500, 0), (Structure, 500, 10)] [(''boardName'', JStr ''a'')] s
   in written opened = []
    \<and> written (snapshot [(Structure, 500, 900), (Configuration, 500, 990)] [(''boardName'', JStr ''b'')] opened)
        = [[(''boardName'', JStr ''b''), (''reason'', JStr ''structure'')]]"
proof -
  have *: "[(Structure, 500 :: int, 0 :: int), (Structure, 500, 10)] \<noteq> []" "[(Structure, 500 :: int, 900 :: int), (Configuration, 500, 990)] \<noteq> []"
    by simp_all
  have first: "pending (rebase createSnapshotScheduler) = None" "\<not> pendingConfiguration (rebase createSnapshotScheduler)"
    "writes (rebase createSnapshotScheduler) = []"
    by (simp_all add: rebase_def createSnapshotScheduler_def)
  define opened where "opened = writeSnapshot (Inr (Some [(''boardName'', JStr ''a'')]))
    (flush (fold (\<lambda>(reason, delayMs, at). schedule 2000 reason delayMs at) [(Structure, 500, 0), (Structure, 500, 10)]
      (rebase createSnapshotScheduler)))"
  have o: "pending opened = None" "\<not> pendingConfiguration opened" "writes opened = []" "rebasing opened = False"
    "lastWritten opened \<noteq> Some (json_text (JObj [(''boardName'', JStr ''b'')]))"
    unfolding opened_def by code_simp+
  have w: "written opened = []"
    unfolding opened_def snapshot_of_requests [OF *(1) first]
    by (simp add: rebase_def createSnapshotScheduler_def)
  have "written (writeSnapshot (Inr (Some [(''boardName'', JStr ''b'')]))
      (flush (fold (\<lambda>(reason, delayMs, at). schedule 2000 reason delayMs at) [(Structure, 500, 900), (Configuration, 500, 990)] opened)))
      = [[(''boardName'', JStr ''b''), (''reason'', JStr ''structure'')]]"
    unfolding snapshot_of_requests [OF *(2) o(1-3)] using o(4,5) by (simp add: w from_entries_def ospread_def key_before_def index_key_def is_digit_def)
  with w show ?thesis by (simp add: Let_def opened_def)
qed

end
