(* ===== verification/BrowserApi.thy ===== *)
theory BrowserApi
  imports JsJson
begin

text \<open>
  The services of a browser runtime: how they are made, found, configured and restored from a board
  (\<^verbatim>\<open>hkp-frontend/src/runtime/browser/BrowserRuntimeApi.ts\<close>, \<^verbatim>\<open>BrowserRegistry.tsx\<close>).  The classes of the
  services are parameters: a module of the registry says what a new instance holds and what its
  \<^verbatim>\<open>configure\<close> makes of a configuration, and whether it throws.  What a scope does with the services it
  has is \<^verbatim>\<open>RuntimeScope\<close>; here a scope is the list of its instances.
\<close>

section \<open>The registry\<close>

text \<open>
  \<open>creates\<close> is \<^const>\<open>None\<close> for a module without \<^verbatim>\<open>create\<close>, and \<open>Some None\<close> where \<^verbatim>\<open>create\<close> answers nothing.
  \<open>configures\<close> is \<^const>\<open>None\<close> for a class without \<^verbatim>\<open>configure\<close>; else it yields the state after the call and
  whether the call threw.
\<close>

record ServiceModule =
  moduleId :: jsval
  moduleName :: jsval
  creates :: "obj option option"
  configures :: "(jsval \<Rightarrow> obj \<Rightarrow> obj \<times> bool) option"

definition findServiceModule :: "ServiceModule list \<Rightarrow> jsval \<Rightarrow> ServiceModule option" where
  "findServiceModule registry serviceId = find (\<lambda>elem. prim_eq (moduleId elem) serviceId) registry"

definition getServiceClasses :: "ServiceModule list \<Rightarrow> obj list" where
  "getServiceClasses registry = map (\<lambda>m. [(''serviceId'', moduleId m), (''serviceName'', moduleName m)]) registry"

section \<open>Instances\<close>

record LiveService =
  liveUuid :: jsval
  liveId :: jsval
  liveName :: jsval
  liveBypass :: jsval
  liveState :: obj
  liveModule :: ServiceModule

text \<open>\<^verbatim>\<open>a || b\<close>.\<close>

definition js_or :: "jsval \<Rightarrow> jsval \<Rightarrow> jsval" where
  "js_or a b = (if truthy a then a else b)"

text \<open>Making an instance: an error, nothing, or the instance.  \<open>fresh\<close> is the id \<^verbatim>\<open>uuidv4()\<close> would yield.\<close>

definition createService :: "ServiceModule list \<Rightarrow> string \<Rightarrow> obj \<Rightarrow> jsval \<Rightarrow> string + LiveService option" where
  "createService registry fresh service instanceId =
     (case findServiceModule registry (oget service ''serviceId'') of
        None \<Rightarrow> Inr None
      | Some m \<Rightarrow>
          (case creates m of
             None \<Rightarrow> Inl (''Service module '' @ to_str (moduleId m) @ '' does not have a create function. Browser runtime requires services to implement create.'')
           | Some None \<Rightarrow> Inr None
           | Some (Some state) \<Rightarrow>
               Inr (Some \<lparr>liveUuid = js_or instanceId (JStr fresh), liveId = moduleId m,
                 liveName = js_or (oget service ''serviceName'') (moduleName m), liveBypass = JBool False,
                 liveState = state, liveModule = m\<rparr>)))"

text \<open>
  The \<^verbatim>\<open>configure\<close> of an instance, as \<^verbatim>\<open>createService\<close> has replaced it: the bypass is taken out, and a
  configuration that has a \<^verbatim>\<open>state\<close> stands for that state.
\<close>

definition configureLive :: "jsval \<Rightarrow> LiveService \<Rightarrow> LiveService \<times> bool" where
  "configureLive config svc =
     (let bypass = field config ''bypass'';
          svc = (if bypass \<noteq> JUndef then svc\<lparr>liveBypass := bypass\<rparr> else svc)
      in case configures (liveModule svc) of
           None \<Rightarrow> (svc, False)
         | Some takes \<Rightarrow>
             if nullish config then (svc, True)
             else
               let (state, threw) =
                     takes (if truthy (field config ''state'') then field config ''state'' else js_or config (JObj [])) (liveState svc)
               in (svc\<lparr>liveState := state\<rparr>, threw))"

text \<open>\<^verbatim>\<open>scope.findServiceInstance(uuid)\<close>, its place.\<close>

definition findLive :: "jsval \<Rightarrow> LiveService list \<Rightarrow> nat option" where
  "findLive u scope = find_index (\<lambda>svc. prim_eq (liveUuid svc) u) scope"

text \<open>\<^verbatim>\<open>addService\<close>: the scope, and the descriptor, of which the callers read the id.\<close>

definition addService :: "ServiceModule list \<Rightarrow> string \<Rightarrow> obj \<Rightarrow> jsval \<Rightarrow> LiveService list \<Rightarrow> LiveService list \<times> (string + jsval option)" where
  "addService registry fresh service instanceId scope =
     (case createService registry fresh service instanceId of
        Inl e \<Rightarrow> (scope, Inl e)
      | Inr None \<Rightarrow> (scope, Inr None)
      | Inr (Some svc) \<Rightarrow> (scope @ [svc], Inr (Some (liveUuid svc))))"

text \<open>The whole configuration, or the state in it; nothing where the service is not found.\<close>

definition actualConfig :: "jsval \<Rightarrow> jsval" where
  "actualConfig config = (if field config ''state'' \<noteq> JUndef then field config ''state'' else config)"

definition configureService :: "jsval \<Rightarrow> jsval \<Rightarrow> LiveService list \<Rightarrow> LiveService list \<times> bool" where
  "configureService u config scope =
     (case findLive u scope of
        None \<Rightarrow> (scope, False)
      | Some i \<Rightarrow>
          let (svc, threw) = configureLive (actualConfig config) (scope ! i) in (scope[i := svc], threw))"

section \<open>Restoring a runtime\<close>

text \<open>
  \<^verbatim>\<open>restoreRuntime\<close>: every service is added, those that could not be made are left out, and the rest are
  configured with the documents, each by its place in the list.  \<open>fresh\<close> numbers the ids that may be
  needed.  A call that throws rejects once all of them were made.
\<close>

fun addAll :: "ServiceModule list \<Rightarrow> (nat \<Rightarrow> string) \<Rightarrow> obj list \<Rightarrow> LiveService list \<Rightarrow> LiveService list \<times> (string + jsval option) list" where
  "addAll registry fresh [] scope = (scope, [])"
| "addAll registry fresh (svc # services) scope =
     (let (scope1, made) = addService registry (fresh 0) svc (oget svc ''uuid'') scope;
          (scope2, rest) = addAll registry (\<lambda>i. fresh (Suc i)) services scope1
      in (scope2, made # rest))"

fun configureAll :: "(jsval \<times> jsval) list \<Rightarrow> LiveService list \<Rightarrow> LiveService list \<times> bool" where
  "configureAll [] scope = (scope, False)"
| "configureAll ((u, config) # rest) scope =
     (let (scope1, threw) = configureService u config scope;
          (scope2, later) = configureAll rest scope1
      in (scope2, threw \<or> later))"

definition made_of :: "(string + jsval option) list \<Rightarrow> jsval list" where
  "made_of made = concat (map (\<lambda>m. case m of Inr (Some u) \<Rightarrow> [u] | _ \<Rightarrow> []) made)"

definition restoreRuntime ::
  "ServiceModule list \<Rightarrow> (nat \<Rightarrow> string) \<Rightarrow> obj \<Rightarrow> obj list \<Rightarrow> jsval \<Rightarrow> string + obj \<times> obj list \<times> LiveService list" where
  "restoreRuntime registry fresh runtime services boardName =
     (let (scope, made) = addAll registry fresh services []
      in case first_some (\<lambda>m. case m of Inl e \<Rightarrow> Some e | Inr _ \<Rightarrow> None) made of
           Some e \<Rightarrow> Inl e
         | None \<Rightarrow>
             let (scope', threw) = configureAll (zip (made_of made) (map JObj services)) scope
             in if threw then Inl ''configure'' else Inr (oput ''boardName'' boardName runtime, services, scope'))"

section \<open>Which configuration a restored service gets\<close>

text \<open>The instance a document's service is made as, before it is configured.\<close>

definition instanceFor :: "ServiceModule list \<Rightarrow> obj \<Rightarrow> LiveService option" where
  "instanceFor registry service =
     (case createService registry '''' service (oget service ''uuid'') of Inr made \<Rightarrow> made | Inl _ \<Rightarrow> None)"

definition namedService :: "obj \<Rightarrow> bool" where
  "namedService service = (case oget service ''uuid'' of JStr u \<Rightarrow> u \<noteq> [] | _ \<Rightarrow> False)"

lemma createService_named: "namedService service \<Longrightarrow> createService registry fresh service (oget service ''uuid'') = createService registry '''' service (oget service ''uuid'')"
  by (auto simp: namedService_def createService_def js_or_def split: jsval.splits option.splits)

lemma instanceFor_uuid: "instanceFor registry service = Some svc \<Longrightarrow> namedService service \<Longrightarrow> liveUuid svc = oget service ''uuid''"
  by (auto simp: instanceFor_def createService_def js_or_def namedService_def split: option.splits jsval.splits sum.splits if_splits)

lemma named_uuid: "namedService service \<Longrightarrow> \<exists>u. oget service ''uuid'' = JStr u"
  by (auto simp: namedService_def split: jsval.splits)

abbreviation live_uuids :: "LiveService list \<Rightarrow> jsval list" where
  "live_uuids scope \<equiv> map liveUuid scope"

lemma configureLive_uuid [simp]: "liveUuid (fst (configureLive config svc)) = liveUuid svc"
  by (simp add: configureLive_def Let_def split: option.splits prod.splits)

lemma addAll_instances:
  assumes "\<forall>service\<in>set services. namedService service"
    and "first_some (\<lambda>m. case m of Inl e \<Rightarrow> Some e | Inr _ \<Rightarrow> None) (snd (addAll registry fresh services scope)) = None"
  shows "fst (addAll registry fresh services scope) = scope @ List.map_filter (instanceFor registry) services
       \<and> made_of (snd (addAll registry fresh services scope)) = live_uuids (List.map_filter (instanceFor registry) services)"
  using assms
proof (induction services arbitrary: scope fresh)
  case Nil
  then show ?case by (simp add: made_of_def map_filter_simps)
next
  case (Cons service services)
  have namedService: "namedService service" using Cons.prems by simp
  obtain scope1 made where add: "addService registry (fresh 0) service (oget service ''uuid'') scope = (scope1, made)"
    by fastforce
  obtain scope2 rest where rest: "addAll registry (\<lambda>i. fresh (Suc i)) services scope1 = (scope2, rest)"
    by fastforce
  have all: "addAll registry fresh (service # services) scope = (scope2, made # rest)"
    by (simp add: add rest)
  have ok: "\<not> isl made" "first_some (\<lambda>m. case m of Inl e \<Rightarrow> Some e | Inr _ \<Rightarrow> None) rest = None"
    using Cons.prems(2) unfolding all by (auto split: sum.splits option.splits)
  have IH: "scope2 = scope1 @ List.map_filter (instanceFor registry) services
      \<and> made_of rest = live_uuids (List.map_filter (instanceFor registry) services)"
    using Cons.IH [where fresh = "\<lambda>i. fresh (Suc i)" and scope = scope1] Cons.prems(1) ok(2) by (simp add: rest)
  have made: "case instanceFor registry service of
      None \<Rightarrow> scope1 = scope \<and> made = Inr None
    | Some svc \<Rightarrow> scope1 = scope @ [svc] \<and> made = Inr (Some (liveUuid svc))"
    using add ok(1) createService_named [OF namedService, of registry "fresh 0"]
    by (auto simp: addService_def instanceFor_def split: sum.splits option.splits)
  show ?case
    using IH made unfolding all by (cases "instanceFor registry service") (simp_all add: made_of_def map_filter_simps)
qed

lemma findLive_at:
  assumes "distinct (live_uuids scope)" "\<forall>svc\<in>set scope. \<exists>u. liveUuid svc = JStr u" "i < length scope"
  shows "findLive (liveUuid (scope ! i)) scope = Some i"
proof -
  have eq: "prim_eq (liveUuid svc) (liveUuid (scope ! i)) \<longleftrightarrow> liveUuid svc = liveUuid (scope ! i)" if "svc \<in> set scope" for svc
    using assms(2,3) that by (metis nth_mem prim_eq.simps(5) jsval.inject(3))
  show ?thesis
    using assms(1,3) eq unfolding findLive_def
  proof (induction scope arbitrary: i)
    case (Cons svc scope)
    show ?case
    proof (cases i)
      case 0
      then show ?thesis using Cons.prems(3) [of svc] by simp
    next
      case (Suc j)
      have "\<not> prim_eq (liveUuid svc) (liveUuid (scope ! j))"
        using Cons.prems Suc by (metis Suc_less_eq distinct.simps(2) length_Cons list.set_intros(1) list.simps(9) nth_Cons_Suc nth_mem
            image_eqI set_map)
      moreover have "find_index (\<lambda>s. prim_eq (liveUuid s) (liveUuid (scope ! j))) scope = Some j"
        using Cons.IH [of j] Cons.prems Suc by simp
      ultimately show ?thesis using Suc by simp
    qed
  qed simp
qed

text \<open>Configurations go to the services by position, from place \<open>k\<close> on.\<close>

lemma configureAll_places:
  assumes "distinct (live_uuids scope)" "\<forall>svc\<in>set scope. \<exists>u. liveUuid svc = JStr u" "k + length configs = length scope"
  shows "fst (configureAll (zip (drop k (live_uuids scope)) configs) scope)
    = take k scope @ map2 (\<lambda>svc config. fst (configureLive (actualConfig config) svc)) (drop k scope) configs"
  using assms
proof (induction configs arbitrary: k scope)
  case Nil
  then show ?case by simp
next
  case (Cons config configs)
  let ?svc = "fst (configureLive (actualConfig config) (scope ! k))"
  let ?scope = "scope[k := ?svc]"
  have k: "k < length scope" using Cons.prems(3) by simp
  have found: "findLive (liveUuid (scope ! k)) scope = Some k"
    by (rule findLive_at [OF Cons.prems(1,2) k])
  have uuids: "live_uuids ?scope = live_uuids scope"
    using k by (simp add: map_update list_update_same_conv)
  have zip: "zip (drop k (live_uuids scope)) (config # configs)
      = (liveUuid (scope ! k), config) # zip (drop (Suc k) (live_uuids ?scope)) configs"
    using k uuids by (simp flip: Cons_nth_drop_Suc)
  have strings: "\<forall>svc\<in>set ?scope. \<exists>u. liveUuid svc = JStr u"
    using Cons.prems(2) uuids by (metis (no_types, lifting) image_iff list.set_map)
  have "fst (configureAll (zip (drop k (live_uuids scope)) (config # configs)) scope)
      = fst (configureAll (zip (drop (Suc k) (live_uuids ?scope)) configs) ?scope)"
    by (simp add: zip configureService_def found split: prod.splits)
  also have "\<dots> = take (Suc k) ?scope @ map2 (\<lambda>svc config. fst (configureLive (actualConfig config) svc)) (drop (Suc k) ?scope) configs"
    using Cons.IH [of ?scope "Suc k"] strings uuids Cons.prems by simp
  also have "\<dots> = take k scope @ map2 (\<lambda>svc config. fst (configureLive (actualConfig config) svc)) (drop k scope) (config # configs)"
    using k by (simp add: take_Suc_conv_app_nth flip: Cons_nth_drop_Suc)
  finally show ?case .
qed

lemma map_filter_strings:
  assumes "\<forall>service\<in>set services. namedService service"
  shows "\<forall>svc\<in>set (List.map_filter (instanceFor registry) services). \<exists>u. liveUuid svc = JStr u"
  using assms named_uuid by (induction services) (auto simp: map_filter_simps instanceFor_uuid split: option.splits)

lemma map_filter_distinct:
  assumes "\<forall>service\<in>set services. namedService service" "distinct (map (\<lambda>service. oget service ''uuid'') services)"
  shows "distinct (live_uuids (List.map_filter (instanceFor registry) services))"
proof -
  have "live_uuids (List.map_filter (instanceFor registry) services)
      = map (\<lambda>service. oget service ''uuid'') (filter (\<lambda>service. instanceFor registry service \<noteq> None) services)"
    using assms(1) by (induction services) (auto simp: map_filter_simps instanceFor_uuid split: option.splits)
  then show ?thesis
    using assms(2) by (simp add: distinct_map_filter)
qed

lemma zip_take_length: "zip xs (take (length xs) ys) = zip xs ys"
proof (induction xs arbitrary: ys)
  case (Cons x xs)
  then show ?case by (cases ys) simp_all
qed simp

text \<open>The services that could be made take, in their order, the first of all the configurations.\<close>

lemma restoreRuntime_places:
  assumes "\<forall>service\<in>set services. namedService service" "distinct (map (\<lambda>service. oget service ''uuid'') services)"
    and "restoreRuntime registry fresh runtime services boardName = Inr (runtime', docs, scope)"
  shows "scope = map2 (\<lambda>svc service. fst (configureLive (actualConfig (JObj service)) svc))
    (List.map_filter (instanceFor registry) services) services"
proof -
  let ?made = "List.map_filter (instanceFor registry) services"
  obtain scope0 made where all: "addAll registry fresh services [] = (scope0, made)" by fastforce
  have none: "first_some (\<lambda>m. case m of Inl e \<Rightarrow> Some e | Inr _ \<Rightarrow> None) made = None"
    using assms(3) by (auto simp: restoreRuntime_def all split: option.splits)
  have live: "scope0 = ?made" "made_of made = live_uuids ?made"
    using addAll_instances [OF assms(1), of registry fresh "[]"] none by (simp_all add: all)
  have short: "length ?made \<le> length services"
    by (induction services) (auto simp: map_filter_simps split: option.splits)
  have zip: "zip (live_uuids ?made) (map JObj services) = zip (drop 0 (live_uuids ?made)) (take (length ?made) (map JObj services))"
    by (simp add: zip_take_length [of "live_uuids ?made", simplified])
  have len: "0 + length (take (length ?made) (map JObj services)) = length ?made"
    using short by simp
  have "scope = fst (configureAll (zip (live_uuids ?made) (map JObj services)) ?made)"
    using assms(3) by (auto simp: restoreRuntime_def all none live split: prod.splits if_splits)
  also have "\<dots> = map2 (\<lambda>svc config. fst (configureLive (actualConfig config) svc)) ?made (take (length ?made) (map JObj services))"
    unfolding zip
    using configureAll_places [OF map_filter_distinct [OF assms(1,2)] map_filter_strings [OF assms(1)] len] by simp
  also have "\<dots> = map2 (\<lambda>svc service. fst (configureLive (actualConfig (JObj service)) svc)) ?made services"
    by (simp add: take_map zip_take_length zip_map2 case_prod_unfold)
  finally show ?thesis .
qed

text \<open>Whether the registry can make the service a document asks for.\<close>

definition known :: "ServiceModule list \<Rightarrow> obj \<Rightarrow> bool" where
  "known registry service = (case instanceFor registry service of None \<Rightarrow> False | Some _ \<Rightarrow> True)"

lemma known_instance: "known registry service \<longleftrightarrow> (\<exists>svc. instanceFor registry service = Some svc)"
  by (simp add: known_def split: option.splits)

lemma map_filter_all:
  assumes "\<forall>service\<in>set services. known registry service"
  shows "List.map_filter (instanceFor registry) services = map (the \<circ> instanceFor registry) services"
  using assms by (induction services) (auto simp: map_filter_simps known_instance)

section \<open>Claims\<close>

text \<open>
  A registry of one class that keeps the configuration it is given, and a board with two services of
  it.
\<close>

definition keepsModule :: ServiceModule where
  "keepsModule =
     \<lparr>moduleId = JStr ''hold'', moduleName = JStr ''Hold'', creates = Some (Some []),
      configures = Some (\<lambda>config state. (js_obj config, False))\<rparr>"

definition serviceDoc :: "string \<Rightarrow> string \<Rightarrow> string \<Rightarrow> obj" where
  "serviceDoc serviceId u value =
     [(''uuid'', JStr u), (''serviceId'', JStr serviceId), (''state'', JObj [(''property'', JStr value)])]"

text \<open>
  C35.  When the registry has the class of every service of a runtime, restoring the runtime makes one
  instance of each, in their order, configured with the state its own document has.
\<close>

theorem restoreRuntime_own:
  assumes "\<forall>service\<in>set services. namedService service" "distinct (map (\<lambda>service. oget service ''uuid'') services)"
    and "\<forall>service\<in>set services. known registry service"
    and "restoreRuntime registry fresh runtime services boardName = Inr (runtime', docs, scope)"
  shows "live_uuids scope = map (\<lambda>service. oget service ''uuid'') services
    \<and> scope = map (\<lambda>service. fst (configureLive (actualConfig (JObj service)) (the (instanceFor registry service)))) services"
proof -
  have scope: "scope = map2 (\<lambda>svc service. fst (configureLive (actualConfig (JObj service)) svc))
      (map (the \<circ> instanceFor registry) services) services"
    using restoreRuntime_places [OF assms(1,2,4)] map_filter_all [OF assms(3)] by simp
  also have "\<dots> = map (\<lambda>service. fst (configureLive (actualConfig (JObj service)) (the (instanceFor registry service)))) services"
    by (rule nth_equalityI) simp_all
  finally have "scope = map (\<lambda>service. fst (configureLive (actualConfig (JObj service)) (the (instanceFor registry service)))) services" .
  then show ?thesis
    using assms(1,3) by (auto simp: known_instance instanceFor_uuid)
qed

theorem restoreRuntime_own_witness:
  "map liveState (snd (snd (projr (restoreRuntime [keepsModule] (\<lambda>_. ''new'') [] [serviceDoc ''hold'' ''a'' ''x'', serviceDoc ''hold'' ''b'' ''y''] JUndef))))
    = [[(''property'', JStr ''x'')], [(''property'', JStr ''y'')]]"
proof -
  let ?services = "[serviceDoc ''hold'' ''a'' ''x'', serviceDoc ''hold'' ''b'' ''y'']"
  have known: "\<forall>service\<in>set ?services. namedService service" "distinct (map (\<lambda>service. oget service ''uuid'') ?services)"
      "\<forall>service\<in>set ?services. known [keepsModule] service"
    by code_simp+
  have runs: "\<not> isl (restoreRuntime [keepsModule] (\<lambda>_. ''new'') [] ?services JUndef)"
    by code_simp
  obtain runtime' docs scope where r: "restoreRuntime [keepsModule] (\<lambda>_. ''new'') [] ?services JUndef = Inr (runtime', docs, scope)"
    using runs by (cases "restoreRuntime [keepsModule] (\<lambda>_. ''new'') [] ?services JUndef") auto
  have "map liveState (map (\<lambda>service. fst (configureLive (actualConfig (JObj service)) (the (instanceFor [keepsModule] service)))) ?services)
      = [[(''property'', JStr ''x'')], [(''property'', JStr ''y'')]]"
    by code_simp
  then show ?thesis
    using restoreRuntime_own [OF known r] by (simp add: r)
qed

text \<open>
   A service whose class the registry does not have takes the configurations of the others out of
  step: where it is the first of a runtime, each of the services after it is configured with the
  document of the one before.
\<close>

theorem restoreRuntime_unknown_shifts:
  assumes "\<forall>service\<in>set (lost # kept). namedService service" "distinct (map (\<lambda>service. oget service ''uuid'') (lost # kept))"
    and "\<not> known registry lost" "\<forall>service\<in>set kept. known registry service"
    and "restoreRuntime registry fresh runtime (lost # kept) boardName = Inr (runtime', docs, scope)"
  shows "scope = map2 (\<lambda>service before. fst (configureLive (actualConfig (JObj before)) (the (instanceFor registry service))))
    kept (lost # kept)"
  using restoreRuntime_places [OF assms(1,2,5)] assms(3) map_filter_all [OF assms(4)]
  by (simp add: map_filter_simps known_def zip_map1 case_prod_unfold comp_def split: option.splits)

theorem restoreRuntime_unknown_shifts_witness:
  "map liveState (snd (snd (projr (restoreRuntime [keepsModule] (\<lambda>_. ''new'') [] [serviceDoc ''gone'' ''a'' ''x'', serviceDoc ''hold'' ''b'' ''y''] JUndef))))
    = [[(''property'', JStr ''x'')]]"
proof -
  let ?lost = "serviceDoc ''gone'' ''a'' ''x''" and ?kept = "[serviceDoc ''hold'' ''b'' ''y'']"
  have known: "\<forall>service\<in>set (?lost # ?kept). namedService service" "distinct (map (\<lambda>service. oget service ''uuid'') (?lost # ?kept))"
      "\<not> known [keepsModule] ?lost" "\<forall>service\<in>set ?kept. known [keepsModule] service"
    by code_simp+
  have runs: "\<not> isl (restoreRuntime [keepsModule] (\<lambda>_. ''new'') [] (?lost # ?kept) JUndef)"
    by code_simp
  obtain runtime' docs scope where r: "restoreRuntime [keepsModule] (\<lambda>_. ''new'') [] (?lost # ?kept) JUndef = Inr (runtime', docs, scope)"
    using runs by (cases "restoreRuntime [keepsModule] (\<lambda>_. ''new'') [] (?lost # ?kept) JUndef") auto
  have "map liveState (map2 (\<lambda>service before. fst (configureLive (actualConfig (JObj before)) (the (instanceFor [keepsModule] service)))) ?kept (?lost # ?kept))
      = [[(''property'', JStr ''x'')]]"
    by code_simp
  then show ?thesis
    using restoreRuntime_unknown_shifts [OF known r] by (simp add: r)
qed

end
