(* ===== verification/SubService.thy ===== *)
theory SubService
  imports BrowserApi
begin

text \<open>
  A nested pipeline as a service (\<^verbatim>\<open>runtime/browser/services/BrowserSubService.tsx\<close>, \<^verbatim>\<open>pipelineNames.ts\<close>).
  The service owns a scope, the live services of its pipeline, which it builds asynchronously
  whenever its pipeline is replaced.  A build is numbered by the value \<^verbatim>\<open>_scopeGeneration\<close> had for it, and so
  is the scope it makes; \<^verbatim>\<open>_scopeBuilding\<close>, a promise, is the number of its build.  What runs inside a scope is
  \<^verbatim>\<open>RuntimeScope\<close>.  Slots, the facade's own descriptor and notifications are not part of this model.
\<close>

section \<open>What is configured\<close>

record SubState =
  mode :: jsval
  stopPropagation :: bool
  ownSlots :: bool
  boardName :: jsval
  runtimeId :: jsval
  runtimeName :: jsval
  runtimeType :: jsval
  facade :: jsval
  pipeline :: "obj list"

definition newSubState :: SubState where
  "newSubState =
     \<lparr>mode = JStr ''pipeline'', stopPropagation = False, ownSlots = True, boardName = JStr [],
      runtimeId = JStr ''browser-runtime'', runtimeName = JStr ''Browser Runtime'', runtimeType = JStr ''browser'',
      facade = JUndef, pipeline = []\<rparr>"

text \<open>The settings that say what the pipeline is part of, and whether one of them was given.\<close>

definition given :: "obj \<Rightarrow> string \<Rightarrow> jsval \<Rightarrow> jsval" where
  "given config k old = (if oget config k = JUndef then old else oget config k)"

definition setDescription :: "obj \<Rightarrow> SubState \<Rightarrow> SubState \<times> bool" where
  "setDescription config st =
     (st\<lparr>mode := given config ''mode'' (mode st), boardName := given config ''boardName'' (boardName st),
        runtimeId := given config ''runtimeId'' (runtimeId st), runtimeName := given config ''runtimeName'' (runtimeName st),
        runtimeType := given config ''runtimeType'' (runtimeType st), facade := given config ''facade'' (facade st)\<rparr>,
      list_ex (\<lambda>k. oget config k \<noteq> JUndef)
        [''mode'', ''boardName'', ''runtimeId'', ''runtimeName'', ''runtimeType'', ''facade''])"

definition setPropagation :: "obj \<Rightarrow> SubState \<Rightarrow> SubState" where
  "setPropagation config st =
     (case oget config ''stopPropagation'' of JBool b \<Rightarrow> st\<lparr>stopPropagation := b\<rparr> | _ \<Rightarrow> st)"

definition setSlots :: "obj \<Rightarrow> SubState \<Rightarrow> SubState" where
  "setSlots config st =
     (let slots = field (oget config ''scope'') ''slots''
      in if slots = JStr ''own'' then st\<lparr>ownSlots := True\<rparr>
         else if slots = JStr ''inherit'' then st\<lparr>ownSlots := False\<rparr> else st)"

section \<open>The entries of a pipeline\<close>

definition optionalKey :: "string \<Rightarrow> jsval \<Rightarrow> obj" where
  "optionalKey k v = (if truthy v then [(k, v)] else [])"

definition pipelineEntry :: "jsval \<Rightarrow> jsval \<Rightarrow> obj" where
  "pipelineEntry entry instanceId =
     [(''serviceId'', field entry ''serviceId''), (''instanceId'', instanceId)]
       @ optionalKey ''serviceName'' (field entry ''serviceName'') @ optionalKey ''state'' (field entry ''state'')"

definition replacedPipeline :: "(nat \<Rightarrow> string) \<Rightarrow> jsval list \<Rightarrow> obj list" where
  "replacedPipeline fresh entries =
     map (\<lambda>(i, entry). pipelineEntry entry (js_or (field entry ''instanceId'') (js_or (field entry ''uuid'') (JStr (fresh i)))))
       (enumerate 0 entries)"

definition entryInstanceId :: "obj \<Rightarrow> jsval" where
  "entryInstanceId e = oget e ''instanceId''"

text \<open>\<^verbatim>\<open>renamedEntries\<close>: the entries with their new names, where names are all that differs.\<close>

definition newName :: "jsval \<Rightarrow> jsval" where
  "newName v = (case v of JStr n \<Rightarrow> if n \<noteq> [] then JStr n else JUndef | _ \<Rightarrow> JUndef)"

definition sameEntry :: "obj \<Rightarrow> jsval \<Rightarrow> bool" where
  "sameEntry was now =
     (prim_eq (field now ''serviceId'') (oget was ''serviceId'')
      \<and> prim_eq (or_else (field now ''instanceId'') (field now ''uuid'')) (entryInstanceId was)
      \<and> json_text (or_else (field now ''state'') JNull) = json_text (or_else (oget was ''state'') JNull))"

definition withName :: "obj \<Rightarrow> jsval \<Rightarrow> obj" where
  "withName was name =
     (let rest = omit [''serviceName''] was
      in if name \<noteq> JUndef then oput ''serviceName'' name rest else rest)"

definition renamedEntries :: "obj list \<Rightarrow> jsval \<Rightarrow> obj list option" where
  "renamedEntries old new =
     (case new of
        JArr entries \<Rightarrow>
          (if length entries = length old \<and> list_all2 sameEntry old entries
              \<and> list_ex (\<lambda>(was, now). newName (field now ''serviceName'') \<noteq> oget was ''serviceName'') (zip old entries)
           then Some (map2 (\<lambda>was now. withName was (newName (field now ''serviceName''))) old entries)
           else None)
      | _ \<Rightarrow> None)"

definition renameLiveServices :: "obj list \<Rightarrow> LiveService list \<Rightarrow> LiveService list" where
  "renameLiveServices entries scope =
     foldl (\<lambda>scope e.
       case findLive (entryInstanceId e) scope of
         None \<Rightarrow> scope
       | Some i \<Rightarrow> scope[i := (scope ! i)\<lparr>liveName := or_else (oget e ''serviceName'') (oget e ''serviceId'')\<rparr>])
       scope entries"

text \<open>The descriptor a source hands on.\<close>

definition buildBoardDescriptor :: "SubState \<Rightarrow> obj" where
  "buildBoardDescriptor st =
     ospread (ospread (optionalKey ''boardName'' (boardName st)) (optionalKey ''facade'' (facade st)))
       [(''runtimes'', JArr [JObj [(''id'', runtimeId st), (''name'', runtimeName st), (''type'', runtimeType st)]]),
        (''services'', JObj [(to_str (runtimeId st), JArr (map (\<lambda>e. JObj
           ([(''uuid'', entryInstanceId e), (''serviceId'', oget e ''serviceId'')]
             @ optionalKey ''serviceName'' (oget e ''serviceName'') @ optionalKey ''state'' (oget e ''state''))) (pipeline st)))])]"

section \<open>The service\<close>

text \<open>
  Where a build is: before its imports have loaded, with entries to add, or about to configure the
  service it has just added.  \<open>scopes\<close> are the scopes that were not disposed of, \<open>failed\<close> the builds that
  threw, \<open>readbacks\<close> the services whose state is being read back, \<open>calls\<close> the calls waiting for a build (or
  for nothing, \<^const>\<open>None\<close>), and \<open>outcomes\<close> how the calls ended, the last one first.
\<close>

datatype build_at = Importing | Adding "obj list" | Configuring jsval jsval "obj list"

datatype outcome = Through nat jsval | PassedOn jsval | Silent | Rejected | Emitted obj

record SubService =
  sub :: SubState
  adopted :: "nat option"
  generation :: nat
  building :: "nat option"
  builds :: "(nat \<times> build_at) list"
  scopes :: "(nat \<times> LiveService list) list"
  failed :: "nat list"
  readbacks :: "jsval list"
  calls :: "(jsval \<times> nat option) list"
  outcomes :: "outcome list"

definition newSubService :: SubService where
  "newSubService =
     \<lparr>sub = newSubState, adopted = None, generation = 0, building = None, builds = [], scopes = [],
      failed = [], readbacks = [], calls = [], outcomes = []\<rparr>"

definition disposeScope :: "nat \<Rightarrow> SubService \<Rightarrow> SubService" where
  "disposeScope g s = s\<lparr>scopes := filter (\<lambda>(k, _). k \<noteq> g) (scopes s)\<rparr>"

definition letGo :: "SubService \<Rightarrow> SubService" where
  "letGo s = (case adopted s of None \<Rightarrow> s | Some g \<Rightarrow> (disposeScope g s)\<lparr>adopted := None\<rparr>)"

definition teardownScope :: "SubService \<Rightarrow> SubService" where
  "teardownScope s = (letGo s)\<lparr>building := None, generation := Suc (generation s)\<rparr>"

definition rebuildScope :: "SubService \<Rightarrow> SubService" where
  "rebuildScope s =
     (letGo s)\<lparr>generation := Suc (generation s), building := Some (Suc (generation s)),
       builds := builds s @ [(Suc (generation s), Importing)]\<rparr>"

definition scopeOf :: "SubService \<Rightarrow> nat \<Rightarrow> LiveService list" where
  "scopeOf s g = (case map_of (scopes s) g of Some scope \<Rightarrow> scope | None \<Rightarrow> [])"

definition putScope :: "nat \<Rightarrow> LiveService list \<Rightarrow> SubService \<Rightarrow> SubService" where
  "putScope g scope s = s\<lparr>scopes := map (\<lambda>(k, x). (k, if k = g then scope else x)) (scopes s)\<rparr>"

definition putBuild :: "nat \<Rightarrow> build_at \<Rightarrow> SubService \<Rightarrow> SubService" where
  "putBuild g at s = s\<lparr>builds := map (\<lambda>(k, x). (k, if k = g then at else x)) (builds s)\<rparr>"

definition endBuild :: "nat \<Rightarrow> SubService \<Rightarrow> SubService" where
  "endBuild g s = s\<lparr>builds := filter (\<lambda>(k, _). k \<noteq> g) (builds s)\<rparr>"

text \<open>What a change of the pipeline or its description leads to: a source speaks, a pipeline is rebuilt.\<close>

definition afterChange :: "SubService \<Rightarrow> SubService" where
  "afterChange s =
     (if mode (sub s) = JStr ''source''
      then (let s' = teardownScope s in s'\<lparr>outcomes := Emitted (buildBoardDescriptor (sub s)) # outcomes s'\<rparr>)
      else rebuildScope s)"

definition withPipeline :: "obj list \<Rightarrow> SubService \<Rightarrow> SubService" where
  "withPipeline p s = s\<lparr>sub := (sub s)\<lparr>pipeline := p\<rparr>\<rparr>"

text \<open>
  \<^verbatim>\<open>configureService\<close> of one entry.  A live one is configured itself, and its state read back later; before
  the scope is built the configuration is merged into the entry.
\<close>

definition mergeState :: "jsval \<Rightarrow> jsval \<Rightarrow> obj \<Rightarrow> obj" where
  "mergeState instanceId state e =
     (if prim_eq (entryInstanceId e) instanceId
      then oput ''state'' (JObj (ospread (from_entries (js_obj (oget e ''state''))) (js_obj state))) e else e)"

definition configureEntry :: "jsval \<Rightarrow> jsval \<Rightarrow> SubService \<Rightarrow> SubService" where
  "configureEntry instanceId state s =
     (case adopted s of
        None \<Rightarrow> withPipeline (map (mergeState instanceId state) (pipeline (sub s))) s
      | Some g \<Rightarrow>
          (case findLive instanceId (scopeOf s g) of
             None \<Rightarrow> s
           | Some i \<Rightarrow>
               let (svc, threw) = configureLive state (scopeOf s g ! i);
                   s' = putScope g ((scopeOf s g)[i := svc]) s
               in if threw then s' else s'\<lparr>readbacks := readbacks s' @ [instanceId]\<rparr>))"

definition finishConfigure :: "bool \<Rightarrow> SubService \<Rightarrow> SubService" where
  "finishConfigure changed s = (if changed then afterChange s else s)"

text \<open>The editing commands, where no pipeline is given.\<close>

definition editPipeline :: "(nat \<Rightarrow> string) \<Rightarrow> obj \<Rightarrow> bool \<Rightarrow> SubService \<Rightarrow> SubService" where
  "editPipeline fresh config changed s =
     (let append = oget config ''appendService''; asked = oget config ''configureService'' in
      if truthy append
      then afterChange (withPipeline (pipeline (sub s)
             @ [pipelineEntry append (js_or (field append ''instanceId'') (JStr (fresh 0)))]) s)
      else
        (case oget config ''removeService'' of
           JStr u \<Rightarrow> afterChange (withPipeline (filter (\<lambda>e. \<not> prim_eq (entryInstanceId e) (JStr u)) (pipeline (sub s))) s)
         | _ \<Rightarrow>
             if truthy asked then configureEntry (field asked ''instanceId'') (field asked ''state'') s
             else finishConfigure changed s))"

text \<open>A pipeline that differs in names is renamed in place; any other replaces the one there is.\<close>

definition renameInPlace :: "obj list \<Rightarrow> SubService \<Rightarrow> SubService" where
  "renameInPlace renamed s =
     (case adopted s of
        None \<Rightarrow> withPipeline renamed s
      | Some g \<Rightarrow> putScope g (renameLiveServices renamed (scopeOf s g)) (withPipeline renamed s))"

definition setPipeline :: "(nat \<Rightarrow> string) \<Rightarrow> obj \<Rightarrow> bool \<Rightarrow> SubService \<Rightarrow> SubService" where
  "setPipeline fresh config changed s =
     (case renamedEntries (pipeline (sub s)) (oget config ''pipeline'') of
        Some renamed \<Rightarrow> finishConfigure changed (renameInPlace renamed s)
      | None \<Rightarrow>
          (case oget config ''pipeline'' of
             JArr entries \<Rightarrow> afterChange (withPipeline (replacedPipeline fresh entries) s)
           | _ \<Rightarrow> editPipeline fresh config changed s))"

definition subConfigure :: "(nat \<Rightarrow> string) \<Rightarrow> obj \<Rightarrow> SubService \<Rightarrow> SubService" where
  "subConfigure fresh config s =
     (let (st, changed) = setDescription config (sub s)
      in setPipeline fresh config changed (s\<lparr>sub := setSlots config (setPropagation config st)\<rparr>))"

text \<open>The state of a live service, once it has been read.\<close>

definition readBack :: "jsval \<Rightarrow> jsval \<Rightarrow> SubService \<Rightarrow> SubService" where
  "readBack instanceId state s =
     (withPipeline (map (\<lambda>e. if prim_eq (entryInstanceId e) instanceId then oput ''state'' state e else e) (pipeline (sub s))) s)
       \<lparr>readbacks := remove1 instanceId (readbacks s)\<rparr>"

text \<open>\<^verbatim>\<open>_buildScope\<close> from one await to the next, and what follows it once it has ended.\<close>

definition failBuild :: "nat \<Rightarrow> SubService \<Rightarrow> SubService" where
  "failBuild g s = (endBuild g s)\<lparr>failed := g # failed s\<rparr>"

definition adopt :: "nat \<Rightarrow> SubService \<Rightarrow> SubService" where
  "adopt g s =
     (if g \<noteq> generation s then disposeScope g (endBuild g s) else (endBuild g s)\<lparr>adopted := Some g\<rparr>)"

definition buildStep :: "ServiceModule list \<Rightarrow> string \<Rightarrow> nat \<Rightarrow> SubService \<Rightarrow> SubService" where
  "buildStep registry fresh g s =
     (case map_of (builds s) g of
        None \<Rightarrow> s
      | Some Importing \<Rightarrow> putBuild g (Adding (pipeline (sub s))) (s\<lparr>scopes := scopes s @ [(g, [])]\<rparr>)
      | Some (Adding []) \<Rightarrow> adopt g s
      | Some (Adding (e # es)) \<Rightarrow>
          (case addService registry fresh
               [(''serviceId'', oget e ''serviceId''), (''serviceName'', or_else (oget e ''serviceName'') (oget e ''serviceId''))]
               (entryInstanceId e) (scopeOf s g) of
             (scope, Inl _) \<Rightarrow> failBuild g s
           | (scope, Inr None) \<Rightarrow> putBuild g (Adding es) s
           | (scope, Inr (Some u)) \<Rightarrow>
               putBuild g (if truthy (oget e ''state'') then Configuring u (oget e ''state'') es else Adding es) (putScope g scope s))
      | Some (Configuring u config es) \<Rightarrow>
          let (scope, threw) = configureService u config (scopeOf s g); s' = putScope g scope s
          in if threw then failBuild g s' else putBuild g (Adding es) s')"

text \<open>
  \<^verbatim>\<open>process\<close>: up to where it waits for the build, and from there.  What goes through a scope is a pass of it;
  its answer is what leaves the service unless propagation is stopped.
\<close>

definition enterScope :: "jsval \<Rightarrow> SubService \<Rightarrow> SubService" where
  "enterScope input s =
     (case adopted s of
        Some g \<Rightarrow> s\<lparr>outcomes := Through g input # outcomes s\<rparr>
      | None \<Rightarrow> s\<lparr>outcomes := (if stopPropagation (sub s) then Silent else PassedOn input) # outcomes s\<rparr>)"

definition subProcess :: "jsval \<Rightarrow> SubService \<Rightarrow> SubService" where
  "subProcess input s =
     (if mode (sub s) = JStr ''source'' then s\<lparr>outcomes := Emitted (buildBoardDescriptor (sub s)) # outcomes s\<rparr>
      else case adopted s of
        Some _ \<Rightarrow> enterScope input s
      | None \<Rightarrow> s\<lparr>calls := calls s @ [(input, building s)]\<rparr>)"

definition buildSettled :: "SubService \<Rightarrow> nat option \<Rightarrow> bool" where
  "buildSettled s w = (case w of None \<Rightarrow> True | Some g \<Rightarrow> g \<notin> set (map fst (builds s)))"

definition resumeCall :: "jsval \<times> nat option \<Rightarrow> SubService \<Rightarrow> SubService" where
  "resumeCall c s =
     (let s' = s\<lparr>calls := remove1 c (calls s)\<rparr>
      in case snd c of
           Some g \<Rightarrow> if g \<in> set (failed s) then s'\<lparr>outcomes := Rejected # outcomes s'\<rparr> else enterScope (fst c) s'
         | None \<Rightarrow> enterScope (fst c) s')"

text \<open>What the scope's own result is handed on as: nothing where propagation is stopped.\<close>

definition afterPass :: "SubService \<Rightarrow> jsval \<Rightarrow> jsval" where
  "afterPass s result = (if stopPropagation (sub s) then JNull else result)"

definition onResult :: "SubService \<Rightarrow> jsval \<Rightarrow> jsval option" where
  "onResult s result = (if stopPropagation (sub s) then None else if nullish result then None else Some result)"

section \<open>Executions\<close>

inductive sub_step :: "ServiceModule list \<Rightarrow> SubService \<Rightarrow> SubService \<Rightarrow> bool" for registry where
  configured: "\<forall>i. fresh i \<noteq> [] \<Longrightarrow> sub_step registry s (subConfigure fresh config s)"
| built: "g \<in> set (map fst (builds s)) \<Longrightarrow> sub_step registry s (buildStep registry fresh g s)"
| read: "u \<in> set (readbacks s) \<Longrightarrow> sub_step registry s (readBack u state s)"
| reached: "sub_step registry s (putScope g (fst (configureService u config (scopeOf s g))) s)"
| called: "sub_step registry s (subProcess input s)"
| resumed: "c \<in> set (calls s) \<Longrightarrow> buildSettled s (snd c) \<Longrightarrow> sub_step registry s (resumeCall c s)"
| destroyed: "sub_step registry s (teardownScope s)"

abbreviation sub_reachable :: "ServiceModule list \<Rightarrow> SubService \<Rightarrow> bool" where
  "sub_reachable registry \<equiv> (sub_step registry)\<^sup>*\<^sup>* newSubService"

section \<open>What a step leaves as it is\<close>

text \<open>Everything but the settings, the states of the live services and what has been answered.\<close>

definition shape :: "SubService \<Rightarrow> nat \<times> nat option \<times> nat option \<times> (nat \<times> build_at) list \<times> (nat \<times> jsval list) list \<times> nat list" where
  "shape s = (generation s, adopted s, building s, builds s, map (\<lambda>(k, x). (k, live_uuids x)) (scopes s), failed s)"

text \<open>What a pipeline is made of: the ids of its entries and of their classes.\<close>

definition members :: "obj list \<Rightarrow> (jsval \<times> jsval) list" where
  "members p = map (\<lambda>e. (entryInstanceId e, oget e ''serviceId'')) p"

definition identified :: "obj list \<Rightarrow> bool" where
  "identified p = list_all (\<lambda>e. truthy (entryInstanceId e)) p"

text \<open>The live services a pipeline is run by: those of its entries whose class the registry has.\<close>

definition makes :: "ServiceModule list \<Rightarrow> jsval \<Rightarrow> bool" where
  "makes registry serviceId =
     (case findServiceModule registry serviceId of None \<Rightarrow> False | Some m \<Rightarrow> (case creates m of Some (Some _) \<Rightarrow> True | _ \<Rightarrow> False))"

definition runs_of :: "ServiceModule list \<Rightarrow> obj list \<Rightarrow> jsval list" where
  "runs_of registry p = map entryInstanceId (filter (\<lambda>e. makes registry (oget e ''serviceId'')) p)"

lemma runs_of_members: "runs_of registry p = map fst (filter (\<lambda>(_, serviceId). makes registry serviceId) (members p))"
  by (induction p) (auto simp: runs_of_def members_def)

lemma identified_members: "identified p = list_all (\<lambda>(u, _). truthy u) (members p)"
  by (induction p) (auto simp: identified_def members_def)

lemma entryId_entry [simp]: "entryInstanceId (pipelineEntry entry u) = u"
  by (simp add: entryInstanceId_def pipelineEntry_def)

lemma members_map:
  assumes "\<And>e. entryInstanceId (f e) = entryInstanceId e" "\<And>e. oget (f e) ''serviceId'' = oget e ''serviceId''"
  shows "members (map f p) = members p"
  by (simp add: members_def assms)

lemma members_merge [simp]: "members (map (mergeState u state) p) = members p"
  by (rule members_map) (simp_all add: mergeState_def entryInstanceId_def)

lemma members_read [simp]: "members (map (\<lambda>e. if prim_eq (entryInstanceId e) u then oput ''state'' state e else e) p) = members p"
  by (rule members_map) (simp_all add: entryInstanceId_def)

lemma withName_keeps [simp]: "k \<noteq> ''serviceName'' \<Longrightarrow> oget (withName was name) k = oget was k"
  by (simp add: withName_def Let_def)

lemma members_renamed: "renamedEntries old new = Some p \<Longrightarrow> members p = members old"
  by (auto simp: renamedEntries_def members_def entryInstanceId_def intro!: nth_equalityI dest: list_all2_lengthD
      split: jsval.splits if_splits)

lemma identified_replaced: "\<forall>i. fresh i \<noteq> [] \<Longrightarrow> identified (replacedPipeline fresh entries)"
  by (auto simp: identified_def replacedPipeline_def list_all_iff js_or_def)

lemma putScope_simps [simp]:
  "sub (putScope g scope s) = sub s" "adopted (putScope g scope s) = adopted s" "generation (putScope g scope s) = generation s"
  "building (putScope g scope s) = building s" "builds (putScope g scope s) = builds s" "failed (putScope g scope s) = failed s"
  "readbacks (putScope g scope s) = readbacks s" "calls (putScope g scope s) = calls s" "outcomes (putScope g scope s) = outcomes s"
  by (simp_all add: putScope_def)

lemma withPipeline_simps [simp]:
  "pipeline (sub (withPipeline p s)) = p" "adopted (withPipeline p s) = adopted s" "scopes (withPipeline p s) = scopes s"
  "readbacks (withPipeline p s) = readbacks s" "calls (withPipeline p s) = calls s" "scopeOf (withPipeline p s) g = scopeOf s g"
  "builds (withPipeline p s) = builds s" "failed (withPipeline p s) = failed s" "generation (withPipeline p s) = generation s"
  "building (withPipeline p s) = building s"
  by (simp_all add: withPipeline_def scopeOf_def)

lemma shape_withPipeline [simp]: "shape (withPipeline p s) = shape s"
  by (simp add: shape_def)

lemma map_snd_same:
  assumes "\<And>x. (g, x) \<in> set xs \<Longrightarrow> f y = f x"
  shows "map (\<lambda>(k, x). (k, f x)) (map (\<lambda>(k, x). (k, if k = g then y else x)) xs) = map (\<lambda>(k, x). (k, f x)) xs"
  using assms by auto

text \<open>A scope's services may change, and the scope keeps its shape.\<close>

lemma shape_putScope:
  assumes "distinct (map fst (scopes s))" "live_uuids scope = live_uuids (scopeOf s g)"
  shows "shape (putScope g scope s) = shape s"
proof -
  have "map (\<lambda>(k, x). (k, live_uuids x)) (scopes (putScope g scope s)) = map (\<lambda>(k, x). (k, live_uuids x)) (scopes s)"
    unfolding putScope_def using assms by (auto simp: scopeOf_def dest: map_of_is_SomeI)
  then show ?thesis by (simp add: shape_def)
qed

lemma find_index_bound: "find_index P xs = Some i \<Longrightarrow> i < length xs"
  by (induction xs arbitrary: i) (auto split: if_splits option.splits)

lemma live_uuids_update: "findLive u scope = Some i \<Longrightarrow> liveUuid svc = liveUuid (scope ! i) \<Longrightarrow> live_uuids (scope[i := svc]) = live_uuids scope"
  by (metis find_index_bound findLive_def list_update_same_conv map_update nth_map length_map)

lemma live_uuids_rename: "live_uuids (renameLiveServices entries scope) = live_uuids scope"
  unfolding renameLiveServices_def
  by (induction entries arbitrary: scope) (auto simp: live_uuids_update split: option.splits)

lemma live_uuids_configureService: "live_uuids (fst (configureService u config scope)) = live_uuids scope"
  by (auto simp: configureService_def live_uuids_update split: option.splits prod.splits)
     (metis configureLive_uuid fst_conv live_uuids_update)

text \<open>
  What \<^verbatim>\<open>configure\<close> comes to: the members of the pipeline stay and nothing else of the shape changes, or
  the pipeline may be another and a rebuild or a teardown follows.
\<close>

definition quiet :: "SubService \<Rightarrow> SubService \<Rightarrow> bool" where
  "quiet s t = (shape t = shape s \<and> members (pipeline (sub t)) = members (pipeline (sub s)) \<and> calls t = calls s)"

lemma quiet_configureEntry:
  assumes "distinct (map fst (scopes s))"
  shows "quiet s (configureEntry u state s)"
proof (cases "adopted s")
  case None
  then show ?thesis by (simp add: configureEntry_def quiet_def)
next
  case (Some g)
  have keeps: "shape (putScope g ((scopeOf s g)[i := svc]) s) = shape s"
    if "findLive u (scopeOf s g) = Some i" "liveUuid svc = liveUuid (scopeOf s g ! i)" for i svc
    using shape_putScope [OF assms live_uuids_update [OF that]] .
  show ?thesis
  proof (cases "findLive u (scopeOf s g)")
    case None
    then show ?thesis by (simp add: Some configureEntry_def quiet_def)
  next
    case i: (Some i)
    have "shape (putScope g ((scopeOf s g)[i := fst (configureLive state (scopeOf s g ! i))]) s) = shape s"
      by (rule keeps [OF i]) simp
    then show ?thesis
      by (simp add: Some i configureEntry_def quiet_def Let_def case_prod_unfold shape_def)
  qed
qed

definition changes_to :: "SubService \<Rightarrow> SubService \<Rightarrow> bool" where
  "changes_to s t = (shape t = shape s \<and> calls t = calls s \<and> (identified (pipeline (sub s)) \<longrightarrow> identified (pipeline (sub t))))"

lemma quiet_changes: "quiet s t \<Longrightarrow> changes_to s t"
  by (auto simp: quiet_def changes_to_def identified_members)

lemma quiet_rename:
  assumes "renamedEntries (pipeline (sub s)) v = Some p" "distinct (map fst (scopes s))"
  shows "quiet s (renameInPlace p s)"
  using assms members_renamed [OF assms(1)] shape_putScope [of "withPipeline p s" "renameLiveServices p (scopeOf s g)" g for g]
  by (auto simp: quiet_def renameInPlace_def live_uuids_rename split: option.splits)

text \<open>What \<open>u\<close> is to \<open>s\<close> after a configuration.\<close>

definition settles :: "SubService \<Rightarrow> SubService \<Rightarrow> bool" where
  "settles s u = (quiet s u \<or> (\<exists>t. u = afterChange t \<and> changes_to s t))"

lemma settles_finish: "quiet s t \<Longrightarrow> settles s (finishConfigure changed t)"
  using quiet_changes by (auto simp: settles_def finishConfigure_def)

lemma settles_change: "(identified (pipeline (sub s)) \<Longrightarrow> identified p) \<Longrightarrow> settles s (afterChange (withPipeline p s))"
  by (auto simp: settles_def changes_to_def)

lemma settles_edit:
  assumes "\<forall>i. fresh i \<noteq> []" "distinct (map fst (scopes s))"
  shows "settles s (editPipeline fresh config changed s)"
proof -
  have self: "quiet s s" by (simp add: quiet_def)
  have entry: "settles s (configureEntry u state s)" for u state
    using quiet_configureEntry [OF assms(2)] by (simp add: settles_def)
  have more: "settles s (afterChange (withPipeline (pipeline (sub s) @ [pipelineEntry v (js_or w (JStr (fresh 0)))]) s))" for v w
    by (rule settles_change) (use assms(1) in \<open>simp add: identified_def js_or_def\<close>)
  have less: "settles s (afterChange (withPipeline (filter P (pipeline (sub s))) s))" for P
    by (rule settles_change) (auto simp: identified_def list_all_iff)
  have last: "settles s (if truthy v then configureEntry (field v ''instanceId'') (field v ''state'') s else finishConfigure changed s)" for v
    using entry settles_finish [OF self] by simp
  show ?thesis
  proof (cases "truthy (oget config ''appendService'')")
    case True
    then show ?thesis by (simp add: editPipeline_def Let_def more)
  next
    case False
    then show ?thesis
      using less last by (cases "oget config ''removeService''") (simp_all only: editPipeline_def Let_def if_False jsval.simps)
  qed
qed

lemma settles_configure:
  assumes "\<forall>i. fresh i \<noteq> []" "distinct (map fst (scopes s))"
  shows "settles s (subConfigure fresh config s)"
proof -
  obtain st changed where st: "setDescription config (sub s) = (st, changed)" by fastforce
  define t where "t = s\<lparr>sub := setSlots config (setPropagation config st)\<rparr>"
  have "pipeline (sub t) = pipeline (sub s)"
    using st by (auto simp: t_def setDescription_def setSlots_def setPropagation_def Let_def split: jsval.splits)
  then have t: "quiet s t" "distinct (map fst (scopes t))" "quiet t t"
    using assms(2) by (simp_all add: t_def quiet_def shape_def)
  have "settles t (setPipeline fresh config changed t)"
  proof (cases "renamedEntries (pipeline (sub t)) (oget config ''pipeline'')")
    case (Some q)
    then show ?thesis
      using settles_finish [OF quiet_rename [OF Some t(2)]] by (simp add: setPipeline_def)
  next
    case None
    have new: "settles t (afterChange (withPipeline (replacedPipeline fresh entries) t))" for entries
      by (rule settles_change) (rule identified_replaced [OF assms(1)])
    show ?thesis
      using None new settles_edit [OF assms(1) t(2)]
      by (cases "oget config ''pipeline''") (simp_all only: setPipeline_def option.simps jsval.simps)
  qed
  then have "settles s (setPipeline fresh config changed t)"
    using t(1) by (auto simp: settles_def quiet_def changes_to_def identified_members)
  then show ?thesis by (simp add: subConfigure_def st t_def)
qed

section \<open>Scopes and builds\<close>

abbreviation in_build :: "SubService \<Rightarrow> nat set" where
  "in_build s \<equiv> fst ` set (builds s)"

definition scopes_ok :: "SubService \<Rightarrow> bool" where
  "scopes_ok s =
     (distinct (map fst (builds s)) \<and> distinct (map fst (scopes s))
      \<and> (\<forall>g\<in>in_build s \<union> fst ` set (scopes s) \<union> set (failed s). g \<le> generation s)
      \<and> (\<forall>g. adopted s = Some g \<longrightarrow> g = generation s \<and> g \<notin> in_build s \<and> g \<notin> set (failed s))
      \<and> fst ` set (scopes s) = set_option (adopted s) \<union> {g. \<exists>at. (g, at) \<in> set (builds s) \<and> at \<noteq> Importing} \<union> set (failed s)
      \<and> set (failed s) \<inter> in_build s = {})"

text \<open>The build a call may wait for: under way, thrown, or the one whose scope was taken.\<close>

definition awaited :: "SubService \<Rightarrow> nat \<Rightarrow> bool" where
  "awaited s g = (g \<le> generation s \<and> (g = generation s \<longrightarrow> g \<in> in_build s \<or> g \<in> set (failed s) \<or> adopted s = Some g))"

definition calls_ok :: "SubService \<Rightarrow> bool" where
  "calls_ok s =
     ((\<forall>g. building s = Some g \<longrightarrow> g = generation s \<and> awaited s g) \<and> (\<forall>(input, w)\<in>set (calls s). \<forall>g. w = Some g \<longrightarrow> awaited s g))"

definition pipeline_ok :: "ServiceModule list \<Rightarrow> SubService \<Rightarrow> bool" where
  "pipeline_ok registry s =
     (identified (pipeline (sub s))
      \<and> (\<forall>g. adopted s = Some g \<longrightarrow> live_uuids (scopeOf s g) = runs_of registry (pipeline (sub s)))
      \<and> (\<forall>(g, at)\<in>set (builds s). \<forall>es. at = Adding es \<or> (\<exists>u c. at = Configuring u c es) \<longrightarrow>
           identified es \<and> (g = generation s \<longrightarrow> live_uuids (scopeOf s g) @ runs_of registry es = runs_of registry (pipeline (sub s)))))"

text \<open>These depend on the shape and on the members of the pipeline.\<close>

lemma shape_scope: "live_uuids (scopeOf s g) = (case map_of (map (\<lambda>(k, x). (k, live_uuids x)) (scopes s)) g of Some us \<Rightarrow> us | None \<Rightarrow> [])"
  by (simp add: scopeOf_def map_of_map split: option.splits)

lemma shape_fields:
  assumes "shape t = shape s"
  shows "generation t = generation s" "adopted t = adopted s" "building t = building s" "builds t = builds s" "failed t = failed s"
    "map fst (scopes t) = map fst (scopes s)" "live_uuids (scopeOf t g) = live_uuids (scopeOf s g)"
proof -
  have "map (\<lambda>(k, x). (k, live_uuids x)) (scopes t) = map (\<lambda>(k, x). (k, live_uuids x)) (scopes s)"
    using assms by (simp add: shape_def)
  then show "live_uuids (scopeOf t g) = live_uuids (scopeOf s g)" "map fst (scopes t) = map fst (scopes s)"
    by (simp_all only: shape_scope) (metis (no_types, lifting) map_fst_zip case_prod_unfold fst_conv list.map_comp comp_def map_eq_conv)
qed (use assms in \<open>simp_all add: shape_def\<close>)

lemma scopes_ok_shape:
  assumes "shape t = shape s" "scopes_ok s"
  shows "scopes_ok t"
  using assms(2) by (simp add: scopes_ok_def shape_fields [OF assms(1)] flip: set_map)

lemma calls_ok_shape:
  assumes "shape t = shape s" "calls t = calls s" "calls_ok s"
  shows "calls_ok t"
  using assms(3) unfolding calls_ok_def awaited_def shape_fields [OF assms(1)] assms(2) .

lemma pipeline_ok_quiet:
  assumes "quiet s t" "pipeline_ok registry s"
  shows "pipeline_ok registry t"
proof -
  have shape: "shape t = shape s" and members: "members (pipeline (sub t)) = members (pipeline (sub s))"
    using assms(1) by (simp_all add: quiet_def)
  then have "runs_of registry (pipeline (sub t)) = runs_of registry (pipeline (sub s))"
      "identified (pipeline (sub t)) = identified (pipeline (sub s))"
    by (simp_all add: runs_of_members identified_members)
  then show ?thesis
    using assms(2) by (simp add: pipeline_ok_def shape_fields [OF shape])
qed

lemma letGo_simps [simp]:
  "adopted (letGo s) = None" "generation (letGo s) = generation s" "building (letGo s) = building s" "builds (letGo s) = builds s"
  "failed (letGo s) = failed s" "sub (letGo s) = sub s" "calls (letGo s) = calls s" "outcomes (letGo s) = outcomes s"
  "readbacks (letGo s) = readbacks s"
  by (simp_all add: letGo_def disposeScope_def split: option.splits)

lemma scopeOf_letGo: "g \<noteq> the (adopted s) \<or> adopted s = None \<Longrightarrow> scopeOf (letGo s) g = scopeOf s g"
proof -
  have "map_of (filter (\<lambda>(k, _). k \<noteq> c) xs) g = (if g = c then None else map_of xs g)" for c and xs :: "(nat \<times> LiveService list) list"
    by (induction xs) auto
  then show "g \<noteq> the (adopted s) \<or> adopted s = None \<Longrightarrow> scopeOf (letGo s) g = scopeOf s g"
    by (auto simp: letGo_def disposeScope_def scopeOf_def split: option.splits)
qed

lemma fst_scopes_letGo: "fst ` set (scopes (letGo s)) = fst ` set (scopes s) - set_option (adopted s)"
  by (auto simp: letGo_def disposeScope_def split: option.splits)

lemma distinct_scopes_letGo: "distinct (map fst (scopes s)) \<Longrightarrow> distinct (map fst (scopes (letGo s)))"
  by (auto simp: letGo_def disposeScope_def distinct_map_filter split: option.splits)

lemma scopes_okD:
  assumes "scopes_ok s"
  shows "\<And>g at. (g, at) \<in> set (builds s) \<Longrightarrow> g \<le> generation s" "\<And>g. g \<in> set (failed s) \<Longrightarrow> g \<le> generation s"
    "\<And>g. adopted s = Some g \<Longrightarrow> g = generation s" "\<And>g at. adopted s = Some g \<Longrightarrow> (g, at) \<notin> set (builds s)"
    "\<And>g. adopted s = Some g \<Longrightarrow> g \<notin> set (failed s)" "\<And>g at. g \<in> set (failed s) \<Longrightarrow> (g, at) \<notin> set (builds s)"
    "distinct (map fst (builds s))" "distinct (map fst (scopes s))"
    "fst ` set (scopes s) = set_option (adopted s) \<union> {g. \<exists>at. (g, at) \<in> set (builds s) \<and> at \<noteq> Importing} \<union> set (failed s)"
  using assms unfolding scopes_ok_def by force+

lemma scopes_okI:
  assumes "\<And>g at. (g, at) \<in> set (builds s) \<Longrightarrow> g \<le> generation s" "\<And>g. g \<in> set (failed s) \<Longrightarrow> g \<le> generation s"
    "\<And>g. adopted s = Some g \<Longrightarrow> g = generation s" "\<And>g at. adopted s = Some g \<Longrightarrow> (g, at) \<notin> set (builds s)"
    "\<And>g. adopted s = Some g \<Longrightarrow> g \<notin> set (failed s)" "\<And>g at. g \<in> set (failed s) \<Longrightarrow> (g, at) \<notin> set (builds s)"
    "distinct (map fst (builds s))" "distinct (map fst (scopes s))"
    "fst ` set (scopes s) = set_option (adopted s) \<union> {g. \<exists>at. (g, at) \<in> set (builds s) \<and> at \<noteq> Importing} \<union> set (failed s)"
  shows "scopes_ok s"
  unfolding scopes_ok_def assms(9) using assms(1-8) by fastforce

lemma scopes_ok_teardown:
  assumes "scopes_ok s"
  shows "scopes_ok (teardownScope s)"
proof (rule scopes_okI)
  show "fst ` set (scopes (teardownScope s)) = set_option (adopted (teardownScope s))
      \<union> {g. \<exists>at. (g, at) \<in> set (builds (teardownScope s)) \<and> at \<noteq> Importing} \<union> set (failed (teardownScope s))"
    using scopes_okD(4,5,9) [OF assms] by (auto simp: teardownScope_def fst_scopes_letGo)
qed (use scopes_okD(1,2,6-8) [OF assms] in \<open>auto simp: teardownScope_def distinct_scopes_letGo intro: le_SucI\<close>)

lemma scopes_ok_rebuild:
  assumes "scopes_ok s"
  shows "scopes_ok (rebuildScope s)"
proof (rule scopes_okI)
  show "fst ` set (scopes (rebuildScope s)) = set_option (adopted (rebuildScope s))
      \<union> {g. \<exists>at. (g, at) \<in> set (builds (rebuildScope s)) \<and> at \<noteq> Importing} \<union> set (failed (rebuildScope s))"
    using scopes_okD(4,5,9) [OF assms] by (auto simp: rebuildScope_def fst_scopes_letGo)
next
  show "distinct (map fst (builds (rebuildScope s)))"
    using scopes_okD(1,7) [OF assms] by (force simp: rebuildScope_def)
qed (use scopes_okD(1,2,6,8) [OF assms] in \<open>force simp: rebuildScope_def distinct_scopes_letGo intro: le_SucI\<close>)+

lemma calls_ok_teardown: "calls_ok s \<Longrightarrow> calls_ok (teardownScope s)"
  by (auto simp: calls_ok_def teardownScope_def awaited_def)

lemma calls_ok_rebuild: "calls_ok s \<Longrightarrow> calls_ok (rebuildScope s)"
  by (auto simp: calls_ok_def rebuildScope_def awaited_def)

lemma pipeline_ok_teardown:
  assumes "scopes_ok s" "changes_to s t" "pipeline_ok registry s"
  shows "pipeline_ok registry (teardownScope t)"
proof -
  have shape: "shape t = shape s" using assms(2) by (simp add: changes_to_def)
  have "g < Suc (generation s)" if "(g, at) \<in> set (builds s)" for g at
    using scopes_okD(1) [OF assms(1) that] by simp
  then show ?thesis
    using assms(2,3) by (fastforce simp: pipeline_ok_def teardownScope_def changes_to_def shape_fields [OF shape])
qed

lemma pipeline_ok_rebuild:
  assumes "scopes_ok s" "changes_to s t" "pipeline_ok registry s"
  shows "pipeline_ok registry (rebuildScope t)"
proof -
  have shape: "shape t = shape s" using assms(2) by (simp add: changes_to_def)
  have "g < Suc (generation s)" if "(g, at) \<in> set (builds s)" for g at
    using scopes_okD(1) [OF assms(1) that] by simp
  then show ?thesis
    using assms(2,3) by (fastforce simp: pipeline_ok_def rebuildScope_def changes_to_def shape_fields [OF shape])
qed

definition sub_ok :: "ServiceModule list \<Rightarrow> SubService \<Rightarrow> bool" where
  "sub_ok registry s = (scopes_ok s \<and> calls_ok s \<and> pipeline_ok registry s)"

lemma sub_ok_quiet: "quiet s t \<Longrightarrow> sub_ok registry s \<Longrightarrow> sub_ok registry t"
  using scopes_ok_shape calls_ok_shape pipeline_ok_quiet by (auto simp: sub_ok_def quiet_def)

lemma scopes_ok_outcomes [simp]: "scopes_ok (s\<lparr>outcomes := os\<rparr>) = scopes_ok s"
  by (simp add: scopes_ok_def)

lemma calls_ok_outcomes [simp]: "calls_ok (s\<lparr>outcomes := os\<rparr>) = calls_ok s"
  by (simp add: calls_ok_def awaited_def)

lemma pipeline_ok_outcomes [simp]: "pipeline_ok registry (s\<lparr>outcomes := os\<rparr>) = pipeline_ok registry s"
  by (simp add: pipeline_ok_def scopeOf_def)

lemma sub_ok_outcomes [simp]: "sub_ok registry (s\<lparr>outcomes := os\<rparr>) = sub_ok registry s"
  by (simp add: sub_ok_def)

lemma sub_ok_teardown:
  assumes "sub_ok registry s" "changes_to s t"
  shows "sub_ok registry (teardownScope t)"
  using assms scopes_ok_teardown [of t] calls_ok_teardown [of t] scopes_ok_shape [of t s] calls_ok_shape [of t s]
    pipeline_ok_teardown [of s t registry] by (simp add: sub_ok_def changes_to_def)

lemma sub_ok_rebuild:
  assumes "sub_ok registry s" "changes_to s t"
  shows "sub_ok registry (rebuildScope t)"
  using assms scopes_ok_rebuild [of t] calls_ok_rebuild [of t] scopes_ok_shape [of t s] calls_ok_shape [of t s]
    pipeline_ok_rebuild [of s t registry] by (simp add: sub_ok_def changes_to_def)

lemma sub_ok_configure:
  assumes "sub_ok registry s" "\<forall>i. fresh i \<noteq> []"
  shows "sub_ok registry (subConfigure fresh config s)"
proof -
  have "distinct (map fst (scopes s))"
    using assms(1) scopes_okD(8) by (simp add: sub_ok_def)
  then have "settles s (subConfigure fresh config s)"
    by (rule settles_configure [OF assms(2)])
  then show ?thesis
    using assms(1) sub_ok_quiet sub_ok_teardown sub_ok_rebuild
    by (auto simp: settles_def afterChange_def Let_def)
qed

section \<open>The steps of a build\<close>

lemma builds_unique: "scopes_ok s \<Longrightarrow> (g, at) \<in> set (builds s) \<Longrightarrow> (g, at') \<in> set (builds s) \<Longrightarrow> at = at'"
  by (metis eq_key_imp_eq_value scopes_okD(7))

lemma fst_putBuild [simp]: "map fst (builds (putBuild g at s)) = map fst (builds s)"
  by (auto simp: putBuild_def)

lemma putBuild_simps [simp]:
  "sub (putBuild g at s) = sub s" "adopted (putBuild g at s) = adopted s" "generation (putBuild g at s) = generation s"
  "building (putBuild g at s) = building s" "failed (putBuild g at s) = failed s" "scopes (putBuild g at s) = scopes s"
  "calls (putBuild g at s) = calls s" "scopeOf (putBuild g at s) k = scopeOf s k"
  by (simp_all add: putBuild_def scopeOf_def)

lemma fst_putScope [simp]: "map fst (scopes (putScope g scope s)) = map fst (scopes s)"
  by (auto simp: putScope_def)

lemma scopeOf_putScope: "g \<in> fst ` set (scopes s) \<Longrightarrow> scopeOf (putScope g scope s) k = (if k = g then scope else scopeOf s k)"
proof -
  have "map_of (map (\<lambda>(k, x). (k, if k = g then scope else x)) xs) k
      = (if k = g \<and> g \<in> fst ` set xs then Some scope else map_of xs k)" for xs :: "(nat \<times> LiveService list) list"
    by (induction xs) (auto, force)
  then show "g \<in> fst ` set (scopes s) \<Longrightarrow> ?thesis"
    by (simp add: scopeOf_def putScope_def)
qed

lemma mem_putBuild: "(k, x) \<in> set (builds (putBuild g at s)) \<longleftrightarrow> (\<exists>y. (k, y) \<in> set (builds s) \<and> x = (if k = g then at else y))"
  unfolding putBuild_def by (force simp: image_iff)

definition underway :: "SubService \<Rightarrow> nat set" where
  "underway s = {g. \<exists>at. (g, at) \<in> set (builds s) \<and> at \<noteq> Importing}"

lemma underway_put:
  assumes "g \<in> in_build s" "at \<noteq> Importing"
  shows "underway (putBuild g at s) = insert g (underway s)"
proof -
  have "k \<in> underway (putBuild g at s) \<longleftrightarrow> k = g \<or> k \<in> underway s" for k
    using assms by (cases "k = g") (auto simp: underway_def mem_putBuild)
  then show ?thesis by blast
qed

lemma underway_end: "underway (endBuild g s) = underway s - {g}"
  by (auto simp: underway_def endBuild_def)

lemma mem_end: "(k, x) \<in> set (builds (endBuild g s)) \<longleftrightarrow> (k, x) \<in> set (builds s) \<and> k \<noteq> g"
  by (auto simp: endBuild_def)

lemma endBuild_simps [simp]:
  "sub (endBuild g s) = sub s" "adopted (endBuild g s) = adopted s" "generation (endBuild g s) = generation s"
  "building (endBuild g s) = building s" "failed (endBuild g s) = failed s" "scopes (endBuild g s) = scopes s"
  "calls (endBuild g s) = calls s"
  by (simp_all add: endBuild_def)

lemma disposeScope_simps [simp]:
  "sub (disposeScope g s) = sub s" "adopted (disposeScope g s) = adopted s" "generation (disposeScope g s) = generation s"
  "building (disposeScope g s) = building s" "failed (disposeScope g s) = failed s" "builds (disposeScope g s) = builds s"
  "calls (disposeScope g s) = calls s" "fst ` set (scopes (disposeScope g s)) = fst ` set (scopes s) - {g}"
  by (auto simp: disposeScope_def)

lemma scopes_okD_underway: "scopes_ok s \<Longrightarrow> fst ` set (scopes s) = set_option (adopted s) \<union> underway s \<union> set (failed s)"
  by (simp add: scopes_okD(9) underway_def)

text \<open>The build goes on: it stays where it is among the builds, and its scope may have changed.\<close>

lemma scopes_ok_advance:
  assumes ok: "scopes_ok s" and g: "(g, at) \<in> set (builds s)" "at \<noteq> Importing" "at' \<noteq> Importing"
  shows "scopes_ok (putBuild g at' (putScope g scope s))"
proof (rule scopes_okI, fold underway_def)
  let ?s = "putBuild g at' (putScope g scope s)"
  have "g \<in> in_build (putScope g scope s)" "g \<in> underway s"
    using g by (force, auto simp: underway_def)
  then have "underway ?s = underway s"
    using underway_put [of g "putScope g scope s" at'] g(3) by (simp add: underway_def insert_absorb)
  moreover have "fst ` set (scopes ?s) = fst ` set (scopes s)"
    by (simp flip: set_map)
  ultimately show "fst ` set (scopes ?s) = set_option (adopted ?s) \<union> underway ?s \<union> set (failed ?s)"
    using scopes_okD_underway [OF ok] by simp
qed (use scopes_okD(1-8) [OF ok] in \<open>auto simp: mem_putBuild simp del: set_map\<close>)

lemma importing_unscoped:
  assumes ok: "scopes_ok s" and g: "(g, Importing) \<in> set (builds s)"
  shows "g \<notin> fst ` set (scopes s)"
proof -
  have "at = Importing" if "(g, at) \<in> set (builds s)" for at
    by (rule builds_unique [OF ok that g])
  then have "adopted s \<noteq> Some g" "g \<notin> set (failed s)" "g \<notin> underway s"
    using g scopes_okD(4,6) [OF ok] by (auto simp: underway_def)
  then show ?thesis
    using scopes_okD_underway [OF ok] by simp
qed

lemma scopes_ok_import:
  assumes ok: "scopes_ok s" and g: "(g, Importing) \<in> set (builds s)"
  shows "scopes_ok (putBuild g (Adding p) (s\<lparr>scopes := scopes s @ [(g, [])]\<rparr>))"
proof (rule scopes_okI, fold underway_def)
  let ?t = "s\<lparr>scopes := scopes s @ [(g, [])]\<rparr>"
  have fresh: "g \<notin> fst ` set (scopes s)"
    by (rule importing_unscoped [OF ok g])
  have "g \<in> in_build ?t" "underway ?t = underway s"
    using g by (force, simp add: underway_def)
  then have "underway (putBuild g (Adding p) ?t) = insert g (underway s)"
    using underway_put [of g ?t "Adding p"] by simp
  then show "fst ` set (scopes (putBuild g (Adding p) ?t)) = set_option (adopted (putBuild g (Adding p) ?t))
      \<union> underway (putBuild g (Adding p) ?t) \<union> set (failed (putBuild g (Adding p) ?t))"
    using scopes_okD_underway [OF ok] by simp
  show "distinct (map fst (scopes (putBuild g (Adding p) ?t)))"
    using scopes_okD(8) [OF ok] fresh by simp
qed (use scopes_okD(1-7) [OF ok] in \<open>auto simp: mem_putBuild simp del: set_map\<close>)

lemma scopes_ok_fail:
  assumes ok: "scopes_ok s" and g: "(g, at) \<in> set (builds s)" "at \<noteq> Importing"
  shows "scopes_ok (failBuild g s)"
proof (rule scopes_okI, fold underway_def)
  have "underway (failBuild g s) = underway s - {g}" "g \<in> underway s"
    using g underway_end [of g s] by (auto simp: underway_def failBuild_def)
  then show "fst ` set (scopes (failBuild g s)) = set_option (adopted (failBuild g s)) \<union> underway (failBuild g s) \<union> set (failed (failBuild g s))"
    using scopes_okD_underway [OF ok] by (auto simp: failBuild_def)
  show "distinct (map fst (builds (failBuild g s)))"
    using scopes_okD(7) [OF ok] by (simp add: failBuild_def endBuild_def distinct_map_filter)
qed (use scopes_okD(1-6,8) [OF ok] g in \<open>auto simp: failBuild_def mem_end\<close>)

lemma scopes_ok_adopt:
  assumes ok: "scopes_ok s" and g: "(g, at) \<in> set (builds s)" "at \<noteq> Importing"
  shows "scopes_ok (adopt g s)"
proof (rule scopes_okI, fold underway_def)
  have none: "adopted s = None" if "g = generation s"
    using that g scopes_okD(3,4) [OF ok] by (cases "adopted s") auto
  have "underway (adopt g s) = underway s - {g}" "g \<in> underway s"
    using g underway_end [of g s] by (auto simp: underway_def adopt_def)
  moreover have "adopted s \<noteq> Some g" "g \<notin> set (failed s)"
    using g scopes_okD(4,6) [OF ok] by auto
  ultimately show "fst ` set (scopes (adopt g s)) = set_option (adopted (adopt g s)) \<union> underway (adopt g s) \<union> set (failed (adopt g s))"
    using scopes_okD_underway [OF ok] none by (auto simp: adopt_def)
  show "distinct (map fst (builds (adopt g s)))" "distinct (map fst (scopes (adopt g s)))"
    using scopes_okD(7,8) [OF ok] by (simp_all add: adopt_def endBuild_def disposeScope_def distinct_map_filter)
  show "k \<notin> set (failed (adopt g s))" if "adopted (adopt g s) = Some k" for k
    using that scopes_okD(5,6) [OF ok] g by (auto simp: adopt_def split: if_splits)
qed (use scopes_okD(1-4,6) [OF ok] g in \<open>auto simp: adopt_def mem_end split: if_splits\<close>)

text \<open>The same steps keep what is awaited.\<close>

lemma calls_ok_keeps:
  assumes "calls_ok s" "generation t = generation s" "building t = building s" "calls t = calls s"
    and "\<And>g. awaited s g \<Longrightarrow> awaited t g"
  shows "calls_ok t"
  using assms by (auto simp: calls_ok_def)

lemma in_build_put [simp]: "in_build (putBuild g at s) = in_build s"
  by (simp flip: set_map)

lemma in_build_end: "in_build (endBuild g s) = in_build s - {g}"
  by (auto simp: endBuild_def)

lemma awaited_put [simp]: "awaited (putBuild g at s) k = awaited s k"
  by (simp add: awaited_def)

lemma awaited_putScope [simp]: "awaited (putScope g scope s) k = awaited s k"
  by (simp add: awaited_def)

lemma awaited_fail: "awaited s k \<Longrightarrow> awaited (failBuild g s) k"
  by (auto simp: awaited_def failBuild_def in_build_end)

lemma awaited_adopt: "scopes_ok s \<Longrightarrow> g \<in> in_build s \<Longrightarrow> awaited s k \<Longrightarrow> awaited (adopt g s) k"
  using scopes_okD(3,4) by (fastforce simp: awaited_def adopt_def in_build_end)

text \<open>What a build has yet to add, where its pipeline is the present one.\<close>

definition to_add :: "build_at \<Rightarrow> obj list option" where
  "to_add at = (case at of Importing \<Rightarrow> None | Adding es \<Rightarrow> Some es | Configuring _ _ es \<Rightarrow> Some es)"

lemma pipeline_ok_alt:
  "pipeline_ok registry s =
     (identified (pipeline (sub s))
      \<and> (\<forall>g. adopted s = Some g \<longrightarrow> live_uuids (scopeOf s g) = runs_of registry (pipeline (sub s)))
      \<and> (\<forall>g at es. (g, at) \<in> set (builds s) \<longrightarrow> to_add at = Some es \<longrightarrow>
           identified es \<and> (g = generation s \<longrightarrow> live_uuids (scopeOf s g) @ runs_of registry es = runs_of registry (pipeline (sub s)))))"
proof -
  have "(at = Adding es \<or> (\<exists>u c. at = Configuring u c es)) \<longleftrightarrow> to_add at = Some es" for at es
    by (cases at) (auto simp: to_add_def)
  then show ?thesis unfolding pipeline_ok_def by auto
qed

lemma pipeline_ok_advance:
  assumes "pipeline_ok registry s" "scopes_ok s" "(g, at) \<in> set (builds s)" "at \<noteq> Importing"
    and next_step: "\<And>es. to_add at = Some es \<Longrightarrow> identified es \<Longrightarrow>
      \<exists>es'. to_add at' = Some es' \<and> identified es' \<and> live_uuids scope @ runs_of registry es' = live_uuids (scopeOf s g) @ runs_of registry es"
  shows "pipeline_ok registry (putBuild g at' (putScope g scope s))"
proof -
  have mem: "g \<in> fst ` set (scopes s)"
    using assms(2-4) scopes_okD_underway [OF assms(2)] by (auto simp: underway_def)
  obtain es where es: "to_add at = Some es"
    using assms(4) by (cases at) (auto simp: to_add_def)
  have now: "identified es" "g = generation s \<longrightarrow> live_uuids (scopeOf s g) @ runs_of registry es = runs_of registry (pipeline (sub s))"
    using assms(1,3) es by (auto simp: pipeline_ok_alt)
  obtain es' where es': "to_add at' = Some es'" "identified es'"
      "live_uuids scope @ runs_of registry es' = live_uuids (scopeOf s g) @ runs_of registry es"
    using next_step [OF es now(1)] by blast
  have "adopted s \<noteq> Some g"
    using assms(3) scopes_okD(4) [OF assms(2)] by auto
  then show ?thesis
    using assms(1) es' now(2) by (auto simp: pipeline_ok_alt mem_putBuild scopeOf_putScope [OF mem] split: if_splits)
qed

lemma pipeline_ok_import:
  assumes "pipeline_ok registry s" "scopes_ok s" "(g, Importing) \<in> set (builds s)"
  shows "pipeline_ok registry (putBuild g (Adding (pipeline (sub s))) (s\<lparr>scopes := scopes s @ [(g, [])]\<rparr>))"
proof -
  have fresh: "g \<notin> fst ` set (scopes s)"
    by (rule importing_unscoped [OF assms(2,3)])
  then have "adopted s \<noteq> Some g"
    using scopes_okD_underway [OF assms(2)] by auto
  have "scopeOf (s\<lparr>scopes := scopes s @ [(g, [])]\<rparr>) k = (if k = g then [] else scopeOf s k)" for k
    using fresh map_of_eq_None_iff [of "scopes s" g] by (auto simp: scopeOf_def map_add_def split: option.splits)
  then show ?thesis
    using assms(1) \<open>adopted s \<noteq> Some g\<close> by (auto simp: pipeline_ok_alt mem_putBuild to_add_def split: if_splits)
qed

lemma pipeline_ok_end: "pipeline_ok registry s \<Longrightarrow> pipeline_ok registry (endBuild g s)"
  by (auto simp: pipeline_ok_alt mem_end scopeOf_def)

lemma pipeline_ok_fail: "pipeline_ok registry s \<Longrightarrow> pipeline_ok registry (failBuild g s)"
  by (auto simp: failBuild_def pipeline_ok_alt mem_end scopeOf_def)

lemma pipeline_ok_adopt:
  assumes "pipeline_ok registry s" "scopes_ok s" "(g, Adding []) \<in> set (builds s)"
  shows "pipeline_ok registry (adopt g s)"
proof (cases "g = generation s")
  case True
  have "live_uuids (scopeOf s g) = runs_of registry (pipeline (sub s))"
    using assms(1,3) True by (force simp: pipeline_ok_alt to_add_def runs_of_def)
  then show ?thesis
    using assms(1) True by (auto simp: adopt_def pipeline_ok_alt mem_end scopeOf_def)
next
  case False
  have "scopeOf (disposeScope g s) k = scopeOf s k" if "k \<noteq> g" for k
  proof -
    have "map_of (filter (\<lambda>(k, _). k \<noteq> g) xs) k = map_of xs k" for xs :: "(nat \<times> LiveService list) list"
      using that by (induction xs) auto
    then show ?thesis by (simp add: scopeOf_def disposeScope_def)
  qed
  moreover have "adopted s \<noteq> Some g"
    using assms(3) scopes_okD(4) [OF assms(2)] by auto
  ultimately show ?thesis
    using assms(1) False by (auto simp: adopt_def pipeline_ok_alt mem_end scopeOf_def disposeScope_def endBuild_def)
qed

lemma addService_uuids:
  assumes "addService registry fresh service u scope = (scope', Inr made)" "truthy u"
  shows "live_uuids scope' = live_uuids scope @ (if makes registry (oget service ''serviceId'') then [u] else [])
    \<and> (made = None \<longleftrightarrow> \<not> makes registry (oget service ''serviceId''))"
  using assms by (auto simp: addService_def createService_def makes_def js_or_def split: option.splits)

lemma runs_of_Cons: "runs_of registry (e # es) = (if makes registry (oget e ''serviceId'') then [entryInstanceId e] else []) @ runs_of registry es"
  by (simp add: runs_of_def)

lemma putScope_self: "distinct (map fst (scopes s)) \<Longrightarrow> putScope g (scopeOf s g) s = s"
proof -
  assume "distinct (map fst (scopes s))"
  then have "map (\<lambda>(k, x). (k, if k = g then scopeOf s g else x)) (scopes s) = scopes s"
    by (auto intro!: map_idI simp: scopeOf_def)
  then show ?thesis by (simp add: putScope_def)
qed

lemma sub_ok_step_of_build:
  assumes ok: "sub_ok registry s" and g: "(g, at) \<in> set (builds s)" "at \<noteq> Importing" "at' \<noteq> Importing"
    and "\<And>es. to_add at = Some es \<Longrightarrow> identified es \<Longrightarrow>
      \<exists>es'. to_add at' = Some es' \<and> identified es' \<and> live_uuids scope @ runs_of registry es' = live_uuids (scopeOf s g) @ runs_of registry es"
  shows "sub_ok registry (putBuild g at' (putScope g scope s))"
  using assms scopes_ok_advance [OF _ g] pipeline_ok_advance [OF _ _ g(1,2)] calls_ok_keeps [of s "putBuild g at' (putScope g scope s)"]
  by (simp add: sub_ok_def)

lemma sub_ok_failBuild:
  assumes "sub_ok registry s" "(g, at) \<in> set (builds s)" "at \<noteq> Importing"
  shows "sub_ok registry (failBuild g s)"
  using assms scopes_ok_fail [OF _ assms(2,3)] pipeline_ok_fail calls_ok_keeps [of s "failBuild g s"] awaited_fail
  by (simp add: sub_ok_def) (simp add: failBuild_def)

lemma sub_ok_putScope:
  assumes "sub_ok registry s" "live_uuids scope = live_uuids (scopeOf s g)"
  shows "sub_ok registry (putScope g scope s)"
proof (rule sub_ok_quiet)
  have "distinct (map fst (scopes s))"
    using assms(1) scopes_okD(8) by (simp add: sub_ok_def)
  then show "quiet s (putScope g scope s)"
    using shape_putScope assms(2) by (simp add: quiet_def)
qed (rule assms(1))

lemma sub_ok_build:
  assumes ok: "sub_ok registry s" and "g \<in> in_build s"
  shows "sub_ok registry (buildStep registry fresh g s)"
proof -
  have scopes_ok: "scopes_ok s" and pipeline_ok: "pipeline_ok registry s" and calls_ok: "calls_ok s"
    using ok by (simp_all add: sub_ok_def)
  have distinct: "distinct (map fst (scopes s))" by (rule scopes_okD(8) [OF scopes_ok])
  obtain at where at: "map_of (builds s) g = Some at" "(g, at) \<in> set (builds s)"
    using assms(2) map_of_is_SomeI [OF scopes_okD(7) [OF scopes_ok]] by force
  show ?thesis
  proof (cases at)
    case Importing
    let ?s = "putBuild g (Adding (pipeline (sub s))) (s\<lparr>scopes := scopes s @ [(g, [])]\<rparr>)"
    have "calls_ok ?s"
      by (rule calls_ok_keeps [OF calls_ok]) (simp_all add: awaited_def)
    then show ?thesis
      using at Importing scopes_ok_import [OF scopes_ok] pipeline_ok_import [OF pipeline_ok scopes_ok]
      by (simp add: buildStep_def sub_ok_def)
  next
    case (Adding es)
    show ?thesis
    proof (cases es)
      case Nil
      have "calls_ok (adopt g s)"
        by (rule calls_ok_keeps [OF calls_ok]) (simp_all add: adopt_def awaited_adopt [OF scopes_ok assms(2), unfolded adopt_def])
      then show ?thesis
        using at Adding Nil scopes_ok_adopt [OF scopes_ok at(2)] pipeline_ok_adopt [OF pipeline_ok scopes_ok]
        by (simp add: buildStep_def sub_ok_def)
    next
      case (Cons e rest)
      let ?service = "[(''serviceId'', oget e ''serviceId''), (''serviceName'', or_else (oget e ''serviceName'') (oget e ''serviceId''))]"
      obtain scope made where add: "addService registry fresh ?service (entryInstanceId e) (scopeOf s g) = (scope, made)" by fastforce
      have "identified es"
        using pipeline_ok at(2) Adding by (auto simp: pipeline_ok_alt to_add_def)
      then have e: "truthy (entryInstanceId e)" "identified rest" by (simp_all add: Cons identified_def)
      show ?thesis
      proof (cases made)
        case (Inl err)
        then show ?thesis
          using at Adding Cons add sub_ok_failBuild [OF ok at(2)] by (simp add: buildStep_def)
      next
        case (Inr m)
        have uuids: "live_uuids scope = live_uuids (scopeOf s g) @ (if makes registry (oget e ''serviceId'') then [entryInstanceId e] else [])"
            "m = None \<longleftrightarrow> \<not> makes registry (oget e ''serviceId'')"
          using addService_uuids [OF add [unfolded Inr] e(1)] by simp_all
        have step: "sub_ok registry (putBuild g at' (putScope g scope s))" if "to_add at' = Some rest" for at'
          by (rule sub_ok_step_of_build [OF ok at(2)])
            (use that uuids(1) e(2) in \<open>auto simp: Adding Cons to_add_def runs_of_Cons\<close>)
        show ?thesis
        proof (cases m)
          case None
          then have "sub_ok registry (putBuild g (Adding rest) (putScope g (scopeOf s g) s))"
            using uuids(2) e(2) by (intro sub_ok_step_of_build [OF ok at(2)])
              (auto simp: Adding Cons to_add_def runs_of_Cons)
          then show ?thesis
            using at Adding Cons add Inr None by (simp add: buildStep_def putScope_self [OF distinct])
        next
          case (Some u)
          then show ?thesis
            using at Adding Cons add Inr step [of "Adding rest"] step [of "Configuring u (oget e ''state'') rest"]
            by (simp add: buildStep_def to_add_def)
        qed
      qed
    qed
  next
    case (Configuring u config es)
    obtain scope threw where conf: "configureService u config (scopeOf s g) = (scope, threw)" by fastforce
    have same: "live_uuids scope = live_uuids (scopeOf s g)"
      using live_uuids_configureService [of u config "scopeOf s g"] by (simp add: conf)
    have "sub_ok registry (failBuild g (putScope g scope s))"
      using sub_ok_failBuild [OF sub_ok_putScope [OF ok same], of g at] at(2) Configuring by simp
    moreover have "sub_ok registry (putBuild g (Adding es) (putScope g scope s))"
      by (rule sub_ok_step_of_build [OF ok at(2)]) (use same in \<open>auto simp: Configuring to_add_def\<close>)
    ultimately show ?thesis
      using at Configuring conf by (simp add: buildStep_def Let_def)
  qed
qed

section \<open>Every reachable state\<close>

lemma calls_ok_calls:
  assumes "calls_ok s" "set cs \<subseteq> set (calls s) \<union> {(input, building s)}"
  shows "calls_ok (s\<lparr>calls := cs\<rparr>)"
proof -
  have awaited: "awaited (s\<lparr>calls := cs\<rparr>) g = awaited s g" for g
    by (simp add: awaited_def)
  have building: "awaited s g" if "building s = Some g" for g
    using assms(1) that unfolding calls_ok_def by blast
  have "awaited s g" if "(i, Some g) \<in> set cs" for i g
  proof (cases "(i, Some g) \<in> set (calls s)")
    case True
    then show ?thesis using assms(1) by (auto simp: calls_ok_def)
  next
    case False
    then show ?thesis using that assms(2) building by auto
  qed
  then show ?thesis
    using assms(1) by (auto simp: calls_ok_def awaited)
qed

lemma sub_ok_same:
  assumes "sub_ok registry s" "shape t = shape s" "members (pipeline (sub t)) = members (pipeline (sub s))"
    and "set (calls t) \<subseteq> set (calls s) \<union> {(input, building s)}"
  shows "sub_ok registry t"
proof -
  have "shape (s\<lparr>calls := calls t\<rparr>) = shape s"
    by (simp add: shape_def)
  then have quiet: "quiet (s\<lparr>calls := calls t\<rparr>) t"
    by (simp add: quiet_def assms(2,3))
  have "calls_ok (s\<lparr>calls := calls t\<rparr>)"
    using calls_ok_calls [OF _ assms(4)] assms(1) by (simp add: sub_ok_def)
  moreover have "scopes_ok (s\<lparr>calls := calls t\<rparr>)" "pipeline_ok registry (s\<lparr>calls := calls t\<rparr>)"
    using assms(1) by (simp_all add: sub_ok_def scopes_ok_def pipeline_ok_def scopeOf_def)
  ultimately show ?thesis
    using sub_ok_quiet [OF quiet] by (simp add: sub_ok_def)
qed

lemma sub_ok_new: "sub_ok registry newSubService"
  by (simp add: sub_ok_def scopes_ok_def calls_ok_def pipeline_ok_def newSubService_def newSubState_def identified_def)

lemma sub_ok_step: "sub_step registry s t \<Longrightarrow> sub_ok registry s \<Longrightarrow> sub_ok registry t"
proof (induction rule: sub_step.induct)
  case (configured fresh s config)
  then show ?case by (simp add: sub_ok_configure)
next
  case (built g s fresh)
  then show ?case by (simp add: sub_ok_build)
next
  case (read u s state)
  show ?case by (rule sub_ok_same [OF read(2), where input = JUndef]) (auto simp: readBack_def shape_def)
next
  case (reached s g u config)
  then show ?case by (simp add: sub_ok_putScope live_uuids_configureService)
next
  case (called s input)
  show ?case
    by (rule sub_ok_same [OF called, of _ input])
      (auto simp: subProcess_def enterScope_def shape_def split: option.splits)
next
  case (resumed c s)
  show ?case
    by (rule sub_ok_same [OF resumed(3), where input = JUndef])
      (use set_remove1_subset [of c "calls s"] in
        \<open>auto simp: resumeCall_def Let_def enterScope_def shape_def split: option.splits\<close>)
next
  case (destroyed s)
  then show ?case by (simp add: sub_ok_teardown changes_to_def)
qed

lemma sub_reachable_ok: "sub_reachable registry s \<Longrightarrow> sub_ok registry s"
  by (induction rule: rtranclp_induct) (auto intro: sub_ok_new sub_ok_step)

section \<open>Examples\<close>

text \<open>The registry of one class again, and the executions the claims below run.\<close>

definition oneEntry :: "string \<Rightarrow> string \<Rightarrow> jsval" where
  "oneEntry u value = JObj [(''serviceId'', JStr ''hold''), (''instanceId'', JStr u), (''state'', JObj [(''property'', JStr value)])]"

abbreviation givePipeline :: "jsval list \<Rightarrow> SubService \<Rightarrow> SubService" where
  "givePipeline entries s \<equiv> subConfigure (\<lambda>_. ''new'') [(''pipeline'', JArr entries)] s"

abbreviation buildSteps :: "nat \<Rightarrow> nat \<Rightarrow> SubService \<Rightarrow> SubService" where
  "buildSteps n g s \<equiv> (buildStep [keepsModule] ''new'' g ^^ n) s"

lemma reach_built: "sub_reachable registry s \<Longrightarrow> g \<in> in_build s \<Longrightarrow> sub_reachable registry (buildStep registry fresh g s)"
  by (rule rtranclp.rtrancl_into_rtrancl, assumption) (rule sub_step.built, simp)

lemma reach_given: "sub_reachable registry s \<Longrightarrow> sub_reachable registry (givePipeline entries s)"
  by (auto intro: rtranclp.rtrancl_into_rtrancl sub_step.configured)

lemma reach_called: "sub_reachable registry s \<Longrightarrow> sub_reachable registry (subProcess input s)"
  by (auto intro: rtranclp.rtrancl_into_rtrancl sub_step.called)

lemma reach_resumed: "sub_reachable registry s \<Longrightarrow> c \<in> set (calls s) \<Longrightarrow> buildSettled s (snd c) \<Longrightarrow> sub_reachable registry (resumeCall c s)"
  by (auto intro: rtranclp.rtrancl_into_rtrancl sub_step.resumed)


abbreviation runningExample :: SubService where
  "runningExample \<equiv> buildSteps 4 1 (givePipeline [oneEntry ''a'' ''x''] newSubService)"

lemma reach_runningExample: "sub_reachable [keepsModule] runningExample"
proof -
  let ?s = "\<lambda>n. buildSteps n 1 (givePipeline [oneEntry ''a'' ''x''] newSubService)"
  have "1 \<in> in_build (?s 0) \<and> 1 \<in> in_build (?s 1) \<and> 1 \<in> in_build (?s 2) \<and> 1 \<in> in_build (?s 3)" by code_simp
  then show ?thesis
    by (simp add: eval_nat_numeral reach_built reach_given)
qed

section \<open>Claims\<close>

text \<open>
  C9.  Of all the scopes it ever built, the service has left running the one it uses, which is of the
  latest pipeline, those still being built, and those whose build threw; and once it is destroyed and
  nothing is being built, only the last.
\<close>

theorem subservice_scopes:
  assumes "sub_reachable registry s"
  shows "fst ` set (scopes s) = set_option (adopted s) \<union> underway s \<union> set (failed s)
    \<and> set_option (adopted s) \<subseteq> {generation s}
    \<and> (builds s = [] \<longrightarrow> fst ` set (scopes (teardownScope s)) = set (failed s))"
proof -
  have ok: "scopes_ok s" using sub_reachable_ok [OF assms] by (simp add: sub_ok_def)
  have "fst ` set (scopes (teardownScope s)) = set (failed s)" if "builds s = []"
    using that scopes_okD_underway [OF scopes_ok_teardown [OF ok]]
    by (simp add: underway_def teardownScope_def)
  then show ?thesis
    using scopes_okD_underway [OF ok] scopes_okD(3) [OF ok] by auto
qed

theorem subservice_scopes_witness:
  "fst ` set (scopes runningExample) = {1} \<and> fst ` set (scopes (teardownScope runningExample)) = {}"
proof -
  have "builds runningExample = [] \<and> failed runningExample = [] \<and> adopted runningExample = Some 1" by code_simp
  then show ?thesis
    using subservice_scopes [OF reach_runningExample] by (simp add: underway_def)
qed

text \<open>
  C8.  However the pipeline was edited, renamed and configured meanwhile, the scope in use has one live
  service, in order, for every entry of the pipeline as it is now whose class the registry has.
\<close>

theorem subservice_runs_pipeline:
  assumes "sub_reachable registry s" "adopted s = Some g"
  shows "live_uuids (scopeOf s g) = runs_of registry (pipeline (sub s))"
  using sub_reachable_ok [OF assms(1)] assms(2) by (simp add: sub_ok_def pipeline_ok_def)

theorem subservice_runs_pipeline_witness:
  "live_uuids (scopeOf runningExample 1) = [JStr ''a'']"
proof -
  have "adopted runningExample = Some 1 \<and> runs_of [keepsModule] (pipeline (sub runningExample)) = [JStr ''a'']" by code_simp
  then show ?thesis
    using subservice_runs_pipeline [OF reach_runningExample, of 1] by simp
qed

text \<open>
  C10.  A call that came while the pipeline was being built goes through that pipeline once the build has
  ended, unless the build threw, the pipeline was replaced again, or the service was destroyed.
\<close>

theorem subservice_call_served:
  assumes "sub_reachable registry s" "(input, Some (generation s)) \<in> set (calls s)" "buildSettled s (Some (generation s))"
    and "generation s \<notin> set (failed s)"
  shows "outcomes (resumeCall (input, Some (generation s)) s) = Through (generation s) input # outcomes s"
proof -
  have "calls_ok s" using sub_reachable_ok [OF assms(1)] by (simp add: sub_ok_def)
  then have "awaited s (generation s)"
    using assms(2) by (auto simp: calls_ok_def)
  then have "adopted s = Some (generation s)"
    using assms(3,4) by (auto simp: awaited_def buildSettled_def)
  then show ?thesis
    using assms(4) by (simp add: resumeCall_def enterScope_def)
qed

theorem subservice_call_served_witness:
  "outcomes (resumeCall (JStr ''q'', Some 1)
      (buildSteps 4 1 (subProcess (JStr ''q'') (givePipeline [oneEntry ''a'' ''x''] newSubService))))
    = [Through 1 (JStr ''q'')]"
proof -
  let ?s = "\<lambda>n. buildSteps n 1 (subProcess (JStr ''q'') (givePipeline [oneEntry ''a'' ''x''] newSubService))"
  have "1 \<in> in_build (?s 0) \<and> 1 \<in> in_build (?s 1) \<and> 1 \<in> in_build (?s 2) \<and> 1 \<in> in_build (?s 3)" by code_simp
  then have "sub_reachable [keepsModule] (?s 4)"
    by (simp add: eval_nat_numeral reach_built reach_given reach_called)
  moreover have "generation (?s 4) = 1 \<and> calls (?s 4) = [(JStr ''q'', Some 1)] \<and> failed (?s 4) = [] \<and> outcomes (?s 4) = []
      \<and> buildSettled (?s 4) (Some 1)"
    by code_simp
  ultimately show ?thesis
    using subservice_call_served [of "[keepsModule]" "?s 4" "JStr ''q''"] by simp
qed

abbreviation overtakenExample :: SubService where
  "overtakenExample \<equiv>
     resumeCall (JStr ''q'', Some 1)
       (buildSteps 4 1 (givePipeline [oneEntry ''b'' ''y''] (subProcess (JStr ''q'') (givePipeline [oneEntry ''a'' ''x''] newSubService))))"

text \<open>
   Where the pipeline is replaced while a call waits for it, the call does not wait for the new one: its
  value leaves the service unprocessed, although a pipeline is configured and being built.
\<close>

theorem subservice_call_overtaken:
  "sub_reachable [keepsModule] overtakenExample
   \<and> outcomes overtakenExample = [PassedOn (JStr ''q'')]
   \<and> mode (sub overtakenExample) = JStr ''pipeline'' \<and> pipeline (sub overtakenExample) \<noteq> [] \<and> builds overtakenExample \<noteq> []"
proof -
  let ?s = "\<lambda>n. buildSteps n 1 (givePipeline [oneEntry ''b'' ''y''] (subProcess (JStr ''q'') (givePipeline [oneEntry ''a'' ''x''] newSubService)))"
  have "1 \<in> in_build (?s 0) \<and> 1 \<in> in_build (?s 1) \<and> 1 \<in> in_build (?s 2) \<and> 1 \<in> in_build (?s 3)" by code_simp
  then have "sub_reachable [keepsModule] (?s 4)"
    by (simp add: eval_nat_numeral reach_built reach_given reach_called)
  moreover have "(JStr ''q'', Some 1) \<in> set (calls (?s 4)) \<and> buildSettled (?s 4) (Some 1)" by code_simp
  ultimately have "sub_reachable [keepsModule] overtakenExample"
    by (auto intro: reach_resumed)
  moreover have "outcomes overtakenExample = [PassedOn (JStr ''q'')] \<and> mode (sub overtakenExample) = JStr ''pipeline''
      \<and> pipeline (sub overtakenExample) \<noteq> [] \<and> builds overtakenExample \<noteq> []"
    by code_simp
  ultimately show ?thesis by simp
qed

abbreviation configuredEarlyExample :: SubService where
  "configuredEarlyExample \<equiv>
     buildSteps 3 1
       (subConfigure (\<lambda>_. ''new'')
          [(''configureService'', JObj [(''instanceId'', JStr ''a''), (''state'', JObj [(''property'', JStr ''y'')])])]
          (buildSteps 1 1 (givePipeline [oneEntry ''a'' ''x''] newSubService)))"

text \<open>
   A configuration that reaches an entry while its service is being built is written into the pipeline
  and does not reach the service: what the scope runs then differs from what is saved.
\<close>

theorem subservice_configured_while_building:
  "sub_reachable [keepsModule] configuredEarlyExample
   \<and> map (\<lambda>e. oget e ''state'') (pipeline (sub configuredEarlyExample)) = [JObj [(''property'', JStr ''y'')]]
   \<and> adopted configuredEarlyExample = Some 1
   \<and> map liveState (scopeOf configuredEarlyExample 1) = [[(''property'', JStr ''x'')]]"
proof -
  let ?given = "givePipeline [oneEntry ''a'' ''x''] newSubService"
  let ?s = "\<lambda>n. buildSteps n 1
      (subConfigure (\<lambda>_. ''new'')
          [(''configureService'', JObj [(''instanceId'', JStr ''a''), (''state'', JObj [(''property'', JStr ''y'')])])]
          (buildSteps 1 1 ?given))"
  have "1 \<in> in_build ?given \<and> 1 \<in> in_build (?s 0) \<and> 1 \<in> in_build (?s 1) \<and> 1 \<in> in_build (?s 2)" by code_simp
  moreover from this have "sub_reachable [keepsModule] (buildSteps 1 1 ?given)"
    by (simp add: reach_built reach_given)
  then have "sub_reachable [keepsModule] (?s 0)"
    by (auto intro: rtranclp.rtrancl_into_rtrancl sub_step.configured)
  ultimately have "sub_reachable [keepsModule] (?s 3)"
    by (simp add: eval_nat_numeral reach_built)
  moreover have "map (\<lambda>e. oget e ''state'') (pipeline (sub (?s 3))) = [JObj [(''property'', JStr ''y'')]]
      \<and> adopted (?s 3) = Some 1 \<and> map liveState (scopeOf (?s 3) 1) = [[(''property'', JStr ''x'')]]"
    by code_simp
  ultimately show ?thesis by simp
qed

end
