(* ===== verification/JsNumber.thy ===== *)
theory JsNumber
  imports JsValue
begin

text \<open>
  Numbers of documents used as counts: \<^verbatim>\<open>Number.isInteger\<close>, \<^verbatim>\<open>Math.floor\<close>, and the number an array length
  or an index is written as.
\<close>

definition int_value :: "jsnum \<Rightarrow> int option" where
  "int_value n = (case n of NegZero \<Rightarrow> Some 0 | Dec m e \<Rightarrow> if 0 \<le> e then Some (m * 10 ^ nat e) else None)"

definition floor_value :: "jsnum \<Rightarrow> int" where
  "floor_value n = (case n of NegZero \<Rightarrow> 0 | Dec m e \<Rightarrow> if 0 \<le> e then m * 10 ^ nat e else m div 10 ^ nat (- e))"

definition positive :: "jsnum \<Rightarrow> bool" where
  "positive n = (case n of NegZero \<Rightarrow> False | Dec m e \<Rightarrow> 0 < m)"

text \<open>The decimal of an integer: trailing zeros go to the exponent.\<close>

function shortest :: "int \<Rightarrow> int \<Rightarrow> jsnum" where
  "shortest m e = (if m \<noteq> 0 \<and> m mod 10 = 0 then shortest (m div 10) (e + 1) else Dec m e)"
  by pat_completeness auto
termination
  by (relation "measure (\<lambda>(m, _). nat \<bar>m\<bar>)") auto

declare shortest.simps [simp del]

definition int_num :: "int \<Rightarrow> jsnum" where
  "int_num i = (if i = 0 then Dec 0 0 else shortest i 0)"

abbreviation JNat :: "nat \<Rightarrow> jsval" where
  "JNat n \<equiv> JNum (int_num (int n))"

lemma int_value_shortest: "0 \<le> e \<Longrightarrow> int_value (shortest m e) = Some (m * 10 ^ nat e)"
proof (induction m e rule: shortest.induct)
  case (1 m e)
  show ?case
  proof (cases "m \<noteq> 0 \<and> m mod 10 = 0")
    case True
    then have "int_value (shortest m e) = Some (m div 10 * 10 ^ nat (e + 1))"
      using 1 by (simp add: shortest.simps [of m e])
    moreover have "m = m div 10 * 10"
      using True by presburger
    moreover have "nat (e + 1) = Suc (nat e)"
      using "1.prems" by simp
    ultimately show ?thesis
      by (metis mult.assoc power_Suc)
  next
    case False
    then have "shortest m e = Dec m e"
      by (metis shortest.simps)
    then show ?thesis
      using "1.prems" by (simp add: int_value_def)
  qed
qed

lemma int_value_int_num [simp]: "int_value (int_num i) = Some i"
  by (simp add: int_num_def int_value_shortest) (simp add: int_value_def)

lemma int_num_eq [simp]: "int_num i = int_num j \<longleftrightarrow> i = j"
  by (metis int_value_int_num option.inject)

lemma floor_value_int: "int_value n = Some i \<Longrightarrow> floor_value n = i"
  by (auto simp: int_value_def floor_value_def split: jsnum.splits if_splits)

lemma positive_floor: "positive n \<Longrightarrow> 0 \<le> floor_value n"
  by (auto simp: positive_def floor_value_def split: jsnum.splits intro: mult_nonneg_nonneg pos_imp_zdiv_nonneg_iff [THEN iffD2])

end
