(* ===== verification/SpreadGather.thy ===== *)
theory SpreadGather
  imports SubService JsNumber "HOL-Library.AList" "HOL-Library.Multiset"
begin

text \<open>
  One value as many, and many as one: the services Spread, Gather and Iterator
  (\<^verbatim>\<open>runtime/browser/services/Spread.ts\<close>, \<^verbatim>\<open>BrowserGather.ts\<close>, \<^verbatim>\<open>BrowserIterator.ts\<close>).  Times are
  milliseconds and given to each call; a UUID is an argument of the call that draws it.  The values are documents:
  bytes, which the code counts by their length, and functions, which a path into a value may lead to
  through what every object inherits, are outside the model.
\<close>

section \<open>A value at a path\<close>

definition element :: "jsval list \<Rightarrow> string \<Rightarrow> jsval" where
  "element xs k =
     (if k = ''length'' then JNat (length xs)
      else case index_key k of None \<Rightarrow> JUndef | Some i \<Rightarrow> if i < length xs then xs ! i else JUndef)"

fun value_steps :: "string list \<Rightarrow> jsval \<Rightarrow> jsval" where
  "value_steps [] v = v"
| "value_steps (step # steps) v =
     (case v of
        JObj es \<Rightarrow> value_steps steps (oget es step)
      | JArr xs \<Rightarrow> value_steps steps (element xs step)
      | _ \<Rightarrow> JUndef)"

definition valueAt :: "jsval \<Rightarrow> string \<Rightarrow> jsval" where
  "valueAt input path = value_steps (split_on CHR ''.'' path) input"

text \<open>What is taken one by one: nothing of an absent value, the elements of an array, a single value as itself.\<close>

definition itemsAt :: "string \<Rightarrow> jsval \<Rightarrow> jsval list" where
  "itemsAt itemsFrom input =
     (case (if itemsFrom \<noteq> [] then valueAt input itemsFrom else input) of
        JUndef \<Rightarrow> [] | JNull \<Rightarrow> [] | JArr xs \<Rightarrow> xs | v \<Rightarrow> [v])"

section \<open>Spread\<close>

record SpreadState =
  itemsFrom :: string

definition spreadConfigure :: "obj \<Rightarrow> SpreadState \<Rightarrow> SpreadState" where
  "spreadConfigure config st = (case oget config ''itemsFrom'' of JStr p \<Rightarrow> st\<lparr>itemsFrom := p\<rparr> | _ \<Rightarrow> st)"

definition partOf :: "string \<Rightarrow> nat \<Rightarrow> nat \<Rightarrow> jsval \<Rightarrow> jsval" where
  "partOf name n index item =
     JObj [(''item'', item), (''group'', JStr name), (''index'', JNat index), (''total'', JNat n)]"

text \<open>What \<^verbatim>\<open>process\<close> hands on, in order, before it answers null.\<close>

definition spreadProcess :: "string \<Rightarrow> SpreadState \<Rightarrow> jsval \<Rightarrow> jsval list" where
  "spreadProcess name st input =
     (let items = itemsAt (itemsFrom st) input
      in map (\<lambda>(index, item). partOf name (length items) index item) (enumerate 0 items))"

section \<open>Iterator\<close>

record Iteration =
  iterFrom :: string
  limit :: int

definition iteratorConfigure :: "obj \<Rightarrow> Iteration \<Rightarrow> Iteration" where
  "iteratorConfigure config st =
     (let st = (case oget config ''itemsFrom'' of JStr p \<Rightarrow> st\<lparr>iterFrom := p\<rparr> | _ \<Rightarrow> st)
      in case oget config ''limit'' of
           JNum n \<Rightarrow> if positive n \<or> int_value n = Some 0 then st\<lparr>limit := floor_value n\<rparr> else st
         | _ \<Rightarrow> st)"

definition iteratorItems :: "Iteration \<Rightarrow> jsval \<Rightarrow> jsval list" where
  "iteratorItems st input =
     (let list = itemsAt (iterFrom st) input in if 0 < limit st then take (nat (limit st)) list else list)"

text \<open>
  The passes, one after the other: \<open>next s item\<close> is what a pass of the nested pipeline makes of an item and
  of everything around it, \<^const>\<open>Inl\<close> where it threw.
\<close>

fun iterate :: "('s \<Rightarrow> jsval \<Rightarrow> 's \<times> (string + jsval)) \<Rightarrow> 's \<Rightarrow> jsval list \<Rightarrow> 's \<times> jsval list \<times> nat" where
  "iterate next s [] = (s, [], 0)"
| "iterate next s (item # items) =
     (let (s1, answer) = next s item; (s2, results, lost) = iterate next s1 items
      in case answer of
           Inl _ \<Rightarrow> (s2, results, Suc lost)
         | Inr result \<Rightarrow> (s2, if nullish result then results else result # results, lost))"

definition iteratorProcess :: "('s \<Rightarrow> jsval \<Rightarrow> 's \<times> (string + jsval)) \<Rightarrow> 's \<Rightarrow> SubService \<Rightarrow> Iteration \<Rightarrow> jsval \<Rightarrow> 's \<times> jsval" where
  "iteratorProcess next s scope st input =
     (if adopted scope = None \<or> pipeline (sub scope) = []
      then (s, if stopPropagation (sub scope) then JNull else input)
      else
        let (s', results, lost) = iterate next s (iteratorItems st input)
        in (s', if stopPropagation (sub scope) \<or> results = [] then JNull else JArr results))"

section \<open>Gather\<close>

definition DEFAULT_MAX_BYTES :: int where "DEFAULT_MAX_BYTES = 64 * 1024 * 1024"
definition DEFAULT_TIMEOUT_MS :: int where "DEFAULT_TIMEOUT_MS = 60000"
definition DEFAULT_MAX_GROUPS :: int where "DEFAULT_MAX_GROUPS = 16"
definition MAX_REFUSED :: nat where "MAX_REFUSED = 1024"
definition MAX_GROUP_LENGTH :: nat where "MAX_GROUP_LENGTH = 256"

record Part =
  item :: jsval
  groupOf :: string
  index :: nat
  totalOf :: nat

text \<open>\<^verbatim>\<open>isPart\<close>, and the part a value is.\<close>

definition asPart :: "jsval \<Rightarrow> Part option" where
  "asPart v =
     (case v of
        JObj es \<Rightarrow>
          (case (oget es ''group'', oget es ''total'', oget es ''index'') of
             (JStr g, JNum t, JNum k) \<Rightarrow>
               (case (int_value t, int_value k) of
                  (Some n, Some i) \<Rightarrow>
                    if js_in ''item'' es \<and> g \<noteq> [] \<and> length g \<le> MAX_GROUP_LENGTH \<and> 0 < n \<and> 0 \<le> i \<and> i < n
                    then Some \<lparr>item = oget es ''item'', groupOf = g, index = nat i, totalOf = nat n\<rparr>
                    else None
                | _ \<Rightarrow> None)
           | _ \<Rightarrow> None)
      | _ \<Rightarrow> None)"

definition sizeOf :: "jsval \<Rightarrow> nat" where
  "sizeOf v = (case v of JStr s \<Rightarrow> utf8_length s | JNull \<Rightarrow> 0 | JUndef \<Rightarrow> 0 | _ \<Rightarrow> utf8_length (json_text v))"

record Collecting =
  items :: "(nat \<times> jsval) list"
  expected :: nat
  bytes :: nat
  startedAt :: int

datatype GatherReport =
    Received string nat nat nat
  | Refused string string nat
  | TimedOut string string nat

record Gather =
  collecting :: "(string \<times> Collecting) list"
  refused :: "(string \<times> int) list"
  lastError :: string
  maxBytes :: int
  maxGroups :: int
  timeoutMs :: int
  reports :: "GatherReport list"

definition newGather :: Gather where
  "newGather =
     \<lparr>collecting = [], refused = [], lastError = [], maxBytes = DEFAULT_MAX_BYTES, maxGroups = DEFAULT_MAX_GROUPS,
      timeoutMs = DEFAULT_TIMEOUT_MS, reports = []\<rparr>"

definition gatherConfigure :: "obj \<Rightarrow> Gather \<Rightarrow> Gather" where
  "gatherConfigure config g =
     (let g = (case oget config ''maxBytes'' of JNum n \<Rightarrow> if positive n then g\<lparr>maxBytes := floor_value n\<rparr> else g | _ \<Rightarrow> g);
          g = (case oget config ''maxGroups'' of JNum n \<Rightarrow> if 1 \<le> floor_value n then g\<lparr>maxGroups := floor_value n\<rparr> else g | _ \<Rightarrow> g)
      in case oget config ''timeoutMs'' of JNum n \<Rightarrow> if positive n then g\<lparr>timeoutMs := floor_value n\<rparr> else g | _ \<Rightarrow> g)"

definition stopCollecting :: "string \<Rightarrow> Gather \<Rightarrow> Gather" where
  "stopCollecting name g = g\<lparr>collecting := filter (\<lambda>(k, _). k \<noteq> name) (collecting g)\<rparr>"

definition refuse :: "string \<Rightarrow> int \<Rightarrow> string \<Rightarrow> Gather \<Rightarrow> Gather" where
  "refuse name now message g =
     (let g = stopCollecting name g; all = AList.update name now (refused g)
      in g\<lparr>refused := drop (length all - MAX_REFUSED) all, lastError := message,
           reports := reports g @ [Refused name message (length (collecting g))]\<rparr>)"

definition letGoOf :: "string \<times> Collecting \<Rightarrow> Gather \<Rightarrow> Gather" where
  "letGoOf c g =
     (let g = stopCollecting (fst c) g;
          message = ''group '' @ fst c @ '' timed out with '' @ show_nat (length (items (snd c))) @ '' of '' @ show_nat (expected (snd c)) @ '' parts''
      in g\<lparr>lastError := message, reports := reports g @ [TimedOut (fst c) message (length (collecting g))]\<rparr>)"

definition letGoOfStale :: "int \<Rightarrow> Gather \<Rightarrow> Gather" where
  "letGoOfStale now g =
     (let g' = foldl (\<lambda>s c. if now - startedAt (snd c) > timeoutMs g then letGoOf c s else s) g (collecting g)
      in g'\<lparr>refused := filter (\<lambda>(_, at). \<not> now - at > timeoutMs g) (refused g')\<rparr>)"

text \<open>What a call comes to: the value as it is, null, or a whole group.\<close>

datatype gathered = AsItIs jsval | Nothing | Whole string "jsval list"

definition collectPart :: "int \<Rightarrow> Part \<Rightarrow> Collecting \<Rightarrow> Gather \<Rightarrow> gathered \<times> Gather" where
  "collectPart now p c g =
     (if expected c \<noteq> totalOf p
      then (Nothing, refuse (groupOf p) now (''group '' @ groupOf p @ '' said '' @ show_nat (expected c) @ '' parts, then '' @ show_nat (totalOf p)) g)
      else if index p \<in> set (map fst (items c)) then (Nothing, g)
      else
        let held = bytes c + sizeOf (item p) in
        if int held > maxBytes g
        then (Nothing, refuse (groupOf p) now (''group '' @ groupOf p @ '' is larger than '' @ show_int (maxBytes g) @ '' bytes'') g)
        else
          let c = c\<lparr>items := items c @ [(index p, item p)], bytes := held\<rparr>;
              g = g\<lparr>collecting := AList.update (groupOf p) c (collecting g)\<rparr>;
              g = g\<lparr>reports := reports g @ [Received (groupOf p) (length (items c)) (totalOf p) (length (collecting g))]\<rparr>
          in if length (items c) < totalOf p then (Nothing, g)
             else (Whole (groupOf p) (map (\<lambda>i. case map_of (items c) i of Some v \<Rightarrow> v | None \<Rightarrow> JUndef) [0..<totalOf p]),
                   stopCollecting (groupOf p) g))"

definition gatherProcess :: "int \<Rightarrow> jsval \<Rightarrow> Gather \<Rightarrow> gathered \<times> Gather" where
  "gatherProcess now input g =
     (case asPart input of
        None \<Rightarrow> (AsItIs input, g)
      | Some p \<Rightarrow>
          let g = letGoOfStale now g in
          if groupOf p \<in> set (map fst (refused g)) then (Nothing, g)
          else
            (case map_of (collecting g) (groupOf p) of
               Some c \<Rightarrow> collectPart now p c g
             | None \<Rightarrow>
                 if int (length (collecting g)) \<ge> maxGroups g
                 then (Nothing, refuse (groupOf p) now (''group '' @ groupOf p @ '' refused: '' @ show_int (maxGroups g) @ '' groups are already incomplete'') g)
                 else
                   let c = \<lparr>items = [], expected = totalOf p, bytes = 0, startedAt = now\<rparr>
                   in collectPart now p c (g\<lparr>collecting := collecting g @ [(groupOf p, c)]\<rparr>)))"

text \<open>
  What becomes of a whole group: the items as an array, or, where there is a pipeline, what a pass of it
  makes of \<open>{ group, items }\<close>.
\<close>

definition wholeAnswer :: "(jsval \<Rightarrow> jsval) \<Rightarrow> SubService \<Rightarrow> string \<Rightarrow> jsval list \<Rightarrow> jsval" where
  "wholeAnswer next scope name whole =
     (if adopted scope = None \<or> pipeline (sub scope) = []
      then (if stopPropagation (sub scope) then JNull else JArr whole)
      else afterPass scope (next (JObj [(''group'', JStr name), (''items'', JArr whole)])))"

definition gatherDestroy :: "Gather \<Rightarrow> Gather" where
  "gatherDestroy g = g\<lparr>collecting := [], refused := []\<rparr>"

section \<open>What a call changes\<close>

abbreviation pendingGroups :: "Gather \<Rightarrow> string list" where
  "pendingGroups g \<equiv> map fst (collecting g)"

definition limits :: "Gather \<Rightarrow> int \<times> int \<times> int" where
  "limits g = (maxBytes g, maxGroups g, timeoutMs g)"

lemma limits_simps [simp]:
  "limits (g\<lparr>collecting := cs\<rparr>) = limits g" "limits (g\<lparr>refused := rs\<rparr>) = limits g" "limits (g\<lparr>reports := es\<rparr>) = limits g"
  "limits (g\<lparr>lastError := e\<rparr>) = limits g"
  by (simp_all add: limits_def)

lemma limits_eqD: "limits g = limits g' \<Longrightarrow> maxBytes g = maxBytes g' \<and> maxGroups g = maxGroups g' \<and> timeoutMs g = timeoutMs g'"
  by (simp add: limits_def)

definition fresh_enough :: "int \<Rightarrow> Gather \<Rightarrow> Collecting \<Rightarrow> bool" where
  "fresh_enough now g c = (now - startedAt c \<le> timeoutMs g)"

lemma stop_simps [simp]:
  "refused (stopCollecting k g) = refused g" "limits (stopCollecting k g) = limits g"
  "collecting (stopCollecting k g) = filter (\<lambda>(k', _). k' \<noteq> k) (collecting g)"
  "maxBytes (stopCollecting k g) = maxBytes g" "maxGroups (stopCollecting k g) = maxGroups g" "timeoutMs (stopCollecting k g) = timeoutMs g"
  by (simp_all add: stopCollecting_def limits_def)

lemma letGoOf_simps [simp]:
  "refused (letGoOf c g) = refused g" "limits (letGoOf c g) = limits g"
  "collecting (letGoOf c g) = filter (\<lambda>(k, _). k \<noteq> fst c) (collecting g)"
  by (simp_all add: letGoOf_def Let_def limits_def)

lemma letGo_fold:
  "refused (foldl (\<lambda>s c. if P c then letGoOf c s else s) g cs) = refused g
   \<and> limits (foldl (\<lambda>s c. if P c then letGoOf c s else s) g cs) = limits g
   \<and> collecting (foldl (\<lambda>s c. if P c then letGoOf c s else s) g cs) = filter (\<lambda>(k, _). \<forall>c\<in>set cs. P c \<longrightarrow> k \<noteq> fst c) (collecting g)"
  by (induction cs arbitrary: g) (auto intro: filter_cong)

lemma letGoOfStale_collecting:
  assumes "distinct (pendingGroups g)"
  shows "collecting (letGoOfStale now g) = filter (\<lambda>(_, c). fresh_enough now g c) (collecting g)"
proof -
  have "(\<forall>c\<in>set (collecting g). now - startedAt (snd c) > timeoutMs g \<longrightarrow> k \<noteq> fst c) \<longleftrightarrow> fresh_enough now g x"
    if x: "(k, x) \<in> set (collecting g)" for k x
  proof -
    have "y = x" if "(k, y) \<in> set (collecting g)" for y
      by (rule eq_key_imp_eq_value [OF assms that x])
    then show ?thesis
      using x unfolding fresh_enough_def by (metis fst_conv not_le prod.collapse snd_conv)
  qed
  then have "filter (\<lambda>(k, _). \<forall>c\<in>set (collecting g). now - startedAt (snd c) > timeoutMs g \<longrightarrow> k \<noteq> fst c) (collecting g)
      = filter (\<lambda>(_, c). fresh_enough now g c) (collecting g)"
    by (intro filter_cong) auto
  then show ?thesis
    using letGo_fold [of "\<lambda>c. now - startedAt (snd c) > timeoutMs g" g "collecting g"]
    by (simp add: letGoOfStale_def Let_def)
qed

lemma letGoOfStale_simps [simp]:
  "limits (letGoOfStale now g) = limits g"
  "refused (letGoOfStale now g) = filter (\<lambda>(_, at). \<not> now - at > timeoutMs g) (refused g)"
  using letGo_fold [of "\<lambda>c. now - startedAt (snd c) > timeoutMs g" g "collecting g"]
  by (simp_all add: letGoOfStale_def Let_def)

lemma letGoOfStale_limits [simp]:
  "maxBytes (letGoOfStale now g) = maxBytes g" "maxGroups (letGoOfStale now g) = maxGroups g" "timeoutMs (letGoOfStale now g) = timeoutMs g"
  using limits_eqD [OF letGoOfStale_simps(1) [of now g]] by simp_all

lemma refuse_simps [simp]:
  "collecting (refuse k now message g) = filter (\<lambda>(k', _). k' \<noteq> k) (collecting g)" "limits (refuse k now message g) = limits g"
  by (simp_all add: refuse_def Let_def limits_def)

lemma set_update_fst: "fst ` set (AList.update k v xs) = insert k (fst ` set xs)"
  by (induction xs) auto

lemma refuse_refused: "fst ` set (refused (refuse k now message g)) \<subseteq> insert k (fst ` set (refused g))"
proof -
  have "fst ` set (refused (refuse k now message g)) \<subseteq> fst ` set (AList.update k now (refused g))"
    unfolding refuse_def Let_def by (simp add: image_mono set_drop_subset)
  then show ?thesis by (simp add: set_update_fst)
qed

text \<open>A part of a group concerns that group alone.\<close>

definition untouched :: "string \<Rightarrow> string \<Rightarrow> Gather \<Rightarrow> Gather \<Rightarrow> bool" where
  "untouched name k g g' =
     (limits g' = limits g \<and> (distinct (pendingGroups g) \<longrightarrow> distinct (pendingGroups g')) \<and> set (pendingGroups g') \<subseteq> insert k (set (pendingGroups g))
      \<and> fst ` set (refused g') \<subseteq> insert k (fst ` set (refused g))
      \<and> (name \<noteq> k \<longrightarrow> map_of (collecting g') name = map_of (collecting g) name))"

lemma map_of_filter_other: "name \<noteq> k \<Longrightarrow> map_of (filter (\<lambda>(k', _). k' \<noteq> k) cs) name = map_of cs name"
  by (induction cs) auto

lemma untouched_refuse: "untouched name k g (refuse k now message g)"
  using refuse_refused [of k now message g] by (auto simp: untouched_def distinct_map_filter map_of_filter_other)

lemma untouched_stop: "untouched name k g (stopCollecting k g)"
  by (auto simp: untouched_def distinct_map_filter map_of_filter_other)

lemma untouched_trans: "untouched name k g g1 \<Longrightarrow> untouched name k g1 g2 \<Longrightarrow> untouched name k g g2"
  unfolding untouched_def by (intro conjI) (simp_all, (blast+)?)

lemma untouched_put: "collecting g' = AList.update k c (collecting g) \<Longrightarrow> refused g' = refused g \<Longrightarrow> limits g' = limits g \<Longrightarrow> untouched name k g g'"
  using set_update_fst [of k c "collecting g"] by (simp add: untouched_def distinct_update update_conv')
     (simp add: subset_iff)

lemma untouched_self: "untouched name k g g"
  by (auto simp: untouched_def)

lemma untouched_collect: "untouched name (groupOf p) g (snd (collectPart now p c g))"
proof -
  have put: "untouched name (groupOf p) g (g\<lparr>collecting := AList.update (groupOf p) c' (collecting g), reports := r\<rparr>)" for c' r
    by (rule untouched_put [where c = c']) simp_all
  show ?thesis
    using untouched_refuse untouched_self put untouched_trans [OF put untouched_stop]
    by (simp add: collectPart_def Let_def)
qed

lemma untouched_add: "k \<notin> set (pendingGroups g) \<Longrightarrow> untouched name k g (g\<lparr>collecting := collecting g @ [(k, c)]\<rparr>)"
  by (auto simp: untouched_def map_add_def split: option.splits)

lemma untouched_process:
  assumes "asPart v = Some p"
  shows "untouched name (groupOf p) (letGoOfStale now g) (snd (gatherProcess now v g))"
proof -
  let ?g = "letGoOfStale now g"
  have "untouched name (groupOf p) ?g
      (snd (collectPart now p c (?g\<lparr>collecting := collecting ?g @ [(groupOf p, c)]\<rparr>)))"
    if "map_of (collecting ?g) (groupOf p) = None" for c
  proof (rule untouched_trans [OF untouched_add untouched_collect])
    show "groupOf p \<notin> set (pendingGroups ?g)"
      using that by (simp add: map_of_eq_None_iff)
  qed
  then show ?thesis
    using assms untouched_self untouched_collect untouched_refuse
    by (auto simp: gatherProcess_def Let_def split: option.splits)
qed

section \<open>One group among others\<close>

text \<open>
  What is held of the group \<open>name\<close>, whose whole is \<open>xs\<close>, once the parts at \<open>seen\<close> have arrived, the first of
  them not before \<open>t0\<close>.
\<close>

definition sizes :: "jsval list \<Rightarrow> nat set \<Rightarrow> nat" where
  "sizes xs seen = (\<Sum>j\<in>seen. sizeOf (xs ! j))"

definition held_as :: "jsval list \<Rightarrow> int \<Rightarrow> nat set \<Rightarrow> Collecting \<Rightarrow> bool" where
  "held_as xs t0 seen c =
     (expected c = length xs \<and> distinct (map fst (items c)) \<and> set (items c) = (\<lambda>j. (j, xs ! j)) ` seen
      \<and> bytes c = sizes xs seen \<and> t0 \<le> startedAt c)"

definition gathering :: "string \<Rightarrow> jsval list \<Rightarrow> int \<Rightarrow> nat set \<Rightarrow> Gather \<Rightarrow> bool" where
  "gathering name xs t0 seen g =
     (distinct (pendingGroups g) \<and> name \<notin> fst ` set (refused g) \<and> seen \<subseteq> {..<length xs}
      \<and> (case map_of (collecting g) name of None \<Rightarrow> seen = {} | Some c \<Rightarrow> seen \<noteq> {} \<and> held_as xs t0 seen c))"

lemma held_as_items:
  assumes "held_as xs t0 seen c"
  shows "fst ` set (items c) = seen" "length (items c) = card seen" "map_of (items c) j = (if j \<in> seen then Some (xs ! j) else None)"
proof -
  show fst: "fst ` set (items c) = seen"
    using assms by (force simp: held_as_def)
  show "length (items c) = card seen"
    using assms fst distinct_card [of "map fst (items c)"] by (simp add: held_as_def)
  show "map_of (items c) j = (if j \<in> seen then Some (xs ! j) else None)"
  proof (cases "j \<in> seen")
    case True
    then show ?thesis using assms by (simp add: held_as_def)
  next
    case False
    then show ?thesis using fst by (simp add: map_of_eq_None_iff)
  qed
qed

text \<open>Time passes: within the timeout of its first part the group is kept.\<close>

lemma map_of_filter_keeps:
  assumes "distinct (map fst cs)" "\<And>c. map_of cs name = Some c \<Longrightarrow> P c"
  shows "map_of (filter (\<lambda>(_, c). P c) cs) name = map_of cs name"
  using assms
proof (induction cs)
  case (Cons kc cs)
  obtain k c where "kc = (k, c)" by fastforce
  moreover have "map_of (filter (\<lambda>(_, c). P c) cs) k = None" if "k \<notin> fst ` set cs"
    using that by (auto simp: map_of_eq_None_iff)
  ultimately show ?case
    using Cons by (auto split: if_splits)
qed simp

lemma gathering_letGo:
  assumes "gathering name xs t0 seen g" "now \<le> t0 + timeoutMs g"
  shows "gathering name xs t0 seen (letGoOfStale now g)"
proof -
  have distinct: "distinct (pendingGroups g)" using assms(1) by (simp add: gathering_def)
  have "map_of (collecting (letGoOfStale now g)) name = map_of (collecting g) name"
    unfolding letGoOfStale_collecting [OF distinct]
    by (rule map_of_filter_keeps [OF distinct])
      (use assms in \<open>auto simp: gathering_def held_as_def fresh_enough_def\<close>)
  moreover have "distinct (pendingGroups (letGoOfStale now g))"
    unfolding letGoOfStale_collecting [OF distinct] using distinct by (simp add: distinct_map_filter)
  ultimately show ?thesis
    using assms(1) by (auto simp: gathering_def)
qed

lemma gathering_untouched:
  assumes "gathering name xs t0 seen g" "untouched name k g g'" "k \<noteq> name"
  shows "gathering name xs t0 seen g'"
  using assms by (auto simp: gathering_def untouched_def)

lemma gathering_other:
  assumes "gathering name xs t0 seen g" "now \<le> t0 + timeoutMs g"
    and "\<And>p. asPart v = Some p \<Longrightarrow> groupOf p \<noteq> name"
  shows "gathering name xs t0 seen (snd (gatherProcess now v g))"
proof (cases "asPart v")
  case None
  then show ?thesis using assms(1) by (simp add: gatherProcess_def)
next
  case (Some p)
  show ?thesis
    by (rule gathering_untouched [OF gathering_letGo [OF assms(1,2)] untouched_process [OF Some] assms(3) [OF Some]])
qed

lemma sizes_mono: "seen \<subseteq> {..<length xs} \<Longrightarrow> sizes xs seen \<le> sizes xs {..<length xs}"
  unfolding sizes_def by (rule sum_mono2) auto

lemma whole_items:
  assumes "held_as xs t0 {..<length xs} c"
  shows "map (\<lambda>i. case map_of (items c) i of Some v \<Rightarrow> v | None \<Rightarrow> JUndef) [0..<length xs] = xs"
  by (rule nth_equalityI) (simp_all add: held_as_items(3) [OF assms])

abbreviation part :: "string \<Rightarrow> jsval list \<Rightarrow> nat \<Rightarrow> Part" where
  "part name xs j \<equiv> \<lparr>item = xs ! j, groupOf = name, index = j, totalOf = length xs\<rparr>"

lemma held_as_insert:
  assumes "held_as xs t0 seen c" "j \<notin> seen" "seen \<subseteq> {..<length xs}"
  shows "held_as xs t0 (insert j seen) (c\<lparr>items := items c @ [(j, xs ! j)], bytes := bytes c + sizeOf (xs ! j)\<rparr>)"
proof -
  have "finite seen" using assms(3) finite_subset by blast
  then show ?thesis
    using assms(1,2) held_as_items(1) [OF assms(1)] by (simp add: held_as_def sizes_def)
qed

lemma collect_held:
  assumes g: "distinct (pendingGroups g)" "name \<notin> fst ` set (refused g)"
    and c: "held_as xs t0 seen c" "seen \<subseteq> {..<length xs}" "map_of (collecting g) name = Some c"
    and j: "j < length xs" and fits: "int (sizes xs {..<length xs}) \<le> maxBytes g"
  shows "fst (collectPart now (part name xs j) c g) =
      (if j \<notin> seen \<and> insert j seen = {..<length xs} then Whole name xs else Nothing)
    \<and> (j \<in> seen \<longrightarrow> snd (collectPart now (part name xs j) c g) = g)
    \<and> (j \<notin> seen \<longrightarrow> insert j seen \<noteq> {..<length xs} \<longrightarrow> gathering name xs t0 (insert j seen) (snd (collectPart now (part name xs j) c g)))
    \<and> (insert j seen = {..<length xs} \<longrightarrow> j \<notin> seen \<longrightarrow> name \<notin> set (pendingGroups (snd (collectPart now (part name xs j) c g))))"
proof (cases "j \<in> seen")
  case True
  then show ?thesis
    using held_as_items(1) [OF c(1)] c(1) by (simp add: collectPart_def held_as_def)
next
  case False
  let ?c = "c\<lparr>items := items c @ [(j, xs ! j)], bytes := bytes c + sizeOf (xs ! j)\<rparr>"
  have seen: "insert j seen \<subseteq> {..<length xs}" using c(2) j by simp
  have held: "held_as xs t0 (insert j seen) ?c" by (rule held_as_insert [OF c(1) False c(2)])
  have "int (bytes ?c) \<le> maxBytes g"
    using held sizes_mono [OF seen] fits by (simp add: held_as_def)
  then have bytes: "\<not> int (bytes c + sizeOf (xs ! j)) > maxBytes g" by simp
  have count: "length (items c @ [(j, xs ! j)]) = card (insert j seen)"
    using held_as_items(2) [OF held] by simp
  have finite: "finite {..<length xs}" by simp
  have le: "card (insert j seen) \<le> length xs" and eq: "card (insert j seen) = length xs \<Longrightarrow> insert j seen = {..<length xs}"
    using card_mono [OF finite seen] card_subset_eq [OF finite seen] by simp_all
  have "length (items c) + 1 = card (insert j seen)"
    using count by simp
  then have full': "Suc (length (items c)) < length xs \<longleftrightarrow> insert j seen \<noteq> {..<length xs}"
    using le eq by (metis Suc_eq_plus1 card_lessThan le_neq_implies_less less_irrefl)
  have expected: "expected c = length xs" and new: "j \<notin> fst ` set (items c)"
    using c(1) False held_as_items(1) [OF c(1)] by (simp_all add: held_as_def)
  have step: "collectPart now (part name xs j) c g =
      (let g = g\<lparr>collecting := AList.update name ?c (collecting g)\<rparr>;
           g = g\<lparr>reports := reports g @ [Received name (length (items ?c)) (length xs) (length (collecting g))]\<rparr>
       in if insert j seen = {..<length xs} then (Whole name (map (\<lambda>i. case map_of (items ?c) i of Some v \<Rightarrow> v | None \<Rightarrow> JUndef) [0..<length xs]), stopCollecting name g)
          else (Nothing, g))"
    using bytes by (simp add: collectPart_def expected new full' Let_def)
  show ?thesis
  proof (cases "insert j seen = {..<length xs}")
    case True
    then show ?thesis
      using whole_items [of xs t0 ?c] held False by (simp add: step Let_def image_iff)
  next
    case no: False
    have "gathering name xs t0 (insert j seen) (g\<lparr>collecting := AList.update name ?c (collecting g), reports := r\<rparr>)" for r
      using g seen held by (simp add: gathering_def distinct_update update_conv')
    then show ?thesis
      using no False by (simp add: step Let_def)
  qed
qed

lemma gathering_part:
  assumes g: "gathering name xs t0 seen g" and now: "t0 \<le> now" "now \<le> t0 + timeoutMs g"
    and v: "asPart v = Some (part name xs j)" "j < length xs"
    and fits: "int (sizes xs {..<length xs}) \<le> maxBytes g"
    and room: "seen = {} \<Longrightarrow> int (length (collecting g)) < maxGroups g"
  shows "fst (gatherProcess now v g) = (if j \<notin> seen \<and> insert j seen = {..<length xs} then Whole name xs else Nothing)
    \<and> (j \<in> seen \<or> insert j seen \<noteq> {..<length xs} \<longrightarrow> gathering name xs t0 (insert j seen) (snd (gatherProcess now v g)))
    \<and> (insert j seen = {..<length xs} \<longrightarrow> j \<notin> seen \<longrightarrow> name \<notin> set (pendingGroups (snd (gatherProcess now v g))))"
proof -
  let ?g = "letGoOfStale now g"
  have g': "gathering name xs t0 seen ?g" by (rule gathering_letGo [OF g now(2)])
  then have parts: "distinct (pendingGroups ?g)" "name \<notin> fst ` set (refused ?g)" "seen \<subseteq> {..<length xs}"
    by (simp_all add: gathering_def)
  show ?thesis
  proof (cases "map_of (collecting ?g) name")
    case (Some c)
    have c: "held_as xs t0 seen c" using g' Some by (simp add: gathering_def)
    show ?thesis
      using collect_held [OF parts(1,2) c parts(3) Some v(2), of now] fits parts(2) g'
      by (auto simp: gatherProcess_def v(1) Some Let_def insert_absorb)
  next
    case None
    let ?c = "\<lparr>items = [], expected = length xs, bytes = 0, startedAt = now\<rparr>"
    let ?h = "?g\<lparr>collecting := collecting ?g @ [(name, ?c)]\<rparr>"
    have seen: "seen = {}" using g' None by (simp add: gathering_def)
    have "length (collecting ?g) \<le> length (collecting g)"
      using g by (simp add: letGoOfStale_collecting gathering_def)
    then have free: "\<not> int (length (collecting ?g)) \<ge> maxGroups ?g"
      using room [OF seen] by simp
    have held: "held_as xs t0 {} ?c" using now(1) by (simp add: held_as_def sizes_def)
    have h: "distinct (pendingGroups ?h)" "name \<notin> fst ` set (refused ?h)"
      using parts(1,2) None by (simp_all add: map_of_eq_None_iff)
    have h3: "map_of (collecting ?h) name = Some ?c"
      by (simp add: map_add_def None)
    have "gatherProcess now v g = collectPart now (part name xs j) ?c ?h"
      using parts(2) None free by (simp add: gatherProcess_def v(1) Let_def)
    then show ?thesis
      using collect_held [OF h(1,2) held _ h3 v(2), of now] fits seen by simp
  qed
qed

section \<open>Arrivals\<close>

fun gather_run :: "Gather \<Rightarrow> (int \<times> jsval) list \<Rightarrow> gathered list \<times> Gather" where
  "gather_run g [] = ([], g)"
| "gather_run g ((now, v) # es) =
     (let (answer, g1) = gatherProcess now v g; (answers, g2) = gather_run g1 es in (answer # answers, g2))"

text \<open>The groups that arrivals name, and the places of the whole \<open>xs\<close> they bring.\<close>

fun groupsIn :: "(int \<times> jsval) list \<Rightarrow> string set" where
  "groupsIn [] = {}"
| "groupsIn ((_, v) # es) = (case asPart v of None \<Rightarrow> {} | Some p \<Rightarrow> {groupOf p}) \<union> groupsIn es"

fun placesIn :: "string \<Rightarrow> (int \<times> jsval) list \<Rightarrow> nat set" where
  "placesIn name [] = {}"
| "placesIn name ((_, v) # es) =
     (case asPart v of None \<Rightarrow> {} | Some p \<Rightarrow> if groupOf p = name then {index p} else {}) \<union> placesIn name es"

text \<open>Every arrival is in time, and one that names the group is a part of \<open>xs\<close>.\<close>

definition arrives_of :: "string \<Rightarrow> jsval list \<Rightarrow> int \<Rightarrow> int \<Rightarrow> int \<times> jsval \<Rightarrow> bool" where
  "arrives_of name xs t0 timeout e =
     (t0 \<le> fst e \<and> fst e \<le> t0 + timeout
      \<and> (case asPart (snd e) of
           None \<Rightarrow> True
         | Some p \<Rightarrow> groupOf p = name \<longrightarrow> index p < length xs \<and> p = part name xs (index p)))"

lemma letGo_pending: "distinct (pendingGroups g) \<Longrightarrow> set (pendingGroups (letGoOfStale now g)) \<subseteq> set (pendingGroups g)"
  by (auto simp: letGoOfStale_collecting)

lemma gather_step_pending:
  assumes "distinct (pendingGroups g)"
  shows "set (pendingGroups (snd (gatherProcess now v g))) \<subseteq> set (pendingGroups g) \<union> groupsIn [(now, v)]"
    "limits (snd (gatherProcess now v g)) = limits g"
proof -
  show "set (pendingGroups (snd (gatherProcess now v g))) \<subseteq> set (pendingGroups g) \<union> groupsIn [(now, v)]"
  proof (cases "asPart v")
    case (Some p)
    have "set (pendingGroups (snd (gatherProcess now v g))) \<subseteq> insert (groupOf p) (set (pendingGroups (letGoOfStale now g)))"
      using untouched_process [OF Some, of "[]" now g] unfolding untouched_def by blast
    moreover have "groupsIn [(now, v)] = {groupOf p}" by (simp add: Some)
    ultimately show ?thesis
      using letGo_pending [OF assms, of now] by blast
  qed (simp add: gatherProcess_def)
  show "limits (snd (gatherProcess now v g)) = limits g"
  proof (cases "asPart v")
    case (Some p)
    then show ?thesis
      using untouched_process [OF Some, of "[]" now g] by (simp add: untouched_def)
  qed (simp add: gatherProcess_def)
qed

lemma gather_run_holds:
  assumes "gathering name xs t0 seen g" "list_all (arrives_of name xs t0 (timeoutMs g)) es"
    and "int (sizes xs {..<length xs}) \<le> maxBytes g"
    and "set (pendingGroups g) \<union> groupsIn es \<subseteq> insert name others" "finite others" "int (card others) < maxGroups g" "name \<notin> others"
    and "seen \<union> placesIn name es \<noteq> {..<length xs}" "placesIn name es \<subseteq> {..<length xs}"
  shows "gathering name xs t0 (seen \<union> placesIn name es) (snd (gather_run g es))
    \<and> (\<forall>a\<in>set (fst (gather_run g es)). \<forall>ys. a \<noteq> Whole name ys)
    \<and> limits (snd (gather_run g es)) = limits g
    \<and> set (pendingGroups (snd (gather_run g es))) \<subseteq> insert name others"
  using assms
proof (induction es arbitrary: g seen)
  case Nil
  then show ?case by simp
next
  case (Cons e es)
  obtain now v where e: "e = (now, v)" by (cases e)
  obtain answer g1 where step: "gatherProcess now v g = (answer, g1)" by fastforce
  have distinct: "distinct (pendingGroups g)" using Cons.prems(1) by (simp add: gathering_def)
  have now: "t0 \<le> now" "now \<le> t0 + timeoutMs g" using Cons.prems(2) by (simp_all add: e arrives_of_def)
  have g1: "set (pendingGroups g1) \<subseteq> insert name others" "limits g1 = limits g"
    using gather_step_pending [OF distinct, of now v] Cons.prems(4) by (auto simp: step e)
  have lim: "maxBytes g1 = maxBytes g" "maxGroups g1 = maxGroups g" "timeoutMs g1 = timeoutMs g"
    using limits_eqD [OF g1(2)] by simp_all
  define new where "new = placesIn name [(now, v)]"
  have places: "placesIn name (e # es) = new \<union> placesIn name es" by (simp add: e new_def)
  have here: "gathering name xs t0 (seen \<union> new) g1 \<and> (\<forall>ys. answer \<noteq> Whole name ys)"
  proof (cases "\<exists>p. asPart v = Some p \<and> groupOf p = name")
    case False
    then have "new = {}" by (auto simp: new_def split: option.splits)
    moreover have "gathering name xs t0 seen g1"
      using gathering_other [OF Cons.prems(1) now(2), of v] False by (auto simp: step)
    moreover have "answer \<noteq> Whole name ys" for ys
    proof (cases "asPart v")
      case None
      then show ?thesis using step by (auto simp: gatherProcess_def)
    next
      case (Some p)
      then have "groupOf p \<noteq> name" using False by blast
      then show ?thesis
        using step Some by (auto simp: gatherProcess_def collectPart_def Let_def split: option.splits if_splits)
    qed
    ultimately show ?thesis by simp
  next
    case True
    then obtain p where p: "asPart v = Some p" "groupOf p = name" by blast
    then have j: "index p < length xs" "asPart v = Some (part name xs (index p))"
      using Cons.prems(2) by (auto simp: e arrives_of_def)
    have new: "new = {index p}" using p by (simp add: new_def)
    have room: "int (length (collecting g)) < maxGroups g" if "seen = {}"
    proof -
      have "name \<notin> set (pendingGroups g)"
        using Cons.prems(1) that by (auto simp: gathering_def map_of_eq_None_iff split: option.splits)
      then have "set (pendingGroups g) \<subseteq> others" using Cons.prems(4) by auto
      then have "card (set (pendingGroups g)) \<le> card others" by (rule card_mono [OF Cons.prems(5)])
      then show ?thesis
        using distinct_card [OF distinct] Cons.prems(6) by simp
    qed
    have "insert (index p) seen \<noteq> {..<length xs} \<or> index p \<in> seen"
      using Cons.prems(1,8,9) by (auto simp: places new gathering_def)
    then show ?thesis
      using gathering_part [OF Cons.prems(1) now j(2,1) Cons.prems(3) room] by (auto simp: step new)
  qed
  have ih: "gathering name xs t0 ((seen \<union> new) \<union> placesIn name es) (snd (gather_run g1 es))
    \<and> (\<forall>a\<in>set (fst (gather_run g1 es)). \<forall>ys. a \<noteq> Whole name ys)
    \<and> limits (snd (gather_run g1 es)) = limits g1
    \<and> set (pendingGroups (snd (gather_run g1 es))) \<subseteq> insert name others"
  proof (rule Cons.IH)
    show "gathering name xs t0 (seen \<union> new) g1" using here by simp
    show "list_all (arrives_of name xs t0 (timeoutMs g1)) es" using Cons.prems(2) by (simp add: lim)
    show "int (sizes xs {..<length xs}) \<le> maxBytes g1" "int (card others) < maxGroups g1"
      using Cons.prems(3,6) by (simp_all add: lim)
    show "set (pendingGroups g1) \<union> groupsIn es \<subseteq> insert name others" using g1(1) Cons.prems(4) by (simp add: e)
    show "seen \<union> new \<union> placesIn name es \<noteq> {..<length xs}" using Cons.prems(8) unfolding places Un_assoc .
    show "placesIn name es \<subseteq> {..<length xs}" using Cons.prems(9) by (simp add: places)
  qed (rule Cons.prems)+
  obtain answers g2 where run: "gather_run g1 es = (answers, g2)" by fastforce
  have whole: "gather_run g (e # es) = (answer # answers, g2)" by (simp add: e step run)
  show ?case
    using ih here g1(2) unfolding whole places run Un_assoc by simp
qed

lemma gather_run_append:
  "gather_run g (es @ fs) =
     (let (answers, g1) = gather_run g es; (more, g2) = gather_run g1 fs in (answers @ more, g2))"
  by (induction g es rule: gather_run.induct) (simp_all add: Let_def split: prod.splits)

text \<open>The last part that is missing brings the whole.\<close>

lemma gather_run_completes:
  assumes g: "gathering name xs t0 {} g" and es: "list_all (arrives_of name xs t0 (timeoutMs g)) (es @ [(now, v)])"
    and fits: "int (sizes xs {..<length xs}) \<le> maxBytes g"
    and room: "int (card (set (pendingGroups g) \<union> groupsIn es - {name})) < maxGroups g"
    and v: "asPart v = Some p" "groupOf p = name"
    and missing: "placesIn name es = {..<length xs} - {index p}"
  shows "\<exists>answers g'. gather_run g (es @ [(now, v)]) = (answers @ [Whole name xs], g')
    \<and> (\<forall>a\<in>set answers. \<forall>ys. a \<noteq> Whole name ys) \<and> name \<notin> set (pendingGroups g')"
proof -
  let ?others = "set (pendingGroups g) \<union> groupsIn es - {name}"
  have finite: "finite (groupsIn es)" by (induction es rule: groupsIn.induct) (auto split: option.splits)
  have p: "index p < length xs" "asPart v = Some (part name xs (index p))" and now: "t0 \<le> now" "now \<le> t0 + timeoutMs g"
    using es v by (auto simp: arrives_of_def)
  have holds: "gathering name xs t0 ({} \<union> placesIn name es) (snd (gather_run g es))
    \<and> (\<forall>a\<in>set (fst (gather_run g es)). \<forall>ys. a \<noteq> Whole name ys)
    \<and> limits (snd (gather_run g es)) = limits g \<and> set (pendingGroups (snd (gather_run g es))) \<subseteq> insert name ?others"
    by (rule gather_run_holds [OF g _ fits]) (use es room finite missing p(1) in auto)
  obtain answers g1 where run: "gather_run g es = (answers, g1)" by fastforce
  have g1: "gathering name xs t0 (placesIn name es) g1" "maxBytes g1 = maxBytes g" "timeoutMs g1 = timeoutMs g" "maxGroups g1 = maxGroups g"
    using holds by (simp_all add: run limits_def)
  have places: "index p \<notin> placesIn name es" "insert (index p) (placesIn name es) = {..<length xs}"
    using p(1) by (auto simp: missing)
  have space: "int (length (collecting g1)) < maxGroups g1" if none: "placesIn name es = {}"
  proof -
    have "name \<notin> set (pendingGroups g1)"
      using g1(1) none by (auto simp: gathering_def map_of_eq_None_iff split: option.splits)
    then have "set (pendingGroups g1) \<subseteq> ?others" using holds by (auto simp: run)
    then have "card (set (pendingGroups g1)) \<le> card ?others" using finite by (intro card_mono) auto
    then show ?thesis
      using g1(1) room distinct_card [of "pendingGroups g1"] g1(4) by (simp add: gathering_def)
  qed
  have last: "fst (gatherProcess now v g1) = Whole name xs \<and> name \<notin> set (pendingGroups (snd (gatherProcess now v g1)))"
    using gathering_part [OF g1(1) now(1) _ p(2,1) _ space] now(2) fits places by (simp add: g1(2,3))
  obtain g2 where "gatherProcess now v g1 = (Whole name xs, g2)" "name \<notin> set (pendingGroups g2)"
    using last by (cases "gatherProcess now v g1") simp
  then show ?thesis
    using holds by (auto simp: gather_run_append run)
qed

section \<open>What a Spread sends\<close>

lemma asPart_partOf:
  assumes "name \<noteq> []" "length name \<le> MAX_GROUP_LENGTH" "i < n"
  shows "asPart (partOf name n i v) = Some \<lparr>item = v, groupOf = name, index = i, totalOf = n\<rparr>"
  using assms by (simp add: asPart_def partOf_def js_in_def)

lemma spread_parts:
  assumes "name \<noteq> []" "length name \<le> MAX_GROUP_LENGTH" "v \<in> set (spreadProcess name st input)"
  shows "\<exists>i. i < length (itemsAt (itemsFrom st) input) \<and> asPart v = Some (part name (itemsAt (itemsFrom st) input) i)"
  using assms by (auto simp: spreadProcess_def Let_def in_set_enumerate_eq asPart_partOf)

definition place :: "jsval \<Rightarrow> nat" where
  "place v = (case asPart v of Some p \<Rightarrow> index p | None \<Rightarrow> 0)"

lemma spread_places:
  assumes "name \<noteq> []" "length name \<le> MAX_GROUP_LENGTH"
  shows "map place (spreadProcess name st input) = [0..<length (itemsAt (itemsFrom st) input)]"
  by (rule nth_equalityI)
    (simp_all add: spreadProcess_def Let_def nth_enumerate_eq place_def asPart_partOf [OF assms])

lemma placesIn_part:
  assumes "\<forall>e\<in>set es. \<exists>p. asPart (snd e) = Some p \<and> groupOf p = name"
  shows "placesIn name es = set (map place (map snd es)) \<and> groupsIn es \<subseteq> {name}"
  using assms by (induction es rule: groupsIn.induct) (auto simp: place_def split: option.splits)

lemma part_answer: "asPart v = Some p \<Longrightarrow> fst (gatherProcess now v g) \<in> {Nothing} \<union> range (Whole (groupOf p))"
  by (auto simp: gatherProcess_def collectPart_def Let_def split: option.splits)

lemma run_answers:
  assumes "\<forall>e\<in>set es. \<exists>p. asPart (snd e) = Some p \<and> groupOf p = name"
  shows "length (fst (gather_run g es)) = length es \<and> set (fst (gather_run g es)) \<subseteq> {Nothing} \<union> range (Whole name)"
  using assms
proof (induction g es rule: gather_run.induct)
  case (2 g now v es)
  obtain answer g1 where step: "gatherProcess now v g = (answer, g1)" by fastforce
  obtain answers g2 where run: "gather_run g1 es = (answers, g2)" by fastforce
  obtain p where p: "asPart v = Some p" "groupOf p = name" using "2.prems" by auto
  show ?case
    using "2.IH" [OF step [symmetric] refl] "2.prems" part_answer [OF p(1), of now g] p(2) by (simp add: step run)
qed simp

text \<open>The limits a service may be told.\<close>

fun gather_do :: "int \<times> jsval + obj \<Rightarrow> Gather \<Rightarrow> Gather" where
  "gather_do (Inl (now, v)) g = snd (gatherProcess now v g)"
| "gather_do (Inr config) g = gatherConfigure config g"

definition bounded_by :: "int \<Rightarrow> int \<Rightarrow> Gather \<Rightarrow> bool" where
  "bounded_by b n g =
     (distinct (pendingGroups g) \<and> int (length (collecting g)) \<le> n \<and> length (refused g) \<le> MAX_REFUSED
      \<and> (\<forall>(_, c)\<in>set (collecting g). bytes c = sum_list (map (sizeOf \<circ> snd) (items c)) \<and> int (bytes c) \<le> b))"

lemma bounded_filter: "bounded_by b n g \<Longrightarrow> collecting g' = filter P (collecting g) \<Longrightarrow> length (refused g') \<le> MAX_REFUSED \<Longrightarrow> bounded_by b n g'"
  using order_trans [of "int (length (filter P (collecting g)))" "int (length (collecting g))" n]
  by (auto simp: bounded_by_def distinct_map_filter)

lemma bounded_refuse: "distinct (pendingGroups g) \<Longrightarrow> bounded_by b n (stopCollecting k g) \<Longrightarrow> bounded_by b n (refuse k now message g)"
  by (rule bounded_filter [where g = "stopCollecting k g" and P = "\<lambda>_. True"]) (auto simp: refuse_def Let_def)

lemma bounded_stop: "bounded_by b n g \<Longrightarrow> bounded_by b n (stopCollecting k g)"
  by (rule bounded_filter) (auto simp: bounded_by_def)

lemma bounded_letGo:
  assumes "bounded_by b n g"
  shows "bounded_by b n (letGoOfStale now g)"
proof (rule bounded_filter [OF assms])
  show "collecting (letGoOfStale now g) = filter (\<lambda>(_, c). fresh_enough now g c) (collecting g)"
    using assms by (intro letGoOfStale_collecting) (simp add: bounded_by_def)
  show "length (refused (letGoOfStale now g)) \<le> MAX_REFUSED"
    using assms le_trans [OF length_filter_le, of "refused g" MAX_REFUSED] by (simp add: bounded_by_def)
qed

lemma update_length: "k \<in> fst ` set cs \<Longrightarrow> length (AList.update k c cs) = length cs"
  by (induction cs) auto

lemma set_update_subset: "set (AList.update k c cs) \<subseteq> insert (k, c) (set cs)"
  by (induction cs) auto

lemma bspec_subset: "\<forall>x\<in>B. P x \<Longrightarrow> A \<subseteq> B \<Longrightarrow> \<forall>x\<in>A. P x"
  by blast

lemma bounded_collect:
  assumes g: "bounded_by b n g" and c: "(groupOf p, c) \<in> set (collecting g)" and b: "maxBytes g \<le> b"
  shows "bounded_by b n (snd (collectPart now p c g))"
proof -
  have distinct: "distinct (pendingGroups g)" using g by (simp add: bounded_by_def)
  have held: "bytes c = sum_list (map (sizeOf \<circ> snd) (items c))" using g c by (auto simp: bounded_by_def)
  have refused: "bounded_by b n (refuse (groupOf p) now message g)" for message
    by (rule bounded_refuse [OF distinct bounded_stop [OF g]])
  let ?c = "c\<lparr>items := items c @ [(index p, item p)], bytes := bytes c + sizeOf (item p)\<rparr>"
  have put: "bounded_by b n (g\<lparr>collecting := AList.update (groupOf p) ?c (collecting g), reports := r\<rparr>)"
    if "\<not> int (bytes c + sizeOf (item p)) > maxBytes g" for r
  proof -
    have "\<forall>(_, x)\<in>insert (groupOf p, ?c) (set (collecting g)). bytes x = sum_list (map (sizeOf \<circ> snd) (items x)) \<and> int (bytes x) \<le> b"
      using g b that held by (auto simp: bounded_by_def)
    then have "\<forall>(_, x)\<in>set (AList.update (groupOf p) ?c (collecting g)). bytes x = sum_list (map (sizeOf \<circ> snd) (items x)) \<and> int (bytes x) \<le> b"
      by (rule bspec_subset) (rule set_update_subset)
    moreover have "length (AList.update (groupOf p) ?c (collecting g)) = length (collecting g)"
      using c by (intro update_length) force
    ultimately show ?thesis
      using g by (simp add: bounded_by_def distinct_update)
  qed
  show ?thesis
    using g refused put bounded_stop [OF put] by (simp add: collectPart_def Let_def)
qed

lemma bounded_process:
  assumes g: "bounded_by b n g" and "maxBytes g \<le> b" "maxGroups g \<le> n" "0 \<le> b"
  shows "bounded_by b n (snd (gatherProcess now v g))"
proof (cases "asPart v")
  case None
  then show ?thesis using g by (simp add: gatherProcess_def)
next
  case (Some p)
  let ?g = "letGoOfStale now g"
  have g': "bounded_by b n ?g" by (rule bounded_letGo [OF g])
  have distinct: "distinct (pendingGroups ?g)" using g' by (simp add: bounded_by_def)
  let ?c = "\<lparr>items = [], expected = totalOf p, bytes = 0, startedAt = now\<rparr>"
  have old: "bounded_by b n (snd (collectPart now p c ?g))" if "map_of (collecting ?g) (groupOf p) = Some c" for c
    by (rule bounded_collect [OF g' map_of_SomeD [OF that]]) (simp add: assms(2))
  have new: "bounded_by b n (snd (collectPart now p ?c (?g\<lparr>collecting := collecting ?g @ [(groupOf p, ?c)]\<rparr>)))"
    if "map_of (collecting ?g) (groupOf p) = None" "\<not> int (length (collecting ?g)) \<ge> maxGroups ?g" "0 \<le> b"
  proof (rule bounded_collect)
    show "bounded_by b n (?g\<lparr>collecting := collecting ?g @ [(groupOf p, ?c)]\<rparr>)"
      using g' that assms(3) by (auto simp: bounded_by_def map_of_eq_None_iff)
  qed (simp_all add: assms(2))
  have full: "bounded_by b n (refuse (groupOf p) now message ?g)" for message
    by (rule bounded_refuse [OF distinct bounded_stop [OF g']])
  show ?thesis
    using g' old new full assms(4) by (auto simp: gatherProcess_def Some Let_def split: option.splits)
qed

lemma bounded_do: "bounded_by b n g \<Longrightarrow> maxBytes g \<le> b \<Longrightarrow> maxGroups g \<le> n \<Longrightarrow> 0 \<le> b \<Longrightarrow> bounded_by b n (gather_do step g)"
proof (cases step)
  case (Inr config)
  have "collecting (gatherConfigure config g) = collecting g \<and> refused (gatherConfigure config g) = refused g"
    by (simp add: gatherConfigure_def Let_def split: jsval.splits)
  then show "bounded_by b n g \<Longrightarrow> ?thesis" using Inr by (simp add: bounded_by_def)
qed (auto simp: bounded_process)

section \<open>Claims\<close>

text \<open>
  C16.  The parts of a group come together in any order, among parts of other groups and other values, and
  with parts sent more than once: nothing of the group is passed on until the last missing part is in, and
  then the whole is, its items in their order.  It needs room for one more group, and the parts to come
  within the timeout and to fit.
\<close>

theorem gather_any_order:
  assumes "distinct (pendingGroups g)" "name \<notin> set (pendingGroups g)" "name \<notin> fst ` set (refused g)"
    and "list_all (arrives_of name xs t0 (timeoutMs g)) (es @ [(now, v)])"
    and "int (sizes xs {..<length xs}) \<le> maxBytes g"
    and "int (card (set (pendingGroups g) \<union> groupsIn es - {name})) < maxGroups g"
    and "asPart v = Some p" "groupOf p = name" "placesIn name es = {..<length xs} - {index p}"
  shows "\<exists>answers g'. gather_run g (es @ [(now, v)]) = (answers @ [Whole name xs], g')
    \<and> (\<forall>a\<in>set answers. \<forall>ys. a \<noteq> Whole name ys) \<and> name \<notin> set (pendingGroups g')"
proof -
  have "map_of (collecting g) name = None" using assms(2) by (simp add: map_of_eq_None_iff)
  then have "gathering name xs t0 {} g" using assms(1,3) by (simp add: gathering_def)
  then show ?thesis by (rule gather_run_completes [OF _ assms(4-9)])
qed

theorem gather_any_order_witness:
  "last (fst (gather_run newGather
     ([(5, partOf ''g'' 2 1 (JStr ''b'')), (6, JNull), (6, partOf ''h'' 3 0 JNull), (8, partOf ''g'' 2 1 (JStr ''b''))] @ [(9, partOf ''g'' 2 0 (JStr ''a''))])))
   = Whole ''g'' [JStr ''a'', JStr ''b'']"
proof -
  let ?xs = "[JStr ''a'', JStr ''b'']"
  let ?es = "[(5, partOf ''g'' 2 1 (JStr ''b'')), (6, JNull), (6, partOf ''h'' 3 0 JNull), (8, partOf ''g'' 2 1 (JStr ''b''))]"
  have parts: "asPart (partOf ''g'' 2 i w) = Some \<lparr>item = w, groupOf = ''g'', index = i, totalOf = 2\<rparr>" if "i < 2" for i w
    using that by (intro asPart_partOf) (simp_all add: MAX_GROUP_LENGTH_def)
  have other: "asPart (partOf ''h'' 3 0 JNull) = Some \<lparr>item = JNull, groupOf = ''h'', index = 0, totalOf = 3\<rparr>" "asPart JNull = None"
    by (intro asPart_partOf) (simp_all add: MAX_GROUP_LENGTH_def asPart_def)
  have whole: "sizes ?xs {..<length ?xs} = 2" by code_simp
  have groups: "groupsIn ?es = {''g'', ''h''}" by (auto simp: parts other)
  have "{..<length ?xs} - {0} = {1}" by auto
  then have places: "placesIn ''g'' ?es = {..<length ?xs} - {0}" by (simp add: parts other)
  have "\<exists>answers g'. gather_run newGather (?es @ [(9, partOf ''g'' 2 0 (JStr ''a''))]) = (answers @ [Whole ''g'' ?xs], g')
    \<and> (\<forall>a\<in>set answers. \<forall>ys. a \<noteq> Whole ''g'' ys) \<and> ''g'' \<notin> set (pendingGroups g')"
    by (rule gather_any_order [where p = "\<lparr>item = JStr ''a'', groupOf = ''g'', index = 0, totalOf = 2\<rparr>" and ?t0.0 = 0])
      (use whole groups places in \<open>simp_all add: newGather_def DEFAULT_MAX_BYTES_def DEFAULT_MAX_GROUPS_def DEFAULT_TIMEOUT_MS_def
        parts other arrives_of_def\<close>)
  then show ?thesis by auto
qed

text \<open>
  C17.  Spread and Gather are inverse: what a Spread sends on, arriving in whatever order at a Gather that
  holds nothing, comes out as the array that went in, and not before its last item is in.
\<close>

theorem gather_spread:
  assumes "name \<noteq> []" "length name \<le> MAX_GROUP_LENGTH" "xs = itemsAt (itemsFrom st) input" "xs \<noteq> []"
    and "collecting g = []" "refused g = []" "0 < maxGroups g" "int (sum_list (map sizeOf xs)) \<le> maxBytes g"
    and "mset (map snd es) = mset (spreadProcess name st input)" "\<forall>e\<in>set es. t0 \<le> fst e \<and> fst e \<le> t0 + timeoutMs g"
  shows "fst (gather_run g es) = replicate (length xs - 1) Nothing @ [Whole name xs]"
proof -
  let ?n = "length xs"
  have vs: "\<exists>p. asPart (snd e) = Some p \<and> groupOf p = name \<and> index p < ?n \<and> p = part name xs (index p)" if "e \<in> set es" for e
  proof -
    have "snd e \<in># mset (map snd es)" using that by simp
    then have "snd e \<in> set (spreadProcess name st input)"
      unfolding assms(9) by simp
    then show ?thesis using spread_parts [OF assms(1,2), of "snd e" st input] assms(3) by auto
  qed
  have len: "length es = ?n"
    using arg_cong [OF assms(9), of size] by (simp add: spreadProcess_def Let_def assms(3))
  then obtain fs now v where es: "es = fs @ [(now, v)]"
    using assms(4) by (metis append_butlast_last_id length_0_conv prod.collapse)
  have "mset (map place (map snd es)) = mset [0..<?n]"
    using spread_places [OF assms(1,2), of st input] arg_cong [OF assms(9), of "image_mset place"] assms(3) by (simp flip: mset_map)
  then have places: "mset (map place (map snd fs) @ [place v]) = mset [0..<?n]" by (simp add: es)
  have "distinct (map place (map snd fs) @ [place v])" "set (map place (map snd fs) @ [place v]) = {..<?n}"
    using mset_eq_imp_distinct_iff [OF places] mset_eq_setD [OF places] by (simp, simp add: atLeast0LessThan)
  then have "place v \<notin> set (map place (map snd fs))" "insert (place v) (set (map place (map snd fs))) = {..<?n}"
    by simp_all
  then have split: "set (map place (map snd fs)) = {..<?n} - {place v}" by blast
  obtain p where p: "asPart v = Some p" "groupOf p = name" using vs [of "(now, v)"] by (auto simp: es)
  have all: "\<forall>e\<in>set es. \<exists>p. asPart (snd e) = Some p \<and> groupOf p = name" using vs by blast
  then have fs: "placesIn name fs = {..<?n} - {index p}" "groupsIn fs \<subseteq> {name}"
    using placesIn_part [of fs name] split p(1) by (simp_all add: es place_def)
  have "sizes xs {..<?n} = sum_list (map sizeOf xs)"
    by (simp add: sizes_def sum_list_sum_nth atLeast0LessThan)
  moreover have "list_all (arrives_of name xs t0 (timeoutMs g)) es"
    using vs assms(10) by (fastforce simp: list_all_iff arrives_of_def)
  moreover have none: "set (pendingGroups g) \<union> groupsIn fs - {name} = {}" using fs(2) assms(5) by auto
  have "int (card (set (pendingGroups g) \<union> groupsIn fs - {name})) < maxGroups g" unfolding none using assms(7) by simp
  moreover have "gathering name xs t0 {} g" using assms(5,6) by (simp add: gathering_def)
  ultimately obtain answers g' where run: "gather_run g es = (answers @ [Whole name xs], g')" "\<forall>a\<in>set answers. \<forall>ys. a \<noteq> Whole name ys"
    using gather_run_completes [of name xs t0 g fs now v p] assms(8) p fs(1) unfolding es by auto
  have answers: "length answers + 1 = length es" "set answers \<subseteq> {Nothing} \<union> range (Whole name)"
    using run_answers [OF all, of g] by (simp_all add: run(1))
  then have "answers = replicate (length answers) Nothing"
    using run(2) by (intro replicate_eqI) auto
  then show ?thesis
    using run(1) answers(1) len by (metis add_diff_cancel_right' fst_conv)
qed

theorem gather_spread_witness:
  "fst (gather_run newGather (map (Pair 7) (rev (spreadProcess ''g'' \<lparr>itemsFrom = ''rows''\<rparr> (JObj [(''rows'', JArr [JNull, JStr ''a''])])))))
   = [Nothing, Whole ''g'' [JNull, JStr ''a'']]"
proof -
  let ?input = "JObj [(''rows'', JArr [JNull, JStr ''a''])]"
  have "[JNull, JStr ''a''] = itemsAt (itemsFrom \<lparr>itemsFrom = ''rows''\<rparr>) ?input"
      "int (sum_list (map sizeOf [JNull, JStr ''a''])) \<le> maxBytes newGather"
    by code_simp+
  then show ?thesis
    using gather_spread [of "''g''" "[JNull, JStr ''a'']" "\<lparr>itemsFrom = ''rows''\<rparr>" ?input newGather
        "map (Pair 7) (rev (spreadProcess ''g'' \<lparr>itemsFrom = ''rows''\<rparr> ?input))" 0]
    by (simp add: newGather_def MAX_GROUP_LENGTH_def DEFAULT_MAX_GROUPS_def DEFAULT_TIMEOUT_MS_def comp_def eval_nat_numeral)
qed

text \<open>
  C18.  What is collected is bounded, whatever arrives and however the limits are set meanwhile: no more
  groups than the most that was ever allowed, no more in one of them than the most that was, as it is
  counted, and no more refusals than are remembered.
\<close>

theorem gather_bounded:
  assumes "\<forall>k\<le>length steps. maxBytes (fold gather_do (take k steps) newGather) \<le> b \<and> maxGroups (fold gather_do (take k steps) newGather) \<le> n"
  shows "bounded_by b n (fold gather_do steps newGather)"
proof -
  have "0 \<le> b" using assms [rule_format, of 0] by (simp add: newGather_def DEFAULT_MAX_BYTES_def)
  have "bounded_by b n (fold gather_do (take k steps) newGather)" if "k \<le> length steps" for k
    using that
  proof (induction k)
    case 0
    have "0 \<le> n" using assms [rule_format, of 0] by (simp add: newGather_def DEFAULT_MAX_GROUPS_def)
    then show ?case by (simp add: bounded_by_def newGather_def)
  next
    case (Suc k)
    have "take (Suc k) steps = take k steps @ [steps ! k]" using Suc.prems by (simp add: take_Suc_conv_app_nth)
    then show ?case
      using bounded_do [of b n "fold gather_do (take k steps) newGather" "steps ! k"] Suc assms [rule_format, of k] \<open>0 \<le> b\<close> by simp
  qed
  from this [of "length steps"] show ?thesis by simp
qed

theorem gather_bounded_witness:
  "length (refused (fold gather_do [Inr [(''maxGroups'', JNum (Dec 2 0))], Inl (0, partOf ''g'' 2 0 (JStr ''abc''))] newGather)) \<le> 1024"
proof -
  let ?steps = "[Inr [(''maxGroups'', JNum (Dec 2 0))], Inl (0, partOf ''g'' 2 0 (JStr ''abc''))]"
  have limits: "list_all (\<lambda>k. maxBytes (fold gather_do (take k ?steps) newGather) \<le> 67108864 \<and> maxGroups (fold gather_do (take k ?steps) newGather) \<le> 16) [0, 1, 2]"
    by code_simp
  have "k \<in> {0, 1, 2}" if "k \<le> length ?steps" for k using that by auto
  then have "\<forall>k\<le>length ?steps. maxBytes (fold gather_do (take k ?steps) newGather) \<le> 67108864 \<and> maxGroups (fold gather_do (take k ?steps) newGather) \<le> 16"
    using limits unfolding list_all_iff by (metis (no_types, lifting) list.set(1) list.set(2))
  then show ?thesis
    using gather_bounded [of ?steps 67108864 16] by (simp add: bounded_by_def MAX_REFUSED_def)
qed

text \<open>
   A part that is sent twice does not count once when it is the last of its group: a group of one is
  passed on both times.
\<close>

theorem gather_single_part_twice:
  "fst (gather_run newGather [(0, partOf ''g'' 1 0 (JStr ''a'')), (1, partOf ''g'' 1 0 (JStr ''a''))])
   = [Whole ''g'' [JStr ''a''], Whole ''g'' [JStr ''a'']]"
  by code_simp

text \<open>And a part that comes again after its group was passed on starts the group anew.\<close>

lemma gather_late_part_pending:
  "pendingGroups (snd (gather_run newGather
     [(0, partOf ''g'' 2 0 (JStr ''a'')), (1, partOf ''g'' 2 1 (JStr ''b'')), (2, partOf ''g'' 2 1 (JStr ''b''))])) = [''g'']"
  by code_simp

end
