(* ===== verification/TimerService.thy ===== *)
theory TimerService
  imports JsNumber ProcessContext "HOL-Library.AList"
begin

text \<open>
  The Timer service (\<^verbatim>\<open>runtime/browser/services/base/Timer.ts\<close>) as a state machine under a clock.  Times and
  durations are rational milliseconds, given to each call; a configuration has the fields the service
  reads, each at its type; the tempo held in a slot and the durations of the library \<^verbatim>\<open>moment\<close> are
  parameters.  The timers of the host are explicit: every live interval and every live timeout of a beat is
  listed under the handle it was given, and only \<^verbatim>\<open>clearInterval\<close> and \<^verbatim>\<open>clearTimeout\<close> with that handle end it; the
  fields of the service hold the handles it has kept.  What is due may fire at that time or any time later.
\<close>

section \<open>State\<close>

definition IMMEDIATE_DELAY :: rat where "IMMEDIATE_DELAY = 1"
definition DEFAULT_TEMPO_BPM :: rat where "DEFAULT_TEMPO_BPM = 120"

text \<open>
  The timeout of a timer that counts in beats: the immediate first tick, or the tick due at a place of the
  grid and when its timeout may fire.
\<close>

datatype beat_timer = FirstBeat rat | Beat rat rat

text \<open>
  \<open>intervals\<close> are the live intervals of the host, each under its handle with its period and its next time, and
  \<open>beats\<close> its live timeouts of beats; \<open>timerHandle\<close> and \<open>beatHandle\<close> are the handles kept in \<^verbatim>\<open>__timer\<close> and
  \<^verbatim>\<open>__beatTimer\<close>.  \<open>loose\<close> are the timeouts whose handle is not kept; \<open>delayed\<close> are the calls of \<^verbatim>\<open>process\<close>
  that wait; \<open>sent\<close> and \<open>passed\<close> are the trigger counts of the ticks and of the answers so far.
\<close>

record Timer =
  counter :: int
  periodic :: bool
  periodicValue :: rat
  periodicUnit :: string
  oneShotDelay :: rat
  oneShotDelayUnit :: string
  tempoSlot :: string
  running :: bool
  untilCount :: "int option"
  bypassed :: bool
  nextHandle :: nat
  intervals :: "(nat \<times> rat \<times> rat) list"
  beats :: "(nat \<times> beat_timer) list"
  timerHandle :: "nat option"
  beatHandle :: "nat option"
  loose :: "rat list"
  delayed :: "rat list"
  sent :: "int list"
  passed :: "int list"

definition newTimer :: Timer where
  "newTimer =
     \<lparr>counter = 0, periodic = False, periodicValue = 1, periodicUnit = ''s'', oneShotDelay = 0, oneShotDelayUnit = ''ms'',
      tempoSlot = ''tempo'', running = False, untilCount = None, bypassed = False, nextHandle = 1, intervals = [],
      beats = [], timerHandle = None, beatHandle = None, loose = [], delayed = [], sent = [], passed = []\<rparr>"

record TimerConfig =
  c_bypass :: "bool option"
  c_periodicValue :: "rat option"
  c_periodicUnit :: "string option"
  c_periodic :: "bool option"
  c_oneShotDelay :: "rat option"
  c_oneShotDelayUnit :: "string option"
  c_tempoSlot :: "string option"
  c_immediate :: bool
  c_counter :: "int option"
  c_running :: "bool option"
  c_until :: "int option"
  c_stop :: bool
  c_start :: "bool option"
  c_restart :: "bool option"

definition noConfig :: TimerConfig where
  "noConfig =
     \<lparr>c_bypass = None, c_periodicValue = None, c_periodicUnit = None, c_periodic = None, c_oneShotDelay = None,
      c_oneShotDelayUnit = None, c_tempoSlot = None, c_immediate = False, c_counter = None, c_running = None,
      c_until = None, c_stop = False, c_start = None, c_restart = None\<rparr>"

text \<open>What the timer asks of its surroundings.\<close>

record Surroundings =
  held :: "string \<Rightarrow> rat option"
  duration :: "rat \<Rightarrow> string \<Rightarrow> rat"

section \<open>Schedules\<close>

text \<open>\<^verbatim>\<open>setInterval\<close> and \<^verbatim>\<open>setTimeout\<close>, with the handle they give written over the one that is kept.\<close>

definition setIntervalTimer :: "rat \<Rightarrow> rat \<Rightarrow> Timer \<Rightarrow> Timer" where
  "setIntervalTimer now period s =
     s\<lparr>intervals := (nextHandle s, period, now + period) # intervals s, timerHandle := Some (nextHandle s),
       nextHandle := Suc (nextHandle s)\<rparr>"

definition setBeatTimeout :: "beat_timer \<Rightarrow> Timer \<Rightarrow> Timer" where
  "setBeatTimeout b s =
     s\<lparr>beats := (nextHandle s, b) # beats s, beatHandle := Some (nextHandle s), nextHandle := Suc (nextHandle s)\<rparr>"

text \<open>What the kept handles name.\<close>

definition interval :: "Timer \<Rightarrow> (rat \<times> rat) option" where
  "interval s = (case timerHandle s of None \<Rightarrow> None | Some h \<Rightarrow> map_of (intervals s) h)"

definition beatTimer :: "Timer \<Rightarrow> beat_timer option" where
  "beatTimer s = (case beatHandle s of None \<Rightarrow> None | Some h \<Rightarrow> map_of (beats s) h)"

definition hasSchedule :: "Timer \<Rightarrow> bool" where
  "hasSchedule s = (timerHandle s \<noteq> None \<or> beatHandle s \<noteq> None)"

definition cancelSchedule :: "Timer \<Rightarrow> Timer" where
  "cancelSchedule s =
     (let s = (case timerHandle s of None \<Rightarrow> s | Some h \<Rightarrow> s\<lparr>intervals := AList.delete h (intervals s), timerHandle := None\<rparr>)
      in case beatHandle s of None \<Rightarrow> s | Some h \<Rightarrow> s\<lparr>beats := AList.delete h (beats s), beatHandle := None\<rparr>)"

definition tempo :: "Surroundings \<Rightarrow> Timer \<Rightarrow> rat" where
  "tempo w s = (case held w (tempoSlot s) of Some bpm \<Rightarrow> if 0 < bpm then bpm else DEFAULT_TEMPO_BPM | None \<Rightarrow> DEFAULT_TEMPO_BPM)"

definition toMs :: "Surroundings \<Rightarrow> Timer \<Rightarrow> rat \<Rightarrow> string \<Rightarrow> rat" where
  "toMs w s v u =
     (if u = ''ms'' then v
      else if u = ''s'' then v * 1000
      else if u = ''beats'' then v * 60000 / tempo w s
      else duration w v u)"

definition clearTimerRun :: "Timer \<Rightarrow> Timer" where
  "clearTimerRun s = (if hasSchedule s then (cancelSchedule s)\<lparr>counter := 0, running := False\<rparr> else s)"

section \<open>Ticks\<close>

text \<open>The callback of every schedule: at its count the timer stops instead of ticking.\<close>

definition tick :: "Timer \<Rightarrow> Timer" where
  "tick s =
     (case untilCount s of
        Some n \<Rightarrow> if n \<noteq> 0 \<and> counter s \<ge> n then clearTimerRun s else s\<lparr>counter := counter s + 1, sent := sent s @ [counter s + 1]\<rparr>
      | None \<Rightarrow> s\<lparr>counter := counter s + 1, sent := sent s @ [counter s + 1]\<rparr>)"

definition scheduleBeatTick :: "Surroundings \<Rightarrow> rat \<Rightarrow> rat \<Rightarrow> Timer \<Rightarrow> Timer" where
  "scheduleBeatTick w now previousDue s =
     (let due = previousDue + toMs w s (periodicValue s) ''beats''
      in setBeatTimeout (Beat due (max now due)) s)"

text \<open>
  The callbacks of the host: an interval stays live when it fires; a timeout is gone, its handle still kept,
  when its callback schedules the next one.
\<close>

definition fireIntervalOf :: "nat \<Rightarrow> Timer \<Rightarrow> Timer" where
  "fireIntervalOf h s =
     (case map_of (intervals s) h of
        None \<Rightarrow> s
      | Some (period, due) \<Rightarrow> tick (s\<lparr>intervals := AList.update h (period, due + period) (intervals s)\<rparr>))"

definition fireBeatOf :: "Surroundings \<Rightarrow> rat \<Rightarrow> nat \<Rightarrow> Timer \<Rightarrow> Timer" where
  "fireBeatOf w now h s =
     (let fired = s\<lparr>beats := AList.delete h (beats s)\<rparr>
      in case map_of (beats s) h of
           None \<Rightarrow> s
         | Some (FirstBeat _) \<Rightarrow> tick (scheduleBeatTick w now now fired)
         | Some (Beat due _) \<Rightarrow> tick (scheduleBeatTick w now due fired))"

definition fireInterval :: "Timer \<Rightarrow> Timer" where
  "fireInterval s = (case timerHandle s of None \<Rightarrow> s | Some h \<Rightarrow> fireIntervalOf h s)"

definition fireBeat :: "Surroundings \<Rightarrow> rat \<Rightarrow> Timer \<Rightarrow> Timer" where
  "fireBeat w now s = (case beatHandle s of None \<Rightarrow> s | Some h \<Rightarrow> fireBeatOf w now h s)"

definition fireLoose :: "rat \<Rightarrow> Timer \<Rightarrow> Timer" where
  "fireLoose due s = tick (s\<lparr>loose := remove1 due (loose s)\<rparr>)"

section \<open>Configuration\<close>

text \<open>
  The settings, in the order they are read, with what they make of \<open>doStart\<close>.  A timer that runs is
  silently restarted where its period changes.
\<close>

definition restartFor :: "TimerConfig \<Rightarrow> Timer \<times> bool option \<Rightarrow> Timer \<times> bool option" where
  "restartFor cfg sd =
     (case sd of (s, doStart) \<Rightarrow>
        if doStart = None \<and> c_running cfg = Some True then (s, Some True)
        else if running s then (cancelSchedule s, Some True) else (s, doStart))"

definition setPeriod :: "TimerConfig \<Rightarrow> Timer \<times> bool option \<Rightarrow> Timer \<times> bool option" where
  "setPeriod cfg sd =
     (let sd = (case c_periodicValue cfg of None \<Rightarrow> sd | Some v \<Rightarrow> restartFor cfg ((fst sd)\<lparr>periodicValue := v\<rparr>, snd sd));
          sd = (case c_periodicUnit cfg of None \<Rightarrow> sd | Some u \<Rightarrow> restartFor cfg ((fst sd)\<lparr>periodicUnit := u\<rparr>, snd sd))
      in case c_periodic cfg of
           None \<Rightarrow> sd
         | Some p \<Rightarrow> ((fst sd)\<lparr>periodic := p\<rparr>, if snd sd = None \<and> c_running cfg = Some True then Some True else snd sd))"

definition setOthers :: "TimerConfig \<Rightarrow> Timer \<Rightarrow> Timer" where
  "setOthers cfg s =
     s\<lparr>oneShotDelay := (case c_oneShotDelay cfg of Some d \<Rightarrow> d | None \<Rightarrow> oneShotDelay s),
       counter := (case c_counter cfg of Some n \<Rightarrow> n | None \<Rightarrow> counter s),
       untilCount := (case c_until cfg of Some n \<Rightarrow> Some n | None \<Rightarrow> untilCount s),
       oneShotDelayUnit := (case c_oneShotDelayUnit cfg of Some u \<Rightarrow> u | None \<Rightarrow> oneShotDelayUnit s),
       tempoSlot := (case c_tempoSlot cfg of Some t \<Rightarrow> if t \<noteq> [] then t else tempoSlot s | None \<Rightarrow> tempoSlot s)\<rparr>"

definition periodMs :: "Surroundings \<Rightarrow> Timer \<Rightarrow> rat" where
  "periodMs w s =
     (if periodicUnit s = ''bpm'' then 60000 / periodicValue s
      else if periodicUnit s = ''hz'' then 1000 / periodicValue s
      else toMs w s (periodicValue s) (periodicUnit s))"

definition startTimer :: "Surroundings \<Rightarrow> rat \<Rightarrow> bool \<Rightarrow> Timer \<Rightarrow> Timer" where
  "startTimer w now immediate s0 =
     (let s = clearTimerRun s0 in
      if periodic s then
        if periodicUnit s = ''beats''
        then if immediate then setBeatTimeout (FirstBeat (now + IMMEDIATE_DELAY)) s else scheduleBeatTick w now now s
        else (setIntervalTimer now (periodMs w s) s)\<lparr>loose := loose s @ (if immediate then [now + IMMEDIATE_DELAY] else [])\<rparr>
      else s\<lparr>loose := loose s @ [now + (if immediate then IMMEDIATE_DELAY else toMs w s (oneShotDelay s) (oneShotDelayUnit s))]\<rparr>)"

definition timerConfigure :: "Surroundings \<Rightarrow> rat \<Rightarrow> TimerConfig \<Rightarrow> Timer \<Rightarrow> Timer" where
  "timerConfigure w now cfg s0 =
     (if c_bypass cfg = Some True \<or> bypassed s0 then clearTimerRun s0
      else
        let doStop = c_stop cfg \<or> c_restart cfg = Some True \<or> (running s0 \<and> c_running cfg = Some False);
            (s, doStart) = setPeriod cfg (s0, if c_start cfg = Some True then Some True else c_restart cfg);
            s = setOthers cfg s;
            s = (if doStop then clearTimerRun s else s);
            s = (if doStart = Some True then startTimer w now (c_immediate cfg) s else s)
        in s\<lparr>running := hasSchedule s\<rparr>)"

definition timerDestroy :: "Timer \<Rightarrow> Timer" where
  "timerDestroy s = clearTimerRun s"

text \<open>\<^verbatim>\<open>process\<close>: what passes at once, or waits its delay; and the answer once it has.\<close>

definition timerProcess :: "Surroundings \<Rightarrow> rat \<Rightarrow> Timer \<Rightarrow> Timer" where
  "timerProcess w now s =
     (if periodic s then s
      else
        let delayMs = toMs w s (oneShotDelay s) (oneShotDelayUnit s); rounded = of_int \<lfloor>delayMs + 1/2\<rfloor>
        in s\<lparr>delayed := delayed s @ [now + max 0 rounded]\<rparr>)"

definition timerAnswer :: "rat \<Rightarrow> Timer \<Rightarrow> Timer" where
  "timerAnswer due s = s\<lparr>delayed := remove1 due (delayed s), counter := counter s + 1, passed := passed s @ [counter s + 1]\<rparr>"

section \<open>The timer in time\<close>

inductive timing :: "rat \<times> Surroundings \<times> Timer \<Rightarrow> rat \<times> Surroundings \<times> Timer \<Rightarrow> bool" where
  configured: "timing (now, w, s) (now, w, timerConfigure w now cfg s)"
| bypass: "timing (now, w, s) (now, w, s\<lparr>bypassed := b\<rparr>)"
| interval: "map_of (intervals s) h = Some (period, due) \<Longrightarrow> due \<le> now \<Longrightarrow> timing (now, w, s) (now, w, fireIntervalOf h s)"
| first: "map_of (beats s) h = Some (FirstBeat due) \<Longrightarrow> due \<le> now \<Longrightarrow> timing (now, w, s) (now, w, fireBeatOf w now h s)"
| beat: "map_of (beats s) h = Some (Beat due fires) \<Longrightarrow> fires \<le> now \<Longrightarrow> timing (now, w, s) (now, w, fireBeatOf w now h s)"
| loose: "due \<in> set (loose s) \<Longrightarrow> due \<le> now \<Longrightarrow> timing (now, w, s) (now, w, fireLoose due s)"
| called: "timing (now, w, s) (now, w, timerProcess w now s)"
| answered: "due \<in> set (delayed s) \<Longrightarrow> due \<le> now \<Longrightarrow> timing (now, w, s) (now, w, timerAnswer due s)"
| destroyed: "timing (now, w, s) (now, w, timerDestroy s)"
| held: "timing (now, w, s) (now, w\<lparr>held := h\<rparr>, s)"
| passes: "now \<le> later \<Longrightarrow> timing (now, w, s) (later, w, s)"

text \<open>
  The timer says that it runs exactly where it keeps a handle; what is live is what the kept handles name, and
  it keeps at most one.
\<close>

definition kept :: "nat option \<Rightarrow> nat list" where
  "kept h = (case h of None \<Rightarrow> [] | Some h \<Rightarrow> [h])"

definition handles_kept :: "Timer \<Rightarrow> bool" where
  "handles_kept s =
     (map fst (intervals s) = kept (timerHandle s) \<and> map fst (beats s) = kept (beatHandle s)
      \<and> (timerHandle s = None \<or> beatHandle s = None))"

definition scheduled_once :: "Timer \<Rightarrow> bool" where
  "scheduled_once s = (running s = hasSchedule s \<and> handles_kept s)"

lemma kept_simps [simp]: "kept None = []" "kept (Some h) = [h]"
  by (simp_all add: kept_def)

lemma keys_single: "map fst xs = [h] \<Longrightarrow> AList.delete h xs = []"
  by (auto simp: AList.delete_eq map_eq_Cons_conv)

lemma cancel_simps [simp]: "timerHandle (cancelSchedule s) = None" "beatHandle (cancelSchedule s) = None"
  "loose (cancelSchedule s) = loose s" "periodic (cancelSchedule s) = periodic s" "running (cancelSchedule s) = running s"
  by (simp_all add: cancelSchedule_def Let_def split: option.split)

lemma cancel_nothing_live: "handles_kept s \<Longrightarrow> intervals (cancelSchedule s) = [] \<and> beats (cancelSchedule s) = []"
  by (auto simp: handles_kept_def cancelSchedule_def Let_def keys_single split: option.split)

lemma clear_unscheduled [simp]: "timerHandle (clearTimerRun s) = None" "beatHandle (clearTimerRun s) = None"
  by (auto simp: clearTimerRun_def hasSchedule_def)

lemma kept_cancel: "handles_kept s \<Longrightarrow> handles_kept (cancelSchedule s)"
  using cancel_nothing_live [of s] by (simp add: handles_kept_def)

lemma kept_clear: "handles_kept s \<Longrightarrow> handles_kept (clearTimerRun s)"
  using kept_cancel [of s] by (simp add: clearTimerRun_def handles_kept_def)

lemma clear_nothing_live: "handles_kept s \<Longrightarrow> intervals (clearTimerRun s) = [] \<and> beats (clearTimerRun s) = []"
  using kept_clear [of s] by (simp add: handles_kept_def)

lemma once_clear [simp]: "scheduled_once s \<Longrightarrow> scheduled_once (clearTimerRun s)"
  using kept_clear [of s] by (auto simp: scheduled_once_def clearTimerRun_def hasSchedule_def)

lemma once_tick: "scheduled_once s \<Longrightarrow> scheduled_once (tick s)"
  by (auto simp: tick_def split: option.splits) (simp_all add: scheduled_once_def handles_kept_def hasSchedule_def)

lemma kept_restartFor: "handles_kept (fst sd) \<Longrightarrow> handles_kept (fst (restartFor cfg sd))"
  by (auto simp: restartFor_def kept_cancel split: prod.split)

lemma kept_fields:
  "handles_kept (s\<lparr>periodicValue := v\<rparr>) = handles_kept s" "handles_kept (s\<lparr>periodicUnit := u\<rparr>) = handles_kept s"
  "handles_kept (s\<lparr>periodic := p\<rparr>) = handles_kept s" "handles_kept (setOthers cfg s) = handles_kept s"
  "handles_kept (s\<lparr>running := b\<rparr>) = handles_kept s"
  by (simp_all add: handles_kept_def setOthers_def)

lemma kept_setPeriod: "handles_kept (fst sd) \<Longrightarrow> handles_kept (fst (setPeriod cfg sd))"
  by (simp add: setPeriod_def Let_def kept_fields kept_restartFor split: option.split)

lemma kept_startTimer: "handles_kept s \<Longrightarrow> handles_kept (startTimer w now immediate s)"
  using clear_nothing_live [of s]
  by (simp add: startTimer_def Let_def scheduleBeatTick_def setBeatTimeout_def setIntervalTimer_def handles_kept_def)

lemma once_configure:
  assumes "scheduled_once s"
  shows "scheduled_once (timerConfigure w now cfg s)"
proof (cases "c_bypass cfg = Some True \<or> bypassed s")
  case False
  obtain t doStart where t: "setPeriod cfg (s, if c_start cfg = Some True then Some True else c_restart cfg) = (t, doStart)"
    by fastforce
  have "handles_kept t"
    using assms kept_setPeriod [of "(s, if c_start cfg = Some True then Some True else c_restart cfg)" cfg] t
    by (simp add: scheduled_once_def)
  then have "handles_kept (if stop then clearTimerRun (setOthers cfg t) else setOthers cfg t)" for stop
    by (simp add: kept_clear kept_fields)
  then have "handles_kept (timerConfigure w now cfg s)"
    using False by (simp add: timerConfigure_def t Let_def kept_fields kept_startTimer)
  moreover have "running (timerConfigure w now cfg s) = hasSchedule (timerConfigure w now cfg s)"
    using False by (simp add: timerConfigure_def t Let_def hasSchedule_def)
  ultimately show ?thesis by (simp add: scheduled_once_def)
qed (use assms in \<open>simp add: timerConfigure_def\<close>)

lemma kept_found: "map fst xs = kept h \<Longrightarrow> map_of xs k = Some v \<Longrightarrow> h = Some k \<and> xs = [(k, v)]"
  by (cases h) (auto simp: map_eq_Cons_conv split: if_splits)

lemma once_fireInterval:
  assumes "scheduled_once s" "map_of (intervals s) h = Some (period, due)"
  shows "scheduled_once (fireIntervalOf h s)"
  using assms(1) kept_found [OF _ assms(2)] assms(2)
  by (simp add: fireIntervalOf_def) (intro once_tick, auto simp: scheduled_once_def handles_kept_def hasSchedule_def)

lemma once_fireBeat:
  assumes "scheduled_once s" "map_of (beats s) h = Some b"
  shows "scheduled_once (fireBeatOf w now h s)"
proof -
  have "beatHandle s = Some h" "beats s = [(h, b)]" "timerHandle s = None" "intervals s = []" "running s"
    using assms(1) kept_found [OF _ assms(2)] by (auto simp: scheduled_once_def handles_kept_def hasSchedule_def)
  then have "scheduled_once (scheduleBeatTick w now prev (s\<lparr>beats := AList.delete h (beats s)\<rparr>))" for prev
    by (simp add: scheduled_once_def handles_kept_def hasSchedule_def scheduleBeatTick_def setBeatTimeout_def Let_def)
  then show ?thesis
    using assms(2) by (cases b) (simp_all add: fireBeatOf_def once_tick)
qed

lemma once_timing: "timing x y \<Longrightarrow> scheduled_once (snd (snd x)) \<Longrightarrow> scheduled_once (snd (snd y))"
proof (induction rule: timing.induct)
  case (loose due s now w)
  then show ?case
    by (simp add: fireLoose_def) (intro once_tick, simp add: scheduled_once_def handles_kept_def hasSchedule_def)
qed (simp_all add: once_configure once_fireInterval once_fireBeat timerDestroy_def,
    simp_all add: scheduled_once_def handles_kept_def hasSchedule_def timerProcess_def timerAnswer_def Let_def)

section \<open>Counting ticks\<close>

lemma tick_counts: "untilCount s = Some n \<Longrightarrow> 0 < n \<Longrightarrow> counter s < n \<Longrightarrow> tick s = s\<lparr>counter := counter s + 1, sent := sent s @ [counter s + 1]\<rparr>"
  by (simp add: tick_def)

lemma tick_stops: "untilCount s = Some n \<Longrightarrow> 0 < n \<Longrightarrow> n \<le> counter s \<Longrightarrow> tick s = clearTimerRun s"
  by (simp add: tick_def)

lemma upto_snoc: "[a + 1..a + int (Suc k)] = [a + 1..a + int k] @ [a + int k + 1]"
  by (subst upto_rec2) simp_all

lemma interval_handle: "interval s = Some (period, due) \<Longrightarrow> \<exists>h. timerHandle s = Some h \<and> map_of (intervals s) h = Some (period, due)"
  by (simp add: interval_def split: option.splits)

lemma fireInterval_counts:
  assumes "timerHandle s = Some h" "map_of (intervals s) h = Some (period, due)" "untilCount s = Some n" "0 < n" "counter s + int k \<le> n"
  shows "\<exists>live. map_of live h = Some (period, due + of_nat k * period)
    \<and> (fireInterval ^^ k) s = s\<lparr>intervals := live, counter := counter s + int k, sent := sent s @ [counter s + 1..counter s + int k]\<rparr>"
  using assms(5)
proof (induction k)
  case 0
  then show ?case using assms(2) by (intro exI [of _ "intervals s"]) simp
next
  case (Suc k)
  then obtain live where live: "map_of live h = Some (period, due + of_nat k * period)"
    and t: "(fireInterval ^^ k) s = s\<lparr>intervals := live, counter := counter s + int k, sent := sent s @ [counter s + 1..counter s + int k]\<rparr>"
    by auto
  let ?next = "AList.update h (period, due + of_nat (Suc k) * period) live"
  have "(fireInterval ^^ Suc k) s = s\<lparr>intervals := ?next, counter := counter s + int k + 1,
      sent := (sent s @ [counter s + 1..counter s + int k]) @ [counter s + int k + 1]\<rparr>"
    using Suc.prems assms(1,3,4) live by (simp add: t fireInterval_def fireIntervalOf_def tick_counts algebra_simps)
  also have "\<dots> = s\<lparr>intervals := ?next, counter := counter s + int (Suc k), sent := sent s @ [counter s + 1..counter s + int (Suc k)]\<rparr>"
    unfolding upto_snoc by simp
  finally show ?case by (intro exI [of _ ?next]) (simp add: update_conv')
qed

lemma fireBeat_next:
  assumes "beatTimer s = Some (Beat due fires)" "untilCount s = None"
  shows "beatTimer (fireBeat w now s)
      = Some (Beat (due + toMs w s (periodicValue s) ''beats'') (max now (due + toMs w s (periodicValue s) ''beats'')))"
    "sent (fireBeat w now s) = sent s @ [counter s + 1]"
    "untilCount (fireBeat w now s) = None" "tempoSlot (fireBeat w now s) = tempoSlot s"
    "periodicValue (fireBeat w now s) = periodicValue s" "counter (fireBeat w now s) = counter s + 1"
  using assms by (auto simp: beatTimer_def fireBeat_def fireBeatOf_def tick_def scheduleBeatTick_def setBeatTimeout_def toMs_def tempo_def Let_def
      split: option.splits)

section \<open>Claims\<close>

text \<open>
  C28.  In every execution at most one of the host's intervals and timeouts of beats is live, it is the one
  whose handle the timer keeps, and the timer says that it runs exactly where there is one: however it is
  configured, no second series of ticks is started beside the first, and none goes on that nothing can stop.
\<close>

theorem timer_one_schedule:
  assumes "timing\<^sup>*\<^sup>* (now, w, newTimer) (later, w', s)"
  shows "length (intervals s) + length (beats s) \<le> 1 \<and> running s = (intervals s \<noteq> [] \<or> beats s \<noteq> [])
    \<and> map fst (intervals s) = (case timerHandle s of None \<Rightarrow> [] | Some h \<Rightarrow> [h])
    \<and> map fst (beats s) = (case beatHandle s of None \<Rightarrow> [] | Some h \<Rightarrow> [h])"
proof -
  have "scheduled_once (snd (snd y))" if "timing\<^sup>*\<^sup>* x y" "scheduled_once (snd (snd x))" for x y
    using that by (induction rule: rtranclp_induct) (auto intro: once_timing)
  moreover have "scheduled_once newTimer"
    by (simp add: scheduled_once_def handles_kept_def newTimer_def hasSchedule_def)
  ultimately have "scheduled_once s" using assms by fastforce
  then show ?thesis
    by (cases "timerHandle s"; cases "beatHandle s") (auto simp: scheduled_once_def handles_kept_def hasSchedule_def)
qed

abbreviation plain :: Surroundings where
  "plain \<equiv> \<lparr>held = (\<lambda>_. None), duration = (\<lambda>v _. v)\<rparr>"

abbreviation everySecond :: Timer where
  "everySecond \<equiv> timerConfigure plain 0 (noConfig\<lparr>c_periodic := Some True, c_start := Some True\<rparr>) newTimer"

theorem timer_one_schedule_witness: "running everySecond \<and> intervals everySecond = [(1, 1000, 1000)] \<and> beats everySecond = []"
proof -
  have "timing (0, plain, newTimer) (0, plain, everySecond)" by (rule timing.configured)
  then have "length (intervals everySecond) + length (beats everySecond) \<le> 1
      \<and> running everySecond = (intervals everySecond \<noteq> [] \<or> beats everySecond \<noteq> [])"
    using timer_one_schedule [of 0 plain 0 plain everySecond] by auto
  moreover have "intervals everySecond = [(1, 1000, 1000)]"
    by (simp add: timerConfigure_def setPeriod_def setOthers_def noConfig_def newTimer_def startTimer_def Let_def clearTimerRun_def
        hasSchedule_def periodMs_def toMs_def setIntervalTimer_def)
  ultimately show ?thesis by simp
qed

text \<open>
   A timer told to run until a count ticks once for every count that is left, in order, and at the next
  tick stops, its counter back at zero.
\<close>

theorem timer_until:
  assumes "interval s = Some (period, due)" "untilCount s = Some n" "0 < n" "counter s \<le> n"
  shows "sent ((fireInterval ^^ nat (n - counter s)) s) = sent s @ [counter s + 1..n]
    \<and> hasSchedule ((fireInterval ^^ nat (n - counter s)) s)
    \<and> (let stopped = (fireInterval ^^ Suc (nat (n - counter s))) s
       in sent stopped = sent s @ [counter s + 1..n] \<and> \<not> hasSchedule stopped \<and> \<not> running stopped \<and> counter stopped = 0)"
proof -
  let ?k = "nat (n - counter s)"
  obtain h where h: "timerHandle s = Some h" "map_of (intervals s) h = Some (period, due)"
    using interval_handle [OF assms(1)] by blast
  obtain live where live: "map_of live h = Some (period, due + of_nat ?k * period)"
    and all: "(fireInterval ^^ ?k) s = s\<lparr>intervals := live, counter := n, sent := sent s @ [counter s + 1..n]\<rparr>"
    using fireInterval_counts [OF h assms(2,3), of ?k] assms(4) by auto
  have "(fireInterval ^^ Suc ?k) s = fireInterval ((fireInterval ^^ ?k) s)" by simp
  with all live h show ?thesis
    using assms(2,3) by (simp add: fireInterval_def fireIntervalOf_def tick_stops clearTimerRun_def hasSchedule_def Let_def)
      (simp add: cancelSchedule_def Let_def split: option.split)
qed

theorem timer_until_witness:
  "sent ((fireInterval ^^ 3) (newTimer\<lparr>intervals := [(0, 10, 10)], timerHandle := Some 0, untilCount := Some 3\<rparr>)) = [1, 2, 3]"
proof -
  let ?s = "newTimer\<lparr>intervals := [(0, 10, 10)], timerHandle := Some 0, untilCount := Some 3\<rparr>"
  have "[1..3] = [1, 2, 3 :: int]" by (simp add: upto.simps)
  then show ?thesis
    using timer_until [of ?s 10 10 3] by (simp add: newTimer_def interval_def)
qed

text \<open>
   A running timer that is given its period along with the order to stop keeps running: the new period
  restarts it, and the order to stop finds nothing to stop.
\<close>

theorem timer_not_stopped_with_period:
  assumes "running s" "periodic s" "\<not> bypassed s" "c_bypass cfg \<noteq> Some True" "c_periodicValue cfg = Some v"
    and "c_running cfg = Some False \<or> c_stop cfg" "c_running cfg \<noteq> Some True" "c_periodic cfg \<noteq> Some False"
  shows "running (timerConfigure w now cfg s) \<and> hasSchedule (timerConfigure w now cfg s)"
proof -
  obtain t d where t: "setPeriod cfg (s, if c_start cfg = Some True then Some True else c_restart cfg) = (t, d)" by fastforce
  have "d = Some True \<and> periodic t"
    using t assms by (auto simp: setPeriod_def restartFor_def Let_def split: option.splits if_splits)
  moreover have "hasSchedule (startTimer w now b u)" if "periodic u" for b u
    using that by (auto simp: startTimer_def Let_def scheduleBeatTick_def setBeatTimeout_def setIntervalTimer_def hasSchedule_def clearTimerRun_def)
  moreover have "periodic (if stop then clearTimerRun (setOthers cfg t) else setOthers cfg t) = periodic t" for stop
    by (simp add: clearTimerRun_def setOthers_def)
  ultimately show ?thesis
    using assms(3,4) by (simp add: timerConfigure_def t Let_def hasSchedule_def)
qed

theorem timer_not_stopped_with_period_witness:
  "running (timerConfigure plain 5 (noConfig\<lparr>c_running := Some False, c_periodicValue := Some 2\<rparr>)
     (newTimer\<lparr>periodic := True, running := True, intervals := [(0, 1000, 1000)], timerHandle := Some 0\<rparr>))"
  using timer_not_stopped_with_period [of "newTimer\<lparr>periodic := True, running := True, intervals := [(0, 1000, 1000)], timerHandle := Some 0\<rparr>"
      "noConfig\<lparr>c_running := Some False, c_periodicValue := Some 2\<rparr>" 2 plain 5]
  by (simp add: newTimer_def noConfig_def)

text \<open>
  C30.  The ticks of a timer that counts in beats stay on the grid it was started on: whenever each of
  them fires, the next one is due a whole number of beats after the start.
\<close>

theorem timer_beats_on_grid:
  assumes "beatTimer s = Some (Beat (start + toMs w s (periodicValue s) ''beats'') fires)" "untilCount s = None"
  shows "\<exists>fires'. beatTimer (fold (fireBeat w) firings s)
      = Some (Beat (start + of_nat (Suc (length firings)) * toMs w s (periodicValue s) ''beats'') fires')
    \<and> sent (fold (fireBeat w) firings s) = sent s @ [counter s + 1..counter s + int (length firings)]"
proof (induction firings rule: rev_induct)
  case Nil
  then show ?case using assms(1) by simp
next
  case (snoc now firings)
  let ?t = "fold (fireBeat w) firings s"
  have same: "untilCount (fold (fireBeat w) ts u) = None \<and> tempoSlot (fold (fireBeat w) ts u) = tempoSlot u
      \<and> periodicValue (fold (fireBeat w) ts u) = periodicValue u \<and> counter (fold (fireBeat w) ts u) = counter u + int (length ts)"
    if "untilCount u = None" "beatTimer u = Some (Beat d f)" for ts u d f
    using that
  proof (induction ts arbitrary: u d f)
    case (Cons now ts)
    note step = fireBeat_next [OF Cons.prems(2,1), of w now]
    show ?case using Cons.IH [OF step(3,1)] step(4-6) by simp
  qed simp
  obtain fires' where t: "beatTimer ?t = Some (Beat (start + of_nat (Suc (length firings)) * toMs w s (periodicValue s) ''beats'') fires')"
      "sent ?t = sent s @ [counter s + 1..counter s + int (length firings)]"
    using snoc by blast
  have keeps: "untilCount ?t = None" "toMs w ?t (periodicValue ?t) ''beats'' = toMs w s (periodicValue s) ''beats''" "counter ?t = counter s + int (length firings)"
    using same [OF assms(2,1), of firings] by (simp_all add: toMs_def tempo_def)
  have "[counter s + 1..counter s + int (length (firings @ [now]))] = [counter s + 1..counter s + int (length firings)] @ [counter s + int (length firings) + 1]"
    using upto_snoc [of "counter s" "length firings"] by simp
  moreover note fireBeat_next(1,2) [OF t(1) keeps(1), of w now, unfolded keeps(2)]
  ultimately show ?case
    using t(2) keeps(3) by (simp add: algebra_simps)
qed

theorem timer_beats_on_grid_witness:
  "\<exists>fires. beatTimer (fold (fireBeat plain) [503, 1009] (newTimer\<lparr>beats := [(0, Beat 500 500)], beatHandle := Some 0\<rparr>)) = Some (Beat 1500 fires)"
  using timer_beats_on_grid [of "newTimer\<lparr>beats := [(0, Beat 500 500)], beatHandle := Some 0\<rparr>" 0 plain 500 "[503, 1009]"]
  by (simp add: newTimer_def beatTimer_def toMs_def tempo_def DEFAULT_TEMPO_BPM_def)

text \<open>A tick whose timeout is not kept comes whether the timer is stopped or destroyed before.\<close>

lemma timer_loose_survives: "loose (timerDestroy s) = loose s" "loose (timerConfigure w now (noConfig\<lparr>c_stop := True\<rparr>) s) = loose s"
  by (simp_all add: timerDestroy_def clearTimerRun_def timerConfigure_def setPeriod_def setOthers_def noConfig_def Let_def)

end
