(* ===== verification/OverviewGraph.thy ===== *)
theory OverviewGraph
  imports BoardAddress
begin

text \<open>
  The overview of a board (\<^verbatim>\<open>hkp-frontend/src/overview/graph.ts\<close>): every service at every depth placed on a
  lattice, and the edges between them.  The ids of services are strings; the middle of the scene and
  its radius, which only frame the view, are not modelled.
\<close>

section \<open>The scene\<close>

definition COLUMN_SPACING :: int where "COLUMN_SPACING = 460"
definition LANE_SPACING :: int where "LANE_SPACING = 280"
definition ROW_SPACING :: int where "ROW_SPACING = 120"
definition LAYER_SPACING :: int where "LAYER_SPACING = 300"

datatype OverviewEdgeKind = Sequence | Handoff | Contains

record OverviewEdge =
  source :: string
  target :: string
  kind :: OverviewEdgeKind

record OverviewNode =
  key :: string
  nodeUuid :: string
  label :: jsval
  nodeServiceId :: jsval
  runtimeId :: jsval
  depth :: nat
  index :: nat
  parent :: "string option"
  pipelineName :: "string option"
  ancestry :: "string list"
  bypassed :: bool
  nodeState :: jsval
  x :: int
  y :: int
  z :: int

record OverviewRuntime =
  rtId :: jsval
  rtLabel :: jsval
  rtType :: string
  rtColor :: jsval
  rtX :: int
  rtY :: int
  rtZ :: int

section \<open>The pipelines a service holds\<close>

definition isEntry :: "jsval \<Rightarrow> bool" where
  "isEntry v = (case v of JObj es \<Rightarrow> is_str (oget es ''serviceId'') | _ \<Rightarrow> False)"

definition itemName :: "jsval \<Rightarrow> string option" where
  "itemName v = (case v of JObj es \<Rightarrow> (case oget es ''name'' of JStr n \<Rightarrow> if n \<noteq> [] then Some n else None | _ \<Rightarrow> None) | _ \<Rightarrow> None)"

fun visit :: "jsval \<Rightarrow> string \<Rightarrow> bool \<Rightarrow> (string \<times> jsval list) list"
  and visit_items :: "jsval list \<Rightarrow> nat \<Rightarrow> string \<Rightarrow> bool \<Rightarrow> (string \<times> jsval list) list"
  and visit_fields :: "(string \<times> jsval) list \<Rightarrow> string \<Rightarrow> bool \<Rightarrow> (string \<times> jsval list) list" where
  "visit (JArr xs) name named =
     (let entries = filter isEntry xs
      in if entries \<noteq> [] then [(name, entries)] else visit_items xs 1 name named)"
| "visit (JObj es) name named = visit_fields es name named"
| "visit _ name named = []"
| "visit_items [] order name named = []"
| "visit_items (item # items) order name named =
     visit item (case itemName item of Some own \<Rightarrow> own | None \<Rightarrow> if named then name else name @ '' '' @ show_nat order) True
       @ visit_items items (Suc order) name named"
| "visit_fields [] name named = []"
| "visit_fields ((k, v) # es) name named = visit v (if named then name else k) named @ visit_fields es name named"

text \<open>Pipelines of one name are numbered, from the second on.\<close>

fun numberNames :: "string list \<Rightarrow> (string \<times> jsval list) list \<Rightarrow> (string \<times> jsval list) list" where
  "numberNames taken [] = []"
| "numberNames taken ((name, entries) # found) =
     (let seen = Suc (count_list taken name)
      in (if seen > 1 then name @ '' '' @ show_nat seen else name, entries) # numberNames (name # taken) found)"

definition pipelinesOf :: "jsval \<Rightarrow> (string \<times> jsval list) list" where
  "pipelinesOf service = numberNames [] (visit (field service ''state'') ''pipeline'' False)"

text \<open>What a service holds is smaller than it.\<close>

definition held_weight :: "(string \<times> jsval list) list \<Rightarrow> nat" where
  "held_weight ps = sum_list (map (\<lambda>p. size_list size (snd p) + 1) ps)"

lemma size_list_filter: "size_list size (filter P xs) \<le> size_list size (xs :: jsval list)"
  by (induction xs) auto

lemma weight_visit:
  "held_weight (visit v name named) \<le> size v"
  "held_weight (visit_items xs order name named) \<le> size_list size xs"
  "held_weight (visit_fields es name named) \<le> size_list (size_prod (\<lambda>_. 0) size) es"
proof (induction v name named and xs order name named and es name named rule: visit_visit_items_visit_fields.induct)
  case (1 xs name named)
  then show ?case using size_list_filter [of isEntry xs] by (cases "filter isEntry xs = []") (simp_all add: held_weight_def Let_def)
qed (simp_all add: held_weight_def)

lemma weight_number: "held_weight (numberNames taken ps) = held_weight ps"
  by (induction taken ps rule: numberNames.induct) (simp_all add: held_weight_def Let_def)

lemma size_oget: "oget es k = JUndef \<or> size (oget es k) < size (JObj es)"
  by (induction es) (auto simp: oget_def)

lemma weight_pipelinesOf: "held_weight (pipelinesOf service) < size service \<or> pipelinesOf service = []"
proof (cases service)
  case (JObj es)
  show ?thesis
  proof (cases "oget es ''state'' = JUndef")
    case True
    then show ?thesis by (simp add: JObj pipelinesOf_def field_def)
  next
    case False
    then show ?thesis
      using size_oget [of es "''state''"] weight_visit(1) [of "oget es ''state''" "''pipeline''" False]
      by (simp add: JObj pipelinesOf_def field_def weight_number)
  qed
qed (simp_all add: pipelinesOf_def field_def)

definition keyOf :: "string list \<Rightarrow> string \<Rightarrow> string" where
  "keyOf hosts u = foldl joinAddress [] (hosts @ [u])"

definition js_or' :: "jsval \<Rightarrow> jsval \<Rightarrow> jsval" where
  "js_or' a b = (if truthy a then a else b)"

definition labelOf :: "jsval \<Rightarrow> jsval \<Rightarrow> jsval" where
  "labelOf service fallback =
     js_or' (field service ''serviceName'') (js_or' (field (field service ''state'') ''serviceName'')
       (js_or' (field (field service ''__descriptor'') ''serviceName'') fallback))"

definition uuidOf :: "jsval \<Rightarrow> string option" where
  "uuidOf service =
     (case or_else (field service ''uuid'') (field service ''instanceId'') of JStr u \<Rightarrow> if u \<noteq> [] then Some u else None | _ \<Rightarrow> None)"

section \<open>Placing\<close>

text \<open>Where a pipeline is placed: what stays the same while its services are.\<close>

record Place =
  stacked :: bool
  place_runtime :: jsval
  x0 :: int
  pname :: "string option"
  pdepth :: nat
  hosts :: "string list"
  host :: "string option"
  lane :: nat
  startRow :: nat

text \<open>What a walk yields: nodes and edges, and the cursors \<open>row\<close> and \<open>handoffRow\<close>.\<close>

record Walked =
  nodes :: "OverviewNode list"
  edges :: "OverviewEdge list"
  row :: nat
  handoffRow :: nat

definition nodeAt :: "Place \<Rightarrow> jsval \<Rightarrow> string \<Rightarrow> nat \<Rightarrow> nat \<Rightarrow> OverviewNode" where
  "nodeAt p service u i hostRow =
     \<lparr>key = keyOf (hosts p) u, nodeUuid = u, label = labelOf service (or_else (field service ''serviceId'') (JStr u)),
      nodeServiceId = or_else (field service ''serviceId'') (JStr []), runtimeId = place_runtime p, depth = pdepth p, index = i,
      parent = host p, pipelineName = pname p, ancestry = hosts p,
      bypassed = truthy (or_else (field service ''bypass'') (field (field service ''state'') ''bypass'')),
      nodeState = field service ''state'',
      x = x0 p + int (lane p) * LANE_SPACING, y = int hostRow * ROW_SPACING, z = int (pdepth p) * LAYER_SPACING\<rparr>"

definition innerPlace :: "Place \<Rightarrow> string \<Rightarrow> string \<Rightarrow> nat \<Rightarrow> nat \<Rightarrow> Place" where
  "innerPlace p name u held hostRow =
     p\<lparr>pname := Some name, pdepth := Suc (pdepth p), hosts := hosts p @ [u], host := Some (keyOf (hosts p) u),
       lane := (if stacked p then lane p else lane p + held), startRow := hostRow\<rparr>"

text \<open>
  \<^verbatim>\<open>walk\<close>, over the services that are left: \<open>placed\<close> are the keys of those before them and \<open>held\<close> the lanes
  taken by what these hold.  \<open>walk_held\<close> is the loop over the pipelines of one service.
\<close>

function walk_services :: "Place \<Rightarrow> jsval list \<Rightarrow> nat \<Rightarrow> string list \<Rightarrow> nat \<Rightarrow> Walked \<Rightarrow> Walked \<times> string list \<times> nat"
  and walk_held :: "Place \<Rightarrow> (string \<times> jsval list) list \<Rightarrow> nat \<Rightarrow> string \<Rightarrow> nat \<Rightarrow> nat \<Rightarrow> Walked \<Rightarrow> Walked \<times> nat" where
  "walk_services p [] i placed held w = (w, placed, held)"
| "walk_services p (service # services) i placed held w =
     (case uuidOf service of
        None \<Rightarrow> walk_services p services (Suc i) placed held w
      | Some u \<Rightarrow>
          let hostRow = (if stacked p then row w else startRow p + length placed);
              k = keyOf (hosts p) u;
              w = w\<lparr>row := Suc hostRow, handoffRow := (if pdepth p = 0 then hostRow else handoffRow w),
                    nodes := nodes w @ [nodeAt p service u i hostRow],
                    edges := edges w @ (if placed = [] then [] else [\<lparr>source = last placed, target = k, kind = Sequence\<rparr>])\<rparr>;
              (w, held) = walk_held p (pipelinesOf service) 0 u hostRow held w
          in walk_services p services (Suc i) (placed @ [k]) held w)"
| "walk_held p [] order u hostRow held w = (w, held)"
| "walk_held p ((name, entries) # pipelines) order u hostRow held w =
     (let w = (if stacked p \<and> order = 0 then w\<lparr>row := hostRow\<rparr> else w);
          (w, placed, taken) = walk_services (innerPlace p name u held hostRow) entries 0 [] 0 w;
          w = w\<lparr>edges := edges w @ (case placed of [] \<Rightarrow> [] | first # _ \<Rightarrow> [\<lparr>source = keyOf (hosts p) u, target = first, kind = Contains\<rparr>])\<rparr>
      in walk_held p pipelines (Suc order) u hostRow (if stacked p then held else held + max 1 taken) w)"
  by pat_completeness auto
termination
proof (relation "measure (\<lambda>a. case a of Inl (p, services, i, placed, held, w) \<Rightarrow> size_list size services
    | Inr (p, pipelines, order, u, hostRow, held, w) \<Rightarrow> held_weight pipelines)")
  fix p :: Place and service services i placed held w u hostRow k w1
  show "(Inr (p, pipelinesOf service, 0, u, hostRow, held, w1), Inl (p, service # services, i, placed, held, w))
      \<in> measure (\<lambda>a. case a of Inl (p, services, i, placed, held, w) \<Rightarrow> size_list size services
        | Inr (p, pipelines, order, u, hostRow, held, w) \<Rightarrow> held_weight pipelines)"
    for hostRow :: nat and w w1 :: Walked and i held :: nat and placed :: "string list"
    using weight_pipelinesOf [of service] by (auto simp: held_weight_def)
qed (auto simp: held_weight_def)

text \<open>The columns, one runtime after the other: the scene so far, where the next one starts, and its row.\<close>

record Scene =
  runtimes :: "OverviewRuntime list"
  sceneNodes :: "OverviewNode list"
  sceneEdges :: "OverviewEdge list"

definition runtimeAt :: "obj \<Rightarrow> int \<Rightarrow> nat \<Rightarrow> OverviewRuntime" where
  "runtimeAt rt columnX columnStart =
     \<lparr>rtId = oget rt ''id'', rtLabel = js_or' (oget rt ''name'') (oget rt ''id''), rtType = to_str (or_else (oget rt ''type'') (JStr [])),
      rtColor = field (oget rt ''state'') ''color'', rtX = columnX, rtY = (int columnStart - 1) * ROW_SPACING, rtZ = 0\<rparr>"

definition columnPlace :: "bool \<Rightarrow> obj \<Rightarrow> int \<Rightarrow> nat \<Rightarrow> Place" where
  "columnPlace inStack rt columnX columnStart =
     \<lparr>stacked = inStack, place_runtime = oget rt ''id'', x0 = columnX, pname = None, pdepth = 0, hosts = [], host = None,
      lane = 0, startRow = columnStart\<rparr>"

fun columns :: "bool \<Rightarrow> (obj \<times> jsval list) list \<Rightarrow> int \<Rightarrow> nat \<Rightarrow> Scene \<Rightarrow> Scene" where
  "columns inStack [] columnX columnStart scene = scene"
| "columns inStack ((rt, services) # rest) columnX columnStart scene =
     (let (w, placed, held) = walk_services (columnPlace inStack rt columnX columnStart) services 0 [] 0
            \<lparr>nodes = sceneNodes scene, edges = sceneEdges scene, row = columnStart, handoffRow = columnStart\<rparr>
      in columns inStack rest (columnX + (int (max 1 held) - 1) * LANE_SPACING + COLUMN_SPACING) (handoffRow w)
           \<lparr>runtimes = runtimes scene @ [runtimeAt rt columnX columnStart], sceneNodes = nodes w, sceneEdges = edges w\<rparr>)"

fun handoffs :: "OverviewNode list \<Rightarrow> obj list \<Rightarrow> OverviewNode option \<Rightarrow> OverviewEdge list" where
  "handoffs ns [] previousTail = []"
| "handoffs ns (rt # rts) previousTail =
     (case filter (\<lambda>n. runtimeId n = oget rt ''id'' \<and> depth n = 0) ns of
        [] \<Rightarrow> handoffs ns rts previousTail
      | first # others \<Rightarrow>
          (case previousTail of None \<Rightarrow> [] | Some tail \<Rightarrow> [\<lparr>source = key tail, target = key first, kind = Handoff\<rparr>])
            @ handoffs ns rts (Some (last (first # others))))"

definition buildScene :: "obj list \<Rightarrow> obj \<Rightarrow> bool \<Rightarrow> Scene" where
  "buildScene rts services inStack =
     (let scene = columns inStack (map (\<lambda>rt. (rt, js_arr (oget services (to_str (oget rt ''id''))))) rts) 0 0
            \<lparr>runtimes = [], sceneNodes = [], sceneEdges = []\<rparr>
      in scene\<lparr>sceneEdges := sceneEdges scene @ handoffs (sceneNodes scene) rts None\<rparr>)"

section \<open>Where nodes are\<close>

definition cell :: "OverviewNode \<Rightarrow> int \<times> int \<times> int" where
  "cell n = (x n, y n, z n)"

text \<open>What a walk adds.\<close>

definition within_lanes :: "int \<Rightarrow> nat \<Rightarrow> nat \<Rightarrow> OverviewNode \<Rightarrow> bool" where
  "within_lanes c l l' n = (c + int l * LANE_SPACING \<le> x n \<and> x n < c + int l' * LANE_SPACING)"

definition on_pipeline :: "Place \<Rightarrow> nat \<Rightarrow> OverviewNode \<Rightarrow> bool" where
  "on_pipeline p from_row n =
     (z n = int (pdepth p) * LAYER_SPACING \<and> x n = x0 p + int (lane p) * LANE_SPACING \<and> int from_row * ROW_SPACING \<le> y n)"

text \<open>In lanes: a pipeline's own services stand in its lane, what they hold further back in the lanes they take.\<close>

definition laid :: "Place \<Rightarrow> nat \<Rightarrow> nat \<Rightarrow> nat \<Rightarrow> OverviewNode list \<Rightarrow> bool" where
  "laid p n held held' new =
     (held \<le> held' \<and> distinct (map cell new)
      \<and> (\<forall>m\<in>set new. on_pipeline p (startRow p + n) m
          \<or> int (Suc (pdepth p)) * LAYER_SPACING \<le> z m \<and> within_lanes (x0 p) (lane p + held) (lane p + held') m))"

definition laid_held :: "Place \<Rightarrow> nat \<Rightarrow> nat \<Rightarrow> OverviewNode list \<Rightarrow> bool" where
  "laid_held p held held' new =
     (held \<le> held' \<and> distinct (map cell new)
      \<and> (\<forall>m\<in>set new. int (Suc (pdepth p)) * LAYER_SPACING \<le> z m \<and> within_lanes (x0 p) (lane p + held) (lane p + held') m))"

lemma distinct_cells_append:
  "distinct (map cell xs) \<Longrightarrow> distinct (map cell ys) \<Longrightarrow> (\<And>m m'. m \<in> set xs \<Longrightarrow> m' \<in> set ys \<Longrightarrow> cell m \<noteq> cell m')
    \<Longrightarrow> distinct (map cell (xs @ ys))"
  by (force simp: image_iff)

lemma laid_append:
  assumes "laid_held p held held1 new1" "laid_held p held1 held2 new2"
  shows "laid_held p held held2 (new1 @ new2)"
proof -
  have "cell m \<noteq> cell m'" if "m \<in> set new1" "m' \<in> set new2" for m m'
    using assms that by (fastforce simp: laid_held_def within_lanes_def cell_def LANE_SPACING_def)
  then have "distinct (map cell (new1 @ new2))"
    using assms by (intro distinct_cells_append) (auto simp: laid_held_def)
  moreover have "within_lanes (x0 p) (lane p + held) (lane p + held2) m"
    if "within_lanes (x0 p) (lane p + held) (lane p + held1) m \<or> within_lanes (x0 p) (lane p + held1) (lane p + held2) m" for m
    using that assms by (auto simp: laid_held_def within_lanes_def LANE_SPACING_def)
  ultimately show ?thesis
    using assms by (auto simp: laid_held_def)
qed

lemma laid_service:
  assumes n: "on_pipeline p (startRow p + n) a" "y a = int (startRow p + n) * ROW_SPACING"
    and "laid_held p held held1 new1" "laid p (Suc n) held1 held2 new2"
  shows "laid p n held held2 (a # new1 @ new2)"
proof -
  have a1: "cell a \<noteq> cell m" if "m \<in> set new1" for m
    using n(1) assms(3) that by (auto simp: laid_held_def on_pipeline_def cell_def LAYER_SPACING_def)
  have a2: "cell a \<noteq> cell m" if "m \<in> set new2" for m
    using n assms(4) that by (fastforce simp: laid_def on_pipeline_def cell_def LAYER_SPACING_def ROW_SPACING_def)
  have apart: "cell m \<noteq> cell m'" if "m \<in> set new1" "m' \<in> set new2" for m m'
    using assms(3,4) that by (fastforce simp: laid_held_def laid_def on_pipeline_def within_lanes_def cell_def LANE_SPACING_def LAYER_SPACING_def)
  have "distinct (map cell (new1 @ new2))"
    using assms(3,4) apart by (intro distinct_cells_append) (auto simp: laid_held_def laid_def)
  then have "distinct (map cell (a # new1 @ new2))"
    using a1 a2 by (auto simp: image_iff)
  moreover have "on_pipeline p (startRow p + n) m" if "on_pipeline p (startRow p + Suc n) m" for m
    using that by (auto simp: on_pipeline_def ROW_SPACING_def)
  moreover have "within_lanes (x0 p) (lane p + held) (lane p + held2) m"
    if "within_lanes (x0 p) (lane p + held) (lane p + held1) m \<or> within_lanes (x0 p) (lane p + held1) (lane p + held2) m" for m
    using that assms(3,4) by (auto simp: laid_held_def laid_def within_lanes_def LANE_SPACING_def)
  ultimately show ?thesis
    using assms(1,3,4) by (auto simp: laid_held_def laid_def)
qed

lemma laid_inner:
  assumes "laid (innerPlace p name u held hostRow) 0 0 taken new" "\<not> stacked p"
  shows "laid_held p held (held + max 1 taken) new"
  using assms by (fastforce simp: laid_def laid_held_def innerPlace_def on_pipeline_def within_lanes_def LANE_SPACING_def LAYER_SPACING_def max_def)

text \<open>The walk adds nodes and edges, whatever the layout; in lanes the nodes are laid as above.\<close>

lemma walk_lanes:
  "\<not> stacked p \<Longrightarrow> \<exists>new placed' held' w'. walk_services p services i placed held w = (w', placed', held')
     \<and> nodes w' = nodes w @ new \<and> laid p (length placed) held held' new"
  "\<not> stacked p \<Longrightarrow> \<exists>new held' w'. walk_held p pipelines order u hostRow held w = (w', held')
     \<and> nodes w' = nodes w @ new \<and> laid_held p held held' new"
proof (induction p services i placed held w and p pipelines order u hostRow held w rule: walk_services_walk_held.induct)
  case (1 p i placed held w)
  then show ?case by (simp add: laid_def)
next
  case (2 p service services i placed held w)
  show ?case
  proof (cases "uuidOf service")
    case None
    then show ?thesis using 2 by simp
  next
    case (Some u)
    let ?hostRow = "startRow p + length placed"
    let ?k = "keyOf (hosts p) u"
    let ?w = "w\<lparr>row := Suc ?hostRow, handoffRow := (if pdepth p = 0 then ?hostRow else handoffRow w),
        nodes := nodes w @ [nodeAt p service u i ?hostRow],
        edges := edges w @ (if placed = [] then [] else [\<lparr>source = last placed, target = ?k, kind = Sequence\<rparr>])\<rparr>"
    have h: "(if stacked p then row w else startRow p + length placed) = ?hostRow" using "2.prems" by simp
    obtain new1 held1 w1 where inner: "walk_held p (pipelinesOf service) 0 u ?hostRow held ?w = (w1, held1)"
        "nodes w1 = nodes ?w @ new1" "laid_held p held held1 new1"
      using "2.IH"(2) [OF Some refl refl refl "2.prems", unfolded h] by auto
    obtain new2 placed2 held2 w2 where rest: "walk_services p services (Suc i) (placed @ [?k]) held1 w1 = (w2, placed2, held2)"
        "nodes w2 = nodes w1 @ new2" "laid p (length (placed @ [?k])) held1 held2 new2"
      using "2.IH"(3) [OF Some, unfolded h, OF refl refl refl inner(1) [symmetric] refl "2.prems"] by auto
    let ?a = "nodeAt p service u i ?hostRow"
    have "on_pipeline p (startRow p + length placed) ?a" "y ?a = int (startRow p + length placed) * ROW_SPACING"
      by (simp_all add: on_pipeline_def nodeAt_def)
    then have "laid p (length placed) held held2 (?a # new1 @ new2)"
      using laid_service [OF _ _ inner(3)] rest(3) by simp
    then show ?thesis
      using inner(1,2) rest(1,2) by (simp add: Some h Let_def)
  qed
next
  case (3 p order u hostRow held w)
  then show ?case by (simp add: laid_held_def)
next
  case (4 p name entries pipelines order u hostRow held w)
  have w: "(if stacked p \<and> order = 0 then w\<lparr>row := hostRow\<rparr> else w) = w" using "4.prems" by simp
  have place: "\<not> stacked (innerPlace p name u held hostRow)" using "4.prems" by (simp add: innerPlace_def)
  obtain new1 placed1 taken w1 where inner: "walk_services (innerPlace p name u held hostRow) entries 0 [] 0 w = (w1, placed1, taken)"
      "nodes w1 = nodes w @ new1" "laid (innerPlace p name u held hostRow) 0 0 taken new1"
    using "4.IH"(1) [OF refl place] by (auto simp: w)
  let ?w = "w1\<lparr>edges := edges w1 @ (case placed1 of [] \<Rightarrow> [] | first # _ \<Rightarrow> [\<lparr>source = keyOf (hosts p) u, target = first, kind = Contains\<rparr>])\<rparr>"
  obtain new2 held2 w2 where rest: "walk_held p pipelines (Suc order) u hostRow (held + max 1 taken) ?w = (w2, held2)"
      "nodes w2 = nodes ?w @ new2" "laid_held p (held + max 1 taken) held2 new2"
    using "4.IH"(2) [OF w [symmetric] inner(1) [symmetric] refl refl refl "4.prems"] "4.prems" by auto
  have "laid_held p held held2 (new1 @ new2)"
    by (rule laid_append [OF laid_inner [OF inner(3) "4.prems"] rest(3)])
  then show ?case
    using "4.prems" inner(1,2) rest(1,2) by (auto simp: Let_def)
qed

definition rtCell :: "OverviewRuntime \<Rightarrow> int \<times> int \<times> int" where
  "rtCell rt = (rtX rt, rtY rt, rtZ rt)"

definition cells :: "Scene \<Rightarrow> (int \<times> int \<times> int) list" where
  "cells s = map cell (sceneNodes s) @ map rtCell (runtimes s)"

lemma laid_column:
  assumes "laid (columnPlace False rt cx cs) 0 0 held new" "m \<in> set new"
  shows "cx \<le> x m \<and> x m < cx + (int (max 1 held) - 1) * LANE_SPACING + COLUMN_SPACING \<and> cell m \<noteq> rtCell (runtimeAt rt cx cs)"
proof -
  have "on_pipeline (columnPlace False rt cx cs) cs m
      \<or> LAYER_SPACING \<le> z m \<and> within_lanes cx 0 held m"
    using assms by (fastforce simp: laid_def columnPlace_def)
  then show ?thesis
    by (auto simp: on_pipeline_def within_lanes_def columnPlace_def cell_def rtCell_def runtimeAt_def LANE_SPACING_def COLUMN_SPACING_def
        ROW_SPACING_def LAYER_SPACING_def max_def)
qed

lemma distinct_between:
  "distinct (as @ bs) \<Longrightarrow> distinct ns \<Longrightarrow> set ns \<inter> set (as @ bs) = {} \<Longrightarrow> r \<notin> set (as @ bs) \<Longrightarrow> r \<notin> set ns
    \<Longrightarrow> distinct ((as @ ns) @ bs @ [r])"
  by auto

lemma distinct_column:
  assumes "distinct (map cell new)" "\<And>m. m \<in> set new \<Longrightarrow> cell m \<notin> set (cells scene) \<and> cell m \<noteq> rtCell r"
    and "rtCell r \<notin> set (cells scene)" "distinct (cells scene)" "runtimes s = runtimes scene @ [r]" "sceneNodes s = sceneNodes scene @ new"
  shows "distinct (cells s)"
proof -
  have "cell ` set new \<inter> set (cells scene) = {}" "rtCell r \<notin> cell ` set new" using assms(2) by force+
  then show ?thesis
    using assms(1,3-6) distinct_between [of "map cell (sceneNodes scene)" "map rtCell (runtimes scene)" "map cell new" "rtCell r"]
    by (simp only: cells_def map_append list.map set_map) simp
qed

lemma columns_distinct:
  assumes "distinct (cells scene)" "\<forall>c\<in>set (cells scene). fst c < cx"
  shows "distinct (cells (columns False rts cx cs scene))"
  using assms
proof (induction rts arbitrary: cx cs scene)
  case Nil
  then show ?case by simp
next
  case (Cons rs rts)
  obtain rt services where rs: "rs = (rt, services)" by (cases rs)
  let ?w = "\<lparr>nodes = sceneNodes scene, edges = sceneEdges scene, row = cs, handoffRow = cs\<rparr>"
  obtain new placed held w where walk: "walk_services (columnPlace False rt cx cs) services 0 [] 0 ?w = (w, placed, held)"
      "nodes w = sceneNodes scene @ new" "laid (columnPlace False rt cx cs) 0 0 held new"
    using walk_lanes(1) [of "columnPlace False rt cx cs" services 0 "[]" 0 ?w] by (auto simp: columnPlace_def)
  let ?cx = "cx + (int (max 1 held) - 1) * LANE_SPACING + COLUMN_SPACING"
  let ?scene = "\<lparr>runtimes = runtimes scene @ [runtimeAt rt cx cs], sceneNodes = nodes w, sceneEdges = edges w\<rparr>"
  have new: "cx \<le> fst (cell m) \<and> fst (cell m) < ?cx \<and> cell m \<noteq> rtCell (runtimeAt rt cx cs)" if "m \<in> set new" for m
    using laid_column [OF walk(3) that] by (simp add: cell_def)
  have at: "fst (rtCell (runtimeAt rt cx cs)) = cx" "cx < ?cx"
    by (simp_all add: rtCell_def runtimeAt_def LANE_SPACING_def COLUMN_SPACING_def)
  have "distinct (cells ?scene)"
  proof (rule distinct_column [where scene = scene and new = new and r = "runtimeAt rt cx cs"])
    show "distinct (map cell new)" using walk(3) by (simp add: laid_def)
    show "cell m \<notin> set (cells scene) \<and> cell m \<noteq> rtCell (runtimeAt rt cx cs)" if "m \<in> set new" for m
      using new [OF that] Cons.prems(2) by force
    show "rtCell (runtimeAt rt cx cs) \<notin> set (cells scene)" using at(1) Cons.prems(2) by force
  qed (simp_all add: Cons.prems(1) walk(2))
  moreover have "\<forall>c\<in>set (cells ?scene). fst c < ?cx"
  proof
    fix c assume "c \<in> set (cells ?scene)"
    then have "c \<in> set (cells scene) \<or> c = rtCell (runtimeAt rt cx cs) \<or> c \<in> cell ` set new"
      by (auto simp: cells_def walk(2))
    then show "fst c < ?cx" using Cons.prems(2) new at by (elim disjE) force+
  qed
  ultimately show ?case
    using Cons.IH by (simp add: rs walk(1))
qed

section \<open>What edges join\<close>

abbreviation keys :: "Walked \<Rightarrow> string set" where
  "keys w \<equiv> key ` set (nodes w)"

definition joined :: "Walked \<Rightarrow> bool" where
  "joined w = (source ` set (edges w) \<union> target ` set (edges w) \<subseteq> keys w)"

lemma walk_joined:
  "joined w \<Longrightarrow> set placed \<subseteq> keys w \<Longrightarrow> (case walk_services p services i placed held w of (w', placed', _) \<Rightarrow>
     joined w' \<and> keys w \<subseteq> keys w' \<and> set placed' \<subseteq> keys w')"
  "joined w \<Longrightarrow> keyOf (hosts p) u \<in> keys w \<Longrightarrow> (case walk_held p pipelines order u hostRow held w of (w', _) \<Rightarrow>
     joined w' \<and> keys w \<subseteq> keys w')"
proof (induction p services i placed held w and p pipelines order u hostRow held w rule: walk_services_walk_held.induct)
  case (2 p service services i placed held w)
  show ?case
  proof (cases "uuidOf service")
    case None
    then show ?thesis using 2 by simp
  next
    case (Some u)
    define hostRow where "hostRow = (if stacked p then row w else startRow p + length placed)"
    let ?k = "keyOf (hosts p) u"
    define w0 where "w0 = w\<lparr>row := Suc hostRow, handoffRow := (if pdepth p = 0 then hostRow else handoffRow w),
        nodes := nodes w @ [nodeAt p service u i hostRow],
        edges := edges w @ (if placed = [] then [] else [\<lparr>source = last placed, target = ?k, kind = Sequence\<rparr>])\<rparr>"
    have "placed \<noteq> [] \<Longrightarrow> last placed \<in> keys w" using "2.prems"(2) last_in_set by blast
    then have w0: "joined w0" "?k \<in> keys w0" "keys w \<subseteq> keys w0"
      using "2.prems" by (auto simp: w0_def joined_def nodeAt_def)
    obtain w1 held1 where inner: "walk_held p (pipelinesOf service) 0 u hostRow held w0 = (w1, held1)" by fastforce
    have w1: "joined w1" "keys w0 \<subseteq> keys w1"
      using "2.IH"(2) [OF Some hostRow_def refl w0_def w0(1,2)] by (simp_all add: inner)
    have all: "keys w \<subseteq> keys w1" using w0(3) w1(2) by (rule subset_trans)
    then have placed: "set (placed @ [?k]) \<subseteq> keys w1" using "2.prems"(2) w0(2) w1(2) by auto
    obtain w2 placed2 held2 where rest: "walk_services p services (Suc i) (placed @ [?k]) held1 w1 = (w2, placed2, held2)" by (metis prod_cases3)
    have w2: "joined w2" "keys w1 \<subseteq> keys w2" "set placed2 \<subseteq> keys w2"
      using "2.IH"(3) [OF Some hostRow_def refl w0_def inner [symmetric] refl w1(1) placed] by (simp_all add: rest)
    have "walk_services p (service # services) i placed held w = (w2, placed2, held2)"
      by (simp add: Some inner rest Let_def flip: hostRow_def w0_def)
    then show ?thesis using w2 subset_trans [OF all w2(2)] by (simp only: prod.case)
  qed
next
  case (4 p name entries pipelines order u hostRow held w)
  define w0 where "w0 = (if stacked p \<and> order = 0 then w\<lparr>row := hostRow\<rparr> else w)"
  have w0: "joined w0" "keyOf (hosts p) u \<in> keys w0" "keys w \<subseteq> keys w0"
    using "4.prems" by (auto simp: w0_def joined_def)
  obtain w1 placed1 taken where inner: "walk_services (innerPlace p name u held hostRow) entries 0 [] 0 w0 = (w1, placed1, taken)"
    by (metis prod_cases3)
  have w1: "joined w1" "keys w0 \<subseteq> keys w1" "set placed1 \<subseteq> keys w1"
    using "4.IH"(1) [OF w0_def w0(1)] by (simp_all add: inner)
  define w2 where "w2 = w1\<lparr>edges := edges w1 @ (case placed1 of [] \<Rightarrow> [] | first # _ \<Rightarrow> [\<lparr>source = keyOf (hosts p) u, target = first, kind = Contains\<rparr>])\<rparr>"
  have w2: "joined w2" "keys w2 = keys w1"
    using w1 w0(2) by (auto simp: w2_def joined_def split: list.splits)
  have all: "keys w \<subseteq> keys w2" using subset_trans [OF w0(3) w1(2)] w2(2) by simp
  have host: "keyOf (hosts p) u \<in> keys w2" using w0(2) w1(2) w2(2) by auto
  let ?held = "if stacked p then held else held + max 1 taken"
  obtain w3 held3 where rest: "walk_held p pipelines (Suc order) u hostRow ?held w2 = (w3, held3)" by fastforce
  have w3: "joined w3" "keys w2 \<subseteq> keys w3"
    using "4.IH"(2) [OF w0_def inner [symmetric] refl refl w2_def w2(1) host] by (simp_all only: rest prod.case)
  have "walk_held p ((name, entries) # pipelines) order u hostRow held w = (w3, held3)"
    using rest by (simp add: inner Let_def flip: w0_def w2_def)
  then show ?case using w3 subset_trans [OF all w3(2)] by (simp only: prod.case)
qed simp_all

lemma columns_joined:
  assumes "source ` set (sceneEdges scene) \<union> target ` set (sceneEdges scene) \<subseteq> key ` set (sceneNodes scene)"
  shows "source ` set (sceneEdges (columns st rts cx cs scene)) \<union> target ` set (sceneEdges (columns st rts cx cs scene))
    \<subseteq> key ` set (sceneNodes (columns st rts cx cs scene))"
  using assms
proof (induction rts arbitrary: cx cs scene)
  case (Cons rs rts)
  obtain rt services where rs: "rs = (rt, services)" by (cases rs)
  let ?w = "\<lparr>nodes = sceneNodes scene, edges = sceneEdges scene, row = cs, handoffRow = cs\<rparr>"
  obtain w placed held where walk: "walk_services (columnPlace st rt cx cs) services 0 [] 0 ?w = (w, placed, held)" by (metis prod_cases3)
  have "joined w"
    using walk_joined(1) [of ?w "[]" "columnPlace st rt cx cs" services 0 0] Cons.prems by (simp add: walk joined_def)
  then show ?case
    using Cons.IH by (simp add: rs walk joined_def)
qed simp

lemma handoffs_joined:
  assumes "\<And>t. tail = Some t \<Longrightarrow> t \<in> set ns"
  shows "source ` set (handoffs ns rts tail) \<union> target ` set (handoffs ns rts tail) \<subseteq> key ` set ns"
  using assms
proof (induction rts arbitrary: tail)
  case (Cons rt rts)
  show ?case
  proof (cases "filter (\<lambda>n. runtimeId n = oget rt ''id'' \<and> depth n = 0) ns")
    case Nil
    then show ?thesis using Cons by simp
  next
    case (Cons first others)
    then have all: "set (first # others) \<subseteq> set ns"
      by (metis filter_is_subset)
    then have "last (first # others) \<in> set ns" using last_in_set [of "first # others"] by blast
    then show ?thesis
      using Cons.IH [of "Some (last (first # others))"] Cons all Cons.prems by (auto split: option.splits)
  qed
qed simp

section \<open>Claims\<close>

text \<open>
  C29.  In the lanes layout no two things meet: no two services of a board, at whatever depth and in
  whatever runtime, and no label of a runtime, are placed at the same point.
\<close>

theorem scene_places_distinct: "distinct (cells (buildScene rts services False))"
proof -
  have "cells (s\<lparr>sceneEdges := es\<rparr>) = cells s" for s :: Scene and es by (simp add: cells_def)
  then show ?thesis
    unfolding buildScene_def Let_def by (simp add: columns_distinct cells_def [of "\<lparr>runtimes = [], sceneNodes = [], sceneEdges = []\<rparr>"])
qed

text \<open>
   Every edge of a scene, in either layout, joins two services that are in it.
\<close>

theorem scene_edges_join:
  "source ` set (sceneEdges (buildScene rts services st)) \<union> target ` set (sceneEdges (buildScene rts services st))
   \<subseteq> key ` set (sceneNodes (buildScene rts services st))"
  using columns_joined [of "\<lparr>runtimes = [], sceneNodes = [], sceneEdges = []\<rparr>"] handoffs_joined [of None]
  by (auto simp: buildScene_def Let_def image_Un)

text \<open>
   In the stacked layout two services can meet: where a service holds entries that have no id, what
  follows it is placed on its own row.
\<close>

theorem scene_stacked_collision:
  "\<not> distinct (map cell (sceneNodes (buildScene [[(''id'', JStr ''r'')]]
      [(''r'', JArr [JObj [(''uuid'', JStr ''a''), (''serviceId'', JStr ''s''), (''state'', JObj [(''pipeline'', JArr [JObj [(''serviceId'', JStr ''t'')]])])],
                     JObj [(''uuid'', JStr ''b''), (''serviceId'', JStr ''s'')]])] True)))"
  by code_simp

text \<open>
   The numbers that are to tell the pipelines of a service apart can give two of them one name.
\<close>

theorem pipelines_share_a_name:
  "map fst (pipelinesOf (JObj [(''state'', JArr
      [JObj [(''name'', JStr ''a''), (''p'', JArr [JObj [(''serviceId'', JStr ''s'')]])],
       JObj [(''name'', JStr ''a''), (''p'', JArr [JObj [(''serviceId'', JStr ''s'')]])],
       JObj [(''name'', JStr ''a 2''), (''p'', JArr [JObj [(''serviceId'', JStr ''s'')]])]])]))
   = [''a'', ''a 2'', ''a 2'']"
  by code_simp

end
