(* ===== verification/AssetActions.thy ===== *)
theory AssetActions
  imports BoardState
begin

text \<open>
  What editing a board's assets does to the runtimes (\<^verbatim>\<open>hkp-frontend/src/core/assetActions.ts\<close>): descriptors
  pushed to the runtimes they are for, and a rename, which pushes, rewriteJobs references and takes back
  what it did when a part of it fails.  What the runtimes hold is explicit: the descriptors and the
  configuration of each service.  Each call is numbered, and which of them is refused, with what
  problem, is a parameter; a refused call changes nothing, and a configuration that is taken is what the
  service reports from then on.  Calls that are started together are listed in the order of the runtimes
  they go to.
\<close>

section \<open>The board and what the runtimes hold\<close>

text \<open>
  The part of the engine state the actions read.  \<open>lr_live\<close> says whether the runtime has a scope, and
  \<open>ab_apis\<close> which types of runtime have an API, and whether it takes pushes.
\<close>

record LiveRuntime =
  lr_id :: string
  lr_name :: string
  lr_unit :: "string option"
  lr_unitRuntimeId :: "string option"
  lr_live :: bool
  lr_type :: string

record AssetService =
  as_uuid :: string
  as_name :: "string option"
  as_state :: jsval

record AssetBoard =
  ab_runtimes :: "LiveRuntime list"
  ab_services :: "(string \<times> AssetService list) list"
  ab_apis :: "(string \<times> bool) list"

record World =
  descriptors :: "string \<Rightarrow> string \<Rightarrow> AssetDescriptor option"
  configured :: "string \<Rightarrow> string \<Rightarrow> jsval"
  made :: nat

text \<open>What refuses: the call of a number with a problem; and who does not report its configuration.\<close>

record Answers =
  refusal :: "nat \<Rightarrow> string option"
  silent :: "string \<Rightarrow> string \<Rightarrow> bool"

definition assetApiOf :: "AssetBoard \<Rightarrow> LiveRuntime \<Rightarrow> bool option" where
  "assetApiOf board rt =
     (case map_of (ab_apis board) (lr_type rt) of
        Some pushes \<Rightarrow> Some pushes
      | None \<Rightarrow> map_of (ab_apis board) (toCanonicalRuntimeClassType (lr_type rt)))"

definition ownRuntimes :: "AssetBoard \<Rightarrow> LiveRuntime list" where
  "ownRuntimes board = filter (\<lambda>rt. lr_unit rt = None \<or> lr_unit rt = Some []) (ab_runtimes board)"

definition servicesOn :: "AssetBoard \<Rightarrow> LiveRuntime \<Rightarrow> AssetService list" where
  "servicesOn board rt = (case map_of (ab_services board) (lr_id rt) of Some services \<Rightarrow> services | None \<Rightarrow> [])"

definition reachable :: "AssetBoard \<Rightarrow> LiveRuntime \<Rightarrow> bool" where
  "reachable board rt = (lr_live rt \<and> assetApiOf board rt \<noteq> None)"

text \<open>Each own runtime's services with the state they report, or the board's copy where they do not.\<close>

definition liveServiceStates :: "Answers \<Rightarrow> AssetBoard \<Rightarrow> World \<Rightarrow> (string \<times> AssetService list) list" where
  "liveServiceStates answers board w =
     map (\<lambda>rt. (lr_id rt,
         map (\<lambda>svc. if reachable board rt \<and> \<not> silent answers (lr_id rt) (as_uuid svc)
                    then svc\<lparr>as_state := configured w (lr_id rt) (as_uuid svc)\<rparr> else svc)
           (servicesOn board rt)))
       (ownRuntimes board)"

definition assetUses :: "Answers \<Rightarrow> AssetBoard \<Rightarrow> World \<Rightarrow> string option \<Rightarrow> AssetUse list" where
  "assetUses answers board w assetId =
     findAssetUses (map (\<lambda>(i, services). (i, JArr (map (\<lambda>svc. JObj
         [(''uuid'', JStr (as_uuid svc)),
          (''serviceName'', case as_name svc of Some n \<Rightarrow> JStr n | None \<Rightarrow> JUndef), (''state'', as_state svc)]) services)))
       (liveServiceStates answers board w)) assetId"

section \<open>Pushing\<close>

definition takesPushes :: "AssetBoard \<Rightarrow> LiveRuntime \<Rightarrow> bool" where
  "takesPushes board rt = (lr_live rt \<and> assetApiOf board rt = Some True)"

record AssetPushFailure =
  pf_runtime :: LiveRuntime
  pf_problem :: string
  pf_push :: "(string \<times> AssetDescriptor option) list"

definition takes :: "string \<Rightarrow> (string \<times> AssetDescriptor option) list \<Rightarrow> World \<Rightarrow> World" where
  "takes i push w =
     w\<lparr>descriptors := (descriptors w)(i := \<lambda>a. case map_of push a of Some d \<Rightarrow> d | None \<Rightarrow> descriptors w i a)\<rparr>"

text \<open>A problem without a text counts as none.\<close>

definition pushTo :: "Answers \<Rightarrow> LiveRuntime \<Rightarrow> (string \<times> AssetDescriptor option) list \<Rightarrow> World \<Rightarrow> World \<times> AssetPushFailure option" where
  "pushTo answers rt push w =
     (let w' = w\<lparr>made := Suc (made w)\<rparr>
      in case refusal answers (made w) of
           Some problem \<Rightarrow> if problem \<noteq> [] then (w', Some \<lparr>pf_runtime = rt, pf_problem = problem, pf_push = push\<rparr>) else (takes (lr_id rt) push w', None)
         | None \<Rightarrow> (takes (lr_id rt) push w', None))"

fun pushAll :: "Answers \<Rightarrow> (LiveRuntime \<times> (string \<times> AssetDescriptor option) list) list \<Rightarrow> World \<Rightarrow> World \<times> AssetPushFailure list" where
  "pushAll answers [] w = (w, [])"
| "pushAll answers ((rt, push) # rest) w =
     (let (w1, failure) = pushTo answers rt push w; (w2, failures) = pushAll answers rest w1
      in (w2, (case failure of Some f \<Rightarrow> [f] | None \<Rightarrow> []) @ failures))"

definition asAssetRuntime :: "LiveRuntime \<Rightarrow> AssetRuntime" where
  "asAssetRuntime rt = \<lparr>at_id = Some (lr_id rt), at_unit = lr_unit rt, at_unitRuntimeId = lr_unitRuntimeId rt\<rparr>"

definition pushFor :: "LiveRuntime \<Rightarrow> (string \<times> AssetDescriptor option) list \<Rightarrow> (string \<times> AssetDescriptor option) list" where
  "pushFor rt changes =
     map (\<lambda>(i, d). (i, case d of Some a \<Rightarrow> if assetReaches a (asAssetRuntime rt) then Some a else None | None \<Rightarrow> None)) changes"

definition pushAssetChanges :: "Answers \<Rightarrow> AssetBoard \<Rightarrow> (string \<times> AssetDescriptor option) list \<Rightarrow> World \<Rightarrow> World \<times> AssetPushFailure list" where
  "pushAssetChanges answers board changes w =
     (if changes = [] then (w, [])
      else pushAll answers (map (\<lambda>rt. (rt, pushFor rt changes)) (filter (takesPushes board) (ownRuntimes board))) w)"

section \<open>Rewriting references\<close>











section \<open>Renaming an asset\<close>



section \<open>What calls change\<close>



definition own_distinct :: "AssetBoard \<Rightarrow> bool" where
  "own_distinct board =
     (distinct (map lr_id (ownRuntimes board)) \<and> list_all (\<lambda>rt. distinct (map as_uuid (servicesOn board rt))) (ownRuntimes board))"





section \<open>Which services are reconfigured\<close>











section \<open>What pushes change\<close>

lemma pushTo_effect:
  assumes "pushTo answers rt push w = (w', failure)"
  shows "configured w' = configured w"
    "descriptors w' i a = (if failure = None \<and> i = lr_id rt then (case map_of push a of Some d \<Rightarrow> d | None \<Rightarrow> descriptors w i a) else descriptors w i a)"
    "failure = Some f \<Longrightarrow> pf_runtime f = rt"
  using assms by (auto simp: pushTo_def takes_def Let_def split: option.splits if_splits)

lemma pushAll_effect:
  assumes "pushAll answers jobs w = (w', failures)" "distinct (map (lr_id \<circ> fst) jobs)"
  shows "configured w' = configured w \<and> pf_runtime ` set failures \<subseteq> fst ` set jobs
    \<and> (\<forall>(rt, push)\<in>set jobs. \<forall>a. descriptors w' (lr_id rt) a =
        (if rt \<in> pf_runtime ` set failures then descriptors w (lr_id rt) a
         else case map_of push a of Some d \<Rightarrow> d | None \<Rightarrow> descriptors w (lr_id rt) a))
    \<and> (\<forall>i a. i \<notin> (lr_id \<circ> fst) ` set jobs \<longrightarrow> descriptors w' i a = descriptors w i a)"
  using assms
proof (induction jobs arbitrary: w w' failures)
  case (Cons job jobs)
  obtain rt push where job: "job = (rt, push)" by fastforce
  obtain w1 failure where here: "pushTo answers rt push w = (w1, failure)" by fastforce
  obtain w2 failures1 where rest: "pushAll answers jobs w1 = (w2, failures1)" by fastforce
  have eq: "w' = w2" "failures = (case failure of Some f \<Rightarrow> [f] | None \<Rightarrow> []) @ failures1"
    using Cons.prems(1) by (simp_all add: job here rest)
  have other: "lr_id rt' \<noteq> lr_id rt" if "rt' \<in> fst ` set jobs" for rt'
    using that Cons.prems(2) by (force simp: job)
  have IH: "configured w2 = configured w1" "pf_runtime ` set failures1 \<subseteq> fst ` set jobs"
      "\<forall>(rt, push)\<in>set jobs. \<forall>a. descriptors w2 (lr_id rt) a =
        (if rt \<in> pf_runtime ` set failures1 then descriptors w1 (lr_id rt) a
         else case map_of push a of Some d \<Rightarrow> d | None \<Rightarrow> descriptors w1 (lr_id rt) a)"
      "\<forall>i a. i \<notin> (lr_id \<circ> fst) ` set jobs \<longrightarrow> descriptors w2 i a = descriptors w1 i a"
    using Cons.IH [OF rest] Cons.prems(2) by simp_all
  have failed: "pf_runtime ` set failures = (if failure = None then {} else {rt}) \<union> pf_runtime ` set failures1"
    using pushTo_effect(3) [OF here] by (auto simp: eq(2) split: option.splits)
  have rt: "rt \<notin> pf_runtime ` set failures1" using other IH(2) by blast
  have first: "descriptors w2 (lr_id rt) a =
      (if rt \<in> pf_runtime ` set failures then descriptors w (lr_id rt) a
       else case map_of push a of Some d \<Rightarrow> d | None \<Rightarrow> descriptors w (lr_id rt) a)" for a
  proof -
    have "lr_id rt \<notin> (lr_id \<circ> fst) ` set jobs" using other by force
    then show ?thesis using IH(4) pushTo_effect(2) [OF here, of "lr_id rt" a] rt by (simp add: failed)
  qed
  have others: "descriptors w2 (lr_id rt') a =
      (if rt' \<in> pf_runtime ` set failures then descriptors w (lr_id rt') a
       else case map_of push' a of Some d \<Rightarrow> d | None \<Rightarrow> descriptors w (lr_id rt') a)" if "(rt', push') \<in> set jobs" for rt' push' a
  proof -
    have ne: "lr_id rt' \<noteq> lr_id rt" using other that by force
    then have "rt' \<noteq> rt" by auto
    moreover have "descriptors w2 (lr_id rt') a =
        (if rt' \<in> pf_runtime ` set failures1 then descriptors w1 (lr_id rt') a
         else case map_of push' a of Some d \<Rightarrow> d | None \<Rightarrow> descriptors w1 (lr_id rt') a)"
      using bspec [OF IH(3) that] by simp
    ultimately show ?thesis using ne pushTo_effect(2) [OF here, of "lr_id rt'" a] by (simp add: failed split: option.split)
  qed
  have outside: "descriptors w2 i a = descriptors w i a" if "i \<notin> (lr_id \<circ> fst) ` set (job # jobs)" for i a
    using that IH(4) pushTo_effect(2) [OF here, of i a] by (simp add: job)
  show ?case
    using IH(1,2) pushTo_effect(1) [OF here] first others outside by (auto simp: eq(1) failed job)
qed simp

section \<open>Rewriting, and renaming\<close>







section \<open>Claims\<close>


abbreviation exampleBoard :: AssetBoard where
  "exampleBoard \<equiv>
     \<lparr>ab_runtimes =
        [\<lparr>lr_id = ''a'', lr_name = ''A'', lr_unit = None, lr_unitRuntimeId = None, lr_live = True, lr_type = ''rest''\<rparr>,
         \<lparr>lr_id = ''b'', lr_name = ''B'', lr_unit = None, lr_unitRuntimeId = None, lr_live = True, lr_type = ''rest''\<rparr>],
      ab_services = [(''a'', [\<lparr>as_uuid = ''s'', as_name = None, as_state = JNull\<rparr>]), (''b'', [\<lparr>as_uuid = ''t'', as_name = None, as_state = JNull\<rparr>])],
      ab_apis = [(''rest'', True)]\<rparr>"

abbreviation examplePage :: AssetDescriptor where
  "examplePage \<equiv>
     \<lparr>asset_id = ''home'', asset_name = None, asset_mediaType = ''text/plain'', asset_sha256 = None, asset_size = None,
      asset_runtimes = None, asset_source = AssetText ''x''\<rparr>"

abbreviation exampleWorld :: World where
  "exampleWorld \<equiv>
     \<lparr>descriptors = (\<lambda>_ a. if a = ''page'' then Some (examplePage\<lparr>asset_id := ''page''\<rparr>) else None),
      configured = (\<lambda>_ _. JStr ''hkp-asset://page''), made = 0\<rparr>"

text \<open>The fourth call, the second configuration, is refused, and so is putting the first one back.\<close>

abbreviation refusing :: Answers where
  "refusing \<equiv> \<lparr>refusal = (\<lambda>n. if n = 3 \<or> n = 4 then Some ''no'' else None), silent = (\<lambda>_ _. False)\<rparr>"

lemma exampleBoard_distinct: "own_distinct exampleBoard"
  by code_simp




text \<open>
   After a push every runtime of the board's own that takes pushes, and did not report a failure,
  holds what was changed as it is now: a descriptor that is for it, and nothing under an id that was deleted or is not for it
  any longer.  Any other runtime and any other id is left as it was.
\<close>

theorem pushAssetChanges_reaches:
  assumes d: "own_distinct board" and names: "distinct (map fst changes)"
    and run: "pushAssetChanges answers board changes w = (w', failures)"
  shows "(\<forall>rt\<in>set (filter (takesPushes board) (ownRuntimes board)) - pf_runtime ` set failures. \<forall>(a, d)\<in>set changes.
      descriptors w' (lr_id rt) a = (case d of Some x \<Rightarrow> if assetReaches x (asAssetRuntime rt) then Some x else None | None \<Rightarrow> None))
    \<and> (\<forall>i a. a \<notin> fst ` set changes \<or> i \<notin> lr_id ` set (filter (takesPushes board) (ownRuntimes board)) \<longrightarrow> descriptors w' i a = descriptors w i a)
    \<and> configured w' = configured w"
proof (cases "changes = []")
  case True
  then show ?thesis using run by (simp add: pushAssetChanges_def)
next
  case False
  let ?rts = "filter (takesPushes board) (ownRuntimes board)"
  let ?jobs = "map (\<lambda>rt. (rt, pushFor rt changes)) ?rts"
  have ids: "distinct (map lr_id ?rts)" using d by (auto simp: own_distinct_def intro: distinct_map_filter)
  then have "distinct (map (lr_id \<circ> fst) ?jobs)" by (simp add: comp_def)
  moreover have "pushAll answers ?jobs w = (w', failures)" using run False by (simp add: pushAssetChanges_def)
  ultimately have E: "configured w' = configured w" "rt \<in> set ?rts \<Longrightarrow> descriptors w' (lr_id rt) a =
        (if rt \<in> pf_runtime ` set failures then descriptors w (lr_id rt) a
         else case map_of (pushFor rt changes) a of Some d \<Rightarrow> d | None \<Rightarrow> descriptors w (lr_id rt) a)"
      "i \<notin> lr_id ` set ?rts \<Longrightarrow> descriptors w' i a = descriptors w i a" for rt i a
    using pushAll_effect [of answers ?jobs w w' failures] by (simp_all add: image_image)
  have fsts: "map fst (pushFor rt changes) = map fst changes" for rt by (simp add: pushFor_def comp_def split_beta)
  have at: "map_of (pushFor rt changes) a = Some (case d of Some x \<Rightarrow> if assetReaches x (asAssetRuntime rt) then Some x else None | None \<Rightarrow> None)"
    if "(a, d) \<in> set changes" for rt a d
  proof -
    have "distinct (map fst (pushFor rt changes))" using names by (simp add: fsts)
    then show ?thesis using that by (force simp: map_of_eq_Some_iff pushFor_def)
  qed
  have out: "map_of (pushFor rt changes) a = None" if "a \<notin> fst ` set changes" for rt a
    using that by (metis fsts list.set_map map_of_eq_None_iff)
  have "descriptors w' i a = descriptors w i a" if "a \<notin> fst ` set changes" for i a
    using E(2,3) out [OF that] by (cases "i \<in> lr_id ` set ?rts") auto
  then show ?thesis using E at by auto
qed

theorem pushAssetChanges_reaches_witness:
  "descriptors (fst (pushAssetChanges (refusing\<lparr>refusal := \<lambda>_. None\<rparr>) exampleBoard [(''home'', Some examplePage), (''page'', None)] exampleWorld)) ''b'' ''page'' = None"
proof -
  let ?answers = "refusing\<lparr>refusal := \<lambda>_. None\<rparr>" and ?changes = "[(''home'', Some examplePage), (''page'', None)]"
  obtain w' failures where run: "pushAssetChanges ?answers exampleBoard ?changes exampleWorld = (w', failures)" by fastforce
  have "length (snd (pushAssetChanges ?answers exampleBoard ?changes exampleWorld)) = 0" by code_simp
  then have none: "failures = []" by (simp only: run snd_conv length_0_conv)
  have "list_ex (\<lambda>rt. lr_id rt = ''b'') (filter (takesPushes exampleBoard) (ownRuntimes exampleBoard))" by code_simp
  then obtain rt where rt: "rt \<in> set (filter (takesPushes exampleBoard) (ownRuntimes exampleBoard))" "lr_id rt = ''b''"
    unfolding list_ex_iff by blast
  have "distinct (map fst ?changes)" by code_simp
  note claim = pushAssetChanges_reaches [OF exampleBoard_distinct this run, THEN conjunct1]
  have "\<forall>(a, d)\<in>set ?changes. descriptors w' (lr_id rt) a =
      (case d of Some x \<Rightarrow> if assetReaches x (asAssetRuntime rt) then Some x else None | None \<Rightarrow> None)"
    using bspec [OF claim, of rt] rt(1) none by simp
  then show ?thesis unfolding run by (simp add: rt(2))
qed

end
