(* ===== verification/ForkBoard.thy ===== *)
theory ForkBoard
  imports BoardMount BoardWrap BoardAssets "HOL-Library.Sublist"
begin

text \<open>
  Copying a board so that the copy is a board of its own (\<^verbatim>\<open>hkp-frontend/src/core/forkBoard.ts\<close>): every id is
  renamed and what names one with it.  Ids of runtimes are strings.  The token, which the code draws when none is given, is an
  argument.  A walk that rebuilds an object adds the keys in the order they have, so the order stays.  What a copy
  may change is stated place by place, over the paths of the document.
\<close>

section \<open>What is renamed\<close>

definition SERVICE_ID_FIELDS :: "string list" where
  "SERVICE_ID_FIELDS = [''uuid'', ''instanceId'', ''targetServiceUuid'', ''serviceUuid'']"

definition RUNTIME_ID_FIELDS :: "string list" where
  "RUNTIME_ID_FIELDS = [''targetRuntime'', ''runtimeId'']"

text \<open>The ids of services, those that are here rather than pointed at, each once.\<close>

fun collectServiceIds :: "jsval \<Rightarrow> string list \<Rightarrow> string list" where
  "collectServiceIds (JArr xs) into = fold (\<lambda>entry. collectServiceIds entry) xs into"
| "collectServiceIds (JObj es) into =
     fold (\<lambda>(key, child) into. collectServiceIds child
         (if (key = ''uuid'' \<or> key = ''instanceId'') \<and> is_str child then set_add (to_str child) into else into)) es into"
| "collectServiceIds _ into = into"

type_synonym renames = "(string \<times> string) list"

definition renamed :: "renames \<Rightarrow> string \<Rightarrow> string" where
  "renamed m s = (case map_of m s of Some t \<Rightarrow> t | None \<Rightarrow> s)"

definition forkedRef :: "renames \<Rightarrow> renames \<Rightarrow> string \<Rightarrow> string" where
  "forkedRef services runtimes s =
     (case parseMountRef (Some s) of
        None \<Rightarrow> s
      | Some ref \<Rightarrow> formatMountRef \<lparr>ref_runtimeId = renamed runtimes (ref_runtimeId ref), ref_serviceUuid = renamed services (ref_serviceUuid ref)\<rparr>)"

definition forkedField :: "renames \<Rightarrow> renames \<Rightarrow> string \<Rightarrow> string \<Rightarrow> string" where
  "forkedField services runtimes key s =
     (if key \<in> set SERVICE_ID_FIELDS then renamed services s
      else if key \<in> set RUNTIME_ID_FIELDS then renamed runtimes s
      else forkedRef services runtimes s)"

text \<open>\<^verbatim>\<open>rewrite\<close>.  A string that is the whole document is left as it is.\<close>

fun rewriteIds :: "renames \<Rightarrow> renames \<Rightarrow> jsval \<Rightarrow> jsval" where
  "rewriteIds services runtimes (JArr xs) =
     JArr (map (\<lambda>entry. if is_str entry then at_string (forkedRef services runtimes) entry else rewriteIds services runtimes entry) xs)"
| "rewriteIds services runtimes (JObj es) =
     JObj (map (\<lambda>(key, child).
       (key, if is_str child then at_string (forkedField services runtimes key) child else rewriteIds services runtimes child)) es)"
| "rewriteIds services runtimes v = v"

section \<open>Forking\<close>

definition forkId :: "string \<Rightarrow> string \<Rightarrow> string" where
  "forkId token i = i @ ''-'' @ token"

definition forkRuntimes :: "string \<Rightarrow> obj \<Rightarrow> renames" where
  "forkRuntimes token board =
     map (\<lambda>i. (i, forkId token i))
       (set_adds (okeys (js_obj (oget board ''services'')))
         (set_adds (map (\<lambda>rt. to_str (field rt ''id'')) (js_arr (oget board ''runtimes''))) []))"

definition forkServices :: "string \<Rightarrow> obj \<Rightarrow> renames" where
  "forkServices token board = map (\<lambda>i. (i, forkId token i)) (collectServiceIds (JObj (js_obj (oget board ''services''))) [])"

definition forkedStructure :: "renames \<Rightarrow> obj \<Rightarrow> obj" where
  "forkedStructure runtimes board =
     oput ''services'' (JObj (from_entries (map (\<lambda>(i, list). (renamed runtimes i, list)) (js_obj (oget board ''services'')))))
       (oput ''runtimes'' (JArr (map (\<lambda>rt. JObj (oput ''id'' (JStr (renamed runtimes (to_str (field rt ''id'')))) (js_obj rt)))
          (js_arr (oget board ''runtimes'')))) board)"

definition forkBoard :: "string \<Rightarrow> string option \<Rightarrow> obj \<Rightarrow> obj \<times> renames \<times> renames" where
  "forkBoard token name board =
     (let runtimes = forkRuntimes token board; services = forkServices token board;
          forked = js_obj (rewriteIds services runtimes (JObj (forkedStructure runtimes board)));
          boardName = (case name of Some n \<Rightarrow> n | None \<Rightarrow> to_str (or_else (oget board ''boardName'') (JStr ''Board'')) @ '' fork'')
      in (oput ''boardName'' (JStr boardName) forked, runtimes, services))"

section \<open>Facts\<close>

fun ids_of :: "jsval \<Rightarrow> string list" where
  "ids_of (JArr xs) = concat (map ids_of xs)"
| "ids_of (JObj es) =
     concat (map (\<lambda>(key, child). (if (key = ''uuid'' \<or> key = ''instanceId'') \<and> is_str child then [to_str child] else []) @ ids_of child) es)"
| "ids_of _ = []"

lemma collectServiceIds_ids: "collectServiceIds v into = set_adds (ids_of v) into"
proof (induction v arbitrary: into)
  case (Arr xs)
  have "fold (\<lambda>entry. collectServiceIds entry) xs into = fold (\<lambda>x. set_adds (ids_of x)) xs into"
    by (rule fold_cong_pointwise) (rule Arr)
  then show ?case by (simp add: fold_set_adds)
next
  case (Obj es)
  have "fold (\<lambda>(key, child) into. collectServiceIds child
          (if (key = ''uuid'' \<or> key = ''instanceId'') \<and> is_str child then set_add (to_str child) into else into)) es into
      = fold (\<lambda>p. set_adds ((if (fst p = ''uuid'' \<or> fst p = ''instanceId'') \<and> is_str (snd p) then [to_str (snd p)] else []) @ ids_of (snd p))) es into"
  proof (rule fold_cong_pointwise)
    fix p into assume "p \<in> set es"
    then have "snd p \<in> set (ovalues es)" by (simp add: ovalues_def)
    then show "(case p of (key, child) \<Rightarrow> \<lambda>into. collectServiceIds child
          (if (key = ''uuid'' \<or> key = ''instanceId'') \<and> is_str child then set_add (to_str child) into else into)) into
        = set_adds ((if (fst p = ''uuid'' \<or> fst p = ''instanceId'') \<and> is_str (snd p) then [to_str (snd p)] else []) @ ids_of (snd p)) into"
      by (simp add: Obj split_def)
  qed
  also have "\<dots> = set_adds (concat (map (\<lambda>p. (if (fst p = ''uuid'' \<or> fst p = ''instanceId'') \<and> is_str (snd p) then [to_str (snd p)] else []) @ ids_of (snd p)) es)) into"
    by (rule fold_set_adds)
  finally show ?case by (simp only: collectServiceIds.simps ids_of.simps split_def)
qed simp_all

definition ids_at :: "string \<times> jsval \<Rightarrow> string list" where
  "ids_at p = (if (fst p = ''uuid'' \<or> fst p = ''instanceId'') \<and> is_str (snd p) then [to_str (snd p)] else []) @ ids_of (snd p)"

lemma ids_of_JObj: "ids_of (JObj es) = concat (map ids_at es)"
  by (simp add: ids_at_def [abs_def] split_def)

lemma is_str_rewritten [simp]: "is_str (rewriteIds services runtimes v) = is_str v"
  by (cases v) simp_all

lemma ids_rewritten: "ids_of (rewriteIds services runtimes v) = map (renamed services) (ids_of v)"
proof (induction services runtimes v rule: rewriteIds.induct)
  case (1 services runtimes xs)
  have "ids_of (if is_str x then at_string (forkedRef services runtimes) x else rewriteIds services runtimes x) = map (renamed services) (ids_of x)"
    if "x \<in> set xs" for x
  proof (cases "is_str x")
    case True
    then show ?thesis by (cases x) simp_all
  qed (simp add: 1 [OF that])
  then show ?case by (simp add: map_concat comp_def cong: map_cong)
next
  case (2 services runtimes es)
  define moved where "moved = (\<lambda>key child. if is_str child then at_string (forkedField services runtimes key) child else rewriteIds services runtimes child)"
  have "ids_at (key, moved key child) = map (renamed services) (ids_at (key, child))" if "(key, child) \<in> set es" for key child
  proof (cases "is_str child")
    case True
    then show ?thesis by (cases child) (simp_all add: moved_def ids_at_def forkedField_def SERVICE_ID_FIELDS_def)
  next
    case False
    then show ?thesis using 2 [OF that refl False] by (simp add: moved_def ids_at_def)
  qed
  then have "map ids_at (map (\<lambda>(key, child). (key, moved key child)) es) = map (\<lambda>p. map (renamed services) (ids_at p)) es"
    by auto
  then have "concat (map ids_at (map (\<lambda>(key, child). (key, moved key child)) es)) = map (renamed services) (concat (map ids_at es))"
    by (simp only: map_concat) (simp add: comp_def)
  moreover have "rewriteIds services runtimes (JObj es) = JObj (map (\<lambda>(key, child). (key, moved key child)) es)"
    by (simp add: moved_def)
  ultimately show ?case by (simp only: ids_of_JObj)
qed simp_all

text \<open>Ids without the token stay apart from those with it.\<close>

definition untouched_by :: "string \<Rightarrow> string \<Rightarrow> bool" where
  "untouched_by token s = (\<not> sublist (''-'' @ token) s)"

lemma forkId_inj [simp]: "forkId token i = forkId token j \<longleftrightarrow> i = j"
  by (simp add: forkId_def)

lemma forkId_touched: "\<not> untouched_by token (forkId token i)"
  by (auto simp: untouched_by_def forkId_def)

abbreviation fork_map :: "string \<Rightarrow> string list \<Rightarrow> renames" where
  "fork_map token is \<equiv> map (\<lambda>i. (i, forkId token i)) is"

definition undo_map :: "renames \<Rightarrow> renames" where
  "undo_map m = map (\<lambda>(a, b). (b, a)) m"

lemma renamed_fork: "renamed (fork_map token is) s = (if s \<in> set is then forkId token s else s)"
proof -
  have "map_of (fork_map token is) s = (if s \<in> set is then Some (forkId token s) else None)"
    by (induction "is") auto
  then show ?thesis by (simp add: renamed_def)
qed

lemma renamed_undo:
  assumes "untouched_by token s"
  shows "renamed (undo_map (fork_map token is)) (renamed (fork_map token is) s) = s"
proof -
  have "map_of (undo_map (fork_map token is)) (forkId token t) = (if t \<in> set is then Some t else None)" for t
    by (induction "is") (auto simp: undo_map_def)
  moreover have "map_of (undo_map (fork_map token is)) s = None"
    using assms forkId_touched by (induction "is") (auto simp: undo_map_def)
  ultimately show ?thesis unfolding renamed_fork by (simp add: renamed_def)
qed

lemma renamed_inj:
  assumes "untouched_by token s" "untouched_by token t"
  shows "renamed (fork_map token is) s = renamed (fork_map token is) t \<longleftrightarrow> s = t"
  using renamed_undo [OF assms(1), of "is"] renamed_undo [OF assms(2), of "is"] by metis

text \<open>References.\<close>

lemma ref_parts_untouched:
  assumes "parseMountRef (Some s) = Some ref" "untouched_by token s"
  shows "untouched_by token (ref_runtimeId ref)" "untouched_by token (ref_serviceUuid ref)"
proof -
  have s: "s = formatMountRef ref" using assms(1) by (simp add: parseMountRef_eq)
  have "sublist (ref_runtimeId ref) s" "sublist (ref_serviceUuid ref) s"
    unfolding s formatMountRef_def sublist_def by (metis append_assoc) (metis append.right_neutral append_assoc)
  then show "untouched_by token (ref_runtimeId ref)" "untouched_by token (ref_serviceUuid ref)"
    using assms(2) sublist_order.order_trans unfolding untouched_by_def by blast+
qed

lemma parse_forkedRef:
  assumes "parseMountRef (Some s) = Some ref" "CHR ''/'' \<notin> set token"
  shows "parseMountRef (Some (forkedRef (fork_map token ss) (fork_map token rs) s))
    = Some \<lparr>ref_runtimeId = renamed (fork_map token rs) (ref_runtimeId ref), ref_serviceUuid = renamed (fork_map token ss) (ref_serviceUuid ref)\<rparr>"
proof -
  have "ref_runtimeId ref \<noteq> []" "CHR ''/'' \<notin> set (ref_runtimeId ref)" "ref_serviceUuid ref \<noteq> []"
    using assms(1) by (simp_all add: parseMountRef_eq)
  moreover have "forkId token i \<noteq> []" "CHR ''/'' \<in> set (forkId token i) \<longleftrightarrow> CHR ''/'' \<in> set i" for i
    using assms(2) by (simp_all add: forkId_def)
  ultimately have "renamed (fork_map token rs) (ref_runtimeId ref) \<noteq> []" "CHR ''/'' \<notin> set (renamed (fork_map token rs) (ref_runtimeId ref))"
      "renamed (fork_map token ss) (ref_serviceUuid ref) \<noteq> []"
    by (simp_all add: renamed_fork)
  then show ?thesis
    unfolding parseMountRef_eq by (simp add: forkedRef_def assms(1))
qed

lemma forkedRef_undo:
  assumes "untouched_by token s" "CHR ''/'' \<notin> set token"
  shows "forkedRef (undo_map (fork_map token ss)) (undo_map (fork_map token rs)) (forkedRef (fork_map token ss) (fork_map token rs) s) = s"
proof (cases "parseMountRef (Some s)")
  case None
  then show ?thesis by (simp add: forkedRef_def)
next
  case (Some ref)
  have "s = formatMountRef ref" using Some by (simp add: parseMountRef_eq)
  then show ?thesis
    using renamed_undo [OF ref_parts_untouched(1) [OF Some assms(1)], of rs] renamed_undo [OF ref_parts_untouched(2) [OF Some assms(1)], of ss]
    unfolding forkedRef_def [of "undo_map _"] parse_forkedRef [OF Some assms(2)] by (cases ref) simp
qed

lemma forkedField_undo:
  assumes "untouched_by token s" "CHR ''/'' \<notin> set token"
  shows "forkedField (undo_map (fork_map token ss)) (undo_map (fork_map token rs)) key (forkedField (fork_map token ss) (fork_map token rs) key s) = s"
  using forkedRef_undo [OF assms] renamed_undo [OF assms(1)] by (simp add: forkedField_def)

fun objects_of :: "jsval \<Rightarrow> obj list" where
  "objects_of (JArr xs) = concat (map objects_of xs)"
| "objects_of (JObj es) = es # concat (map (\<lambda>(key, child). objects_of child) es)"
| "objects_of _ = []"

definition copy_of :: "renames \<Rightarrow> renames \<Rightarrow> obj \<Rightarrow> obj" where
  "copy_of services runtimes es = js_obj (rewriteIds services runtimes (JObj es))"

lemma objects_rewritten: "objects_of (rewriteIds services runtimes v) = map (copy_of services runtimes) (objects_of v)"
proof (induction services runtimes v rule: rewriteIds.induct)
  case (1 services runtimes xs)
  have "objects_of (if is_str x then at_string (forkedRef services runtimes) x else rewriteIds services runtimes x) = map (copy_of services runtimes) (objects_of x)"
    if "x \<in> set xs" for x
  proof (cases "is_str x")
    case True
    then show ?thesis by (cases x) simp_all
  qed (simp add: 1 [OF that])
  then show ?case by (simp add: map_concat comp_def cong: map_cong)
next
  case (2 services runtimes es)
  have "objects_of (if is_str child then at_string (forkedField services runtimes key) child else rewriteIds services runtimes child)
      = map (copy_of services runtimes) (objects_of child)"
    if "(key, child) \<in> set es" for key child
  proof (cases "is_str child")
    case True
    then show ?thesis by (cases child) simp_all
  qed (simp add: 2 [OF that refl])
  then have "map (\<lambda>(key, child). objects_of child) (js_obj (rewriteIds services runtimes (JObj es)))
      = map (\<lambda>(key, child). map (copy_of services runtimes) (objects_of child)) es"
    by (auto intro!: map_cong)
  moreover have "rewriteIds services runtimes (JObj es) = JObj (copy_of services runtimes es)"
    by (simp add: copy_of_def)
  ultimately have "objects_of (rewriteIds services runtimes (JObj es))
      = copy_of services runtimes es # concat (map (\<lambda>(key, child). map (copy_of services runtimes) (objects_of child)) es)"
    by (simp only: objects_of.simps js_obj.simps)
  then show ?case by (simp only: objects_of.simps list.map(2) map_concat) (simp add: comp_def split_def)
qed simp_all

lemma oget_copy:
  "oget (copy_of services runtimes es) key =
     (case oget es key of JStr s \<Rightarrow> JStr (forkedField services runtimes key s) | v \<Rightarrow> rewriteIds services runtimes v)"
proof -
  have "map_of (map (\<lambda>(k, child). (k, f k child)) es) key = map_option (f key) (map_of es key)" for f
    by (induction es) auto
  from this [of "\<lambda>k child. if is_str child then at_string (forkedField services runtimes k) child else rewriteIds services runtimes child"]
  show ?thesis
    by (cases "oget es key") (auto simp: copy_of_def oget_def split: option.splits)
qed

definition hasId :: "string \<Rightarrow> obj \<Rightarrow> bool" where
  "hasId u es = (oget es ''uuid'' = JStr u \<or> oget es ''instanceId'' = JStr u)"

lemma objects_strings:
  assumes "es \<in> set (objects_of v)" "oget es k = JStr s"
  shows "s \<in> set (strings_of v)"
  using assms
proof (induction v)
  case (Obj fs)
  show ?case
  proof (cases "es = fs")
    case True
    then show ?thesis using Obj.prems(2) by (force simp: oget_def ovalues_def dest: map_of_SomeD split: option.splits)
  next
    case False
    then obtain key child where "(key, child) \<in> set fs" "es \<in> set (objects_of child)" using Obj.prems(1) by auto
    moreover from this(1) have child: "child \<in> set (ovalues fs)" by (rule ovalues_memI)
    ultimately have "s \<in> set (strings_of child)" using Obj.IH [OF child] Obj.prems(2) by blast
    then show ?thesis using child by auto
  qed
qed auto

lemma hasId_copy:
  assumes "es \<in> set (objects_of v)" "list_all (untouched_by token) (strings_of v)" "untouched_by token u"
  shows "hasId (renamed (fork_map token ss) u) (copy_of (fork_map token ss) runtimes es) \<longleftrightarrow> hasId u es"
proof -
  have "untouched_by token s" if "oget es k = JStr s" for k s
    using objects_strings [OF assms(1) that] assms(2) by (simp add: list_all_iff)
  then have one: "oget (copy_of (fork_map token ss) runtimes es) k = JStr (renamed (fork_map token ss) u) \<longleftrightarrow> oget es k = JStr u"
    if "k \<in> {''uuid'', ''instanceId''}" for k
    using that renamed_inj [OF _ assms(3)] by (auto simp: oget_copy forkedField_def SERVICE_ID_FIELDS_def split: jsval.splits)
  show ?thesis using one [of "''uuid''"] one [of "''instanceId''"] by (simp add: hasId_def)
qed

lemma rewritten_undo:
  assumes "rewriteIds s' r' (rewriteIds s r x) = x" "\<And>t. x = JStr t \<Longrightarrow> g (f t) = t"
  shows "(if is_str (if is_str x then at_string f x else rewriteIds s r x) then at_string g (if is_str x then at_string f x else rewriteIds s r x)
      else rewriteIds s' r' (if is_str x then at_string f x else rewriteIds s r x)) = x"
  using assms by (cases x) simp_all

lemma rewriteIds_undo:
  assumes "list_all (untouched_by token) (strings_of v)" "CHR ''/'' \<notin> set token"
  shows "rewriteIds (undo_map (fork_map token ss)) (undo_map (fork_map token rs)) (rewriteIds (fork_map token ss) (fork_map token rs) v) = v"
  using assms(1)
proof (induction v)
  case (Arr xs)
  have "(if is_str y then at_string (forkedRef (undo_map (fork_map token ss)) (undo_map (fork_map token rs))) y
        else rewriteIds (undo_map (fork_map token ss)) (undo_map (fork_map token rs)) y) = x"
    if "x \<in> set xs" "y = (if is_str x then at_string (forkedRef (fork_map token ss) (fork_map token rs)) x else rewriteIds (fork_map token ss) (fork_map token rs) x)" for x y
  proof -
    have fresh: "list_all (untouched_by token) (strings_of x)" using Arr.prems that(1) by (auto simp: list_all_iff)
    show ?thesis
      unfolding that(2) using forkedRef_undo [OF _ assms(2)] fresh by (intro rewritten_undo [OF Arr.IH [OF that(1) fresh]]) simp
  qed
  then show ?case by (auto intro!: map_idI simp: comp_def)
next
  case (Obj es)
  have "(if is_str y then at_string (forkedField (undo_map (fork_map token ss)) (undo_map (fork_map token rs)) key) y
        else rewriteIds (undo_map (fork_map token ss)) (undo_map (fork_map token rs)) y) = x"
    if "(key, x) \<in> set es" "y = (if is_str x then at_string (forkedField (fork_map token ss) (fork_map token rs) key) x else rewriteIds (fork_map token ss) (fork_map token rs) x)" for key x y
  proof -
    have x: "x \<in> set (ovalues es)" using that(1) by (rule ovalues_memI)
    then have fresh: "list_all (untouched_by token) (strings_of x)" using Obj.prems by (auto simp: list_all_iff)
    show ?thesis
      unfolding that(2) using forkedField_undo [OF _ assms(2)] fresh by (intro rewritten_undo [OF Obj.IH [OF x fresh]]) simp
  qed
  then show ?case by (auto intro!: map_idI simp: comp_def)
qed simp_all

text \<open>
  Place by place: what a rewritten value holds at a path is what the original holds there, rewritten by the
  last step of the path.
\<close>

definition copied_at :: "renames \<Rightarrow> renames \<Rightarrow> AssetPathStep \<Rightarrow> jsval \<Rightarrow> jsval" where
  "copied_at services runtimes step v =
     (if is_str v then at_string (case step of AtKey k \<Rightarrow> forkedField services runtimes k | AtIndex _ \<Rightarrow> forkedRef services runtimes) v
      else rewriteIds services runtimes v)"

lemma map_of_copy: "map_of (copy_of services runtimes es) k = map_option (copied_at services runtimes (AtKey k)) (map_of es k)"
  by (induction es) (auto simp: copy_of_def copied_at_def)

lemma value_at_nowhere [simp]:
  "value_at (step # path) JUndef = None" "value_at (step # path) JNull = None" "value_at (step # path) (JBool b) = None"
  "value_at (step # path) (JNum n) = None" "value_at (step # path) (JStr t) = None"
  by (cases step; simp)+

lemma copied_at_simps:
  "copied_at services runtimes step (JObj es) = JObj (copy_of services runtimes es)"
  "copied_at services runtimes step (JArr xs) = JArr (map (copied_at services runtimes (AtIndex n)) xs)"
  "copied_at services runtimes step JUndef = JUndef" "copied_at services runtimes step JNull = JNull"
  "copied_at services runtimes step (JBool b) = JBool b" "copied_at services runtimes step (JNum q) = JNum q"
  by (simp_all add: copied_at_def copy_of_def fun_eq_iff)

lemma value_at_copied:
  "value_at path (copied_at services runtimes step v) = map_option (copied_at services runtimes (last (step # path))) (value_at path v)"
proof (induction path arbitrary: step v)
  case (Cons next_step path)
  show ?case
  proof (cases v)
    case (JStr t)
    then show ?thesis by (simp add: copied_at_def)
  next
    case (JArr xs)
    then show ?thesis
      using Cons by (cases next_step) (simp_all add: copied_at_simps(2) [where n = "case next_step of AtIndex n \<Rightarrow> n | _ \<Rightarrow> 0"] copied_at_simps(1))
  next
    case (JObj es)
    then show ?thesis
      using Cons by (cases next_step) (auto simp: copied_at_simps(1) map_of_copy split: option.split)
  qed (simp_all add: copied_at_simps)
qed simp

text \<open>
  The text a copy has where the original has a text: by the key it is at an id with the token, or a mount
  reference whose runtime and service are, and any other text as it is.
\<close>

definition fork_if :: "string \<Rightarrow> string set \<Rightarrow> string \<Rightarrow> string" where
  "fork_if token ids s = (if s \<in> ids then forkId token s else s)"

definition copied_text :: "string \<Rightarrow> string set \<Rightarrow> string set \<Rightarrow> AssetPathStep \<Rightarrow> string \<Rightarrow> string" where
  "copied_text token services runtimes step s =
     (if step \<in> AtKey ` {''uuid'', ''instanceId'', ''targetServiceUuid'', ''serviceUuid''} then fork_if token services s
      else if step \<in> AtKey ` {''targetRuntime'', ''runtimeId''} then fork_if token runtimes s
      else (case parseMountRef (Some s) of
              None \<Rightarrow> s
            | Some ref \<Rightarrow> formatMountRef \<lparr>ref_runtimeId = fork_if token runtimes (ref_runtimeId ref),
                ref_serviceUuid = fork_if token services (ref_serviceUuid ref)\<rparr>))"

text \<open>The copy of a value: a text with what becomes of texts, a list as long, an object of the same keys, anything else itself.\<close>

definition copied_value :: "(string \<Rightarrow> string) \<Rightarrow> jsval option \<Rightarrow> jsval option \<Rightarrow> bool" where
  "copied_value becomes x y =
     (case x of
        Some (JStr s) \<Rightarrow> y = Some (JStr (becomes s))
      | Some (JArr xs) \<Rightarrow> (\<exists>ys. y = Some (JArr ys) \<and> length ys = length xs)
      | Some (JObj es) \<Rightarrow> (\<exists>fs. y = Some (JObj fs) \<and> okeys fs = okeys es)
      | _ \<Rightarrow> y = x)"

lemma renamed_fork_if: "renamed (fork_map token is) s = fork_if token (set is) s"
  by (simp add: renamed_fork fork_if_def)

lemma copied_value_at:
  "copied_value (copied_text token (set ss) (set rs) step) x (map_option (copied_at (fork_map token ss) (fork_map token rs) step) x)"
proof -
  have t: "(case step of AtKey k \<Rightarrow> forkedField (fork_map token ss) (fork_map token rs) k | AtIndex _ \<Rightarrow> forkedRef (fork_map token ss) (fork_map token rs)) s
      = copied_text token (set ss) (set rs) step s" for s
    by (cases step) (auto simp: forkedField_def forkedRef_def copied_text_def renamed_fork_if SERVICE_ID_FIELDS_def RUNTIME_ID_FIELDS_def split: option.split)
  show ?thesis
  proof (cases x)
    case (Some v)
    then show ?thesis
      by (cases v) (simp_all add: copied_value_def copied_at_def t comp_def split_def)
  qed (simp add: copied_value_def)
qed

section \<open>Claims\<close>

text \<open>The ids a board has: of its runtimes, of the lists of services and of the services in them.\<close>

definition board_services :: "obj \<Rightarrow> obj" where
  "board_services board = js_obj (oget board ''services'')"

definition board_runtimes :: "obj \<Rightarrow> string list" where
  "board_runtimes board = map (\<lambda>rt. to_str (field rt ''id'')) (js_arr (oget board ''runtimes''))"

definition board_ids :: "obj \<Rightarrow> string set" where
  "board_ids board = set (board_runtimes board) \<union> set (okeys (board_services board)) \<union> set (ids_of (JObj (board_services board)))"

lemma set_from_entries_distinct: "distinct (okeys es) \<Longrightarrow> set (from_entries es) = set (es :: obj)"
proof -
  assume d: "distinct (okeys es)"
  moreover have "distinct (okeys (from_entries es))" by (simp add: from_entries_def distinct_ospread)
  ultimately have "p \<in> set (from_entries es) \<longleftrightarrow> p \<in> set es" for p
    using map_of_from_entries [OF d] map_of_eq_Some_iff [of _ "fst p" "snd p"] by (metis prod.collapse)
  then show ?thesis by blast
qed

lemma ids_of_set: "\<forall>v\<in>set (ovalues es). \<not> is_str v \<Longrightarrow> set (ids_of (JObj es)) = (\<Union>v\<in>set (ovalues es). set (ids_of v))"
  by (induction es) auto

lemma forkedStructure_fields:
  "oget (forkedStructure m board) ''services'' = JObj (from_entries (map (\<lambda>(i, list). (renamed m i, list)) (board_services board)))"
  "oget (forkedStructure m board) ''runtimes'' = JArr (map (\<lambda>rt. JObj (oput ''id'' (JStr (renamed m (to_str (field rt ''id'')))) (js_obj rt)))
      (js_arr (oget board ''runtimes'')))"
  by (simp_all add: forkedStructure_def board_services_def oget_def)

definition service_ids :: "obj \<Rightarrow> string set" where
  "service_ids board = set (ids_of (JObj (board_services board)))"

definition runtime_ids :: "obj \<Rightarrow> string set" where
  "runtime_ids board = set (board_runtimes board) \<union> set (okeys (board_services board))"

lemma fork_maps:
  "\<exists>ss rs. forkServices token board = fork_map token ss \<and> forkRuntimes token board = fork_map token rs
     \<and> set ss = service_ids board \<and> set rs = runtime_ids board"
  unfolding forkServices_def forkRuntimes_def
  by (intro exI conjI, rule refl, rule refl)
    (auto simp: service_ids_def runtime_ids_def board_services_def board_runtimes_def collectServiceIds_ids simp del: ids_of.simps)

lemma renamed_runtimes: "renamed (forkRuntimes token board) i = fork_if token (runtime_ids board) i"
  using fork_maps [of token board] by (metis renamed_fork_if)

lemma forkBoard_at:
  assumes "k \<noteq> ''boardName''"
  shows "copied_value (copied_text token (service_ids board) (runtime_ids board) (last (AtKey k # path)))
    (value_at (AtKey k # path) (JObj (forkedStructure (forkRuntimes token board) board)))
    (value_at (AtKey k # path) (JObj (fst (forkBoard token name board))))"
proof -
  obtain ss rs where m: "forkServices token board = fork_map token ss" "forkRuntimes token board = fork_map token rs"
      "set ss = service_ids board" "set rs = runtime_ids board"
    using fork_maps by blast
  let ?structure = "forkedStructure (fork_map token rs) board"
  have "fst (forkBoard token name board) = oput ''boardName'' (JStr (case name of Some n \<Rightarrow> n
      | None \<Rightarrow> to_str (or_else (oget board ''boardName'') (JStr ''Board'')) @ '' fork'')) (copy_of (fork_map token ss) (fork_map token rs) ?structure)"
    by (simp add: forkBoard_def Let_def m copy_of_def)
  then have "value_at (AtKey k # path) (JObj (fst (forkBoard token name board)))
      = map_option (copied_at (fork_map token ss) (fork_map token rs) (last (AtKey k # path))) (value_at (AtKey k # path) (JObj ?structure))"
    using assms value_at_copied [of path _ _ "AtKey k"] by (simp add: map_of_copy split: option.split)
  then show ?thesis
    using copied_value_at [of token ss rs] by (simp add: m)
qed

lemma structure_services:
  assumes "distinct (okeys (board_services board))"
  shows "map_of (from_entries (map (\<lambda>(i, list). (renamed (forkRuntimes token board) i, list)) (board_services board))) (forkId token i)
    = map_of (board_services board) i"
proof -
  have "renamed (forkRuntimes token board) j = forkId token j" if "j \<in> set (okeys (board_services board))" for j
    using that by (simp add: renamed_runtimes fork_if_def runtime_ids_def)
  then have es: "map (\<lambda>(i, list). (renamed (forkRuntimes token board) i, list)) (board_services board)
      = map (\<lambda>(i, list). (forkId token i, list)) (board_services board)"
    by force
  have "map_of (map (\<lambda>(i, list). (forkId token i, list)) es) (forkId token i) = map_of es i" for es :: obj
    by (induction es) auto
  moreover have "distinct (okeys (map (\<lambda>(i, list). (forkId token i, list)) (board_services board)))"
    using assms(1) by (simp add: comp_def split_def distinct_map inj_on_def)
  ultimately show ?thesis unfolding es by (simp add: map_of_from_entries)
qed

lemma fork_ids:
  fixes name :: "string option"
  assumes "canon_keys (okeys (board_services board))" "\<forall>v\<in>set (ovalues (board_services board)). \<not> is_str v"
    and "\<forall>i\<in>set (board_runtimes board). \<not> isMountRef (forkId token i)"
  defines "fork \<equiv> fst (forkBoard token name board)"
  shows "board_runtimes fork = map (forkId token) (board_runtimes board)"
    and "set (okeys (board_services fork)) = forkId token ` set (okeys (board_services board))"
    and "set (ids_of (JObj (board_services fork))) = forkId token ` set (ids_of (JObj (board_services board)))"
proof -
  let ?R = "forkRuntimes token board" and ?S = "forkServices token board"
  let ?es = "map (\<lambda>(i, list). (renamed ?R i, list)) (board_services board)"
  have fork: "oget fork k = oget (copy_of ?S ?R (forkedStructure ?R board)) k" if "k \<noteq> ''boardName''" for k
    using that by (simp add: fork_def forkBoard_def Let_def copy_of_def oget_def)
  have at_services: "oget fork ''services'' = rewriteIds ?S ?R (JObj (from_entries ?es))"
    by (simp add: fork oget_copy forkedStructure_fields del: rewriteIds.simps)
  have services: "board_services fork = copy_of ?S ?R (from_entries ?es)"
    unfolding board_services_def [of fork] at_services copy_of_def by (rule refl)
  have R: "renamed ?R i = forkId token i" if "i \<in> set (board_runtimes board) \<union> set (okeys (board_services board))" for i
    using that by (auto simp: forkRuntimes_def renamed_fork board_runtimes_def board_services_def)
  have S: "renamed ?S i = forkId token i" if "i \<in> set (ids_of (JObj (board_services board)))" for i
    using that by (auto simp: forkServices_def renamed_fork board_services_def collectServiceIds_ids)
  have keys: "okeys ?es = map (forkId token) (okeys (board_services board))"
    using R by (force simp: comp_def)
  have d: "distinct (okeys ?es)"
    using assms(1) unfolding keys by (simp add: canon_keys_def distinct_map inj_on_def)
  have same_keys: "okeys (copy_of s r es) = okeys es" for s r es by (simp add: copy_of_def comp_def split_def)
  have "set (okeys (board_services fork)) = set (okeys ?es)"
    unfolding services same_keys from_entries_def set_okeys_ospread by simp
  then show "set (okeys (board_services fork)) = forkId token ` set (okeys (board_services board))"
    unfolding keys by (simp only: set_map)
  have same_lists: "set (ovalues (from_entries ?es)) = set (ovalues (board_services board))"
    using set_from_entries_distinct [OF d] by (force simp: ovalues_def)
  have "set (ids_of (JObj (from_entries ?es))) = set (ids_of (JObj (board_services board)))"
    using assms(2) by (subst (1 2) ids_of_set) (simp_all only: same_lists)
  moreover have "ids_of (JObj (board_services fork)) = map (renamed ?S) (ids_of (JObj (from_entries ?es)))"
  proof -
    have "JObj (board_services fork) = rewriteIds ?S ?R (JObj (from_entries ?es))" by (simp add: services copy_of_def)
    then show ?thesis by (simp only: ids_rewritten)
  qed
  ultimately show "set (ids_of (JObj (board_services fork))) = forkId token ` set (ids_of (JObj (board_services board)))"
    using S by (simp del: ids_of.simps)
  have runtimes: "oget fork ''runtimes'' = rewriteIds ?S ?R (JArr (map (\<lambda>rt. JObj (oput ''id'' (JStr (renamed ?R (to_str (field rt ''id'')))) (js_obj rt)))
      (js_arr (oget board ''runtimes''))))"
    by (simp add: fork oget_copy forkedStructure_fields del: rewriteIds.simps)
  have one: "to_str (field (rewriteIds ?S ?R (JObj (oput ''id'' (JStr (renamed ?R (to_str (field rt ''id'')))) (js_obj rt)))) ''id'') = forkId token (to_str (field rt ''id''))"
    if "rt \<in> set (js_arr (oget board ''runtimes''))" for rt
  proof -
    have i: "to_str (field rt ''id'') \<in> set (board_runtimes board)" using that by (simp add: board_runtimes_def)
    have "field (rewriteIds ?S ?R (JObj fs)) k = oget (copy_of ?S ?R fs) k" for fs k
      by (simp add: field_def copy_of_def)
    moreover have "oget (oput ''id'' (JStr s) fs) ''id'' = JStr s" for s fs by (simp add: oget_def)
    ultimately show ?thesis
      using assms(3) i R [of "to_str (field rt ''id'')"]
      by (simp add: oget_copy forkedField_def SERVICE_ID_FIELDS_def RUNTIME_ID_FIELDS_def forkedRef_def isMountRef_def del: rewriteIds.simps)
  qed
  show "board_runtimes fork = map (forkId token) (board_runtimes board)"
    using one by (simp add: board_runtimes_def runtimes comp_def)
qed

text \<open>
  C21.  A copy is a board of its own: its ids, of runtimes and of services at any depth, are those of the
  original with the token behind them, so that none is an id of the original where no id of that has the token.
\<close>

theorem forkBoard_ids:
  assumes "canon_keys (okeys (board_services board))" "\<forall>v\<in>set (ovalues (board_services board)). \<not> is_str v"
    and "\<forall>i\<in>board_ids board. \<not> isMountRef (forkId token i) \<and> untouched_by token i"
  shows "board_ids (fst (forkBoard token name board)) = forkId token ` board_ids board
    \<and> board_ids (fst (forkBoard token name board)) \<inter> board_ids board = {}"
proof -
  have "\<forall>i\<in>set (board_runtimes board). \<not> isMountRef (forkId token i)" using assms(3) by (simp add: board_ids_def)
  from fork_ids [OF assms(1,2) this, of name]
  have ids: "board_ids (fst (forkBoard token name board)) = forkId token ` board_ids board"
    by (simp only: board_ids_def image_Un set_map)
  moreover have "forkId token i \<notin> board_ids board" for i
    using assms(3) forkId_touched by blast
  ultimately show ?thesis by auto
qed

abbreviation authored :: obj where
  "authored \<equiv>
     [(''runtimes'', JArr [JObj [(''id'', JStr ''ui'')]]),
      (''services'', JObj [(''ui'', JArr [JObj [(''uuid'', JStr ''b''), (''state'', JObj [(''to'', JStr ''hkp-mount://ui/b'')])]])]),
      (''facade'', JObj [(''serviceUuid'', JStr ''b'')])]"

theorem forkBoard_ids_witness:
  "board_ids (fst (forkBoard ''f0'' None authored)) = {''ui-f0'', ''b-f0''}"
proof -
  have "canon_keys (okeys (board_services authored))" by code_simp
  moreover have "list_all (\<lambda>v. \<not> is_str v) (ovalues (board_services authored))" by code_simp
  moreover have "list_all (\<lambda>i. \<not> isMountRef (forkId ''f0'' i) \<and> untouched_by ''f0'' i) [''ui'', ''b'']" by code_simp
  moreover have ids: "board_ids authored = {''ui'', ''b''}" by (auto simp: board_ids_def board_services_def board_runtimes_def oget_def field_def)
  ultimately have "board_ids (fst (forkBoard ''f0'' None authored)) = forkId ''f0'' ` board_ids authored"
    using forkBoard_ids [of authored "''f0''" None] by (simp add: list_all_iff)
  then show ?thesis unfolding ids by (simp add: forkId_def)
qed

text \<open>A place of the copy has what a place of the original has, but for ids.\<close>

definition same_but_ids :: "string \<Rightarrow> obj \<Rightarrow> obj \<Rightarrow> AssetPathStep list \<Rightarrow> AssetPathStep list \<Rightarrow> bool" where
  "same_but_ids token board fork original copied =
     copied_value (copied_text token (service_ids board) (runtime_ids board) (last original))
       (value_at original (JObj board)) (value_at copied (JObj fork))"

lemma copy_undone:
  assumes "list_all (untouched_by token) (strings_of (oget es k))" "CHR ''/'' \<notin> set token"
  shows "oget (copy_of (undo_map (fork_map token ss)) (undo_map (fork_map token rs)) (copy_of (fork_map token ss) (fork_map token rs) es)) k = oget es k"
  using assms forkedField_undo [of token "to_str (oget es k)" ss rs k] rewriteIds_undo [OF assms, of ss rs]
  by (cases "oget es k") (simp_all add: oget_copy)

lemma copied_services:
  assumes "distinct (okeys (board_services board))" "\<forall>v\<in>set (ovalues (board_services board)). \<not> is_str v"
  shows "same_but_ids token board (fst (forkBoard token name board))
    (AtKey ''services'' # AtKey i # path) (AtKey ''services'' # AtKey (forkId token i) # path)"
proof -
  have at: "value_at (AtKey ''services'' # AtKey (forkId token i) # path) (JObj (forkedStructure (forkRuntimes token board) board))
      = value_at (AtKey ''services'' # AtKey i # path) (JObj board)"
    using structure_services [OF assms(1), of token i]
    by (auto simp: forkedStructure_def board_services_def oget_def split: option.splits jsval.splits)
  have "copied_value (copied_text token (service_ids board) (runtime_ids board) (last (AtKey ''services'' # AtKey (forkId token i) # path)))
      (value_at (AtKey ''services'' # AtKey i # path) (JObj board))
      (value_at (AtKey ''services'' # AtKey (forkId token i) # path) (JObj (fst (forkBoard token name board))))"
    using forkBoard_at [of "''services''" token board "AtKey (forkId token i) # path" name] unfolding at by simp
  moreover have "value_at [AtKey ''services'', AtKey i] (JObj board) \<noteq> Some (JStr t)" for t
    using assms(2) by (force simp: board_services_def oget_def ovalues_def dest: map_of_SomeD split: option.splits jsval.splits)
  ultimately show ?thesis
    by (cases "path = []") (auto simp: same_but_ids_def copied_value_def simp del: value_at.simps split: option.splits jsval.splits)
qed

lemma structure_elsewhere:
  "k \<notin> {''runtimes'', ''services''} \<Longrightarrow> value_at (AtKey k # path) (JObj (forkedStructure m board)) = value_at (AtKey k # path) (JObj board)"
  by (simp add: forkedStructure_def)

lemma structure_runtimes:
  assumes "k \<noteq> ''id''"
  shows "value_at (AtKey ''runtimes'' # AtIndex n # AtKey k # path) (JObj (forkedStructure m board))
    = value_at (AtKey ''runtimes'' # AtIndex n # AtKey k # path) (JObj board)"
proof -
  let ?new = "\<lambda>rt. JObj (oput ''id'' (JStr (renamed m (to_str (field rt ''id'')))) (js_obj rt))"
  have one: "value_at (AtKey k # path) (?new rt) = value_at (AtKey k # path) rt" for rt
    using assms by (cases rt) simp_all
  have copied: "value_at (AtKey ''runtimes'' # q) (JObj (forkedStructure m board)) = value_at q (JArr (map ?new (js_arr (oget board ''runtimes''))))" for q
    by (simp add: forkedStructure_def)
  have all: "value_at (AtIndex n # AtKey k # path) (JArr (map ?new xs)) = value_at (AtIndex n # AtKey k # path) (JArr xs)" for xs
    unfolding value_at.simps(3) using one by (simp del: value_at.simps)
  have original: "value_at (AtIndex n # q) (JArr (js_arr (oget board ''runtimes''))) = value_at (AtKey ''runtimes'' # AtIndex n # q) (JObj board)" for q
    by (auto simp: oget_def split: option.split jsval.split)
  show ?thesis unfolding copied all original ..
qed

lemma copied_elsewhere:
  assumes "k \<notin> {''boardName'', ''runtimes'', ''services''}"
  shows "same_but_ids token board (fst (forkBoard token name board)) (AtKey k # path) (AtKey k # path)"
proof -
  have "k \<notin> {''runtimes'', ''services''}" "k \<noteq> ''boardName''" using assms by simp_all
  note k = this
  from forkBoard_at [OF k(2), of token board path name] show ?thesis
    unfolding structure_elsewhere [OF k(1)] same_but_ids_def .
qed

lemma copied_runtimes:
  assumes "k \<noteq> ''id''"
  shows "same_but_ids token board (fst (forkBoard token name board))
      (AtKey ''runtimes'' # AtIndex n # AtKey k # path) (AtKey ''runtimes'' # AtIndex n # AtKey k # path)"
  using forkBoard_at [of "''runtimes''" token board "AtIndex n # AtKey k # path" name]
  unfolding structure_runtimes [OF assms] same_but_ids_def by (simp del: value_at.simps)

text \<open>What the copy has under a key.\<close>

lemma fork_at_key:
  "k \<noteq> ''boardName'' \<Longrightarrow> oget (fst (forkBoard token name board)) k
    = oget (copy_of (forkServices token board) (forkRuntimes token board) (forkedStructure (forkRuntimes token board) board)) k"
  by (simp add: forkBoard_def Let_def copy_of_def)

lemma fork_list:
  assumes "distinct (okeys (board_services board))"
  shows "field (oget (forkedStructure (forkRuntimes token board) board) ''services'') (forkId token i) = oget (board_services board) i"
  using structure_services [OF assms, of token i] unfolding forkedStructure_fields(1) by (simp add: field_def oget_def)

lemma oget_strings: "set (strings_of (oget es k)) \<subseteq> set (strings_of (JObj es))"
  by (force simp: oget_def ovalues_def dest: map_of_SomeD split: option.splits)

lemma services_strings: "set (strings_of (JObj (board_services board))) \<subseteq> set (strings_of (JObj board))"
proof -
  have "set (strings_of (JObj (board_services board))) \<subseteq> set (strings_of (oget board ''services''))"
    by (cases "oget board ''services''") (simp_all add: board_services_def ovalues_def)
  then show ?thesis using oget_strings by blast
qed

lemma structure_strings:
  assumes "distinct (okeys (board_services board))"
  shows "set (strings_of (oget (forkedStructure (forkRuntimes token board) board) ''services'')) \<subseteq> set (strings_of (JObj board))"
proof -
  let ?es = "map (\<lambda>(i, list). (renamed (forkRuntimes token board) i, list)) (board_services board)"
  have "distinct (map (\<lambda>(i, list). renamed (forkRuntimes token board) i) (board_services board))"
  proof -
    have "map (\<lambda>(i, list). renamed (forkRuntimes token board) i) (board_services board) = map (forkId token) (okeys (board_services board))"
      by (force simp: renamed_runtimes fork_if_def runtime_ids_def)
    then show ?thesis using assms by (simp add: distinct_map inj_on_def del: map_map)
  qed
  then have "distinct (okeys ?es)" by (simp add: comp_def split_def)
  then have "set (ovalues (from_entries ?es)) = set (ovalues (board_services board))"
    using set_from_entries_distinct by (force simp: ovalues_def)
  then have "set (strings_of (JObj (from_entries ?es))) = set (strings_of (JObj (board_services board)))" by simp
  then show ?thesis
    unfolding forkedStructure_fields(1) using services_strings by blast
qed

lemma fork_objects:
  assumes "distinct (okeys (board_services board))" "untouched_by token i"
  shows "objects_of (field (oget (fst (forkBoard token name board)) ''services'') (fork_if token (runtime_ids board) i))
    = map (copy_of (forkServices token board) (forkRuntimes token board)) (objects_of (oget (board_services board) i))"
proof -
  let ?S = "forkServices token board" and ?R = "forkRuntimes token board"
  let ?es = "from_entries (map (\<lambda>(i, list). (renamed ?R i, list)) (board_services board))"
  have "oget (fst (forkBoard token name board)) ''services'' = JObj (copy_of ?S ?R ?es)"
    unfolding fork_at_key [of "''services''", simplified] oget_copy forkedStructure_fields(1) by (simp add: copy_of_def)
  then have f: "field (oget (fst (forkBoard token name board)) ''services'') k = oget (copy_of ?S ?R ?es) k" for k
    by (simp add: field_def)
  have objects: "objects_of (oget (copy_of ?S ?R fs) k) = map (copy_of ?S ?R) (objects_of (oget fs k))" for fs k
    using objects_rewritten [of ?S ?R "oget fs k"] unfolding oget_copy
    by (cases "oget fs k") (simp_all only: jsval.case objects_of.simps list.map)
  have "oget ?es (fork_if token (runtime_ids board) i) = oget (board_services board) i"
  proof (cases "i \<in> runtime_ids board")
    case True
    then show ?thesis using structure_services [OF assms(1), of token i] by (simp add: fork_if_def oget_def)
  next
    case False
    then have "i \<notin> set (okeys (board_services board))" by (simp add: runtime_ids_def)
    moreover have "i \<notin> set (okeys ?es)"
    proof -
      have "renamed ?R j \<noteq> i" if "j \<in> set (okeys (board_services board))" for j
        using that assms(2) forkId_touched [of token j] by (auto simp: renamed_runtimes fork_if_def runtime_ids_def)
      then show ?thesis unfolding from_entries_def set_okeys_ospread by fastforce
    qed
    ultimately have "map_of (board_services board) i = None" "map_of ?es i = None" unfolding map_of_eq_None_iff by simp_all
    then show ?thesis using False by (simp add: fork_if_def oget_def)
  qed
  then show ?thesis by (simp only: f objects)
qed

lemma fork_back:
  fixes name :: "string option"
  assumes "distinct (okeys (board_services board))" "list_all (untouched_by token) (strings_of (JObj board))" "CHR ''/'' \<notin> set token"
  defines "back \<equiv> copy_of (undo_map (forkServices token board)) (undo_map (forkRuntimes token board)) (fst (forkBoard token name board))"
  shows "k \<notin> {''boardName'', ''runtimes'', ''services''} \<Longrightarrow> oget back k = oget board k"
    and "field (oget back ''services'') (forkId token i) = oget (board_services board) i"
proof -
  obtain ss rs where m: "forkServices token board = fork_map token ss" "forkRuntimes token board = fork_map token rs"
    using fork_maps by blast
  let ?structure = "forkedStructure (forkRuntimes token board) board"
  have undone: "oget back k = oget ?structure k" if "k \<noteq> ''boardName''" "list_all (untouched_by token) (strings_of (oget ?structure k))" for k
    unfolding back_def oget_copy fork_at_key [OF that(1)] unfolding oget_copy [symmetric] m
    by (rule copy_undone [OF that(2) [unfolded m] assms(3)])
  have strings: "list_all (untouched_by token) (strings_of (oget board k))" for k
    using assms(2) oget_strings [of board k] by (auto simp: list_all_iff simp del: strings_of.simps)
  show "oget back k = oget board k" if "k \<notin> {''boardName'', ''runtimes'', ''services''}"
    using undone [of k] strings [of k] that by (simp add: forkedStructure_def)
  have "list_all (untouched_by token) (strings_of (oget ?structure ''services''))"
    using structure_strings [OF assms(1), of token] assms(2) by (auto simp: list_all_iff simp del: strings_of.simps)
  then show "field (oget back ''services'') (forkId token i) = oget (board_services board) i"
    using undone [of "''services''"] fork_list [OF assms(1)] by simp
qed

text \<open>
  C22.  Nothing but ids changes, all of them do, and no two become one.  Place by place the copy of a board has
  what the original has there: lists as long, objects of the same keys, values as they are, and texts too but
  where they name a service or a runtime of the board, by the key they are at or in a mount reference.  The lists of
  services are filed under the new ids of their runtimes, and of a runtime itself only the id is new.  And renaming
  the ids of the copy back gives the original, as long as the token is in none of its texts.
\<close>

theorem fork_undone:
  assumes "canon_keys (okeys (board_services board))" "\<forall>v\<in>set (ovalues (board_services board)). \<not> is_str v"
  shows "(\<forall>k path. k \<notin> {''boardName'', ''runtimes'', ''services''} \<longrightarrow>
        same_but_ids token board (fst (forkBoard token name board)) (AtKey k # path) (AtKey k # path))
    \<and> (\<forall>i path. same_but_ids token board (fst (forkBoard token name board))
        (AtKey ''services'' # AtKey i # path) (AtKey ''services'' # AtKey (forkId token i) # path))
    \<and> (\<forall>n k path. k \<noteq> ''id'' \<longrightarrow> same_but_ids token board (fst (forkBoard token name board))
        (AtKey ''runtimes'' # AtIndex n # AtKey k # path) (AtKey ''runtimes'' # AtIndex n # AtKey k # path))
    \<and> ((\<forall>i\<in>runtime_ids board. \<not> isMountRef (forkId token i)) \<longrightarrow>
        board_runtimes (fst (forkBoard token name board)) = map (forkId token) (board_runtimes board))
    \<and> (list_all (untouched_by token) (strings_of (JObj board)) \<and> CHR ''/'' \<notin> set token \<longrightarrow>
        (let back = copy_of (undo_map (forkServices token board)) (undo_map (forkRuntimes token board)) (fst (forkBoard token name board))
         in (\<forall>k. k \<notin> {''boardName'', ''runtimes'', ''services''} \<longrightarrow> oget back k = oget board k)
          \<and> (\<forall>i. field (oget back ''services'') (forkId token i) = oget (board_services board) i)))"
proof (intro conjI allI impI)
  have d: "distinct (okeys (board_services board))" using assms(1) by (simp add: canon_keys_def)
  show "same_but_ids token board (fst (forkBoard token name board)) (AtKey k # path) (AtKey k # path)"
    if "k \<notin> {''boardName'', ''runtimes'', ''services''}" for k path
    by (rule copied_elsewhere [OF that])
  show "same_but_ids token board (fst (forkBoard token name board))
      (AtKey ''services'' # AtKey i # path) (AtKey ''services'' # AtKey (forkId token i) # path)" for i path
    by (rule copied_services [OF d assms(2)])
  show "same_but_ids token board (fst (forkBoard token name board))
      (AtKey ''runtimes'' # AtIndex n # AtKey k # path) (AtKey ''runtimes'' # AtIndex n # AtKey k # path)" if "k \<noteq> ''id''" for n k path
    by (rule copied_runtimes [OF that])
  show "board_runtimes (fst (forkBoard token name board)) = map (forkId token) (board_runtimes board)"
    if "\<forall>i\<in>runtime_ids board. \<not> isMountRef (forkId token i)"
    by (rule fork_ids(1) [OF assms]) (use that in \<open>simp add: runtime_ids_def\<close>)
  assume fresh: "list_all (untouched_by token) (strings_of (JObj board)) \<and> CHR ''/'' \<notin> set token"
  show "let back = copy_of (undo_map (forkServices token board)) (undo_map (forkRuntimes token board)) (fst (forkBoard token name board))
    in (\<forall>k. k \<notin> {''boardName'', ''runtimes'', ''services''} \<longrightarrow> oget back k = oget board k)
      \<and> (\<forall>i. field (oget back ''services'') (forkId token i) = oget (board_services board) i)"
    using fork_back [OF d conjunct1 [OF fresh] conjunct2 [OF fresh], where name = name] by (simp add: Let_def)
qed

theorem fork_undone_witness:
  "value_at [AtKey ''services'', AtKey ''ui-f0'', AtIndex 0, AtKey ''state'', AtKey ''to''] (JObj (fst (forkBoard ''f0'' None authored)))
      = Some (JStr ''hkp-mount://ui-f0/b-f0'')
    \<and> oget (copy_of (undo_map (forkServices ''f0'' authored)) (undo_map (forkRuntimes ''f0'' authored)) (fst (forkBoard ''f0'' None authored))) ''facade''
      = JObj [(''serviceUuid'', JStr ''b'')]"
proof -
  have c: "canon_keys (okeys (board_services authored))" by code_simp
  have "list_all (\<lambda>v. \<not> is_str v) (ovalues (board_services authored))" by code_simp
  then have l: "\<forall>v\<in>set (ovalues (board_services authored)). \<not> is_str v" by (simp only: list_all_iff)
  have fresh: "list_all (untouched_by ''f0'') (strings_of (JObj authored)) \<and> CHR ''/'' \<notin> set ''f0''" by code_simp
  note all = fork_undone [OF c l, of "''f0''" None]
  have ids: "service_ids authored = {''b''}" "runtime_ids authored = {''ui''}"
    by (auto simp: service_ids_def runtime_ids_def board_services_def board_runtimes_def oget_def field_def)
  have "same_but_ids ''f0'' authored (fst (forkBoard ''f0'' None authored))
      [AtKey ''services'', AtKey ''ui'', AtIndex 0, AtKey ''state'', AtKey ''to'']
      [AtKey ''services'', AtKey ''ui-f0'', AtIndex 0, AtKey ''state'', AtKey ''to'']"
    using conjunct1 [OF conjunct2 [OF all], rule_format, of "''ui''" "[AtIndex 0, AtKey ''state'', AtKey ''to'']"]
    by (simp add: forkId_def del: value_at.simps)
  moreover have "value_at [AtKey ''services'', AtKey ''ui'', AtIndex 0, AtKey ''state'', AtKey ''to''] (JObj authored) = Some (JStr ''hkp-mount://ui/b'')"
    by simp
  moreover have "copied_text ''f0'' {''b''} {''ui''} (AtKey ''to'') ''hkp-mount://ui/b'' = ''hkp-mount://ui-f0/b-f0''" by code_simp
  ultimately have "value_at [AtKey ''services'', AtKey ''ui-f0'', AtIndex 0, AtKey ''state'', AtKey ''to''] (JObj (fst (forkBoard ''f0'' None authored)))
      = Some (JStr ''hkp-mount://ui-f0/b-f0'')"
    by (simp add: same_but_ids_def copied_value_def ids del: value_at.simps)
  moreover have "oget (copy_of (undo_map (forkServices ''f0'' authored)) (undo_map (forkRuntimes ''f0'' authored)) (fst (forkBoard ''f0'' None authored))) ''facade''
      = oget authored ''facade''"
    using mp [OF conjunct2 [OF conjunct2 [OF conjunct2 [OF conjunct2 [OF all]]]] fresh] unfolding Let_def by simp
  moreover have "oget authored ''facade'' = JObj [(''serviceUuid'', JStr ''b'')]" by (simp add: oget_def)
  ultimately show ?thesis by simp
qed

text \<open>
  C23.  References follow.  A mount reference of the original is, in the copy, one that names the copy of
  its runtime, where that is a runtime of the board, and in the list of services filed there the services
  under the service it names are the copies of those it led to in the original, and nothing else.
\<close>

theorem fork_reference_follows:
  assumes "parseMountRef (Some s) = Some ref" "list_all (untouched_by token) (s # strings_of (JObj board))" "CHR ''/'' \<notin> set token"
    and "canon_keys (okeys (board_services board))"
  shows "case parseMountRef (Some (forkedRef (forkServices token board) (forkRuntimes token board) s)) of
      None \<Rightarrow> False
    | Some ref' \<Rightarrow>
        ref_runtimeId ref' = (if ref_runtimeId ref \<in> runtime_ids board then forkId token (ref_runtimeId ref) else ref_runtimeId ref)
        \<and> filter (hasId (ref_serviceUuid ref')) (objects_of (field (oget (fst (forkBoard token name board)) ''services'') (ref_runtimeId ref')))
          = map (copy_of (forkServices token board) (forkRuntimes token board))
              (filter (hasId (ref_serviceUuid ref)) (objects_of (field (oget board ''services'') (ref_runtimeId ref))))"
proof -
  have d: "distinct (okeys (board_services board))" using assms(4) by (simp add: canon_keys_def)
  have u: "untouched_by token (ref_runtimeId ref)" "untouched_by token (ref_serviceUuid ref)"
    using assms(1,2) ref_parts_untouched by simp_all
  obtain ss rs where m: "forkServices token board = fork_map token ss" "forkRuntimes token board = fork_map token rs"
      "set rs = runtime_ids board"
    using fork_maps by blast
  let ?v = "field (oget board ''services'') (ref_runtimeId ref)" and ?new = "fork_if token (runtime_ids board) (ref_runtimeId ref)"
  have v: "?v = oget (board_services board) (ref_runtimeId ref)"
    by (cases "oget board ''services''") (simp_all add: board_services_def field_def oget_def)
  have objects: "objects_of (field (oget (fst (forkBoard token name board)) ''services'') ?new)
      = map (copy_of (fork_map token ss) (fork_map token rs)) (objects_of ?v)"
    using fork_objects [OF d u(1), of name] unfolding m v .
  have fresh: "list_all (untouched_by token) (strings_of ?v)"
    using assms(2) oget_strings [of "board_services board" "ref_runtimeId ref"] services_strings [of board]
    unfolding v by (auto simp: list_all_iff simp del: strings_of.simps)
  have "filter (hasId (renamed (fork_map token ss) (ref_serviceUuid ref))) (map (copy_of (fork_map token ss) (fork_map token rs)) (objects_of ?v))
      = map (copy_of (fork_map token ss) (fork_map token rs)) (filter (hasId (ref_serviceUuid ref)) (objects_of ?v))"
    using hasId_copy [OF _ fresh u(2)] by (auto simp: filter_map comp_def intro!: arg_cong [where f = "map _"] filter_cong)
  then show ?thesis
    using objects unfolding m(1,2) parse_forkedRef [OF assms(1,3)] by (simp add: renamed_fork_if m(3) fork_if_def)
qed

theorem fork_reference_follows_witness:
  "filter (hasId ''b-f0'') (objects_of (field (oget (fst (forkBoard ''f0'' None authored)) ''services'') ''ui-f0''))
   = [[(''uuid'', JStr ''b-f0''), (''state'', JObj [(''to'', JStr ''hkp-mount://ui-f0/b-f0'')])]]"
proof -
  let ?ref = "\<lparr>ref_runtimeId = ''ui'', ref_serviceUuid = ''b''\<rparr>"
  have p: "parseMountRef (Some ''hkp-mount://ui/b'') = Some ?ref" by code_simp
  have fresh: "list_all (untouched_by ''f0'') (''hkp-mount://ui/b'' # strings_of (JObj authored))" by code_simp
  have c: "canon_keys (okeys (board_services authored))" by code_simp
  have forked: "parseMountRef (Some (forkedRef (forkServices ''f0'' authored) (forkRuntimes ''f0'' authored) ''hkp-mount://ui/b''))
      = Some \<lparr>ref_runtimeId = ''ui-f0'', ref_serviceUuid = ''b-f0''\<rparr>" by code_simp
  have copies: "map (copy_of (forkServices ''f0'' authored) (forkRuntimes ''f0'' authored))
        (filter (hasId ''b'') (objects_of (field (oget authored ''services'') ''ui'')))
      = [[(''uuid'', JStr ''b-f0''), (''state'', JObj [(''to'', JStr ''hkp-mount://ui-f0/b-f0'')])]]" by code_simp
  have "CHR ''/'' \<notin> set ''f0''" by simp
  from fork_reference_follows [OF p fresh this c, of None, unfolded forked option.case, THEN conjunct2]
  show ?thesis unfolding MountRef.select_convs copies .
qed

text \<open>
   What the copy loses: a control of the facade that addresses a service inside another keeps the
  address of the original, which leads nowhere in the copy, and an asset kept to a runtime is for no runtime of the copy.
\<close>

theorem fork_loses_nested_and_assets:
  "case forkBoard ''f0'' None
      [(''runtimes'', JArr [JObj [(''id'', JStr ''ui'')]]),
       (''services'', JObj [(''ui'', JArr [JObj [(''uuid'', JStr ''groove'')]])]),
       (''assets'', JArr [JObj [(''id'', JStr ''kit''), (''mediaType'', JStr ''text/plain''), (''text'', JStr ''x''), (''runtimes'', JArr [JStr ''ui''])]]),
       (''facade'', JObj [(''serviceUuid'', JStr ''groove.kick'')])] of
    (fork, _, _) \<Rightarrow>
      field (oget fork ''facade'') ''serviceUuid'' = JStr ''groove.kick''
      \<and> addressRoot ''groove.kick'' \<notin> set (collectServiceIds (oget fork ''services'') [])
      \<and> (case readBoardAssets (oget fork ''assets'') of
           (assets, _) \<Rightarrow> length assets = 1 \<and> list_ex (\<lambda>a. list_ex (\<lambda>i. assetReaches a \<lparr>at_id = Some i, at_unit = None, at_unitRuntimeId = None\<rparr>) (board_runtimes fork)) assets = False)"
  by code_simp

end
