(* ===== verification/CoordinatorStore.thy ===== *)
theory CoordinatorStore
  imports JsValue "HOL-Library.AList"
begin

text \<open>
  The board as its coordinator sees it, kept by a browser that is attached to it
  (\<^verbatim>\<open>hkp-frontend/src/views/cloud/coordinatorSnapshot.ts\<close>): snapshots, and numbered increments between them.  A
  Map is an association list in insertion order; \<open>emitted\<close> counts how often the listeners were called.
\<close>

section \<open>Messages\<close>

record RuntimeSnapshot =
  rs_runtimeId :: string
  rs_registry :: "jsval list"
  rs_services :: obj

record BoardIdentity =
  bi_email :: "string option"
  bi_name :: "string option"

record SnapshotMessage =
  sn_seq :: nat
  sn_boardName :: string
  sn_status :: "string option"
  sn_errors :: jsval
  sn_role :: "string option"
  sn_you :: "BoardIdentity option"
  sn_config :: jsval
  sn_runtimes :: "RuntimeSnapshot list"

record ServiceStateMessage =
  ss_seq :: nat
  ss_runtimeId :: string
  ss_serviceUuid :: string
  ss_state :: jsval

datatype CoordinatorMessage = Snapshot SnapshotMessage | ServiceState ServiceStateMessage

section \<open>The store\<close>

record Store =
  st_boardName :: "string option"
  st_status :: "string option"
  st_errors :: "jsval list option"
  st_config :: jsval
  st_role :: "string option"
  st_you :: "BoardIdentity option"
  st_runtimes :: "(string \<times> RuntimeSnapshot) list"
  st_seq :: nat
  emitted :: nat

definition newStore :: Store where
  "newStore =
     \<lparr>st_boardName = None, st_status = None, st_errors = None, st_config = JNull, st_role = None, st_you = None,
      st_runtimes = [], st_seq = 0, emitted = 0\<rparr>"

definition emit :: "Store \<Rightarrow> Store" where
  "emit s = s\<lparr>emitted := Suc (emitted s)\<rparr>"

text \<open>\<open>new Map(entries)\<close>: a later entry replaces an earlier one, at its place.\<close>

definition runtimeMap :: "RuntimeSnapshot list \<Rightarrow> (string \<times> RuntimeSnapshot) list" where
  "runtimeMap rts = fold (\<lambda>rt. AList.update (rs_runtimeId rt) rt) rts []"

definition emailOf :: "BoardIdentity option \<Rightarrow> string option" where
  "emailOf you = (case you of None \<Rightarrow> None | Some b \<Rightarrow> bi_email b)"

definition nameOf :: "BoardIdentity option \<Rightarrow> string option" where
  "nameOf you = (case you of None \<Rightarrow> None | Some b \<Rightarrow> bi_name b)"

definition applySnapshot :: "SnapshotMessage \<Rightarrow> Store \<Rightarrow> Store" where
  "applySnapshot m s =
     emit (s\<lparr>st_boardName := Some (sn_boardName m), st_status := sn_status m,
       st_errors := (case sn_errors m of JArr es \<Rightarrow> Some es | _ \<Rightarrow> None),
       st_config := or_else (sn_config m) JNull, st_role := sn_role m,
       st_you := (if emailOf (sn_you m) \<noteq> emailOf (st_you s) \<or> nameOf (sn_you m) \<noteq> nameOf (st_you s) then sn_you m else st_you s),
       st_runtimes := runtimeMap (sn_runtimes m), st_seq := sn_seq m\<rparr>)"

definition applyMessage :: "CoordinatorMessage \<Rightarrow> Store \<Rightarrow> Store \<times> bool" where
  "applyMessage message s =
     (case message of
        Snapshot m \<Rightarrow> (applySnapshot m s, False)
      | ServiceState m \<Rightarrow>
          (case map_of (st_runtimes s) (ss_runtimeId m) of
             None \<Rightarrow> (s, True)
           | Some rt \<Rightarrow>
               if ss_seq m \<noteq> st_seq s + 1 then (s, True)
               else (emit (s\<lparr>st_runtimes := AList.update (ss_runtimeId m)
                         (rt\<lparr>rs_services := oput (ss_serviceUuid m) (ss_state m) (rs_services rt)\<rparr>) (st_runtimes s),
                       st_seq := ss_seq m\<rparr>), False)))"

definition clearStore :: "Store \<Rightarrow> Store" where
  "clearStore s = emit (newStore\<lparr>emitted := emitted s\<rparr>)"

definition getServiceState :: "Store \<Rightarrow> string \<Rightarrow> string \<Rightarrow> jsval" where
  "getServiceState s runtimeId serviceUuid =
     (case map_of (st_runtimes s) runtimeId of None \<Rightarrow> JUndef | Some rt \<Rightarrow> oget (rs_services rt) serviceUuid)"

definition getRegistry :: "Store \<Rightarrow> string \<Rightarrow> jsval list" where
  "getRegistry s runtimeId = (case map_of (st_runtimes s) runtimeId of None \<Rightarrow> [] | Some rt \<Rightarrow> rs_registry rt)"

definition asCoordinatorState :: "Store \<Rightarrow> obj" where
  "asCoordinatorState s =
     from_entries (map (\<lambda>(i, rt). (i, JArr (map (\<lambda>(u, state). JObj [(''uuid'', JStr u), (''state'', state)]) (rs_services rt)))) (st_runtimes s))"

text \<open>What a browser does over a connection: messages as they come, and forgetting for a reconnect.\<close>

datatype StoreStep = Message CoordinatorMessage | Clear

definition storeStep :: "StoreStep \<Rightarrow> Store \<Rightarrow> Store" where
  "storeStep st s = (case st of Message m \<Rightarrow> fst (applyMessage m s) | Clear \<Rightarrow> clearStore s)"

section \<open>What the coordinator holds\<close>

text \<open>
  A coordinator's board over time: what a snapshot says of it at each number, and what happened
  between one number and the next, the state of one service or anything else.
\<close>

datatype change = StateOf string string jsval | Otherwise

record History =
  board_at :: "nat \<Rightarrow> SnapshotMessage"
  change_at :: "nat \<Rightarrow> change"

definition withState :: "string \<Rightarrow> string \<Rightarrow> jsval \<Rightarrow> RuntimeSnapshot \<Rightarrow> RuntimeSnapshot" where
  "withState i u state rt =
     (if rs_runtimeId rt = i then rt\<lparr>rs_services := oput u state (rs_services rt)\<rparr> else rt)"

definition consistent :: "History \<Rightarrow> bool" where
  "consistent h = (\<forall>n. sn_seq (board_at h n) = n \<and> distinct (map rs_runtimeId (sn_runtimes (board_at h n)))
     \<and> (case change_at h n of Otherwise \<Rightarrow> True
        | StateOf i u state \<Rightarrow>
            board_at h (Suc n) = (board_at h n)\<lparr>sn_seq := Suc n, sn_runtimes := map (withState i u state) (sn_runtimes (board_at h n))\<rparr>))"

text \<open>A message the coordinator may have sent, at any time.\<close>

definition sent_by :: "History \<Rightarrow> StoreStep \<Rightarrow> bool" where
  "sent_by h st =
     (case st of
        Clear \<Rightarrow> True
      | Message (Snapshot m) \<Rightarrow> m = board_at h (sn_seq m)
      | Message (ServiceState m) \<Rightarrow>
          0 < ss_seq m \<and> change_at h (ss_seq m - 1) = StateOf (ss_runtimeId m) (ss_serviceUuid m) (ss_state m))"

definition informed :: "StoreStep list \<Rightarrow> bool" where
  "informed sts = list_ex (\<lambda>st. case st of Message (Snapshot _) \<Rightarrow> True | _ \<Rightarrow> False) (takeWhile (\<lambda>st. st \<noteq> Clear) (rev sts))"

text \<open>The store says of the board what a snapshot at its number would.\<close>

definition shows_board :: "History \<Rightarrow> Store \<Rightarrow> bool" where
  "shows_board h s =
     (let m = board_at h (st_seq s)
      in st_boardName s = Some (sn_boardName m) \<and> st_status s = sn_status m \<and> st_role s = sn_role m
         \<and> st_errors s = (case sn_errors m of JArr es \<Rightarrow> Some es | _ \<Rightarrow> None) \<and> st_config s = or_else (sn_config m) JNull
         \<and> emailOf (st_you s) = emailOf (sn_you m) \<and> nameOf (st_you s) = nameOf (sn_you m)
         \<and> st_runtimes s = map (\<lambda>rt. (rs_runtimeId rt, rt)) (sn_runtimes m))"

lemma update_fresh: "k \<notin> fst ` set xs \<Longrightarrow> AList.update k v xs = xs @ [(k, v)]"
  by (induction xs) auto

lemma fold_update_distinct:
  "distinct (map rs_runtimeId rts) \<Longrightarrow> (\<forall>rt\<in>set rts. rs_runtimeId rt \<notin> fst ` set acc)
    \<Longrightarrow> fold (\<lambda>rt. AList.update (rs_runtimeId rt) rt) rts acc = acc @ map (\<lambda>rt. (rs_runtimeId rt, rt)) rts"
proof (induction rts arbitrary: acc)
  case (Cons rt rts)
  have "AList.update (rs_runtimeId rt) rt acc = acc @ [(rs_runtimeId rt, rt)]"
    using Cons.prems(2) by (intro update_fresh) simp
  moreover have "\<forall>rt'\<in>set rts. rs_runtimeId rt' \<notin> fst ` set (acc @ [(rs_runtimeId rt, rt)])"
    using Cons.prems by (force simp: image_iff)
  ultimately show ?case using Cons.IH Cons.prems(1) by simp
qed simp

lemma runtimeMap_distinct: "distinct (map rs_runtimeId rts) \<Longrightarrow> runtimeMap rts = map (\<lambda>rt. (rs_runtimeId rt, rt)) rts"
  using fold_update_distinct [of rts "[]"] by (simp add: runtimeMap_def)

lemma update_at:
  assumes "distinct (map rs_runtimeId rts)" "map_of (map (\<lambda>rt. (rs_runtimeId rt, rt)) rts) i = Some rt"
  shows "AList.update i (rt\<lparr>rs_services := oput u state (rs_services rt)\<rparr>) (map (\<lambda>rt. (rs_runtimeId rt, rt)) rts)
    = map (\<lambda>rt. (rs_runtimeId rt, rt)) (map (withState i u state) rts)"
  using assms
proof (induction rts)
  case (Cons r rts)
  show ?case
  proof (cases "rs_runtimeId r = i")
    case True
    have "withState i u state x = x" if "x \<in> set rts" for x
      using True Cons.prems(1) that by (auto simp: withState_def image_iff)
    then have rest: "map (withState i u state) rts = rts" by (intro map_idI) simp
    then show ?thesis using True Cons.prems(2) unfolding list.map(2) rest by (simp add: withState_def)
  next
    case False
    then show ?thesis using Cons by (simp add: withState_def)
  qed
qed simp

lemma shows_step:
  assumes h: "consistent h" and st: "sent_by h st" and s: "st_runtimes s = [] \<or> shows_board h s"
  shows "st_runtimes (storeStep st s) = [] \<or> shows_board h (storeStep st s)"
    and "(case st of Message (Snapshot _) \<Rightarrow> True | Message (ServiceState _) \<Rightarrow> shows_board h s | Clear \<Rightarrow> False) \<Longrightarrow> shows_board h (storeStep st s)"
proof -
  have seq: "sn_seq (board_at h n) = n" "distinct (map rs_runtimeId (sn_runtimes (board_at h n)))" for n
    using h by (auto simp: consistent_def)
  have snapshot: "shows_board h (applySnapshot (board_at h n) s)" for n
    using seq [of n] by (simp add: shows_board_def applySnapshot_def emit_def Let_def runtimeMap_distinct)
  have increment: "shows_board h s \<Longrightarrow> shows_board h (storeStep st s)" if "st = Message (ServiceState m)" for m
  proof -
    assume held: "shows_board h s"
    show ?thesis
    proof (cases "fst (applyMessage (ServiceState m) s) = s")
      case False
      then obtain rt where m: "map_of (st_runtimes s) (ss_runtimeId m) = Some rt" "ss_seq m = Suc (st_seq s)"
        by (auto simp: applyMessage_def split: option.splits if_splits)
      have "change_at h (st_seq s) = StateOf (ss_runtimeId m) (ss_serviceUuid m) (ss_state m)"
        using st m(2) that by (simp add: sent_by_def)
      then have next_board: "board_at h (Suc (st_seq s)) = (board_at h (st_seq s))\<lparr>sn_seq := Suc (st_seq s),
          sn_runtimes := map (withState (ss_runtimeId m) (ss_serviceUuid m) (ss_state m)) (sn_runtimes (board_at h (st_seq s)))\<rparr>"
        using h [unfolded consistent_def, rule_format, of "st_seq s"] by simp
      have "st_runtimes s = map (\<lambda>rt. (rs_runtimeId rt, rt)) (sn_runtimes (board_at h (st_seq s)))"
        using held by (simp add: shows_board_def Let_def)
      then show ?thesis
        using held m that update_at [OF seq(2) m(1) [unfolded \<open>st_runtimes s = _\<close>], of "ss_serviceUuid m" "ss_state m"]
        by (simp add: storeStep_def applyMessage_def emit_def shows_board_def Let_def next_board)
    qed (simp add: storeStep_def that held)
  qed
  have empty: "st_runtimes (storeStep st s) = []" if "st = Message (ServiceState m)" "st_runtimes s = []" for m
    using that by (simp add: storeStep_def applyMessage_def)
  have cleared: "st_runtimes (storeStep st s) = []" if "st = Clear"
    using that by (simp add: storeStep_def clearStore_def newStore_def emit_def)
  have taken: "shows_board h (storeStep st s)" if "st = Message (Snapshot m)" for m
    using st that snapshot [of "sn_seq m"] by (simp add: sent_by_def storeStep_def applyMessage_def)
  show "st_runtimes (storeStep st s) = [] \<or> shows_board h (storeStep st s)"
  proof (cases st)
    case Clear
    then show ?thesis using cleared by blast
  next
    case (Message message)
    show ?thesis
    proof (cases message)
      case (Snapshot m)
      then show ?thesis using taken [of m] Message by blast
    next
      case (ServiceState m)
      then show ?thesis using increment [of m] empty [of m] Message s by blast
    qed
  qed
  show "shows_board h (storeStep st s)"
    if "case st of Message (Snapshot _) \<Rightarrow> True | Message (ServiceState _) \<Rightarrow> shows_board h s | Clear \<Rightarrow> False"
  proof (cases st)
    case Clear
    then show ?thesis using that by simp
  next
    case (Message message)
    show ?thesis
    proof (cases message)
      case (Snapshot m)
      then show ?thesis using taken [of m] Message by blast
    next
      case (ServiceState m)
      then show ?thesis using increment [of m] Message that by simp
    qed
  qed
qed

lemma informed_snoc:
  "informed (sts @ [st]) = (case st of Clear \<Rightarrow> False | Message (Snapshot _) \<Rightarrow> True | Message (ServiceState _) \<Rightarrow> informed sts)"
  by (auto simp: informed_def split: StoreStep.splits CoordinatorMessage.splits)

lemma store_run:
  assumes "consistent h" "list_all (sent_by h) sts"
  shows "(st_runtimes (fold storeStep sts newStore) = [] \<or> shows_board h (fold storeStep sts newStore))
    \<and> (informed sts \<longrightarrow> shows_board h (fold storeStep sts newStore))"
  using assms(2)
proof (induction sts rule: rev_induct)
  case Nil
  then show ?case by (simp add: informed_def newStore_def)
next
  case (snoc st sts)
  then show ?case
    using shows_step [OF assms(1), of st "fold storeStep sts newStore"]
    by (auto simp: informed_snoc split: StoreStep.splits CoordinatorMessage.splits)
qed

section \<open>Claims\<close>

text \<open>
  C14.  However messages are lost, repeated or put in another order, and however often the connection is made
  anew: once a snapshot has arrived, what the browser shows is the board as its coordinator had it at one
  moment, the one the browser's number says.
\<close>

theorem store_shows_a_moment:
  assumes "consistent h" "list_all (sent_by h) sts" "informed sts"
  shows "shows_board h (fold storeStep sts newStore)"
  using store_run [OF assms(1,2)] assms(3) by blast

abbreviation exampleBoardAt :: "nat \<Rightarrow> SnapshotMessage" where
  "exampleBoardAt n \<equiv>
     \<lparr>sn_seq = n, sn_boardName = ''b'', sn_status = Some ''running'', sn_errors = JUndef, sn_role = None, sn_you = None, sn_config = JUndef,
      sn_runtimes = [\<lparr>rs_runtimeId = ''r'', rs_registry = [], rs_services = (if n < 2 then [] else [(''s'', JBool True)])\<rparr>]\<rparr>"

abbreviation exampleHistory :: History where
  "exampleHistory \<equiv> \<lparr>board_at = exampleBoardAt, change_at = (\<lambda>n. if n = 1 then StateOf ''r'' ''s'' (JBool True) else Otherwise)\<rparr>"

abbreviation exampleIncrement :: StoreStep where
  "exampleIncrement \<equiv> Message (ServiceState \<lparr>ss_seq = 2, ss_runtimeId = ''r'', ss_serviceUuid = ''s'', ss_state = JBool True\<rparr>)"

theorem store_shows_a_moment_witness:
  "shows_board exampleHistory (fold storeStep [exampleIncrement, Message (Snapshot (exampleBoardAt 1)), exampleIncrement, exampleIncrement] newStore)
   \<and> st_seq (fold storeStep [exampleIncrement, Message (Snapshot (exampleBoardAt 1)), exampleIncrement, exampleIncrement] newStore) = 2"
proof -
  have "consistent exampleHistory" by (auto simp: consistent_def withState_def)
  moreover have "list_all (sent_by exampleHistory) [exampleIncrement, Message (Snapshot (exampleBoardAt 1)), exampleIncrement, exampleIncrement]"
    by (simp add: sent_by_def)
  moreover have "informed [exampleIncrement, Message (Snapshot (exampleBoardAt 1)), exampleIncrement, exampleIncrement]"
    by (simp add: informed_def)
  ultimately have "shows_board exampleHistory (fold storeStep [exampleIncrement, Message (Snapshot (exampleBoardAt 1)), exampleIncrement, exampleIncrement] newStore)"
    by (rule store_shows_a_moment)
  moreover have "st_seq (fold storeStep [exampleIncrement, Message (Snapshot (exampleBoardAt 1)), exampleIncrement, exampleIncrement] newStore) = 2"
    by (simp add: storeStep_def applyMessage_def applySnapshot_def emit_def newStore_def runtimeMap_def)
  ultimately show ?thesis by blast
qed

text \<open>
   A resync is asked for exactly where a message would have left the browser with a board that never
  was: an increment that is not the next one, or for a runtime it was never told of; the store is then as
  it was and no listener is called.  Any other message is taken and its number kept.
\<close>

theorem resync_when_incomplete:
  "case applyMessage message s of
     (s', True) \<Rightarrow> s' = s \<and> (case message of Snapshot _ \<Rightarrow> False
        | ServiceState m \<Rightarrow> \<not> (ss_seq m = Suc (st_seq s) \<and> ss_runtimeId m \<in> fst ` set (st_runtimes s)))
   | (s', False) \<Rightarrow> emitted s' = Suc (emitted s) \<and> (case message of Snapshot m \<Rightarrow> st_seq s' = sn_seq m
        | ServiceState m \<Rightarrow> st_seq s' = Suc (st_seq s) \<and> ss_seq m = st_seq s' \<and> getServiceState s' (ss_runtimeId m) (ss_serviceUuid m) = ss_state m)"
  by (auto simp: applyMessage_def applySnapshot_def emit_def getServiceState_def map_of_eq_None_iff update_conv'
      split: CoordinatorMessage.splits option.splits)

end
