(* ===== verification/TimelinePlay.thy ===== *)
theory TimelinePlay
  imports Timeline JsNumber "HOL-Library.AList"
begin

text \<open>
  The Timeline service (\<^verbatim>\<open>runtime/browser/services/Timeline.ts\<close>, with the placements of
  \<^verbatim>\<open>timeline-core.ts\<close>): an own clock that plays, is sought, looped and recorded on, or time taken from a
  driver.  A frame is the part of it that has to do with time; the object and its keyframed values, and the
  other fields of a frame that is passed on, are not modelled, nor are the notifications to the panel.  The time
  of the host and what the tempo slot holds come with each step.
\<close>

section \<open>Placements\<close>

record Placement =
  pl_name :: string
  pl_at :: rat
  pl_duration :: rat

record PlacementProgress =
  pp_progress :: rat
  pp_elapsed :: rat

text \<open>What a board wrote, as \<^verbatim>\<open>Number\<close> reads it where that is finite.\<close>

record RawAction =
  ra_at :: "rat option"
  ra_data :: jsval

record RawPlacement =
  rp_name :: "string option"
  rp_at :: "rat option"
  rp_duration :: "rat option"

definition normalizeActions :: "RawAction list \<Rightarrow> TimelineAction list" where
  "normalizeActions raws =
     concat (map (\<lambda>a. case ra_at a of Some t \<Rightarrow> [\<lparr>act_at = t, act_data = ra_data a\<rparr>] | None \<Rightarrow> []) raws)"

definition normalizePlacements :: "RawPlacement list \<Rightarrow> Placement list" where
  "normalizePlacements raws =
     sort_key pl_at (concat (map (\<lambda>p.
       case (rp_name p, rp_at p, rp_duration p) of
         (Some n, Some t, Some d) \<Rightarrow> if n \<noteq> [] \<and> 0 \<le> t \<and> 0 < d then [\<lparr>pl_name = n, pl_at = t, pl_duration = d\<rparr>] else []
       | _ \<Rightarrow> []) raws))"

definition endOf :: "Placement \<Rightarrow> Extent \<Rightarrow> rat" where
  "endOf p e =
     (let stop = pl_at p + pl_duration p
      in case loopRange e of
           Some (_, final) \<Rightarrow> if stop \<ge> final then final - 1 / 10 ^ 9 else stop
         | None \<Rightarrow> if ext_length e \<le> 0 then stop else min stop (ext_length e))"

definition indexData :: "nat \<Rightarrow> jsval" where
  "indexData i = JNum (int_num (int i))"

definition placementEnds :: "Placement list \<Rightarrow> Extent \<Rightarrow> TimelineAction list" where
  "placementEnds ps e = map (\<lambda>(i, p). \<lparr>act_at = endOf p e, act_data = indexData i\<rparr>) (enumerate 0 ps)"

text \<open>\<^verbatim>\<open>Math.round(x * 1e9) / 1e9\<close>.\<close>

definition toNano :: "rat \<Rightarrow> rat" where
  "toNano x = of_int \<lfloor>x * 10 ^ 9 + 1 / 2\<rfloor> / 10 ^ 9"

definition placementsAt :: "Placement list \<Rightarrow> rat \<Rightarrow> Extent \<Rightarrow> jsval list \<Rightarrow> (string \<times> PlacementProgress option) list" where
  "placementsAt ps t e ended =
     fold (\<lambda>(i, p) states.
         let stop = endOf p e;
             state = (if pl_at p \<le> t \<and> t \<le> stop then Some ((t - pl_at p) / pl_duration p, t - pl_at p)
                      else if indexData i \<in> set ended then Some ((stop - pl_at p) / pl_duration p, stop - pl_at p)
                      else None)
         in case state of
              Some (progress, elapsed) \<Rightarrow> AList.update (pl_name p) (Some \<lparr>pp_progress = min 1 (toNano progress), pp_elapsed = elapsed\<rparr>) states
            | None \<Rightarrow> if pl_name p \<in> fst ` set states then states else AList.update (pl_name p) None states)
       (enumerate 0 ps) []"

text \<open>\<^verbatim>\<open>Infinity\<close>, where a timeline has no end, is the last of the actions.\<close>

definition restOfPass :: "TimelineAction list \<Rightarrow> rat \<Rightarrow> Extent \<Rightarrow> jsval list" where
  "restOfPass actions t0 e =
     (case loopRange e of
        Some (_, stop) \<Rightarrow>
          dueActions (filter (\<lambda>a. act_at a < stop) actions) (wrap t0 e) stop
            \<lparr>ext_length = stop, ext_loop = False, ext_loopStart = None, ext_loopEnd = None\<rparr> False
      | None \<Rightarrow>
          dueActions actions t0 (if ext_length e > 0 then ext_length e else fold max (map act_at actions) t0)
            \<lparr>ext_length = ext_length e, ext_loop = False, ext_loopStart = None, ext_loopEnd = None\<rparr> False)"

section \<open>State\<close>

datatype Clock = OwnClock | InputClock
datatype TimeUnit = Seconds | Beats
datatype RecordMode = Overdub | Replace
datatype PlacementStatus = Playing | Waiting | Unplaced | NoPlacements

text \<open>An input: the value itself, and what is read from it: a time, a jump, a tempo, placements.\<close>

record TimelineInput =
  in_value :: jsval
  in_t :: "rat option"
  in_jump :: bool
  in_tempo :: "rat option"
  in_hasPlacements :: bool
  in_placements :: "(string \<times> PlacementProgress option) list option"

record Frame =
  fr_t :: rat
  fr_actions :: "jsval list"
  fr_jump :: bool
  fr_tempo :: "rat option"
  fr_placements :: "(string \<times> PlacementProgress option) list option"

text \<open>\<open>tl_out\<close> is what the service handed on by itself, with \<^verbatim>\<open>app.next\<close>.\<close>

record TimelineState =
  tl_clock :: Clock
  tl_actions :: "TimelineAction list"
  tl_length :: rat
  tl_loop :: bool
  tl_loopStart :: rat
  tl_loopEnd :: rat
  tl_unit :: TimeUnit
  tl_fps :: rat
  tl_speed :: rat
  tl_running :: bool
  tl_recording :: bool
  tl_recordMode :: RecordMode
  tl_placements :: "Placement list"
  tl_placement :: string
  tl_pos :: rat
  tl_fresh :: bool
  tl_jumpPending :: bool
  tl_lastTick :: rat
  tl_hasEmitted :: bool
  tl_ticker :: bool
  tl_prevRaw :: "rat option"
  tl_lastDriven :: "(rat \<times> TimelineInput) option"
  tl_status :: "PlacementStatus option"
  tl_bypass :: bool
  tl_out :: "Frame list"

definition newTimeline :: TimelineState where
  "newTimeline =
     \<lparr>tl_clock = OwnClock, tl_actions = [], tl_length = 0, tl_loop = False, tl_loopStart = 0, tl_loopEnd = 0,
      tl_unit = Seconds, tl_fps = 30, tl_speed = 1, tl_running = False, tl_recording = False, tl_recordMode = Overdub,
      tl_placements = [], tl_placement = [], tl_pos = 0, tl_fresh = True, tl_jumpPending = False, tl_lastTick = 0,
      tl_hasEmitted = False, tl_ticker = False, tl_prevRaw = None, tl_lastDriven = None, tl_status = None, tl_bypass = False,
      tl_out = []\<rparr>"

text \<open>The time of the host in milliseconds, and what the tempo slot holds, as a number.\<close>

record Moment =
  mo_now :: rat
  mo_slot :: "rat option"

definition timelineTempo :: "Moment \<Rightarrow> rat" where
  "timelineTempo m = (case mo_slot m of Some b \<Rightarrow> if b > 0 then b else 120 | None \<Rightarrow> 120)"

definition extentOf :: "TimelineState \<Rightarrow> Extent" where
  "extentOf s = \<lparr>ext_length = tl_length s, ext_loop = tl_loop s, ext_loopStart = Some (tl_loopStart s), ext_loopEnd = Some (tl_loopEnd s)\<rparr>"

definition noFrame :: TimelineInput where
  "noFrame = \<lparr>in_value = JObj [], in_t = None, in_jump = False, in_tempo = None, in_hasPlacements = False, in_placements = None\<rparr>"

definition frameOf :: "TimelineState \<Rightarrow> rat \<Rightarrow> jsval list \<Rightarrow> TimelineInput \<Rightarrow> jsval list \<Rightarrow> Frame" where
  "frameOf s t actions frameIn ended =
     \<lparr>fr_t = t, fr_actions = actions, fr_jump = in_jump frameIn, fr_tempo = in_tempo frameIn,
      fr_placements = (if tl_placements s \<noteq> [] \<or> in_hasPlacements frameIn
                       then Some (placementsAt (tl_placements s) t (extentOf s) ended) else None)\<rparr>"

section \<open>An own clock\<close>

definition halt :: "TimelineState \<Rightarrow> TimelineState" where
  "halt s = s\<lparr>tl_ticker := False, tl_running := False, tl_recording := False\<rparr>"

definition rewind :: "TimelineState \<Rightarrow> TimelineState" where
  "rewind s = s\<lparr>tl_pos := 0, tl_fresh := True\<rparr>"

definition intoLoop :: "TimelineState \<Rightarrow> TimelineState" where
  "intoLoop s =
     (case loopRange (extentOf s) of
        None \<Rightarrow> s
      | Some (start, stop) \<Rightarrow>
          if tl_clock s \<noteq> OwnClock \<or> tl_pos s < stop then s
          else s\<lparr>tl_pos := start, tl_fresh := True, tl_jumpPending := True\<rparr>)"

text \<open>Where a playing clock has got to, and whether that is its end.\<close>

definition perSecond :: "TimelineState \<Rightarrow> Moment \<Rightarrow> rat" where
  "perSecond s m = (if tl_unit s = Beats then timelineTempo m / 60 else 1)"

definition reached :: "Moment \<Rightarrow> TimelineState \<Rightarrow> rat \<times> bool \<times> TimelineState" where
  "reached m s =
     (let to = tl_pos s + (mo_now m - tl_lastTick s) / 1000 * perSecond s m * tl_speed s;
          ends = (\<not> tl_loop s \<and> tl_length s > 0 \<and> to \<ge> tl_length s)
      in (if ends then tl_length s else to, ends, s\<lparr>tl_lastTick := mo_now m\<rparr>))"

definition tlStep :: "Moment \<Rightarrow> rat \<Rightarrow> TimelineState \<Rightarrow> Frame \<times> TimelineState" where
  "tlStep m to s =
     (let e = extentOf s;
          kept = (if tl_recording s \<and> tl_recordMode s = Replace
                  then withoutDue (tl_actions s) (tl_pos s) to e (tl_fresh s) else tl_actions s);
          actions = dueActions kept (tl_pos s) to e (tl_fresh s);
          ended = dueActions (placementEnds (tl_placements s) e) (tl_pos s) to e (tl_fresh s);
          frame = frameOf s (wrap to e) actions noFrame ended
      in (frame\<lparr>fr_jump := tl_jumpPending s, fr_tempo := (if tl_unit s = Beats then Some (timelineTempo m) else None)\<rparr>,
          s\<lparr>tl_actions := kept, tl_pos := wrap to e, tl_fresh := False, tl_hasEmitted := True, tl_jumpPending := False\<rparr>))"

definition emitAt :: "Moment \<Rightarrow> rat \<Rightarrow> TimelineState \<Rightarrow> TimelineState" where
  "emitAt m to s = (case tlStep m to s of (frame, s') \<Rightarrow> if tl_bypass s' then s' else s'\<lparr>tl_out := tl_out s' @ [frame]\<rparr>)"

definition play :: "Moment \<Rightarrow> TimelineState \<Rightarrow> TimelineState" where
  "play m s =
     (if tl_clock s \<noteq> OwnClock \<or> tl_ticker s then s
      else
        let s1 = (if \<not> tl_loop s \<and> tl_length s > 0 \<and> tl_pos s \<ge> tl_length s then rewind s else s);
            s2 = (intoLoop s1)\<lparr>tl_lastTick := mo_now m, tl_ticker := True, tl_running := True\<rparr>
        in emitAt m (tl_pos s2) s2)"

definition seek :: "Moment \<Rightarrow> rat \<Rightarrow> TimelineState \<Rightarrow> TimelineState" where
  "seek m to s =
     (if tl_clock s \<noteq> OwnClock then s
      else
        let s1 = intoLoop (s\<lparr>tl_pos := max 0 to, tl_fresh := True, tl_jumpPending := True\<rparr>)
        in if tl_ticker s1 then s1 else emitAt m (tl_pos s1) s1)"

definition timelineTick :: "Moment \<Rightarrow> TimelineState \<Rightarrow> TimelineState" where
  "timelineTick m s =
     (case reached m s of (to, ends, s1) \<Rightarrow> let s2 = emitAt m to s1 in if ends then halt s2 else s2)"

definition refresh :: "TimelineState \<Rightarrow> TimelineState" where
  "refresh s =
     (if tl_bypass s then s
      else if tl_clock s = OwnClock
           then if \<not> tl_ticker s \<and> tl_hasEmitted s
                then s\<lparr>tl_out := tl_out s @ [frameOf s (wrap (tl_pos s) (extentOf s)) [] noFrame []]\<rparr> else s
      else (case tl_lastDriven s of
              Some (t, frameIn) \<Rightarrow> s\<lparr>tl_out := tl_out s @ [frameOf s t [] frameIn []]\<rparr>
            | None \<Rightarrow> s))"

text \<open>An input to an own clock: an action happening now.\<close>

definition live :: "Moment \<Rightarrow> jsval \<Rightarrow> TimelineState \<Rightarrow> Frame option \<times> TimelineState" where
  "live m v s =
     (if v = JUndef \<or> v = JNull then (None, s)
      else if \<not> tl_ticker s then
        (let frame = frameOf s (wrap (tl_pos s) (extentOf s)) [v] noFrame []
         in (Some (frame\<lparr>fr_tempo := (if tl_unit s = Beats then Some (timelineTempo m) else None)\<rparr>), s\<lparr>tl_hasEmitted := True\<rparr>))
      else
        (case reached m s of (to, ends, s1) \<Rightarrow>
           (case tlStep m to s1 of (frame, s2) \<Rightarrow>
              let s3 = (if tl_recording s2
                        then s2\<lparr>tl_actions := insertAction (tl_actions s2) \<lparr>act_at = wrap to (extentOf s2), act_data = v\<rparr>\<rparr> else s2)
              in (Some (frame\<lparr>fr_actions := fr_actions frame @ [v]\<rparr>), if ends then halt s3 else s3))))"

section \<open>Driven by frames\<close>

definition placedIn :: "TimelineInput \<Rightarrow> TimelineState \<Rightarrow> PlacementProgress option \<times> TimelineState" where
  "placedIn frameIn s =
     (let entry = (case in_placements frameIn of None \<Rightarrow> None | Some ps \<Rightarrow> map_of ps (tl_placement s));
          status = (case in_placements frameIn of
                      None \<Rightarrow> NoPlacements
                    | Some _ \<Rightarrow> (case entry of None \<Rightarrow> Unplaced | Some None \<Rightarrow> Waiting | Some (Some _) \<Rightarrow> Playing))
      in (case entry of Some state \<Rightarrow> state | None \<Rightarrow> None, s\<lparr>tl_status := Some status\<rparr>))"

text \<open>What is due of a list when the time seen goes from \<open>prev\<close> to \<open>raw\<close>.\<close>

definition drivenDue :: "bool \<Rightarrow> bool \<Rightarrow> rat option \<Rightarrow> rat \<Rightarrow> Extent \<Rightarrow> TimelineAction list \<Rightarrow> jsval list" where
  "drivenDue jump entering prev raw e actions =
     (if jump then dueActions actions raw raw e True
      else (case prev of
              None \<Rightarrow> if entering then dueActions actions 0 raw e True else dueActions actions raw raw e True
            | Some before \<Rightarrow>
                if raw \<ge> before then dueActions actions before raw e False
                else restOfPass actions before e @ dueActions actions 0 raw e True))"

definition driveTo :: "TimelineInput \<Rightarrow> rat \<Rightarrow> bool \<Rightarrow> TimelineState \<Rightarrow> Frame option \<times> TimelineState" where
  "driveTo frameIn raw entering s =
     (let e = extentOf s;
          due = drivenDue (in_jump frameIn) entering (tl_prevRaw s) raw e;
          s1 = s\<lparr>tl_prevRaw := Some raw\<rparr>;
          actions = due (tl_actions s);
          ended = due (placementEnds (tl_placements s) e);
          outside = (\<not> tl_loop s \<and> tl_length s > 0 \<and> raw > tl_length s)
      in if outside \<and> actions = [] \<and> ended = [] then (None, s1\<lparr>tl_lastDriven := None\<rparr>)
         else let own = (if outside then tl_length s else wrap raw e)
              in (Some (frameOf s own actions frameIn ended), s1\<lparr>tl_lastDriven := Some (own, frameIn)\<rparr>))"

definition timelineProcess :: "Moment \<Rightarrow> TimelineInput \<Rightarrow> TimelineState \<Rightarrow> Frame option \<times> TimelineState" where
  "timelineProcess m input s =
     (if tl_clock s \<noteq> InputClock then live m (in_value input) s
      else if tl_placement s \<noteq> [] then
        (case placedIn input s of
           (None, s1) \<Rightarrow> (None, s1\<lparr>tl_prevRaw := None, tl_lastDriven := None\<rparr>)
         | (Some placed, s1) \<Rightarrow>
             driveTo input (if \<not> tl_loop s \<and> tl_length s > 0 then pp_progress placed * tl_length s else pp_elapsed placed)
               (tl_prevRaw s1 = None) s1)
      else (case in_t input of None \<Rightarrow> (None, s) | Some raw \<Rightarrow> driveTo input raw False s))"

section \<open>Configuration\<close>

text \<open>
  A configuration as far as it is of the right types; \<open>cf_animates\<close> where it has an object or
  keyframes.
\<close>

record TimelineConfig =
  cf_clock :: "Clock option"
  cf_animates :: bool
  cf_actions :: "RawAction list option"
  cf_length :: "rat option"
  cf_loop :: "bool option"
  cf_loopStart :: "rat option"
  cf_loopEnd :: "rat option"
  cf_unit :: "TimeUnit option"
  cf_fps :: "rat option"
  cf_speed :: "rat option"
  cf_recording :: "bool option"
  cf_recordMode :: "RecordMode option"
  cf_placements :: "RawPlacement list option"
  cf_placement :: "string option"
  cf_play :: bool
  cf_pause :: bool
  cf_stop :: bool
  cf_running :: "bool option"
  cf_seek :: "rat option"

definition setClock :: "Clock option \<Rightarrow> TimelineState \<Rightarrow> TimelineState" where
  "setClock c s =
     (case c of
        None \<Rightarrow> s
      | Some clock \<Rightarrow>
          (if clock \<noteq> tl_clock s then (rewind (halt s))\<lparr>tl_prevRaw := None, tl_lastDriven := None\<rparr> else s)\<lparr>tl_clock := clock\<rparr>)"

definition setPlacement :: "string option \<Rightarrow> TimelineState \<Rightarrow> TimelineState" where
  "setPlacement p s =
     (case p of
        None \<Rightarrow> s
      | Some name \<Rightarrow>
          (if name \<noteq> tl_placement s then s\<lparr>tl_prevRaw := None, tl_lastDriven := None, tl_status := None\<rparr> else s)\<lparr>tl_placement := name\<rparr>)"

definition setSettings :: "TimelineConfig \<Rightarrow> TimelineState \<Rightarrow> TimelineState" where
  "setSettings c s =
     s\<lparr>tl_actions := (case cf_actions c of Some raws \<Rightarrow> normalizeActions raws | None \<Rightarrow> tl_actions s),
       tl_length := (case cf_length c of Some l \<Rightarrow> if l \<ge> 0 then l else tl_length s | None \<Rightarrow> tl_length s),
       tl_loop := (case cf_loop c of Some l \<Rightarrow> l | None \<Rightarrow> tl_loop s),
       tl_loopStart := (case cf_loopStart c of Some t \<Rightarrow> if t \<ge> 0 then t else tl_loopStart s | None \<Rightarrow> tl_loopStart s),
       tl_loopEnd := (case cf_loopEnd c of Some t \<Rightarrow> if t \<ge> 0 then t else tl_loopEnd s | None \<Rightarrow> tl_loopEnd s),
       tl_unit := (case cf_unit c of Some u \<Rightarrow> u | None \<Rightarrow> tl_unit s),
       tl_fps := (case cf_fps c of Some f \<Rightarrow> if f > 0 then f else tl_fps s | None \<Rightarrow> tl_fps s),
       tl_speed := (case cf_speed c of Some v \<Rightarrow> v | None \<Rightarrow> tl_speed s),
       tl_recording := (case cf_recording c of Some r \<Rightarrow> r | None \<Rightarrow> tl_recording s),
       tl_recordMode := (case cf_recordMode c of Some r \<Rightarrow> r | None \<Rightarrow> tl_recordMode s),
       tl_placements := (case cf_placements c of Some raws \<Rightarrow> normalizePlacements raws | None \<Rightarrow> tl_placements s)\<rparr>"

definition loopChanged :: "TimelineConfig \<Rightarrow> bool" where
  "loopChanged c =
     (let given = (\<lambda>x :: rat option. case x of Some t \<Rightarrow> t \<ge> 0 | None \<Rightarrow> False)
      in cf_loop c \<noteq> None \<or> given (cf_loopStart c) \<or> given (cf_loopEnd c) \<or> given (cf_length c))"

definition runState :: "TimelineConfig \<Rightarrow> Moment \<Rightarrow> TimelineState \<Rightarrow> TimelineState" where
  "runState c m s =
     (if cf_stop c then rewind (halt s)
      else if cf_pause c \<or> cf_running c = Some False then halt s
      else if cf_play c \<or> cf_running c = Some True then play m s
      else s)"

definition timelineConfigure :: "TimelineConfig \<Rightarrow> Moment \<Rightarrow> TimelineState \<Rightarrow> TimelineState" where
  "timelineConfigure c m s =
     (let s1 = setPlacement (cf_placement c) (setSettings c (setClock (cf_clock c) s));
          s2 = (if cf_animates c \<or> cf_placements c \<noteq> None then refresh s1 else s1);
          s3 = (if loopChanged c then intoLoop s2 else s2);
          s4 = (case cf_seek c of Some to \<Rightarrow> seek m to s3 | None \<Rightarrow> s3)
      in runState c m s4)"

section \<open>Stretches of time\<close>

lemma dueIn_eqI:
  assumes "\<And>index pos. index < length actions \<Longrightarrow> fires e (act_at (actions ! index)) pos
      \<Longrightarrow> (t0 \<le> t1 \<and> inWindow t0 t1 i pos) = (t0' \<le> t1' \<and> inWindow t0' t1' i' pos)"
  shows "dueIn actions t0 t1 e i = dueIn actions t0' t1' e i'"
proof (rule due_unique [where g = "\<lambda>index. act_data (actions ! index)"])
  show "set (dueIn actions t0 t1 e i) = set (dueIn actions t0' t1' e i')"
    unfolding dueIn_set using assms by blast
qed (auto simp: dueIn_set dueIn_sorted dueIn_distinct)

lemma dueActions_cong: "dueIn actions t0 t1 e i = dueIn actions t0' t1' e i' \<Longrightarrow> dueActions actions t0 t1 e i = dueActions actions t0' t1' e i'"
  by (simp add: dueActions_def)

lemma dueActions_split:
  assumes "t0 \<le> t1" "t1 \<le> t2"
  shows "dueActions actions t0 t2 e i = dueActions actions t0 t1 e i @ dueActions actions t1 t2 e False"
proof -
  have "dueIn actions t0 t2 e i = dueIn actions t0 t1 e i @ dueIn actions t1 t2 e False"
    by (rule dueIn_split [OF assms])
  then show ?thesis by (simp add: dueActions_def)
qed

lemma dueActions_nothing [simp]: "dueActions actions t t e False = []"
proof -
  have "set (dueIn actions t t e False) = {}" unfolding dueIn_set by (auto simp: inWindow_def)
  then show ?thesis by (simp add: dueActions_def)
qed

text \<open>Nothing is past the end of a timeline that does not loop.\<close>

lemma dueActions_beyond:
  assumes "loopRange e = None" "0 < ext_length e" "ext_length e \<le> t1"
  shows "dueActions actions t0 t1 e i = dueActions actions t0 (ext_length e) e i"
proof (rule dueActions_cong, rule dueIn_eqI)
  fix index pos
  assume "fires e (act_at (actions ! index)) pos"
  then have "pos \<le> ext_length e" using assms by (simp add: fires_def)
  then show "(t0 \<le> t1 \<and> inWindow t0 t1 i pos) = (t0 \<le> ext_length e \<and> inWindow t0 (ext_length e) i pos)"
    using assms(3) by (auto simp: inWindow_def)
qed

text \<open>What is due from a position in the loop is what is due from the same place in a later pass.\<close>

lemma fires_later:
  assumes r: "loopRange e = Some (start, stop)" and p: "start \<le> pos"
  shows "fires e x pos \<and> start \<le> x \<longleftrightarrow> fires e x (pos + of_nat k * (stop - start)) \<and> start \<le> x"
proof -
  have b: "start < stop" using loopRange_bounds [OF r] by blast
  have "(\<exists>pass :: nat. pos = x + of_nat pass * (stop - start)) \<longleftrightarrow> (\<exists>pass :: nat. pos + of_nat k * (stop - start) = x + of_nat pass * (stop - start))"
    if x: "start \<le> x" "x < stop"
  proof
    assume "\<exists>pass :: nat. pos = x + of_nat pass * (stop - start)"
    then obtain n :: nat where "pos = x + of_nat n * (stop - start)" by blast
    then have "pos + of_nat k * (stop - start) = x + of_nat (n + k) * (stop - start)" by (simp add: algebra_simps)
    then show "\<exists>pass :: nat. pos + of_nat k * (stop - start) = x + of_nat pass * (stop - start)" by blast
  next
    assume "\<exists>pass :: nat. pos + of_nat k * (stop - start) = x + of_nat pass * (stop - start)"
    then obtain n :: nat where n: "pos + of_nat k * (stop - start) = x + of_nat n * (stop - start)" by blast
    have "k \<le> n"
    proof (rule ccontr)
      assume "\<not> k \<le> n"
      then have "of_nat n + 1 \<le> (of_nat k :: rat)" by (metis Suc_leI not_le of_nat_Suc of_nat_mono add.commute)
      then have "(of_nat n + 1) * (stop - start) \<le> of_nat k * (stop - start)" using b by (intro mult_right_mono) simp_all
      then show False using n p x by (simp add: algebra_simps)
    qed
    then have "pos = x + of_nat (n - k) * (stop - start)" using n by (simp add: of_nat_diff algebra_simps)
    then show "\<exists>pass :: nat. pos = x + of_nat pass * (stop - start)" by blast
  qed
  then show ?thesis using r by (auto simp: fires_def)
qed

lemma fires_in_loop:
  assumes r: "loopRange e = Some (start, stop)" and p: "start < pos"
  shows "fires e x (pos + of_nat k * (stop - start)) \<longleftrightarrow> fires e x pos"
proof (cases "start \<le> x")
  case True
  then show ?thesis using fires_later [OF r, of pos x k] p by simp
next
  case False
  have "0 \<le> of_nat k * (stop - start)" using loopRange_bounds [OF r] by simp
  then show ?thesis using False p r by (auto simp: fires_def)
qed

lemma dueActions_wrap:
  assumes r: "loopRange e = Some (start, stop)"
  shows "dueActions actions (wrap p e) (wrap p e + d) e False = dueActions actions p (p + d) e False"
proof (cases "stop \<le> p")
  case False
  then show ?thesis by (simp add: wrap_def r)
next
  case True
  define w where "w = wrap p e"
  obtain k :: nat where w: "start \<le> w" "p = w + of_nat k * (stop - start)"
    using wrap_in_range [OF r True] unfolding w_def by blast
  let ?later = "\<lambda>(pos :: rat, index :: nat, data :: jsval). (pos + of_nat k * (stop - start), index, data)"
  have "dueIn actions p (p + d) e False = map ?later (dueIn actions w (w + d) e False)"
  proof (rule due_unique [where g = "\<lambda>index. act_data (actions ! index)"])
    show "set (dueIn actions p (p + d) e False) = set (map ?later (dueIn actions w (w + d) e False))"
    proof (intro set_eqI iffI)
      fix entry assume "entry \<in> set (dueIn actions p (p + d) e False)"
      then obtain pos index where entry: "entry = (pos, index, act_data (actions ! index))" "0 \<le> d" "index < length actions"
          "fires e (act_at (actions ! index)) pos" "p < pos" "pos \<le> p + d"
        by (auto simp: dueIn_set inWindow_def)
      define before where "before = pos - of_nat k * (stop - start)"
      have before: "pos = before + of_nat k * (stop - start)" "w < before" "before \<le> w + d"
        using entry w(2) by (simp_all add: before_def)
      have "fires e (act_at (actions ! index)) before"
        using entry(4) fires_in_loop [OF r, of before _ k] before w(1) by simp
      then have "(before, index, act_data (actions ! index)) \<in> set (dueIn actions w (w + d) e False)"
        using entry(2,3) before(2,3) by (simp add: dueIn_set inWindow_def)
      then show "entry \<in> set (map ?later (dueIn actions w (w + d) e False))"
        unfolding set_map entry(1) before(1) by (rule rev_image_eqI) simp
    next
      fix entry assume "entry \<in> set (map ?later (dueIn actions w (w + d) e False))"
      then obtain pos index where entry: "entry = (pos + of_nat k * (stop - start), index, act_data (actions ! index))" "0 \<le> d"
          "index < length actions" "fires e (act_at (actions ! index)) pos" "w < pos" "pos \<le> w + d"
        by (auto simp: dueIn_set inWindow_def)
      moreover have "fires e (act_at (actions ! index)) (pos + of_nat k * (stop - start))"
        using entry(4,5) fires_in_loop [OF r, of pos _ k] w(1) by simp
      ultimately show "entry \<in> set (dueIn actions p (p + d) e False)"
        by (simp add: dueIn_set inWindow_def w(2))
    qed
    have keys: "map due_key (map ?later xs) = map (\<lambda>(pos, i). (pos + of_nat k * (stop - start), i)) (map due_key xs)" for xs
      by (simp add: comp_def split_def)
    show "sorted (map due_key (map ?later (dueIn actions w (w + d) e False)))"
      unfolding keys sorted_map using dueIn_sorted [of actions w "w + d" e False]
      by (rule sorted_wrt_mono_rel [rotated]) (auto simp: less_eq_prod_def)
    show "distinct (map due_key (map ?later (dueIn actions w (w + d) e False)))"
      unfolding keys by (subst distinct_map, rule conjI, rule dueIn_distinct, auto simp: inj_on_def)
  qed (auto simp: dueIn_set dueIn_sorted dueIn_distinct)
  then show ?thesis
    by (simp add: dueActions_def comp_def split_def flip: w_def)
qed

section \<open>Playing\<close>

text \<open>
  What happens while a timeline plays, a tick or an input, each at its moment: the actions that fire,
  those its frames carry beside the input itself.
\<close>

type_synonym happening = "Moment \<times> jsval option"

definition happen :: "happening \<Rightarrow> TimelineState \<Rightarrow> jsval list \<times> TimelineState" where
  "happen h s =
     (case h of
        (m, None) \<Rightarrow>
          if tl_ticker s then
            (let s' = timelineTick m s in (concat (map fr_actions (drop (length (tl_out s)) (tl_out s'))), s'))
          else ([], s)
      | (m, Some v) \<Rightarrow>
          (case live m v s of (Some f, s') \<Rightarrow> (butlast (fr_actions f), s') | (None, s') \<Rightarrow> ([], s')))"

fun happenAll :: "happening list \<Rightarrow> TimelineState \<Rightarrow> jsval list \<times> TimelineState" where
  "happenAll [] s = ([], s)"
| "happenAll (h # hs) s =
     (case happen h s of (fired, s1) \<Rightarrow> case happenAll hs s1 of (later, s2) \<Rightarrow> (fired @ later, s2))"

text \<open>How far time comes, at the speed and the tempo of each moment.\<close>

definition span_of :: "TimelineState \<Rightarrow> rat \<Rightarrow> Moment \<Rightarrow> rat" where
  "span_of s since m = (mo_now m - since) / 1000 * perSecond s m * tl_speed s"

fun travelled :: "TimelineState \<Rightarrow> rat \<Rightarrow> happening list \<Rightarrow> rat" where
  "travelled s since [] = 0"
| "travelled s since ((m, v) # hs) = span_of s since m + travelled s (mo_now m) hs"

fun in_order :: "rat \<Rightarrow> happening list \<Rightarrow> bool" where
  "in_order since [] \<longleftrightarrow> True"
| "in_order since ((m, v) # hs) \<longleftrightarrow> since \<le> mo_now m \<and> v \<noteq> Some JUndef \<and> v \<noteq> Some JNull \<and> in_order (mo_now m) hs"

text \<open>A clock that plays and does not record; what a step of time leaves as it is.\<close>

definition plays :: "TimelineState \<Rightarrow> bool" where
  "plays s = (tl_clock s = OwnClock \<and> tl_ticker s \<and> \<not> tl_recording s \<and> \<not> tl_bypass s \<and> 0 \<le> tl_speed s)"

lemma perSecond_pos: "0 < perSecond s m"
  by (simp add: perSecond_def timelineTempo_def split: option.split)

lemma span_nonneg: "since \<le> mo_now m \<Longrightarrow> 0 \<le> tl_speed s \<Longrightarrow> 0 \<le> span_of s since m"
  unfolding span_of_def using less_imp_le [OF perSecond_pos] by (intro mult_nonneg_nonneg) simp_all

lemma travelled_nonneg: "in_order since hs \<Longrightarrow> 0 \<le> tl_speed s \<Longrightarrow> 0 \<le> travelled s since hs"
  by (induction s since hs rule: travelled.induct) (auto intro!: add_nonneg_nonneg span_nonneg)

lemma travelled_cong:
  "tl_unit s' = tl_unit s \<Longrightarrow> tl_speed s' = tl_speed s \<Longrightarrow> travelled s' since hs = travelled s since hs"
  by (induction s since hs rule: travelled.induct) (auto simp: perSecond_def span_of_def)

text \<open>One happening: time comes to a position, unless it ends there.\<close>

definition ends_at :: "TimelineState \<Rightarrow> rat \<Rightarrow> bool" where
  "ends_at s to = (\<not> tl_loop s \<and> tl_length s > 0 \<and> to \<ge> tl_length s)"

definition arrived :: "Moment \<Rightarrow> rat \<Rightarrow> TimelineState \<Rightarrow> TimelineState" where
  "arrived m to s =
     s\<lparr>tl_lastTick := mo_now m, tl_pos := wrap to (extentOf s), tl_fresh := False, tl_hasEmitted := True, tl_jumpPending := False\<rparr>"

lemma tlStep_arrived:
  assumes "\<not> tl_recording s"
  shows "fr_actions (fst (tlStep m to (s\<lparr>tl_lastTick := mo_now m\<rparr>))) = dueActions (tl_actions s) (tl_pos s) to (extentOf s) (tl_fresh s)"
    and "snd (tlStep m to (s\<lparr>tl_lastTick := mo_now m\<rparr>)) = arrived m to s"
  using assms by (simp_all add: tlStep_def Let_def frameOf_def arrived_def extentOf_def)

lemma happen_plays:
  assumes "plays s" "v \<noteq> Some JUndef" "v \<noteq> Some JNull"
    and to: "to = tl_pos s + span_of s (tl_lastTick s) m"
  shows "\<exists>out. happen (m, v) s =
      (if ends_at s to then (dueActions (tl_actions s) (tl_pos s) (tl_length s) (extentOf s) (tl_fresh s), halt (arrived m (tl_length s) s\<lparr>tl_out := out\<rparr>))
       else (dueActions (tl_actions s) (tl_pos s) to (extentOf s) (tl_fresh s), arrived m to s\<lparr>tl_out := out\<rparr>))"
proof -
  define to' where "to' = (if ends_at s to then tl_length s else to)"
  have r: "reached m s = (to', ends_at s to, s\<lparr>tl_lastTick := mo_now m\<rparr>)"
    unfolding reached_def Let_def span_of_def [symmetric] to [symmetric] to'_def ends_at_def by (rule refl)
  have rec: "\<not> tl_recording s" using assms(1) by (simp add: plays_def)
  obtain frame where st: "tlStep m to' (s\<lparr>tl_lastTick := mo_now m\<rparr>) = (frame, arrived m to' s)"
      "fr_actions frame = dueActions (tl_actions s) (tl_pos s) to' (extentOf s) (tl_fresh s)"
    using tlStep_arrived [OF rec, of m to'] by (metis prod.collapse)
  have "\<exists>out. happen (m, v) s = (dueActions (tl_actions s) (tl_pos s) to' (extentOf s) (tl_fresh s),
      if ends_at s to then halt (arrived m to' s\<lparr>tl_out := out\<rparr>) else arrived m to' s\<lparr>tl_out := out\<rparr>)"
  proof (cases v)
    case None
    have "timelineTick m s = (if ends_at s to then halt (arrived m to' s\<lparr>tl_out := tl_out s @ [frame]\<rparr>) else arrived m to' s\<lparr>tl_out := tl_out s @ [frame]\<rparr>)"
      using assms(1) by (simp add: timelineTick_def r emitAt_def st(1) plays_def Let_def arrived_def)
    then show ?thesis
      using assms(1) None by (auto simp: happen_def plays_def Let_def halt_def arrived_def st(2) intro: exI [of _ "tl_out s @ [frame]"])
  next
    case (Some x)
    have "live m x s = (Some (frame\<lparr>fr_actions := fr_actions frame @ [x]\<rparr>), if ends_at s to then halt (arrived m to' s) else arrived m to' s)"
      using assms Some rec by (simp add: live_def plays_def r st(1) Let_def arrived_def)
    moreover have "arrived m to' s = arrived m to' s\<lparr>tl_out := tl_out s\<rparr>" by (simp add: arrived_def)
    ultimately show ?thesis
      using Some st(2) by (intro exI [of _ "tl_out s"]) (simp add: happen_def)
  qed
  then show ?thesis by (cases "ends_at s to") (simp_all add: to'_def)
qed

lemma happen_stopped:
  assumes "\<not> tl_ticker s"
  shows "fst (happen h s) = [] \<and> \<not> tl_ticker (snd (happen h s))"
proof -
  obtain m v where h: "h = (m, v)" by (cases h)
  show ?thesis using assms unfolding h by (cases v) (auto simp: happen_def live_def Let_def frameOf_def)
qed

lemma happenAll_stopped: "\<not> tl_ticker s \<Longrightarrow> fst (happenAll hs s) = []"
proof (induction hs arbitrary: s)
  case (Cons h hs)
  obtain fired s1 where h: "happen h s = (fired, s1)" by fastforce
  have "fired = []" "\<not> tl_ticker s1" using happen_stopped [OF Cons.prems, of h] by (simp_all add: h)
  then show ?case using Cons.IH [of s1] by (simp add: h split_beta)
qed simp

lemma extentOf_arrived [simp]: "extentOf (arrived m to s) = extentOf s" "extentOf (s\<lparr>tl_out := out\<rparr>) = extentOf s"
  by (simp_all add: arrived_def extentOf_def)

lemma loopRange_no_loop: "\<not> tl_loop s \<Longrightarrow> loopRange (extentOf s) = None"
  by (simp add: loopRange_def extentOf_def)

lemma dueActions_wrap': "dueActions actions (wrap p e) (wrap p e + d) e False = dueActions actions p (p + d) e False"
proof (cases "loopRange e")
  case None
  then show ?thesis by (simp add: wrap_def)
next
  case (Some r)
  then show ?thesis using dueActions_wrap by (cases r) blast
qed

lemma happenAll_fires:
  assumes "plays s" "\<not> tl_fresh s" "in_order (tl_lastTick s) hs"
  shows "fst (happenAll hs s) =
    dueActions (tl_actions s) (tl_pos s) (tl_pos s + travelled s (tl_lastTick s) hs) (extentOf s) False"
  using assms
proof (induction hs arbitrary: s)
  case Nil
  then show ?case by simp
next
  case (Cons h hs)
  obtain m v where h: "h = (m, v)" by (cases h)
  have v: "v \<noteq> Some JUndef" "v \<noteq> Some JNull" and order: "tl_lastTick s \<le> mo_now m" "in_order (mo_now m) hs"
    using Cons.prems(3) by (simp_all add: h)
  have speed: "0 \<le> tl_speed s" using Cons.prems(1) by (simp add: plays_def)
  define d where "d = span_of s (tl_lastTick s) m"
  have d: "0 \<le> d" using span_nonneg [OF order(1) speed] by (simp add: d_def)
  define rest where "rest = travelled s (mo_now m) hs"
  have rest: "0 \<le> rest" using travelled_nonneg [OF order(2) speed] by (simp add: rest_def)
  have far: "travelled s (tl_lastTick s) (h # hs) = d + rest" by (simp add: h d_def rest_def)
  obtain out where one: "happen h s =
      (if ends_at s (tl_pos s + d) then (dueActions (tl_actions s) (tl_pos s) (tl_length s) (extentOf s) False, halt (arrived m (tl_length s) s\<lparr>tl_out := out\<rparr>))
       else (dueActions (tl_actions s) (tl_pos s) (tl_pos s + d) (extentOf s) False, arrived m (tl_pos s + d) s\<lparr>tl_out := out\<rparr>))"
  proof -
    have "tl_pos s + d = tl_pos s + span_of s (tl_lastTick s) m" by (simp only: d_def)
    moreover have "tl_fresh s = False" using Cons.prems(2) by simp
    ultimately show thesis using happen_plays [OF Cons.prems(1) v, of "tl_pos s + d" m] that unfolding h by metis
  qed
  show ?case
  proof (cases "ends_at s (tl_pos s + d)")
    case True
    have "fst (happenAll hs (halt (arrived m (tl_length s) s\<lparr>tl_out := out\<rparr>))) = []"
      by (rule happenAll_stopped) (simp add: halt_def)
    moreover have "dueActions (tl_actions s) (tl_pos s) (tl_pos s + (d + rest)) (extentOf s) False
        = dueActions (tl_actions s) (tl_pos s) (tl_length s) (extentOf s) False"
      using True rest dueActions_beyond [of "extentOf s" "tl_pos s + (d + rest)"] loopRange_no_loop [of s]
      by (simp add: ends_at_def extentOf_def)
    ultimately show ?thesis using True by (simp add: one far split_beta)
  next
    case False
    let ?s1 = "arrived m (tl_pos s + d) s\<lparr>tl_out := out\<rparr>"
    have "plays ?s1" "\<not> tl_fresh ?s1" "in_order (tl_lastTick ?s1) hs"
      using Cons.prems(1) order(2) by (simp_all add: plays_def arrived_def)
    note IH = Cons.IH [OF this]
    have fields: "tl_actions ?s1 = tl_actions s" "tl_pos ?s1 = wrap (tl_pos s + d) (extentOf s)" "tl_lastTick ?s1 = mo_now m"
      by (simp_all add: arrived_def)
    have "travelled ?s1 (mo_now m) hs = rest" unfolding rest_def by (rule travelled_cong) (simp_all add: arrived_def)
    then have "fst (happenAll hs ?s1) = dueActions (tl_actions s) (tl_pos s + d) (tl_pos s + d + rest) (extentOf s) False"
      using IH by (simp add: fields dueActions_wrap')
    then show ?thesis
      using False dueActions_split [of "tl_pos s" "tl_pos s + d" "tl_pos s + (d + rest)" "tl_actions s" "extentOf s" False] d rest
      by (simp add: one far split_beta add.assoc)
  qed
qed

text \<open>A timeline that stands somewhere on its axis, ready to be played.\<close>

definition inLoop :: "TimelineState \<Rightarrow> bool" where
  "inLoop s = (case loopRange (extentOf s) of None \<Rightarrow> True | Some (start, stop) \<Rightarrow> tl_pos s < stop)"

definition stands :: "TimelineState \<Rightarrow> bool" where
  "stands s = (tl_clock s = OwnClock \<and> \<not> tl_ticker s \<and> inLoop s \<and> \<not> ends_at s (tl_pos s))"

lemma intoLoop_inLoop [simp]: "inLoop s \<Longrightarrow> intoLoop s = s"
  by (auto simp: inLoop_def intoLoop_def split: option.splits)

text \<open>What a configuration to play, or the frames until then, fire.\<close>

definition playFires :: "Moment \<Rightarrow> TimelineState \<Rightarrow> jsval list" where
  "playFires m s = concat (map fr_actions (drop (length (tl_out s)) (tl_out (play m s))))"

lemma play_stands:
  assumes "stands s" "\<not> tl_bypass s" "tl_recording s \<longrightarrow> tl_recordMode s = Overdub"
  shows "playFires m s = dueActions (tl_actions s) (tl_pos s) (tl_pos s) (extentOf s) (tl_fresh s)"
    and "\<exists>out. play m s = s\<lparr>tl_lastTick := mo_now m, tl_ticker := True, tl_running := True, tl_fresh := False,
      tl_hasEmitted := True, tl_jumpPending := False, tl_out := out\<rparr>"
proof -
  let ?s = "s\<lparr>tl_lastTick := mo_now m, tl_ticker := True, tl_running := True\<rparr>"
  have s: "inLoop s" "tl_clock s = OwnClock" "\<not> tl_ticker s" "\<not> (\<not> tl_loop s \<and> tl_length s > 0 \<and> tl_pos s \<ge> tl_length s)"
    using assms(1) by (auto simp: stands_def ends_at_def)
  have p: "play m s = emitAt m (tl_pos ?s) ?s"
    using s by (auto simp: play_def Let_def)
  have "wrap (tl_pos s) (extentOf s) = tl_pos s"
    using s(1) by (auto simp: inLoop_def wrap_def split: option.splits)
  moreover have "extentOf ?s = extentOf s" by (simp add: extentOf_def)
  moreover have kept: "(tl_recording s \<and> tl_recordMode s = Replace) = False" using assms(3) by auto
  ultimately have step: "fr_actions (fst (tlStep m (tl_pos ?s) ?s)) = dueActions (tl_actions s) (tl_pos s) (tl_pos s) (extentOf s) (tl_fresh s)"
      "snd (tlStep m (tl_pos ?s) ?s) = ?s\<lparr>tl_fresh := False, tl_hasEmitted := True, tl_jumpPending := False\<rparr>"
    using kept by (cases "tl_recording s"; simp add: tlStep_def Let_def frameOf_def)+
  obtain frame s' where st: "tlStep m (tl_pos ?s) ?s = (frame, s')" by fastforce
  have s': "s' = ?s\<lparr>tl_fresh := False, tl_hasEmitted := True, tl_jumpPending := False\<rparr>"
    using step(2) unfolding st by simp
  then have e: "emitAt m (tl_pos ?s) ?s = s'\<lparr>tl_out := tl_out s @ [frame]\<rparr>"
    using assms(2) unfolding emitAt_def st by simp
  show "playFires m s = dueActions (tl_actions s) (tl_pos s) (tl_pos s) (extentOf s) (tl_fresh s)"
    using step(1) unfolding playFires_def p e st by simp
  show "\<exists>out. play m s = s\<lparr>tl_lastTick := mo_now m, tl_ticker := True, tl_running := True, tl_fresh := False,
      tl_hasEmitted := True, tl_jumpPending := False, tl_out := out\<rparr>"
    unfolding p e s' by (rule exI [of _ "tl_out s @ [frame]"]) simp
qed

lemma play_then_fires:
  assumes "stands s" "\<not> tl_bypass s" "\<not> tl_recording s" "0 \<le> tl_speed s" "in_order (mo_now m) hs"
  shows "playFires m s @ fst (happenAll hs (play m s))
    = dueActions (tl_actions s) (tl_pos s) (tl_pos s + travelled s (mo_now m) hs) (extentOf s) (tl_fresh s)"
proof -
  have rec: "tl_recording s \<longrightarrow> tl_recordMode s = Overdub" using assms(3) by simp
  obtain out where p: "play m s = s\<lparr>tl_lastTick := mo_now m, tl_ticker := True, tl_running := True, tl_fresh := False,
      tl_hasEmitted := True, tl_jumpPending := False, tl_out := out\<rparr>" (is "_ = ?p")
    using play_stands(2) [OF assms(1,2) rec] by blast
  have e: "extentOf ?p = extentOf s" by (simp add: extentOf_def)
  have t: "travelled ?p (mo_now m) hs = travelled s (mo_now m) hs" by (rule travelled_cong) simp_all
  have "fst (happenAll hs ?p) = dueActions (tl_actions ?p) (tl_pos ?p) (tl_pos ?p + travelled ?p (tl_lastTick ?p) hs) (extentOf ?p) False"
    using assms by (intro happenAll_fires) (simp_all add: plays_def stands_def)
  moreover have "0 \<le> travelled s (mo_now m) hs" using assms(4,5) by (rule travelled_nonneg [rotated])
  ultimately show ?thesis
    using dueActions_split [of "tl_pos s" "tl_pos s" "tl_pos s + travelled s (mo_now m) hs" "tl_actions s" "extentOf s" "tl_fresh s"]
    unfolding p play_stands(1) [OF assms(1,2) rec] e by (simp add: t)
qed

section \<open>Recording\<close>

fun recorded :: "TimelineState \<Rightarrow> rat \<Rightarrow> rat \<Rightarrow> happening list \<Rightarrow> TimelineAction list" where
  "recorded s pos since [] = []"
| "recorded s pos since ((m, v) # hs) =
     (let to = pos + span_of s since m
      in (case v of Some x \<Rightarrow> [\<lparr>act_at = to, act_data = x\<rparr>] | None \<Rightarrow> []) @ recorded s to (mo_now m) hs)"

definition inputs_of :: "happening list \<Rightarrow> jsval list" where
  "inputs_of hs = concat (map (\<lambda>(m, v). case v of Some x \<Rightarrow> [x] | None \<Rightarrow> []) hs)"

lemma recorded_data: "map act_data (recorded s pos since hs) = inputs_of hs"
  by (induction s pos since hs rule: recorded.induct) (auto simp: inputs_of_def Let_def split: option.split)

lemma recorded_cong:
  "tl_unit s' = tl_unit s \<Longrightarrow> tl_speed s' = tl_speed s \<Longrightarrow> recorded s' pos since hs = recorded s pos since hs"
  by (induction s pos since hs rule: recorded.induct) (auto simp: perSecond_def span_of_def Let_def)

lemma recorded_between:
  assumes "in_order since hs" "0 \<le> tl_speed s"
  shows "sorted (map act_at (recorded s pos since hs))
    \<and> (\<forall>a\<in>set (recorded s pos since hs). pos \<le> act_at a \<and> act_at a \<le> pos + travelled s since hs)"
  using assms
proof (induction s pos since hs rule: recorded.induct)
  case (2 s pos since m v hs)
  define d where "d = span_of s since m"
  have d: "0 \<le> d" using 2 by (simp add: d_def span_nonneg)
  have rest: "0 \<le> travelled s (mo_now m) hs" using 2 by (simp add: travelled_nonneg)
  have "sorted (map act_at (recorded s (pos + d) (mo_now m) hs))
      \<and> (\<forall>a\<in>set (recorded s (pos + d) (mo_now m) hs). pos + d \<le> act_at a \<and> act_at a \<le> pos + d + travelled s (mo_now m) hs)"
    using 2 unfolding d_def by (simp add: Let_def)
  then show ?case
    using d rest by (cases v) (force simp: Let_def simp flip: d_def)+
qed simp

definition records :: "TimelineState \<Rightarrow> bool" where
  "records s = (tl_clock s = OwnClock \<and> tl_recording s \<and> tl_recordMode s = Overdub \<and> \<not> tl_bypass s \<and> 0 \<le> tl_speed s
     \<and> \<not> tl_loop s \<and> tl_length s = 0)"

lemma happen_records:
  assumes "records s" "tl_ticker s" "v \<noteq> Some JUndef" "v \<noteq> Some JNull"
    and to: "to = tl_pos s + span_of s (tl_lastTick s) m"
  shows "\<exists>out. snd (happen (m, v) s) =
      arrived m to s\<lparr>tl_out := out, tl_actions := (case v of Some x \<Rightarrow> insertAction (tl_actions s) \<lparr>act_at = to, act_data = x\<rparr> | None \<Rightarrow> tl_actions s)\<rparr>"
proof -
  have r: "reached m s = (to, False, s\<lparr>tl_lastTick := mo_now m\<rparr>)"
    using assms(1) by (simp only: reached_def Let_def span_of_def [symmetric] to [symmetric]) (simp add: records_def)
  have w: "wrap to (extentOf s) = to"
    using assms(1) by (simp add: wrap_def records_def loopRange_no_loop)
  have st: "snd (tlStep m to (s\<lparr>tl_lastTick := mo_now m\<rparr>)) = arrived m to s"
    using assms(1) by (simp add: tlStep_def Let_def arrived_def extentOf_def records_def)
  obtain frame where st: "tlStep m to (s\<lparr>tl_lastTick := mo_now m\<rparr>) = (frame, arrived m to s)"
    using st by (metis prod.collapse)
  show ?thesis
  proof (cases v)
    case None
    have "timelineTick m s = arrived m to s\<lparr>tl_out := tl_out s @ [frame]\<rparr>"
      using assms(1) by (simp add: timelineTick_def r emitAt_def st records_def Let_def arrived_def)
    then show ?thesis
      using assms(2) None by (intro exI [of _ "tl_out s @ [frame]"]) (simp add: happen_def Let_def arrived_def)
  next
    case (Some x)
    have "tl_recording (arrived m to s)" using assms(1) by (simp add: arrived_def records_def)
    moreover have "x \<noteq> JUndef" "x \<noteq> JNull" using assms(3,4) Some by auto
    ultimately have "live m x s = (Some (frame\<lparr>fr_actions := fr_actions frame @ [x]\<rparr>),
        arrived m to s\<lparr>tl_actions := insertAction (tl_actions (arrived m to s)) \<lparr>act_at = to, act_data = x\<rparr>\<rparr>)"
      using assms(2) by (simp add: live_def r st Let_def w)
    then show ?thesis
      using Some by (intro exI [of _ "tl_out s"]) (simp add: happen_def arrived_def)
  qed
qed

lemma insertAction_last: "\<forall>b\<in>set actions. act_at b \<le> act_at a \<Longrightarrow> insertAction actions a = actions @ [a]"
proof (cases "find_index (\<lambda>b. act_at b > act_at a) actions")
  case (Some i)
  assume "\<forall>b\<in>set actions. act_at b \<le> act_at a"
  then show ?thesis using find_index_Some [OF Some] by (meson not_less nth_mem)
qed (simp add: insertAction_def)

lemma happenAll_records:
  assumes "records s" "tl_ticker s" "in_order (tl_lastTick s) hs" "\<forall>a\<in>set (tl_actions s). act_at a \<le> tl_pos s"
  shows "\<exists>out pos since fresh emitted jump. snd (happenAll hs s) = s\<lparr>tl_out := out, tl_pos := pos, tl_lastTick := since, tl_fresh := fresh,
      tl_hasEmitted := emitted, tl_jumpPending := jump, tl_actions := tl_actions s @ recorded s (tl_pos s) (tl_lastTick s) hs\<rparr>"
  using assms
proof (induction hs arbitrary: s)
  case Nil
  have "s = s\<lparr>tl_out := tl_out s, tl_pos := tl_pos s, tl_lastTick := tl_lastTick s, tl_fresh := tl_fresh s,
      tl_hasEmitted := tl_hasEmitted s, tl_jumpPending := tl_jumpPending s, tl_actions := tl_actions s @ []\<rparr>" by simp
  then show ?case by (simp only: happenAll.simps recorded.simps snd_conv) blast
next
  case (Cons h hs)
  obtain m v where h: "h = (m, v)" by (cases h)
  have v: "v \<noteq> Some JUndef" "v \<noteq> Some JNull" and order: "tl_lastTick s \<le> mo_now m" "in_order (mo_now m) hs"
    using Cons.prems(3) by (simp_all add: h)
  define to where "to = tl_pos s + span_of s (tl_lastTick s) m"
  have far: "tl_pos s \<le> to" using order(1) Cons.prems(1) by (simp add: to_def span_nonneg records_def)
  define new where "new = (case v of Some x \<Rightarrow> [\<lparr>act_at = to, act_data = x\<rparr>] | None \<Rightarrow> [])"
  have "(case v of Some x \<Rightarrow> insertAction (tl_actions s) \<lparr>act_at = to, act_data = x\<rparr> | None \<Rightarrow> tl_actions s) = tl_actions s @ new"
    using Cons.prems(4) far by (cases v) (auto simp: new_def intro!: insertAction_last)
  then obtain out where one: "snd (happen h s) = arrived m to s\<lparr>tl_out := out, tl_actions := tl_actions s @ new\<rparr>" (is "_ = ?s1")
    using happen_records [OF Cons.prems(1,2) v to_def] by (auto simp: h)
  have w: "wrap to (extentOf s) = to" using Cons.prems(1) by (simp add: wrap_def records_def loopRange_no_loop)
  have "records ?s1" "tl_ticker ?s1" "in_order (tl_lastTick ?s1) hs"
    using Cons.prems(1,2) order(2) by (simp_all add: records_def arrived_def)
  moreover have "\<forall>a\<in>set (tl_actions ?s1). act_at a \<le> tl_pos ?s1"
    using Cons.prems(4) far by (cases v) (auto simp: arrived_def w new_def)
  ultimately have "\<exists>out pos since fresh emitted jump. snd (happenAll hs ?s1) = ?s1\<lparr>tl_out := out, tl_pos := pos, tl_lastTick := since, tl_fresh := fresh,
      tl_hasEmitted := emitted, tl_jumpPending := jump, tl_actions := tl_actions ?s1 @ recorded ?s1 (tl_pos ?s1) (tl_lastTick ?s1) hs\<rparr>"
    by (rule Cons.IH)
  moreover have "recorded ?s1 (tl_pos ?s1) (tl_lastTick ?s1) hs = recorded s to (mo_now m) hs"
    by (subst recorded_cong [of _ s]) (simp_all add: arrived_def w)
  moreover have "recorded s (tl_pos s) (tl_lastTick s) (h # hs) = new @ recorded s to (mo_now m) hs"
    by (simp only: h recorded.simps Let_def new_def to_def)
  ultimately obtain out' pos since fresh emitted jump where
      "snd (happenAll hs ?s1) = ?s1\<lparr>tl_out := out', tl_pos := pos, tl_lastTick := since, tl_fresh := fresh,
        tl_hasEmitted := emitted, tl_jumpPending := jump, tl_actions := tl_actions s @ recorded s (tl_pos s) (tl_lastTick s) (h # hs)\<rparr>"
    by auto
  moreover have "snd (happenAll (h # hs) s) = snd (happenAll hs ?s1)"
    by (simp add: split_beta one)
  ultimately show ?case by (intro exI) (simp add: arrived_def)
qed

text \<open>Once through a timeline that does not loop.\<close>

lemma dueActions_all:
  assumes "loopRange e = None" "ext_length e \<le> 0" "sorted (map act_at as)"
    and at: "\<forall>a\<in>set as. 0 \<le> act_at a \<and> act_at a \<le> t" and data: "\<forall>a\<in>set as. act_data a \<noteq> JUndef" and t: "0 \<le> t"
  shows "dueActions as 0 t e True = map act_data as"
proof -
  let ?all = "map (\<lambda>(i, a). (act_at a, i, act_data a)) (enumerate 0 as)"
  have f: "fires e (act_at (as ! i)) pos \<longleftrightarrow> pos = act_at (as ! i)" if "i < length as" for i pos
    using assms(1,2) at that by (auto simp: fires_def)
  have "dueIn as 0 t e True = ?all"
  proof (rule due_unique [where g = "\<lambda>index. act_data (as ! index)"])
    show "set (dueIn as 0 t e True) = set ?all"
      using at t by (force simp: dueIn_set f set_enumerate_0 inWindow_def)
    have keys: "map due_key ?all = map (\<lambda>i. (act_at (as ! i), i)) [0..<length as]"
      by (rule nth_equalityI) (simp_all add: nth_enumerate_eq)
    show "sorted (map due_key ?all)"
      unfolding keys using assms(3) by (auto simp: sorted_iff_nth_mono less_eq_prod_def less_le)
    show "distinct (map due_key ?all)"
      unfolding keys by (simp add: distinct_map inj_on_def)
  qed (auto simp: dueIn_set dueIn_sorted dueIn_distinct)
  moreover have "map (\<lambda>(pos, index, data). if data = JUndef then JNull else data) ?all = map act_data as"
    using data by (intro nth_equalityI) (simp_all add: nth_enumerate_eq)
  ultimately show ?thesis unfolding dueActions_def by simp
qed

section \<open>A driven timeline\<close>

text \<open>The actions a driven timeline's frames carry, over a run of inputs.\<close>

fun driveAll :: "Moment \<Rightarrow> TimelineInput list \<Rightarrow> TimelineState \<Rightarrow> jsval list \<times> TimelineState" where
  "driveAll m [] s = ([], s)"
| "driveAll m (i # is) s =
     (case timelineProcess m i s of (frame, s1) \<Rightarrow> case driveAll m is s1 of (later, s2) \<Rightarrow>
        ((case frame of Some f \<Rightarrow> fr_actions f | None \<Rightarrow> []) @ later, s2))"

definition driven :: "TimelineState \<Rightarrow> bool" where
  "driven s = (tl_clock s = InputClock \<and> tl_placement s = [] \<and> \<not> tl_loop s \<and> 0 < tl_length s)"

definition time_of :: "TimelineInput \<Rightarrow> rat" where
  "time_of i = (case in_t i of Some t \<Rightarrow> t | None \<Rightarrow> 0)"

definition keeps_time :: "TimelineInput \<Rightarrow> bool" where
  "keeps_time i = (in_t i \<noteq> None \<and> \<not> in_jump i)"

lemma driveTo_fires:
  "(case fst (driveTo i raw entering s) of Some f \<Rightarrow> fr_actions f | None \<Rightarrow> []) = drivenDue (in_jump i) entering (tl_prevRaw s) raw (extentOf s) (tl_actions s)"
  "\<exists>l. snd (driveTo i raw entering s) = s\<lparr>tl_prevRaw := Some raw, tl_lastDriven := l\<rparr>"
  by (simp_all add: driveTo_def Let_def frameOf_def) blast+

lemma process_driven:
  assumes "driven s" "keeps_time i"
  shows "(case fst (timelineProcess m i s) of Some f \<Rightarrow> fr_actions f | None \<Rightarrow> [])
      = drivenDue False False (tl_prevRaw s) (time_of i) (extentOf s) (tl_actions s)"
    "\<exists>l. snd (timelineProcess m i s) = s\<lparr>tl_prevRaw := Some (time_of i), tl_lastDriven := l\<rparr>"
proof -
  have p: "timelineProcess m i s = driveTo i (time_of i) False s" and j: "in_jump i = False"
    using assms by (auto simp: timelineProcess_def driven_def keeps_time_def time_of_def)
  show "(case fst (timelineProcess m i s) of Some f \<Rightarrow> fr_actions f | None \<Rightarrow> [])
      = drivenDue False False (tl_prevRaw s) (time_of i) (extentOf s) (tl_actions s)"
    unfolding p driveTo_fires(1) j by (rule refl)
  show "\<exists>l. snd (timelineProcess m i s) = s\<lparr>tl_prevRaw := Some (time_of i), tl_lastDriven := l\<rparr>"
    unfolding p by (rule driveTo_fires(2))
qed

lemma driveAll_pass:
  assumes "driven s" "list_all keeps_time is" "tl_prevRaw s = Some prev" "sorted (prev # map time_of is)"
  shows "fst (driveAll m is s) = dueActions (tl_actions s) prev (last (prev # map time_of is)) (extentOf s) False
    \<and> (\<exists>l. snd (driveAll m is s) = s\<lparr>tl_prevRaw := Some (last (prev # map time_of is)), tl_lastDriven := l\<rparr>)"
  using assms
proof (induction "is" arbitrary: s prev)
  case Nil
  have "s = s\<lparr>tl_prevRaw := Some prev, tl_lastDriven := tl_lastDriven s\<rparr>" using Nil by simp
  then show ?case by (auto intro: exI [of _ "tl_lastDriven s"])
next
  case (Cons i "is")
  have i: "keeps_time i" "list_all keeps_time is" and order: "prev \<le> time_of i" "sorted (time_of i # map time_of is)"
    using Cons.prems by auto
  obtain l where one: "snd (timelineProcess m i s) = s\<lparr>tl_prevRaw := Some (time_of i), tl_lastDriven := l\<rparr>" (is "_ = ?s1")
    using process_driven(2) [OF Cons.prems(1) i(1)] by blast
  have fired: "(case fst (timelineProcess m i s) of Some f \<Rightarrow> fr_actions f | None \<Rightarrow> []) = dueActions (tl_actions s) prev (time_of i) (extentOf s) False"
    unfolding process_driven(1) [OF Cons.prems(1) i(1)] using order(1) by (simp add: drivenDue_def Cons.prems(3))
  have s1: "driven ?s1" "tl_prevRaw ?s1 = Some (time_of i)" "extentOf ?s1 = extentOf s" "tl_actions ?s1 = tl_actions s"
    using Cons.prems(1) by (simp_all add: driven_def extentOf_def)
  have IH: "fst (driveAll m is ?s1) = dueActions (tl_actions s) (time_of i) (last (time_of i # map time_of is)) (extentOf s) False"
      "\<exists>l. snd (driveAll m is ?s1) = ?s1\<lparr>tl_prevRaw := Some (last (time_of i # map time_of is)), tl_lastDriven := l\<rparr>"
    using Cons.IH [OF s1(1) i(2) s1(2) order(2)] unfolding s1(3,4) by blast+
  have le: "time_of i \<le> last (time_of i # map time_of is)" using order(2) by (cases "is" rule: rev_cases) (simp_all add: sorted_append)
  have "driveAll m (i # is) s = ((case fst (timelineProcess m i s) of Some f \<Rightarrow> fr_actions f | None \<Rightarrow> []) @ fst (driveAll m is ?s1), snd (driveAll m is ?s1))"
    by (simp add: split_beta one)
  then show ?case
    using IH fired dueActions_split [OF order(1) le, of "tl_actions s" "extentOf s" False] by auto
qed

lemma driveAll_append:
  "driveAll m (xs @ ys) s = (fst (driveAll m xs s) @ fst (driveAll m ys (snd (driveAll m xs s))), snd (driveAll m ys (snd (driveAll m xs s))))"
  by (induction xs arbitrary: s) (simp_all add: split_beta)

lemma driveAll_Cons:
  "fst (driveAll m (i # is) s) = (case fst (timelineProcess m i s) of Some f \<Rightarrow> fr_actions f | None \<Rightarrow> []) @ fst (driveAll m is (snd (timelineProcess m i s)))"
  "snd (driveAll m (i # is) s) = snd (driveAll m is (snd (timelineProcess m i s)))"
  by (simp_all add: split_beta)

lemma last_time: "last (time_of i # map time_of is) = time_of (last (i # is))"
  by (cases "is" rule: rev_cases) simp_all

lemma time_until: "sorted (map time_of (i # is)) \<Longrightarrow> time_of i \<le> time_of (last (i # is))"
  by (cases "is" rule: rev_cases) (simp_all add: sorted_append)

text \<open>A run of inputs whose first one fires \<open>first\<close>.\<close>

lemma driveAll_run:
  assumes "driven s" "list_all keeps_time (i # is)" "sorted (map time_of (i # is))"
    and first: "drivenDue False False (tl_prevRaw s) (time_of i) (extentOf s) (tl_actions s) = before @ dueActions (tl_actions s) t (time_of i) (extentOf s) True"
    and "t \<le> time_of i"
  shows "fst (driveAll m (i # is) s) = before @ dueActions (tl_actions s) t (time_of (last (i # is))) (extentOf s) True
    \<and> (\<exists>l. snd (driveAll m (i # is) s) = s\<lparr>tl_prevRaw := Some (time_of (last (i # is))), tl_lastDriven := l\<rparr>)"
proof -
  have keep: "keeps_time i" "list_all keeps_time is" using assms(2) by simp_all
  obtain l where s1: "snd (timelineProcess m i s) = s\<lparr>tl_prevRaw := Some (time_of i), tl_lastDriven := l\<rparr>" (is "_ = ?s1")
    using process_driven(2) [OF assms(1) keep(1)] by blast
  have d1: "driven ?s1" "extentOf ?s1 = extentOf s" using assms(1) by (simp_all add: driven_def extentOf_def)
  have "fst (driveAll m is ?s1) = dueActions (tl_actions s) (time_of i) (time_of (last (i # is))) (extentOf s) False"
      "\<exists>l. snd (driveAll m is ?s1) = ?s1\<lparr>tl_prevRaw := Some (time_of (last (i # is))), tl_lastDriven := l\<rparr>"
    using driveAll_pass [OF d1(1) keep(2), of "time_of i" m] assms(3) unfolding d1(2) last_time by simp_all
  then show ?thesis
    using dueActions_split [OF assms(5) time_until [OF assms(3)], of "tl_actions s" "extentOf s" True]
    unfolding driveAll_Cons s1 process_driven(1) [OF assms(1) keep(1)] first by auto
qed

lemma restOfPass_no_loop:
  assumes "loopRange e = None" "0 < ext_length e"
  shows "restOfPass actions t e = dueActions actions t (ext_length e) e False"
proof -
  let ?once = "\<lparr>ext_length = ext_length e, ext_loop = False, ext_loopStart = None, ext_loopEnd = None\<rparr>"
  have "loopRange ?once = None" by (simp add: loopRange_def)
  then have "fires ?once = fires e" using assms by (intro ext) (simp add: fires_def)
  then have "dueIn actions t (ext_length e) ?once False = dueIn actions t (ext_length e) e False"
    by (intro due_unique [where g = "\<lambda>index. act_data (actions ! index)"]) (simp_all only: dueIn_set dueIn_sorted dueIn_distinct, auto)
  then show ?thesis using assms by (simp add: restOfPass_def dueActions_def)
qed

lemma pass_to_end:
  assumes "loopRange e = None" "0 < ext_length e" "t0 \<le> t1"
  shows "dueActions actions t0 t1 e True @ dueActions actions t1 (ext_length e) e False = dueActions actions t0 (ext_length e) e True"
proof (cases "t1 \<le> ext_length e")
  case True
  then show ?thesis using dueActions_split [OF assms(3) True] by simp
next
  case False
  then have "set (dueIn actions t1 (ext_length e) e False) = {}" by (auto simp: dueIn_set)
  then have "dueActions actions t1 (ext_length e) e False = []" by (simp add: dueActions_def)
  then show ?thesis using dueActions_beyond [OF assms(1,2), of t1] False by simp
qed

section \<open>Executions\<close>

inductive timeline_step :: "TimelineState \<Rightarrow> TimelineState \<Rightarrow> bool" where
  configured: "timeline_step s (timelineConfigure c m s)"
| ticked: "tl_ticker s \<Longrightarrow> timeline_step s (timelineTick m s)"
| fed: "timeline_step s (snd (timelineProcess m i s))"
| bypassed: "timeline_step s (s\<lparr>tl_bypass := b\<rparr>)"
| destroyed: "timeline_step s (halt s)"

definition timeline_ok :: "TimelineState \<Rightarrow> bool" where
  "timeline_ok s =
     (tl_ticker s = tl_running s \<and> (tl_ticker s \<longrightarrow> tl_clock s = OwnClock) \<and> (tl_clock s = OwnClock \<longrightarrow> inLoop s)
      \<and> sorted (map pl_at (tl_placements s)) \<and> list_all (\<lambda>p. pl_name p \<noteq> [] \<and> 0 \<le> pl_at p \<and> 0 < pl_duration p) (tl_placements s))"

text \<open>All of it but the place in the loop.\<close>

definition clock_ok :: "TimelineState \<Rightarrow> bool" where
  "clock_ok s =
     (tl_ticker s = tl_running s \<and> (tl_ticker s \<longrightarrow> tl_clock s = OwnClock)
      \<and> sorted (map pl_at (tl_placements s)) \<and> list_all (\<lambda>p. pl_name p \<noteq> [] \<and> 0 \<le> pl_at p \<and> 0 < pl_duration p) (tl_placements s))"

lemma timeline_ok_iff: "timeline_ok s \<longleftrightarrow> clock_ok s \<and> (tl_clock s = OwnClock \<longrightarrow> inLoop s)"
  by (auto simp: timeline_ok_def clock_ok_def)

lemma inLoop_cong:
  "extentOf s' = extentOf s \<Longrightarrow> tl_pos s' = tl_pos s \<Longrightarrow> inLoop s' = inLoop s"
  unfolding inLoop_def by (simp only:)

lemma inLoop_same [simp]:
  "inLoop (halt s) = inLoop s" "inLoop (s\<lparr>tl_out := out\<rparr>) = inLoop s" "inLoop (s\<lparr>tl_hasEmitted := b\<rparr>) = inLoop s"
  "inLoop (s\<lparr>tl_actions := as\<rparr>) = inLoop s" "inLoop (s\<lparr>tl_bypass := b\<rparr>) = inLoop s" "inLoop (s\<lparr>tl_status := st\<rparr>) = inLoop s"
  "inLoop (s\<lparr>tl_prevRaw := r\<rparr>) = inLoop s" "inLoop (s\<lparr>tl_lastDriven := d\<rparr>) = inLoop s"
  "inLoop (s\<lparr>tl_clock := c\<rparr>) = inLoop s"
  by (rule inLoop_cong; simp add: extentOf_def halt_def)+

lemma inLoop_wrap: "extentOf s = e \<Longrightarrow> tl_pos s = wrap to e \<Longrightarrow> inLoop s"
  using wrap_in_range [of e _ _ to] by (auto simp: inLoop_def wrap_def not_less split: option.split)

lemma inLoop_start: "tl_pos s \<le> 0 \<Longrightarrow> inLoop s"
  using loopRange_bounds [of "extentOf s"] by (fastforce simp: inLoop_def split: option.split)

lemma normalizePlacements_ok:
  "sorted (map pl_at (normalizePlacements raws))
   \<and> list_all (\<lambda>p. pl_name p \<noteq> [] \<and> 0 \<le> pl_at p \<and> 0 < pl_duration p) (normalizePlacements raws)"
  by (auto simp: normalizePlacements_def list_all_iff split: option.splits if_splits)

lemma halt_ok [intro]: "timeline_ok s \<Longrightarrow> timeline_ok (halt s)"
  by (simp add: timeline_ok_def) (simp add: halt_def)

lemma rewind_ok [intro]: "clock_ok s \<Longrightarrow> timeline_ok (rewind s)"
  by (simp add: timeline_ok_iff clock_ok_def rewind_def inLoop_start)

lemma intoLoop_ok: "clock_ok s \<Longrightarrow> timeline_ok (intoLoop s)"
  using loopRange_bounds [of "extentOf s"]
  by (auto simp: timeline_ok_iff clock_ok_def intoLoop_def inLoop_def extentOf_def split: option.splits)

lemma tlStep_ok:
  assumes "clock_ok s"
  shows "timeline_ok (snd (tlStep m to s))"
proof -
  let ?s = "snd (tlStep m to s)"
  have "extentOf ?s = extentOf s" "tl_pos ?s = wrap to (extentOf s)"
    by (simp_all add: tlStep_def Let_def extentOf_def)
  then have "inLoop ?s" by (rule inLoop_wrap)
  moreover have "clock_ok ?s" using assms by (simp add: clock_ok_def tlStep_def Let_def)
  ultimately show ?thesis by (simp add: timeline_ok_iff)
qed

lemma out_ok [simp]: "timeline_ok (s\<lparr>tl_out := out\<rparr>) = timeline_ok s"
  by (simp add: timeline_ok_def)

lemma emitAt_ok:
  assumes "clock_ok s" shows "timeline_ok (emitAt m to s)"
  using tlStep_ok [OF assms, of m to] by (auto simp: emitAt_def split: prod.split)

lemma ok_clock [intro]: "timeline_ok s \<Longrightarrow> clock_ok s"
  by (simp add: timeline_ok_iff)

lemma play_ok:
  assumes "timeline_ok s" shows "timeline_ok (play m s)"
proof (cases "tl_clock s \<noteq> OwnClock \<or> tl_ticker s")
  case False
  define s1 where "s1 = (if \<not> tl_loop s \<and> tl_length s > 0 \<and> tl_pos s \<ge> tl_length s then rewind s else s)"
  have "clock_ok s1" "tl_clock s1 = OwnClock" using assms False by (auto simp: s1_def timeline_ok_iff clock_ok_def rewind_def)
  then have "clock_ok (intoLoop s1)" "tl_clock (intoLoop s1) = OwnClock"
    using intoLoop_ok [of s1] by (auto simp: intoLoop_def split: option.split)
  then have "clock_ok ((intoLoop s1)\<lparr>tl_lastTick := mo_now m, tl_ticker := True, tl_running := True\<rparr>)"
    by (simp add: clock_ok_def)
  then show ?thesis using False emitAt_ok unfolding play_def Let_def s1_def [symmetric] by simp
qed (simp add: play_def assms)

lemma seek_ok:
  assumes "timeline_ok s" shows "timeline_ok (seek m to s)"
proof (cases "tl_clock s = OwnClock")
  case True
  define s1 where "s1 = intoLoop (s\<lparr>tl_pos := max 0 to, tl_fresh := True, tl_jumpPending := True\<rparr>)"
  have "timeline_ok s1" unfolding s1_def by (rule intoLoop_ok) (use assms in \<open>simp add: timeline_ok_def clock_ok_def\<close>)
  then show ?thesis using True emitAt_ok [OF ok_clock, of s1] unfolding seek_def Let_def s1_def [symmetric] by simp
qed (simp add: seek_def assms)

lemma reached_ok: "reached m s = (to, ends, s1) \<Longrightarrow> clock_ok s \<Longrightarrow> clock_ok s1"
  by (auto simp: reached_def Let_def clock_ok_def)

lemma timelineTick_ok:
  assumes "timeline_ok s" shows "timeline_ok (timelineTick m s)"
proof -
  obtain to ends s1 where r: "reached m s = (to, ends, s1)" by (metis prod_cases3)
  have "timeline_ok (emitAt m to s1)" by (rule emitAt_ok) (use reached_ok [OF r] assms in auto)
  then show ?thesis by (auto simp: timelineTick_def r Let_def)
qed

lemma live_ok:
  assumes "timeline_ok s" shows "timeline_ok (snd (live m v s))"
proof (cases "v = JUndef \<or> v = JNull \<or> \<not> tl_ticker s")
  case True
  then show ?thesis using assms by (auto simp: live_def Let_def timeline_ok_def)
next
  case False
  obtain to ends s1 where r: "reached m s = (to, ends, s1)" by (metis prod_cases3)
  obtain f s2 where st: "tlStep m to s1 = (f, s2)" by fastforce
  have "timeline_ok s2" using tlStep_ok [of s1 m to] reached_ok [OF r] assms by (auto simp: st)
  moreover have "timeline_ok (s2\<lparr>tl_actions := as\<rparr>) = timeline_ok s2" for as
    by (simp add: timeline_ok_def)
  ultimately show ?thesis using False by (auto simp: live_def r st Let_def)
qed

lemma setClock_ok: "timeline_ok s \<Longrightarrow> timeline_ok (setClock c s)"
  by (cases c) (auto simp: setClock_def timeline_ok_def rewind_def halt_def intro: inLoop_start)

lemma extentOf_setSettings: "\<not> loopChanged c \<Longrightarrow> extentOf (setSettings c s) = extentOf s"
  by (auto simp: loopChanged_def Let_def setSettings_def extentOf_def split: option.splits)

lemma setSettings_clock_ok: "clock_ok s \<Longrightarrow> clock_ok (setSettings c s)"
  using normalizePlacements_ok by (auto simp: clock_ok_def setSettings_def split: option.split)

lemma setPlacement_same:
  "clock_ok (setPlacement p s) = clock_ok s" "extentOf (setPlacement p s) = extentOf s" "inLoop (setPlacement p s) = inLoop s"
  "tl_clock (setPlacement p s) = tl_clock s"
proof -
  show "extentOf (setPlacement p s) = extentOf s" by (simp add: setPlacement_def extentOf_def split: option.split)
  moreover have "tl_pos (setPlacement p s) = tl_pos s" by (simp add: setPlacement_def split: option.split)
  ultimately show "inLoop (setPlacement p s) = inLoop s" by (rule inLoop_cong)
  show "clock_ok (setPlacement p s) = clock_ok s" by (simp add: setPlacement_def clock_ok_def split: option.split)
  show "tl_clock (setPlacement p s) = tl_clock s" by (simp add: setPlacement_def split: option.split)
qed

lemma refresh_out:
  obtains out where "refresh s = s\<lparr>tl_out := out\<rparr>"
proof (cases "refresh s = s")
  case True
  then show thesis using that [of "tl_out s"] by simp
next
  case False
  then show thesis using that unfolding refresh_def by (auto split: if_splits option.splits)
qed

lemma timelineConfigure_ok:
  assumes "timeline_ok s" shows "timeline_ok (timelineConfigure c m s)"
proof -
  define s0 where "s0 = setClock (cf_clock c) s"
  define s1 where "s1 = setPlacement (cf_placement c) (setSettings c s0)"
  define s2 where "s2 = (if cf_animates c \<or> cf_placements c \<noteq> None then refresh s1 else s1)"
  define s3 where "s3 = (if loopChanged c then intoLoop s2 else s2)"
  define s4 where "s4 = (case cf_seek c of Some to \<Rightarrow> seek m to s3 | None \<Rightarrow> s3)"
  have s0: "timeline_ok s0" unfolding s0_def by (rule setClock_ok [OF assms])
  then have c1: "clock_ok s1" by (auto simp: s1_def setPlacement_same intro: setSettings_clock_ok)
  obtain out where "refresh s1 = s1\<lparr>tl_out := out\<rparr>" by (rule refresh_out)
  then have "s2 = s1 \<or> s2 = s1\<lparr>tl_out := out\<rparr>" unfolding s2_def by simp
  then have s2: "clock_ok s2" "inLoop s2 = inLoop s1" "tl_clock s2 = tl_clock s1" using c1 by (auto simp: clock_ok_def)
  have "timeline_ok s3"
  proof (cases "loopChanged c")
    case True
    then show ?thesis using intoLoop_ok [OF s2(1)] by (simp add: s3_def)
  next
    case False
    have same: "tl_pos (setSettings c s0) = tl_pos s0" "tl_clock (setSettings c s0) = tl_clock s0" by (simp_all add: setSettings_def)
    have "inLoop (setSettings c s0) = inLoop s0" by (rule inLoop_cong [OF extentOf_setSettings [OF False] same(1)])
    then have "inLoop s1 = inLoop s0" "tl_clock s1 = tl_clock s0" by (simp_all add: s1_def setPlacement_same same(2))
    then show ?thesis using s0 s2 False by (simp add: s3_def timeline_ok_iff)
  qed
  then have "timeline_ok s4" by (auto simp: s4_def intro: seek_ok split: option.split)
  then have "timeline_ok (runState c m s4)" by (auto simp: runState_def intro: play_ok)
  then show ?thesis unfolding timelineConfigure_def Let_def s0_def s1_def s2_def s3_def s4_def .
qed

lemma driveTo_ok: "timeline_ok s \<Longrightarrow> timeline_ok (snd (driveTo i raw entering s))"
  using driveTo_fires(2) [of i raw entering s] by (auto simp: timeline_ok_def)

lemma timelineProcess_ok:
  assumes "timeline_ok s" shows "timeline_ok (snd (timelineProcess m i s))"
proof -
  have "timeline_ok (s\<lparr>tl_status := st\<rparr>)" "timeline_ok (s\<lparr>tl_status := st, tl_prevRaw := None, tl_lastDriven := None\<rparr>)" for st
    using assms by (simp_all add: timeline_ok_def)
  then show ?thesis
    using live_ok [OF assms] driveTo_ok assms
    by (auto simp: timelineProcess_def placedIn_def Let_def split: option.split)
qed

section \<open>Claims\<close>

text \<open>
  C24. Whenever the frames of a playing timeline come, and however many, at whatever tempo, through loops and
  to its end, and whatever inputs come in between: together they fire the actions that lie in the stretch of time
  travelled, each exactly once for each time it is passed, in the order of time.
\<close>

theorem frames_fire_what_time_passes:
  assumes "stands s" "\<not> tl_bypass s" "\<not> tl_recording s" "0 \<le> tl_speed s" "in_order (mo_now m) hs"
  shows "playFires m s @ fst (happenAll hs (play m s))
    = dueActions (tl_actions s) (tl_pos s) (tl_pos s + travelled s (mo_now m) hs) (extentOf s) (tl_fresh s)"
  by (rule play_then_fires [OF assms])

definition exampleTimeline :: TimelineState where
  "exampleTimeline = newTimeline\<lparr>tl_actions := [\<lparr>act_at = 1, act_data = JBool True\<rparr>], tl_length := 2, tl_loop := True\<rparr>"

abbreviation exampleTicks :: "happening list" where
  "exampleTicks \<equiv> [(\<lparr>mo_now = 700, mo_slot = None\<rparr>, None), (\<lparr>mo_now = 3300, mo_slot = None\<rparr>, None)]"

lemma exampleTimeline_fields:
  "tl_actions exampleTimeline = [\<lparr>act_at = 1, act_data = JBool True\<rparr>]" "tl_pos exampleTimeline = 0" "tl_fresh exampleTimeline"
  "\<not> tl_bypass exampleTimeline" "\<not> tl_recording exampleTimeline" "tl_speed exampleTimeline = 1" "tl_unit exampleTimeline = Seconds"
  "stands exampleTimeline"
  by (simp_all add: exampleTimeline_def newTimeline_def stands_def inLoop_def ends_at_def extentOf_def loopRange_def Let_def)

theorem frames_fire_what_time_passes_witness:
  "playFires \<lparr>mo_now = 0, mo_slot = None\<rparr> exampleTimeline @ fst (happenAll exampleTicks (play \<lparr>mo_now = 0, mo_slot = None\<rparr> exampleTimeline))
    = dueActions [\<lparr>act_at = 1, act_data = JBool True\<rparr>] 0 (33 / 10) (extentOf exampleTimeline) True"
proof -
  have "playFires \<lparr>mo_now = 0, mo_slot = None\<rparr> exampleTimeline @ fst (happenAll exampleTicks (play \<lparr>mo_now = 0, mo_slot = None\<rparr> exampleTimeline))
      = dueActions (tl_actions exampleTimeline) (tl_pos exampleTimeline)
          (tl_pos exampleTimeline + travelled exampleTimeline (mo_now \<lparr>mo_now = 0, mo_slot = None\<rparr>) exampleTicks)
          (extentOf exampleTimeline) (tl_fresh exampleTimeline)"
    by (rule frames_fire_what_time_passes) (simp_all add: exampleTimeline_fields)
  moreover have "travelled exampleTimeline (mo_now \<lparr>mo_now = 0, mo_slot = None\<rparr>) exampleTicks = 33 / 10"
    by (simp add: span_of_def perSecond_def exampleTimeline_fields)
  ultimately show ?thesis by (simp only: exampleTimeline_fields) simp
qed

definition stopIt :: TimelineConfig where
  "stopIt =
     \<lparr>cf_clock = None, cf_animates = False, cf_actions = None, cf_length = None, cf_loop = None, cf_loopStart = None, cf_loopEnd = None,
      cf_unit = None, cf_fps = None, cf_speed = None, cf_recording = None, cf_recordMode = None, cf_placements = None,
      cf_placement = None, cf_play = False, cf_pause = False, cf_stop = True, cf_running = None, cf_seek = None\<rparr>"

lemma stopIt_rewinds: "timelineConfigure stopIt m s = rewind (halt s)"
  by (simp add: timelineConfigure_def stopIt_def setClock_def setSettings_def setPlacement_def loopChanged_def runState_def Let_def)

text \<open>
  C25. What is recorded plays back: whatever inputs arrive while an empty, unbounded timeline records, once it is
  stopped and played again the same inputs leave it in the same order, as soon as time has come as far.
\<close>

theorem recording_plays_back:
  assumes "records s" "stands s" "tl_actions s = []" "0 \<le> tl_pos s"
    and "in_order (mo_now m) hs" "in_order (mo_now m2) hs2" "tl_pos s + travelled s (mo_now m) hs \<le> travelled s (mo_now m2) hs2"
  shows "let stopped = timelineConfigure stopIt m1 (snd (happenAll hs (play m s)))
    in playFires m2 stopped @ fst (happenAll hs2 (play m2 stopped)) = inputs_of hs"
proof -
  obtain out where p: "play m s = s\<lparr>tl_lastTick := mo_now m, tl_ticker := True, tl_running := True, tl_fresh := False,
      tl_hasEmitted := True, tl_jumpPending := False, tl_out := out\<rparr>" (is "_ = ?p")
    using play_stands(2) [OF assms(2)] assms(1) by (auto simp: records_def)
  have "records ?p" "tl_ticker ?p" "in_order (tl_lastTick ?p) hs" "\<forall>a\<in>set (tl_actions ?p). act_at a \<le> tl_pos ?p"
    using assms(1,3,5) by (simp_all add: records_def)
  from happenAll_records [OF this] obtain out' pos since fresh emitted jump where
      after: "snd (happenAll hs ?p) = ?p\<lparr>tl_out := out', tl_pos := pos, tl_lastTick := since, tl_fresh := fresh,
        tl_hasEmitted := emitted, tl_jumpPending := jump, tl_actions := tl_actions ?p @ recorded ?p (tl_pos ?p) (tl_lastTick ?p) hs\<rparr>"
    by blast
  define rec where "rec = recorded s (tl_pos s) (mo_now m) hs"
  have "recorded ?p (tl_pos ?p) (tl_lastTick ?p) hs = rec"
    unfolding rec_def by (subst recorded_cong [of _ s]) simp_all
  define stopped where "stopped = timelineConfigure stopIt m1 (snd (happenAll hs (play m s)))"
  have stopped: "stopped = rewind (halt (?p\<lparr>tl_out := out', tl_pos := pos, tl_lastTick := since, tl_fresh := fresh,
      tl_hasEmitted := emitted, tl_jumpPending := jump, tl_actions := rec\<rparr>))"
    unfolding stopped_def stopIt_rewinds p after using assms(3) \<open>recorded ?p _ _ _ = rec\<close> by simp
  have fields: "tl_actions stopped = rec" "tl_pos stopped = 0" "tl_fresh stopped" "\<not> tl_loop stopped" "tl_length stopped = 0"
      "\<not> tl_recording stopped" "\<not> tl_bypass stopped" "0 \<le> tl_speed stopped" "\<not> tl_ticker stopped" "tl_clock stopped = OwnClock"
    using assms(1) by (simp_all add: stopped rewind_def halt_def records_def)
  have "stands stopped" using fields by (simp add: stands_def ends_at_def inLoop_start)
  then have fired: "playFires m2 stopped @ fst (happenAll hs2 (play m2 stopped))
      = dueActions rec 0 (travelled stopped (mo_now m2) hs2) (extentOf stopped) True"
    using play_then_fires [of stopped m2 hs2] fields assms(6) by simp
  have t: "travelled stopped (mo_now m2) hs2 = travelled s (mo_now m2) hs2"
    by (rule travelled_cong) (simp_all add: stopped rewind_def halt_def)
  have speed: "0 \<le> tl_speed s" using assms(1) by (simp add: records_def)
  note R = recorded_between [OF assms(5) speed, of "tl_pos s", folded rec_def]
  have "\<forall>a\<in>set rec. 0 \<le> act_at a \<and> act_at a \<le> travelled s (mo_now m2) hs2"
    using R assms(4,7) by force
  moreover have "\<forall>a\<in>set rec. act_data a \<noteq> JUndef"
  proof
    fix a assume "a \<in> set rec"
    then have "act_data a \<in> set (inputs_of hs)" unfolding recorded_data [of s "tl_pos s" "mo_now m" hs, symmetric] rec_def by simp
    moreover have "JUndef \<notin> set (inputs_of hs)" if "in_order t hs" for t
      using that by (induction t hs rule: in_order.induct) (auto simp: inputs_of_def split: option.splits)
    ultimately show "act_data a \<noteq> JUndef" using assms(5) by metis
  qed
  ultimately have "dueActions rec 0 (travelled s (mo_now m2) hs2) (extentOf stopped) True = map act_data rec"
    using R fields(4,5) travelled_nonneg [OF assms(6) speed]
    by (intro dueActions_all) (simp_all add: loopRange_no_loop, simp add: extentOf_def)
  then show ?thesis unfolding Let_def stopped_def [symmetric] fired t by (simp only: rec_def recorded_data)
qed

theorem recording_plays_back_witness:
  "let s = newTimeline\<lparr>tl_recording := True\<rparr>;
       stopped = timelineConfigure stopIt \<lparr>mo_now = 2000, mo_slot = None\<rparr>
         (snd (happenAll [(\<lparr>mo_now = 1500, mo_slot = None\<rparr>, Some (JBool True))] (play \<lparr>mo_now = 1000, mo_slot = None\<rparr> s)))
   in playFires \<lparr>mo_now = 5000, mo_slot = None\<rparr> stopped
        @ fst (happenAll [(\<lparr>mo_now = 5500, mo_slot = None\<rparr>, None)] (play \<lparr>mo_now = 5000, mo_slot = None\<rparr> stopped)) = [JBool True]"
proof -
  let ?s = "newTimeline\<lparr>tl_recording := True\<rparr>" and ?hs = "[(\<lparr>mo_now = 1500, mo_slot = None\<rparr>, Some (JBool True))]"
  have "records ?s" "stands ?s" by (simp_all add: records_def stands_def newTimeline_def inLoop_def ends_at_def extentOf_def loopRange_def)
  moreover have "tl_actions ?s = []" "0 \<le> tl_pos ?s" by (simp_all add: newTimeline_def)
  moreover have "in_order (mo_now \<lparr>mo_now = 1000, mo_slot = None\<rparr>) ?hs" by simp
  moreover have "in_order (mo_now \<lparr>mo_now = 5000, mo_slot = None\<rparr>) [(\<lparr>mo_now = 5500, mo_slot = None\<rparr>, None)]" by simp
  moreover have "tl_pos ?s + travelled ?s (mo_now \<lparr>mo_now = 1000, mo_slot = None\<rparr>) ?hs
      \<le> travelled ?s (mo_now \<lparr>mo_now = 5000, mo_slot = None\<rparr>) [(\<lparr>mo_now = 5500, mo_slot = None\<rparr>, None)]"
    by (simp add: span_of_def perSecond_def newTimeline_def)
  ultimately have "let stopped = timelineConfigure stopIt \<lparr>mo_now = 2000, mo_slot = None\<rparr> (snd (happenAll ?hs (play \<lparr>mo_now = 1000, mo_slot = None\<rparr> ?s)))
      in playFires \<lparr>mo_now = 5000, mo_slot = None\<rparr> stopped
        @ fst (happenAll [(\<lparr>mo_now = 5500, mo_slot = None\<rparr>, None)] (play \<lparr>mo_now = 5000, mo_slot = None\<rparr> stopped)) = inputs_of ?hs"
    by (rule recording_plays_back)
  moreover have "inputs_of ?hs = [JBool True]" by (simp add: inputs_of_def)
  ultimately show ?thesis by (simp only: Let_def)
qed

text \<open>
  C26. A timeline driven over a pass and then, with no jump, from an earlier time again, fires everything from where
  it began to its end, exactly once, and then what lies from its start to the time it is at.
\<close>

theorem driver_starts_over:
  assumes "driven s" "tl_prevRaw s = None" "list_all keeps_time (i # is)" "list_all keeps_time (j # js)"
    and "sorted (map time_of (i # is))" "sorted (map time_of (j # js))" "0 \<le> time_of j" "time_of j < time_of (last (i # is))"
  shows "fst (driveAll m ((i # is) @ j # js) s)
    = dueActions (tl_actions s) (time_of i) (tl_length s) (extentOf s) True
      @ dueActions (tl_actions s) 0 (time_of (last (j # js))) (extentOf s) True"
proof -
  let ?as = "tl_actions s" and ?e = "extentOf s" and ?stop = "time_of (last (i # is))"
  have e: "loopRange ?e = None" "0 < ext_length ?e" "ext_length ?e = tl_length s"
    using assms(1) by (simp_all add: driven_def loopRange_no_loop) (simp_all add: extentOf_def)
  obtain l where one: "fst (driveAll m (i # is) s) = dueActions ?as (time_of i) ?stop ?e True"
      "snd (driveAll m (i # is) s) = s\<lparr>tl_prevRaw := Some ?stop, tl_lastDriven := l\<rparr>" (is "_ = ?s2")
    using driveAll_run [OF assms(1,3,5), of "[]" "time_of i" m] assms(2) by (auto simp: drivenDue_def)
  have two: "driven ?s2" "extentOf ?s2 = ?e" "tl_actions ?s2 = ?as" "tl_prevRaw ?s2 = Some ?stop"
    using assms(1) by (simp_all add: driven_def extentOf_def)
  have "fst (driveAll m (j # js) ?s2) = restOfPass ?as ?stop ?e @ dueActions ?as 0 (time_of (last (j # js))) ?e True"
    using driveAll_run [OF two(1) assms(4,6), of "restOfPass ?as ?stop ?e" 0 m] assms(7,8) unfolding two(2,3,4) drivenDue_def by simp
  then show ?thesis
    using pass_to_end [OF e(1,2) time_until [OF assms(5)], of ?as]
    unfolding driveAll_append fst_conv one restOfPass_no_loop [OF e(1,2)] e(3) by (metis append_assoc)
qed

abbreviation exampleFrame :: "rat \<Rightarrow> TimelineInput" where
  "exampleFrame t \<equiv> noFrame\<lparr>in_t := Some t\<rparr>"

theorem driver_starts_over_witness:
  "let s = newTimeline\<lparr>tl_clock := InputClock, tl_length := 4, tl_actions := [\<lparr>act_at = 3, act_data = JBool True\<rparr>]\<rparr>
   in fst (driveAll \<lparr>mo_now = 0, mo_slot = None\<rparr> [exampleFrame 0, exampleFrame 2, exampleFrame 1] s)
     = dueActions (tl_actions s) 0 4 (extentOf s) True @ dueActions (tl_actions s) 0 1 (extentOf s) True"
proof -
  let ?s = "newTimeline\<lparr>tl_clock := InputClock, tl_length := 4, tl_actions := [\<lparr>act_at = 3, act_data = JBool True\<rparr>]\<rparr>"
  have "driven ?s" "tl_prevRaw ?s = None" by (simp_all add: driven_def newTimeline_def)
  moreover have "list_all keeps_time [exampleFrame 0, exampleFrame 2]" "list_all keeps_time [exampleFrame 1]"
    by (simp_all add: keeps_time_def noFrame_def)
  moreover have t: "time_of (exampleFrame r) = r" for r by (simp add: time_of_def noFrame_def)
  moreover have "sorted (map time_of [exampleFrame 0, exampleFrame 2])" "sorted (map time_of [exampleFrame 1])"
      "0 \<le> time_of (exampleFrame 1)" "time_of (exampleFrame 1) < time_of (last [exampleFrame 0, exampleFrame 2])"
    by (simp_all add: t)
  ultimately have "fst (driveAll \<lparr>mo_now = 0, mo_slot = None\<rparr> ([exampleFrame 0, exampleFrame 2] @ [exampleFrame 1]) ?s)
      = dueActions (tl_actions ?s) (time_of (exampleFrame 0)) (tl_length ?s) (extentOf ?s) True
        @ dueActions (tl_actions ?s) 0 (time_of (last [exampleFrame 1])) (extentOf ?s) True"
    by (intro driver_starts_over)
  then show ?thesis by (simp add: t Let_def newTimeline_def del: driveAll.simps)
qed

text \<open>
  C31. In every execution, configured and fed in any way, a timeline is ticking exactly when it says that it runs, only
  with a clock of its own, and a clock that loops stands before the end of its loop; its placements have names
  and durations and are in the order of their starts.
\<close>

theorem timeline_well_kept:
  "timeline_step\<^sup>*\<^sup>* newTimeline s \<Longrightarrow> timeline_ok s"
proof (induction rule: rtranclp_induct)
  case base
  then show ?case by (simp add: timeline_ok_def newTimeline_def inLoop_start)
next
  case (step s s')
  from step(2) show ?case
  proof cases
    case bypassed
    then show ?thesis using step(3) by (simp add: timeline_ok_def)
  qed (use step(3) in \<open>blast intro: timelineConfigure_ok timelineTick_ok timelineProcess_ok\<close>)+
qed

theorem timeline_well_kept_witness:
  "timeline_ok (timelineConfigure (stopIt\<lparr>cf_stop := False, cf_play := True, cf_loop := Some True, cf_length := Some 2\<rparr>)
     \<lparr>mo_now = 0, mo_slot = None\<rparr> newTimeline)"
  by (rule timeline_well_kept) (rule r_into_rtranclp, rule timeline_step.configured)

text \<open>A placement beyond the end of its timeline is reported as under way, before its own start, when the end is reached.\<close>

theorem placement_past_end_reported:
  "let s = newTimeline\<lparr>tl_length := 4, tl_placements := [\<lparr>pl_name = ''a'', pl_at = 5, pl_duration = 2\<rparr>]\<rparr>
   in map fr_placements (tl_out (timelineTick \<lparr>mo_now = 5000, mo_slot = None\<rparr> (play \<lparr>mo_now = 0, mo_slot = None\<rparr> s)))
     = [Some [(''a'', None)], Some [(''a'', Some \<lparr>pp_progress = - 1 / 2, pp_elapsed = - 1\<rparr>)]]"
  by code_simp

end
