(* ===== verification/Spec2Isabelle.thy ===== *)
theory Spec2Isabelle
  imports BoardAddress BoardMount BoardParams BoardUnitsSave BoardUnitsChecks
    BoardBlocksSave BoardBlocksLinkage BoardRemote BoardWrap BoardAssets
    BoardLink Secrets SecretConsent ProcessContext RuntimeScope CallReport Hold
    Timeline YasMessage BridgeFrame PresetLibrary RuntimeOperations BoardSnapshots
    SpreadGather TimerService OverviewGraph
    AssetActions ForkBoard CoordinatorStore TimelinePlay
begin

text \<open>
  \<^bold>\<open>The engine of Readymade boards.\<close>  A board is a document: runtimes, the services in each, and what
  they are configured with.  The frontend (\<^verbatim>\<open>hkp-frontend/src\<close>) reads such documents, assembles several into
  one, expands what is used by reference, runs the result in the browser or on servers, and writes the
  documents back.  The theories below model that engine, the TypeScript of \<^verbatim>\<open>runtime/board\<close>, \<^verbatim>\<open>core\<close>
  and \<^verbatim>\<open>runtime\<close>, and prove what it is relied on for.

  \<^bold>\<open>From a document to a running board and back.\<close>  \<^verbatim>\<open>linkBoardDocument\<close> resolves the units a board names
  (\<^verbatim>\<open>BoardLink\<close>), places them into one flat board (\<^verbatim>\<open>BoardUnits\<close>), expands every use of a block (\<^verbatim>\<open>BlockLink\<close>
  over \<^verbatim>\<open>BoardBlocks\<close>), and remembers how in a linkage.  \<^verbatim>\<open>unlinkBoardDocuments\<close> takes the linkage and the
  board as it runs and gives back the documents.  The theorem \<^verbatim>\<open>openedBoard_saved\<close> (\<^verbatim>\<open>BoardDocuments\<close>) says the
  second undoes the first, for every unit and for the composition but for its own parameters, which are saved
  filled in; it composes the round trips of units (\<^verbatim>\<open>BoardUnitsSave\<close>), of
  blocks (\<^verbatim>\<open>BoardBlocksSave\<close>) and of block documents (\<^verbatim>\<open>BlockLink\<close>).

  \<^bold>\<open>The theories\<close>, by layer; each names its sources at its head, and each definition has the name of what it
  models.

  \<^item> \<^verbatim>\<open>JsPrelude\<close>, \<^verbatim>\<open>JsText\<close>, \<^verbatim>\<open>JsValue\<close>, \<^verbatim>\<open>JsJson\<close>, \<^verbatim>\<open>WireBytes\<close>: the language.  Strings, regular expressions as
    deterministic matchers (locale \<^verbatim>\<open>text_pattern\<close>, interpreted on every pattern the code uses), values of documents with the
    key order of objects, \<^verbatim>\<open>JSON.stringify\<close>, bytes of fixed width (locale \<^verbatim>\<open>byte_codec\<close>, interpreted
    on both byte orders).
  \<^item> \<^verbatim>\<open>BoardTraversal\<close>, \<^verbatim>\<open>BoardAddress\<close>, \<^verbatim>\<open>BoardMount\<close>, \<^verbatim>\<open>BoardParams\<close>, \<^verbatim>\<open>BoardAssets\<close>, \<^verbatim>\<open>BoardRemote\<close>: the vocabulary of a document
    (\<^verbatim>\<open>runtime/board/*.ts\<close>): addresses, references to endpoints, parameters, assets, servers.
  \<^item> \<^verbatim>\<open>BoardUnits\<close>, \<^verbatim>\<open>BoardUnitsSave\<close>, \<^verbatim>\<open>BoardUnitsChecks\<close>, \<^verbatim>\<open>BoardLink\<close>: composition of boards (\<^verbatim>\<open>units.ts\<close>, \<^verbatim>\<open>linkUnits.ts\<close>): placing,
    the checks, saving with a three-way merge, the loop over references of references.
  \<^item> \<^verbatim>\<open>BoardBlocks\<close>, \<^verbatim>\<open>BoardBlocksSave\<close>, \<^verbatim>\<open>BoardBlocksLinkage\<close>, \<^verbatim>\<open>BlockLink\<close>, \<^verbatim>\<open>BoardWrap\<close>: blocks (\<^verbatim>\<open>blocks.ts\<close>, \<^verbatim>\<open>linkBlocks.ts\<close>,
    \<^verbatim>\<open>wrap.ts\<close>): expansion of uses at any depth, the linkage and the operations on it, collapse.
  \<^item> \<^verbatim>\<open>Presets\<close>, \<^verbatim>\<open>PresetLibrary\<close>: configurations kept for reuse (\<^verbatim>\<open>presets.ts\<close>), and the library with its
    asynchronous writes as a step relation.
  \<^item> \<^verbatim>\<open>BoardDocuments\<close>, \<^verbatim>\<open>BoardState\<close>, \<^verbatim>\<open>RuntimeOperations\<close>, \<^verbatim>\<open>BoardSnapshots\<close>: opening and saving a document,
    restoring, replacing and serialising the board on the page (\<^verbatim>\<open>boardPersistence.ts\<close>), the operations on its
    runtimes as a step relation \<^verbatim>\<open>board_step\<close> (\<^verbatim>\<open>runtimeOperations.ts\<close>), and keeping a running board
    (\<^verbatim>\<open>boardSnapshots.ts\<close>).  What the runtimes, the person and the session answer is the record \<^verbatim>\<open>Host\<close>.
  \<^item> \<^verbatim>\<open>AssetActions\<close>, \<^verbatim>\<open>ForkBoard\<close>, \<^verbatim>\<open>CoordinatorStore\<close>: editing assets on running runtimes, with every
    call one that may be refused (\<^verbatim>\<open>assetActions.ts\<close>), copying a board so that it is one of its own
    (\<^verbatim>\<open>forkBoard.ts\<close>), and what a browser is told of a board by its coordinator
    (\<^verbatim>\<open>coordinatorSnapshot.ts\<close>), against a history of the board.
  \<^item> \<^verbatim>\<open>Secrets\<close>, \<^verbatim>\<open>SecretConsent\<close>: references to secrets, audiences, the vault, consent
    (\<^verbatim>\<open>secrets.ts\<close>, \<^verbatim>\<open>vault.ts\<close>, \<^verbatim>\<open>secretConsent.ts\<close>).  Locales \<^verbatim>\<open>secret_store\<close> and \<^verbatim>\<open>pinning_store\<close> are what the
    code relies on of a store, interpreted on the vault and on the empty store; \<^verbatim>\<open>grant_store\<close> is interpreted on
    the grants in local storage.
  \<^item> \<^verbatim>\<open>ProcessContext\<close>, \<^verbatim>\<open>RuntimeScope\<close>, \<^verbatim>\<open>CallReport\<close>, \<^verbatim>\<open>Slots\<close>, \<^verbatim>\<open>Hold\<close>, \<^verbatim>\<open>Timeline\<close>: the browser runtime.  Who acts in
    a run, passes cut at their awaits and interleaved, what a call reports, the shared slots (locale
    \<^verbatim>\<open>cell_store\<close>), the Hold service as shared registers over them, what a timeline has due.
  \<^item> \<^verbatim>\<open>BrowserApi\<close>, \<^verbatim>\<open>SubService\<close>, \<^verbatim>\<open>SpreadGather\<close>, \<^verbatim>\<open>TimerService\<close>: services of the browser runtime.  How instances
    are made, configured and restored (\<^verbatim>\<open>BrowserRuntimeApi.ts\<close>), a pipeline inside a service with its
    asynchronous builds (\<^verbatim>\<open>BrowserSubService.tsx\<close>), taking a value apart and putting it together
    (\<^verbatim>\<open>Spread.ts\<close>, \<^verbatim>\<open>BrowserGather.ts\<close>, \<^verbatim>\<open>BrowserIterator.ts\<close>), ticks under a clock and the timers of the host by
    their handles (\<^verbatim>\<open>Timer.ts\<close>).  \<^verbatim>\<open>TimelinePlay\<close> is the
    Timeline service over \<^verbatim>\<open>Timeline\<close>: playing, recording and being driven (\<^verbatim>\<open>Timeline.ts\<close>).  \<^verbatim>\<open>JsNumber\<close> has
    the integers among the numbers of documents.
  \<^item> \<^verbatim>\<open>OverviewGraph\<close>: the board as a scene (\<^verbatim>\<open>overview/graph.ts\<close>): where every service at every depth is placed,
    and the edges.
  \<^item> \<^verbatim>\<open>YasMessage\<close>, \<^verbatim>\<open>BridgeFrame\<close>: the wire formats (\<^verbatim>\<open>runtime/rest/Message.ts\<close>, \<^verbatim>\<open>bridgeBinary.ts\<close>).

  \<^bold>\<open>Conventions.\<close>  A thrown error is the left of a sum or \<^const>\<open>None\<close>; an asynchronous function is cut at its
  awaits, and what may happen between is a step relation with any order of steps.  A promise several calls
  wait for is kept as what it will be answered with (the questions of \<^verbatim>\<open>remotePrompt.ts\<close> in \<^verbatim>\<open>BoardState\<close>).  Strings are
  lists of code units below 256 (a dash of a message is written as a hyphen).  Numbers of documents are
  exact decimals, positions in time are rationals or integers; machine integers on the wire are words.
  Objects are association lists in the order of their keys.

  \<^bold>\<open>Parameters.\<close>  Code outside the repository and the outside world are arguments of the definitions: the URL
  parser, \<^verbatim>\<open>TextDecoder\<close> and \<^verbatim>\<open>JSON.parse\<close>, random bytes, run ids and the clock, where the units come from,
  what a person answers, what a runtime server does.  Where a theorem needs a law of one it is a
  hypothesis, and its witness an instance that has it.

  \<^bold>\<open>Termination.\<close>  Recursion is structural or has a measure; the loop over the references of a
  composition is a \<^verbatim>\<open>partial_function\<close>, proved to end for every origin of finitely many documents
  (\<^verbatim>\<open>linkBoard_ends\<close>), among them the files of a folder.  No fuel is used.

  \<^bold>\<open>Not modelled.\<close>  The user interface (React components), rendering and layout, device and network
  services, authentication, the C++ runtime and desktop host, the MCP server and vendored code.
\<close>

end
